(* ===== verification/Prelude.thy ===== *)
theory Prelude
  imports Main "HOL-Library.Word" "HOL-Library.Signed_Division"
begin

text \<open>
  What every component of the development shares: the machine-integer types of the
  amd64 kernel the runtime is built for, the OCaml exceptions a C primitive can raise,
  the collections of simplification rules, and general lemmas on words, lists and maps.
\<close>

unbundle bit_operations_syntax

section \<open>Machine types\<close>

text \<open>The C types at their amd64 widths (\<open>config.h\<close>: \<open>intnat\<close> is \<open>long\<close>).\<close>

type_synonym u8 = "8 word"
type_synonym u16 = "16 word"
type_synonym u32 = "32 word"
type_synonym u64 = "64 word"

text \<open>
  Addresses count machine words: the C pointer \<open>p\<close> (always a multiple of
  \<open>sizeof(value) = 8\<close> here) is the natural number \<open>p / 8\<close>; \<open>NULL\<close> is \<open>0\<close>.
\<close>

type_synonym addr = nat

section \<open>Exceptions raised by the primitives\<close>

text \<open>The exceptions of \<open>fail.c\<close> that the modelled primitives raise.\<close>

datatype caml_exn =
    Failure string
  | Invalid_argument string
  | Out_of_memory
  | Not_found
  | Division_by_zero
  | End_of_file
  | Index_out_of_bounds

type_synonym 'a outcome = "caml_exn + 'a"

definition bind_outcome :: "'a outcome \<Rightarrow> ('a \<Rightarrow> 'b outcome) \<Rightarrow> 'b outcome" where
  "bind_outcome r f = (case r of Inl e \<Rightarrow> Inl e | Inr a \<Rightarrow> f a)"

lemma bind_outcome_simps [simp]:
  "bind_outcome (Inl e) f = Inl e"
  "bind_outcome (Inr a) f = f a"
  by (simp_all add: bind_outcome_def)

lemma bind_outcome_Inr_iff:
  "bind_outcome r f = Inr b \<longleftrightarrow> (\<exists>a. r = Inr a \<and> f a = Inr b)"
  by (cases r) auto

section \<open>Collections of rules\<close>

named_theorems header_simps \<open>reading back the fields of a block header\<close>
named_theorems mem_simps \<open>reading a memory after a write\<close>
named_theorems step_simps \<open>the equations of the step functions\<close>

section \<open>Words\<close>

lemma unat_lt_pow2 [intro]: "unat (x :: 'a::len word) < 2 ^ LENGTH('a)"
  by simp

lemma unat_of_nat_small: "n < 2 ^ LENGTH('a) \<Longrightarrow> unat (of_nat n :: 'a::len word) = n"
  by (simp add: unsigned_of_nat take_bit_nat_eq_self)

lemma unat_of_nat_mod: "unat (of_nat n :: 'a::len word) = n mod 2 ^ LENGTH('a)"
  by (simp add: unsigned_of_nat take_bit_nat_def)

lemma unat_plus_small:
  "unat x + unat y < 2 ^ LENGTH('a) \<Longrightarrow> unat (x + y :: 'a::len word) = unat x + unat y"
  by (simp add: unat_word_ariths)

lemma unat_push_bit_small:
  assumes "unat x * 2 ^ n < 2 ^ LENGTH('a)"
  shows "unat (push_bit n (x :: 'a::len word)) = unat x * 2 ^ n"
  using assms
  by (metis take_bit_nat_eq_self_iff push_bit_eq_mult unsigned_push_bit_eq)

lemma unat_and_mask: "unat (x AND mask n :: 'a::len word) = unat x mod 2 ^ n"
  by (metis take_bit_eq_mask take_bit_eq_mod unsigned_take_bit_eq)

lemma unat_shiftr: "unat (drop_bit n x :: 'a::len word) = unat x div 2 ^ n"
  by (metis drop_bit_eq_div unat_drop_bit_eq)

lemma unat_ucast_up:
  "LENGTH('a) \<le> LENGTH('b) \<Longrightarrow> unat (ucast x :: 'b::len word) = unat (x :: 'a::len word)"
  by (simp add: unsigned_ucast_eq take_bit_nat_eq_self_iff)
    (meson le_less_trans less_le_trans one_le_numeral power_increasing unsigned_less)

lemma unat_ucast_mod: "unat (ucast x :: 'b::len word) = unat (x :: 'a::len word) mod 2 ^ LENGTH('b)"
  by (simp add: unsigned_ucast_eq take_bit_eq_mod)

text \<open>Quotient and remainder by a fixed number, as linear facts.\<close>

lemma div_mod_linear:
  fixes n d :: nat
  obtains q r where "n div d = q" "n mod d = r" "n = q * d + r" "0 < d \<longrightarrow> r < d"
  using div_mult_mod_eq [of n d] mod_less_divisor by metis

text \<open>C's division truncates; on nonnegative numbers it is the Euclidean one.\<close>

lemma sdiv_nonneg: "0 \<le> a \<Longrightarrow> 0 < b \<Longrightarrow> a sdiv b = a div b" for a b :: int
proof (cases "a = 0")
  case False
  assume "0 \<le> a" "0 < b"
  with False have "sgn a = 1" "sgn b = 1" by simp_all
  with \<open>0 \<le> a\<close> \<open>0 < b\<close> show ?thesis by (simp add: signed_divide_int_def)
qed (simp add: signed_divide_int_def)

lemma smod_nonneg: "0 \<le> a \<Longrightarrow> 0 < b \<Longrightarrow> a smod b = a mod b" for a b :: int
proof (cases "a = 0")
  case False
  assume "0 \<le> a" "0 < b"
  with False have "sgn a = 1" "sgn b = 1" by simp_all
  with \<open>0 \<le> a\<close> \<open>0 < b\<close> show ?thesis by (simp add: signed_modulo_int_def)
qed (simp add: signed_modulo_int_def)

lemma divmod_int_pos:
  fixes q :: int
  assumes "0 \<le> q" "0 \<le> r" "r < b"
  shows "(q * b + r) smod b = r" "(q * b + r) sdiv b = q"
  using assms by (simp_all add: sdiv_nonneg smod_nonneg)

section \<open>Lists\<close>

lemma sum_list_map_append3:
  "sum_list (map f (xs @ y # ys)) = sum_list (map f xs) + (f y + sum_list (map f ys))"
  for f :: "'a \<Rightarrow> 'b::comm_monoid_add"
  by simp

lemma sorted_wrt_snoc:
  "sorted_wrt P (xs @ [y]) \<longleftrightarrow> sorted_wrt P xs \<and> (\<forall>x\<in>set xs. P x y)"
  by (auto simp: sorted_wrt_append)

end
