(* ===== verification/Values.thy ===== *)
theory Values
  imports Prelude
begin

text \<open>
  The representation of OCaml values (\<open>mlvalues.h\<close>, \<open>gc.h\<close>): tagged integers,
  block headers and the constants both fix. Every macro is translated at its machine
  width; the lemmas show that packing and unpacking agree inside the documented bounds.
\<close>

section \<open>Tagged integers\<close>

type_synonym header = u64

definition Is_long :: "u64 \<Rightarrow> bool" where
  "Is_long x \<longleftrightarrow> x AND 1 \<noteq> 0"

definition Is_block :: "u64 \<Rightarrow> bool" where
  "Is_block x \<longleftrightarrow> x AND 1 = 0"

definition Val_long :: "u64 \<Rightarrow> u64" where
  "Val_long x = push_bit 1 x + 1"

definition Long_val :: "u64 \<Rightarrow> u64" where
  \<comment> \<open>\<open>>>\<close> on the signed \<open>intnat\<close>: an arithmetic shift\<close>
  "Long_val x = signed_drop_bit 1 x"

definition Int_val :: "u64 \<Rightarrow> u32" where
  \<comment> \<open>the cast to \<open>int\<close> keeps the low 32 bits\<close>
  "Int_val x = ucast (Long_val x)"

definition Max_long :: int where "Max_long = 2 ^ 62 - 1"
definition Min_long :: int where "Min_long = - (2 ^ 62)"

definition Val_bool :: "bool \<Rightarrow> u64" where
  "Val_bool b = Val_long (if b then 1 else 0)"

definition Val_not :: "u64 \<Rightarrow> u64" where
  "Val_not x = Val_bool False + Val_bool True - x"

definition Val_unit :: u64 where "Val_unit = Val_long 0"
definition Val_emptylist :: u64 where "Val_emptylist = Val_long 0"

section \<open>Block headers\<close>

definition Caml_white :: header where "Caml_white = push_bit 8 0"
definition Caml_gray :: header where "Caml_gray = push_bit 8 1"
definition Caml_blue :: header where "Caml_blue = push_bit 8 2"
definition Caml_black :: header where "Caml_black = push_bit 8 3"

definition Make_header :: "u64 \<Rightarrow> u64 \<Rightarrow> u64 \<Rightarrow> header" where
  "Make_header wosize tg col = push_bit 10 wosize + col + tg"

definition Tag_hd :: "header \<Rightarrow> u64" where
  "Tag_hd h = h AND 0xFF"

definition Wosize_hd :: "header \<Rightarrow> u64" where
  "Wosize_hd h = drop_bit 10 h"

definition Whsize_hd :: "header \<Rightarrow> u64" where
  "Whsize_hd h = Wosize_hd h + 1"

definition Color_hd :: "header \<Rightarrow> u64" where
  "Color_hd h = h AND Caml_black"

definition Whitehd_hd :: "header \<Rightarrow> header" where
  "Whitehd_hd h = h AND NOT Caml_black"

definition Grayhd_hd :: "header \<Rightarrow> header" where
  "Grayhd_hd h = (h AND NOT Caml_black) OR Caml_gray"

definition Blackhd_hd :: "header \<Rightarrow> header" where
  "Blackhd_hd h = h OR Caml_black"

definition Bluehd_hd :: "header \<Rightarrow> header" where
  "Bluehd_hd h = (h AND NOT Caml_black) OR Caml_blue"

definition Max_wosize :: nat where "Max_wosize = 2 ^ 54 - 1"

definition No_scan_tag :: nat where "No_scan_tag = 251"
definition Forward_tag :: nat where "Forward_tag = 250"
definition Infix_tag :: nat where "Infix_tag = 249"
definition Object_tag :: nat where "Object_tag = 248"
definition Closure_tag :: nat where "Closure_tag = 247"
definition Lazy_tag :: nat where "Lazy_tag = 246"
definition Abstract_tag :: nat where "Abstract_tag = 251"
definition String_tag :: nat where "String_tag = 252"
definition Double_tag :: nat where "Double_tag = 253"
definition Double_array_tag :: nat where "Double_array_tag = 254"
definition Custom_tag :: nat where "Custom_tag = 255"

lemmas tag_defs = No_scan_tag_def Forward_tag_def Infix_tag_def Object_tag_def
  Closure_tag_def Lazy_tag_def Abstract_tag_def String_tag_def Double_tag_def
  Double_array_tag_def Custom_tag_def

lemmas color_defs = Caml_white_def Caml_gray_def Caml_blue_def Caml_black_def

section \<open>Lemmas\<close>

lemma Is_block_iff: "Is_block x \<longleftrightarrow> \<not> Is_long x"
  by (simp add: Is_block_def Is_long_def)

lemma Is_long_Val_long [simp]: "Is_long (Val_long n)"
  by (simp add: Is_long_def Val_long_def and_one_eq push_bit_eq_mult mod2_eq_if)

lemma sint_Val_long:
  assumes "Min_long \<le> sint n" "sint n \<le> Max_long"
  shows "sint (Val_long n) = 2 * sint n + 1"
proof -
  have "Val_long n = word_of_int (2 * sint n + 1)"
    by (simp add: Val_long_def push_bit_eq_mult)
  moreover have "signed_take_bit 63 (2 * sint n + 1) = 2 * sint n + 1"
    using assms by (intro signed_take_bit_int_eq_self) (simp_all add: Min_long_def Max_long_def)
  ultimately show ?thesis
    by (simp only: sint_sbintrunc') simp
qed

lemma Long_val_Val_long:
  assumes "Min_long \<le> sint n" "sint n \<le> Max_long"
  shows "Long_val (Val_long n) = n"
proof -
  have "sint (Long_val (Val_long n)) = sint n"
    using sint_Val_long [OF assms]
    by (simp add: Long_val_def sint_signed_drop_bit_eq drop_bit_eq_div)
  then show ?thesis by (simp add: signed_word_eqI)
qed

lemma unat_Tag_hd [header_simps]: "unat (Tag_hd h) = unat h mod 256"
  using unat_and_mask [of h 8] by (simp add: Tag_hd_def mask_eq_exp_minus_1)

lemma unat_Wosize_hd [header_simps]: "unat (Wosize_hd h) = unat h div 1024"
  by (simp add: Wosize_hd_def unat_shiftr)

lemma and_push_bit_mask:
  "x AND push_bit n (mask m) = push_bit n (take_bit m (drop_bit n x))" for x :: "'a::len word"
  by (rule bit_eqI) (auto simp: bit_simps)

lemma unat_Color_hd [header_simps]: "unat (Color_hd h) = (unat h div 256 mod 4) * 256"
proof -
  have m: "unat (take_bit 2 (drop_bit 8 h)) = unat h div 256 mod 4"
    by (subst unsigned_take_bit_eq) (simp add: unat_shiftr take_bit_eq_mod)
  have "Color_hd h = push_bit 8 (take_bit 2 (drop_bit 8 h))"
    using and_push_bit_mask [of h 8 2] by (simp add: Color_hd_def Caml_black_def mask_eq_exp_minus_1)
  moreover have "unat (push_bit 8 (take_bit 2 (drop_bit 8 h))) = unat h div 256 mod 4 * 256"
    using unat_push_bit_small [of "take_bit 2 (drop_bit 8 h)" 8] m by simp
  ultimately show ?thesis by simp
qed

lemma Wosize_hd_le [simp]: "unat (Wosize_hd h) \<le> Max_wosize"
proof -
  have "unat h < 2 ^ 64" using unat_lt_pow2 [of h] by simp
  then show ?thesis by (simp add: header_simps Max_wosize_def)
qed

lemma unat_Whsize_hd [header_simps]: "unat (Whsize_hd h) = unat (Wosize_hd h) + 1"
  unfolding Whsize_hd_def
  using Wosize_hd_le [of h] by (subst unat_plus_small) (auto simp: Max_wosize_def)

lemma unat_Make_header:
  assumes "unat w \<le> Max_wosize" "unat t < 256" "c \<in> {Caml_white, Caml_gray, Caml_blue, Caml_black}"
  shows "unat (Make_header w t c) = unat w * 1024 + unat c + unat t"
proof -
  from assms(3) have c: "unat c \<le> 768"
    by (auto simp: color_defs)
  have p: "unat (push_bit 10 w) = unat w * 1024"
    using assms(1) by (subst unat_push_bit_small) (auto simp: Max_wosize_def)
  have 1: "unat (push_bit 10 w + c) = unat w * 1024 + unat c"
    using assms(1) c by (subst unat_plus_small) (auto simp: p Max_wosize_def)
  show ?thesis
    unfolding Make_header_def
    using assms(1,2) c by (subst unat_plus_small) (auto simp: 1 Max_wosize_def)
qed

text \<open>What is packed into a header is read back from it, for every size up to \<open>Max_wosize\<close>.\<close>

lemma Make_header_fields [header_simps]:
  assumes "unat w \<le> Max_wosize" "unat t < 256" "c \<in> {Caml_white, Caml_gray, Caml_blue, Caml_black}"
  shows "Wosize_hd (Make_header w t c) = w"
    and "Tag_hd (Make_header w t c) = t"
    and "Color_hd (Make_header w t c) = c"
proof -
  note u = unat_Make_header [OF assms]
  from assms(3) obtain k where k: "unat c = 256 * k" "k < 4"
    by (auto simp: color_defs)
  have "unat (Make_header w t c) = unat t + 256 * (unat w * 4 + k)"
    by (simp add: u k)
  then have "unat (Make_header w t c) mod 256 = unat t"
    using assms(2) by (simp only: mod_mult_self2) simp
  then show "Tag_hd (Make_header w t c) = t"
    by (simp add: word_unat_eq_iff header_simps)
  have "unat (Make_header w t c) div 256 = unat w * 4 + k"
    using assms(2) by (simp add: u k div_mult_self3)
  then show "Color_hd (Make_header w t c) = c"
    using k by (simp add: word_unat_eq_iff header_simps mult.commute)
  have "unat (Make_header w t c) div 1024 = unat w"
    using assms(2) k by (simp add: u)
  then show "Wosize_hd (Make_header w t c) = w"
    by (simp add: word_unat_eq_iff header_simps)
qed

lemma bit_colors:
  "bit Caml_black n \<longleftrightarrow> n = 8 \<or> n = 9" "bit Caml_gray n \<longleftrightarrow> n = 8"
  "bit Caml_blue n \<longleftrightarrow> n = 9" "\<not> bit Caml_white n"
proof -
  have e: "Caml_black = push_bit 8 (mask 2)" "Caml_gray = push_bit 8 (mask 1)"
    "Caml_blue = push_bit 9 (mask 1)"
    by (simp_all add: color_defs mask_eq_exp_minus_1)
  show "bit Caml_black n \<longleftrightarrow> n = 8 \<or> n = 9"
    unfolding e by (simp only: bit_push_bit_iff bit_mask_iff) auto
  show "bit Caml_gray n \<longleftrightarrow> n = 8"
    unfolding e by (simp only: bit_push_bit_iff bit_mask_iff) auto
  show "bit Caml_blue n \<longleftrightarrow> n = 9"
    unfolding e by (simp only: bit_push_bit_iff bit_mask_iff) auto
  show "\<not> bit Caml_white n" by (simp add: Caml_white_def)
qed

text \<open>Recolouring a header changes its colour and nothing else.\<close>

lemma recolor_fields [header_simps]:
  "Wosize_hd (Whitehd_hd h) = Wosize_hd h" "Wosize_hd (Grayhd_hd h) = Wosize_hd h"
  "Wosize_hd (Blackhd_hd h) = Wosize_hd h" "Wosize_hd (Bluehd_hd h) = Wosize_hd h"
  "Tag_hd (Whitehd_hd h) = Tag_hd h" "Tag_hd (Grayhd_hd h) = Tag_hd h"
  "Tag_hd (Blackhd_hd h) = Tag_hd h" "Tag_hd (Bluehd_hd h) = Tag_hd h"
  "Color_hd (Whitehd_hd h) = Caml_white" "Color_hd (Grayhd_hd h) = Caml_gray"
  "Color_hd (Blackhd_hd h) = Caml_black" "Color_hd (Bluehd_hd h) = Caml_blue"
proof -
  have t: "(0xFF :: u64) = mask 8" by (simp add: mask_eq_exp_minus_1)
  note d = Whitehd_hd_def Grayhd_hd_def Blackhd_hd_def Bluehd_hd_def
    Wosize_hd_def Tag_hd_def Color_hd_def t
  show "Wosize_hd (Whitehd_hd h) = Wosize_hd h" "Wosize_hd (Grayhd_hd h) = Wosize_hd h"
    "Wosize_hd (Blackhd_hd h) = Wosize_hd h" "Wosize_hd (Bluehd_hd h) = Wosize_hd h"
    "Tag_hd (Whitehd_hd h) = Tag_hd h" "Tag_hd (Grayhd_hd h) = Tag_hd h"
    "Tag_hd (Blackhd_hd h) = Tag_hd h" "Tag_hd (Bluehd_hd h) = Tag_hd h"
    "Color_hd (Whitehd_hd h) = Caml_white" "Color_hd (Grayhd_hd h) = Caml_gray"
    "Color_hd (Blackhd_hd h) = Caml_black" "Color_hd (Bluehd_hd h) = Caml_blue"
    by (rule bit_eqI; auto simp: d bit_simps bit_colors dest: bit_imp_le_length)+
qed

text \<open>Small natural numbers survive the round trip through a tagged integer.\<close>

lemma sint_of_nat_small: "n < 2 ^ (LENGTH('a) - 1) \<Longrightarrow> sint (of_nat n :: 'a::len word) = int n"
proof -
  assume "n < 2 ^ (LENGTH('a) - 1)"
  then have "int n < 2 ^ (LENGTH('a) - 1)"
    by (metis of_nat_less_iff of_nat_numeral of_nat_power)
  moreover have "- (2 ^ (LENGTH('a) - 1)) \<le> int n"
    by (rule order_trans [of _ 0]) simp_all
  ultimately show ?thesis
    by (simp add: signed_of_nat signed_take_bit_int_eq_self)
qed

lemma Long_val_Val_long_of_nat: "n < 2 ^ 62 \<Longrightarrow> Long_val (Val_long (of_nat n)) = of_nat n"
  by (rule Long_val_Val_long) (simp_all add: sint_of_nat_small Min_long_def Max_long_def)

lemma Int_val_Val_long_of_nat: "n < 2 ^ 31 \<Longrightarrow> Int_val (Val_long (of_nat n)) = of_nat n"
  by (simp add: Int_val_def Long_val_Val_long_of_nat word_unat_eq_iff unat_ucast_mod unat_of_nat_small)

lemma Int_val_Val_long_numeral [simp]:
  "numeral k < (2 ^ 31 :: nat) \<Longrightarrow> Int_val (Val_long (numeral k)) = numeral k"
  using Int_val_Val_long_of_nat [of "numeral k"] by simp

lemma size_of_Int_val: "n < 2 ^ 31 \<Longrightarrow> unat (scast (Int_val (Val_long (of_nat n))) :: u64) = n"
  by (simp add: Int_val_Val_long_of_nat sint_of_nat_small unat_of_nat_small scast_eq)

end
