(* ===== verification/Checksum.thy ===== *)
theory Checksum
  imports Values
begin

text \<open>
  The Internet checksum of the network stack (\<open>kernel/checksum_stubs.c\<close>): the 16-bit
  one's complement sum of a buffer, and of a list of buffers. Memory is a function from
  byte addresses to bytes; a one-dimensional byte array is its data address and its
  first dimension. The lemmas relate the loops to one sum modulo \<open>65535\<close>.
\<close>

section \<open>The code\<close>

type_synonym bytes_mem = "nat \<Rightarrow> u8"

record ba_view =
  ba_data :: nat
  ba_dim0 :: nat

text \<open>\<open>uint16_t v = (*addr << 8) + *(addr+1)\<close>\<close>

definition load_be16 :: "bytes_mem \<Rightarrow> nat \<Rightarrow> u16" where
  "load_be16 m a = push_bit 8 (ucast (m a)) + ucast (m (a + 1))"

fun checksum_pairs :: "bytes_mem \<Rightarrow> nat \<Rightarrow> nat \<Rightarrow> u32 \<Rightarrow> nat \<times> nat \<times> u32" where
  "checksum_pairs m a count sm =
     (if count > 1 then checksum_pairs m (a + 2) (count - 2) (sm + ucast (load_be16 m a))
      else (a, count, sm))"

declare checksum_pairs.simps [simp del]

function checksum_fold :: "u32 \<Rightarrow> u32" where
  "checksum_fold sm =
     (if drop_bit 16 sm \<noteq> 0 then checksum_fold ((sm AND 0xffff) + drop_bit 16 sm) else sm)"
  by pat_completeness auto

definition checksum_bigarray :: "bytes_mem \<Rightarrow> nat \<Rightarrow> nat \<Rightarrow> u32 \<Rightarrow> u32" where
  "checksum_bigarray m a count sm =
     (case checksum_pairs m a count sm of (a', count', sm') \<Rightarrow>
        checksum_fold (if count' > 0 then sm' + push_bit 8 (ucast (m a')) else sm'))"

lemma fold_step_unat:
  "unat ((sm AND 0xffff) + drop_bit 16 sm :: u32) = unat sm mod 65536 + unat sm div 65536"
proof -
  have m: "unat (sm AND 0xffff) = unat sm mod 65536"
    using unat_and_mask [of sm 16] by (simp add: mask_eq_exp_minus_1)
  have d: "unat (drop_bit 16 sm) = unat sm div 65536"
    by (simp add: unat_shiftr)
  have "unat sm < 2 ^ 32" using unat_lt_pow2 [of sm] by simp
  then have "unat sm div 65536 < 65536" by (simp add: less_mult_imp_div_less)
  moreover have "unat sm mod 65536 < 65536" by simp
  ultimately have "unat (sm AND 0xffff) + unat (drop_bit 16 sm) < 2 ^ LENGTH(32)"
    unfolding m d by simp
  then show ?thesis by (simp only: unat_plus_small m d)
qed

lemma drop_bit16_nonzero: "drop_bit 16 sm \<noteq> 0 \<longleftrightarrow> 65536 \<le> unat sm" for sm :: u32
proof -
  have "drop_bit 16 sm = 0 \<longleftrightarrow> unat sm div 65536 = 0"
    by (simp add: word_unat_eq_iff unat_shiftr)
  then show ?thesis by (simp add: div_eq_0_iff not_less)
qed

termination checksum_fold
proof (relation "measure unat")
  fix sm :: u32
  assume "drop_bit 16 sm \<noteq> 0"
  then have "65536 \<le> unat sm" by (simp only: drop_bit16_nonzero)
  moreover obtain q r where "unat sm div 65536 = q" "unat sm mod 65536 = r"
    "unat sm = q * 65536 + r" "r < 65536"
    using div_mod_linear [of "unat sm" 65536] by (metis zero_less_numeral)
  ultimately show "((sm AND 0xffff) + drop_bit 16 sm, sm) \<in> measure unat"
    by (simp add: fold_step_unat)
qed simp

declare checksum_fold.simps [simp del]

definition caml_ones_complement_checksum :: "bytes_mem \<Rightarrow> ba_view \<Rightarrow> u64 \<Rightarrow> u64" where
  "caml_ones_complement_checksum m v_ba v_len =
     (let sm = checksum_bigarray m (ba_data v_ba) (unat (scast (Int_val v_len) :: u64)) 0;
          checksum = (ucast (NOT sm) :: u16)
      in Val_long (ucast checksum))"

fun checksum_list_sum :: "bytes_mem \<Rightarrow> ba_view list \<Rightarrow> u32 \<Rightarrow> u32" where
  "checksum_list_sum m [] sm = sm"
| "checksum_list_sum m (a # v_bal) sm =
     checksum_list_sum m v_bal (checksum_bigarray m (ba_data a) (ba_dim0 a) sm)"

definition caml_ones_complement_checksum_list :: "bytes_mem \<Rightarrow> ba_view list \<Rightarrow> u64" where
  "caml_ones_complement_checksum_list m v_bal =
     (let checksum = (ucast (NOT (checksum_list_sum m v_bal 0)) :: u16)
      in Val_long (ucast checksum))"

section \<open>Specification\<close>

text \<open>
  The big-endian 16-bit words of a byte string, an odd last byte padded with zero, and
  the one's complement sum of a natural number: its representative modulo \<open>65535\<close>, with
  \<open>65535\<close> (not \<open>0\<close>) for the nonzero multiples.
\<close>

fun be_words_sum :: "u8 list \<Rightarrow> nat" where
  "be_words_sum (x # y # zs) = unat x * 256 + unat y + be_words_sum zs"
| "be_words_sum [x] = unat x * 256"
| "be_words_sum [] = 0"

definition ones_sum :: "nat \<Rightarrow> nat" where
  "ones_sum n = (if n = 0 then 0 else (n - 1) mod 65535 + 1)"

definition bytes_at :: "bytes_mem \<Rightarrow> nat \<Rightarrow> nat \<Rightarrow> u8 list" where
  "bytes_at m a n = map (\<lambda>i. m (a + i)) [0..<n]"

lemma bytes_at_simps [simp]:
  "bytes_at m a 0 = []"
  "bytes_at m a (Suc n) = m a # bytes_at m (Suc a) n"
  by (simp_all add: bytes_at_def upt_conv_Cons map_Suc_upt [symmetric] del: upt_Suc)

lemma bytes_at_numeral [simp]:
  "bytes_at m a (numeral k) = m a # bytes_at m (Suc a) (pred_numeral k)"
  by (simp add: numeral_eq_Suc)

lemma length_bytes_at [simp]: "length (bytes_at m a n) = n"
  by (simp add: bytes_at_def)

lemma ones_sum_small: "n < 65536 \<Longrightarrow> ones_sum n = n"
  by (auto simp: ones_sum_def)

lemma ones_sum_less: "ones_sum n < 65536"
  by (auto simp: ones_sum_def)

lemma ones_sum_shift: "0 < k \<Longrightarrow> ones_sum (k + q * 65535) = ones_sum k"
proof -
  assume k: "0 < k"
  then have "k + q * 65535 - 1 = (k - 1) + q * 65535" by linarith
  then have "(k + q * 65535 - 1) mod 65535 = (k - 1) mod 65535"
    by (simp only: mod_mult_self1)
  with k show ?thesis by (simp add: ones_sum_def)
qed

lemma ones_sum_fold: "ones_sum (n mod 65536 + n div 65536) = ones_sum n"
proof (cases "n = 0")
  case False
  obtain q r where e: "n div 65536 = q" "n mod 65536 = r" "n = q * 65536 + r"
    using div_mod_linear [of n 65536] by metis
  have "0 < r + q" using False e(3) by (cases q) auto
  then have "ones_sum (r + q + q * 65535) = ones_sum (r + q)"
    by (rule ones_sum_shift)
  moreover have "r + q + q * 65535 = n" using e(3) by linarith
  ultimately show ?thesis by (simp only: e(1,2))
qed simp

lemma ones_sum_absorb: "ones_sum (ones_sum a + b) = ones_sum (a + b)"
proof (cases "a = 0")
  case False
  obtain q r where "(a - 1) div 65535 = q" and e: "(a - 1) mod 65535 = r" "a - 1 = q * 65535 + r"
    using div_mod_linear [of "a - 1" 65535] by metis
  have "ones_sum a = r + 1" using False e(1) by (simp add: ones_sum_def)
  moreover have "a + b = (r + 1 + b) + q * 65535" using e(2) False by linarith
  ultimately show ?thesis by (simp only: ones_sum_shift)
qed (simp add: ones_sum_def)

section \<open>The loops compute the one's complement sum\<close>

lemma checksum_fold_unat: "unat (checksum_fold sm) = ones_sum (unat sm)"
proof (induction sm rule: checksum_fold.induct)
  case (1 sm)
  show ?case
  proof (cases "drop_bit 16 sm \<noteq> 0")
    case True
    then show ?thesis
      using 1 by (subst checksum_fold.simps) (simp add: fold_step_unat ones_sum_fold)
  next
    case False
    then show ?thesis
      by (subst checksum_fold.simps) (simp add: drop_bit16_nonzero ones_sum_small not_le)
  qed
qed

lemma unat_load_be16: "unat (load_be16 m a) = unat (m a) * 256 + unat (m (a + 1))"
proof -
  have l: "unat (m a) < 256" "unat (m (a + 1)) < 256"
    using unat_lt_pow2 [of "m a"] unat_lt_pow2 [of "m (a + 1)"] by simp_all
  have u: "unat (ucast (m i) :: u16) = unat (m i)" for i
    by (simp add: unat_ucast_up)
  have p: "unat (push_bit 8 (ucast (m a)) :: u16) = unat (m a) * 256"
    using l by (subst unat_push_bit_small) (simp_all add: u)
  show ?thesis
    unfolding load_be16_def using l by (subst unat_plus_small) (simp_all add: u p)
qed

lemma be_words_sum_bound: "be_words_sum bs \<le> 65535 * length bs"
proof (induction bs rule: be_words_sum.induct)
  case (1 x y zs)
  have "unat x < 256" "unat y < 256"
    using unat_lt_pow2 [of x] unat_lt_pow2 [of y] by simp_all
  with 1 show ?case by simp
next
  case (2 x)
  have "unat x < 256" using unat_lt_pow2 [of x] by simp
  then show ?case by simp
qed simp

text \<open>
  As long as the running 32-bit sum does not overflow (the code has no check for that),
  the loops return the one's complement sum of what was there and what was read.
\<close>

lemma checksum_bigarray_unat:
  "unat sm + be_words_sum (bytes_at m a count) < 2 ^ 32 \<Longrightarrow>
   unat (checksum_bigarray m a count sm) = ones_sum (unat sm + be_words_sum (bytes_at m a count))"
proof (induction m a count sm rule: checksum_pairs.induct)
  case (1 m a count sm)
  show ?case
  proof (cases "count > 1")
    case True
    then obtain n where n: "count = Suc (Suc n)" by (auto simp: less_iff_Suc_add)
    let ?w = "ucast (load_be16 m a) :: u32"
    have w: "unat ?w = unat (m a) * 256 + unat (m (a + 1))"
      by (simp add: unat_ucast_up unat_load_be16)
    have s: "unat (sm + ?w) = unat sm + unat ?w"
      using "1.prems" by (intro unat_plus_small) (simp add: n w)
    have "checksum_bigarray m a count sm = checksum_bigarray m (a + 2) n (sm + ?w)"
      unfolding checksum_bigarray_def by (subst checksum_pairs.simps) (simp add: n)
    moreover have "unat (checksum_bigarray m (a + 2) n (sm + ?w)) =
        ones_sum (unat (sm + ?w) + be_words_sum (bytes_at m (a + 2) n))"
      using "1.IH" [OF True] "1.prems" by (simp add: n s w)
    ultimately show ?thesis by (simp add: n s w add.assoc)
  next
    case False
    then consider "count = 0" | "count = 1" by linarith
    then show ?thesis
    proof cases
      case 1
      then show ?thesis
        by (simp add: checksum_bigarray_def checksum_pairs.simps checksum_fold_unat)
    next
      case 2
      have u: "unat (ucast (m a) :: u32) = unat (m a)"
        by (simp add: unat_ucast_up)
      have "unat (m a) < 256" using unat_lt_pow2 [of "m a"] by simp
      then have p: "unat (push_bit 8 (ucast (m a)) :: u32) = unat (m a) * 256"
        by (subst unat_push_bit_small) (simp_all add: u)
      have "unat (sm + push_bit 8 (ucast (m a))) = unat sm + unat (m a) * 256"
        using "1.prems" 2 by (subst unat_plus_small) (simp_all add: p)
      with 2 show ?thesis
        by (simp add: checksum_bigarray_def checksum_pairs.simps checksum_fold_unat)
    qed
  qed
qed

section \<open>Buffers, fragments and the checksum field\<close>

lemma bytes_at_add: "bytes_at m a (k + n) = bytes_at m a k @ bytes_at m (a + k) n"
  by (induction k arbitrary: a) simp_all

lemma bytes_at_upd_other [mem_simps]:
  "i < a \<or> a + n \<le> i \<Longrightarrow> bytes_at (m(i := b)) a n = bytes_at m a n"
  by (auto simp: bytes_at_def)

lemma be_words_sum_append:
  "even (length xs) \<Longrightarrow> be_words_sum (xs @ ys) = be_words_sum xs + be_words_sum ys"
  by (induction xs rule: be_words_sum.induct) auto

lemma be_words_sum_split_at:
  assumes "even k" "k + 1 < n"
  shows "be_words_sum (bytes_at m a n) =
    be_words_sum (bytes_at m a k) + (unat (m (a + k)) * 256 + unat (m (a + k + 1))) +
    be_words_sum (bytes_at m (a + k + 2) (n - k - 2))"
proof -
  obtain r where n: "n = k + Suc (Suc r)"
    using assms(2) less_imp_Suc_add [of "k + 1" n] by auto
  show ?thesis
    using assms(1) by (simp only: n bytes_at_add be_words_sum_append length_bytes_at) simp
qed

lemma unat_not16: "unat (NOT w) = 65535 - unat w" for w :: u16
proof -
  have "NOT w = - 1 - w" by (simp add: not_eq_complement)
  then have "unat (NOT w) = unat (- 1 :: u16) - unat w"
    by (simp only: unat_sub word_n1_ge)
  then show ?thesis by (simp add: unsigned_minus_1_eq_mask mask_eq_exp_minus_1)
qed

lemma ucast_not: "(ucast (NOT w) :: u16) = NOT (ucast w)" for w :: u32
  by (rule bit_eqI) (auto simp: bit_simps)

text \<open>The 16-bit checksum value computed from a folded sum.\<close>

definition cksum16 :: "u32 \<Rightarrow> u16" where
  "cksum16 sm = ucast (NOT sm)"

lemma unat_cksum16: "unat sm < 65536 \<Longrightarrow> unat (cksum16 sm) = 65535 - unat sm"
  by (simp add: cksum16_def ucast_not unat_not16 unat_ucast_mod)

lemma checksum_bigarray_small:
  assumes "n \<le> 65536"
  shows "unat (checksum_bigarray m a n 0) = ones_sum (be_words_sum (bytes_at m a n))"
proof -
  have "be_words_sum (bytes_at m a n) \<le> 65535 * 65536"
    using be_words_sum_bound [of "bytes_at m a n"] assms by simp
  then show ?thesis using checksum_bigarray_unat [of 0 m a n] by simp
qed

lemma checksum_list_sum_unat:
  assumes "unat sm < 65536" and "\<forall>v\<in>set vs. ba_dim0 v \<le> 65536"
  shows "unat (checksum_list_sum m vs sm) =
    (if vs = [] then unat sm
     else ones_sum (unat sm + sum_list (map (\<lambda>v. be_words_sum (bytes_at m (ba_data v) (ba_dim0 v))) vs)))"
  using assms
proof (induction vs arbitrary: sm)
  case (Cons v vs)
  let ?b = "be_words_sum (bytes_at m (ba_data v) (ba_dim0 v))"
  let ?s = "checksum_bigarray m (ba_data v) (ba_dim0 v) sm"
  have "?b \<le> 65535 * 65536"
    using be_words_sum_bound [of "bytes_at m (ba_data v) (ba_dim0 v)"] Cons.prems(2) by simp
  then have s: "unat ?s = ones_sum (unat sm + ?b)"
    using Cons.prems(1) by (intro checksum_bigarray_unat) simp
  then have "unat ?s < 65536" by (simp add: ones_sum_less)
  then show ?case
    using Cons.IH [of ?s] Cons.prems(2) by (simp add: s ones_sum_absorb add.assoc)
qed simp

lemma be_words_sum_concat:
  "\<forall>b\<in>set (butlast bs). even (length b) \<Longrightarrow>
   be_words_sum (concat bs) = sum_list (map be_words_sum bs)"
proof (induction bs)
  case (Cons b bs)
  then show ?case by (cases bs) (auto simp: be_words_sum_append)
qed simp

lemma caml_checksum_eq:
  assumes "n \<le> 65536"
  shows "caml_ones_complement_checksum m v (Val_long (of_nat n)) =
    Val_long (of_nat (65535 - ones_sum (be_words_sum (bytes_at m (ba_data v) n))))"
proof -
  have u: "unat (scast (Int_val (Val_long (of_nat n))) :: u64) = n"
    using assms by (intro size_of_Int_val) simp
  let ?s = "checksum_bigarray m (ba_data v) n 0"
  have s: "unat ?s = ones_sum (be_words_sum (bytes_at m (ba_data v) n))"
    using assms by (rule checksum_bigarray_small)
  have "ucast (cksum16 ?s) = (of_nat (unat (cksum16 ?s)) :: u64)" by simp
  then show ?thesis
    by (simp only: caml_ones_complement_checksum_def u Let_def cksum16_def [symmetric])
      (simp add: unat_cksum16 s ones_sum_less)
qed

section \<open>Properties\<close>

text \<open>
  C37. A packet whose checksum field was filled in verifies: if the two bytes at an even
  offset are zero when the checksum is computed, and the result is then stored there in
  network byte order, the checksum of the same buffer is \<open>0\<close>, which is how a receiver
  accepts it.
\<close>

theorem checksum_field_verifies:
  assumes "even k" "k + 1 < n" "n \<le> 65536"
    and "m (ba_data v + k) = 0" "m (ba_data v + k + 1) = 0"
    and "ck = Int_val (caml_ones_complement_checksum m v (Val_long (of_nat n)))"
  shows "caml_ones_complement_checksum
      (m(ba_data v + k := ucast (drop_bit 8 ck), ba_data v + k + 1 := ucast ck)) v
      (Val_long (of_nat n)) = Val_long 0"
proof -
  let ?a = "ba_data v"
  let ?W = "\<lambda>m. be_words_sum (bytes_at m ?a n)"
  define c where "c = 65535 - ones_sum (?W m)"
  let ?m' = "m(?a + k := ucast (drop_bit 8 ck), ?a + k + 1 := ucast ck)"
  have ck: "ck = of_nat c"
    unfolding assms(6) caml_checksum_eq [OF assms(3)] by (simp add: Int_val_Val_long_of_nat c_def)
  then have uck: "unat ck = c" by (simp add: unat_of_nat_small c_def)
  have "c div 256 < 256" by (rule less_mult_imp_div_less) (simp add: c_def)
  then have hi: "unat (ucast (drop_bit 8 ck) :: u8) = c div 256"
    by (simp add: unat_ucast_mod unat_shiftr uck)
  have lo: "unat (ucast ck :: u8) = c mod 256"
    by (simp add: unat_ucast_mod uck)
  have "?W ?m' = ?W m + (c div 256 * 256 + c mod 256)"
    using assms(4,5) unfolding be_words_sum_split_at [OF assms(1,2)]
    by (simp add: mem_simps hi lo)
  then have "?W ?m' = ?W m + c" by simp
  moreover have "ones_sum (?W m + c) = ones_sum (ones_sum (?W m) + c)"
    by (rule ones_sum_absorb [symmetric])
  moreover have "ones_sum (?W m) + c = 65535"
    using ones_sum_less [of "?W m"] by (simp add: c_def)
  ultimately show ?thesis
    by (simp add: caml_checksum_eq [OF assms(3)] ones_sum_small)
qed

theorem checksum_field_verifies_witness:
  "caml_ones_complement_checksum ((\<lambda>i. if i = 2 \<or> i = 3 then 0 else of_nat (40 * i + 90))
      (0 + 2 := ucast (drop_bit 8 (of_nat 24922 :: u32)), 0 + 2 + 1 := ucast (of_nat 24922 :: u32)))
      \<lparr>ba_data = 0, ba_dim0 = 7\<rparr> (Val_long (of_nat 7)) = Val_long 0"
proof -
  let ?m = "(\<lambda>i. if i = 2 \<or> i = 3 then 0 else of_nat (40 * i + 90)) :: bytes_mem"
  have w: "be_words_sum (bytes_at ?m 0 7) = 106148"
    by simp
  have seven: "(7::nat) \<le> 65536" by simp
  have "(of_nat 24922 :: u32) = Int_val (caml_ones_complement_checksum ?m
      \<lparr>ba_data = 0, ba_dim0 = 7\<rparr> (Val_long (of_nat 7)))"
    unfolding caml_checksum_eq [of 7, OF seven] by (simp add: w ones_sum_def)
  from checksum_field_verifies [of 2 7 ?m "\<lparr>ba_data = 0, ba_dim0 = 7\<rparr>", OF _ _ _ _ _ this]
  show ?thesis by simp
qed

text \<open>
  C38. The checksum of a scattered packet is the checksum of its bytes in one buffer: for
  a list of at most 64 KiB fragments, all of even length except perhaps the last, the list
  primitive returns what the buffer primitive returns on any buffer holding the
  concatenation.
\<close>

theorem checksum_list_is_concat:
  assumes "vs \<noteq> []" "\<forall>v\<in>set vs. ba_dim0 v \<le> 65536" "\<forall>v\<in>set (butlast vs). even (ba_dim0 v)"
    and "bytes_at m' (ba_data w) n = concat (map (\<lambda>v. bytes_at m (ba_data v) (ba_dim0 v)) vs)"
    and "n \<le> 65536"
  shows "caml_ones_complement_checksum_list m vs =
    caml_ones_complement_checksum m' w (Val_long (of_nat n))"
proof -
  let ?bs = "map (\<lambda>v. bytes_at m (ba_data v) (ba_dim0 v)) vs"
  have "be_words_sum (concat ?bs) = sum_list (map be_words_sum ?bs)"
    using assms(3) by (intro be_words_sum_concat) (auto simp: map_butlast [symmetric])
  then have s: "unat (checksum_list_sum m vs 0) = ones_sum (be_words_sum (bytes_at m' (ba_data w) n))"
    using assms(1,2) by (simp add: checksum_list_sum_unat assms(4) comp_def)
  have "ucast (cksum16 (checksum_list_sum m vs 0)) =
      (of_nat (unat (cksum16 (checksum_list_sum m vs 0))) :: u64)" by simp
  then show ?thesis
    by (simp only: caml_ones_complement_checksum_list_def Let_def cksum16_def [symmetric]
        caml_checksum_eq [OF assms(5)]) (simp add: unat_cksum16 s ones_sum_less)
qed

theorem checksum_list_is_concat_witness:
  "caml_ones_complement_checksum_list of_nat
      [\<lparr>ba_data = 4, ba_dim0 = 2\<rparr>, \<lparr>ba_data = 9, ba_dim0 = 1\<rparr>] =
    caml_ones_complement_checksum (\<lambda>i. [4, 5, 9] ! i) \<lparr>ba_data = 0, ba_dim0 = 3\<rparr>
      (Val_long (of_nat 3))"
  by (rule checksum_list_is_concat) simp_all

text \<open>
  Without the parity condition the two differ: an odd fragment that is not the last one is
  padded with a zero byte, so two one-byte fragments are summed as two words.
\<close>

lemma checksum_list_odd_fragment:
  "checksum_list_sum of_nat [\<lparr>ba_data = 1, ba_dim0 = 1\<rparr>, \<lparr>ba_data = 2, ba_dim0 = 1\<rparr>] 0 = 0x0300"
  "checksum_bigarray of_nat 1 2 0 = 0x0102"
proof -
  have "unat (checksum_list_sum of_nat [\<lparr>ba_data = 1, ba_dim0 = 1\<rparr>, \<lparr>ba_data = 2, ba_dim0 = 1\<rparr>] 0) = 768"
    by (simp add: checksum_list_sum_unat ones_sum_small del: checksum_list_sum.simps)
  then show "checksum_list_sum of_nat [\<lparr>ba_data = 1, ba_dim0 = 1\<rparr>, \<lparr>ba_data = 2, ba_dim0 = 1\<rparr>] 0 = 0x0300"
    by (simp add: word_unat_eq_iff del: checksum_list_sum.simps)
  have "unat (checksum_bigarray of_nat 1 2 0) = 258"
    by (simp add: checksum_bigarray_small ones_sum_small)
  then show "checksum_bigarray of_nat 1 2 0 = 0x0102"
    by (simp add: word_unat_eq_iff)
qed

end
