(* ===== verification/Freelist.thy ===== *)
theory Freelist
  imports Values
begin

text \<open>
  The free list of the major heap (\<open>runtime/ocaml/freelist.c\<close>): a list of free (blue)
  blocks threaded through memory in increasing address order, from which blocks are
  allocated by next-fit or first-fit search, into which the sweeper merges dead blocks and
  to which heap extensions are added. Memory is a word-addressed store of 64-bit words: the
  header of the block \<open>bp\<close> is at \<open>bp - 1\<close> and the link of a free block is its first field.
  This theory holds the operations; \<open>Freelist_Proofs\<close> holds what they keep and promise.
\<close>

section \<open>State\<close>

type_synonym memory = "addr \<Rightarrow> u64"

text \<open>
  The static variables of the file, the memory, and \<open>caml_gc_sweep_hp\<close> of
  \<open>major_gc.c\<close>. \<open>fl_head\<close> is \<open>Fl_head\<close>, the address of the sentinel's link, which
  never changes and may be anywhere. \<open>flp\<close> is the static array of \<open>FLP_MAX\<close> entries.
\<close>

record fl_state =
  mem :: memory
  fl_head :: addr
  fl_prev :: addr
  fl_last :: addr
  fl_merge :: addr
  fl_cur_size :: u64
  flp :: "nat \<Rightarrow> addr"
  flp_size :: nat
  beyond :: addr
  policy :: nat
  last_fragment :: addr
  gc_sweep_hp :: addr

definition FLP_MAX :: nat where "FLP_MAX = 1000"
definition Policy_next_fit :: nat where "Policy_next_fit = 0"
definition Policy_first_fit :: nat where "Policy_first_fit = 1"

definition Hd_bp :: "memory \<Rightarrow> addr \<Rightarrow> header" where
  "Hd_bp m b = m (b - 1)"

definition Hp_bp :: "addr \<Rightarrow> addr" where
  "Hp_bp b = b - 1"

definition Next :: "memory \<Rightarrow> addr \<Rightarrow> addr" where
  "Next m b = unat (m b)"

definition Wosize_bp :: "memory \<Rightarrow> addr \<Rightarrow> nat" where
  "Wosize_bp m b = unat (Wosize_hd (Hd_bp m b))"

definition Whsize_bp :: "memory \<Rightarrow> addr \<Rightarrow> nat" where
  "Whsize_bp m b = Wosize_bp m b + 1"

definition set_Hd :: "addr \<Rightarrow> header \<Rightarrow> fl_state \<Rightarrow> fl_state" where
  "set_Hd b h s = s\<lparr>mem := (mem s)(b - 1 := h)\<rparr>"

definition set_Next :: "addr \<Rightarrow> addr \<Rightarrow> fl_state \<Rightarrow> fl_state" where
  "set_Next b n s = s\<lparr>mem := (mem s)(b := of_nat n)\<rparr>"

section \<open>Allocation\<close>

text \<open>
  \<open>allocate_block wh_sz flpi prev cur\<close>: take \<open>wh_sz\<close> words (header included) from the
  right end of the free block \<open>cur\<close>, whose predecessor in the list is \<open>prev\<close>.
\<close>

definition allocate_block :: "nat \<Rightarrow> nat \<Rightarrow> addr \<Rightarrow> addr \<Rightarrow> fl_state \<Rightarrow> addr \<times> fl_state" where
  "allocate_block wh_sz flpi prev cur s =
     (let h = Hd_bp (mem s) cur;
          s1 = (if unat (Wosize_hd h) < wh_sz + 1 then \<comment> \<open>cases 0 and 1\<close>
                  (let a = s\<lparr>fl_cur_size := fl_cur_size s - Whsize_hd h\<rparr>;
                       b = set_Next prev (Next (mem a) cur) a;
                       c = (if fl_merge b = cur then b\<lparr>fl_merge := prev\<rparr> else b);
                       d = set_Hd cur (Make_header 0 0 Caml_white) c
                   in if policy d = Policy_first_fit then
                        if flpi + 1 < flp_size d \<and> flp d (flpi + 1) = cur
                        then d\<lparr>flp := (flp d)(flpi + 1 := prev)\<rparr>
                        else if flpi + 1 = flp_size d
                        then d\<lparr>beyond := (if prev = fl_head d then 0 else prev),
                               flp_size := flp_size d - 1\<rparr>
                        else d
                      else d)
                else \<comment> \<open>case 2\<close>
                  set_Hd cur (Make_header (Wosize_hd h - of_nat wh_sz) 0 Caml_blue)
                    (s\<lparr>fl_cur_size := fl_cur_size s - of_nat wh_sz\<rparr>));
          s2 = (if policy s1 = Policy_next_fit then s1\<lparr>fl_prev := prev\<rparr> else s1)
      in (cur + unat (Wosize_hd h) - wh_sz, s2))"

subsection \<open>Next fit\<close>

text \<open>
  The search from \<open>fl_prev\<close> to the end of the list: \<open>Inl prev\<close> when it falls off the end
  after \<open>prev\<close>, \<open>Inr (prev, cur)\<close> at the first block that is large enough. \<open>None\<close> is a
  search that does not end.
\<close>

partial_function (option) nf_search ::
    "memory \<Rightarrow> nat \<Rightarrow> addr \<Rightarrow> addr \<Rightarrow> (addr + addr \<times> addr) option" where
  "nf_search m wo_sz prev cur =
     (if cur = 0 then Some (Inl prev)
      else if wo_sz \<le> Wosize_bp m cur then Some (Inr (prev, cur))
      else nf_search m wo_sz cur (Next m cur))"

text \<open>The search from the start of the list to \<open>fl_prev\<close>.\<close>

partial_function (option) nf_search_to ::
    "memory \<Rightarrow> nat \<Rightarrow> addr \<Rightarrow> addr \<Rightarrow> addr \<Rightarrow> (addr \<times> addr) option option" where
  "nf_search_to m wo_sz stop prev cur =
     (if prev = stop then Some None
      else if wo_sz \<le> Wosize_bp m cur then Some (Some (prev, cur))
      else nf_search_to m wo_sz stop cur (Next m cur))"

definition allocate_next_fit :: "nat \<Rightarrow> fl_state \<Rightarrow> (addr \<times> fl_state) option" where
  "allocate_next_fit wo_sz s =
     Option.bind (nf_search (mem s) wo_sz (fl_prev s) (Next (mem s) (fl_prev s))) (\<lambda>r.
       case r of
         Inr (prev, cur) \<Rightarrow> Some (allocate_block (wo_sz + 1) 0 prev cur s)
       | Inl prev \<Rightarrow>
           (let s1 = s\<lparr>fl_last := prev\<rparr> in
            Option.bind
              (nf_search_to (mem s1) wo_sz (fl_prev s1) (fl_head s1) (Next (mem s1) (fl_head s1)))
              (\<lambda>r2. case r2 of
                 Some (prev, cur) \<Rightarrow> Some (allocate_block (wo_sz + 1) 0 prev cur s1)
               | None \<Rightarrow> Some (0, s1))))"

subsection \<open>First fit\<close>

text \<open>The search in the \<open>flp\<close> table: the first entry whose block is large enough.\<close>

function flp_find :: "memory \<Rightarrow> (nat \<Rightarrow> addr) \<Rightarrow> nat \<Rightarrow> nat \<Rightarrow> nat \<Rightarrow> nat option" where
  "flp_find m f n wo_sz i =
     (if i < n then
        if wo_sz \<le> Wosize_bp m (Next m (f i)) then Some i
        else flp_find m f n wo_sz (Suc i)
      else None)"
  by pat_completeness auto
termination
  by (relation "measure (\<lambda>(m, f, n, wo_sz, i). n - i)") auto

declare flp_find.simps [simp del]

text \<open>
  Extending the table: walk the list from \<open>prev\<close>, entering every block larger than all
  before it, until the list ends, a large enough block is entered, or the table is full.
\<close>

datatype ff_result =
    FF_null fl_state
  | FF_found fl_state addr addr nat
  | FF_full fl_state addr

partial_function (option) ff_extend ::
    "nat \<Rightarrow> addr \<Rightarrow> nat \<Rightarrow> addr \<Rightarrow> fl_state \<Rightarrow> ff_result option" where
  "ff_extend wo_sz prev prevsz cur s =
     (if flp_size s < FLP_MAX then
        (let cur = Next (mem s) prev in
         if cur = 0 then
           Some (FF_null (s\<lparr>fl_last := prev, beyond := (if prev = fl_head s then 0 else prev)\<rparr>))
         else
           (let sz = Wosize_bp (mem s) cur in
            if sz > prevsz then
              (let s1 = s\<lparr>flp := (flp s)(flp_size s := prev), flp_size := flp_size s + 1\<rparr> in
               if sz \<ge> wo_sz then Some (FF_found (s1\<lparr>beyond := cur\<rparr>) prev cur sz)
               else ff_extend wo_sz cur sz cur s1)
            else ff_extend wo_sz cur prevsz cur s))
      else Some (FF_full (s\<lparr>beyond := cur\<rparr>) cur))"

text \<open>The slow search when the table is full.\<close>

partial_function (option) ff_slow ::
    "nat \<Rightarrow> nat \<Rightarrow> addr \<Rightarrow> addr \<Rightarrow> fl_state \<Rightarrow> (fl_state \<times> addr \<times> addr) option" where
  "ff_slow wo_sz prevsz prev cur s =
     (if cur = 0 then Some (s\<lparr>fl_last := prev\<rparr>, prev, 0)
      else
        (let sz = Wosize_bp (mem s) cur in
         if sz < prevsz then ff_slow wo_sz prevsz cur (Next (mem s) cur) (s\<lparr>beyond := cur\<rparr>)
         else if sz \<ge> wo_sz then Some (s, prev, cur)
         else ff_slow wo_sz prevsz cur (Next (mem s) cur) s))"

text \<open>
  After the block of entry \<open>i\<close> was removed or reduced: the entries to put in its place,
  the predecessors of the new size maxima between entries \<open>i\<close> and \<open>i + 1\<close>.
\<close>

partial_function (option) flp_rebuild ::
    "memory \<Rightarrow> addr \<Rightarrow> nat \<Rightarrow> addr \<Rightarrow> nat \<Rightarrow> addr list \<Rightarrow> addr list option" where
  "flp_rebuild m stop oldsz prev prevsz buf =
     (if prev = stop then Some buf
      else
        (let cur = Next m prev; sz = Wosize_bp m cur in
         if sz > prevsz then
           if sz \<ge> oldsz then Some (buf @ [prev])
           else flp_rebuild m stop oldsz cur sz (buf @ [prev])
         else flp_rebuild m stop oldsz cur prevsz buf))"

definition move_entries :: "nat \<Rightarrow> nat \<Rightarrow> nat \<Rightarrow> (nat \<Rightarrow> addr) \<Rightarrow> (nat \<Rightarrow> addr)" where
  "move_entries dst src n f = (\<lambda>k. if dst \<le> k \<and> k < dst + n then f (src + (k - dst)) else f k)"

definition copy_entries :: "nat \<Rightarrow> addr list \<Rightarrow> nat \<Rightarrow> (nat \<Rightarrow> addr) \<Rightarrow> (nat \<Rightarrow> addr)" where
  "copy_entries dst buf n f = (\<lambda>k. if dst \<le> k \<and> k < dst + n then buf ! (k - dst) else f k)"

definition flp_splice :: "nat \<Rightarrow> addr list \<Rightarrow> fl_state \<Rightarrow> fl_state" where
  "flp_splice i buf s =
     (let j = length buf in
      if FLP_MAX + 1 \<ge> flp_size s + j then
        (let f1 = (if j \<noteq> 1 then move_entries (i + j) (i + 1) (flp_size s - i - 1) (flp s) else flp s)
         in s\<lparr>flp := copy_entries i buf j f1, flp_size := flp_size s + j - 1\<rparr>)
      else
        (let f2 = (if FLP_MAX > i + j then
                     (let f1 = (if j \<noteq> 1 then move_entries (i + j) (i + 1) (FLP_MAX - i - j) (flp s)
                                else flp s)
                      in copy_entries i buf j f1)
                   else copy_entries i buf (FLP_MAX - i) (flp s))
         in s\<lparr>flp := f2, flp_size := FLP_MAX - 1, beyond := Next (mem s) (f2 (FLP_MAX - 1))\<rparr>))"

definition update_flp :: "nat \<Rightarrow> nat \<Rightarrow> fl_state \<Rightarrow> fl_state option" where
  "update_flp i sz s =
     (if i < flp_size s then
        (let prevsz = (if i > 0 then Wosize_bp (mem s) (Next (mem s) (flp s (i - 1))) else 0) in
         if i = flp_size s - 1 then
           if Wosize_bp (mem s) (Next (mem s) (flp s i)) \<le> prevsz
           then Some (s\<lparr>beyond := Next (mem s) (flp s i), flp_size := flp_size s - 1\<rparr>)
           else Some (s\<lparr>beyond := 0\<rparr>)
         else
           map_option (\<lambda>buf. flp_splice i buf s)
             (flp_rebuild (mem s) (flp s (i + 1)) sz (flp s i) prevsz []))
      else Some s)"

definition allocate_first_fit :: "nat \<Rightarrow> fl_state \<Rightarrow> (addr \<times> fl_state) option" where
  "allocate_first_fit wo_sz s =
     (case flp_find (mem s) (flp s) (flp_size s) wo_sz 0 of
        Some i \<Rightarrow>
          (let cur = Next (mem s) (flp s i);
               (result, s1) = allocate_block (wo_sz + 1) i (flp s i) cur s
           in map_option (Pair result) (update_flp i (Wosize_bp (mem s) cur) s1))
      | None \<Rightarrow>
          (let last = Next (mem s) (flp s (flp_size s - 1));
               prev = (if flp_size s = 0 then fl_head s
                       else if beyond s \<noteq> 0 then beyond s else last);
               prevsz = (if flp_size s = 0 then 0 else Wosize_bp (mem s) last)
           in Option.bind (ff_extend wo_sz prev prevsz 0 s) (\<lambda>r.
             case r of
               FF_null s1 \<Rightarrow> Some (0, s1)
             | FF_found s1 prev cur sz \<Rightarrow>
                 (let i = flp_size s1 - 1;
                      (result, s2) = allocate_block (wo_sz + 1) i prev cur s1
                  in map_option (Pair result) (update_flp i sz s2))
             | FF_full s1 _ \<Rightarrow>
                 (let prev = (if beyond s1 \<noteq> 0 then beyond s1 else flp s1 (flp_size s1 - 1));
                      prevsz = Wosize_bp (mem s1) (Next (mem s1) (flp s1 (FLP_MAX - 1)))
                  in Option.bind (ff_slow wo_sz prevsz prev (Next (mem s1) prev) s1)
                       (\<lambda>(s2, prev, cur).
                          if cur = 0 then Some (0, s2)
                          else Some (allocate_block (wo_sz + 1) (flp_size s2) prev cur s2))))))"

definition caml_fl_allocate :: "nat \<Rightarrow> fl_state \<Rightarrow> (addr \<times> fl_state) option" where
  "caml_fl_allocate wo_sz s =
     (if policy s = Policy_next_fit then allocate_next_fit wo_sz s
      else if policy s = Policy_first_fit then allocate_first_fit wo_sz s
      else Some (0, s))"

section \<open>Merging, extension and reset\<close>

definition caml_fl_init_merge :: "fl_state \<Rightarrow> fl_state" where
  "caml_fl_init_merge s = s\<lparr>last_fragment := 0, fl_merge := fl_head s\<rparr>"

fun drop_flp :: "memory \<Rightarrow> (nat \<Rightarrow> addr) \<Rightarrow> addr \<Rightarrow> nat \<Rightarrow> nat" where
  "drop_flp m f changed 0 = 0"
| "drop_flp m f changed (Suc n) =
     (if Next m (f n) \<ge> changed then drop_flp m f changed n else Suc n)"

definition truncate_flp :: "addr \<Rightarrow> fl_state \<Rightarrow> fl_state" where
  "truncate_flp changed s =
     (if changed = fl_head s then s\<lparr>flp_size := 0, beyond := 0\<rparr>
      else
        (let s1 = s\<lparr>flp_size := drop_flp (mem s) (flp s) changed (flp_size s)\<rparr>
         in if beyond s1 \<ge> changed then s1\<lparr>beyond := 0\<rparr> else s1))"

definition caml_fl_reset :: "fl_state \<Rightarrow> fl_state" where
  "caml_fl_reset s =
     (let s1 = set_Next (fl_head s) 0 s;
          s2 = (if policy s1 = Policy_next_fit then s1\<lparr>fl_prev := fl_head s1\<rparr>
                else if policy s1 = Policy_first_fit then truncate_flp (fl_head s1) s1
                else s1)
      in caml_fl_init_merge (s2\<lparr>fl_cur_size := 0\<rparr>))"

text \<open>
  \<open>caml_fl_merge_block bp\<close>: return the block \<open>bp\<close> to the free list, after
  \<open>caml_fl_merge\<close>, merging it with the fragment and the free blocks it is adjacent to. The
  three phases follow the code's three comments; the result is the head pointer of the
  block that follows.
\<close>

definition merge_fragment :: "addr \<Rightarrow> header \<Rightarrow> fl_state \<Rightarrow> addr \<times> header \<times> fl_state" where
  "merge_fragment bp h s =
     (if last_fragment s = Hp_bp bp then
        (let bp_whsz = Whsize_bp (mem s) bp in
         if bp_whsz \<le> Max_wosize then
           (let h = Make_header (of_nat bp_whsz) 0 Caml_white;
                bp = last_fragment s;
                s1 = set_Hd bp h s
            in (bp, h, s1\<lparr>fl_cur_size := fl_cur_size s1 + 1\<rparr>))
         else (bp, h, s))
      else (bp, h, s))"

definition merge_next ::
    "addr \<Rightarrow> header \<Rightarrow> addr \<Rightarrow> addr \<Rightarrow> fl_state \<Rightarrow> addr \<times> header \<times> addr \<times> fl_state" where
  "merge_next bp h prev cur s =
     (let adj = bp + unat (Wosize_hd h) in
      if cur \<noteq> 0 \<and> adj = Hp_bp cur then
        (let next_cur = Next (mem s) cur;
             cur_whsz = Whsize_bp (mem s) cur
         in if unat (Wosize_hd h) + cur_whsz \<le> Max_wosize then
              (let s1 = set_Next prev next_cur s;
                   s2 = (if policy s1 = Policy_next_fit \<and> fl_prev s1 = cur
                         then s1\<lparr>fl_prev := prev\<rparr> else s1);
                   h = Make_header (of_nat (unat (Wosize_hd h) + cur_whsz)) 0 Caml_blue;
                   s3 = set_Hd bp h s2
               in (bp + unat (Wosize_hd h), h, next_cur, s3))
            else (adj, h, cur, s))
      else (adj, h, cur, s))"

definition merge_prev :: "addr \<Rightarrow> header \<Rightarrow> addr \<Rightarrow> addr \<Rightarrow> fl_state \<Rightarrow> fl_state" where
  "merge_prev bp h prev cur s =
     (let prev_wosz = Wosize_bp (mem s) prev in
      if prev + prev_wosz = Hp_bp bp \<and> prev_wosz + unat (Whsize_hd h) < Max_wosize then
        set_Hd prev (Make_header (of_nat (prev_wosz + unat (Whsize_hd h))) 0 Caml_blue) s
      else if Wosize_hd h \<noteq> 0 then
        (set_Next prev bp (set_Next bp cur (set_Hd bp (Bluehd_hd h) s)))\<lparr>fl_merge := bp\<rparr>
      else
        s\<lparr>last_fragment := bp, fl_cur_size := fl_cur_size s - 1\<rparr>)"

definition caml_fl_merge_block :: "addr \<Rightarrow> fl_state \<Rightarrow> addr \<times> fl_state" where
  "caml_fl_merge_block bp s =
     (let h = Hd_bp (mem s) bp;
          s1 = s\<lparr>fl_cur_size := fl_cur_size s + Whsize_hd h\<rparr>;
          prev = fl_merge s1;
          cur = Next (mem s1) prev;
          s2 = (if policy s1 = Policy_first_fit then truncate_flp prev s1 else s1);
          (bp, h, s3) = merge_fragment bp h s2;
          (adj, h, cur, s4) = merge_next bp h prev cur s3
      in (adj, merge_prev bp h prev cur s4))"

text \<open>The insertion point of a heap extension: the last free block below \<open>bp\<close>.\<close>

partial_function (option) insertion_point ::
    "memory \<Rightarrow> addr \<Rightarrow> addr \<Rightarrow> addr \<Rightarrow> (addr \<times> addr) option" where
  "insertion_point m bp prev cur =
     (if cur \<noteq> 0 \<and> cur < bp then insertion_point m bp cur (Next m cur) else Some (prev, cur))"

definition caml_fl_add_blocks :: "addr \<Rightarrow> fl_state \<Rightarrow> fl_state option" where
  "caml_fl_add_blocks bp s =
     (let s1 = s\<lparr>fl_cur_size := fl_cur_size s + of_nat (Whsize_bp (mem s) bp)\<rparr>;
          last_bp = Next (mem s1) (bp + 1)
      in if bp > fl_last s1 then
           (let s2 = set_Next (fl_last s1) bp s1;
                s3 = (if fl_last s2 = fl_merge s2 \<and> bp < gc_sweep_hp s2
                      then s2\<lparr>fl_merge := last_bp\<rparr> else s2)
            in Some (if policy s3 = Policy_first_fit \<and> flp_size s3 < FLP_MAX
                     then s3\<lparr>flp := (flp s3)(flp_size s3 := fl_last s3), flp_size := flp_size s3 + 1\<rparr>
                     else s3))
         else
           Option.bind (insertion_point (mem s1) bp (fl_head s1) (Next (mem s1) (fl_head s1)))
             (\<lambda>(prev, cur).
               (let s2 = set_Next last_bp cur s1;
                    s3 = set_Next prev bp s2;
                    s4 = (if prev = fl_merge s3 \<and> bp < gc_sweep_hp s3
                          then s3\<lparr>fl_merge := last_bp\<rparr> else s3)
                in Some (if policy s4 = Policy_first_fit then truncate_flp bp s4 else s4))))"

text \<open>Cut \<open>sz_left\<close> words at \<open>p\<close> into blocks of at most \<open>Max_wosize\<close> fields.\<close>

function caml_make_free_blocks :: "addr \<Rightarrow> nat \<Rightarrow> bool \<Rightarrow> fl_state \<Rightarrow> fl_state" where
  "caml_make_free_blocks p sz_left do_merge s =
     (if sz_left > 0 then
        (let sz = (if sz_left > Max_wosize + 1 then Max_wosize + 1 else sz_left);
             s1 = s\<lparr>mem := (mem s)(p := Make_header (of_nat (sz - 1)) 0 Caml_white)\<rparr>;
             s2 = (if do_merge then snd (caml_fl_merge_block (p + 1) s1) else s1)
         in caml_make_free_blocks (p + sz) (sz_left - sz) do_merge s2)
      else s)"
  by pat_completeness auto
termination
  by (relation "measure (\<lambda>(p, sz_left, do_merge, s). sz_left)") auto

declare caml_make_free_blocks.simps [simp del]

definition caml_set_allocation_policy :: "nat \<Rightarrow> fl_state \<Rightarrow> fl_state" where
  "caml_set_allocation_policy p s =
     (let s1 = (if p = Policy_next_fit then s\<lparr>fl_prev := fl_head s\<rparr>
                else if p = Policy_first_fit then s\<lparr>flp_size := 0, beyond := 0\<rparr>
                else s)
      in s1\<lparr>policy := p\<rparr>)"

end
