(* ===== verification/Freelist_Proofs.thy ===== *)
theory Freelist_Proofs
  imports Freelist
begin

text \<open>
  What the free list promises: the chain in memory is a list of disjoint blue blocks in
  increasing address order, \<open>caml_fl_cur_size\<close> counts their words, an allocation returns
  words of one of them and keeps all of this, and merging gives back exactly the words of
  the merged block.
\<close>

section \<open>Chains in memory\<close>

fun fl_path :: "memory \<Rightarrow> addr \<Rightarrow> addr list \<Rightarrow> bool" where
  "fl_path m p [] \<longleftrightarrow> Next m p = 0"
| "fl_path m p (x # xs) \<longleftrightarrow> Next m p = x \<and> x \<noteq> 0 \<and> fl_path m x xs"

lemma fl_path_cong:
  "\<forall>a\<in>set (p # xs). m a = m' a \<Longrightarrow> fl_path m p xs = fl_path m' p xs"
  by (induction xs arbitrary: p) (auto simp: Next_def)

lemma fl_path_upd [mem_simps]:
  "a \<noteq> p \<Longrightarrow> a \<notin> set xs \<Longrightarrow> fl_path (m(a := v)) p xs = fl_path m p xs"
  by (rule fl_path_cong) auto

lemma fl_path_appendD: "fl_path m p (us @ vs) \<Longrightarrow> fl_path m (last (p # us)) vs"
  by (induction us arbitrary: p) auto

lemma fl_path_remove:
  "fl_path m p (us @ cur # vs) \<Longrightarrow> distinct (p # us @ cur # vs) \<Longrightarrow>
   fl_path (m(last (p # us) := m cur)) p (us @ vs)"
proof (induction us arbitrary: p)
  case Nil
  show ?case
  proof (cases vs)
    case (Cons v ws)
    with Nil have "fl_path (m(p := m cur)) v ws"
      by (subst fl_path_upd) auto
    with Nil Cons show ?thesis
      by (simp add: Next_def fun_upd_same fun_upd_other del: fun_upd_apply)
  qed (use Nil in \<open>simp add: Next_def\<close>)
next
  case (Cons u us)
  have "fl_path (m(last (u # us) := m cur)) u (us @ vs)"
    by (rule Cons.IH) (use Cons.prems in auto)
  moreover have "last (u # us) \<noteq> p" using Cons.prems(2) by auto
  ultimately show ?case using Cons.prems by (simp add: Next_def fun_upd_other del: fun_upd_apply)
qed

lemma fl_path_insert:
  "fl_path m p (us @ vs) \<Longrightarrow> distinct (p # us @ vs) \<Longrightarrow> b \<notin> set (p # us @ vs) \<Longrightarrow>
   b \<noteq> 0 \<Longrightarrow> b < 2 ^ 64 \<Longrightarrow>
   fl_path (m(b := of_nat (Next m (last (p # us))), last (p # us) := of_nat b)) p (us @ b # vs)"
proof (induction us arbitrary: p)
  case Nil
  let ?m = "m(b := of_nat (Next m p), p := of_nat b)"
  show ?case
  proof (cases vs)
    case (Cons v ws)
    with Nil have "fl_path ?m v ws"
      by (subst fl_path_cong [of _ _ _ m]) auto
    moreover have "v = unat (m p)" using Nil Cons by (simp add: Next_def)
    ultimately show ?thesis using Nil Cons
      by (simp add: Next_def unat_of_nat_small fun_upd_same fun_upd_other del: fun_upd_apply)
  qed (use Nil in \<open>simp add: Next_def unat_of_nat_small\<close>)
next
  case (Cons u us)
  have "fl_path (m(b := of_nat (Next m (last (u # us))), last (u # us) := of_nat b)) u (us @ b # vs)"
    by (rule Cons.IH) (use Cons.prems in auto)
  moreover have "last (u # us) \<noteq> p" "b \<noteq> p" using Cons.prems(2,3) by auto
  ultimately show ?case using Cons.prems by (simp add: Next_def fun_upd_other del: fun_upd_apply)
qed

section \<open>The invariant\<close>

definition clear_of_sentinel :: "fl_state \<Rightarrow> addr \<Rightarrow> addr \<Rightarrow> bool" where
  "clear_of_sentinel s lo hi \<longleftrightarrow> hi + 2 \<le> fl_head s \<or> fl_head s + 2 \<le> lo"

definition block_words :: "memory \<Rightarrow> addr \<Rightarrow> addr set" where
  "block_words m x = {x - 1 ..< x + Wosize_bp m x}"

definition free_words :: "memory \<Rightarrow> addr list \<Rightarrow> addr set" where
  "free_words m xs = (\<Union>x\<in>set xs. block_words m x)"

definition free_block :: "fl_state \<Rightarrow> addr \<Rightarrow> bool" where
  "free_block s x \<longleftrightarrow> 2 \<le> x \<and> 1 \<le> Wosize_bp (mem s) x \<and> x + Wosize_bp (mem s) x < 2 ^ 61 \<and>
     Color_hd (Hd_bp (mem s) x) = Caml_blue \<and>
     clear_of_sentinel s (x - 1) (x + Wosize_bp (mem s) x)"

definition fl_wf :: "fl_state \<Rightarrow> addr list \<Rightarrow> bool" where
  "fl_wf s xs \<longleftrightarrow> fl_path (mem s) (fl_head s) xs \<and>
     sorted_wrt (\<lambda>x y. x + Wosize_bp (mem s) x < y) xs \<and> (\<forall>x\<in>set xs. free_block s x) \<and>
     2 \<le> fl_head s \<and> fl_head s < 2 ^ 61 \<and> Hd_bp (mem s) (fl_head s) = Make_header 0 0 Caml_blue \<and>
     fl_cur_size s = of_nat (\<Sum>x\<leftarrow>xs. Whsize_bp (mem s) x) \<and> fl_merge s \<in> set (fl_head s # xs)"

lemma Wosize_bp_upd [mem_simps]:
  "a \<noteq> x - 1 \<Longrightarrow> Wosize_bp (m(a := v)) x = Wosize_bp m x"
  "a \<noteq> x - 1 \<Longrightarrow> Whsize_bp (m(a := v)) x = Whsize_bp m x"
  "a \<noteq> x - 1 \<Longrightarrow> Hd_bp (m(a := v)) x = Hd_bp m x"
  "Wosize_bp (m(x - 1 := h)) x = unat (Wosize_hd h)"
  "Hd_bp (m(x - 1 := h)) x = h"
  by (simp_all add: Wosize_bp_def Whsize_bp_def Hd_bp_def)

lemma unat_Wosize_Make_header [header_simps]:
  "n \<le> Max_wosize \<Longrightarrow> c \<in> {Caml_white, Caml_gray, Caml_blue, Caml_black} \<Longrightarrow>
   Wosize_hd (Make_header (of_nat n) 0 c) = of_nat n \<and> unat (of_nat n :: u64) = n \<and>
   Color_hd (Make_header (of_nat n) 0 c) = c"
proof -
  assume n: "n \<le> Max_wosize" and c: "c \<in> {Caml_white, Caml_gray, Caml_blue, Caml_black}"
  have u: "unat (of_nat n :: u64) = n"
    using n by (simp add: unat_of_nat_small Max_wosize_def)
  with Make_header_fields [of "of_nat n" 0 c] n c show ?thesis by simp
qed

lemma sorted_blocks_distinct:
  "sorted_wrt (\<lambda>x y. x + Wosize_bp m x < y) xs \<Longrightarrow> distinct xs"
  by (induction xs) auto

lemma fl_wf_distinct: "fl_wf s xs \<Longrightarrow> distinct (fl_head s # xs)"
  by (auto simp: fl_wf_def free_block_def clear_of_sentinel_def dest: sorted_blocks_distinct)

text \<open>
  The blocks of a well-formed list are pairwise disjoint, and no header or link of one is
  inside another or in the sentinel.
\<close>

lemma sorted_blocks_disjoint:
  assumes "sorted_wrt (\<lambda>x y. x + Wosize_bp m x < y) xs" "\<forall>x\<in>set xs. 1 \<le> x"
    and "x \<in> set xs" "y \<in> set xs" "x \<noteq> y"
  shows "block_words m x \<inter> block_words m y = {}"
  using assms
proof (induction xs)
  case (Cons a xs)
  have less: "block_words m u \<inter> block_words m v = {}"
    if "u + Wosize_bp m u < v" for u v
    using that by (auto simp: block_words_def)
  from Cons show ?case
    by (auto simp: less Int_commute [of "block_words m y"] dest: less)
qed simp

lemma fl_wf_separate:
  assumes "fl_wf s xs" "x \<in> set xs" "y \<in> set xs" "x \<noteq> y"
  shows "x - 1 \<noteq> y" "x - 1 \<noteq> y - 1" "block_words (mem s) x \<inter> block_words (mem s) y = {}"
proof -
  show d: "block_words (mem s) x \<inter> block_words (mem s) y = {}"
    using assms by (intro sorted_blocks_disjoint [of "mem s" xs]) (auto simp: fl_wf_def free_block_def)
  have "x - 1 \<in> block_words (mem s) x" "y \<in> block_words (mem s) y" "y - 1 \<in> block_words (mem s) y"
    using assms by (auto simp: block_words_def fl_wf_def free_block_def)
  with d show "x - 1 \<noteq> y" "x - 1 \<noteq> y - 1" by auto
qed

lemma fl_wf_free_words:
  assumes "fl_wf s xs" "x \<in> set xs"
  shows "x \<in> free_words (mem s) xs" "x - 1 \<in> free_words (mem s) xs"
proof -
  have "free_block s x" using assms by (simp add: fl_wf_def)
  then have "x \<in> block_words (mem s) x" "x - 1 \<in> block_words (mem s) x"
    by (auto simp: free_block_def block_words_def)
  with assms(2) show "x \<in> free_words (mem s) xs" "x - 1 \<in> free_words (mem s) xs"
    by (auto simp: free_words_def)
qed

lemma fl_wf_sentinel:
  assumes "fl_wf s xs" "x \<in> set xs"
  shows "fl_head s \<noteq> x" "fl_head s \<noteq> x - 1" "fl_head s - 1 \<noteq> x" "fl_head s - 1 \<noteq> x - 1"
    "fl_head s \<notin> block_words (mem s) x"
  using assms by (auto simp: fl_wf_def free_block_def clear_of_sentinel_def block_words_def)

section \<open>Allocating from a chosen block\<close>

text \<open>The fields \<open>allocate_block\<close> writes.\<close>

lemma allocate_block_result:
  "fst (allocate_block wh_sz i prev cur s) = cur + Wosize_bp (mem s) cur - wh_sz"
  by (simp add: allocate_block_def Let_def Wosize_bp_def)

lemma allocate_block_frame:
  "fl_head (snd (allocate_block wh_sz i prev cur s)) = fl_head s"
  "policy (snd (allocate_block wh_sz i prev cur s)) = policy s"
  "gc_sweep_hp (snd (allocate_block wh_sz i prev cur s)) = gc_sweep_hp s"
  "last_fragment (snd (allocate_block wh_sz i prev cur s)) = last_fragment s"
  "policy s = Policy_next_fit \<Longrightarrow> fl_prev (snd (allocate_block wh_sz i prev cur s)) = prev"
  by (simp_all add: allocate_block_def Let_def set_Hd_def set_Next_def Policy_first_fit_def
      Policy_next_fit_def)

lemma allocate_block_whole:
  assumes "Wosize_bp (mem s) cur < wh_sz + 1"
  shows "mem (snd (allocate_block wh_sz i prev cur s)) =
      (mem s)(prev := mem s cur, cur - 1 := Make_header 0 0 Caml_white)"
    and "fl_cur_size (snd (allocate_block wh_sz i prev cur s)) =
      fl_cur_size s - of_nat (Whsize_bp (mem s) cur)"
    and "fl_merge (snd (allocate_block wh_sz i prev cur s)) =
      (if fl_merge s = cur then prev else fl_merge s)"
proof -
  have w: "Whsize_hd (Hd_bp (mem s) cur) = of_nat (Whsize_bp (mem s) cur)"
    by (simp add: Whsize_hd_def Whsize_bp_def Wosize_bp_def)
  show "mem (snd (allocate_block wh_sz i prev cur s)) =
      (mem s)(prev := mem s cur, cur - 1 := Make_header 0 0 Caml_white)"
    "fl_cur_size (snd (allocate_block wh_sz i prev cur s)) =
      fl_cur_size s - of_nat (Whsize_bp (mem s) cur)"
    "fl_merge (snd (allocate_block wh_sz i prev cur s)) =
      (if fl_merge s = cur then prev else fl_merge s)"
    using assms
    by (simp_all add: allocate_block_def Let_def set_Hd_def set_Next_def Next_def w
        Wosize_bp_def [symmetric])
qed

lemma allocate_block_split:
  assumes "\<not> Wosize_bp (mem s) cur < wh_sz + 1"
  shows "mem (snd (allocate_block wh_sz i prev cur s)) =
      (mem s)(cur - 1 := Make_header (of_nat (Wosize_bp (mem s) cur - wh_sz)) 0 Caml_blue)"
    and "fl_cur_size (snd (allocate_block wh_sz i prev cur s)) = fl_cur_size s - of_nat wh_sz"
    and "fl_merge (snd (allocate_block wh_sz i prev cur s)) = fl_merge s"
proof -
  show "mem (snd (allocate_block wh_sz i prev cur s)) =
      (mem s)(cur - 1 := Make_header (of_nat (Wosize_bp (mem s) cur - wh_sz)) 0 Caml_blue)"
    "fl_cur_size (snd (allocate_block wh_sz i prev cur s)) = fl_cur_size s - of_nat wh_sz"
    "fl_merge (snd (allocate_block wh_sz i prev cur s)) = fl_merge s"
    using assms
    by (simp_all add: allocate_block_def Let_def set_Hd_def Wosize_bp_def)
qed

text \<open>
  \<open>prev\<close> is the predecessor of \<open>cur\<close> in the chain: no header of a listed block is at it.
\<close>

lemma fl_wf_pred:
  assumes "fl_wf s (us @ cur # vs)" "prev = last (fl_head s # us)"
  shows "prev \<in> set (fl_head s # us)" "prev \<noteq> cur"
proof -
  show p: "prev \<in> set (fl_head s # us)"
    using assms(2) by (cases us rule: rev_cases) auto
  have "distinct (fl_head s # us @ cur # vs)" by (rule fl_wf_distinct) (rule assms(1))
  with p show "prev \<noteq> cur" by auto
qed

lemma fl_wf_header_not_link:
  assumes "fl_wf s xs" "p \<in> set (fl_head s # xs)" "y \<in> set xs"
  shows "y - 1 \<noteq> p"
proof (cases "p = fl_head s")
  case True
  then show ?thesis using fl_wf_sentinel(2) [OF assms(1,3)] by simp
next
  case False
  with assms(2) have "p \<in> set xs" by auto
  moreover have "2 \<le> y" using assms(1,3) by (auto simp: fl_wf_def free_block_def)
  ultimately show ?thesis using fl_wf_separate(1) [OF assms(1,3)] by (cases "y = p") auto
qed

lemma fl_wf_sentinel_header_not_link:
  assumes "fl_wf s xs" "p \<in> set (fl_head s # xs)"
  shows "fl_head s - 1 \<noteq> p"
  using assms fl_wf_sentinel(3) [OF assms(1)] by (auto simp: fl_wf_def)

lemma free_block_cong:
  "free_block s x \<Longrightarrow> fl_head s' = fl_head s \<Longrightarrow> Hd_bp (mem s') x = Hd_bp (mem s) x \<Longrightarrow>
   free_block s' x"
  by (simp add: free_block_def Wosize_bp_def clear_of_sentinel_def)

lemma sorted_blocks_cong:
  "sorted_wrt (\<lambda>x y. x + Wosize_bp m x < y) xs \<Longrightarrow> \<forall>x\<in>set xs. Wosize_bp m' x \<le> Wosize_bp m x \<Longrightarrow>
   sorted_wrt (\<lambda>x y. x + Wosize_bp m' x < y) xs"
  by (induction xs) fastforce+

lemma Whsize_sum_cong:
  "\<forall>x\<in>set xs. Hd_bp m' x = Hd_bp m x \<Longrightarrow>
   (\<Sum>x\<leftarrow>xs. Whsize_bp m' x) = (\<Sum>x\<leftarrow>xs. Whsize_bp m x)"
  by (induction xs) (auto simp: Whsize_bp_def Wosize_bp_def)

lemma fl_wf_cong:
  "fl_wf s xs \<Longrightarrow> mem s' = mem s \<Longrightarrow> fl_head s' = fl_head s \<Longrightarrow>
   fl_cur_size s' = fl_cur_size s \<Longrightarrow> fl_merge s' = fl_merge s \<Longrightarrow> fl_wf s' xs"
  by (simp add: fl_wf_def free_block_def clear_of_sentinel_def)

lemma fl_wf_irrelevant [simp]:
  "fl_wf (s\<lparr>flp := f\<rparr>) xs = fl_wf s xs" "fl_wf (s\<lparr>flp_size := n\<rparr>) xs = fl_wf s xs"
  "fl_wf (s\<lparr>beyond := a\<rparr>) xs = fl_wf s xs" "fl_wf (s\<lparr>fl_prev := a\<rparr>) xs = fl_wf s xs"
  "fl_wf (s\<lparr>last_fragment := a\<rparr>) xs = fl_wf s xs" "fl_wf (s\<lparr>fl_last := a\<rparr>) xs = fl_wf s xs"
  by (simp_all add: fl_wf_def free_block_def clear_of_sentinel_def)

text \<open>
  A write that touches neither a header nor a link of the list, nor the sentinel, keeps the
  list well formed.
\<close>

lemma fl_wf_mem_upd:
  assumes "fl_wf s xs" "a \<notin> free_words (mem s) xs" "a \<noteq> fl_head s" "a \<noteq> fl_head s - 1"
  shows "fl_wf (s\<lparr>mem := (mem s)(a := v)\<rparr>) xs" "free_words ((mem s)(a := v)) xs = free_words (mem s) xs"
proof -
  have a: "a \<noteq> x" "a \<noteq> x - 1" if "x \<in> set xs" for x
    using fl_wf_free_words [OF assms(1) that] assms(2) by auto
  then have h: "Hd_bp ((mem s)(a := v)) x = Hd_bp (mem s) x" if "x \<in> set xs" for x
    using that by (simp add: mem_simps)
  have w: "Wosize_bp ((mem s)(a := v)) x = Wosize_bp (mem s) x" if "x \<in> set xs" for x
    using h [OF that] by (simp add: Wosize_bp_def)
  let ?s = "s\<lparr>mem := (mem s)(a := v)\<rparr>"
  have path: "fl_path ((mem s)(a := v)) (fl_head s) xs"
    using assms(1,3) a by (subst fl_path_upd) (auto simp: fl_wf_def)
  have sorted: "sorted_wrt (\<lambda>x y. x + Wosize_bp ((mem s)(a := v)) x < y) xs"
  proof (rule sorted_blocks_cong)
    show "sorted_wrt (\<lambda>x y. x + Wosize_bp (mem s) x < y) xs" using assms(1) by (simp add: fl_wf_def)
    show "\<forall>x\<in>set xs. Wosize_bp ((mem s)(a := v)) x \<le> Wosize_bp (mem s) x"
      using w by (metis order_refl)
  qed
  have blocks: "\<forall>x\<in>set xs. free_block ?s x"
  proof
    fix x assume x: "x \<in> set xs"
    then have "free_block s x" using assms(1) by (simp add: fl_wf_def)
    then show "free_block ?s x" by (rule free_block_cong) (simp_all add: h [OF x])
  qed
  have sum: "(\<Sum>x\<leftarrow>xs. Whsize_bp ((mem s)(a := v)) x) = (\<Sum>x\<leftarrow>xs. Whsize_bp (mem s) x)"
    using h by (intro Whsize_sum_cong) metis
  have head: "Hd_bp ((mem s)(a := v)) (fl_head s) = Hd_bp (mem s) (fl_head s)"
    using assms(4) by (simp add: mem_simps)
  show "fl_wf ?s xs"
    using assms(1) path sorted blocks sum head by (simp add: fl_wf_def)
  show "free_words ((mem s)(a := v)) xs = free_words (mem s) xs"
    using w by (auto simp: free_words_def block_words_def)
qed

text \<open>Unlinking a block from the chain, its words no longer counted.\<close>

definition unlink :: "addr \<Rightarrow> addr \<Rightarrow> fl_state \<Rightarrow> fl_state" where
  "unlink prev cur s = s\<lparr>mem := (mem s)(prev := mem s cur),
     fl_cur_size := fl_cur_size s - of_nat (Whsize_bp (mem s) cur),
     fl_merge := (if fl_merge s = cur then prev else fl_merge s)\<rparr>"

lemma unlink_wf:
  assumes wf: "fl_wf s (us @ cur # vs)" and prev: "prev = last (fl_head s # us)"
  shows "fl_wf (unlink prev cur s) (us @ vs)"
    and "free_words (mem (unlink prev cur s)) (us @ vs) =
      free_words (mem s) (us @ cur # vs) - block_words (mem s) cur"
    and "\<And>y. y \<in> set (us @ cur # vs) \<Longrightarrow> Wosize_bp (mem (unlink prev cur s)) y = Wosize_bp (mem s) y"
proof -
  let ?s' = "unlink prev cur s"
  have d: "distinct (fl_head s # us @ cur # vs)" by (rule fl_wf_distinct) (rule wf)
  have p: "prev \<in> set (fl_head s # us @ cur # vs)" using fl_wf_pred(1) [OF wf prev] by auto
  have fh: "fl_head ?s' = fl_head s" by (simp add: unlink_def)
  have hd: "Hd_bp (mem ?s') y = Hd_bp (mem s) y" if "y \<in> set (us @ cur # vs)" for y
    using fl_wf_header_not_link [OF wf p that] by (simp add: unlink_def Hd_bp_def)
  show w: "Wosize_bp (mem ?s') y = Wosize_bp (mem s) y" if "y \<in> set (us @ cur # vs)" for y
    using hd [OF that] by (simp add: Wosize_bp_def)
  have path: "fl_path (mem ?s') (fl_head s) (us @ vs)"
  proof -
    have "mem ?s' = (mem s)(last (fl_head s # us) := mem s cur)" by (simp only: unlink_def prev) simp
    with wf d show ?thesis by (simp only: fl_path_remove fl_wf_def)
  qed
  have head: "Hd_bp (mem ?s') (fl_head s) = Hd_bp (mem s) (fl_head s)"
    using fl_wf_sentinel_header_not_link [OF wf p] by (simp add: unlink_def Hd_bp_def)
  have "(\<Sum>x\<leftarrow>us @ vs. Whsize_bp (mem ?s') x) = (\<Sum>x\<leftarrow>us @ vs. Whsize_bp (mem s) x)"
    using hd by (intro Whsize_sum_cong) auto
  then have sum: "fl_cur_size ?s' = of_nat (\<Sum>x\<leftarrow>us @ vs. Whsize_bp (mem ?s') x)"
    using wf by (simp add: fl_wf_def) (simp add: unlink_def)
  have merge: "fl_merge ?s' \<in> set (fl_head s # us @ vs)"
    using wf fl_wf_pred(1) [OF wf prev] by (auto simp: fl_wf_def unlink_def)
  have sorted: "sorted_wrt (\<lambda>x y. x + Wosize_bp (mem ?s') x < y) (us @ vs)"
  proof (rule sorted_blocks_cong)
    show "sorted_wrt (\<lambda>x y. x + Wosize_bp (mem s) x < y) (us @ vs)"
      using wf by (simp add: fl_wf_def sorted_wrt_append)
    show "\<forall>x\<in>set (us @ vs). Wosize_bp (mem ?s') x \<le> Wosize_bp (mem s) x"
      using w by auto
  qed
  have blocks: "\<forall>y\<in>set (us @ vs). free_block ?s' y"
  proof
    fix y assume y: "y \<in> set (us @ vs)"
    then have "free_block s y" using wf by (auto simp: fl_wf_def)
    moreover have "Hd_bp (mem ?s') y = Hd_bp (mem s) y" using y by (intro hd) auto
    ultimately show "free_block ?s' y" by (rule free_block_cong [OF _ fh])
  qed
  from fh wf path sum merge sorted blocks head show "fl_wf ?s' (us @ vs)"
    by (simp add: fl_wf_def)
  have "block_words (mem s) cur \<inter> block_words (mem s) y = {}" if "y \<in> set (us @ vs)" for y
    using fl_wf_separate(3) [OF wf, of cur y] that d by auto
  moreover have "block_words (mem ?s') y = block_words (mem s) y" if "y \<in> set (us @ vs)" for y
    using w [of y] that by (auto simp: block_words_def)
  ultimately show "free_words (mem ?s') (us @ vs) =
      free_words (mem s) (us @ cur # vs) - block_words (mem s) cur"
    by (auto simp: free_words_def)
qed

lemma allocate_block_whole_wf:
  assumes wf: "fl_wf s (us @ cur # vs)" and prev: "prev = last (fl_head s # us)"
    and small: "Wosize_bp (mem s) cur < wh_sz + 1"
  shows "fl_wf (snd (allocate_block wh_sz i prev cur s)) (us @ vs)"
    and "free_words (mem (snd (allocate_block wh_sz i prev cur s))) (us @ vs) =
      free_words (mem s) (us @ cur # vs) - block_words (mem s) cur"
proof -
  let ?s' = "snd (allocate_block wh_sz i prev cur s)"
  let ?u = "unlink prev cur s"
  note u = unlink_wf [OF wf prev]
  note aw = allocate_block_whole [OF small, of i prev]
  have "cur - 1 \<in> block_words (mem s) cur"
    using wf by (auto simp: fl_wf_def free_block_def block_words_def)
  then have out: "cur - 1 \<notin> free_words (mem ?u) (us @ vs)" "cur - 1 \<noteq> fl_head ?u" "cur - 1 \<noteq> fl_head ?u - 1"
    using fl_wf_sentinel(2,4) [OF wf, of cur] by (auto simp: u(2)) (simp_all add: unlink_def)
  note m = fl_wf_mem_upd [OF u(1) out, of "Make_header 0 0 Caml_white"]
  have e: "mem ?s' = (mem ?u)(cur - 1 := Make_header 0 0 Caml_white)"
    by (simp add: aw unlink_def)
  show "fl_wf ?s' (us @ vs)"
    using m(1) by (rule fl_wf_cong) (simp_all add: e, simp_all add: unlink_def aw allocate_block_frame)
  show "free_words (mem ?s') (us @ vs) = free_words (mem s) (us @ cur # vs) - block_words (mem s) cur"
    unfolding e using m(2) u(2) by simp
qed

lemma allocate_block_split_wf:
  assumes wf: "fl_wf s (us @ cur # vs)" and prev: "prev = last (fl_head s # us)"
    and big: "\<not> Wosize_bp (mem s) cur < wh_sz + 1"
  shows "fl_wf (snd (allocate_block wh_sz i prev cur s)) (us @ cur # vs)"
    and "free_words (mem (snd (allocate_block wh_sz i prev cur s))) (us @ cur # vs) =
      free_words (mem s) (us @ cur # vs) -
      {cur + Wosize_bp (mem s) cur - wh_sz ..< cur + Wosize_bp (mem s) cur}"
proof -
  let ?s' = "snd (allocate_block wh_sz i prev cur s)"
  let ?W = "Wosize_bp (mem s) cur"
  let ?L = "us @ cur # vs"
  note as = allocate_block_split [OF big, of i prev]
  have d: "distinct (fl_head s # ?L)" by (rule fl_wf_distinct) (rule wf)
  have W: "?W - wh_sz \<le> Max_wosize"
    using Wosize_hd_le [of "Hd_bp (mem s) cur"] unfolding Wosize_bp_def by linarith
  have hd: "Hd_bp (mem ?s') y = Hd_bp (mem s) y" if "y \<in> set ?L" "y \<noteq> cur" for y
  proof -
    have "cur - 1 \<noteq> y - 1" using fl_wf_separate(2) [OF wf, of cur y] that by simp
    then show ?thesis by (simp add: as Hd_bp_def)
  qed
  have hc: "Wosize_bp (mem ?s') cur = ?W - wh_sz" "Color_hd (Hd_bp (mem ?s') cur) = Caml_blue"
    using unat_Wosize_Make_header [OF W, of Caml_blue]
    by (simp_all add: as(1) Wosize_bp_def Hd_bp_def del: of_nat_diff)
  have w: "Wosize_bp (mem ?s') y = (if y = cur then ?W - wh_sz else Wosize_bp (mem s) y)"
    if "y \<in> set ?L" for y
    using hd [OF that] hc by (auto simp: Wosize_bp_def)
  have notin: "cur - 1 \<noteq> fl_head s" "cur - 1 \<notin> set ?L"
  proof -
    show "cur - 1 \<noteq> fl_head s" using fl_wf_sentinel(2) [OF wf, of cur] by simp
    have "cur - 1 \<noteq> cur" using wf by (auto simp: fl_wf_def free_block_def)
    then show "cur - 1 \<notin> set ?L" using fl_wf_separate(1) [OF wf, of cur] by fastforce
  qed
  have path: "fl_path (mem ?s') (fl_head s) ?L"
    using wf notin by (simp add: as fl_path_upd fl_wf_def del: fun_upd_apply)
  have head: "Hd_bp (mem ?s') (fl_head s) = Hd_bp (mem s) (fl_head s)"
    using fl_wf_sentinel(4) [OF wf, of cur] by (simp add: as Hd_bp_def)
  have us: "(\<Sum>x\<leftarrow>us. Whsize_bp (mem ?s') x) = (\<Sum>x\<leftarrow>us. Whsize_bp (mem s) x)"
    and vs: "(\<Sum>x\<leftarrow>vs. Whsize_bp (mem ?s') x) = (\<Sum>x\<leftarrow>vs. Whsize_bp (mem s) x)"
    using d hd by (auto intro!: Whsize_sum_cong)
  have sum: "fl_cur_size ?s' = of_nat (\<Sum>x\<leftarrow>?L. Whsize_bp (mem ?s') x)"
  proof -
    obtain k where k: "?W = wh_sz + k" using big le_Suc_ex [of wh_sz ?W] by auto
    then have "Whsize_bp (mem s) cur = wh_sz + k + 1" "Whsize_bp (mem ?s') cur = k + 1"
      by (simp_all add: Whsize_bp_def hc)
    then show ?thesis using wf by (simp add: fl_wf_def as(2) us vs)
  qed
  have sorted: "sorted_wrt (\<lambda>x y. x + Wosize_bp (mem ?s') x < y) ?L"
  proof (rule sorted_blocks_cong)
    show "sorted_wrt (\<lambda>x y. x + Wosize_bp (mem s) x < y) ?L"
      using wf by (simp only: fl_wf_def)
    show "\<forall>x\<in>set ?L. Wosize_bp (mem ?s') x \<le> Wosize_bp (mem s) x"
      using w by (metis diff_le_self order_refl)
  qed
  have blocks: "\<forall>y\<in>set ?L. free_block ?s' y"
  proof
    fix y assume y: "y \<in> set ?L"
    show "free_block ?s' y"
    proof (cases "y = cur")
      case True
      with wf big hc show ?thesis
        by (auto simp: fl_wf_def free_block_def clear_of_sentinel_def allocate_block_frame)
    next
      case False
      have "free_block s y" using wf y by (auto simp: fl_wf_def)
      then show ?thesis
        by (rule free_block_cong) (simp_all only: allocate_block_frame hd [OF y False])
    qed
  qed
  show "fl_wf ?s' ?L"
    using wf path sum sorted blocks head by (simp add: fl_wf_def allocate_block_frame as(3))
  have "block_words (mem s) cur \<inter> block_words (mem s) y = {}" if "y \<in> set us \<union> set vs" for y
    using fl_wf_separate(3) [OF wf, of cur y] that d by auto
  moreover have "{cur + ?W - wh_sz ..< cur + ?W} \<subseteq> block_words (mem s) cur"
    using big by (auto simp: block_words_def)
  moreover have "block_words (mem ?s') y = block_words (mem s) y" if "y \<in> set us \<union> set vs" for y
    using w [of y] that d by (auto simp: block_words_def)
  moreover have "block_words (mem ?s') cur = block_words (mem s) cur - {cur + ?W - wh_sz ..< cur + ?W}"
    using w [of cur] big by (auto simp: block_words_def)
  ultimately show "free_words (mem ?s') ?L = free_words (mem s) ?L -
      {cur + ?W - wh_sz ..< cur + ?W}"
    by (auto simp: free_words_def)
qed

section \<open>The next-fit search\<close>

lemma nf_search_none:
  "fl_path m p xs \<Longrightarrow> \<forall>x\<in>set xs. Wosize_bp m x < wo \<Longrightarrow>
   nf_search m wo p (Next m p) = Some (Inl (last (p # xs)))"
  by (induction xs arbitrary: p) (simp_all add: nf_search.simps not_le)

lemma nf_search_found:
  "fl_path m p (us @ cur # vs) \<Longrightarrow> \<forall>x\<in>set us. Wosize_bp m x < wo \<Longrightarrow> wo \<le> Wosize_bp m cur \<Longrightarrow>
   nf_search m wo p (Next m p) = Some (Inr (last (p # us), cur))"
  by (induction us arbitrary: p) (simp_all add: nf_search.simps not_le)

lemma nf_search_to_none:
  "fl_path m p (us @ vs) \<Longrightarrow> distinct (p # us) \<Longrightarrow> \<forall>x\<in>set us. Wosize_bp m x < wo \<Longrightarrow>
   nf_search_to m wo (last (p # us)) p (Next m p) = Some None"
proof (induction us arbitrary: p)
  case (Cons u us)
  then have "nf_search_to m wo (last (u # us)) u (Next m u) = Some None" by auto
  moreover have "last (u # us) \<noteq> p" using Cons.prems(2) by auto
  ultimately show ?case using Cons.prems by (simp add: nf_search_to.simps not_le)
qed (simp add: nf_search_to.simps)

lemma nf_search_to_found:
  "fl_path m p (us @ cur # vs) \<Longrightarrow> stop \<notin> set (p # us) \<Longrightarrow> \<forall>x\<in>set us. Wosize_bp m x < wo \<Longrightarrow>
   wo \<le> Wosize_bp m cur \<Longrightarrow>
   nf_search_to m wo stop p (Next m p) = Some (Some (last (p # us), cur))"
  by (induction us arbitrary: p) (simp_all add: nf_search_to.simps not_le)

text \<open>The first element that satisfies a predicate splits a list.\<close>

lemma first_fit_split:
  fixes f :: "'a \<Rightarrow> nat"
  assumes "\<exists>x\<in>set xs. wo \<le> f x"
  obtains us cur vs where "xs = us @ cur # vs" "\<forall>u\<in>set us. f u < wo" "wo \<le> f cur"
  using split_list_first_prop [OF assms] by (metis not_le)

text \<open>
  Next fit examines the blocks after \<open>fl_prev\<close> first, then those up to it: it finds a
  block exactly when one is large enough, and hands it to \<open>allocate_block\<close> with its
  predecessor.
\<close>

definition nf_inv :: "fl_state \<Rightarrow> addr list \<Rightarrow> bool" where
  "nf_inv s xs \<longleftrightarrow> fl_wf s xs \<and> policy s = Policy_next_fit \<and> fl_prev s \<in> set (fl_head s # xs)"

lemma nf_inv_split:
  assumes "nf_inv s xs"
  obtains as bs where "xs = as @ bs" "fl_prev s = last (fl_head s # as)"
proof (cases "fl_prev s = fl_head s")
  case True
  then show thesis by (intro that [of "[]" xs]) simp_all
next
  case False
  with assms have "fl_prev s \<in> set xs" by (simp add: nf_inv_def)
  then obtain as bs where "xs = as @ fl_prev s # bs" by (meson split_list)
  then show thesis by (intro that [of "as @ [fl_prev s]" bs]) simp_all
qed

lemma allocate_next_fit_none:
  assumes inv: "nf_inv s xs" and none: "\<forall>x\<in>set xs. Wosize_bp (mem s) x < wo"
  shows "allocate_next_fit wo s = Some (0, s\<lparr>fl_last := last (fl_head s # xs)\<rparr>)"
proof -
  obtain as bs where xs: "xs = as @ bs" "fl_prev s = last (fl_head s # as)"
    using inv by (rule nf_inv_split)
  have path: "fl_path (mem s) (fl_head s) (as @ bs)" and d: "distinct (fl_head s # as)"
    using inv fl_wf_distinct [of s xs] by (auto simp: nf_inv_def fl_wf_def xs)
  have "nf_search (mem s) wo (fl_prev s) (Next (mem s) (fl_prev s)) =
      Some (Inl (last (fl_prev s # bs)))"
    using none fl_path_appendD [OF path] by (intro nf_search_none) (auto simp: xs)
  moreover have "last (fl_prev s # bs) = last (fl_head s # xs)" by (simp add: xs)
  moreover have "nf_search_to (mem s) wo (fl_prev s) (fl_head s) (Next (mem s) (fl_head s)) = Some None"
    unfolding xs(2) using none by (intro nf_search_to_none [OF path d]) (simp add: xs)
  ultimately show ?thesis by (simp add: allocate_next_fit_def)
qed

lemma allocate_next_fit_found:
  assumes inv: "nf_inv s xs" and some: "\<exists>x\<in>set xs. wo \<le> Wosize_bp (mem s) x"
  obtains us cur vs p where "xs = us @ cur # vs" "wo \<le> Wosize_bp (mem s) cur"
    "allocate_next_fit wo s = Some (allocate_block (wo + 1) 0 (last (fl_head s # us)) cur (s\<lparr>fl_last := p\<rparr>))"
proof -
  obtain as bs where xs: "xs = as @ bs" "fl_prev s = last (fl_head s # as)"
    using inv by (rule nf_inv_split)
  have path: "fl_path (mem s) (fl_head s) (as @ bs)" and d: "distinct (fl_head s # as)"
    using inv fl_wf_distinct [of s xs] by (auto simp: nf_inv_def fl_wf_def xs)
  note pb = fl_path_appendD [OF path, folded xs(2)]
  show thesis
  proof (cases "\<exists>x\<in>set bs. wo \<le> Wosize_bp (mem s) x")
    case True
    then obtain us cur vs where b: "bs = us @ cur # vs"
      "\<forall>u\<in>set us. Wosize_bp (mem s) u < wo" "wo \<le> Wosize_bp (mem s) cur"
      by (rule first_fit_split)
    have "nf_search (mem s) wo (fl_prev s) (Next (mem s) (fl_prev s)) =
        Some (Inr (last (fl_prev s # us), cur))"
      using pb b by (intro nf_search_found [of _ _ _ _ vs]) simp_all
    moreover have "last (fl_prev s # us) = last (fl_head s # as @ us)" by (simp add: xs)
    ultimately show thesis
      using b(3) by (intro that [of "as @ us" cur vs "fl_last s"]) (simp_all add: xs b(1) allocate_next_fit_def)
  next
    case False
    with some xs have "\<exists>x\<in>set as. wo \<le> Wosize_bp (mem s) x" by auto
    then obtain us cur vs where a: "as = us @ cur # vs"
      "\<forall>u\<in>set us. Wosize_bp (mem s) u < wo" "wo \<le> Wosize_bp (mem s) cur"
      by (rule first_fit_split)
    have "nf_search (mem s) wo (fl_prev s) (Next (mem s) (fl_prev s)) =
        Some (Inl (last (fl_prev s # bs)))"
      using False pb by (intro nf_search_none) (auto simp: not_le)
    moreover have "fl_prev s \<notin> set (fl_head s # us)"
    proof -
      have "fl_prev s \<in> set (cur # vs)"
        unfolding xs(2) a(1) by (cases vs rule: rev_cases) auto
      with d show ?thesis by (auto simp: a(1))
    qed
    then have "nf_search_to (mem s) wo (fl_prev s) (fl_head s) (Next (mem s) (fl_head s)) =
        Some (Some (last (fl_head s # us), cur))"
      using path a by (intro nf_search_to_found [of _ _ _ _ "vs @ bs"]) simp_all
    ultimately show thesis
      using a(3) by (intro that [of us cur "vs @ bs" "last (fl_prev s # bs)"])
        (simp_all add: xs a(1) allocate_next_fit_def)
  qed
qed

section \<open>What an allocation promises\<close>

text \<open>
  Whatever the search, a block taken from the list is \<open>wh_sz\<close> consecutive free words, and
  the list is well formed afterwards without them.
\<close>

definition takes_words :: "fl_state \<Rightarrow> addr list \<Rightarrow> nat \<Rightarrow> addr \<Rightarrow> fl_state \<Rightarrow> addr list \<Rightarrow> bool" where
  "takes_words s xs wh_sz r s' xs' \<longleftrightarrow> r \<noteq> 0 \<and> {r ..< r + wh_sz} \<subseteq> free_words (mem s) xs \<and>
     free_words (mem s') xs' \<subseteq> free_words (mem s) xs - {r ..< r + wh_sz} \<and>
     card (free_words (mem s) xs - free_words (mem s') xs') \<le> wh_sz + 1 \<and>
     (\<forall>a. a \<notin> free_words (mem s) xs \<and> a \<noteq> fl_head s \<longrightarrow> mem s' a = mem s a)"

lemma allocate_block_takes_words:
  assumes wf: "fl_wf s (us @ cur # vs)" and prev: "prev = last (fl_head s # us)"
    and fit: "wo \<le> Wosize_bp (mem s) cur" "1 \<le> wo"
    and xs': "xs' = (if Wosize_bp (mem s) cur < wo + 2 then us @ vs else us @ cur # vs)"
    and res: "allocate_block (wo + 1) i prev cur s = (r, s')"
  shows "fl_wf s' xs' \<and> takes_words s (us @ cur # vs) (wo + 1) r s' xs' \<and> prev \<in> set (fl_head s # xs')"
proof -
  let ?W = "Wosize_bp (mem s) cur" and ?L = "us @ cur # vs"
  have r: "r = cur + ?W - (wo + 1)" and s': "s' = snd (allocate_block (wo + 1) i prev cur s)"
    using allocate_block_result [of "wo + 1" i prev cur s] res by auto
  have cur: "2 \<le> cur" using wf by (auto simp: fl_wf_def free_block_def)
  have sub: "{r ..< r + (wo + 1)} \<subseteq> block_words (mem s) cur"
    using fit cur by (auto simp: r block_words_def)
  have in_free: "block_words (mem s) cur \<subseteq> free_words (mem s) ?L"
    by (auto simp: free_words_def)
  have p: "prev \<in> set (fl_head s # us)" by (rule fl_wf_pred(1) [OF wf prev])
  have link: "x \<in> free_words (mem s) ?L" if "x \<in> set ?L" for x
    using fl_wf_free_words(1) [OF wf that] .
  have hdr: "cur - 1 \<in> block_words (mem s) cur"
    using cur by (auto simp: block_words_def)
  show ?thesis
  proof (cases "?W < wo + 2")
    case True
    then have small: "?W < (wo + 1) + 1" by simp
    have "card (free_words (mem s) ?L - free_words (mem s') (us @ vs)) \<le> wo + 2"
    proof -
      have "free_words (mem s) ?L - free_words (mem s') (us @ vs) \<subseteq> block_words (mem s) cur"
        unfolding s' allocate_block_whole_wf(2) [OF wf prev small] by auto
      then have "card (free_words (mem s) ?L - free_words (mem s') (us @ vs)) \<le>
          card (block_words (mem s) cur)"
        by (intro card_mono) (simp_all add: block_words_def)
      also have "\<dots> \<le> wo + 2" using True cur by (simp add: block_words_def)
      finally show ?thesis .
    qed
    moreover have "mem s' a = mem s a" if "a \<notin> free_words (mem s) ?L" "a \<noteq> fl_head s" for a
    proof -
      have "a \<noteq> prev" "a \<noteq> cur - 1" using that p link hdr in_free by auto
      then show ?thesis unfolding s' allocate_block_whole(1) [OF small] by simp
    qed
    moreover have "r \<noteq> 0" using fit cur by (simp add: r)
    ultimately show ?thesis
      using True sub in_free p allocate_block_whole_wf [OF wf prev small, of i]
      by (auto simp: takes_words_def xs' s')
  next
    case False
    then have big: "\<not> ?W < (wo + 1) + 1" by simp
    have e: "{r ..< r + (wo + 1)} = {cur + ?W - (wo + 1) ..< cur + ?W}"
      using fit cur by (auto simp: r)
    have "free_words (mem s) ?L - free_words (mem s') ?L = {r ..< r + (wo + 1)}"
      unfolding s' allocate_block_split_wf(2) [OF wf prev big] e using sub in_free e by auto
    then have "card (free_words (mem s) ?L - free_words (mem s') ?L) \<le> wo + 2" by simp
    moreover have "mem s' a = mem s a" if "a \<notin> free_words (mem s) ?L" for a
    proof -
      have "a \<noteq> cur - 1" using that hdr in_free by auto
      then show ?thesis unfolding s' allocate_block_split(1) [OF big] by simp
    qed
    moreover have "r \<noteq> 0" using fit cur by (simp add: r)
    ultimately show ?thesis
      using False sub in_free p allocate_block_split_wf [OF wf prev big, of i] e
      by (auto simp: takes_words_def xs' s')
  qed
qed

section \<open>Merging a block into the list\<close>

text \<open>
  Between the phases of \<open>caml_fl_merge_block\<close> a block \<open>bp\<close> with header \<open>h\<close> is pending: it
  lies between the blocks \<open>us\<close> up to \<open>caml_fl_merge\<close> and the blocks \<open>vs\<close> after it, and it
  is already counted in \<open>caml_fl_cur_size\<close>.
\<close>

definition pending :: "fl_state \<Rightarrow> addr list \<Rightarrow> addr list \<Rightarrow> addr \<Rightarrow> header \<Rightarrow> bool" where
  "pending s us vs bp h \<longleftrightarrow>
     fl_wf (s\<lparr>fl_cur_size := fl_cur_size s - Whsize_hd h\<rparr>) (us @ vs) \<and>
     fl_merge s = last (fl_head s # us) \<and> 2 \<le> bp \<and> bp + unat (Wosize_hd h) < 2 ^ 61 \<and>
     clear_of_sentinel s (bp - 1) (bp + unat (Wosize_hd h)) \<and>
     (\<forall>u\<in>set us. u + Wosize_bp (mem s) u < bp) \<and>
     (\<forall>v\<in>set vs. bp + unat (Wosize_hd h) < v)"

text \<open>
  A fragment just before \<open>bp\<close>: a header with no field, after all blocks of \<open>us\<close>.
\<close>

definition fragment_ok :: "fl_state \<Rightarrow> addr list \<Rightarrow> addr \<Rightarrow> bool" where
  "fragment_ok s us bp \<longleftrightarrow> last_fragment s = Hp_bp bp \<longrightarrow> 2 \<le> last_fragment s \<and>
     clear_of_sentinel s (last_fragment s - 1) (last_fragment s) \<and>
     (\<forall>u\<in>set us. u + Wosize_bp (mem s) u < last_fragment s)"

definition pending_words :: "addr \<Rightarrow> header \<Rightarrow> addr set" where
  "pending_words bp h = {bp - 1 ..< bp + unat (Wosize_hd h)}"

lemma pending_disjoint:
  assumes "pending s us vs bp h"
  shows "pending_words bp h \<inter> free_words (mem s) (us @ vs) = {}"
    and "fl_head s \<notin> pending_words bp h" "fl_head s - 1 \<notin> pending_words bp h"
proof -
  have "block_words (mem s) u \<inter> pending_words bp h = {}" if "u \<in> set us" for u
    using assms that by (auto simp: pending_def block_words_def pending_words_def)
  moreover have "block_words (mem s) v \<inter> pending_words bp h = {}" if "v \<in> set vs" for v
    using assms that by (auto simp: pending_def block_words_def pending_words_def)
  ultimately show "pending_words bp h \<inter> free_words (mem s) (us @ vs) = {}"
    by (auto simp: free_words_def)
  show "fl_head s \<notin> pending_words bp h" "fl_head s - 1 \<notin> pending_words bp h"
    using assms by (auto simp: pending_def clear_of_sentinel_def pending_words_def)
qed

lemma pending_not_link:
  assumes "pending s us vs bp h" "x \<in> set (fl_head s # us @ vs)"
  shows "x \<notin> pending_words bp h" "bp - 1 \<noteq> x"
proof -
  have "fl_wf (s\<lparr>fl_cur_size := fl_cur_size s - Whsize_hd h\<rparr>) (us @ vs)"
    using assms(1) by (simp add: pending_def)
  from fl_wf_free_words(1) [OF this, of x] show x: "x \<notin> pending_words bp h"
    using pending_disjoint [OF assms(1)] assms(2) by auto
  have "bp - 1 \<in> pending_words bp h"
    using assms(1) by (auto simp: pending_words_def pending_def)
  with x show "bp - 1 \<noteq> x" by auto
qed

text \<open>The block's own header may be rewritten while it is pending.\<close>

lemma pending_set_Hd:
  assumes "pending s us vs bp h"
  shows "pending (set_Hd bp v s) us vs bp h"
    and "free_words (mem (set_Hd bp v s)) (us @ vs) = free_words (mem s) (us @ vs)"
proof -
  let ?s0 = "s\<lparr>fl_cur_size := fl_cur_size s - Whsize_hd h\<rparr>"
  have "bp - 1 \<in> pending_words bp h"
    using assms by (auto simp: pending_words_def pending_def)
  then have out: "bp - 1 \<notin> free_words (mem ?s0) (us @ vs)" "bp - 1 \<noteq> fl_head ?s0" "bp - 1 \<noteq> fl_head ?s0 - 1"
    using pending_disjoint [OF assms] by auto
  have wf: "fl_wf ?s0 (us @ vs)" using assms by (simp add: pending_def)
  note upd = fl_wf_mem_upd [OF wf out]
  have "Wosize_bp ((mem s)(bp - 1 := v)) u = Wosize_bp (mem s) u" if "u \<in> set us" for u
    using fl_wf_free_words(2) [OF wf, of u] out(1) that by (intro Wosize_bp_upd) auto
  moreover have "fl_wf (set_Hd bp v s\<lparr>fl_cur_size := fl_cur_size s - Whsize_hd h\<rparr>) (us @ vs)"
    using upd(1) [of v] by (rule fl_wf_cong) (simp_all add: set_Hd_def)
  ultimately show "pending (set_Hd bp v s) us vs bp h"
    using assms by (simp only: pending_def) (simp add: set_Hd_def clear_of_sentinel_def)
  show "free_words (mem (set_Hd bp v s)) (us @ vs) = free_words (mem s) (us @ vs)"
    using upd(2) [of v] by (simp add: set_Hd_def)
qed

subsection \<open>The three phases\<close>

lemma unat_Whsize_of_nat: "n \<le> Max_wosize \<Longrightarrow> c \<in> {Caml_white, Caml_gray, Caml_blue, Caml_black} \<Longrightarrow>
  Whsize_hd (Make_header (of_nat n) 0 c) = of_nat n + 1"
  by (simp add: Whsize_hd_def unat_Wosize_Make_header)

lemma merge_fragment_pending:
  assumes p: "pending s us vs bp h" and f: "fragment_ok s us bp" and h: "Hd_bp (mem s) bp = h"
    and res: "merge_fragment bp h s = (bp', h', s')"
  shows "pending s' us vs bp' h'" "free_words (mem s') (us @ vs) = free_words (mem s) (us @ vs)"
    "pending_words bp h \<subseteq> pending_words bp' h'" "pending_words bp' h' \<subseteq> insert (bp - 2) (pending_words bp h)"
    "bp' + unat (Wosize_hd h') = bp + unat (Wosize_hd h)"
    "fl_head s' = fl_head s" "policy s' = policy s" "fl_prev s' = fl_prev s"
    "Hd_bp (mem s') bp' = h'"
proof -
  let ?W = "unat (Wosize_hd h)"
  have "pending s' us vs bp' h' \<and> free_words (mem s') (us @ vs) = free_words (mem s) (us @ vs) \<and>
    pending_words bp h \<subseteq> pending_words bp' h' \<and> pending_words bp' h' \<subseteq> insert (bp - 2) (pending_words bp h) \<and>
    bp' + unat (Wosize_hd h') = bp + ?W \<and>
    fl_head s' = fl_head s \<and> policy s' = policy s \<and> fl_prev s' = fl_prev s \<and> Hd_bp (mem s') bp' = h'"
  proof (cases "last_fragment s = Hp_bp bp \<and> ?W + 1 \<le> Max_wosize")
    case False
    then have "bp' = bp" "h' = h" "s' = s"
      using res h by (auto simp: merge_fragment_def Whsize_bp_def Wosize_bp_def Let_def split: if_splits)
    with p h show ?thesis by auto
  next
    case True
    let ?h = "Make_header (of_nat (?W + 1)) 0 Caml_white"
    let ?c = "s\<lparr>fl_cur_size := fl_cur_size s + 1\<rparr>"
    have n: "unat (of_nat (?W + 1) :: u64) = ?W + 1" "Wosize_hd ?h = of_nat (?W + 1)"
      using unat_Wosize_Make_header [of "?W + 1" Caml_white] True by auto
    have bp: "2 \<le> bp" using p by (simp add: pending_def)
    have lfe: "last_fragment s = bp - 1" "Hp_bp bp = bp - 1" using True by (simp_all add: Hp_bp_def)
    have "merge_fragment bp h s = (bp - 1, ?h, set_Hd (bp - 1) ?h ?c)"
    proof -
      have "Whsize_bp (mem s) bp = ?W + 1" by (simp add: Whsize_bp_def Wosize_bp_def h)
      moreover have "set_Hd (bp - 1) ?h s\<lparr>fl_cur_size := fl_cur_size (set_Hd (bp - 1) ?h s) + 1\<rparr> =
          set_Hd (bp - 1) ?h ?c"
        by (rule fl_state.equality) (simp_all add: set_Hd_def)
      ultimately show ?thesis using True by (simp only: merge_fragment_def Let_def lfe) simp
    qed
    then have e: "bp' = bp - 1" "h' = ?h" "s' = set_Hd (bp - 1) ?h ?c"
      using res by auto
    have "Whsize_hd ?h = of_nat (?W + 1) + 1"
      using True by (intro unat_Whsize_of_nat) simp_all
    then have "Whsize_hd ?h = Whsize_hd h + 1" by (simp add: Whsize_hd_def)
    then have wf: "fl_wf (?c\<lparr>fl_cur_size := fl_cur_size ?c - Whsize_hd ?h\<rparr>) (us @ vs)"
      using p by (simp add: pending_def)
    have lf: "2 \<le> bp - 1" "clear_of_sentinel s (bp - 1 - 1) (bp - 1)"
      "\<forall>u\<in>set us. u + Wosize_bp (mem s) u < bp - 1"
      using f True bp by (auto simp: fragment_ok_def Hp_bp_def)
    have pend: "pending ?c us vs (bp - 1) ?h"
      using p wf lf n bp unfolding pending_def by (auto simp: clear_of_sentinel_def)
    have ws: "pending_words (bp - 1) ?h = insert (bp - 2) (pending_words bp h)"
      using bp lf(1) n by (auto simp: pending_words_def)
    show ?thesis
      unfolding e using pending_set_Hd [OF pend, of ?h] bp n ws lf(1)
      by (auto simp: set_Hd_def Hd_bp_def)
  qed
  then show "pending s' us vs bp' h'" "free_words (mem s') (us @ vs) = free_words (mem s) (us @ vs)"
    "pending_words bp h \<subseteq> pending_words bp' h'" "pending_words bp' h' \<subseteq> insert (bp - 2) (pending_words bp h)"
    "bp' + unat (Wosize_hd h') = bp + ?W"
    "fl_head s' = fl_head s" "policy s' = policy s" "fl_prev s' = fl_prev s"
    "Hd_bp (mem s') bp' = h'" by blast+
qed

lemma pending_next: "pending s us vs bp h \<Longrightarrow>
  Next (mem s) (fl_merge s) = (case vs of [] \<Rightarrow> 0 | v # _ \<Rightarrow> v)"
  using fl_path_appendD [of "mem s" "fl_head s" us vs]
  by (cases vs) (auto simp: pending_def fl_wf_def)

lemma merge_next_pending:
  assumes p: "pending s us vs bp h"
    and res: "merge_next bp h (fl_merge s) (Next (mem s) (fl_merge s)) s = (adj, h', cur', s')"
  obtains vs' ws where "vs = ws @ vs'" "pending s' us vs' bp h'" "adj = bp + unat (Wosize_hd h')"
    "cur' = Next (mem s') (fl_merge s')" "fl_merge s' = fl_merge s"
    "free_words (mem s') (us @ vs') \<union> pending_words bp h' =
     free_words (mem s) (us @ vs) \<union> pending_words bp h"
    "fl_head s' = fl_head s" "policy s' = policy s"
    "policy s = Policy_next_fit \<longrightarrow> fl_prev s \<in> set (fl_head s # us @ vs) \<longrightarrow>
       fl_prev s' \<in> set (fl_head s # us @ vs')"
    "pending_words bp h \<subseteq> pending_words bp h'" "Wosize_hd h \<noteq> 0 \<longrightarrow> Wosize_hd h' \<noteq> 0"
    "Wosize_hd h' \<noteq> 0 \<or> h' = h \<and> mem s' = mem s \<and> vs' = vs"
proof (cases "\<exists>v vs'. vs = v # vs' \<and> bp + unat (Wosize_hd h) = v - 1 \<and>
    unat (Wosize_hd h) + Whsize_bp (mem s) v \<le> Max_wosize")
  case False
  have "merge_next bp h (fl_merge s) (Next (mem s) (fl_merge s)) s =
      (bp + unat (Wosize_hd h), h, Next (mem s) (fl_merge s), s)"
    using False by (cases vs) (auto simp: merge_next_def Let_def Hp_bp_def pending_next [OF p])
  with res p show thesis by (intro that [of "[]" vs]) auto
next
  case True
  then obtain v vs' where v: "vs = v # vs'" "bp + unat (Wosize_hd h) = v - 1"
    and le: "unat (Wosize_hd h) + Whsize_bp (mem s) v \<le> Max_wosize" by blast
  let ?W = "unat (Wosize_hd h)" and ?V = "Wosize_bp (mem s) v"
  let ?n = "?W + Whsize_bp (mem s) v"
  let ?h = "Make_header (of_nat ?n) 0 Caml_blue"
  let ?s0 = "s\<lparr>fl_cur_size := fl_cur_size s - Whsize_hd h\<rparr>"
  let ?p = "fl_merge s"
  have wf: "fl_wf ?s0 (us @ v # vs')" and prev: "?p = last (fl_head ?s0 # us)"
    using p by (simp_all add: pending_def v(1))
  note u = unlink_wf [OF wf prev]
  have fb: "free_block ?s0 v" using wf by (auto simp: fl_wf_def)
  then have v2: "2 \<le> v" "1 \<le> ?V" by (auto simp: free_block_def)
  have n: "unat (of_nat ?n :: u64) = ?n" "Wosize_hd ?h = of_nat ?n"
    using unat_Wosize_Make_header [OF le, of Caml_blue] by auto
  have pv: "?p \<noteq> v" using fl_wf_pred(2) [OF wf prev] .
  define s1 where "s1 = set_Next ?p (Next (mem s) v) s"
  define s2 where "s2 = (if policy s1 = Policy_next_fit \<and> fl_prev s1 = v then s1\<lparr>fl_prev := ?p\<rparr> else s1)"
  have s': "adj = bp + unat (Wosize_hd ?h)" "h' = ?h" "cur' = Next (mem s) v" "s' = set_Hd bp ?h s2"
    using res v le v2 by (auto simp: merge_next_def Let_def Hp_bp_def pending_next [OF p] s1_def s2_def)
  have m2: "mem s2 = (mem s)(?p := mem s v)" "fl_head s2 = fl_head s" "fl_merge s2 = ?p"
    "fl_cur_size s2 = fl_cur_size s" "policy s2 = policy s"
    by (auto simp: s1_def s2_def set_Next_def Next_def)
  have W2: "Wosize_bp (mem s2) y = Wosize_bp (mem s) y" if "y \<in> set (us @ v # vs')" for y
    using u(3) [OF that] by (simp add: unlink_def m2)
  have "Whsize_hd ?h = of_nat ?n + 1" using le by (rule unat_Whsize_of_nat) simp
  then have wh: "Whsize_hd (Make_header (Wosize_hd h + of_nat (Whsize_bp (mem s) v)) 0 Caml_blue) =
      Wosize_hd h + of_nat (Whsize_bp (mem s) v) + 1" by simp
  have "fl_wf (s2\<lparr>fl_cur_size := fl_cur_size s2 - Whsize_hd ?h\<rparr>) (us @ vs')"
    by (rule fl_wf_cong [OF u(1)])
      (use pv in \<open>simp_all add: unlink_def m2 wh Whsize_hd_def [of h]\<close>)
  moreover have "sorted_wrt (\<lambda>x y. x + Wosize_bp (mem s) x < y) (v # vs')"
    using wf by (simp add: fl_wf_def sorted_wrt_append)
  then have "\<forall>y\<in>set vs'. v + ?V < y" by simp
  ultimately have pend: "pending s2 us vs' bp ?h"
    using p fb v v2 W2 n unfolding pending_def free_block_def
    by (auto simp: m2 clear_of_sentinel_def Whsize_bp_def)
  note ps = pending_set_Hd [OF pend, of ?h]
  have fw: "free_words (mem s2) (us @ vs') = free_words (mem s) (us @ v # vs') - block_words (mem s) v"
    using u(2) by (simp add: unlink_def m2)
  have blk: "pending_words bp ?h = pending_words bp h \<union> block_words (mem s) v"
    using n v v2 p by (auto simp: pending_words_def block_words_def Whsize_bp_def pending_def)
  have m: "fl_merge s' = ?p" "fl_head s' = fl_head s" "policy s' = policy s" "fl_prev s' = fl_prev s2"
    by (simp_all add: s' set_Hd_def m2)
  have cur: "cur' = Next (mem s') (fl_merge s')"
  proof -
    have "?p \<in> set (fl_head s # us @ vs')" using prev by (cases us rule: rev_cases) auto
    then have "bp - 1 \<noteq> ?p"
      using pending_not_link(2) [OF pend, of ?p] by (simp add: m2)
    then show ?thesis by (simp add: s'(3,4) m set_Hd_def m2 Next_def)
  qed
  have pr: "policy s = Policy_next_fit \<longrightarrow> fl_prev s \<in> set (fl_head s # us @ vs) \<longrightarrow>
       fl_prev s' \<in> set (fl_head s # us @ vs')"
    using prev unfolding m s2_def
    by (cases us rule: rev_cases) (auto simp: s1_def set_Next_def v(1))
  have "unat (Wosize_hd h') = ?n" unfolding s'(2) n(2) by (rule n(1))
  then have nz: "Wosize_hd h' \<noteq> 0" by (metis Whsize_bp_def add_is_0 one_neq_zero unat_0)
  have "block_words (mem s) v \<subseteq> free_words (mem s) (us @ v # vs')"
    by (auto simp: free_words_def)
  then have words: "free_words (mem s') (us @ vs') \<union> pending_words bp h' =
      free_words (mem s) (us @ vs) \<union> pending_words bp h"
    unfolding s'(2,4) ps(2) fw blk v(1) by blast
  have pend': "pending s' us vs' bp h'" using ps(1) by (simp only: s'(2,4))
  have adj: "adj = bp + unat (Wosize_hd h')" by (simp only: s'(1,2))
  have sub: "pending_words bp h \<subseteq> pending_words bp h'" unfolding s'(2) blk by (rule Un_upper1)
  show thesis
    by (rule that [of "[v]" vs', OF _ pend' adj cur m(1) words m(2,3) pr])
      (use nz sub in \<open>simp_all add: v(1)\<close>)
qed

lemma merge_prev_grow:
  assumes p: "pending s us vs bp h" and adj: "fl_merge s + Wosize_bp (mem s) (fl_merge s) = Hp_bp bp"
    and le: "Wosize_bp (mem s) (fl_merge s) + unat (Whsize_hd h) \<le> Max_wosize"
    and s': "s' = set_Hd (fl_merge s)
      (Make_header (of_nat (Wosize_bp (mem s) (fl_merge s) + unat (Whsize_hd h))) 0 Caml_blue) s"
  shows "fl_wf s' (us @ vs)"
    "free_words (mem s') (us @ vs) = free_words (mem s) (us @ vs) \<union> pending_words bp h"
    "\<forall>u\<in>set us. u + Wosize_bp (mem s') u \<le> bp + unat (Wosize_hd h)"
proof -
  let ?s0 = "s\<lparr>fl_cur_size := fl_cur_size s - Whsize_hd h\<rparr>"
  let ?W = "unat (Wosize_hd h)" and ?p = "fl_merge s"
  let ?P = "Wosize_bp (mem s) ?p"
  have wf: "fl_wf ?s0 (us @ vs)" using p by (simp add: pending_def)
  have wh: "unat (Whsize_hd h) = ?W + 1" by (simp add: header_simps)
  have "us \<noteq> []"
  proof
    assume "us = []"
    then have pe: "?p = fl_head s" using p by (simp add: pending_def)
    have "Hd_bp (mem s) (fl_head s) = Make_header 0 0 Caml_blue" using wf by (simp add: fl_wf_def)
    then have "?P = 0"
      using unat_Wosize_Make_header [of 0 Caml_blue] by (simp add: pe Wosize_bp_def)
    with adj pe have "fl_head s = bp - 1" by (simp add: Hp_bp_def)
    then show False using p by (auto simp: pending_def clear_of_sentinel_def)
  qed
  then obtain us0 where us: "us = us0 @ [?p]"
    using p by (cases us rule: rev_cases) (auto simp: pending_def)
  let ?L = "us0 @ ?p # vs"
  have wf: "fl_wf ?s0 ?L" using wf us by (metis append.assoc append_Cons append_Nil)
  have d: "distinct (fl_head s # ?L)" using fl_wf_distinct [OF wf] by simp
  have fb: "free_block ?s0 ?p" using wf unfolding fl_wf_def by auto
  then have p2: "2 \<le> ?p" by (simp add: free_block_def)
  have b2: "2 \<le> bp" "?p + ?P = bp - 1" using p adj by (simp_all add: pending_def Hp_bp_def)
  have hc: "Wosize_bp (mem s') ?p = ?P + ?W + 1" "Color_hd (Hd_bp (mem s') ?p) = Caml_blue"
    using unat_Wosize_Make_header [OF le, of Caml_blue]
    by (simp_all add: s' set_Hd_def Wosize_bp_def Hd_bp_def wh)
  have hd: "Hd_bp (mem s') y = Hd_bp (mem s) y" if "y \<in> set ?L" "y \<noteq> ?p" for y
    using fl_wf_separate(2) [OF wf, of ?p y] that by (simp add: s' set_Hd_def Hd_bp_def)
  have w: "Wosize_bp (mem s') y = Wosize_bp (mem s) y" if "y \<in> set us0 \<or> y \<in> set vs" for y
  proof -
    have "y \<noteq> ?p" "y \<in> set ?L" using that d by auto
    with hd [of y] show ?thesis by (simp add: Wosize_bp_def)
  qed
  have out: "?p - 1 \<noteq> fl_head s" "?p - 1 \<notin> set ?L" "?p - 1 \<noteq> fl_head s - 1"
    using fl_wf_header_not_link [OF wf, of _ ?p] fl_wf_sentinel(4) [OF wf, of ?p] by fastforce+
  have path: "fl_path (mem s') (fl_head s) ?L"
    using wf out by (simp add: s' set_Hd_def fl_path_upd fl_wf_def del: fun_upd_apply)
  have head: "Hd_bp (mem s') (fl_head s) = Hd_bp (mem s) (fl_head s)"
    using out(3) by (simp add: s' set_Hd_def Hd_bp_def)
  have so: "sorted_wrt (\<lambda>x y. x + Wosize_bp (mem s) x < y) us0"
    "sorted_wrt (\<lambda>x y. x + Wosize_bp (mem s) x < y) vs"
    "\<forall>x\<in>set us0. x + Wosize_bp (mem s) x < ?p" "\<forall>x\<in>set us0. \<forall>y\<in>set vs. x + Wosize_bp (mem s) x < y"
    using wf by (auto simp: fl_wf_def sorted_wrt_append)
  have pv: "\<forall>v\<in>set vs. bp + ?W < v" using p by (simp add: pending_def)
  have sorted: "sorted_wrt (\<lambda>x y. x + Wosize_bp (mem s') x < y) ?L"
  proof -
    have "sorted_wrt (\<lambda>x y. x + Wosize_bp (mem s') x < y) us0"
      "sorted_wrt (\<lambda>x y. x + Wosize_bp (mem s') x < y) vs"
      using so(1,2) w by (auto intro!: sorted_blocks_cong [of "mem s"])
    then show ?thesis using so(3,4) w pv hc(1) b2 by (auto simp: sorted_wrt_append)
  qed
  have "(\<Sum>x\<leftarrow>us0. Whsize_bp (mem s') x) = (\<Sum>x\<leftarrow>us0. Whsize_bp (mem s) x)"
    "(\<Sum>x\<leftarrow>vs. Whsize_bp (mem s') x) = (\<Sum>x\<leftarrow>vs. Whsize_bp (mem s) x)"
    using d hd by (auto intro!: Whsize_sum_cong)
  moreover have "fl_cur_size s' = fl_cur_size s" by (simp add: s' set_Hd_def)
  moreover have "Whsize_bp (mem s') ?p = Whsize_bp (mem s) ?p + (?W + 1)"
    by (simp add: Whsize_bp_def hc)
  moreover have "fl_cur_size s - Whsize_hd h = of_nat (\<Sum>x\<leftarrow>?L. Whsize_bp (mem s) x)"
    using wf by (simp add: fl_wf_def)
  ultimately have sum: "fl_cur_size s' = of_nat (\<Sum>x\<leftarrow>?L. Whsize_bp (mem s') x)"
    by (simp add: Whsize_hd_def algebra_simps)
  have fh: "fl_head s' = fl_head s" "fl_merge s' = ?p" by (simp_all add: s' set_Hd_def)
  have blocks: "\<forall>y\<in>set ?L. free_block s' y"
  proof
    fix y assume y: "y \<in> set ?L"
    show "free_block s' y"
    proof (cases "y = ?p")
      case True
      have "clear_of_sentinel s' (?p - 1) (bp + ?W)"
        using fb p b2 by (auto simp: free_block_def pending_def clear_of_sentinel_def fh)
      moreover have "?p + (?P + ?W + 1) = bp + ?W" using b2 by simp
      moreover have "bp + ?W < 2 ^ 61" using p by (simp add: pending_def)
      ultimately show ?thesis
        using True p2 hc(2) by (simp only: free_block_def hc(1)) simp
    next
      case False
      have "free_block ?s0 y" using wf y unfolding fl_wf_def by auto
      then show ?thesis by (rule free_block_cong) (simp_all add: fh hd [OF y False])
    qed
  qed
  have "fl_wf s' ?L" using wf path sorted sum blocks head by (simp add: fl_wf_def fh)
  then show "fl_wf s' (us @ vs)" using us by (metis append.assoc append_Cons append_Nil)
  have bw: "block_words (mem s') y = block_words (mem s) y" if "y \<in> set us0 \<or> y \<in> set vs" for y
    using w [OF that] by (simp add: block_words_def)
  have bp: "block_words (mem s') ?p = block_words (mem s) ?p \<union> pending_words bp h"
    using b2 hc(1) by (auto simp: block_words_def pending_words_def)
  have "free_words (mem s') ?L = free_words (mem s) ?L \<union> pending_words bp h"
    using bw bp by (auto simp: free_words_def)
  then show "free_words (mem s') (us @ vs) = free_words (mem s) (us @ vs) \<union> pending_words bp h"
    using us by (metis append.assoc append_Cons append_Nil)
  show "\<forall>u\<in>set us. u + Wosize_bp (mem s') u \<le> bp + ?W"
  proof
    fix u assume "u \<in> set us"
    then have "u \<in> set us0 \<or> u = ?p" by (subst (asm) us) auto
    then show "u + Wosize_bp (mem s') u \<le> bp + ?W"
      using so(3) w [of u] hc(1) b2 by fastforce
  qed
qed

lemma merge_prev_insert:
  assumes p: "pending s us vs bp h" and nz: "Wosize_hd h \<noteq> 0"
    and s': "s' = set_Next (fl_merge s) bp (set_Next bp (Next (mem s) (fl_merge s))
      (set_Hd bp (Bluehd_hd h) s))\<lparr>fl_merge := bp\<rparr>"
  shows "fl_wf s' (us @ bp # vs)"
    "free_words (mem s') (us @ bp # vs) = free_words (mem s) (us @ vs) \<union> pending_words bp h"
    "\<forall>u\<in>set (us @ [bp]). u + Wosize_bp (mem s') u \<le> bp + unat (Wosize_hd h)"
proof -
  let ?W = "unat (Wosize_hd h)" and ?p = "fl_merge s" and ?h = "Bluehd_hd h"
  define s1 where "s1 = set_Hd bp ?h s"
  have p1: "pending s1 us vs bp h" and fw1: "free_words (mem s1) (us @ vs) = free_words (mem s) (us @ vs)"
    unfolding s1_def by (rule pending_set_Hd [OF p])+
  let ?s0 = "s1\<lparr>fl_cur_size := fl_cur_size s1 - Whsize_hd h\<rparr>"
  have f1: "fl_merge s1 = ?p" "fl_head s1 = fl_head s" "fl_cur_size s1 = fl_cur_size s"
    by (simp_all add: s1_def set_Hd_def)
  have wf: "fl_wf ?s0 (us @ vs)" using p1 by (simp add: pending_def)
  have d: "distinct (fl_head s # us @ vs)" using fl_wf_distinct [OF wf] by (simp add: f1)
  have pe: "?p = last (fl_head s # us)" using p by (simp add: pending_def)
  have pin: "?p \<in> set (fl_head s # us @ vs)" unfolding pe by (cases us rule: rev_cases) auto
  have b2: "2 \<le> bp" "bp + ?W < 2 ^ 61" using p by (simp_all add: pending_def)
  have W1: "1 \<le> ?W" using nz by (simp add: word_unat_eq_iff)
  have bin: "bp \<in> pending_words bp h" "bp - 1 \<in> pending_words bp h"
    using W1 b2 by (auto simp: pending_words_def)
  have notin: "bp \<notin> set (fl_head s # us @ vs)" "bp - 1 \<notin> set (fl_head s # us @ vs)"
    using pending_not_link(1) [OF p] bin by blast+
  have nx: "Next (mem s1) ?p = Next (mem s) ?p"
    using pending_not_link(2) [OF p pin] by (simp add: s1_def set_Hd_def Next_def)
  have m: "mem s' = (mem s1)(bp := of_nat (Next (mem s1) ?p), ?p := of_nat bp)"
    "fl_head s' = fl_head s" "fl_merge s' = bp" "fl_cur_size s' = fl_cur_size s"
    by (simp_all add: s' nx f1 s1_def [symmetric] set_Next_def)
  have hd: "Hd_bp (mem s') y = Hd_bp (mem s1) y" if "y \<in> set (us @ vs)" for y
  proof -
    have "y - 1 \<noteq> ?p" using fl_wf_header_not_link [OF wf _ that] pin by (simp add: f1)
    moreover have "y - 1 \<in> free_words (mem s1) (us @ vs)" using fl_wf_free_words(2) [OF wf that] by simp
    then have "y - 1 \<noteq> bp" using pending_disjoint(1) [OF p1] bin by auto
    ultimately show ?thesis by (simp add: m Hd_bp_def)
  qed
  have w: "Wosize_bp (mem s') y = Wosize_bp (mem s1) y" if "y \<in> set (us @ vs)" for y
    using hd [OF that] by (simp add: Wosize_bp_def)
  have "Hd_bp (mem s') bp = ?h"
  proof -
    have "bp - 1 \<noteq> ?p" using notin(2) pin by auto
    moreover have "bp - 1 \<noteq> bp" using b2 by simp
    ultimately show ?thesis by (simp add: m Hd_bp_def s1_def set_Hd_def)
  qed
  then have hb: "Wosize_bp (mem s') bp = ?W" "Color_hd (Hd_bp (mem s') bp) = Caml_blue"
    by (simp_all add: Wosize_bp_def header_simps)
  have head: "Hd_bp (mem s') (fl_head s) = Hd_bp (mem s1) (fl_head s)"
  proof -
    have "fl_head s - 1 \<noteq> ?p" using fl_wf_sentinel_header_not_link [OF wf] pin by (simp add: f1)
    moreover have "fl_head s - 1 \<noteq> bp" using pending_disjoint(3) [OF p] bin by auto
    ultimately show ?thesis by (simp add: m Hd_bp_def)
  qed
  have "fl_path (mem s1) (fl_head s) (us @ vs)" using wf by (simp add: fl_wf_def f1)
  then have path: "fl_path (mem s') (fl_head s) (us @ bp # vs)"
    unfolding m(1) pe using d notin(1) b2 by (intro fl_path_insert) auto
  have sorted: "sorted_wrt (\<lambda>x y. x + Wosize_bp (mem s') x < y) (us @ bp # vs)"
  proof -
    have so: "sorted_wrt (\<lambda>x y. x + Wosize_bp (mem s1) x < y) (us @ vs)" using wf by (simp add: fl_wf_def)
    have "sorted_wrt (\<lambda>x y. x + Wosize_bp (mem s') x < y) (us @ vs)"
      by (rule sorted_blocks_cong [OF so]) (use w in auto)
    then show ?thesis using p1 hb w by (auto simp: sorted_wrt_append pending_def)
  qed
  have sum: "fl_cur_size s' = of_nat (\<Sum>x\<leftarrow>us @ bp # vs. Whsize_bp (mem s') x)"
  proof -
    have "(\<Sum>x\<leftarrow>us @ vs. Whsize_bp (mem s') x) = (\<Sum>x\<leftarrow>us @ vs. Whsize_bp (mem s1) x)"
      using hd by (intro Whsize_sum_cong) auto
    moreover have "fl_cur_size s - Whsize_hd h = of_nat (\<Sum>x\<leftarrow>us @ vs. Whsize_bp (mem s1) x)"
      using wf by (simp add: fl_wf_def f1)
    moreover have "of_nat (Whsize_bp (mem s') bp) = Whsize_hd h"
      by (simp add: Whsize_bp_def hb Whsize_hd_def)
    ultimately show ?thesis by (simp add: m algebra_simps)
  qed
  have blocks: "\<forall>y\<in>set (us @ bp # vs). free_block s' y"
  proof
    fix y assume y: "y \<in> set (us @ bp # vs)"
    show "free_block s' y"
    proof (cases "y = bp")
      case True
      with p1 W1 hb show ?thesis by (simp add: free_block_def pending_def clear_of_sentinel_def m f1)
    next
      case False
      then have y': "y \<in> set (us @ vs)" using y by auto
      then have "free_block ?s0 y" using wf unfolding fl_wf_def by auto
      then show ?thesis by (rule free_block_cong) (simp_all add: m(2) f1 hd [OF y'])
    qed
  qed
  show "fl_wf s' (us @ bp # vs)"
    using wf path sorted sum blocks head by (simp add: fl_wf_def m f1)
  have "block_words (mem s') bp = pending_words bp h"
    by (simp add: block_words_def hb pending_words_def)
  moreover have "block_words (mem s') y = block_words (mem s1) y" if "y \<in> set (us @ vs)" for y
    using w [OF that] by (simp add: block_words_def)
  ultimately show "free_words (mem s') (us @ bp # vs) = free_words (mem s) (us @ vs) \<union> pending_words bp h"
    unfolding fw1 [symmetric] by (auto simp: free_words_def)
  show "\<forall>u\<in>set (us @ [bp]). u + Wosize_bp (mem s') u \<le> bp + ?W"
    using p1 hb w by (auto simp: pending_def)
qed

subsection \<open>The whole operation\<close>

text \<open>
  What \<open>caml_fl_merge_block\<close> expects of the sweeper: \<open>bp\<close> is a block outside the list,
  between the free blocks \<open>us\<close> up to \<open>caml_fl_merge\<close> and the free blocks \<open>vs\<close> above it.
\<close>

definition merge_ready :: "fl_state \<Rightarrow> addr list \<Rightarrow> addr list \<Rightarrow> addr \<Rightarrow> bool" where
  "merge_ready s us vs bp \<longleftrightarrow> fl_wf s (us @ vs) \<and> fl_merge s = last (fl_head s # us) \<and>
     2 \<le> bp \<and> bp + Wosize_bp (mem s) bp < 2 ^ 61 \<and>
     clear_of_sentinel s (bp - 1) (bp + Wosize_bp (mem s) bp) \<and>
     (\<forall>u\<in>set us. u + Wosize_bp (mem s) u < bp) \<and>
     (\<forall>v\<in>set vs. bp + Wosize_bp (mem s) bp < v) \<and> fragment_ok s us bp"

text \<open>
  What it returns: the list with the block's words (and those of an adjacent fragment)
  added, or, for a header alone with no free neighbour, the list unchanged and the
  fragment remembered; \<open>caml_fl_merge\<close> again the last free block below the returned
  position.
\<close>

definition merge_done :: "fl_state \<Rightarrow> addr list \<Rightarrow> addr \<Rightarrow> addr \<Rightarrow> fl_state \<Rightarrow> addr list \<Rightarrow> addr list \<Rightarrow> bool" where
  "merge_done s xs bp adj s' us' vs' \<longleftrightarrow> fl_wf s' (us' @ vs') \<and> fl_merge s' = last (fl_head s' # us') \<and>
     fl_head s' = fl_head s \<and> policy s' = policy s \<and>
     bp + Wosize_bp (mem s) bp \<le> adj \<and>
     (\<forall>u\<in>set us'. u + Wosize_bp (mem s') u \<le> adj) \<and> (\<forall>v\<in>set vs'. adj < v) \<and>
     free_words (mem s') (us' @ vs') \<subseteq> free_words (mem s) xs \<union> insert (bp - 2) (block_words (mem s) bp) \<and>
     (free_words (mem s) xs \<union> block_words (mem s) bp \<subseteq> free_words (mem s') (us' @ vs') \<or>
      Wosize_bp (mem s) bp = 0 \<and> last_fragment s' = bp \<and>
      free_words (mem s') (us' @ vs') = free_words (mem s) xs)"

lemma pending_irrelevant:
  "pending s us vs bp h \<Longrightarrow> mem s' = mem s \<Longrightarrow> fl_head s' = fl_head s \<Longrightarrow>
   fl_cur_size s' = fl_cur_size s \<Longrightarrow> fl_merge s' = fl_merge s \<Longrightarrow> pending s' us vs bp h"
  unfolding pending_def by (auto simp: clear_of_sentinel_def intro: fl_wf_cong)

lemma truncate_flp_frame:
  "mem (truncate_flp c s) = mem s" "fl_head (truncate_flp c s) = fl_head s"
  "fl_cur_size (truncate_flp c s) = fl_cur_size s" "fl_merge (truncate_flp c s) = fl_merge s"
  "policy (truncate_flp c s) = policy s" "last_fragment (truncate_flp c s) = last_fragment s"
  "fl_prev (truncate_flp c s) = fl_prev s"
  by (simp_all add: truncate_flp_def Let_def)

lemma merge_prev_done:
  assumes p: "pending s us vs bp h" and s': "s' = merge_prev bp h (fl_merge s) (Next (mem s) (fl_merge s)) s"
  shows "\<exists>us'. fl_wf s' (us' @ vs) \<and> fl_merge s' = last (fl_head s' # us') \<and>
     fl_head s' = fl_head s \<and> policy s' = policy s \<and> fl_prev s' = fl_prev s \<and> set us \<subseteq> set us' \<and>
     (\<forall>u\<in>set us'. u + Wosize_bp (mem s') u \<le> bp + unat (Wosize_hd h)) \<and>
     (free_words (mem s') (us' @ vs) = free_words (mem s) (us @ vs) \<union> pending_words bp h \<or>
      Wosize_hd h = 0 \<and> last_fragment s' = bp \<and> us' = us \<and> mem s' = mem s)"
proof -
  let ?p = "fl_merge s"
  let ?P = "Wosize_bp (mem s) ?p"
  consider (grow) "?p + ?P = Hp_bp bp" "?P + unat (Whsize_hd h) < Max_wosize"
    | (insert) "\<not> (?p + ?P = Hp_bp bp \<and> ?P + unat (Whsize_hd h) < Max_wosize)" "Wosize_hd h \<noteq> 0"
    | (fragment) "\<not> (?p + ?P = Hp_bp bp \<and> ?P + unat (Whsize_hd h) < Max_wosize)" "Wosize_hd h = 0"
    by blast
  then show ?thesis
  proof cases
    case grow
    let ?g = "set_Hd ?p (Make_header (of_nat (?P + unat (Whsize_hd h))) 0 Caml_blue) s"
    have e: "s' = ?g" using grow unfolding s' merge_prev_def Let_def by (simp only: simp_thms if_True)
    have "?P + unat (Whsize_hd h) \<le> Max_wosize" using grow(2) by simp
    note g = merge_prev_grow [OF p grow(1) this e]
    have f: "fl_merge s' = ?p" "fl_head s' = fl_head s" "policy s' = policy s" "fl_prev s' = fl_prev s"
      by (simp_all only: e) (simp_all add: set_Hd_def)
    show ?thesis
      by (rule exI [of _ us]) (use g f p in \<open>simp add: pending_def\<close>)
  next
    case insert
    let ?i = "set_Next ?p bp (set_Next bp (Next (mem s) ?p) (set_Hd bp (Bluehd_hd h) s))\<lparr>fl_merge := bp\<rparr>"
    have e: "s' = ?i" using insert unfolding s' merge_prev_def Let_def by (simp only: simp_thms if_True if_False)
    note i = merge_prev_insert [OF p insert(2) e]
    have f: "fl_merge s' = bp" "fl_head s' = fl_head s" "policy s' = policy s" "fl_prev s' = fl_prev s"
      by (simp_all only: e) (simp_all add: set_Hd_def set_Next_def)
    show ?thesis
      by (rule exI [of _ "us @ [bp]"]) (use i f in auto)
  next
    case fragment
    have e: "s' = s\<lparr>last_fragment := bp, fl_cur_size := fl_cur_size s - 1\<rparr>"
      using fragment unfolding s' merge_prev_def Let_def by (simp only: simp_thms if_False)
    have "fl_wf (s\<lparr>fl_cur_size := fl_cur_size s - Whsize_hd h\<rparr>) (us @ vs)" using p by (simp add: pending_def)
    then have "fl_wf s' (us @ vs)"
      by (rule fl_wf_cong) (simp_all add: e Whsize_hd_def fragment)
    with p fragment show ?thesis
      by (intro exI [of _ us]) (auto simp: e pending_def)
  qed
qed

lemma merge_block_done:
  assumes r: "merge_ready s us vs bp" and res: "caml_fl_merge_block bp s = (adj, s')"
  obtains us' vs' where "merge_done s (us @ vs) bp adj s' us' vs'"
    "\<exists>ws. vs = ws @ vs'"
    "policy s = Policy_next_fit \<longrightarrow> fl_prev s \<in> set (fl_head s # us @ vs) \<longrightarrow>
       fl_prev s' \<in> set (fl_head s' # us' @ vs')"
proof -
  define h where "h = Hd_bp (mem s) bp"
  define s1 where "s1 = s\<lparr>fl_cur_size := fl_cur_size s + Whsize_hd h\<rparr>"
  define s2 where "s2 = (if policy s1 = Policy_first_fit then truncate_flp (fl_merge s1) s1 else s1)"
  obtain bp' h' s3 where fr: "merge_fragment bp h s2 = (bp', h', s3)" by (metis prod_cases3)
  let ?cur = "Next (mem s1) (fl_merge s1)"
  obtain adj' h'' cur' s4 where mn: "merge_next bp' h' (fl_merge s1) ?cur s3 = (adj', h'', cur', s4)"
    by (metis prod_cases4)
  have "caml_fl_merge_block bp s = (adj', merge_prev bp' h'' (fl_merge s1) cur' s4)"
    by (simp only: caml_fl_merge_block_def Let_def h_def [symmetric] s1_def [symmetric]
        s2_def [symmetric] fr mn prod.case)
  with res have res': "adj = adj'" "s' = merge_prev bp' h'' (fl_merge s1) cur' s4"
    by simp_all
  have f2: "mem s2 = mem s" "fl_head s2 = fl_head s" "fl_cur_size s2 = fl_cur_size s + Whsize_hd h"
    "fl_merge s2 = fl_merge s" "policy s2 = policy s" "last_fragment s2 = last_fragment s"
    "fl_prev s2 = fl_prev s" "fl_merge s1 = fl_merge s" "mem s1 = mem s"
    by (simp_all add: s2_def s1_def truncate_flp_frame)
  have W: "unat (Wosize_hd h) = Wosize_bp (mem s) bp" by (simp add: h_def Wosize_bp_def)
  have wfs: "fl_wf s (us @ vs)" using r by (simp add: merge_ready_def)
  have "fl_wf (s2\<lparr>fl_cur_size := fl_cur_size s2 - Whsize_hd h\<rparr>) (us @ vs)"
    by (rule fl_wf_cong [OF wfs]) (simp_all add: f2)
  then have p2: "pending s2 us vs bp h"
    using r by (simp add: pending_def merge_ready_def W) (simp add: f2 clear_of_sentinel_def)
  have f: "fragment_ok s2 us bp"
    using r by (simp add: merge_ready_def fragment_ok_def f2 clear_of_sentinel_def)
  have "Hd_bp (mem s2) bp = h" by (simp add: f2 h_def)
  note F = merge_fragment_pending [OF p2 f this fr]
  have m3: "fl_merge s3 = fl_merge s"
    using F(1) r by (simp add: pending_def merge_ready_def F(6) f2)
  have "?cur = Next (mem s2) (fl_merge s2)" by (simp only: f2)
  then have c3: "?cur = Next (mem s3) (fl_merge s3)"
    by (simp only: pending_next [OF p2] pending_next [OF F(1)])
  have m13: "fl_merge s1 = fl_merge s3" by (simp only: m3 f2)
  have mn': "merge_next bp' h' (fl_merge s3) (Next (mem s3) (fl_merge s3)) s3 = (adj', h'', cur', s4)"
    using mn unfolding c3 by (simp only: m13)
  obtain vs' ws where N: "vs = ws @ vs'" "pending s4 us vs' bp' h''" "adj' = bp' + unat (Wosize_hd h'')"
    "cur' = Next (mem s4) (fl_merge s4)" "fl_merge s4 = fl_merge s3"
    "free_words (mem s4) (us @ vs') \<union> pending_words bp' h'' =
     free_words (mem s3) (us @ vs) \<union> pending_words bp' h'"
    "fl_head s4 = fl_head s3" "policy s4 = policy s3"
    "policy s3 = Policy_next_fit \<longrightarrow> fl_prev s3 \<in> set (fl_head s3 # us @ vs) \<longrightarrow>
       fl_prev s4 \<in> set (fl_head s3 # us @ vs')"
    "Wosize_hd h' \<noteq> 0 \<longrightarrow> Wosize_hd h'' \<noteq> 0"
    "Wosize_hd h'' \<noteq> 0 \<or> h'' = h' \<and> mem s4 = mem s3 \<and> vs' = vs"
    "pending_words bp' h' \<subseteq> pending_words bp' h''"
    using merge_next_pending [OF F(1) mn'] by metis
  have s': "s' = merge_prev bp' h'' (fl_merge s4) (Next (mem s4) (fl_merge s4)) s4"
    unfolding res'(2) N(4) by (simp only: f2 N(5) m3)
  obtain us' where P: "fl_wf s' (us' @ vs')" "fl_merge s' = last (fl_head s' # us')"
    "fl_head s' = fl_head s4" "policy s' = policy s4" "fl_prev s' = fl_prev s4" "set us \<subseteq> set us'"
    "\<forall>u\<in>set us'. u + Wosize_bp (mem s') u \<le> bp' + unat (Wosize_hd h'')"
    "free_words (mem s') (us' @ vs') = free_words (mem s4) (us @ vs') \<union> pending_words bp' h'' \<or>
      Wosize_hd h'' = 0 \<and> last_fragment s' = bp' \<and> us' = us \<and> mem s' = mem s4"
    using merge_prev_done [OF N(2) s'] by blast
  have hds: "fl_head s' = fl_head s" "policy s' = policy s" by (simp_all add: P N F f2)
  have adj: "\<forall>v\<in>set vs'. adj < v" using N(2,3) res'(1) by (simp add: pending_def)
  have blk: "block_words (mem s) bp = pending_words bp h"
    by (simp add: block_words_def pending_words_def W)
  have fw: "free_words (mem s3) (us @ vs) = free_words (mem s) (us @ vs)" by (simp add: F f2)
  have le: "bp + Wosize_bp (mem s) bp \<le> adj"
  proof -
    have "pending_words bp' h' \<subseteq> pending_words bp' h''" by (rule N(12))
    moreover have "bp' + unat (Wosize_hd h') - 1 \<in> pending_words bp' h'"
      using F(1) by (auto simp: pending_words_def pending_def)
    ultimately have "bp' + unat (Wosize_hd h') - 1 < bp' + unat (Wosize_hd h'')"
      by (auto simp: pending_words_def)
    then show ?thesis using F(5) by (simp add: res'(1) N(3) W)
  qed
  have words: "free_words (mem s') (us' @ vs') \<subseteq> free_words (mem s) (us @ vs) \<union> insert (bp - 2) (block_words (mem s) bp) \<and>
     (free_words (mem s) (us @ vs) \<union> block_words (mem s) bp \<subseteq> free_words (mem s') (us' @ vs') \<or>
      Wosize_bp (mem s) bp = 0 \<and> last_fragment s' = bp \<and>
      free_words (mem s') (us' @ vs') = free_words (mem s) (us @ vs))"
    using P(8)
  proof
    assume "free_words (mem s') (us' @ vs') = free_words (mem s4) (us @ vs') \<union> pending_words bp' h''"
    then have "free_words (mem s') (us' @ vs') = free_words (mem s) (us @ vs) \<union> pending_words bp' h'"
      by (simp add: N(6) fw)
    with F(3,4) show ?thesis by (auto simp: blk)
  next
    assume z: "Wosize_hd h'' = 0 \<and> last_fragment s' = bp' \<and> us' = us \<and> mem s' = mem s4"
    then have n: "h'' = h'" "mem s4 = mem s3" "vs' = vs" using N(11) by auto
    have "bp' = bp \<and> Wosize_bp (mem s) bp = 0"
    proof -
      have "unat (Wosize_hd h') = 0" using z n by simp
      then have "bp' = bp + unat (Wosize_hd h)" using F(5) by simp
      moreover have "bp' \<le> bp"
      proof -
        have "bp - 1 \<in> pending_words bp' h'"
          using F(3) r by (auto simp: pending_words_def merge_ready_def)
        then show ?thesis using r by (auto simp: pending_words_def merge_ready_def)
      qed
      ultimately show ?thesis by (simp add: W [symmetric])
    qed
    with z n show ?thesis by (auto simp: fw)
  qed
  have "merge_done s (us @ vs) bp adj s' us' vs'"
    unfolding merge_done_def using P(1,2,7) hds le adj words by (simp add: res'(1) N(3))
  moreover have "policy s = Policy_next_fit \<longrightarrow> fl_prev s \<in> set (fl_head s # us @ vs) \<longrightarrow>
       fl_prev s' \<in> set (fl_head s' # us' @ vs')"
    using N(9) P(5,6) hds by (auto simp: F f2)
  ultimately show thesis using N(1) by (intro that) auto
qed

end
