(* ===== verification/Word_Allocator.thy ===== *)
theory Word_Allocator
  imports Prelude
begin

text \<open>
  The contract of an allocator of word blocks, as the clients of the major heap rely on
  it (\<open>caml_alloc_shr\<close> asks for \<open>n\<close> fields and uses the \<open>n + 1\<close> words at the result),
  and what follows from it for any sequence of requests. \<open>Freelist_Spec\<close> interprets it on
  the free list.
\<close>

section \<open>Sequences of requests\<close>

text \<open>
  Serve the requests \<open>ns\<close> in order; each is paired with the block it got, \<open>0\<close> when the
  allocator had none.
\<close>

fun alloc_seq ::
    "(nat \<Rightarrow> 's \<Rightarrow> (addr \<times> 's) option) \<Rightarrow> nat list \<Rightarrow> 's \<Rightarrow> ((addr \<times> nat) list \<times> 's) option" where
  "alloc_seq alloc [] s = Some ([], s)"
| "alloc_seq alloc (n # ns) s =
     Option.bind (alloc n s) (\<lambda>(r, s1).
       map_option (\<lambda>(rs, s2). ((r, n) # rs, s2)) (alloc_seq alloc ns s1))"

text \<open>The words of a served request: none when it failed.\<close>

definition request_words :: "addr \<times> nat \<Rightarrow> addr set" where
  "request_words rn = (if fst rn = 0 then {} else {fst rn ..< fst rn + snd rn + 1})"

section \<open>The contract\<close>

locale word_allocator =
  fixes alloc :: "nat \<Rightarrow> 's \<Rightarrow> (addr \<times> 's) option"
    and inv :: "'s \<Rightarrow> bool"
    and free :: "'s \<Rightarrow> addr set"
  assumes total: "inv s \<Longrightarrow> 1 \<le> n \<Longrightarrow> \<exists>r s'. alloc n s = Some (r, s') \<and> inv s'"
    and takes: "inv s \<Longrightarrow> 1 \<le> n \<Longrightarrow> alloc n s = Some (r, s') \<Longrightarrow>
      request_words (r, n) \<subseteq> free s \<and> free s' \<subseteq> free s - request_words (r, n)"
begin

lemma alloc_seq_disjoint:
  assumes "inv s" "\<forall>n\<in>set ns. 1 \<le> n"
  shows "\<exists>rs s'. alloc_seq alloc ns s = Some (rs, s') \<and> inv s' \<and> map snd rs = ns \<and>
    (\<forall>rn\<in>set rs. request_words rn \<subseteq> free s) \<and> free s' \<subseteq> free s \<and>
    (\<forall>rn\<in>set rs. request_words rn \<inter> free s' = {}) \<and>
    sorted_wrt (\<lambda>a b. request_words a \<inter> request_words b = {}) rs"
  using assms
proof (induction ns arbitrary: s)
  case (Cons n ns)
  from Cons.prems obtain r s1 where a: "alloc n s = Some (r, s1)" "inv s1"
    using total [of s n] by auto
  with Cons.prems takes [of s n r s1]
  have t: "request_words (r, n) \<subseteq> free s" "free s1 \<subseteq> free s - request_words (r, n)" by auto
  from Cons.IH [OF a(2)] Cons.prems obtain rs s2 where r: "alloc_seq alloc ns s1 = Some (rs, s2)"
    "inv s2" "map snd rs = ns" "\<forall>rn\<in>set rs. request_words rn \<subseteq> free s1" "free s2 \<subseteq> free s1"
    "\<forall>rn\<in>set rs. request_words rn \<inter> free s2 = {}"
    "sorted_wrt (\<lambda>a b. request_words a \<inter> request_words b = {}) rs" by auto
  have "alloc_seq alloc (n # ns) s = Some ((r, n) # rs, s2)" by (simp add: a r)
  moreover have "\<forall>rn\<in>set ((r, n) # rs). request_words rn \<subseteq> free s" using r(4) t by auto
  moreover have "free s2 \<subseteq> free s" using r(5) t by blast
  moreover have "\<forall>rn\<in>set ((r, n) # rs). request_words rn \<inter> free s2 = {}" using r(5,6) t by auto
  moreover have "sorted_wrt (\<lambda>a b. request_words a \<inter> request_words b = {}) ((r, n) # rs)"
    using r(4,7) t by auto
  ultimately show ?case using r by auto
qed simp

end

end
