(* ===== verification/Freelist_Spec.thy ===== *)
theory Freelist_Spec
  imports Freelist_Proofs Word_Allocator
begin

text \<open>
  What the free list promises its clients: the next-fit allocator meets the contract of
  \<open>Word_Allocator\<close>, and merging a swept block gives back exactly its words. The list a
  state holds is determined by its memory, so the free words are a function of the state.
\<close>

section \<open>The list of a state\<close>

lemma fl_path_unique: "fl_path m p xs \<Longrightarrow> fl_path m p ys \<Longrightarrow> xs = ys"
proof (induction xs arbitrary: p ys)
  case Nil
  then show ?case by (cases ys) auto
next
  case (Cons x xs)
  then show ?case by (cases ys) auto
qed

definition free_set :: "fl_state \<Rightarrow> addr set" where
  "free_set s = {a. \<exists>xs. fl_path (mem s) (fl_head s) xs \<and> a \<in> free_words (mem s) xs}"

lemma free_set_eq: "fl_wf s xs \<Longrightarrow> free_set s = free_words (mem s) xs"
  using fl_path_unique by (auto simp: free_set_def fl_wf_def)

definition nf_ok :: "fl_state \<Rightarrow> bool" where
  "nf_ok s \<longleftrightarrow> (\<exists>xs. nf_inv s xs)"

section \<open>Next-fit allocation\<close>

lemma free_words_frame [simp]: "free_words (mem (s\<lparr>fl_last := p\<rparr>)) xs = free_words (mem s) xs"
  by simp

lemma takes_words_fl_last:
  "takes_words (s\<lparr>fl_last := p\<rparr>) xs n r s' xs' = takes_words s xs n r s' xs'"
  by (simp add: takes_words_def)

lemma nf_allocate_found:
  assumes inv: "nf_inv s xs" and n: "1 \<le> n" and fits: "\<exists>x\<in>set xs. n \<le> Wosize_bp (mem s) x"
  shows "\<exists>r s' xs'. caml_fl_allocate n s = Some (r, s') \<and> nf_inv s' xs' \<and>
    takes_words s xs (n + 1) r s' xs'"
proof -
  obtain us cur vs p where xs: "xs = us @ cur # vs" "n \<le> Wosize_bp (mem s) cur"
    and res: "allocate_next_fit n s =
      Some (allocate_block (n + 1) 0 (last (fl_head s # us)) cur (s\<lparr>fl_last := p\<rparr>))"
    using allocate_next_fit_found [OF inv fits] by blast
  let ?s = "s\<lparr>fl_last := p\<rparr>"
  let ?prev = "last (fl_head ?s # us)"
  obtain r s' where ab: "allocate_block (n + 1) 0 ?prev cur ?s = (r, s')" by fastforce
  let ?xs' = "if Wosize_bp (mem ?s) cur < n + 2 then us @ vs else us @ cur # vs"
  have wf: "fl_wf ?s (us @ cur # vs)" using inv by (simp add: nf_inv_def xs)
  have pol: "policy s = Policy_next_fit" using inv by (simp add: nf_inv_def)
  have "fl_wf s' ?xs' \<and> takes_words ?s (us @ cur # vs) (n + 1) r s' ?xs' \<and> ?prev \<in> set (fl_head ?s # ?xs')"
    by (rule allocate_block_takes_words [OF wf refl _ n refl ab]) (simp add: xs)
  moreover have "fl_prev s' = ?prev" "policy s' = Policy_next_fit" "fl_head s' = fl_head s"
    using allocate_block_frame [where wh_sz = "n + 1" and i = 0 and prev = ?prev and cur = cur and s = ?s]
      pol unfolding ab snd_conv by simp_all
  ultimately have "nf_inv s' ?xs'" "takes_words s xs (n + 1) r s' ?xs'"
    by (simp_all add: nf_inv_def takes_words_fl_last xs)
  moreover have "caml_fl_allocate n s = Some (r, s')"
    using res ab pol by (simp add: caml_fl_allocate_def)
  ultimately show ?thesis by blast
qed

lemma nf_allocate_none:
  assumes inv: "nf_inv s xs" and none: "\<forall>x\<in>set xs. Wosize_bp (mem s) x < n"
  shows "caml_fl_allocate n s = Some (0, s\<lparr>fl_last := last (fl_head s # xs)\<rparr>)"
  using allocate_next_fit_none [OF inv none] inv by (simp add: caml_fl_allocate_def nf_inv_def)

lemma free_set_fl_last: "free_set (s\<lparr>fl_last := p\<rparr>) = free_set s"
  by (simp add: free_set_def)

lemma nf_inv_fl_last: "nf_inv (s\<lparr>fl_last := p\<rparr>) xs = nf_inv s xs"
  by (simp add: nf_inv_def)

interpretation nf: word_allocator caml_fl_allocate nf_ok free_set
proof
  fix s and n :: nat
  assume "nf_ok s" and n: "1 \<le> n"
  then obtain xs where inv: "nf_inv s xs" by (auto simp: nf_ok_def)
  show "\<exists>r s'. caml_fl_allocate n s = Some (r, s') \<and> nf_ok s'"
  proof (cases "\<exists>x\<in>set xs. n \<le> Wosize_bp (mem s) x")
    case True
    then show ?thesis using nf_allocate_found [OF inv n] by (auto simp: nf_ok_def)
  next
    case False
    then show ?thesis
      using nf_allocate_none [OF inv, of n] inv by (auto simp: nf_ok_def nf_inv_fl_last not_le)
  qed
next
  fix s n r s'
  assume "nf_ok s" and n: "1 \<le> n" and res: "caml_fl_allocate n s = Some (r, s')"
  then obtain xs where inv: "nf_inv s xs" by (auto simp: nf_ok_def)
  then have wf: "fl_wf s xs" by (simp add: nf_inv_def)
  show "request_words (r, n) \<subseteq> free_set s \<and> free_set s' \<subseteq> free_set s - request_words (r, n)"
  proof (cases "\<exists>x\<in>set xs. n \<le> Wosize_bp (mem s) x")
    case True
    then obtain xs' where "nf_inv s' xs'" and t: "takes_words s xs (n + 1) r s' xs'"
      using nf_allocate_found [OF inv n] res by auto
    then have "fl_wf s' xs'" by (simp add: nf_inv_def)
    with t show ?thesis
      by (auto simp: takes_words_def request_words_def free_set_eq [OF wf] free_set_eq)
  next
    case False
    then have "r = 0" "s' = s\<lparr>fl_last := last (fl_head s # xs)\<rparr>"
      using nf_allocate_none [OF inv, of n] res by (auto simp: not_le)
    then show ?thesis by (simp add: request_words_def free_set_fl_last)
  qed
qed

section \<open>Properties\<close>

text \<open>
  A heap with two free blocks, of 5 fields at 10 and of 3 fields at 20, for the concrete
  instances.
\<close>

definition demo_mem :: memory where
  "demo_mem = (\<lambda>_. 0)(1 := Make_header 0 0 Caml_blue, 2 := 10,
     9 := Make_header 5 0 Caml_blue, 10 := 20, 19 := Make_header 3 0 Caml_blue, 20 := 0,
     29 := Make_header 4 0 Caml_white)"

definition demo_fl :: fl_state where
  "demo_fl = \<lparr>mem = demo_mem, fl_head = 2, fl_prev = 2, fl_last = 0, fl_merge = 2,
     fl_cur_size = 10, flp = (\<lambda>_. 0), flp_size = 0, beyond = 0,
     policy = Policy_next_fit, last_fragment = 0, gc_sweep_hp = 0\<rparr>"

lemma demo_headers [simp]:
  "Wosize_bp demo_mem 2 = 0" "Wosize_bp demo_mem 10 = 5" "Wosize_bp demo_mem 20 = 3"
  "Wosize_bp demo_mem 30 = 4"
  by (simp_all add: demo_mem_def Wosize_bp_def Hd_bp_def Make_header_def color_defs Wosize_hd_def
      push_bit_eq_mult drop_bit_eq_div)

lemma demo_inv: "nf_inv demo_fl [10, 20]"
  by (simp add: nf_inv_def fl_wf_def demo_fl_def free_block_def clear_of_sentinel_def Next_def
      Whsize_bp_def)
    (simp add: demo_mem_def Hd_bp_def Color_hd_def Make_header_def color_defs push_bit_eq_mult)

text \<open>
  C10. Next-fit allocation of \<open>n\<close> fields succeeds whenever some free block has \<open>n\<close> fields: it
  returns a nonzero header address, the \<open>n + 1\<close> words there were free, the new list is well
  formed (sorted, disjoint blue blocks, \<open>fl_cur_size\<close> their total, \<open>fl_prev\<close> on the list)
  and holds none of them, at most one more word leaves the list, and no word outside the
  free blocks and the list head changes.
\<close>

theorem next_fit_allocates:
  assumes "nf_inv s xs" "1 \<le> n" "\<exists>x\<in>set xs. n \<le> Wosize_bp (mem s) x"
  shows "\<exists>r s' xs'. caml_fl_allocate n s = Some (r, s') \<and> nf_inv s' xs' \<and>
    takes_words s xs (n + 1) r s' xs'"
  using assms by (rule nf_allocate_found)

theorem next_fit_allocates_witness:
  "\<exists>r s' xs'. caml_fl_allocate 3 demo_fl = Some (r, s') \<and> nf_inv s' xs' \<and>
     takes_words demo_fl [10, 20] 4 r s' xs'"
  using next_fit_allocates [OF demo_inv, of 3] by (simp add: demo_fl_def)

text \<open>
  Next fit fails only when it must: when every free block is smaller than the request it
  returns \<open>NULL\<close> after a search that ends, and leaves the state unchanged except that
  \<open>fl_last\<close> is the last block of the list.
\<close>

theorem next_fit_null:
  assumes "nf_inv s xs" "\<forall>x\<in>set xs. Wosize_bp (mem s) x < n"
  shows "caml_fl_allocate n s = Some (0, s\<lparr>fl_last := last (fl_head s # xs)\<rparr>)"
  using assms by (rule nf_allocate_none)

theorem next_fit_null_witness:
  "caml_fl_allocate 6 demo_fl = Some (0, demo_fl\<lparr>fl_last := 20\<rparr>)"
  using next_fit_null [OF demo_inv, of 6] by (simp add: demo_fl_def)

text \<open>
  C12. Any sequence of allocations from a well-formed list is safe: every request is
  answered, the blocks handed out lie in the words that were free at the start, are pairwise
  disjoint, and share no word with what is still free.
\<close>

theorem next_fit_sequence_disjoint:
  assumes "nf_ok s" "\<forall>n\<in>set ns. 1 \<le> n"
  shows "\<exists>rs s'. alloc_seq caml_fl_allocate ns s = Some (rs, s') \<and> nf_ok s' \<and> map snd rs = ns \<and>
    (\<forall>rn\<in>set rs. request_words rn \<subseteq> free_set s) \<and> free_set s' \<subseteq> free_set s \<and>
    (\<forall>rn\<in>set rs. request_words rn \<inter> free_set s' = {}) \<and>
    sorted_wrt (\<lambda>a b. request_words a \<inter> request_words b = {}) rs"
  using assms by (rule nf.alloc_seq_disjoint)

theorem next_fit_sequence_disjoint_witness:
  "\<exists>rs s'. alloc_seq caml_fl_allocate [2, 2, 3] demo_fl = Some (rs, s') \<and> nf_ok s' \<and>
    map snd rs = [2, 2, 3] \<and> free_set s' \<subseteq> free_set demo_fl"
proof -
  have "nf_ok demo_fl" using demo_inv by (auto simp: nf_ok_def)
  then show ?thesis
    using next_fit_sequence_disjoint [of demo_fl "[2, 2, 3]"] by auto
qed

text \<open>
  C11. Merging a swept block into the list: when the block lies after \<open>caml_fl_merge\<close>, before
  the blocks that follow, and clear of them, the list stays well formed, the returned
  position is at or after the end of the block with \<open>caml_fl_merge\<close> the last free block
  below it, and exactly the block's words (and the fragment word just before it, if one
  was pending) become free; a header with no field that touches no free block is remembered
  as the fragment instead.
\<close>

theorem merge_block_returns_words:
  assumes "merge_ready s us vs bp" "caml_fl_merge_block bp s = (adj, s')"
  shows "\<exists>us' vs'. merge_done s (us @ vs) bp adj s' us' vs'"
  using merge_block_done [OF assms] by blast

text \<open>In the demo heap, the block of 4 fields at 30 is swept after the block at 20.\<close>

lemma demo_merge_ready: "merge_ready (demo_fl\<lparr>fl_merge := 20\<rparr>) [10, 20] [] 30"
  using demo_inv
  by (simp add: merge_ready_def nf_inv_def fl_wf_def clear_of_sentinel_def fragment_ok_def demo_fl_def
      free_block_def Hp_bp_def)

theorem merge_block_returns_words_witness:
  "\<exists>us' vs'. merge_done (demo_fl\<lparr>fl_merge := 20\<rparr>) [10, 20] 30
     (fst (caml_fl_merge_block 30 (demo_fl\<lparr>fl_merge := 20\<rparr>)))
     (snd (caml_fl_merge_block 30 (demo_fl\<lparr>fl_merge := 20\<rparr>))) us' vs'"
  using merge_block_returns_words [OF demo_merge_ready] by simp

end
