(* ===== verification/Clock.thy ===== *)
theory Clock
  imports Values
begin

text \<open>
  The clock primitives (\<open>kernel/clock_stubs.c\<close>): the time of day as microseconds since
  the epoch, and its decomposition into calendar fields. A \<open>time_t\<close> here is the quotient
  of a tagged integer by \<open>1000000\<close>, so its magnitude stays below \<open>2 ^ 43\<close> and the C
  arithmetic never overflows: it is modelled on \<open>int\<close>, with C's truncating division
  (\<open>sdiv\<close>, \<open>smod\<close>).
\<close>

section \<open>The code\<close>

definition SPD :: int where "SPD = 24 * 60 * 60"

definition dpm :: "int list" where
  "dpm = [0, 31, 31 + 28, 31 + 28 + 31, 31 + 28 + 31 + 30, 31 + 28 + 31 + 30 + 31,
     31 + 28 + 31 + 30 + 31 + 30, 31 + 28 + 31 + 30 + 31 + 30 + 31,
     31 + 28 + 31 + 30 + 31 + 30 + 31 + 31, 31 + 28 + 31 + 30 + 31 + 30 + 31 + 31 + 30,
     31 + 28 + 31 + 30 + 31 + 30 + 31 + 31 + 30 + 31,
     31 + 28 + 31 + 30 + 31 + 30 + 31 + 31 + 30 + 31 + 30,
     31 + 28 + 31 + 30 + 31 + 30 + 31 + 31 + 30 + 31 + 30 + 31]"

text \<open>The argument is what \<open>microtime\<close> stored: seconds and microseconds.\<close>

definition kern_gettimeofday :: "u64 \<times> u64 \<Rightarrow> u64" where
  "kern_gettimeofday atv = Val_long (fst atv * 1000000 + snd atv)"

definition is_leap :: "int \<Rightarrow> bool" where
  "is_leap year \<longleftrightarrow> year smod 4 = 0 \<and> (year smod 100 \<noteq> 0 \<or> year smod 400 = 0)"

text \<open>The loop over the years: the year reached and the days left in it.\<close>

function year_loop :: "int \<Rightarrow> int \<Rightarrow> int \<times> int" where
  "year_loop i x =
     (let k = (if is_leap i then 366 else 365)
      in if x \<ge> k then year_loop (i + 1) (x - k) else (i, x))"
  by pat_completeness auto
termination
  by (relation "measure (\<lambda>(i, x). nat x)") (auto split: if_splits)

declare year_loop.simps [simp del]

fun mon_loop :: "nat \<Rightarrow> int \<Rightarrow> nat" where
  "mon_loop 0 x = 0"
| "mon_loop (Suc i) x = (if dpm ! Suc i > x then mon_loop i x else Suc i)"

text \<open>The nine fields of the result block, in order of their index.\<close>

definition kern_gmtime :: "u64 \<Rightarrow> u64 list" where
  "kern_gmtime t =
     (let clock = sint (Long_val t) sdiv 1000000;
          x = clock smod SPD;
          sec = x smod 60;
          x = x sdiv 60;
          min = x smod 60;
          hour = x sdiv 60;
          x = clock sdiv SPD;
          wday = (4 + x) smod 7;
          (i, x) = year_loop 1970 x;
          year = i - 1900;
          yday = x;
          mday = (if is_leap i \<and> x > 58 then if x = 59 then 2 else 1 else 1);
          x = (if is_leap i \<and> x > 58 then x - 1 else x);
          mon = mon_loop 11 x;
          mday = mday + x - dpm ! mon
      in map (\<lambda>v. Val_long (of_int v)) [sec, min, hour, mday, int mon, year, wday, yday, 0])"

section \<open>The calendar\<close>

text \<open>
  The Gregorian calendar, independently of the code: the lengths of months and years, the
  days of a date since 1 January 1970, and the instant of a date and time.
\<close>

definition leap :: "int \<Rightarrow> bool" where
  "leap y \<longleftrightarrow> (4 dvd y \<and> \<not> 100 dvd y) \<or> 400 dvd y"

definition year_length :: "int \<Rightarrow> int" where
  "year_length y = (if leap y then 366 else 365)"

definition month_length :: "int \<Rightarrow> nat \<Rightarrow> int" where
  "month_length y m =
     (if m = 1 then if leap y then 29 else 28 else if m \<in> {3, 5, 8, 10} then 30 else 31)"

fun days_of_years :: "nat \<Rightarrow> int" where
  "days_of_years 0 = 0"
| "days_of_years (Suc n) = days_of_years n + year_length (1970 + int n)"

fun days_of_months :: "int \<Rightarrow> nat \<Rightarrow> int" where
  "days_of_months y 0 = 0"
| "days_of_months y (Suc m) = days_of_months y m + month_length y m"

definition year_start :: "int \<Rightarrow> int" where
  "year_start y = days_of_years (nat (y - 1970))"

definition year_day :: "int \<Rightarrow> nat \<Rightarrow> int \<Rightarrow> int" where
  "year_day y m d = days_of_months y m + d - 1"

definition valid_date :: "int \<Rightarrow> nat \<Rightarrow> int \<Rightarrow> bool" where
  "valid_date y m d \<longleftrightarrow> 1970 \<le> y \<and> m < 12 \<and> 1 \<le> d \<and> d \<le> month_length y m"

definition day_number :: "int \<Rightarrow> nat \<Rightarrow> int \<Rightarrow> int" where
  "day_number y m d = year_start y + year_day y m d"

definition epoch_seconds :: "int \<Rightarrow> nat \<Rightarrow> int \<Rightarrow> int \<Rightarrow> int \<Rightarrow> int \<Rightarrow> int" where
  "epoch_seconds y m d hh mm ss = ((day_number y m d * 24 + hh) * 60 + mm) * 60 + ss"

section \<open>Lemmas\<close>

lemma is_leap_eq: "1970 \<le> y \<Longrightarrow> is_leap y = leap y"
proof -
  assume y: "1970 \<le> y"
  have "400 dvd y \<Longrightarrow> 4 dvd y" using dvd_trans [of 4 400 y] by simp
  then show ?thesis
    using y unfolding is_leap_def leap_def by (simp only: smod_nonneg mod_eq_0_iff_dvd) auto
qed

lemma month_cases:
  "m < 12 \<Longrightarrow> m = 0 \<or> m = 1 \<or> m = 2 \<or> m = 3 \<or> m = 4 \<or> m = 5 \<or> m = 6 \<or> m = 7 \<or> m = 8 \<or>
     m = 9 \<or> m = 10 \<or> m = 11" for m :: nat
  by arith

lemma month_starts:
  "m < 12 \<Longrightarrow> days_of_months y m = dpm ! m + (if leap y \<and> 1 < m then 1 else 0)"
  by (drule month_cases) (auto simp: month_length_def dpm_def numeral_eq_Suc)

lemma year_day_bounds:
  assumes "valid_date y m d"
  shows "0 \<le> year_day y m d" "year_day y m d < year_length y"
proof -
  have m: "m < 12" using assms by (simp add: valid_date_def)
  note s = month_starts [OF m, of y]
  from m s assms show "0 \<le> year_day y m d" "year_day y m d < year_length y"
    by (drule_tac month_cases; auto simp: year_day_def valid_date_def year_length_def month_length_def dpm_def
        split: if_splits)+
qed

lemma year_loop_step:
  "1970 \<le> i \<Longrightarrow> year_loop i x =
     (if x \<ge> year_length i then year_loop (i + 1) (x - year_length i) else (i, x))"
  by (subst year_loop.simps) (simp add: year_length_def is_leap_eq)

lemma year_loop_days:
  "0 \<le> x \<Longrightarrow> year_loop 1970 (days_of_years n + x) = year_loop (1970 + int n) x"
proof (induction n arbitrary: x)
  case (Suc n)
  let ?k = "year_length (1970 + int n)"
  have "year_loop 1970 (days_of_years n + (?k + x)) = year_loop (1970 + int n) (?k + x)"
    using Suc.prems by (intro Suc.IH) (simp add: year_length_def)
  also have "\<dots> = year_loop (1970 + int (Suc n)) x"
    using Suc.prems by (subst year_loop_step) (simp_all add: add.commute)
  finally show ?case by (simp add: add.assoc)
qed simp

lemma year_loop_year_start:
  "1970 \<le> y \<Longrightarrow> 0 \<le> r \<Longrightarrow> r < year_length y \<Longrightarrow> year_loop 1970 (year_start y + r) = (y, r)"
  by (simp add: year_start_def year_loop_days, subst year_loop_step) simp_all

lemma days_of_years_nonneg: "0 \<le> days_of_years n"
  by (induction n) (auto simp: year_length_def)

lemma year_start_nonneg: "0 \<le> year_start y"
  by (simp add: year_start_def days_of_years_nonneg)

text \<open>The month loop finds the month, after the adjustment for 29 February.\<close>

lemma mon_loop_month:
  assumes "m < 12" "dpm ! m \<le> x" "m < 11 \<longrightarrow> x < dpm ! Suc m"
  shows "mon_loop 11 x = m"
  using assms by (drule_tac month_cases) (auto simp: numeral_eq_Suc dpm_def)

lemma month_of_year_day:
  assumes "valid_date y m d"
  shows "mon_loop 11 (if leap y \<and> year_day y m d > 58 then year_day y m d - 1 else year_day y m d) = m"
    and "(if leap y \<and> year_day y m d > 58 then if year_day y m d = 59 then 2 else 1 else 1) +
      (if leap y \<and> year_day y m d > 58 then year_day y m d - 1 else year_day y m d) - dpm ! m = d"
proof -
  have m: "m < 12" using assms by (simp add: valid_date_def)
  note s = month_starts [OF m, of y]
  have "(if leap y \<and> year_day y m d > 58 then year_day y m d - 1 else year_day y m d) =
      dpm ! m + d - 1 - (if leap y \<and> m = 1 \<and> d = 29 then 1 else 0)"
    using m s assms
    by (drule_tac month_cases; auto simp: year_day_def valid_date_def month_length_def dpm_def split: if_splits)
  moreover have "(year_day y m d = 59 \<and> leap y) = (leap y \<and> m = 1 \<and> d = 29)"
    using m s assms
    by (drule_tac month_cases; auto simp: year_day_def valid_date_def month_length_def dpm_def split: if_splits)
  moreover have "1 \<le> d" "m < 11 \<longrightarrow> dpm ! m + d - 1 - (if leap y \<and> m = 1 \<and> d = 29 then 1 else 0) < dpm ! Suc m"
    using m assms
    by (simp_all add: valid_date_def, drule_tac month_cases, auto simp: month_length_def dpm_def split: if_splits)
  ultimately show "mon_loop 11 (if leap y \<and> year_day y m d > 58 then year_day y m d - 1 else year_day y m d) = m"
    "(if leap y \<and> year_day y m d > 58 then if year_day y m d = 59 then 2 else 1 else 1) +
      (if leap y \<and> year_day y m d > 58 then year_day y m d - 1 else year_day y m d) - dpm ! m = d"
    using m by (auto intro!: mon_loop_month split: if_splits)
qed

lemma sint_of_int_long:
  assumes "Min_long \<le> i" "i \<le> Max_long"
  shows "sint (Long_val (Val_long (of_int i))) = i"
proof -
  have s: "sint (of_int i :: u64) = i"
    using assms by (simp add: Min_long_def Max_long_def signed_of_int signed_take_bit_int_eq_self)
  with assms show ?thesis by (simp add: Long_val_Val_long)
qed

text \<open>
  C36. The calendar fields are the right ones: for every date from 1970 on, every time of day
  and every microsecond, as long as the instant is a representable OCaml integer,
  \<open>kern_gmtime\<close> of the instant returns exactly the date and time it was computed from, with
  the day of the week (1 January 1970 being a Thursday) and the day of the year.
\<close>

theorem kern_gmtime_of_instant:
  assumes "valid_date y m d" "0 \<le> hh \<and> hh < 24" "0 \<le> mm \<and> mm < 60" "0 \<le> ss \<and> ss < 60"
    and "0 \<le> us \<and> us < 1000000" "epoch_seconds y m d hh mm ss * 1000000 + us \<le> Max_long"
  shows "kern_gmtime (Val_long (of_int (epoch_seconds y m d hh mm ss * 1000000 + us))) =
    map (\<lambda>v. Val_long (of_int v))
      [ss, mm, hh, d, int m, y - 1900, (day_number y m d + 4) mod 7, year_day y m d, 0]"
proof -
  let ?N = "day_number y m d" and ?E = "epoch_seconds y m d hh mm ss"
  have y: "1970 \<le> y" using assms(1) by (simp add: valid_date_def)
  have N: "0 \<le> ?N" "?N = year_start y + year_day y m d"
    using year_start_nonneg [of y] year_day_bounds [OF assms(1)] by (simp_all add: day_number_def)
  have E: "?E = ?N * 86400 + (hh * 3600 + mm * 60 + ss)" "0 \<le> ?E"
    using N assms(2-4) by (simp_all add: epoch_seconds_def)
  have clock: "sint (Long_val (Val_long (of_int (?E * 1000000 + us)))) sdiv 1000000 = ?E"
    using assms(5,6) E(2) by (subst sint_of_int_long) (simp_all add: Min_long_def sdiv_nonneg)
  have r: "0 \<le> hh * 3600 + mm * 60 + ss" "hh * 3600 + mm * 60 + ss < 86400" using assms(2-4) by simp_all
  have day: "?E sdiv SPD = ?N" "?E smod SPD = hh * 3600 + mm * 60 + ss"
    using E r by (simp_all add: SPD_def sdiv_nonneg smod_nonneg)
  have e: "hh * 3600 + mm * 60 + ss = (hh * 60 + mm) * 60 + ss" by simp
  have hm: "0 \<le> hh * 60 + mm" using assms(2,3) by simp
  have hms: "(hh * 3600 + mm * 60 + ss) smod 60 = ss" "(hh * 3600 + mm * 60 + ss) sdiv 60 = hh * 60 + mm"
    "(hh * 60 + mm) smod 60 = mm" "(hh * 60 + mm) sdiv 60 = hh"
    unfolding e by (rule divmod_int_pos; use assms(2-4) hm in simp)+
  have yl: "year_loop 1970 ?N = (y, year_day y m d)"
    unfolding N(2) by (rule year_loop_year_start [OF y year_day_bounds [OF assms(1)]])
  have "kern_gmtime (Val_long (of_int (?E * 1000000 + us))) = map (\<lambda>v. Val_long (of_int v))
     [ss, mm, hh, (if leap y \<and> year_day y m d > 58 then if year_day y m d = 59 then 2 else 1 else 1) +
      (if leap y \<and> year_day y m d > 58 then year_day y m d - 1 else year_day y m d) - dpm ! m,
      int m, y - 1900, (4 + ?N) smod 7, year_day y m d, 0]"
    unfolding kern_gmtime_def Let_def clock day hms yl prod.case is_leap_eq [OF y]
      month_of_year_day(1) [OF assms(1)] ..
  also have "(4 + ?N) smod 7 = (?N + 4) mod 7"
    using N(1) by (simp add: smod_nonneg add.commute)
  finally show ?thesis by (simp only: month_of_year_day(2) [OF assms(1)])
qed

text \<open>29 February 2012, 12:34:56, a Wednesday, the 60th day of the year.\<close>

theorem kern_gmtime_of_instant_witness:
  "kern_gmtime (Val_long (of_int (epoch_seconds 2012 1 29 12 34 56 * 1000000 + 7))) =
    map (\<lambda>v. Val_long (of_int v)) [56, 34, 12, 29, 1, 112, 3, 59, 0]"
proof -
  have y: "year_start 2012 = 15340" "year_day 2012 1 29 = 59"
    by code_simp+
  then have "epoch_seconds 2012 1 29 12 34 56 = 1330518896"
    by (simp add: epoch_seconds_def day_number_def)
  then show ?thesis
    using kern_gmtime_of_instant [of 2012 1 29 12 34 56 7] y
    by (simp add: valid_date_def month_length_def leap_def Max_long_def day_number_def)
qed

text \<open>
  Instants before 1970 are not decomposed into a date: the first year is reported with a
  negative day of the year and day of the month.
\<close>

lemma kern_gmtime_before_epoch:
  "kern_gmtime (Val_long (of_int (- 1000000))) =
    map (\<lambda>v. Val_long (of_int v)) [- 1, 0, 0, 1, 0, 70, 4, 0, 0]"
proof -
  have c: "sint (Long_val (Val_long (of_int (- 1000000)))) = - 1000000"
    by (rule sint_of_int_long) (simp_all add: Min_long_def Max_long_def)
  have y: "year_loop 1970 0 = (1970, 0)"
    by (subst year_loop_step) (simp_all add: year_length_def)
  have m: "mon_loop 11 0 = 0" by (simp add: numeral_eq_Suc dpm_def)
  have d: "(- 1000000) sdiv (1000000 :: int) = - 1" "(- 1) sdiv SPD = 0" "(- 1) smod SPD = - 1"
    "(- 1) smod (60 :: int) = - 1" "(- 1) sdiv (60 :: int) = 0" "0 smod (60 :: int) = 0"
    "0 sdiv (60 :: int) = 0" "(4 + 0) smod (7 :: int) = 4"
    by (simp_all add: signed_divide_int_def signed_modulo_int_def SPD_def)
  have n: "(0 :: int) > 58 \<longleftrightarrow> False" "1970 - 1900 = (70 :: int)" "dpm ! 0 = 0" by (simp_all add: dpm_def)
  show ?thesis
    unfolding kern_gmtime_def c Let_def d y prod.case n by (simp add: m n)
qed

end
