(* ===== verification/Kmod.thy ===== *)
theory Kmod
  imports Transitions Values
begin

text \<open>
  The kernel module (\<open>kernel/kmod.c\<close>): the kernel thread that runs the OCaml program, the
  sysctl that starts it, and the module events that install the network hooks and stop it.
  The thread, the sysctl handler and the unloading process run concurrently on the shared
  variable \<open>mirage_kthread_state\<close>; each transition below is a piece of one function
  with at most one access to it, so that a test and the store that follows it are two
  transitions and anything may run in between. Handlers of the sysctl do not overlap: the
  entry is not \<open>CTLFLAG_MPSAFE\<close>, so the kernel runs its handler under the Giant lock
  (a second request entering while \<open>kthread_add\<close> sleeps is not modelled). What the kernel decides (the result of \<open>kthread_add\<close> and
  of the sysctl framework) and what the OCaml callbacks return are arguments.
\<close>

section \<open>State\<close>

datatype thread_state = THR_NONE | THR_RUNNING | THR_STOPPED

text \<open>
  Where a thread is in \<open>mirage_kthread_body\<close>: created but not scheduled
  (\<open>RFSTOPPED\<close>), scheduled, at the loop test with \<open>caml_completed\<close>, at the label
  \<open>done\<close>, at the test before \<open>wakeup\<close>, at \<open>wakeup\<close>, before the final assignment, and
  at \<open>kthread_exit\<close>.
\<close>

datatype body_pc =
  Created | Scheduled | Looping bool | At_done | Waking | Notifying | Clearing | Exited

text \<open>
  Where the unloading process is: not unloading, between its test of the state and its store
  of \<open>THR_STOPPED\<close>, between that store and \<open>tsleep\<close>, asleep, woken, and finished.
\<close>

datatype unload_pc = Loaded | Deinit_tested | Stopping | Sleeping | Woken | Unloaded

text \<open>
  Where the sysctl handler is: not running, after its test of the state, after
  \<open>kthread_add\<close>, and after the store of \<open>THR_STOPPED\<close>.
\<close>

datatype sysctl_pc = Idle | Tested | Added | Inited

datatype hook = Ng_ether_hook | Netif_hook

record kmod =
  mirage_kthread_state :: thread_state
  mirage_kthread :: "nat option"
  pcs :: "nat \<Rightarrow> body_pc option"
  n_threads :: nat
  unload :: unload_pc
  sysctl :: sysctl_pc
  ng_ether_input_p :: "hook option"
  ng_ether_output_p :: "hook option"
  run_calls :: nat
  finalize_calls :: nat

definition EEXIST :: int where "EEXIST = 17"
definition EOPNOTSUPP :: int where "EOPNOTSUPP = 45"

section \<open>The thread body\<close>

text \<open>
  One step of thread \<open>t\<close>: \<open>has_run\<close> and \<open>has_fin\<close> say whether the two named values are
  registered, \<open>r\<close> is what the callback returns if this step calls it.
\<close>

definition mirage_kthread_body :: "bool \<Rightarrow> bool \<Rightarrow> bool \<Rightarrow> nat \<Rightarrow> kmod \<Rightarrow> kmod option" where
  "mirage_kthread_body has_run has_fin r t s =
     (case pcs s t of
        Some Scheduled \<Rightarrow>
          Some (s\<lparr>mirage_kthread_state := THR_RUNNING,
                  pcs := (pcs s)(t \<mapsto> (if has_run then Looping False else At_done))\<rparr>)
      | Some (Looping caml_completed) \<Rightarrow>
          if \<not> caml_completed \<and> mirage_kthread_state s = THR_RUNNING
          then Some (s\<lparr>pcs := (pcs s)(t \<mapsto> Looping r), run_calls := run_calls s + 1\<rparr>)
          else Some (s\<lparr>pcs := (pcs s)(t \<mapsto> At_done)\<rparr>)
      | Some At_done \<Rightarrow>
          Some (s\<lparr>pcs := (pcs s)(t \<mapsto> Waking),
                  finalize_calls := (if has_fin then finalize_calls s + 1 else finalize_calls s)\<rparr>)
      | Some Waking \<Rightarrow>
          Some (s\<lparr>pcs := (pcs s)(t \<mapsto>
                  (if mirage_kthread_state s = THR_STOPPED then Notifying else Clearing))\<rparr>)
      | Some Notifying \<Rightarrow>
          \<comment> \<open>\<open>wakeup\<close> wakes a process only if it already sleeps\<close>
          Some (s\<lparr>pcs := (pcs s)(t \<mapsto> Clearing),
                  unload := (if unload s = Sleeping then Woken else unload s)\<rparr>)
      | Some Clearing \<Rightarrow>
          Some (s\<lparr>pcs := (pcs s)(t \<mapsto> Exited), mirage_kthread_state := THR_NONE\<rparr>)
      | _ \<Rightarrow> None)"

section \<open>Creation, start and stop\<close>

text \<open>
  \<open>mirage_kthread_init\<close> up to the return of \<open>kthread_add\<close>, which creates a stopped thread
  and names it in \<open>mirage_kthread\<close> unless it fails; and its store. The error is dropped by
  the caller.
\<close>

definition mirage_kthread_init :: "int \<Rightarrow> kmod \<Rightarrow> kmod" where
  "mirage_kthread_init kthread_add_error s =
     (let s1 = (if kthread_add_error = 0
                then s\<lparr>mirage_kthread := Some (n_threads s),
                       pcs := (pcs s)(n_threads s \<mapsto> Created), n_threads := n_threads s + 1\<rparr>
                else s)
      in s1\<lparr>sysctl := Added\<rparr>)"

definition init_store :: "kmod \<Rightarrow> kmod" where
  "init_store s = s\<lparr>mirage_kthread_state := THR_STOPPED, sysctl := Inited\<rparr>"

text \<open>
  \<open>None\<close>: \<open>mirage_kthread\<close> is not a thread that waits to be scheduled (it is \<open>NULL\<close>, or
  a thread that was already started), which \<open>thread_lock\<close> and \<open>sched_add\<close> require.
\<close>

definition mirage_kthread_launch :: "kmod \<Rightarrow> kmod option" where
  "mirage_kthread_launch s =
     (case mirage_kthread s of
        None \<Rightarrow> None
      | Some t \<Rightarrow> if pcs s t = Some Created then Some (s\<lparr>pcs := (pcs s)(t \<mapsto> Scheduled)\<rparr>) else None)"

text \<open>
  One step of the sysctl handler: \<open>error\<close> is what the framework's functions return and
  \<open>newptr\<close> says whether the request writes. The first component is the handler's result
  when this step returns.
\<close>

definition sysctl_kern_mirage_run :: "int \<Rightarrow> bool \<Rightarrow> int \<Rightarrow> kmod \<Rightarrow> (int option \<times> kmod) option" where
  "sysctl_kern_mirage_run error newptr kthread_add_error s =
     (case sysctl s of
        Idle \<Rightarrow>
          if error \<noteq> 0 \<or> \<not> newptr then Some (Some error, s)
          else if mirage_kthread_state s = THR_NONE then Some (None, s\<lparr>sysctl := Tested\<rparr>)
          else Some (Some 0, s)
      | Tested \<Rightarrow> Some (None, mirage_kthread_init kthread_add_error s)
      | Added \<Rightarrow> Some (None, init_store s)
      | Inited \<Rightarrow> map_option (\<lambda>s1. (Some 0, s1\<lparr>sysctl := Idle\<rparr>)) (mirage_kthread_launch s))"

text \<open>
  \<open>mirage_kthread_deinit\<close>: its test, its store, the \<open>tsleep\<close>, and its return after
  \<open>wakeup\<close> and \<open>pause\<close>. \<open>Unloaded\<close> stands for the return to the event handler.
\<close>

definition mirage_kthread_deinit :: "kmod \<Rightarrow> kmod" where
  "mirage_kthread_deinit s =
     (if mirage_kthread_state s = THR_RUNNING then s\<lparr>unload := Deinit_tested\<rparr>
      else s\<lparr>unload := Unloaded\<rparr>)"

definition deinit_store :: "kmod \<Rightarrow> kmod" where
  "deinit_store s = s\<lparr>mirage_kthread_state := THR_STOPPED, unload := Stopping\<rparr>"

definition deinit_sleep :: "kmod \<Rightarrow> kmod" where
  "deinit_sleep s = s\<lparr>unload := Sleeping\<rparr>"

definition deinit_return :: "kmod \<Rightarrow> kmod" where
  "deinit_return s = s\<lparr>unload := Unloaded\<rparr>"

section \<open>Module events\<close>

datatype mod_event = MOD_LOAD | MOD_UNLOAD | MOD_OTHER

definition clear_hooks :: "kmod \<Rightarrow> kmod" where
  "clear_hooks s = s\<lparr>ng_ether_input_p := None, ng_ether_output_p := None\<rparr>"

text \<open>
  The handler returns its code and the new state. For \<open>MOD_UNLOAD\<close> it first runs
  \<open>mirage_kthread_deinit\<close>; when that finds the thread running, the hooks are cleared by the later
  transition \<open>unload_return\<close>.
\<close>

definition event_handler :: "mod_event \<Rightarrow> kmod \<Rightarrow> int \<times> kmod" where
  "event_handler event s =
     (case event of
        MOD_LOAD \<Rightarrow>
          (let retval = (if ng_ether_input_p s \<noteq> None \<or> ng_ether_output_p s \<noteq> None then EEXIST else 0)
           in (retval, s\<lparr>ng_ether_input_p := Some Netif_hook, ng_ether_output_p := Some Netif_hook\<rparr>))
      | MOD_UNLOAD \<Rightarrow>
          (let s1 = mirage_kthread_deinit s
           in (0, if unload s1 = Unloaded then clear_hooks s1 else s1))
      | MOD_OTHER \<Rightarrow> (EOPNOTSUPP, s))"

text \<open>
  \<open>caml_block_kernel\<close>: the value of \<open>block_timo\<close> and the argument of \<open>pause\<close>, computed
  in C's \<open>int\<close>; \<open>None\<close> when the product overflows it.
\<close>

definition caml_block_kernel :: "int \<Rightarrow> u64 \<Rightarrow> (int \<times> int) option" where
  "caml_block_kernel hz v_timeout =
     (let block_timo = sint (Int_val v_timeout); prod = block_timo * hz
      in if - (2 ^ 31) \<le> prod \<and> prod < 2 ^ 31
         then Some (block_timo, prod sdiv 1000000) else None)"

section \<open>The system\<close>

inductive kmod_step :: "kmod \<Rightarrow> kmod \<Rightarrow> bool" where
  run_sysctl: "unload s \<noteq> Unloaded \<or> sysctl s \<noteq> Idle \<Longrightarrow>
    sysctl_kern_mirage_run e p k s = Some (r, s') \<Longrightarrow> kmod_step s s'"
| thread: "mirage_kthread_body hr hf r t s = Some s' \<Longrightarrow> kmod_step s s'"
| unload_begin: "unload s = Loaded \<Longrightarrow> event_handler MOD_UNLOAD s = (r, s') \<Longrightarrow> kmod_step s s'"
| unload_store: "unload s = Deinit_tested \<Longrightarrow> kmod_step s (deinit_store s)"
| unload_sleep: "unload s = Stopping \<Longrightarrow> kmod_step s (deinit_sleep s)"
| unload_return: "unload s = Woken \<Longrightarrow> kmod_step s (clear_hooks (deinit_return s))"

definition kmod_start :: kmod where
  "kmod_start = \<lparr>mirage_kthread_state = THR_NONE, mirage_kthread = None, pcs = (\<lambda>_. None),
     n_threads = 0, unload = Loaded, sysctl = Idle, ng_ether_input_p = Some Netif_hook,
     ng_ether_output_p = Some Netif_hook, run_calls = 0, finalize_calls = 0\<rparr>"

definition kmod_init :: "kmod \<Rightarrow> bool" where
  "kmod_init s \<longleftrightarrow> s = kmod_start"

inductive_cases kmod_stepE: "kmod_step s s'"

section \<open>The invariant\<close>

definition active :: "kmod \<Rightarrow> nat \<Rightarrow> bool" where
  "active s t \<longleftrightarrow> pcs s t \<noteq> None \<and> pcs s t \<noteq> Some Exited"

definition started :: "kmod \<Rightarrow> nat \<Rightarrow> bool" where
  "started s t \<longleftrightarrow> active s t \<and> pcs s t \<noteq> Some Created \<and> pcs s t \<noteq> Some Scheduled"

text \<open>
  One thread at most is between its creation and its end; it is the one \<open>mirage_kthread\<close>
  names. \<open>THR_NONE\<close> means that there is none, but for the moment between \<open>kthread_add\<close> and
  the store that follows it; the handler that passed its test still finds none; and
  \<open>THR_RUNNING\<close> means that the thread has started. Until an unload begins, a state other
  than \<open>THR_NONE\<close> means that there is a thread.
\<close>

definition kmod_inv :: "kmod \<Rightarrow> bool" where
  "kmod_inv s \<longleftrightarrow>
     (\<forall>t. active s t \<longrightarrow> mirage_kthread s = Some t) \<and>
     (mirage_kthread_state s = THR_NONE \<and> sysctl s \<noteq> Added \<longrightarrow> (\<forall>t. \<not> active s t)) \<and>
     (sysctl s = Tested \<longrightarrow> (\<forall>t. \<not> active s t)) \<and>
     (mirage_kthread_state s = THR_RUNNING \<longrightarrow> (\<exists>t. started s t)) \<and>
     (unload s = Loaded \<and> sysctl s \<in> {Idle, Tested} \<and> (\<forall>t. \<not> active s t) \<longrightarrow>
        mirage_kthread_state s = THR_NONE) \<and>
     (\<forall>t. pcs s t = Some Created \<longrightarrow> sysctl s \<in> {Added, Inited}) \<and>
     (\<forall>t \<ge> n_threads s. pcs s t = None)"

lemma kmod_invD:
  assumes "kmod_inv s"
  shows "active s t \<Longrightarrow> mirage_kthread s = Some t"
    and "active s t \<Longrightarrow> mirage_kthread_state s = THR_NONE \<Longrightarrow> sysctl s = Added"
    and "active s t \<Longrightarrow> sysctl s \<noteq> Tested"
    and "active s t \<Longrightarrow> t < n_threads s"
    and "pcs s t = Some Created \<Longrightarrow> sysctl s \<in> {Added, Inited}"
    and "n_threads s \<le> t \<Longrightarrow> pcs s t = None"
  using assms unfolding kmod_inv_def by (metis active_def not_le)+

lemma kmod_inv_init:
  assumes inv: "kmod_inv s" and t: "sysctl s = Tested"
  shows "kmod_inv (mirage_kthread_init k s)"
proof -
  let ?s = "mirage_kthread_init k s"
  from inv t have idle: "\<forall>u. \<not> active s u" by (simp add: kmod_inv_def)
  then have "mirage_kthread_state s \<noteq> THR_RUNNING" and fresh: "\<forall>u \<ge> n_threads s. pcs s u = None"
    using inv by (auto simp: kmod_inv_def started_def)
  moreover have "active ?s u \<longleftrightarrow> k = 0 \<and> u = n_threads s" for u
    using idle by (auto simp: mirage_kthread_init_def active_def)
  ultimately show ?thesis
    unfolding kmod_inv_def by (auto simp: mirage_kthread_init_def)
qed

lemma kmod_inv_store:
  assumes inv: "kmod_inv s" and a: "sysctl s = Added"
  shows "kmod_inv (init_store s)"
proof -
  have "active (init_store s) = active s" by (intro ext) (simp add: active_def init_store_def)
  with inv a show ?thesis unfolding kmod_inv_def by (auto simp: init_store_def)
qed

lemma kmod_inv_launch:
  assumes inv: "kmod_inv s" and i: "sysctl s = Inited" and l: "mirage_kthread_launch s = Some s1"
  shows "kmod_inv (s1\<lparr>sysctl := Idle\<rparr>)"
proof -
  let ?s = "s1\<lparr>sysctl := Idle\<rparr>"
  obtain t where t: "mirage_kthread s = Some t" "pcs s t = Some Created"
    and s1: "s1 = s\<lparr>pcs := (pcs s)(t \<mapsto> Scheduled)\<rparr>"
    using l by (auto simp: mirage_kthread_launch_def split: option.splits if_splits)
  have at: "active s t" using t(2) by (simp add: active_def)
  have only: "u = t" if "active s u" for u
    using inv that t(1) by (simp add: kmod_inv_def)
  have act: "active ?s u \<longleftrightarrow> u = t" for u
  proof (cases "u = t")
    case False
    then have "\<not> active s u" using only by blast
    with False show ?thesis by (simp add: s1 active_def)
  qed (simp add: s1 active_def)
  have "mirage_kthread_state s \<noteq> THR_RUNNING"
    using inv only t(2) by (auto simp: kmod_inv_def started_def)
  moreover have "mirage_kthread_state s \<noteq> THR_NONE"
    using inv at i by (auto simp: kmod_inv_def)
  moreover have "pcs ?s u \<noteq> Some Created" for u
    using only [of u] by (auto simp: s1 active_def)
  moreover have "t < n_threads s"
    using inv t(2) by (auto simp: kmod_inv_def not_le [symmetric])
  moreover have "\<forall>u \<ge> n_threads s. pcs s u = None" using inv by (simp add: kmod_inv_def)
  ultimately show ?thesis
    using act t(1) unfolding kmod_inv_def by (auto simp: s1)
qed

lemma kmod_inv_sysctl:
  assumes inv: "kmod_inv s" and step: "sysctl_kern_mirage_run e p k s = Some (r, s')"
  shows "kmod_inv s'"
proof (cases "sysctl s")
  case Idle
  have "active (s\<lparr>sysctl := Tested\<rparr>) = active s" "started (s\<lparr>sysctl := Tested\<rparr>) = started s"
    by (intro ext, simp add: active_def started_def)+
  with inv Idle have "mirage_kthread_state s = THR_NONE \<Longrightarrow> kmod_inv (s\<lparr>sysctl := Tested\<rparr>)"
    by (simp add: kmod_inv_def)
  with step Idle inv show ?thesis
    by (auto simp: sysctl_kern_mirage_run_def split: if_splits)
next
  case Tested
  with step kmod_inv_init [OF inv Tested] show ?thesis by (auto simp: sysctl_kern_mirage_run_def)
next
  case Added
  with step kmod_inv_store [OF inv Added] show ?thesis by (simp add: sysctl_kern_mirage_run_def)
next
  case Inited
  with step kmod_inv_launch [OF inv Inited] show ?thesis
    by (auto simp: sysctl_kern_mirage_run_def)
qed

text \<open>A step of the body changes the place of its own thread, which was active.\<close>

lemma body_frame:
  assumes "mirage_kthread_body hr hf r t s = Some s'"
  shows "active s t" and "pcs s t \<noteq> Some Created" and "mirage_kthread s' = mirage_kthread s"
    and "n_threads s' = n_threads s" and "sysctl s' = sysctl s"
    and "unload s' = Loaded \<longleftrightarrow> unload s = Loaded"
    and "pcs s' t \<noteq> None" and "pcs s' t \<noteq> Some Created" and "pcs s' t \<noteq> Some Scheduled"
    and "u \<noteq> t \<Longrightarrow> pcs s' u = pcs s u"
    and "mirage_kthread_state s' = THR_NONE \<longleftrightarrow> pcs s' t = Some Exited \<or>
       mirage_kthread_state s = THR_NONE \<and> pcs s t \<noteq> Some Scheduled"
proof -
  obtain q where q: "pcs s t = Some q"
    using assms by (auto simp: mirage_kthread_body_def split: option.splits)
  show "active s t" "pcs s t \<noteq> Some Created" "mirage_kthread s' = mirage_kthread s"
    "n_threads s' = n_threads s" "sysctl s' = sysctl s"
    "unload s' = Loaded \<longleftrightarrow> unload s = Loaded"
    "pcs s' t \<noteq> None" "pcs s' t \<noteq> Some Created" "pcs s' t \<noteq> Some Scheduled"
    "u \<noteq> t \<Longrightarrow> pcs s' u = pcs s u"
    "mirage_kthread_state s' = THR_NONE \<longleftrightarrow> pcs s' t = Some Exited \<or>
       mirage_kthread_state s = THR_NONE \<and> pcs s t \<noteq> Some Scheduled"
    using assms by (cases q; auto simp: q mirage_kthread_body_def active_def split: if_splits)+
qed

lemma kmod_inv_body:
  assumes inv: "kmod_inv s" and step: "mirage_kthread_body hr hf r t s = Some s'"
  shows "kmod_inv s'"
proof -
  note f = body_frame(1-5) [OF step] and p = body_frame(7-10) [OF step]
    and n = body_frame(11) [OF step]
  note t = kmod_invD(1,3,2,4) [OF inv f(1)]
  have only: "u = t" if "active s u" for u
    using kmod_invD(1) [OF inv that] t(1) by simp
  have others: "active s' u \<longleftrightarrow> u = t \<and> pcs s' t \<noteq> Some Exited" for u
    using only p(1) p(4) by (metis active_def)
  have "\<exists>u. started s' u" if "mirage_kthread_state s' = THR_RUNNING"
    using that n others p(2,3) by (metis started_def thread_state.distinct(1))
  moreover have "mirage_kthread_state s' = THR_NONE \<and> sysctl s' \<noteq> Added \<longrightarrow> (\<forall>u. \<not> active s' u)"
    using others t(3) n f(5) by auto
  moreover have "unload s' = Loaded \<and> sysctl s' \<in> {Idle, Tested} \<and> (\<forall>u. \<not> active s' u) \<longrightarrow>
      mirage_kthread_state s' = THR_NONE"
    using others n by blast
  moreover have "\<forall>u. pcs s' u = Some Created \<longrightarrow> sysctl s' \<in> {Added, Inited}"
    using kmod_invD(5) [OF inv] p(2,4) f(5) by metis
  moreover have "\<forall>u \<ge> n_threads s'. pcs s' u = None"
    using kmod_invD(6) [OF inv] t(4) p(4) f(4) by (metis not_le)
  ultimately show ?thesis using others f(3,5) t(1,2) by (simp add: kmod_inv_def)
qed

lemma kmod_inv_cong:
  assumes inv: "kmod_inv s" and p: "pcs s' = pcs s" and m: "mirage_kthread s' = mirage_kthread s"
    "n_threads s' = n_threads s" "sysctl s' = sysctl s" "unload s' \<noteq> Loaded"
    "mirage_kthread_state s' = mirage_kthread_state s \<or> mirage_kthread_state s' = THR_STOPPED"
  shows "kmod_inv s'"
proof -
  have "active s' = active s" "started s' = started s"
    by (intro ext, simp add: active_def started_def p)+
  with inv p m show ?thesis by (auto simp: kmod_inv_def)
qed

lemma kmod_inv_unload:
  "kmod_inv s \<Longrightarrow> kmod_inv (snd (event_handler MOD_UNLOAD s))"
  "kmod_inv s \<Longrightarrow> kmod_inv (deinit_store s)"
  "kmod_inv s \<Longrightarrow> kmod_inv (deinit_sleep s)"
  "kmod_inv s \<Longrightarrow> kmod_inv (clear_hooks (deinit_return s))"
  by (erule kmod_inv_cong; simp add: event_handler_def mirage_kthread_deinit_def deinit_store_def
      deinit_sleep_def deinit_return_def clear_hooks_def Let_def)+

interpretation kmod: invariant_system kmod_init kmod_step kmod_inv
proof
  fix s
  assume "kmod_init s"
  then show "kmod_inv s"
    by (simp add: kmod_init_def kmod_start_def kmod_inv_def active_def)
next
  fix s s'
  assume inv: "kmod_inv s" and "kmod_step s s'"
  from this(2) show "kmod_inv s'"
  proof (cases rule: kmod_step.cases)
    case (unload_begin r)
    then show ?thesis using kmod_inv_unload(1) [OF inv] by simp
  next
    case run_sysctl
    then show ?thesis by (blast intro: kmod_inv_sysctl inv)
  next
    case thread
    then show ?thesis by (blast intro: kmod_inv_body inv)
  qed (use kmod_inv_unload(2-4) [OF inv] in simp_all)
qed

section \<open>Runs of the body\<close>

text \<open>Step \<open>k\<close> of a run of thread \<open>t\<close> alone, the callback of that step returning \<open>f k\<close>.\<close>

fun body_run :: "(nat \<Rightarrow> bool) \<Rightarrow> nat \<Rightarrow> nat \<Rightarrow> nat \<Rightarrow> kmod \<Rightarrow> kmod option" where
  "body_run f t k 0 s = Some s"
| "body_run f t k (Suc n) s =
     Option.bind (mirage_kthread_body True True (f k) t s) (body_run f t (Suc k) n)"

lemma body_run_add:
  "body_run f t k (m + n) s = Option.bind (body_run f t k m s) (body_run f t (k + m) n)"
proof (induction m arbitrary: k s)
  case (Suc m)
  then show ?case
    by (cases "mirage_kthread_body True True (f k) t s") auto
qed simp

lemma body_run_loop:
  assumes "pcs s t = Some (Looping False)" "mirage_kthread_state s = THR_RUNNING"
    and "\<forall>i < n. \<not> f (k + i)" "f (k + n)"
  shows "body_run f t k (Suc n) s =
    Some (s\<lparr>pcs := (pcs s)(t \<mapsto> Looping True), run_calls := run_calls s + n + 1\<rparr>)"
  using assms
proof (induction n arbitrary: k s)
  case 0
  then show ?case by (simp add: mirage_kthread_body_def del: fun_upd_apply)
next
  case (Suc n)
  let ?s = "s\<lparr>pcs := (pcs s)(t \<mapsto> Looping False), run_calls := run_calls s + 1\<rparr>"
  have "\<not> f k" using Suc.prems(3) by (metis add.right_neutral zero_less_Suc)
  then have "body_run f t k (Suc (Suc n)) s = body_run f t (Suc k) (Suc n) ?s"
    using Suc.prems by (simp add: mirage_kthread_body_def)
  also have "\<dots> = Some (?s\<lparr>pcs := (pcs ?s)(t \<mapsto> Looping True), run_calls := run_calls ?s + n + 1\<rparr>)"
    using Suc.prems by (intro Suc.IH) (auto simp: less_Suc_eq_0_disj)
  finally show ?case by (simp del: fun_upd_apply)
qed

text \<open>
  C27. At most one OCaml thread exists at any time, whatever the interleaving of the threads,
  the sysctl handler and the unloading process: in every reachable state two active threads
  are the same thread, and it is the one \<open>mirage_kthread\<close> points to. \<open>THR_NONE\<close> is only
  read when no thread is active, except between \<open>kthread_add\<close> and the store that follows
  it; \<open>THR_RUNNING\<close> is only read while the thread has started and not ended; and as long as
  no unload has begun and the handler is not starting a thread, the state is \<open>THR_NONE\<close>
  exactly when no thread is active, so that the sysctl can start one.
\<close>

theorem kmod_single_thread:
  assumes "reachable kmod_init kmod_step s"
  shows "(\<forall>t u. active s t \<and> active s u \<longrightarrow> t = u) \<and>
    (\<forall>t. active s t \<longrightarrow> mirage_kthread s = Some t) \<and>
    (mirage_kthread_state s = THR_NONE \<and> sysctl s \<noteq> Added \<longrightarrow> (\<forall>t. \<not> active s t)) \<and>
    (mirage_kthread_state s = THR_RUNNING \<longrightarrow> (\<exists>t. started s t)) \<and>
    (unload s = Loaded \<and> sysctl s \<in> {Idle, Tested} \<longrightarrow>
       (mirage_kthread_state s = THR_NONE \<longleftrightarrow> (\<forall>t. \<not> active s t)))"
proof -
  have inv: "kmod_inv s" by (rule kmod.reachable_inv [OF assms])
  then have a: "\<forall>t. active s t \<longrightarrow> mirage_kthread s = Some t"
    unfolding kmod_inv_def by blast
  then have "\<forall>t u. active s t \<and> active s u \<longrightarrow> t = u" by (metis option.inject)
  with inv show ?thesis unfolding kmod_inv_def by auto
qed

text \<open>The state after the sysctl has started a thread.\<close>

definition kmod_started :: kmod where
  "kmod_started = kmod_start\<lparr>mirage_kthread_state := THR_STOPPED, mirage_kthread := Some 0,
     pcs := [0 \<mapsto> Scheduled], n_threads := 1\<rparr>"

lemma sysctl_step:
  "reachable kmod_init kmod_step s \<Longrightarrow> unload s = Loaded \<Longrightarrow>
   sysctl_kern_mirage_run 0 True 0 s = Some (r, s') \<Longrightarrow> reachable kmod_init kmod_step s'"
  by (rule reachable_step, assumption, rule run_sysctl) auto

lemma kmod_started_reachable: "reachable kmod_init kmod_step kmod_started"
proof -
  let ?s1 = "kmod_start\<lparr>sysctl := Tested\<rparr>"
  let ?s2 = "mirage_kthread_init 0 ?s1"
  note defs = sysctl_kern_mirage_run_def mirage_kthread_init_def init_store_def
    mirage_kthread_launch_def kmod_start_def kmod_started_def
  have "reachable kmod_init kmod_step kmod_start"
    by (rule reachable_init) (simp add: kmod_init_def)
  then have "reachable kmod_init kmod_step ?s1"
    by (rule sysctl_step [where r = None]) (simp_all add: defs)
  then have "reachable kmod_init kmod_step ?s2"
    by (rule sysctl_step [where r = None]) (simp_all add: defs)
  then have "reachable kmod_init kmod_step (init_store ?s2)"
    by (rule sysctl_step [where r = None]) (simp_all add: defs)
  then show ?thesis
    by (rule sysctl_step [where r = "Some 0"]) (simp_all add: defs)
qed

theorem kmod_single_thread_witness:
  "active kmod_started 0 \<and> mirage_kthread kmod_started = Some 0 \<and>
   mirage_kthread_state kmod_started \<noteq> THR_NONE"
proof -
  have "active kmod_started 0" "sysctl kmod_started \<noteq> Added"
    by (simp_all add: active_def kmod_started_def kmod_start_def)
  then show ?thesis using kmod_single_thread [OF kmod_started_reachable] by blast
qed

text \<open>
  C29. The thread runs the OCaml main function to completion: scheduled alone, with both
  functions registered and the \<open>n\<close>-th call the first to return true, the body ends
  after finitely many steps having called \<open>OS.Main.run\<close> exactly \<open>n\<close> times and
  \<open>OS.Main.finalize\<close> once, with the thread gone and the state \<open>THR_NONE\<close> again, so that
  it can be started anew.
\<close>

theorem kthread_body_completes:
  assumes "pcs s t = Some Scheduled" "\<forall>i < n. \<not> f (1 + i)" "f (1 + n)"
  shows "\<exists>s'. body_run f t 0 (n + 6) s = Some s' \<and> pcs s' t = Some Exited \<and>
    mirage_kthread_state s' = THR_NONE \<and> run_calls s' = run_calls s + (n + 1) \<and>
    finalize_calls s' = finalize_calls s + 1 \<and> unload s' = unload s"
proof -
  let ?s1 = "s\<lparr>mirage_kthread_state := THR_RUNNING, pcs := (pcs s)(t \<mapsto> Looping False)\<rparr>"
  let ?s2 = "?s1\<lparr>pcs := (pcs ?s1)(t \<mapsto> Looping True), run_calls := run_calls ?s1 + n + 1\<rparr>"
  have 1: "body_run f t 0 1 s = Some ?s1"
    using assms(1) by (simp add: mirage_kthread_body_def)
  have 2: "body_run f t 1 (Suc n) ?s1 = Some ?s2"
    by (rule body_run_loop) (use assms(2,3) in simp_all)
  have 3: "\<exists>s'. body_run f t k 4 ?s2 = Some s' \<and> pcs s' t = Some Exited \<and>
      mirage_kthread_state s' = THR_NONE \<and> run_calls s' = run_calls s + (n + 1) \<and>
      finalize_calls s' = finalize_calls s + 1 \<and> unload s' = unload s" for k
    by (simp add: numeral_eq_Suc mirage_kthread_body_def)
  have "body_run f t 0 (n + 6) s = body_run f t 0 (1 + (Suc n + 4)) s"
    by (rule arg_cong [where f = "\<lambda>m. body_run f t 0 m s"]) simp
  also have "\<dots> = body_run f t (1 + Suc n) 4 ?s2"
    unfolding body_run_add 1 bind.bind_lunit add_0 2 ..
  finally show ?thesis using 3 by simp
qed

theorem kthread_body_completes_witness:
  "\<exists>s'. body_run (\<lambda>k. k = 3) 0 0 (2 + 6) kmod_started = Some s' \<and> pcs s' 0 = Some Exited \<and>
    mirage_kthread_state s' = THR_NONE \<and> run_calls s' = run_calls kmod_started + (2 + 1) \<and>
    finalize_calls s' = finalize_calls kmod_started + 1 \<and> unload s' = unload kmod_started"
  by (rule kthread_body_completes) (simp_all add: kmod_started_def)

text \<open>
  \<open>caml_block_kernel\<close> sleeps the requested number of microseconds, in clock ticks rounded
  down, on a kernel with 1000 ticks a second, only below 2147484 microseconds: from there
  on the product overflows C's \<open>int\<close>.
\<close>

theorem block_kernel_ticks:
  assumes "us < 2 ^ 31"
  shows "caml_block_kernel 1000 (Val_long (of_nat us)) =
    (if us \<le> 2147483 then Some (int us, int (us div 1000)) else None)"
proof -
  have "sint (Int_val (Val_long (of_nat us))) = int us"
    using assms by (simp add: Int_val_Val_long_of_nat sint_of_nat_small)
  moreover have "int us * 1000 sdiv 1000000 = int (us div 1000)"
    using div_mult_mult2 [of 1000 "int us" 1000] by (simp add: sdiv_nonneg of_nat_div)
  ultimately show ?thesis
    by (auto simp: caml_block_kernel_def Let_def)
qed

theorem block_kernel_ticks_witness:
  "caml_block_kernel 1000 (Val_long (of_nat 5000000)) = None"
  using block_kernel_ticks [of 5000000] by simp

text \<open>
  Three behaviours of the thread's life that the state variable does not cover. A wakeup is
  lost when the thread passes it between the store and the \<open>tsleep\<close> of
  \<open>mirage_kthread_deinit\<close>; a thread that was created but has not started is not waited
  for; and when the thread ends between the test and the store of
  \<open>mirage_kthread_deinit\<close>, the store overwrites \<open>THR_NONE\<close>: the state is \<open>THR_STOPPED\<close>
  with no thread left, no thread can be started again and nobody wakes the unloading
  process, which is about to sleep.
\<close>

lemma deinit_lost_wakeup:
  assumes "pcs s t = Some Notifying" "unload s = Stopping"
  shows "\<exists>s1 s2. mirage_kthread_body hr hf r t s = Some s1 \<and>
    mirage_kthread_body hr hf r t (deinit_sleep s1) = Some s2 \<and>
    pcs s2 t = Some Exited \<and> unload s2 = Sleeping \<and> mirage_kthread_state s2 = THR_NONE"
  using assms by (simp add: mirage_kthread_body_def deinit_sleep_def)

lemma unload_before_start:
  "event_handler MOD_UNLOAD kmod_started = (0, clear_hooks (kmod_started\<lparr>unload := Unloaded\<rparr>)) \<and>
   active (clear_hooks (kmod_started\<lparr>unload := Unloaded\<rparr>)) 0"
  by (simp add: event_handler_def mirage_kthread_deinit_def kmod_started_def kmod_start_def
      clear_hooks_def active_def)

lemma body_step:
  "reachable kmod_init kmod_step s \<Longrightarrow> mirage_kthread_body hr hf r t s = Some s' \<Longrightarrow>
   reachable kmod_init kmod_step s'"
  by (rule reachable_step, assumption, rule kmod_step.thread)

lemma deinit_race:
  "\<exists>s. reachable kmod_init kmod_step s \<and> (\<forall>t. \<not> active s t) \<and> sysctl s = Idle \<and>
     mirage_kthread_state s = THR_STOPPED \<and> unload s = Stopping"
proof -
  let ?at = "\<lambda>q. kmod_started\<lparr>mirage_kthread_state := THR_RUNNING, pcs := [0 \<mapsto> q]\<rparr>"
  let ?tested = "(?at Clearing)\<lparr>unload := Deinit_tested\<rparr>"
  let ?gone = "?tested\<lparr>pcs := [0 \<mapsto> Exited], mirage_kthread_state := THR_NONE\<rparr>"
  note defs = mirage_kthread_body_def kmod_started_def kmod_start_def
  have "reachable kmod_init kmod_step (?at At_done)"
    by (rule body_step [OF kmod_started_reachable, of False _ _ 0]) (simp add: defs)
  then have "reachable kmod_init kmod_step (?at Waking)"
    by (rule body_step [of _ _ False _ 0]) (simp add: defs)
  then have "reachable kmod_init kmod_step (?at Clearing)"
    by (rule body_step [of _ _ _ _ 0]) (simp add: defs)
  then have "reachable kmod_init kmod_step ?tested"
    by (rule reachable_step, intro unload_begin [where r = 0])
      (simp_all add: defs event_handler_def mirage_kthread_deinit_def)
  then have "reachable kmod_init kmod_step ?gone"
    by (rule body_step [of _ _ _ _ 0]) (simp add: defs)
  then have "reachable kmod_init kmod_step (deinit_store ?gone)"
    by (rule reachable_step, intro unload_store) (simp add: defs)
  then show ?thesis
    by (intro exI conjI, assumption) (simp_all add: defs deinit_store_def active_def)
qed

end
