(* ===== verification/Netif.thy ===== *)
theory Netif
  imports Transitions Values
begin

text \<open>
  The network interface driver (\<open>kernel/netif_stubs.c\<close>): the table of interfaces the
  OCaml program has plugged, the queues of packets received for them, and the mapping of
  OCaml buffers to kernel \<open>mbuf\<close> chains for transmission. An \<open>mbuf\<close> is an entry of a
  store indexed by its address, \<open>0\<close> being \<open>NULL\<close>; a C string is its bytes before the
  terminator. What the kernel provides (memory, \<open>m_freem\<close>, the interface list) is an
  argument or part of the state.
\<close>

section \<open>State\<close>

record mbuf =
  m_next :: nat
  m_nextpkt :: nat
  m_len :: nat
  m_data :: nat
  m_ext_arg1 :: nat
  m_ext_arg2 :: nat
  m_pkthdr_len :: "nat option"

record sockaddr_dl =
  sdl_is_ether :: bool \<comment> \<open>\<open>AF_LINK\<close> and \<open>IFT_ETHER\<close>\<close>
  sdl_llindex :: nat
  sdl_lladdr :: "u8 list"

record ifnet =
  if_xname :: string
  if_index :: nat
  if_up :: bool
  ac_netgraph :: bool
  if_addrhead :: "sockaddr_dl option list"

record plugged_if =
  pi_ifp :: nat
  pi_index :: nat
  pi_llindex :: nat
  pi_up :: bool
  pi_lladdr :: string
  pi_xname :: string
  pi_rx_head :: "nat list"

text \<open>
  \<open>ucells\<close> holds the two-word cells \<open>u\<close> (reference count and size) of the buffers,
  \<open>contig_freed\<close> what was given back to \<open>contigfree\<close>, and \<open>sent\<close> the calls of
  \<open>ether_output_frame\<close>.
\<close>

record netif =
  pihead :: "plugged_if list"
  plugged :: int
  V_ifnet :: "ifnet list"
  mbufs :: "nat \<Rightarrow> mbuf"
  ucells :: "nat \<Rightarrow> u32 \<times> u32"
  contig_freed :: "(nat \<times> u32) list"
  sent :: "(nat \<times> nat) list"

definition IFNAMSIZ :: nat where "IFNAMSIZ = 16"

definition name_eq :: "string \<Rightarrow> string \<Rightarrow> bool" where
  \<comment> \<open>\<open>strncmp(a, b, IFNAMSIZ) == 0\<close>\<close>
  "name_eq a b \<longleftrightarrow> take IFNAMSIZ a = take IFNAMSIZ b"

section \<open>The table of plugged interfaces\<close>

definition find_pi_by_index :: "nat \<Rightarrow> netif \<Rightarrow> plugged_if option" where
  "find_pi_by_index val s = List.find (\<lambda>pip. pi_index pip = val) (pihead s)"

definition find_pi_by_name :: "string \<Rightarrow> netif \<Rightarrow> plugged_if option" where
  "find_pi_by_name val s = List.find (\<lambda>pip. name_eq (pi_xname pip) val) (pihead s)"

text \<open>Changing and removing the entry that \<open>List.find\<close> returned.\<close>

fun update_first :: "('a \<Rightarrow> bool) \<Rightarrow> ('a \<Rightarrow> 'a) \<Rightarrow> 'a list \<Rightarrow> 'a list" where
  "update_first P f [] = []"
| "update_first P f (x # xs) = (if P x then f x # xs else x # update_first P f xs)"

fun remove_first :: "('a \<Rightarrow> bool) \<Rightarrow> 'a list \<Rightarrow> 'a list" where
  "remove_first P [] = []"
| "remove_first P (x # xs) = (if P x then xs else x # remove_first P xs)"

definition ether_addr :: "ifnet \<Rightarrow> sockaddr_dl option" where
  "ether_addr ifp =
     (case List.find (\<lambda>a. case a of None \<Rightarrow> False | Some sdl \<Rightarrow> sdl_is_ether sdl) (if_addrhead ifp) of
        Some (Some sdl) \<Rightarrow> Some sdl | _ \<Rightarrow> None)"

text \<open>The list \<open>caml_get_vifs\<close> builds: each Ethernet interface is put in front.\<close>

definition caml_get_vifs :: "netif \<Rightarrow> string list" where
  "caml_get_vifs s =
     fold (\<lambda>ifp result. if ether_addr ifp \<noteq> None then if_xname ifp # result else result) (V_ifnet s) []"

definition hex_digit :: "nat \<Rightarrow> char" where
  "hex_digit n = ''0123456789abcdef'' ! n"

definition hex2 :: "u8 \<Rightarrow> string" where
  "hex2 b = [hex_digit (unat b div 16), hex_digit (unat b mod 16)]"

text \<open>\<open>sprintf\<close> with the format \<open>%02x:%02x:%02x:%02x:%02x:%02x\<close>\<close>

definition format_lladdr :: "u8 list \<Rightarrow> string" where
  "format_lladdr a = hex2 (a ! 0) @ '':'' @ hex2 (a ! 1) @ '':'' @ hex2 (a ! 2) @ '':'' @
     hex2 (a ! 3) @ '':'' @ hex2 (a ! 4) @ '':'' @ hex2 (a ! 5)"

text \<open>
  \<open>mem_ok\<close>: whether \<open>malloc\<close> had memory. The result is the triple of the returned
  block. The first interface of that name is enabled even when it has no Ethernet
  address and the call fails.
\<close>

definition caml_plug_vif ::
    "bool \<Rightarrow> string \<Rightarrow> netif \<Rightarrow> (bool \<times> nat \<times> string) outcome \<times> netif" where
  "caml_plug_vif mem_ok vif s =
     (if \<not> mem_ok then (Inl (Failure ''No memory for plugging a new interface''), s)
      else
        (let s1 = s\<lparr>V_ifnet := update_first (\<lambda>ifp. name_eq (if_xname ifp) vif)
                                 (\<lambda>ifp. ifp\<lparr>ac_netgraph := True\<rparr>) (V_ifnet s)\<rparr>
         in case List.find (\<lambda>ifp. name_eq (if_xname ifp) vif) (V_ifnet s) of
              None \<Rightarrow> (Inl (Failure ''Invalid interface''), s1)
            | Some ifp \<Rightarrow>
                (case ether_addr ifp of
                   None \<Rightarrow> (Inl (Failure ''Invalid interface''), s1)
                 | Some sdl \<Rightarrow>
                     (let pip = \<lparr>pi_ifp = if_index ifp, pi_index = if_index ifp,
                                 pi_llindex = sdl_llindex sdl, pi_up = if_up ifp,
                                 pi_lladdr = format_lladdr (sdl_lladdr sdl),
                                 pi_xname = if_xname ifp, pi_rx_head = []\<rparr>;
                          head = (if plugged s1 = 0 then [] else pihead s1)
                      in (Inr (pi_up pip, pi_llindex pip, pi_lladdr pip),
                          s1\<lparr>pihead := head @ [pip], plugged := plugged s1 + 1\<rparr>)))))"

definition caml_unplug_vif :: "(nat \<Rightarrow> netif \<Rightarrow> netif) \<Rightarrow> string \<Rightarrow> netif \<Rightarrow> netif" where
  "caml_unplug_vif m_freem vif s =
     (case find_pi_by_name vif s of
        None \<Rightarrow> s
      | Some pip \<Rightarrow>
          (let s1 = s\<lparr>V_ifnet := update_first (\<lambda>ifp. name_eq (if_xname ifp) vif)
                                   (\<lambda>ifp. ifp\<lparr>ac_netgraph := False\<rparr>) (V_ifnet s)\<rparr>;
               s2 = s1\<lparr>pihead := remove_first (\<lambda>p. name_eq (pi_xname p) vif) (pihead s1)\<rparr>;
               s3 = fold m_freem (pi_rx_head pip) s2
           in s3\<lparr>plugged := plugged s3 - 1\<rparr>))"

section \<open>Reception\<close>

text \<open>
  The hook the kernel calls with a packet at \<open>*mp\<close>; the result is the new \<open>*mp\<close>. \<open>None\<close>:
  \<open>malloc(M_NOWAIT)\<close> returned \<open>NULL\<close>, which is dereferenced.
\<close>

definition netif_ether_input :: "bool \<Rightarrow> nat \<Rightarrow> nat \<Rightarrow> netif \<Rightarrow> (nat \<times> netif) option" where
  "netif_ether_input mem_ok ifindex mp s =
     (if plugged s = 0 then Some (mp, s)
      else
        (case find_pi_by_index ifindex s of
           None \<Rightarrow> Some (mp, s)
         | Some pip \<Rightarrow>
             if \<not> mem_ok then None
             else Some (0, s\<lparr>pihead := update_first (\<lambda>p. pi_index p = ifindex)
                                (\<lambda>p. p\<lparr>pi_rx_head := mp # pi_rx_head p\<rparr>) (pihead s)\<rparr>)))"

text \<open>
  The two nested loops over a packet chain and the fragments of a packet; \<open>result\<close> is the
  OCaml list built so far, of an array over the fragment's \<open>m_len\<close> bytes each.
\<close>

partial_function (option) get_frags ::
    "(nat \<Rightarrow> mbuf) \<Rightarrow> nat \<Rightarrow> (nat \<times> nat) list \<Rightarrow> (nat \<times> nat) list option" where
  "get_frags mb n result =
     (if n = 0 then Some result
      else get_frags mb (m_next (mb n)) ((n, m_len (mb n)) # result))"

partial_function (option) get_pkts ::
    "(nat \<Rightarrow> mbuf) \<Rightarrow> nat \<Rightarrow> (nat \<times> nat) list \<Rightarrow> (nat \<times> nat) list option" where
  "get_pkts mb m result =
     (if m = 0 then Some result
      else Option.bind (get_frags mb m result) (get_pkts mb (m_nextpkt (mb m))))"

fun get_queue :: "(nat \<Rightarrow> mbuf) \<Rightarrow> nat list \<Rightarrow> (nat \<times> nat) list \<Rightarrow> (nat \<times> nat) list option" where
  "get_queue mb [] result = Some result"
| "get_queue mb (e # es) result = Option.bind (get_pkts mb e result) (get_queue mb es)"

definition caml_get_mbufs :: "nat \<Rightarrow> netif \<Rightarrow> ((nat \<times> nat) list \<times> netif) option" where
  "caml_get_mbufs ifid s =
     (if plugged s = 0 then Some ([], s)
      else
        (case find_pi_by_index ifid s of
           None \<Rightarrow> Some ([], s)
         | Some pip \<Rightarrow>
             map_option
               (\<lambda>result. (result, s\<lparr>pihead := update_first (\<lambda>p. pi_index p = ifid)
                                               (\<lambda>p. p\<lparr>pi_rx_head := []\<rparr>) (pihead s)\<rparr>))
               (get_queue (mbufs s) (pi_rx_head pip) [])))"

definition netif_ether_output :: "nat \<Rightarrow> nat \<Rightarrow> int" where
  "netif_ether_output ifindex mp = 0"

section \<open>Transmission\<close>

definition netif_mbuf_free :: "nat \<Rightarrow> nat \<Rightarrow> netif \<Rightarrow> netif" where
  "netif_mbuf_free u p2 s =
     (let c = fst (ucells s u) - 1;
          s1 = s\<lparr>ucells := (ucells s)(u := (c, snd (ucells s u)))\<rparr>
      in if c = 0 then s1\<lparr>contig_freed := contig_freed s1 @ [(p2, snd (ucells s1 u))]\<rparr> else s1)"

text \<open>
  A pointer \<open>struct mbuf **mp\<close> is to the local variable or to the \<open>m_next\<close> of an mbuf. The
  variable is \<open>None\<close> before its first assignment.
\<close>

datatype mp_loc = Local_var | Next_of nat

definition store_mp :: "mp_loc \<Rightarrow> nat \<Rightarrow> nat option \<Rightarrow> netif \<Rightarrow> nat option \<times> netif" where
  "store_mp mp m var s =
     (case mp of
        Local_var \<Rightarrow> (Some m, s)
      | Next_of a \<Rightarrow> (var, s\<lparr>mbufs := (mbufs s)(a := (mbufs s a)\<lparr>m_next := m\<rparr>)\<rparr>))"

text \<open>
  \<open>MGET\<close> takes the next address of the supply, \<open>None\<close> standing for no memory. The loop
  ends with \<open>Mapped\<close> and \<open>frag\<close>, or with \<open>No_mbuf\<close> and the \<open>frag\<close> that is freed.
\<close>

datatype map_result = Mapped "nat option" netif "nat option list" | No_mbuf "nat option" netif "nat option list"

definition ext_mbuf :: "nat \<Rightarrow> nat \<Rightarrow> nat \<Rightarrow> nat \<Rightarrow> mbuf" where
  "ext_mbuf p len u data = \<lparr>m_next = 0, m_nextpkt = 0, m_len = len, m_data = p,
     m_ext_arg1 = u, m_ext_arg2 = data, m_pkthdr_len = None\<rparr>"

partial_function (option) map_loop ::
    "nat \<Rightarrow> nat \<Rightarrow> nat \<Rightarrow> nat \<Rightarrow> nat \<Rightarrow> mp_loc \<Rightarrow> nat option \<Rightarrow> nat option list \<Rightarrow> netif \<Rightarrow>
     map_result option" where
  "map_loop mclbytes data u p frag_len mp frag supply s =
     (if frag_len > 0 then
        (case supply of
           Some m # supply \<Rightarrow>
             (let len = min mclbytes frag_len;
                  s1 = s\<lparr>mbufs := (mbufs s)(m := ext_mbuf p len u data),
                         ucells := (ucells s)(u := (fst (ucells s u) + 1, snd (ucells s u)))\<rparr>;
                  (frag, s2) = store_mp mp m frag s1
              in map_loop mclbytes data u (p + len) (frag_len - len) (Next_of m) frag supply s2)
         | None # supply \<Rightarrow> Some (No_mbuf frag s supply)
         | [] \<Rightarrow> Some (No_mbuf frag s []))
      else Some (Mapped frag s supply))"

text \<open>
  \<open>None\<close>: the uninitialised \<open>frag\<close> is used. \<open>Some (None, ...)\<close> is the \<open>NULL\<close> result.
\<close>

definition netif_map_to_mbuf ::
    "nat \<Rightarrow> (nat \<Rightarrow> netif \<Rightarrow> netif) \<Rightarrow> nat \<Rightarrow> nat \<Rightarrow> nat option list \<Rightarrow> netif \<Rightarrow>
     (nat option \<times> netif \<times> nat option list) option" where
  "netif_map_to_mbuf mclbytes m_freem data u supply s =
     Option.bind (map_loop mclbytes data u data (unat (snd (ucells s u))) Local_var None supply s)
       (\<lambda>r. case r of
          Mapped (Some f) s1 supply \<Rightarrow> Some (Some f, s1, supply)
        | Mapped None s1 supply \<Rightarrow> None
        | No_mbuf (Some f) s1 supply \<Rightarrow> Some (None, m_freem f s1, supply)
        | No_mbuf None s1 supply \<Rightarrow> None)"

text \<open>An OCaml buffer: its \<open>data\<close> and its cell \<open>data2\<close>.\<close>

record ba_buf =
  b_data :: nat
  b_data2 :: nat

fun put_loop ::
    "nat \<Rightarrow> (nat \<Rightarrow> netif \<Rightarrow> netif) \<Rightarrow> ba_buf list \<Rightarrow> mp_loc \<Rightarrow> nat option \<Rightarrow> nat \<Rightarrow>
     nat option list \<Rightarrow> netif \<Rightarrow> ((nat option \<times> nat) outcome \<times> netif) option" where
  "put_loop mclbytes m_freem [] mp pkt pkt_len supply s = Some (Inr (pkt, pkt_len), s)"
| "put_loop mclbytes m_freem (b # bufs) mp pkt pkt_len supply s =
     Option.bind (netif_map_to_mbuf mclbytes m_freem (b_data b) (b_data2 b) supply s)
       (\<lambda>(frag, s1, supply).
          case frag of
            None \<Rightarrow> Some (Inl (Failure ''No memory for mapping to mbuf''), s1)
          | Some f \<Rightarrow>
              (let (pkt, s2) = store_mp mp f pkt s1
               in put_loop mclbytes m_freem bufs (Next_of f) pkt
                    (pkt_len + unat (snd (ucells s2 (b_data2 b)))) supply s2))"

definition caml_put_mbufs ::
    "nat \<Rightarrow> (nat \<Rightarrow> netif \<Rightarrow> netif) \<Rightarrow> nat option list \<Rightarrow> nat \<Rightarrow> ba_buf list \<Rightarrow> netif \<Rightarrow>
     (unit outcome \<times> netif) option" where
  "caml_put_mbufs mclbytes m_freem supply ifid bufs s =
     (if bufs = [] \<or> plugged s = 0 then Some (Inr (), s)
      else
        (case find_pi_by_index ifid s of
           None \<Rightarrow> Some (Inr (), s)
         | Some pip \<Rightarrow>
             Option.bind (put_loop mclbytes m_freem bufs Local_var None 0 supply s)
               (\<lambda>(r, s1). case r of
                  Inl e \<Rightarrow> Some (Inl e, s1)
                | Inr (None, pkt_len) \<Rightarrow> None
                | Inr (Some pkt, pkt_len) \<Rightarrow>
                    (let s2 = s1\<lparr>mbufs := (mbufs s1)(pkt := (mbufs s1 pkt)\<lparr>m_pkthdr_len := Some pkt_len\<rparr>)\<rparr>
                     in Some (Inr (), s2\<lparr>sent := sent s2 @ [(pi_ifp pip, pkt)]\<rparr>)))))"


section \<open>Chains of mbufs\<close>

text \<open>\<open>frag_chain mb n ms\<close>: the fragments from \<open>n\<close> on are the mbufs \<open>ms\<close>, in order.\<close>

fun frag_chain :: "(nat \<Rightarrow> mbuf) \<Rightarrow> nat \<Rightarrow> nat list \<Rightarrow> bool" where
  "frag_chain mb n [] \<longleftrightarrow> n = 0"
| "frag_chain mb n (m # ms) \<longleftrightarrow> n = m \<and> m \<noteq> 0 \<and> frag_chain mb (m_next (mb m)) ms"

definition single_packet :: "(nat \<Rightarrow> mbuf) \<Rightarrow> nat \<Rightarrow> nat list \<Rightarrow> bool" where
  "single_packet mb m ms \<longleftrightarrow> m \<noteq> 0 \<and> m_nextpkt (mb m) = 0 \<and> frag_chain mb m ms"

lemma get_frags_chain:
  "frag_chain mb n ms \<Longrightarrow>
   get_frags mb n result = Some (rev (map (\<lambda>m. (m, m_len (mb m))) ms) @ result)"
  by (induction ms arbitrary: n result) (simp_all add: get_frags.simps)

lemma get_pkts_single:
  "single_packet mb m ms \<Longrightarrow>
   get_pkts mb m result = Some (rev (map (\<lambda>m. (m, m_len (mb m))) ms) @ result)"
proof -
  assume m: "single_packet mb m ms"
  have last: "get_pkts mb 0 r = Some r" for r by (subst get_pkts.simps) simp
  from m have "get_frags mb m result = Some (rev (map (\<lambda>m. (m, m_len (mb m))) ms) @ result)"
    by (intro get_frags_chain) (simp add: single_packet_def)
  with m show ?thesis
    by (subst get_pkts.simps) (simp add: single_packet_def last)
qed

lemma get_queue_packets:
  "list_all2 (single_packet mb) es mss \<Longrightarrow>
   get_queue mb es result =
     Some (rev (map (\<lambda>m. (m, m_len (mb m))) (concat mss)) @ result)"
  by (induction es mss arbitrary: result rule: list_all2_induct) (simp_all add: get_pkts_single)

section \<open>The table\<close>

lemma find_update_first:
  "(\<forall>x. P x \<longrightarrow> P (f x)) \<Longrightarrow> List.find P (update_first P f xs) = map_option f (List.find P xs)"
  by (induction xs) auto

lemma length_update_first [simp]: "length (update_first P f xs) = length xs"
  by (induction xs) auto

lemma length_remove_first: "List.find P xs = Some x \<Longrightarrow> Suc (length (remove_first P xs)) = length xs"
  by (induction xs) (auto split: if_splits)

definition queued :: "netif \<Rightarrow> nat list" where
  "queued s = concat (map pi_rx_head (pihead s))"

lemma queued_remove_first:
  "set (concat (map g (remove_first P xs))) \<subseteq> set (concat (map g xs))"
  "distinct (concat (map g xs)) \<Longrightarrow> distinct (concat (map g (remove_first P xs)))"
proof -
  show sub: "set (concat (map g (remove_first P xs))) \<subseteq> set (concat (map g xs))" for xs
    by (induction xs) auto
  show "distinct (concat (map g xs)) \<Longrightarrow> distinct (concat (map g (remove_first P xs)))"
  proof (induction xs)
    case (Cons x xs)
    then show ?case using sub [of xs] by auto
  qed simp
qed

text \<open>An entry may gain elements that no entry has.\<close>

lemma queued_update_first:
  assumes "\<And>x. set (g (f x)) \<subseteq> insert m (set (g x))" "\<And>x. m \<notin> set (g x) \<Longrightarrow> distinct (g x) \<Longrightarrow> distinct (g (f x))"
  shows "set (concat (map g (update_first P f xs))) \<subseteq> insert m (set (concat (map g xs)))"
    and "distinct (concat (map g xs)) \<Longrightarrow> m \<notin> set (concat (map g xs)) \<Longrightarrow>
      distinct (concat (map g (update_first P f xs)))"
proof -
  show sub: "set (concat (map g (update_first P f xs))) \<subseteq> insert m (set (concat (map g xs)))" for xs
  proof (induction xs)
    case (Cons x xs)
    then show ?case using assms(1) [of x] by auto
  qed simp
  show "distinct (concat (map g xs)) \<Longrightarrow> m \<notin> set (concat (map g xs)) \<Longrightarrow>
      distinct (concat (map g (update_first P f xs)))"
  proof (induction xs)
    case (Cons x xs)
    then show ?case using assms [of x] sub [of xs] by auto blast+
  qed simp
qed

section \<open>Mapping a buffer\<close>

definition head_of :: "nat list \<Rightarrow> nat" where
  "head_of ms = (case ms of [] \<Rightarrow> 0 | m # _ \<Rightarrow> m)"

lemma head_of_simps [simp]: "head_of [] = 0" "head_of (m # ms) = m"
  by (simp_all add: head_of_def)

text \<open>Where the loops may store a link: a variable, or an mbuf outside the supply that ends a chain.\<close>

definition loc_ok :: "mp_loc \<Rightarrow> nat list \<Rightarrow> netif \<Rightarrow> bool" where
  "loc_ok mp ms s \<longleftrightarrow> (\<forall>a. mp = Next_of a \<longrightarrow> a \<notin> set ms \<and> m_next (mbufs s a) = 0)"

definition var_after :: "mp_loc \<Rightarrow> nat list \<Rightarrow> nat option \<Rightarrow> nat option" where
  "var_after mp ms var = (if mp = Local_var \<and> ms \<noteq> [] then Some (hd ms) else var)"

text \<open>What linking the mbufs \<open>ms\<close> after \<open>mp\<close> does to the store, and what it leaves alone.\<close>

definition linked :: "mp_loc \<Rightarrow> nat list \<Rightarrow> netif \<Rightarrow> netif \<Rightarrow> bool" where
  "linked mp ms s s' \<longleftrightarrow> frag_chain (mbufs s') (head_of ms) ms \<and>
     (\<forall>a. mp = Next_of a \<longrightarrow> mbufs s' a = (mbufs s a)\<lparr>m_next := head_of ms\<rparr>) \<and>
     (\<forall>x. x \<notin> set ms \<and> mp \<noteq> Next_of x \<longrightarrow> mbufs s' x = mbufs s x) \<and>
     (\<forall>x. snd (ucells s' x) = snd (ucells s x)) \<and> pihead s' = pihead s \<and> plugged s' = plugged s \<and>
     sent s' = sent s"

lemma linked_Nil: "loc_ok mp [] s \<Longrightarrow> linked mp [] s s"
  by (auto simp: linked_def loc_ok_def)

lemma frag_chain_cong:
  "frag_chain mb n ms \<Longrightarrow> \<forall>m\<in>set ms. m_next (mb' m) = m_next (mb m) \<Longrightarrow> frag_chain mb' n ms"
  by (induction ms arbitrary: n) auto

text \<open>Linking one mbuf, then the rest after it.\<close>

lemma linked_Cons:
  assumes 1: "linked mp [m] s s1" and 2: "linked (Next_of m) ms s1 s2"
    and d: "distinct (m # ms)" "m \<noteq> 0" "loc_ok mp (m # ms) s"
  shows "linked mp (m # ms) s s2" "mbufs s2 m = (mbufs s1 m)\<lparr>m_next := head_of ms\<rparr>"
proof -
  show m: "mbufs s2 m = (mbufs s1 m)\<lparr>m_next := head_of ms\<rparr>"
    using 2 by (simp add: linked_def)
  have "mbufs s2 a = mbufs s1 a" if "mp = Next_of a" for a
    using 2 d(3) that by (auto simp: linked_def loc_ok_def)
  with 1 2 d m show "linked mp (m # ms) s s2"
    by (auto simp: linked_def)
qed

lemma ceil_div_step:
  fixes n :: nat
  assumes "0 < d" "Suc k = (n + d - 1) div d"
  shows "0 < n" "k = (n - min d n + d - 1) div d"
proof -
  show n: "0 < n" using assms by (cases "n = 0") auto
  show "k = (n - min d n + d - 1) div d"
  proof (cases "d \<le> n")
    case True
    then have "(n + d - 1) div d = Suc ((n + d - 1 - d) div d)"
      using assms(1) by (intro le_div_geq) auto
    moreover have "n + d - 1 - d = n - min d n + d - 1" using True n assms(1) by auto
    ultimately show ?thesis using assms(2) by simp
  next
    case False
    with n have "(n + d - 1) div d = Suc ((n + d - 1 - d) div d)"
      using assms(1) by (intro le_div_geq) auto
    with False n assms show ?thesis by simp
  qed
qed

lemma map_loop_ok:
  assumes "0 < mcl" "length ms = (n + mcl - 1) div mcl" "distinct ms" "0 \<notin> set ms" "loc_ok mp ms s"
  shows "\<exists>s'. map_loop mcl data u p n mp frag (map Some ms @ rest) s =
      Some (Mapped (var_after mp ms frag) s' rest) \<and> linked mp ms s s' \<and>
    (\<forall>k<length ms. m_data (mbufs s' (ms ! k)) = p + k * mcl \<and>
       m_len (mbufs s' (ms ! k)) = min mcl (n - k * mcl)) \<and>
    ucells s' = (ucells s)(u := (fst (ucells s u) + of_nat (length ms), snd (ucells s u)))"
  using assms
proof (induction ms arbitrary: n p mp frag s)
  case Nil
  then have "n = 0" by (cases n) (auto simp: div_eq_0_iff)
  with Nil show ?case
    by (subst map_loop.simps) (auto simp: var_after_def linked_Nil)
next
  case (Cons m ms)
  have n: "0 < n" "length ms = (n - min mcl n + mcl - 1) div mcl"
    using ceil_div_step [of mcl "length ms" n] Cons.prems(1,2) by simp_all
  let ?len = "min mcl n"
  define s1 where "s1 = s\<lparr>mbufs := (mbufs s)(m := ext_mbuf p ?len u data),
    ucells := (ucells s)(u := (fst (ucells s u) + 1, snd (ucells s u)))\<rparr>"
  obtain frag2 s2 where st: "store_mp mp m frag s1 = (frag2, s2)" by fastforce
  have f2: "frag2 = var_after mp [m] frag"
    using st by (auto simp: store_mp_def var_after_def split: mp_loc.splits)
  have l2: "linked mp [m] s s2" and u2: "ucells s2 = ucells s1"
      and m2: "mbufs s2 m = ext_mbuf p ?len u data"
    using st Cons.prems(4,5)
    by (auto simp: store_mp_def linked_def s1_def ext_mbuf_def loc_ok_def split: mp_loc.splits)
  have "loc_ok (Next_of m) ms s2" using m2 Cons.prems(3) by (simp add: loc_ok_def ext_mbuf_def)
  moreover have "distinct ms" "0 \<notin> set ms" using Cons.prems(3,4) by auto
  ultimately obtain s' where s': "map_loop mcl data u (p + ?len) (n - ?len) (Next_of m) frag2 (map Some ms @ rest) s2 =
      Some (Mapped (var_after (Next_of m) ms frag2) s' rest)" "linked (Next_of m) ms s2 s'"
    "\<forall>k<length ms. m_data (mbufs s' (ms ! k)) = p + ?len + k * mcl \<and>
       m_len (mbufs s' (ms ! k)) = min mcl (n - ?len - k * mcl)"
    "ucells s' = (ucells s2)(u := (fst (ucells s2 u) + of_nat (length ms), snd (ucells s2 u)))"
    using Cons.IH [OF Cons.prems(1) n(2), of "Next_of m" s2 "p + ?len" frag2] by blast
  have run: "map_loop mcl data u p n mp frag (map Some (m # ms) @ rest) s =
      Some (Mapped (var_after mp (m # ms) frag) s' rest)"
    using n(1) st s'(1) unfolding f2
    by (subst map_loop.simps) (simp add: s1_def Let_def var_after_def)
  note l = linked_Cons [OF l2 s'(2) Cons.prems(3) _ Cons.prems(5)]
  have m': "mbufs s' m = (mbufs s2 m)\<lparr>m_next := head_of ms\<rparr>" using l(2) Cons.prems(4) by simp
  have "m_data (mbufs s' ((m # ms) ! k)) = p + k * mcl \<and>
      m_len (mbufs s' ((m # ms) ! k)) = min mcl (n - k * mcl)" if k: "k < length (m # ms)" for k
  proof (cases k)
    case 0
    then show ?thesis by (simp add: m' m2 ext_mbuf_def)
  next
    case (Suc j)
    then have j: "j < length ms" using k by simp
    then have "0 < (n - ?len + mcl - 1) div mcl" using n(2) by linarith
    then have "n - ?len \<noteq> 0" using Cons.prems(1) by (auto simp: div_greater_zero_iff)
    then have "?len = mcl" by simp
    then show ?thesis using s'(3) j Suc by simp
  qed
  moreover have "ucells s' = (ucells s)(u := (fst (ucells s u) + of_nat (length (m # ms)), snd (ucells s u)))"
    using s'(4) by (simp add: u2 s1_def fun_eq_iff)
  ultimately show ?case using run l(1) Cons.prems(4) by auto
qed

lemma map_to_mbuf_ok:
  assumes "0 < mcl" "0 < unat (snd (ucells s u))"
    and "length ms = (unat (snd (ucells s u)) + mcl - 1) div mcl" "distinct ms" "0 \<notin> set ms"
  shows "\<exists>s'. netif_map_to_mbuf mcl m_freem data u (map Some ms @ rest) s = Some (Some (hd ms), s', rest) \<and>
    linked Local_var ms s s' \<and>
    (\<forall>k<length ms. m_data (mbufs s' (ms ! k)) = data + k * mcl \<and>
       m_len (mbufs s' (ms ! k)) = min mcl (unat (snd (ucells s u)) - k * mcl)) \<and>
    fst (ucells s' u) = fst (ucells s u) + of_nat (length ms)"
proof -
  have ne: "ms \<noteq> []" using assms(1-3) by (auto simp: div_eq_0_iff)
  from map_loop_ok [OF assms(1,3-5), of Local_var s data u data None rest]
  obtain s' where "map_loop mcl data u data (unat (snd (ucells s u))) Local_var None (map Some ms @ rest) s =
      Some (Mapped (var_after Local_var ms None) s' rest)" "linked Local_var ms s s'"
    "\<forall>k<length ms. m_data (mbufs s' (ms ! k)) = data + k * mcl \<and>
       m_len (mbufs s' (ms ! k)) = min mcl (unat (snd (ucells s u)) - k * mcl)"
    "ucells s' = (ucells s)(u := (fst (ucells s u) + of_nat (length ms), snd (ucells s u)))"
    by (auto simp: loc_ok_def)
  with ne show ?thesis by (simp add: netif_map_to_mbuf_def var_after_def)
qed


section \<open>Sending a list of buffers\<close>

definition buf_size :: "netif \<Rightarrow> ba_buf \<Rightarrow> nat" where
  "buf_size s b = unat (snd (ucells s (b_data2 b)))"

lemma linked_buf_size: "linked mp ms s s' \<Longrightarrow> buf_size s' = buf_size s"
  by (simp add: linked_def buf_size_def fun_eq_iff)

lemma map_to_mbuf_one:
  assumes "0 < mcl" "1 \<le> buf_size s b" "buf_size s b \<le> mcl" "m \<noteq> 0"
  shows "\<exists>s'. netif_map_to_mbuf mcl m_freem (b_data b) (b_data2 b) (Some m # rest) s = Some (Some m, s', rest) \<and>
    linked Local_var [m] s s' \<and> m_data (mbufs s' m) = b_data b \<and> m_len (mbufs s' m) = buf_size s b"
proof -
  have "(buf_size s b + mcl - 1) div mcl = Suc ((buf_size s b - 1) div mcl)"
    using assms(1,2) by (simp add: le_div_geq)
  then have "length [m] = (buf_size s b + mcl - 1) div mcl"
    using assms by simp
  then obtain s' where "netif_map_to_mbuf mcl m_freem (b_data b) (b_data2 b) (map Some [m] @ rest) s =
      Some (Some (hd [m]), s', rest)" "linked Local_var [m] s s'"
    "\<forall>k<length [m]. m_data (mbufs s' ([m] ! k)) = b_data b + k * mcl \<and>
       m_len (mbufs s' ([m] ! k)) = min mcl (buf_size s b - k * mcl)"
    using map_to_mbuf_ok [OF assms(1), of s "b_data2 b" "[m]" m_freem "b_data b" rest] assms
    by (auto simp: buf_size_def)
  with assms(3) show ?thesis by auto
qed

text \<open>Storing the address of a chain of one mbuf links it.\<close>

lemma store_mp_linked:
  assumes "linked Local_var [m] s s1" "store_mp mp m pkt s1 = (pkt', s2)" "loc_ok mp (m # ms) s"
  shows "linked mp [m] s s2" "pkt' = var_after mp [m] pkt" "mbufs s2 m = mbufs s1 m"
  using assms
  by (auto simp: linked_def store_mp_def loc_ok_def var_after_def split: mp_loc.splits)

lemma put_loop_ok:
  assumes "0 < mcl" "length ms = length bufs" "distinct ms" "0 \<notin> set ms" "loc_ok mp ms s"
    and "\<forall>b\<in>set bufs. 1 \<le> buf_size s b \<and> buf_size s b \<le> mcl"
  shows "\<exists>s'. put_loop mcl m_freem bufs mp pkt len (map Some ms @ rest) s =
      Some (Inr (var_after mp ms pkt, len + sum_list (map (buf_size s) bufs)), s') \<and> linked mp ms s s' \<and>
    (\<forall>k<length ms. m_data (mbufs s' (ms ! k)) = b_data (bufs ! k) \<and>
       m_len (mbufs s' (ms ! k)) = buf_size s (bufs ! k))"
  using assms
proof (induction ms arbitrary: bufs mp pkt len s)
  case Nil
  then show ?case by (auto simp: var_after_def linked_Nil)
next
  case (Cons m ms)
  then obtain b bs where bufs: "bufs = b # bs" "length ms = length bs" by (cases bufs) auto
  from Cons.prems bufs have b: "1 \<le> buf_size s b" "buf_size s b \<le> mcl" and m: "m \<noteq> 0" "m \<notin> set ms" by auto
  obtain s1 where s1: "netif_map_to_mbuf mcl m_freem (b_data b) (b_data2 b) (Some m # map Some ms @ rest) s =
      Some (Some m, s1, map Some ms @ rest)" "linked Local_var [m] s s1"
      "m_data (mbufs s1 m) = b_data b" "m_len (mbufs s1 m) = buf_size s b"
    using map_to_mbuf_one [OF Cons.prems(1) b m(1)] by blast
  obtain pkt2 s2 where st: "store_mp mp m pkt s1 = (pkt2, s2)" by fastforce
  note l2 = store_mp_linked [OF s1(2) st Cons.prems(5)]
  note sz = linked_buf_size [OF l2(1)]
  have nx: "m_next (mbufs s2 m) = 0" using l2(1) by (simp add: linked_def)
  have "loc_ok (Next_of m) ms s2" using nx m(2) by (simp add: loc_ok_def)
  moreover have "distinct ms" "0 \<notin> set ms" using Cons.prems(3,4) by auto
  moreover have "\<forall>b\<in>set bs. 1 \<le> buf_size s2 b \<and> buf_size s2 b \<le> mcl"
    using Cons.prems(6) by (simp add: bufs sz)
  ultimately obtain s' where s': "put_loop mcl m_freem bs (Next_of m) pkt2 (len + buf_size s b) (map Some ms @ rest) s2 =
      Some (Inr (var_after (Next_of m) ms pkt2, len + buf_size s b + sum_list (map (buf_size s2) bs)), s')"
    "linked (Next_of m) ms s2 s'"
    "\<forall>k<length ms. m_data (mbufs s' (ms ! k)) = b_data (bs ! k) \<and>
       m_len (mbufs s' (ms ! k)) = buf_size s2 (bs ! k)"
    using Cons.IH [OF Cons.prems(1) bufs(2)] by blast
  have u: "unat (snd (ucells s2 (b_data2 b))) = buf_size s b"
    using sz by (simp add: buf_size_def fun_eq_iff)
  have "put_loop mcl m_freem bufs mp pkt len (map Some (m # ms) @ rest) s =
      Some (Inr (var_after mp (m # ms) pkt, len + sum_list (map (buf_size s) bufs)), s')"
    using s1(1) st s'(1) by (simp add: bufs u sz l2(2) var_after_def add.assoc)
  moreover note l = linked_Cons [OF l2(1) s'(2) Cons.prems(3) m(1) Cons.prems(5)]
  moreover have "m_data (mbufs s' ((m # ms) ! k)) = b_data (bufs ! k) \<and>
      m_len (mbufs s' ((m # ms) ! k)) = buf_size s (bufs ! k)" if "k < length (m # ms)" for k
    using that s'(3) l(2) s1(3,4) by (cases k) (simp_all add: bufs sz l2(3))
  ultimately show ?case by blast
qed

subsection \<open>Buffers of any size\<close>

text \<open>
  The mbufs \<open>ms\<close> for the buffer \<open>b\<close>: as many as clusters of its size. The link to the next
  buffer is stored in the first mbuf of a fragment, so only the first mbuf of each buffer but
  the last stays in the packet.
\<close>

definition mbufs_for :: "nat \<Rightarrow> netif \<Rightarrow> ba_buf \<Rightarrow> nat list \<Rightarrow> bool" where
  "mbufs_for mcl s b ms \<longleftrightarrow> 1 \<le> buf_size s b \<and> length ms = (buf_size s b + mcl - 1) div mcl"

fun kept :: "nat list list \<Rightarrow> nat list" where
  "kept [] = []"
| "kept (ms # mss) = (if mss = [] then ms else hd ms # kept mss)"

lemma kept_eq: "mss \<noteq> [] \<Longrightarrow> kept mss = map hd (butlast mss) @ last mss"
  by (induction mss) auto

lemma set_kept: "[] \<notin> set mss \<Longrightarrow> set (kept mss) \<subseteq> set (concat mss)"
proof (induction mss)
  case (Cons ms mss)
  then have "hd ms \<in> set ms" by (cases ms) auto
  with Cons show ?case by auto
qed simp

lemma head_kept: "[] \<notin> set (ms # mss) \<Longrightarrow> head_of (kept (ms # mss)) = hd ms"
  by (cases ms) auto

text \<open>What the loop does to the store when it links the buffers after \<open>mp\<close>.\<close>

definition spliced :: "mp_loc \<Rightarrow> nat list list \<Rightarrow> netif \<Rightarrow> netif \<Rightarrow> bool" where
  "spliced mp mss s s' \<longleftrightarrow> frag_chain (mbufs s') (head_of (kept mss)) (kept mss) \<and>
     (\<forall>a. mp = Next_of a \<and> mss \<noteq> [] \<longrightarrow> mbufs s' a = (mbufs s a)\<lparr>m_next := head_of (kept mss)\<rparr>) \<and>
     (\<forall>x. x \<notin> set (concat mss) \<and> (mss = [] \<or> mp \<noteq> Next_of x) \<longrightarrow> mbufs s' x = mbufs s x) \<and>
     (\<forall>x. snd (ucells s' x) = snd (ucells s x)) \<and> pihead s' = pihead s \<and> plugged s' = plugged s \<and>
     sent s' = sent s"

definition holds_buf :: "nat \<Rightarrow> netif \<Rightarrow> netif \<Rightarrow> ba_buf \<Rightarrow> nat list \<Rightarrow> bool" where
  "holds_buf mcl s s' b ms \<longleftrightarrow> (\<forall>j<length ms. m_data (mbufs s' (ms ! j)) = b_data b + j * mcl \<and>
     m_len (mbufs s' (ms ! j)) = min mcl (buf_size s b - j * mcl))"

lemma holds_buf_cong:
  assumes "holds_buf mcl s s1 b ms" "buf_size s' b = buf_size s b"
    "\<forall>m\<in>set ms. m_data (mbufs s2 m) = m_data (mbufs s1 m) \<and> m_len (mbufs s2 m) = m_len (mbufs s1 m)"
  shows "holds_buf mcl s' s2 b ms"
  using assms by (simp add: holds_buf_def)

lemma mbufs_for_ne: "0 < mcl \<Longrightarrow> mbufs_for mcl s b ms \<Longrightarrow> ms \<noteq> []"
  by (auto simp: mbufs_for_def div_eq_0_iff)

lemma list_all2_mbufs_ne: "list_all2 (mbufs_for mcl s) bufs mss \<Longrightarrow> 0 < mcl \<Longrightarrow> [] \<notin> set mss"
  by (induction rule: list_all2_induct) (auto dest: mbufs_for_ne)

text \<open>Linking the mbufs of one buffer, then the rest after its first mbuf.\<close>

lemma spliced_Cons:
  assumes 1: "linked Local_var ms s s1" and st: "store_mp mp (hd ms) pkt s1 = (pkt', s2)"
    and 2: "spliced (Next_of (hd ms)) mss s2 s3"
    and d: "distinct (concat (ms # mss))" "[] \<notin> set (ms # mss)" "\<forall>a. mp = Next_of a \<longrightarrow> a \<notin> set (concat (ms # mss))"
  shows "spliced mp (ms # mss) s s3"
    and "\<forall>m\<in>set ms. m_data (mbufs s3 m) = m_data (mbufs s1 m) \<and> m_len (mbufs s3 m) = m_len (mbufs s1 m)"
proof -
  obtain m t where ms: "ms = m # t" using d(2) by (cases ms) auto
  have s2: "mbufs s2 x = (case mp of Local_var \<Rightarrow> mbufs s1 x
      | Next_of a \<Rightarrow> if x = a then (mbufs s1 a)\<lparr>m_next := m\<rparr> else mbufs s1 x)" for x
    using st by (auto simp: store_mp_def ms split: mp_loc.splits)
  have o2: "ucells s2 = ucells s1" "pihead s2 = pihead s1" "plugged s2 = plugged s1" "sent s2 = sent s1"
    using st by (auto simp: store_mp_def split: mp_loc.splits)
  have in2: "mbufs s2 x = mbufs s1 x" if "x \<in> set (concat (ms # mss))" for x
    using that d(3) by (auto simp: s2 split: mp_loc.splits)
  have m: "mbufs s3 m = (if mss = [] then mbufs s1 m else (mbufs s1 m)\<lparr>m_next := head_of (kept mss)\<rparr>)"
    using 2 d(1) in2 [of m] by (auto simp: spliced_def ms)
  have t: "mbufs s3 x = mbufs s1 x" if "x \<in> set t" for x
  proof -
    have "x \<notin> set (concat mss)" "x \<noteq> m" using d(1) that by (auto simp: ms)
    then have "mbufs s3 x = mbufs s2 x" using 2 by (simp add: spliced_def ms)
    with in2 [of x] that show ?thesis by (simp add: ms)
  qed
  show "\<forall>m\<in>set ms. m_data (mbufs s3 m) = m_data (mbufs s1 m) \<and> m_len (mbufs s3 m) = m_len (mbufs s1 m)"
    using m t by (auto simp: ms)
  have ch1: "frag_chain (mbufs s1) m ms" using 1 by (simp add: linked_def ms)
  have chain: "frag_chain (mbufs s3) (head_of (kept (ms # mss))) (kept (ms # mss))"
  proof (cases "mss = []")
    case True
    then show ?thesis using frag_chain_cong [OF ch1, of "mbufs s3"] m t by (simp add: ms)
  next
    case False
    then show ?thesis using 2 ch1 m by (simp add: spliced_def ms)
  qed
  have after: "mbufs s3 a = (mbufs s a)\<lparr>m_next := head_of (kept (ms # mss))\<rparr>" if "mp = Next_of a" for a
  proof -
    have a: "a \<notin> set (concat (ms # mss))" using d(3) that by blast
    then have "mbufs s3 a = mbufs s2 a" using 2 by (auto simp: spliced_def ms)
    moreover have "mbufs s1 a = mbufs s a" using 1 a by (simp add: linked_def)
    ultimately show ?thesis using that head_kept [OF d(2)] by (simp add: s2 ms)
  qed
  have frame: "mbufs s3 x = mbufs s x" if "x \<notin> set (concat (ms # mss))" "mp \<noteq> Next_of x" for x
  proof -
    have "mbufs s3 x = mbufs s2 x" using 2 that(1) by (auto simp: spliced_def ms)
    also have "\<dots> = mbufs s1 x" using that(2) by (auto simp: s2 split: mp_loc.splits)
    also have "\<dots> = mbufs s x" using 1 that(1) by (simp add: linked_def)
    finally show ?thesis .
  qed
  show "spliced mp (ms # mss) s s3"
    unfolding spliced_def
    using chain after frame 1 2 o2 by (simp add: spliced_def linked_def del: kept.simps)
qed

lemma put_loop_kept:
  assumes "0 < mcl" "list_all2 (mbufs_for mcl s) bufs mss" "distinct (concat mss)" "0 \<notin> set (concat mss)"
    and "\<forall>a. mp = Next_of a \<longrightarrow> a \<notin> set (concat mss)"
  shows "\<exists>s'. put_loop mcl m_freem bufs mp pkt len (map Some (concat mss) @ rest) s =
      Some (Inr (var_after mp (kept mss) pkt, len + sum_list (map (buf_size s) bufs)), s') \<and>
    spliced mp mss s s' \<and> list_all2 (holds_buf mcl s s') bufs mss"
  using assms
proof (induction mss arbitrary: bufs mp pkt len s)
  case Nil
  then show ?case by (auto simp: var_after_def spliced_def)
next
  case (Cons ms mss)
  then obtain b bs where bufs: "bufs = b # bs" "mbufs_for mcl s b ms" "list_all2 (mbufs_for mcl s) bs mss"
    by (cases bufs) auto
  note ne = list_all2_mbufs_ne [OF Cons.prems(2,1)]
  then have hd: "hd ms \<in> set ms" by (cases ms) auto
  have "0 < unat (snd (ucells s (b_data2 b)))"
    "length ms = (unat (snd (ucells s (b_data2 b))) + mcl - 1) div mcl" "distinct ms" "0 \<notin> set ms"
    using bufs(2) Cons.prems(3,4) by (auto simp: mbufs_for_def buf_size_def)
  from map_to_mbuf_ok [OF Cons.prems(1) this, of m_freem "b_data b" "map Some (concat mss) @ rest"]
  obtain s1 where s1: "netif_map_to_mbuf mcl m_freem (b_data b) (b_data2 b)
      (map Some (concat (ms # mss)) @ rest) s = Some (Some (hd ms), s1, map Some (concat mss) @ rest)"
    "linked Local_var ms s s1" "holds_buf mcl s s1 b ms"
    by (auto simp: holds_buf_def buf_size_def)
  obtain pkt2 s2 where st: "store_mp mp (hd ms) pkt s1 = (pkt2, s2)" by fastforce
  then have o2: "ucells s2 = ucells s1" "pkt2 = var_after mp ms pkt"
    using ne by (auto simp: store_mp_def var_after_def split: mp_loc.splits)
  then have sz: "buf_size s2 = buf_size s"
    using s1(2) by (simp add: buf_size_def linked_def fun_eq_iff)
  then have "mbufs_for mcl s2 = mbufs_for mcl s" by (simp add: mbufs_for_def fun_eq_iff)
  then have "list_all2 (mbufs_for mcl s2) bs mss" using bufs(3) by simp
  moreover have "distinct (concat mss)" "0 \<notin> set (concat mss)" "hd ms \<notin> set (concat mss)"
    using Cons.prems(3,4) hd by auto
  ultimately obtain s' where s': "put_loop mcl m_freem bs (Next_of (hd ms)) pkt2 (len + buf_size s b)
        (map Some (concat mss) @ rest) s2 =
      Some (Inr (pkt2, len + buf_size s b + sum_list (map (buf_size s) bs)), s')"
    "spliced (Next_of (hd ms)) mss s2 s'" "list_all2 (holds_buf mcl s2 s') bs mss"
    using Cons.IH [OF Cons.prems(1), of s2 bs "Next_of (hd ms)" pkt2 "len + buf_size s b"]
    by (auto simp: sz var_after_def)
  note sp = spliced_Cons [OF s1(2) st s'(2) Cons.prems(3) ne Cons.prems(5)]
  have u: "unat (snd (ucells s2 (b_data2 b))) = buf_size s b"
    using sz by (simp add: buf_size_def fun_eq_iff)
  have "hd (kept (ms # mss)) = hd ms" "kept (ms # mss) \<noteq> []" "ms \<noteq> []" using ne by auto
  then have "put_loop mcl m_freem bufs mp pkt len (map Some (concat (ms # mss)) @ rest) s =
      Some (Inr (var_after mp (kept (ms # mss)) pkt, len + sum_list (map (buf_size s) bufs)), s')"
    using s1(1) st s'(1) by (simp add: bufs(1) u o2(2) var_after_def add.assoc del: kept.simps)
  moreover have "holds_buf mcl s s' b ms" by (rule holds_buf_cong [OF s1(3) refl sp(2)])
  moreover have "holds_buf mcl s2 s' = holds_buf mcl s s'" by (simp add: holds_buf_def fun_eq_iff sz)
  ultimately show ?case using sp(1) s'(3) bufs(1) by auto
qed

text \<open>The bytes in the mbufs of a buffer, and in the packet.\<close>

lemma sum_fragments:
  "0 < d \<Longrightarrow> k = (n + d - 1) div d \<Longrightarrow> sum_list (map (\<lambda>j. min d (n - j * d)) [0..<k]) = (n :: nat)"
proof (induction k arbitrary: n)
  case 0
  then show ?case by (cases n) (auto simp: div_eq_0_iff)
next
  case (Suc k)
  note c = ceil_div_step [OF Suc.prems]
  have "min d (n - Suc j * d) = min d (n - min d n - j * d)" for j
    by (cases "d \<le> n") (auto simp: diff_diff_eq)
  then have "sum_list (map (\<lambda>j. min d (n - j * d)) [0..<Suc k]) =
      min d n + sum_list (map (\<lambda>j. min d (n - min d n - j * d)) [0..<k])"
    by (simp add: upt_conv_Cons map_Suc_upt [symmetric] comp_def del: upt_Suc mult_Suc)
  also have "\<dots> = n" using Suc.IH [OF Suc.prems(1) c(2)] by simp
  finally show ?case .
qed

lemma holds_buf_bytes:
  assumes "0 < mcl" "mbufs_for mcl s b ms" "holds_buf mcl s s' b ms"
  shows "sum_list (map (\<lambda>m. m_len (mbufs s' m)) ms) = buf_size s b"
    and "m_len (mbufs s' (hd ms)) = min mcl (buf_size s b)"
proof -
  have "map (\<lambda>m. m_len (mbufs s' m)) ms = map (\<lambda>j. min mcl (buf_size s b - j * mcl)) [0..<length ms]"
    using assms(3) by (intro nth_equalityI) (simp_all add: holds_buf_def)
  then show "sum_list (map (\<lambda>m. m_len (mbufs s' m)) ms) = buf_size s b"
    using sum_fragments [OF assms(1), of "length ms" "buf_size s b"] assms(2)
    by (simp add: mbufs_for_def)
  show "m_len (mbufs s' (hd ms)) = min mcl (buf_size s b)"
    using assms(3) mbufs_for_ne [OF assms(1,2)] by (auto simp: holds_buf_def hd_conv_nth)
qed

lemma kept_bytes:
  assumes "0 < mcl"
  shows "list_all2 (mbufs_for mcl s) bufs mss \<Longrightarrow> list_all2 (holds_buf mcl s s') bufs mss \<Longrightarrow>
    sum_list (map (\<lambda>m. m_len (mbufs s' m)) (kept mss)) + sum_list (map (\<lambda>b. buf_size s b - mcl) (butlast bufs)) =
      sum_list (map (buf_size s) bufs)"
proof (induction mss arbitrary: bufs)
  case (Cons ms mss)
  then obtain b bs where bufs: "bufs = b # bs" "mbufs_for mcl s b ms" "holds_buf mcl s s' b ms"
    "list_all2 (mbufs_for mcl s) bs mss" "list_all2 (holds_buf mcl s s') bs mss"
    by (cases bufs) auto
  note h = holds_buf_bytes [OF assms bufs(2,3)]
  show ?case
  proof (cases "mss = []")
    case True
    with bufs h show ?thesis by simp
  next
    case False
    then have "bs \<noteq> []" using bufs(4) by auto
    with False h(2) Cons.IH [OF bufs(4,5)] show ?thesis by (simp add: bufs(1))
  qed
qed simp

section \<open>The driver as a system\<close>

text \<open>\<open>m_freem\<close> frees mbufs: it does not touch the driver's table.\<close>

definition keeps_table :: "(nat \<Rightarrow> netif \<Rightarrow> netif) \<Rightarrow> bool" where
  "keeps_table f \<longleftrightarrow> (\<forall>m s. pihead (f m s) = pihead s \<and> plugged (f m s) = plugged s)"

inductive netif_step :: "netif \<Rightarrow> netif \<Rightarrow> bool" where
  plug: "caml_plug_vif ok vif s = (r, s') \<Longrightarrow> netif_step s s'"
| unplug: "keeps_table m_freem \<Longrightarrow> netif_step s (caml_unplug_vif m_freem vif s)"
| input: "m \<notin> set (queued s) \<Longrightarrow> netif_ether_input ok i m s = Some (m', s') \<Longrightarrow> netif_step s s'"
| get: "caml_get_mbufs i s = Some (l, s') \<Longrightarrow> netif_step s s'"

inductive_cases netif_stepE: "netif_step s s'"

definition netif_start :: "netif \<Rightarrow> bool" where
  "netif_start s \<longleftrightarrow> pihead s = [] \<and> plugged s = 0"

definition netif_inv :: "netif \<Rightarrow> bool" where
  "netif_inv s \<longleftrightarrow> plugged s = int (length (pihead s)) \<and> distinct (queued s)"

lemma fold_keeps_table:
  "keeps_table f \<Longrightarrow> pihead (fold f ms s) = pihead s \<and> plugged (fold f ms s) = plugged s"
  by (induction ms arbitrary: s) (auto simp: keeps_table_def)

lemma netif_inv_plug:
  assumes "netif_inv s" "caml_plug_vif ok vif s = (r, s')"
  shows "netif_inv s'"
  using assms
  by (auto simp: caml_plug_vif_def netif_inv_def queued_def Let_def split: if_splits option.splits)

lemma netif_inv_unplug:
  assumes inv: "netif_inv s" and f: "keeps_table f"
  shows "netif_inv (caml_unplug_vif f vif s)"
proof (cases "find_pi_by_name vif s")
  case None
  then show ?thesis using inv by (simp add: caml_unplug_vif_def)
next
  case (Some pip)
  let ?P = "\<lambda>p. name_eq (pi_xname p) vif"
  have find: "List.find ?P (pihead s) = Some pip" using Some by (simp add: find_pi_by_name_def)
  have pi: "pihead (caml_unplug_vif f vif s) = remove_first ?P (pihead s)"
    "plugged (caml_unplug_vif f vif s) = plugged s - 1"
    by (simp_all add: caml_unplug_vif_def Some fold_keeps_table [OF f])
  have "distinct (queued (caml_unplug_vif f vif s))"
    using inv queued_remove_first(2) [of pi_rx_head "pihead s" ?P]
    by (simp add: netif_inv_def queued_def pi)
  with inv length_remove_first [OF find] show ?thesis
    by (simp add: netif_inv_def pi)
qed


lemma netif_inv_input:
  assumes inv: "netif_inv s" and m: "m \<notin> set (queued s)"
    and res: "netif_ether_input ok i m s = Some (m', s')"
  shows "netif_inv s'"
proof (cases "s' = s")
  case False
  then have s': "s' = s\<lparr>pihead := update_first (\<lambda>p. pi_index p = i)
      (\<lambda>p. p\<lparr>pi_rx_head := m # pi_rx_head p\<rparr>) (pihead s)\<rparr>"
    using res by (auto simp: netif_ether_input_def split: if_splits option.splits)
  have "distinct (concat (map pi_rx_head (update_first (\<lambda>p. pi_index p = i)
      (\<lambda>p. p\<lparr>pi_rx_head := m # pi_rx_head p\<rparr>) (pihead s))))"
    by (rule queued_update_first(2) [where m = m]) (use inv m in \<open>auto simp: netif_inv_def queued_def\<close>)
  then have "distinct (queued s')" by (simp add: s' queued_def)
  with inv show ?thesis by (simp add: netif_inv_def s')
qed (use inv in simp)

lemma netif_inv_get:
  assumes inv: "netif_inv s" and res: "caml_get_mbufs i s = Some (l, s')"
  shows "netif_inv s'"
proof (cases "s' = s")
  case False
  then have s': "s' = s\<lparr>pihead := update_first (\<lambda>p. pi_index p = i)
      (\<lambda>p. p\<lparr>pi_rx_head := []\<rparr>) (pihead s)\<rparr>"
    using res by (auto simp: caml_get_mbufs_def split: if_splits option.splits)
  obtain m where "m \<notin> set (queued s)" using ex_new_if_finite [of "set (queued s)"] by auto
  then have "distinct (concat (map pi_rx_head (update_first (\<lambda>p. pi_index p = i)
      (\<lambda>p. p\<lparr>pi_rx_head := []\<rparr>) (pihead s))))"
    by (intro queued_update_first(2) [where m = m]) (use inv in \<open>auto simp: netif_inv_def queued_def\<close>)
  then have "distinct (queued s')" by (simp add: s' queued_def)
  with inv show ?thesis by (simp add: netif_inv_def s')
qed (use inv in simp)

interpretation netif: invariant_system netif_start netif_step netif_inv
proof
  fix s
  assume "netif_start s"
  then show "netif_inv s" by (simp add: netif_start_def netif_inv_def queued_def)
next
  fix s s'
  assume "netif_inv s" "netif_step s s'"
  then show "netif_inv s'"
    by (auto elim!: netif_stepE intro: netif_inv_plug netif_inv_unplug netif_inv_input netif_inv_get)
qed

section \<open>Properties\<close>

text \<open>Receiving the packets \<open>ms\<close> on one interface, in order.\<close>

fun receive_all :: "nat \<Rightarrow> nat list \<Rightarrow> netif \<Rightarrow> netif option" where
  "receive_all i [] s = Some s"
| "receive_all i (m # ms) s =
     Option.bind (netif_ether_input True i m s) (\<lambda>(mp, s1). receive_all i ms s1)"

lemma find_pi_update_first:
  assumes "find_pi_by_index i s = Some pip" "\<And>p. pi_index (f p) = pi_index p"
  shows "find_pi_by_index i (s\<lparr>pihead := update_first (\<lambda>p. pi_index p = i) f (pihead s)\<rparr>) = Some (f pip)"
  using assms find_update_first [of "\<lambda>p. pi_index p = i" f "pihead s"] by (simp add: find_pi_by_index_def)

lemma receive_all_queue:
  assumes "find_pi_by_index i s = Some pip" "plugged s \<noteq> 0"
  shows "\<exists>s'. receive_all i ms s = Some s' \<and> plugged s' = plugged s \<and> mbufs s' = mbufs s \<and>
    find_pi_by_index i s' = Some (pip\<lparr>pi_rx_head := rev ms @ pi_rx_head pip\<rparr>)"
  using assms
proof (induction ms arbitrary: s pip)
  case (Cons m ms)
  let ?f = "\<lambda>p. p\<lparr>pi_rx_head := m # pi_rx_head p\<rparr>"
  let ?s = "s\<lparr>pihead := update_first (\<lambda>p. pi_index p = i) ?f (pihead s)\<rparr>"
  have "find_pi_by_index i ?s = Some (?f pip)"
    by (rule find_pi_update_first [OF Cons.prems(1)]) simp
  from Cons.IH [OF this] Cons.prems show ?case by (simp add: netif_ether_input_def)
qed simp

text \<open>A driver with one plugged interface and packets of one fragment at 100 and 200.\<close>

definition demo_netif :: netif where
  "demo_netif = \<lparr>pihead = [\<lparr>pi_ifp = 3, pi_index = 3, pi_llindex = 1, pi_up = True, pi_lladdr = [],
       pi_xname = ''em0'', pi_rx_head = []\<rparr>],
     plugged = 1, V_ifnet = [], mbufs = (\<lambda>_. ext_mbuf 0 60 0 0),
     ucells = (\<lambda>a. (1, if a = 8 then 4 else 2)), contig_freed = [], sent = []\<rparr>"

text \<open>
  C34. In every reachable state of the driver, whatever the order of plugs, unplugs, received
  packets and reads, \<open>plugged\<close> counts the entries of the table and no packet is in two
  queues or twice in one.
\<close>

theorem netif_table_consistent:
  assumes "reachable netif_start netif_step s"
  shows "plugged s = int (length (pihead s)) \<and> distinct (queued s)"
  using netif.reachable_inv [OF assms] by (simp add: netif_inv_def)

definition demo_ether :: ifnet where
  "demo_ether = \<lparr>if_xname = ''em0'', if_index = 3, if_up = True, ac_netgraph = False,
     if_addrhead = [Some \<lparr>sdl_is_ether = True, sdl_llindex = 1, sdl_lladdr = replicate 8 0\<rparr>]\<rparr>"

definition demo_plugged :: netif where
  "demo_plugged = snd (caml_plug_vif True ''em0'' (demo_netif\<lparr>pihead := [], plugged := 0, V_ifnet := [demo_ether]\<rparr>))"

lemma demo_plugged_reachable: "reachable netif_start netif_step demo_plugged"
proof (rule reachable_step)
  let ?s = "demo_netif\<lparr>pihead := [], plugged := 0, V_ifnet := [demo_ether]\<rparr>"
  show "reachable netif_start netif_step ?s"
    by (rule reachable_init) (simp add: netif_start_def)
  show "netif_step ?s demo_plugged"
    unfolding demo_plugged_def by (rule plug) (rule prod.collapse [symmetric])
qed

theorem netif_table_consistent_witness:
  "plugged demo_plugged = 1 \<and> plugged demo_plugged = int (length (pihead demo_plugged)) \<and>
   distinct (queued demo_plugged)"
  using netif_table_consistent [OF demo_plugged_reachable]
  by (simp add: demo_plugged_def caml_plug_vif_def demo_ether_def name_eq_def ether_addr_def)

text \<open>
  C31. Packets are delivered in order of arrival and once: after the packets \<open>ms\<close>, with
  fragments \<open>mss\<close>, arrived on a plugged interface with an empty queue, \<open>caml_get_mbufs\<close>
  returns the packets oldest first (each packet's fragments last to first), and a second
  call returns nothing.
\<close>

theorem get_mbufs_in_order:
  assumes "find_pi_by_index i s = Some pip" "pi_rx_head pip = []" "plugged s \<noteq> 0"
    and "list_all2 (single_packet (mbufs s)) ms mss"
  shows "\<exists>s1 s2. receive_all i ms s = Some s1 \<and>
    caml_get_mbufs i s1 = Some (concat (map (\<lambda>fs. rev (map (\<lambda>m. (m, m_len (mbufs s m))) fs)) mss), s2) \<and>
    caml_get_mbufs i s2 = Some ([], s2)"
proof -
  obtain s1 where s1: "receive_all i ms s = Some s1" "plugged s1 = plugged s" "mbufs s1 = mbufs s"
    "find_pi_by_index i s1 = Some (pip\<lparr>pi_rx_head := rev ms\<rparr>)"
    using receive_all_queue [OF assms(1,3), of ms] assms(2) by auto
  let ?s2 = "s1\<lparr>pihead := update_first (\<lambda>p. pi_index p = i) (\<lambda>p. p\<lparr>pi_rx_head := []\<rparr>) (pihead s1)\<rparr>"
  have q: "get_queue (mbufs s) (rev ms) [] = Some (rev (map (\<lambda>m. (m, m_len (mbufs s m))) (concat (rev mss))))"
    using get_queue_packets [of "mbufs s" "rev ms" "rev mss" "[]"] assms(4) by simp
  have g: "caml_get_mbufs i s1 =
      Some (concat (map (\<lambda>fs. rev (map (\<lambda>m. (m, m_len (mbufs s m))) fs)) mss), ?s2)"
    using assms(3) s1 q by (simp add: caml_get_mbufs_def rev_concat map_concat rev_map comp_def)
  have "find_pi_by_index i ?s2 = Some (pip\<lparr>pi_rx_head := []\<rparr>)"
    using find_pi_update_first [OF s1(4), of "\<lambda>p. p\<lparr>pi_rx_head := []\<rparr>"] by simp
  then obtain l where "find_pi_by_index i ?s2 = Some (pip\<lparr>pi_rx_head := []\<rparr>)" by blast
  have idem: "update_first P (\<lambda>p. p\<lparr>pi_rx_head := []\<rparr>) (update_first P (\<lambda>p. p\<lparr>pi_rx_head := []\<rparr>) xs) =
      update_first P (\<lambda>p. p\<lparr>pi_rx_head := []\<rparr>) xs" if "\<And>p. P (p\<lparr>pi_rx_head := []\<rparr>) = P p" for P xs
    using that by (induction xs) auto
  have "caml_get_mbufs i ?s2 = Some ([], ?s2)"
    using \<open>find_pi_by_index i ?s2 = _\<close> assms(3) s1(2) by (simp add: caml_get_mbufs_def idem)
  with s1(1) g show ?thesis by blast
qed

theorem get_mbufs_in_order_witness:
  "\<exists>s1 s2. receive_all 3 [100, 200] demo_netif = Some s1 \<and>
    caml_get_mbufs 3 s1 = Some ([(100, 60), (200, 60)], s2) \<and> caml_get_mbufs 3 s2 = Some ([], s2)"
  using get_mbufs_in_order [of 3 demo_netif _ "[100, 200]" "[[100], [200]]"]
  by (simp add: demo_netif_def find_pi_by_index_def single_packet_def ext_mbuf_def)

text \<open>
  C35. Mapping an OCaml buffer to mbufs covers it exactly: with memory for the fragments, the
  chain has one mbuf per \<open>mclbytes\<close> bytes of the size in the buffer's cell, fragment \<open>k\<close>
  starts at offset \<open>k * mclbytes\<close> and is full except the last, and the buffer's reference
  count grows by the number of fragments.
\<close>

theorem map_to_mbuf_covers:
  assumes "0 < mclbytes" "sz = unat (snd (ucells s u))" "0 < sz"
    and "length ms = (sz + mclbytes - 1) div mclbytes" "distinct ms" "0 \<notin> set ms"
  shows "\<exists>s'. netif_map_to_mbuf mclbytes m_freem data u (map Some ms @ rest) s = Some (Some (hd ms), s', rest) \<and>
    frag_chain (mbufs s') (hd ms) ms \<and>
    (\<forall>k<length ms. m_data (mbufs s' (ms ! k)) = data + k * mclbytes \<and>
       m_len (mbufs s' (ms ! k)) = min mclbytes (sz - k * mclbytes)) \<and>
    fst (ucells s' u) = fst (ucells s u) + of_nat (length ms)"
proof -
  have ne: "ms \<noteq> []" using assms(1,3,4) by (auto simp: div_eq_0_iff)
  then have "head_of ms = hd ms" by (cases ms) simp_all
  with map_to_mbuf_ok [OF assms(1), of s u ms m_freem data rest] assms show ?thesis
    by (auto simp: linked_def)
qed

theorem map_to_mbuf_covers_witness:
  "\<exists>s'. netif_map_to_mbuf 3 (\<lambda>_ s. s) 5000 8 [Some 100, Some 200] demo_netif = Some (Some 100, s', []) \<and>
    frag_chain (mbufs s') 100 [100, 200] \<and> m_data (mbufs s' 200) = 5003 \<and> m_len (mbufs s' 200) = 1 \<and>
    fst (ucells s' 8) = 3"
proof -
  have "0 < (3 :: nat)" "4 = unat (snd (ucells demo_netif 8))" "0 < (4 :: nat)"
    "length [100, 200 :: nat] = (4 + 3 - 1) div 3" "distinct [100, 200 :: nat]" "0 \<notin> set [100, 200 :: nat]"
    by (simp_all add: demo_netif_def)
  from map_to_mbuf_covers [OF this, of "\<lambda>_ s. s" 5000 "[]"] obtain s' where
    "netif_map_to_mbuf 3 (\<lambda>_ s. s) 5000 8 (map Some [100, 200] @ []) demo_netif = Some (Some (hd [100, 200]), s', [])"
    "frag_chain (mbufs s') (hd [100, 200]) [100, 200]"
    and k: "\<forall>k<length [100, 200 :: nat]. m_data (mbufs s' ([100, 200] ! k)) = 5000 + k * 3 \<and>
       m_len (mbufs s' ([100, 200] ! k)) = min 3 (4 - k * 3)"
    and "fst (ucells s' 8) = fst (ucells demo_netif 8) + of_nat (length [100, 200 :: nat])" by blast
  moreover from k have "m_data (mbufs s' ([100, 200] ! 1)) = 5000 + 1 * 3 \<and>
       m_len (mbufs s' ([100, 200] ! 1)) = min 3 (4 - 1 * 3)" by (rule allE [where x = 1]) simp
  ultimately show ?thesis by (simp add: demo_netif_def)
qed

text \<open>
  C30. Sending buffers that each fit one cluster hands the kernel exactly one packet, on the
  interface asked for: its fragments are the buffers in order, at their data addresses and
  with their sizes, and its header length is the sum of the sizes.
\<close>

theorem put_mbufs_sends:
  assumes "0 < mclbytes" "bufs \<noteq> []" "plugged s \<noteq> 0" "find_pi_by_index i s = Some pip"
    and "length ms = length bufs" "distinct ms" "0 \<notin> set ms"
    and "\<forall>b\<in>set bufs. 1 \<le> buf_size s b \<and> buf_size s b \<le> mclbytes"
  shows "\<exists>s'. caml_put_mbufs mclbytes m_freem (map Some ms @ rest) i bufs s = Some (Inr (), s') \<and>
    sent s' = sent s @ [(pi_ifp pip, hd ms)] \<and> frag_chain (mbufs s') (hd ms) ms \<and>
    m_pkthdr_len (mbufs s' (hd ms)) = Some (sum_list (map (buf_size s) bufs)) \<and>
    (\<forall>k<length ms. m_data (mbufs s' (ms ! k)) = b_data (bufs ! k) \<and>
       m_len (mbufs s' (ms ! k)) = buf_size s (bufs ! k))"
proof -
  have ne: "ms \<noteq> []" using assms(2,5) by auto
  then have hd: "head_of ms = hd ms" by (cases ms) simp_all
  obtain s1 where s1: "put_loop mclbytes m_freem bufs Local_var None 0 (map Some ms @ rest) s =
      Some (Inr (Some (hd ms), sum_list (map (buf_size s) bufs)), s1)" "linked Local_var ms s s1"
    "\<forall>k<length ms. m_data (mbufs s1 (ms ! k)) = b_data (bufs ! k) \<and>
       m_len (mbufs s1 (ms ! k)) = buf_size s (bufs ! k)"
    using put_loop_ok [OF assms(1,5-7) _ assms(8), of Local_var m_freem None 0 rest] ne
    by (auto simp: loc_ok_def var_after_def)
  let ?mb = "(mbufs s1)(hd ms := (mbufs s1 (hd ms))\<lparr>m_pkthdr_len := Some (sum_list (map (buf_size s) bufs))\<rparr>)"
  have "frag_chain (mbufs s1) (hd ms) ms" using s1(2) hd by (simp add: linked_def)
  then have "frag_chain ?mb (hd ms) ms" by (rule frag_chain_cong) simp
  moreover have "m_data (?mb x) = m_data (mbufs s1 x)" "m_len (?mb x) = m_len (mbufs s1 x)" for x
    by simp_all
  ultimately show ?thesis
    using assms(2-4) s1
    by (simp add: caml_put_mbufs_def Let_def linked_def fun_upd_same del: fun_upd_apply)
qed

theorem put_mbufs_sends_witness:
  "\<exists>s'. caml_put_mbufs 2048 (\<lambda>_ s. s) [Some 100, Some 200] 3 [\<lparr>b_data = 5000, b_data2 = 8\<rparr>, \<lparr>b_data = 6000, b_data2 = 16\<rparr>]
      demo_netif = Some (Inr (), s') \<and> sent s' = [(3, 100)] \<and> frag_chain (mbufs s') 100 [100, 200] \<and>
    m_pkthdr_len (mbufs s' 100) = Some 6"
proof -
  have "find_pi_by_index 3 demo_netif = Some (hd (pihead demo_netif))"
    by (simp add: find_pi_by_index_def demo_netif_def)
  from put_mbufs_sends [of 2048 "[\<lparr>b_data = 5000, b_data2 = 8\<rparr>, \<lparr>b_data = 6000, b_data2 = 16\<rparr>]",
      OF _ _ _ this, of "[100, 200]" "\<lambda>_ s. s" "[]"]
  show ?thesis by (auto simp: buf_size_def demo_netif_def)
qed

text \<open>
  C39. The packet loses bytes when a buffer larger than a cluster is followed by another
  one. With memory for the fragments \<open>mss\<close> of any buffers, the packet handed to the kernel
  has all the mbufs of the last buffer but only the first mbuf of each other one, because the
  link to the next buffer overwrites the link to the second mbuf of the fragment; the header
  still counts every byte, so it exceeds the bytes in the chain by what the buffers before the
  last have beyond one cluster.
\<close>

theorem put_mbufs_drops_fragment:
  assumes "0 < mclbytes" "bufs \<noteq> []" "plugged s \<noteq> 0" "find_pi_by_index i s = Some pip"
    and "list_all2 (mbufs_for mclbytes s) bufs mss" "distinct (concat mss)" "0 \<notin> set (concat mss)"
  shows "\<exists>s' chain. caml_put_mbufs mclbytes m_freem (map Some (concat mss) @ rest) i bufs s = Some (Inr (), s') \<and>
    chain = map hd (butlast mss) @ last mss \<and>
    sent s' = sent s @ [(pi_ifp pip, hd chain)] \<and> frag_chain (mbufs s') (hd chain) chain \<and>
    m_pkthdr_len (mbufs s' (hd chain)) = Some (sum_list (map (buf_size s) bufs)) \<and>
    sum_list (map (\<lambda>m. m_len (mbufs s' m)) chain) + sum_list (map (\<lambda>b. buf_size s b - mclbytes) (butlast bufs)) =
      sum_list (map (buf_size s) bufs)"
proof -
  let ?c = "kept mss" and ?total = "sum_list (map (buf_size s) bufs)"
  obtain s1 where s1: "put_loop mclbytes m_freem bufs Local_var None 0 (map Some (concat mss) @ rest) s =
      Some (Inr (var_after Local_var ?c None, ?total), s1)" "spliced Local_var mss s s1"
    "list_all2 (holds_buf mclbytes s s1) bufs mss"
    using put_loop_kept [OF assms(1,5-7), of Local_var m_freem None 0 rest] by auto
  have mss: "mss \<noteq> []" using assms(2,5) by auto
  have "last mss \<noteq> []"
    using list_all2_mbufs_ne [OF assms(5,1)] mss by (metis last_in_set)
  then have ne: "?c \<noteq> []" by (simp add: kept_eq [OF mss])
  then have hd: "head_of ?c = hd ?c" by (cases ?c) simp_all
  let ?s2 = "s1\<lparr>mbufs := (mbufs s1)(hd ?c := (mbufs s1 (hd ?c))\<lparr>m_pkthdr_len := Some ?total\<rparr>),
    sent := sent s1 @ [(pi_ifp pip, hd ?c)]\<rparr>"
  have "frag_chain (mbufs s1) (hd ?c) ?c" using s1(2) hd by (simp add: spliced_def)
  then have "frag_chain (mbufs ?s2) (hd ?c) ?c" by (rule frag_chain_cong) simp
  moreover have "map (\<lambda>m. m_len (mbufs ?s2 m)) ?c = map (\<lambda>m. m_len (mbufs s1 m)) ?c" by simp
  moreover note kept_bytes [OF assms(1,5) s1(3)]
  moreover have "caml_put_mbufs mclbytes m_freem (map Some (concat mss) @ rest) i bufs s = Some (Inr (), ?s2)"
    using assms(2-4) s1(1) ne by (simp add: caml_put_mbufs_def Let_def var_after_def)
  moreover have "sent ?s2 = sent s @ [(pi_ifp pip, hd ?c)]" using s1(2) by (simp add: spliced_def)
  moreover have "m_pkthdr_len (mbufs ?s2 (hd ?c)) = Some ?total" by simp
  ultimately show ?thesis unfolding kept_eq [OF mss, symmetric] by metis
qed

theorem put_mbufs_drops_fragment_witness:
  "\<exists>s'. caml_put_mbufs 2 (\<lambda>_ s. s) [Some 100, Some 200, Some 300] 3
      [\<lparr>b_data = 5000, b_data2 = 8\<rparr>, \<lparr>b_data = 6000, b_data2 = 16\<rparr>] demo_netif = Some (Inr (), s') \<and>
    sent s' = [(3, 100)] \<and> m_pkthdr_len (mbufs s' 100) = Some 6 \<and> frag_chain (mbufs s') 100 [100, 300] \<and>
    m_len (mbufs s' 100) + m_len (mbufs s' 300) = 4"
proof -
  have "find_pi_by_index 3 demo_netif = Some (hd (pihead demo_netif))"
    by (simp add: find_pi_by_index_def demo_netif_def)
  from put_mbufs_drops_fragment [of 2 "[\<lparr>b_data = 5000, b_data2 = 8\<rparr>, \<lparr>b_data = 6000, b_data2 = 16\<rparr>]",
      OF _ _ _ this, of "[[100, 200], [300]]" "\<lambda>_ s. s" "[]"]
  show ?thesis by (auto simp: mbufs_for_def buf_size_def demo_netif_def)
qed

end
