(* ===== verification/Serial.thy ===== *)
theory Serial
  imports Values
begin

text \<open>
  The byte-level writers and readers of marshalled data (the end of \<open>extern.c\<close>, the
  macros and the end of \<open>intern.c\<close>, \<open>reverse.h\<close>). The output buffer is the list of bytes
  written so far (growing it does not change its contents), the input is the list of bytes
  still to be read; reading past its end is \<open>None\<close>. Integers are stored most significant
  byte first, the host being little-endian.
\<close>

type_synonym bytes = "u8 list"

section \<open>Reversing blocks\<close>

definition Reverse_16 :: "bytes \<Rightarrow> bytes" where
  "Reverse_16 p = [p ! 1, p ! 0]"

definition Reverse_32 :: "bytes \<Rightarrow> bytes" where
  "Reverse_32 p = [p ! 3, p ! 2, p ! 1, p ! 0]"

definition Reverse_64 :: "bytes \<Rightarrow> bytes" where
  "Reverse_64 p = [p ! 7, p ! 6, p ! 5, p ! 4, p ! 3, p ! 2, p ! 1, p ! 0]"

text \<open>The representation of an 8-byte integer in memory.\<close>

definition le_bytes8 :: "u64 \<Rightarrow> bytes" where
  "le_bytes8 i = [ucast i, ucast (drop_bit 8 i), ucast (drop_bit 16 i), ucast (drop_bit 24 i),
     ucast (drop_bit 32 i), ucast (drop_bit 40 i), ucast (drop_bit 48 i), ucast (drop_bit 56 i)]"

definition of_le_bytes8 :: "bytes \<Rightarrow> u64" where
  "of_le_bytes8 p = foldr (\<lambda>b i. push_bit 8 i + ucast b) p 0"

section \<open>Writing\<close>

definition caml_serialize_int_1 :: "u32 \<Rightarrow> bytes \<Rightarrow> bytes" where
  "caml_serialize_int_1 i out = out @ [ucast i]"

definition caml_serialize_int_2 :: "u32 \<Rightarrow> bytes \<Rightarrow> bytes" where
  "caml_serialize_int_2 i out = out @ [ucast (signed_drop_bit 8 i), ucast i]"

definition caml_serialize_int_4 :: "u32 \<Rightarrow> bytes \<Rightarrow> bytes" where
  "caml_serialize_int_4 i out =
     out @ [ucast (signed_drop_bit 24 i), ucast (signed_drop_bit 16 i),
            ucast (signed_drop_bit 8 i), ucast i]"

definition caml_serialize_block_1 :: "bytes \<Rightarrow> nat \<Rightarrow> bytes \<Rightarrow> bytes" where
  "caml_serialize_block_1 data len out = out @ take len data"

text \<open>The loops that reverse each of the \<open>len\<close> items of \<open>n\<close> bytes.\<close>

fun reverse_items :: "(bytes \<Rightarrow> bytes) \<Rightarrow> nat \<Rightarrow> nat \<Rightarrow> bytes \<Rightarrow> bytes" where
  "reverse_items rv n 0 p = []"
| "reverse_items rv n (Suc len) p = rv (take n p) @ reverse_items rv n len (drop n p)"

definition caml_serialize_block_2 :: "bytes \<Rightarrow> nat \<Rightarrow> bytes \<Rightarrow> bytes" where
  "caml_serialize_block_2 data len out = out @ reverse_items Reverse_16 2 len data"

definition caml_serialize_block_4 :: "bytes \<Rightarrow> nat \<Rightarrow> bytes \<Rightarrow> bytes" where
  "caml_serialize_block_4 data len out = out @ reverse_items Reverse_32 4 len data"

definition caml_serialize_block_8 :: "bytes \<Rightarrow> nat \<Rightarrow> bytes \<Rightarrow> bytes" where
  "caml_serialize_block_8 data len out = out @ reverse_items Reverse_64 8 len data"

definition caml_serialize_int_8 :: "u64 \<Rightarrow> bytes \<Rightarrow> bytes" where
  "caml_serialize_int_8 i out = caml_serialize_block_8 (le_bytes8 i) 1 out"

section \<open>Reading\<close>

definition Sign_extend :: "u8 \<Rightarrow> u64" where
  "Sign_extend x = signed_drop_bit 56 (push_bit 56 (ucast x))"

definition read8u :: "bytes \<Rightarrow> (u64 \<times> bytes) option" where
  "read8u src = (case src of a # src \<Rightarrow> Some (ucast a, src) | _ \<Rightarrow> None)"

definition read8s :: "bytes \<Rightarrow> (u64 \<times> bytes) option" where
  "read8s src = (case src of a # src \<Rightarrow> Some (Sign_extend a, src) | _ \<Rightarrow> None)"

definition read16u :: "bytes \<Rightarrow> (u64 \<times> bytes) option" where
  "read16u src = (case src of a # b # src \<Rightarrow> Some (push_bit 8 (ucast a) + ucast b, src) | _ \<Rightarrow> None)"

definition read16s :: "bytes \<Rightarrow> (u64 \<times> bytes) option" where
  "read16s src = (case src of a # b # src \<Rightarrow> Some (push_bit 8 (Sign_extend a) + ucast b, src) | _ \<Rightarrow> None)"

definition read32u :: "bytes \<Rightarrow> (u64 \<times> bytes) option" where
  "read32u src =
     (case src of a # b # c # d # src \<Rightarrow>
        Some (push_bit 24 (ucast a) + push_bit 16 (ucast b) + push_bit 8 (ucast c) + ucast d, src)
      | _ \<Rightarrow> None)"

definition read32s :: "bytes \<Rightarrow> (u64 \<times> bytes) option" where
  "read32s src =
     (case src of a # b # c # d # src \<Rightarrow>
        Some (push_bit 24 (Sign_extend a) + push_bit 16 (ucast b) + push_bit 8 (ucast c) + ucast d, src)
      | _ \<Rightarrow> None)"

fun read64_loop :: "nat \<Rightarrow> u64 \<Rightarrow> bytes \<Rightarrow> (u64 \<times> bytes) option" where
  "read64_loop 0 res src = Some (res, src)"
| "read64_loop (Suc i) res src =
     (case src of a # src \<Rightarrow> read64_loop i (push_bit 8 res + ucast a) src | [] \<Rightarrow> None)"

definition read64s :: "bytes \<Rightarrow> (u64 \<times> bytes) option" where
  "read64s src = read64_loop 8 0 src"

definition caml_deserialize_uint_1 :: "bytes \<Rightarrow> (u64 \<times> bytes) option" where
  "caml_deserialize_uint_1 = read8u"

definition caml_deserialize_sint_1 :: "bytes \<Rightarrow> (u64 \<times> bytes) option" where
  "caml_deserialize_sint_1 = read8s"

definition caml_deserialize_uint_2 :: "bytes \<Rightarrow> (u64 \<times> bytes) option" where
  "caml_deserialize_uint_2 = read16u"

definition caml_deserialize_sint_2 :: "bytes \<Rightarrow> (u64 \<times> bytes) option" where
  "caml_deserialize_sint_2 = read16s"

definition caml_deserialize_uint_4 :: "bytes \<Rightarrow> (u32 \<times> bytes) option" where
  "caml_deserialize_uint_4 src = map_option (map_prod ucast id) (read32u src)"

definition caml_deserialize_sint_4 :: "bytes \<Rightarrow> (u32 \<times> bytes) option" where
  "caml_deserialize_sint_4 src = map_option (map_prod ucast id) (read32s src)"

definition caml_deserialize_block_1 :: "nat \<Rightarrow> bytes \<Rightarrow> (bytes \<times> bytes) option" where
  "caml_deserialize_block_1 len src = (if len \<le> length src then Some (take len src, drop len src) else None)"

definition deserialize_items :: "(bytes \<Rightarrow> bytes) \<Rightarrow> nat \<Rightarrow> nat \<Rightarrow> bytes \<Rightarrow> (bytes \<times> bytes) option" where
  "deserialize_items rv n len src =
     (if n * len \<le> length src then Some (reverse_items rv n len src, drop (n * len) src) else None)"

definition caml_deserialize_block_2 :: "nat \<Rightarrow> bytes \<Rightarrow> (bytes \<times> bytes) option" where
  "caml_deserialize_block_2 = deserialize_items Reverse_16 2"

definition caml_deserialize_block_4 :: "nat \<Rightarrow> bytes \<Rightarrow> (bytes \<times> bytes) option" where
  "caml_deserialize_block_4 = deserialize_items Reverse_32 4"

definition caml_deserialize_block_8 :: "nat \<Rightarrow> bytes \<Rightarrow> (bytes \<times> bytes) option" where
  "caml_deserialize_block_8 = deserialize_items Reverse_64 8"

definition caml_deserialize_sint_8 :: "bytes \<Rightarrow> (u64 \<times> bytes) option" where
  "caml_deserialize_sint_8 src = map_option (map_prod of_le_bytes8 id) (caml_deserialize_block_8 1 src)"

definition caml_deserialize_uint_8 :: "bytes \<Rightarrow> (u64 \<times> bytes) option" where
  "caml_deserialize_uint_8 = caml_deserialize_sint_8"

section \<open>The contract of a codec\<close>

text \<open>Reading \<open>n\<close> items with a reader.\<close>

fun read_items :: "(bytes \<Rightarrow> ('a \<times> bytes) option) \<Rightarrow> nat \<Rightarrow> bytes \<Rightarrow> ('a list \<times> bytes) option" where
  "read_items rd 0 src = Some ([], src)"
| "read_items rd (Suc n) src =
     Option.bind (rd src) (\<lambda>(x, src1). map_option (map_prod (Cons x) id) (read_items rd n src1))"

text \<open>
  A codec writes a value at the end of the output without looking at what is there, and
  reads back from the front what it wrote, whatever follows.
\<close>

locale byte_codec =
  fixes wr :: "'a \<Rightarrow> bytes \<Rightarrow> bytes"
    and rd :: "bytes \<Rightarrow> ('a \<times> bytes) option"
    and valid :: "'a \<Rightarrow> bool"
  assumes appends: "wr x out = out @ wr x []"
    and reads: "valid x \<Longrightarrow> rd (wr x [] @ rest) = Some (x, rest)"
begin

lemma fold_wr: "fold wr xs out = out @ fold wr xs []"
proof (induction xs arbitrary: out)
  case (Cons x xs)
  have "fold wr (x # xs) out = (out @ wr x []) @ fold wr xs []"
    using Cons [of "wr x out"] by (simp add: appends [of x out])
  also have "\<dots> = out @ fold wr (x # xs) []"
    using Cons [of "wr x []"] by simp
  finally show ?case .
qed simp

lemma read_items_fold:
  "\<forall>x\<in>set xs. valid x \<Longrightarrow> read_items rd (length xs) (fold wr xs [] @ rest) = Some (xs, rest)"
proof (induction xs)
  case (Cons x xs)
  have "fold wr (x # xs) [] @ rest = wr x [] @ (fold wr xs [] @ rest)"
    using fold_wr [of xs "wr x []"] by simp
  with Cons show ?case by (simp add: reads)
qed simp

end

section \<open>The codecs of the integers\<close>

lemma bit_Sign_extend: "bit (Sign_extend a) k \<longleftrightarrow> k < 64 \<and> bit a (min k 7)"
  by (auto simp: Sign_extend_def bit_simps min_def dest: bit_imp_le_length)

text \<open>Disjoint bytes add up without carries.\<close>

lemma plus_disjoint: "x AND y = 0 \<Longrightarrow> x + y = x OR y" for x y :: "'a::len word"
  by (rule disjunctive_add) (metis bit_and_iff bit_0_eq bot_apply bot_bool_def)

lemma byte_plus: "push_bit 8 x + ucast (b :: u8) = push_bit 8 x OR ucast b" for x :: u64
  by (rule plus_disjoint, rule bit_eqI) (auto simp: bit_simps dest: bit_imp_le_length)

lemma join4:
  "push_bit 24 A + push_bit 16 (ucast (b :: u8)) + push_bit 8 (ucast (c :: u8)) + ucast (d :: u8) =
   push_bit 24 A OR push_bit 16 (ucast b) OR push_bit 8 (ucast c) OR ucast d" for A :: u64
proof -
  have 1: "push_bit 24 A + push_bit 16 (ucast b) = push_bit 24 A OR push_bit 16 (ucast b)"
    by (rule plus_disjoint, rule bit_eqI) (auto simp: bit_simps dest: bit_imp_le_length)
  have 2: "(push_bit 24 A OR push_bit 16 (ucast b)) + push_bit 8 (ucast c) =
      (push_bit 24 A OR push_bit 16 (ucast b)) OR push_bit 8 (ucast c)"
    by (rule plus_disjoint, rule bit_eqI) (auto simp: bit_simps dest: bit_imp_le_length)
  have 3: "(push_bit 24 A OR push_bit 16 (ucast b) OR push_bit 8 (ucast c)) + ucast d =
      (push_bit 24 A OR push_bit 16 (ucast b) OR push_bit 8 (ucast c)) OR ucast d"
    by (rule plus_disjoint, rule bit_eqI) (auto simp: bit_simps dest: bit_imp_le_length)
  show ?thesis by (simp only: 1 2 3 or.assoc)
qed

lemma split4:
  "ucast (push_bit 24 A OR push_bit 16 (ucast (ucast (signed_drop_bit 16 i) :: u8)) OR
     push_bit 8 (ucast (ucast (signed_drop_bit 8 i) :: u8)) OR ucast (ucast i :: u8) :: u64) = (i :: u32)"
  if "\<And>k. k < 8 \<Longrightarrow> bit A k = bit i (24 + k)" for A :: u64
proof (rule bit_word_eqI)
  fix n
  assume n: "n < LENGTH(32)"
  then consider "n < 8" | "8 \<le> n" "n < 16" | "16 \<le> n" "n < 24" | "24 \<le> n" "n < 32"
    by fastforce
  then show "bit (ucast (push_bit 24 A OR push_bit 16 (ucast (ucast (signed_drop_bit 16 i) :: u8)) OR
     push_bit 8 (ucast (ucast (signed_drop_bit 8 i) :: u8)) OR ucast (ucast i :: u8) :: u64) :: u32) n = bit i n"
    by cases (auto simp: bit_simps that dest: bit_imp_le_length)
qed

lemma byte_join: "push_bit 8 (drop_bit (8 + n) i) + ucast (ucast (drop_bit n i) :: u8) = drop_bit n i" for i :: u64
  unfolding byte_plus by (rule bit_eqI) (auto simp: bit_simps dest: bit_imp_le_length)

lemma of_le_bytes8_le_bytes8: "of_le_bytes8 (le_bytes8 i) = i"
  using byte_join [of 0 i] byte_join [of 8 i] byte_join [of 16 i] byte_join [of 24 i] byte_join [of 32 i]
    byte_join [of 40 i] byte_join [of 48 i] byte_join [of 56 i]
  by (simp add: of_le_bytes8_def le_bytes8_def)

lemma le_bytes_fold:
  fixes p :: bytes
  assumes "8 * length p \<le> LENGTH('a::len)" "i < length p"
  shows "ucast (drop_bit (8 * i) (foldr (\<lambda>b i. push_bit 8 i + ucast b) p (0 :: 'a word))) = p ! i"
  using assms
proof (induction p arbitrary: i)
  case (Cons b p)
  let ?y = "foldr (\<lambda>b i. push_bit 8 i + ucast b) p (0 :: 'a word)"
  have x: "push_bit 8 ?y + ucast b = push_bit 8 ?y OR ucast b"
    by (rule plus_disjoint, rule bit_eqI) (auto simp: bit_simps dest: bit_imp_le_length)
  show ?case
  proof (cases i)
    case 0
    have "ucast (push_bit 8 ?y OR ucast b) = b"
      by (rule bit_word_eqI) (use Cons.prems in \<open>auto simp: bit_simps\<close>)
    with 0 x show ?thesis by simp
  next
    case (Suc j)
    have "(ucast (drop_bit (8 * i) (push_bit 8 ?y OR ucast b)) :: u8) = ucast (drop_bit (8 * j) ?y)"
      by (rule bit_word_eqI) (use Cons.prems Suc in \<open>auto simp: bit_simps algebra_simps dest: bit_imp_le_length\<close>)
    with Cons Suc x show ?thesis by simp
  qed
qed simp

lemma le_bytes8_of: "length p = 8 \<Longrightarrow> le_bytes8 (of_le_bytes8 p) = p"
proof -
  assume p: "length p = 8"
  have "le_bytes8 x = map (\<lambda>i. ucast (drop_bit (8 * i) x)) [0..<8]" for x
    by (simp add: le_bytes8_def upt_rec)
  then show ?thesis
    using p le_bytes_fold [of p, where 'a = 64] by (simp add: of_le_bytes8_def list_eq_iff_nth_eq)
qed

lemma length_le_bytes8 [simp]: "length (le_bytes8 i) = 8"
  by (simp add: le_bytes8_def)

interpretation uint_1: byte_codec "\<lambda>i. caml_serialize_int_1 i" "\<lambda>src. map_option (map_prod ucast id) (caml_deserialize_uint_1 src)"
    "\<lambda>i. unat i < 256"
proof
  fix i :: u32 and rest
  assume "unat i < 256"
  then show "map_option (map_prod ucast id) (caml_deserialize_uint_1 (caml_serialize_int_1 i [] @ rest)) = Some (i, rest)"
    by (simp add: caml_deserialize_uint_1_def read8u_def caml_serialize_int_1_def word_unat_eq_iff unat_ucast_mod)
qed (simp add: caml_serialize_int_1_def)

interpretation sint_4: byte_codec caml_serialize_int_4 caml_deserialize_sint_4 "\<lambda>_. True"
proof
  fix i :: u32 and rest
  have "bit (Sign_extend (ucast (signed_drop_bit 24 i))) k = bit i (24 + k)" if "k < 8" for k
    using that by (auto simp: bit_Sign_extend bit_simps min_def)
  then show "caml_deserialize_sint_4 (caml_serialize_int_4 i [] @ rest) = Some (i, rest)"
    by (simp add: caml_deserialize_sint_4_def caml_serialize_int_4_def read32s_def join4 split4)
qed (simp add: caml_serialize_int_4_def)

interpretation uint_4: byte_codec caml_serialize_int_4 caml_deserialize_uint_4 "\<lambda>_. True"
proof
  fix i :: u32 and rest
  have "bit (ucast (ucast (signed_drop_bit 24 i) :: u8) :: u64) k = bit i (24 + k)" if "k < 8" for k
    using that by (auto simp: bit_simps)
  then show "caml_deserialize_uint_4 (caml_serialize_int_4 i [] @ rest) = Some (i, rest)"
    by (simp add: caml_deserialize_uint_4_def caml_serialize_int_4_def read32u_def join4 split4)
qed (simp add: caml_serialize_int_4_def)

interpretation sint_8: byte_codec caml_serialize_int_8 caml_deserialize_sint_8 "\<lambda>_. True"
proof
  fix i :: u64 and rest
  have r: "Reverse_64 (Reverse_64 (le_bytes8 i)) = le_bytes8 i" "length (Reverse_64 (le_bytes8 i)) = 8"
    by (simp_all add: Reverse_64_def le_bytes8_def numeral_eq_Suc)
  then show "caml_deserialize_sint_8 (caml_serialize_int_8 i [] @ rest) = Some (i, rest)"
    by (simp add: caml_deserialize_sint_8_def caml_serialize_int_8_def caml_serialize_block_8_def
        caml_deserialize_block_8_def deserialize_items_def of_le_bytes8_le_bytes8)
qed (simp add: caml_serialize_int_8_def caml_serialize_block_8_def)

text \<open>
  What a custom serializer writes its reader gets back: any sequence of 32-bit
  integers written with \<open>caml_serialize_int_4\<close> takes its place after the existing output, and
  reading as many with \<open>caml_deserialize_sint_4\<close> returns them in order and leaves exactly
  the bytes that follow.
\<close>

theorem serialize_int_4_sequence:
  "fold caml_serialize_int_4 xs out = out @ fold caml_serialize_int_4 xs [] \<and>
   read_items caml_deserialize_sint_4 (length xs) (fold caml_serialize_int_4 xs [] @ rest) = Some (xs, rest)"
  using sint_4.fold_wr [of xs out] sint_4.read_items_fold [of xs rest] by simp

text \<open>
  The same for 64-bit integers, which go through the block writer and reader that
  reverse the bytes of each item.
\<close>

theorem serialize_int_8_sequence:
  "fold caml_serialize_int_8 xs out = out @ fold caml_serialize_int_8 xs [] \<and>
   read_items caml_deserialize_sint_8 (length xs) (fold caml_serialize_int_8 xs [] @ rest) = Some (xs, rest)"
  using sint_8.fold_wr [of xs out] sint_8.read_items_fold [of xs rest] by simp

end
