(* ===== verification/Ints.thy ===== *)
theory Ints
  imports Serial
begin

text \<open>
  Integer primitives (\<open>ints.c\<close>, \<open>int64_native.h\<close>): reading an integer from its textual
  form with overflow detection, comparison, and the 32-bit, 64-bit and native arithmetic,
  on words of the C types' widths. A boxed integer is its contents. Operations that C
  leaves undefined, or that trap, are \<open>None\<close>.
\<close>

section \<open>Reading an integer\<close>

text \<open>A C pointer into the string is the rest of the string; past the end it reads \<open>NUL\<close>.\<close>

definition peek :: "string \<Rightarrow> char" where
  "peek p = (case p of [] \<Rightarrow> CHR 0x00 | c # _ \<Rightarrow> c)"

definition parse_sign_and_base :: "string \<Rightarrow> string \<times> int \<times> int" where
  "parse_sign_and_base p =
     (let (p, sg) = (if peek p = CHR ''-'' then (tl p, - 1) else (p, 1))
      in if peek p = CHR ''0'' then
           (let c = peek (tl p)
            in if c = CHR ''x'' \<or> c = CHR ''X'' then (drop 2 p, 16, sg)
               else if c = CHR ''o'' \<or> c = CHR ''O'' then (drop 2 p, 8, sg)
               else if c = CHR ''b'' \<or> c = CHR ''B'' then (drop 2 p, 2, sg)
               else (p, 10, sg))
         else (p, 10, sg))"

definition parse_digit :: "char \<Rightarrow> int" where
  "parse_digit c =
     (let n = of_char c :: int
      in if 48 \<le> n \<and> n \<le> 57 then n - 48
         else if 65 \<le> n \<and> n \<le> 70 then n - 65 + 10
         else if 97 \<le> n \<and> n \<le> 102 then n - 97 + 10
         else - 1)"

abbreviation (input) bad_int :: "'a outcome" where
  "bad_int \<equiv> Inl (Failure ''int_of_string'')"

fun parse_digits :: "int \<Rightarrow> u64 \<Rightarrow> string \<Rightarrow> u64 \<Rightarrow> (u64 \<times> string) outcome" where
  "parse_digits base threshold [] res = Inr (res, [])"
| "parse_digits base threshold (c # p) res =
     (if c = CHR ''_'' then parse_digits base threshold p res
      else
        (let d = parse_digit c
         in if d < 0 \<or> d \<ge> base then Inr (res, c # p)
            else if res > threshold then bad_int
            else
              (let res' = word_of_int base * res + word_of_int d
               in if res' < word_of_int d then bad_int
                  else parse_digits base threshold p res')))"

definition parse_intnat :: "string \<Rightarrow> nat \<Rightarrow> u64 outcome" where
  "parse_intnat s nbits =
     (let (p, base, sg) = parse_sign_and_base s;
          threshold = - 1 div word_of_int base;
          d = parse_digit (peek p)
      in if d < 0 \<or> d \<ge> base then bad_int
         else bind_outcome (parse_digits base threshold (tl p) (word_of_int d)) (\<lambda>(res, p).
           if p \<noteq> [] then bad_int
           else if base = 10 \<and> sg \<ge> 0 \<and> res \<ge> push_bit (nbits - 1) 1 then bad_int
           else if base = 10 \<and> \<not> sg \<ge> 0 \<and> res > push_bit (nbits - 1) 1 then bad_int
           else if base \<noteq> 10 \<and> nbits < 64 \<and> res \<ge> push_bit nbits 1 then bad_int
           else Inr (if sg < 0 then - res else res)))"

definition caml_int_of_string :: "string \<Rightarrow> u64 outcome" where
  "caml_int_of_string s = bind_outcome (parse_intnat s 63) (\<lambda>r. Inr (Val_long r))"

definition caml_int32_of_string :: "string \<Rightarrow> u32 outcome" where
  "caml_int32_of_string s = bind_outcome (parse_intnat s 32) (\<lambda>r. Inr (ucast r))"

definition caml_nativeint_of_string :: "string \<Rightarrow> u64 outcome" where
  "caml_nativeint_of_string s = parse_intnat s 64"

definition caml_int64_of_string :: "string \<Rightarrow> u64 outcome" where
  "caml_int64_of_string s =
     (let max_uint64 = 0xFFFFFFFFFFFFFFFF :: u64;
          max_int64_pos = 0x7FFFFFFFFFFFFFFF;
          max_int64_neg = 0x8000000000000000;
          (p, base, sg) = parse_sign_and_base s;
          threshold = max_uint64 div word_of_int base;
          d = parse_digit (peek p)
      in if d < 0 \<or> d \<ge> base then bad_int
         else bind_outcome (parse_digits base threshold (tl p) (word_of_int d)) (\<lambda>(res, p).
           if p \<noteq> [] then bad_int
           else if base = 10 \<and> (if sg \<ge> 0 then max_int64_pos else max_int64_neg) < res then bad_int
           else Inr (if sg < 0 then - res else res)))"

section \<open>Formats\<close>

definition FORMAT_BUFFER_SIZE :: nat where "FORMAT_BUFFER_SIZE = 32"

fun format_prec :: "(string \<Rightarrow> int) \<Rightarrow> string \<Rightarrow> int" where
  "format_prec atoi [] = 22 + 5"
| "format_prec atoi (c # p) =
     (if 0 \<le> parse_digit c \<and> parse_digit c \<le> 9 then atoi (c # p) + 5 else format_prec atoi p)"

text \<open>
  The format string given to \<open>sprintf\<close>, the conversion letter, and the size of the buffer
  for the result. \<open>None\<close>: the format is too short for the bytes read before its last letter.
\<close>

definition parse_format :: "(string \<Rightarrow> int) \<Rightarrow> string \<Rightarrow> string \<Rightarrow> (string \<times> char \<times> int) outcome option" where
  "parse_format atoi fmt suffix =
     (if length fmt + length suffix + 1 \<ge> FORMAT_BUFFER_SIZE
      then Some (Inl (Invalid_argument ''format_int: format too long''))
      else if length fmt < 2 then None
      else
        (let lastletter = last fmt;
             prev = fmt ! (length fmt - 2);
             n = (if prev = CHR ''l'' \<or> prev = CHR ''n'' \<or> prev = CHR ''L''
                  then length fmt - 2 else length fmt - 1);
             prec = format_prec atoi (takeWhile (\<lambda>c. c \<noteq> CHR 0x00) fmt)
         in Some (Inr (take n fmt @ suffix @ [lastletter], lastletter,
              if prec < int FORMAT_BUFFER_SIZE then int FORMAT_BUFFER_SIZE else prec + 1))))"

definition caml_format_int :: "(string \<Rightarrow> int) \<Rightarrow> (string \<Rightarrow> u64 \<Rightarrow> string) \<Rightarrow> string \<Rightarrow> u64 \<Rightarrow> string outcome option" where
  "caml_format_int atoi sprintf fmt arg =
     map_option (\<lambda>r. bind_outcome r (\<lambda>(f, conv, _).
       Inr (if conv = CHR ''u'' \<or> conv = CHR ''x'' \<or> conv = CHR ''X'' \<or> conv = CHR ''o''
            then sprintf f (drop_bit 1 arg) else sprintf f (Long_val arg))))
       (parse_format atoi fmt ''l'')"

definition caml_int32_format :: "(string \<Rightarrow> int) \<Rightarrow> (string \<Rightarrow> u32 \<Rightarrow> string) \<Rightarrow> string \<Rightarrow> u32 \<Rightarrow> string outcome option" where
  "caml_int32_format atoi sprintf fmt arg =
     map_option (\<lambda>r. bind_outcome r (\<lambda>(f, conv, _). Inr (sprintf f arg))) (parse_format atoi fmt '''')"

definition caml_int64_format :: "(string \<Rightarrow> int) \<Rightarrow> (string \<Rightarrow> u64 \<Rightarrow> string) \<Rightarrow> string \<Rightarrow> u64 \<Rightarrow> string outcome option" where
  "caml_int64_format atoi sprintf fmt arg =
     map_option (\<lambda>r. bind_outcome r (\<lambda>(f, conv, _). Inr (sprintf f arg))) (parse_format atoi fmt ''l'')"

definition caml_nativeint_format :: "(string \<Rightarrow> int) \<Rightarrow> (string \<Rightarrow> u64 \<Rightarrow> string) \<Rightarrow> string \<Rightarrow> u64 \<Rightarrow> string outcome option" where
  "caml_nativeint_format atoi sprintf fmt arg =
     map_option (\<lambda>r. bind_outcome r (\<lambda>(f, conv, _). Inr (sprintf f arg))) (parse_format atoi fmt ''l'')"

section \<open>Arithmetic\<close>

text \<open>\<open>(i1 > i2) - (i1 < i2)\<close>\<close>

definition sign_compare :: "'a::linorder \<Rightarrow> 'a \<Rightarrow> int" where
  "sign_compare i1 i2 = (if i1 > i2 then 1 else 0) - (if i1 < i2 then 1 else 0)"

definition caml_int_compare :: "u64 \<Rightarrow> u64 \<Rightarrow> u64" where
  "caml_int_compare v1 v2 = Val_long (word_of_int (sign_compare (sint v1) (sint v2)))"

text \<open>C division on signed operands: a trap for a zero divisor and for an overflow.\<close>

definition c_div :: "'a::len word \<Rightarrow> 'a word \<Rightarrow> 'a word option" where
  "c_div a b =
     (if b = 0 \<or> sint a sdiv sint b = 2 ^ (LENGTH('a) - 1) then None
      else Some (word_of_int (sint a sdiv sint b)))"

definition c_mod :: "'a::len word \<Rightarrow> 'a word \<Rightarrow> 'a word option" where
  "c_mod a b =
     (if b = 0 \<or> sint a sdiv sint b = 2 ^ (LENGTH('a) - 1) then None
      else Some (word_of_int (sint a smod sint b)))"

text \<open>C shifts are defined for counts below the width.\<close>

definition c_shift :: "(nat \<Rightarrow> 'a::len word \<Rightarrow> 'a word) \<Rightarrow> 'a word \<Rightarrow> u32 \<Rightarrow> 'a word option" where
  "c_shift f a n = (if 0 \<le> sint n \<and> sint n < int LENGTH('a) then Some (f (nat (sint n)) a) else None)"

definition int32_cmp :: "u32 \<Rightarrow> u32 \<Rightarrow> int" where
  "int32_cmp i1 i2 = sign_compare (sint i1) (sint i2)"
definition int32_hash :: "u32 \<Rightarrow> u64" where "int32_hash v = scast v"
definition int32_serialize :: "u32 \<Rightarrow> bytes \<Rightarrow> bytes" where
  "int32_serialize v = caml_serialize_int_4 v"
definition int32_deserialize :: "bytes \<Rightarrow> (u32 \<times> bytes) option" where
  "int32_deserialize = caml_deserialize_sint_4"
definition caml_int32_neg :: "u32 \<Rightarrow> u32" where "caml_int32_neg v = - v"
definition caml_int32_add :: "u32 \<Rightarrow> u32 \<Rightarrow> u32" where "caml_int32_add v1 v2 = v1 + v2"
definition caml_int32_sub :: "u32 \<Rightarrow> u32 \<Rightarrow> u32" where "caml_int32_sub v1 v2 = v1 - v2"
definition caml_int32_mul :: "u32 \<Rightarrow> u32 \<Rightarrow> u32" where "caml_int32_mul v1 v2 = v1 * v2"

definition caml_int32_div :: "u32 \<Rightarrow> u32 \<Rightarrow> u32 outcome option" where
  "caml_int32_div dividend divisor =
     (if divisor = 0 then Some (Inl Division_by_zero)
      else if dividend = push_bit 31 1 \<and> divisor = - 1 then Some (Inr dividend)
      else map_option Inr (c_div dividend divisor))"

definition caml_int32_mod :: "u32 \<Rightarrow> u32 \<Rightarrow> u32 outcome option" where
  "caml_int32_mod dividend divisor =
     (if divisor = 0 then Some (Inl Division_by_zero)
      else if dividend = push_bit 31 1 \<and> divisor = - 1 then Some (Inr 0)
      else map_option Inr (c_mod dividend divisor))"

definition caml_int32_and :: "u32 \<Rightarrow> u32 \<Rightarrow> u32" where "caml_int32_and v1 v2 = v1 AND v2"
definition caml_int32_or :: "u32 \<Rightarrow> u32 \<Rightarrow> u32" where "caml_int32_or v1 v2 = v1 OR v2"
definition caml_int32_xor :: "u32 \<Rightarrow> u32 \<Rightarrow> u32" where "caml_int32_xor v1 v2 = v1 XOR v2"
definition caml_int32_shift_left :: "u32 \<Rightarrow> u64 \<Rightarrow> u32 option" where
  "caml_int32_shift_left v1 v2 = c_shift push_bit v1 (Int_val v2)"
definition caml_int32_shift_right :: "u32 \<Rightarrow> u64 \<Rightarrow> u32 option" where
  "caml_int32_shift_right v1 v2 = c_shift signed_drop_bit v1 (Int_val v2)"
definition caml_int32_shift_right_unsigned :: "u32 \<Rightarrow> u64 \<Rightarrow> u32 option" where
  "caml_int32_shift_right_unsigned v1 v2 = c_shift drop_bit v1 (Int_val v2)"
definition caml_int32_of_int :: "u64 \<Rightarrow> u32" where "caml_int32_of_int v = ucast (Long_val v)"
definition caml_int32_to_int :: "u32 \<Rightarrow> u64" where "caml_int32_to_int v = Val_long (scast v)"
definition caml_int32_compare :: "u32 \<Rightarrow> u32 \<Rightarrow> u64" where
  "caml_int32_compare v1 v2 = Val_long (word_of_int (sign_compare (sint v1) (sint v2)))"

definition int64_cmp :: "u64 \<Rightarrow> u64 \<Rightarrow> int" where
  "int64_cmp i1 i2 = sign_compare (sint i1) (sint i2)"
definition int64_hash :: "u64 \<Rightarrow> u64" where "int64_hash v = v"
definition int64_serialize :: "u64 \<Rightarrow> bytes \<Rightarrow> bytes" where
  "int64_serialize v = caml_serialize_int_8 v"
definition int64_deserialize :: "bytes \<Rightarrow> (u64 \<times> bytes) option" where
  "int64_deserialize = caml_deserialize_sint_8"
definition caml_int64_neg :: "u64 \<Rightarrow> u64" where "caml_int64_neg v = - v"
definition caml_int64_add :: "u64 \<Rightarrow> u64 \<Rightarrow> u64" where "caml_int64_add v1 v2 = v1 + v2"
definition caml_int64_sub :: "u64 \<Rightarrow> u64 \<Rightarrow> u64" where "caml_int64_sub v1 v2 = v1 - v2"
definition caml_int64_mul :: "u64 \<Rightarrow> u64 \<Rightarrow> u64" where "caml_int64_mul v1 v2 = v1 * v2"

definition caml_int64_div :: "u64 \<Rightarrow> u64 \<Rightarrow> u64 outcome option" where
  "caml_int64_div dividend divisor =
     (if divisor = 0 then Some (Inl Division_by_zero)
      else if dividend = push_bit 63 1 \<and> divisor = - 1 then Some (Inr dividend)
      else map_option Inr (c_div dividend divisor))"

definition caml_int64_mod :: "u64 \<Rightarrow> u64 \<Rightarrow> u64 outcome option" where
  "caml_int64_mod dividend divisor =
     (if divisor = 0 then Some (Inl Division_by_zero)
      else if dividend = push_bit 63 1 \<and> divisor = - 1 then Some (Inr 0)
      else map_option Inr (c_mod dividend divisor))"

definition caml_int64_and :: "u64 \<Rightarrow> u64 \<Rightarrow> u64" where "caml_int64_and v1 v2 = v1 AND v2"
definition caml_int64_or :: "u64 \<Rightarrow> u64 \<Rightarrow> u64" where "caml_int64_or v1 v2 = v1 OR v2"
definition caml_int64_xor :: "u64 \<Rightarrow> u64 \<Rightarrow> u64" where "caml_int64_xor v1 v2 = v1 XOR v2"
definition caml_int64_shift_left :: "u64 \<Rightarrow> u64 \<Rightarrow> u64 option" where
  "caml_int64_shift_left v1 v2 = c_shift push_bit v1 (Int_val v2)"
definition caml_int64_shift_right :: "u64 \<Rightarrow> u64 \<Rightarrow> u64 option" where
  "caml_int64_shift_right v1 v2 = c_shift signed_drop_bit v1 (Int_val v2)"
definition caml_int64_shift_right_unsigned :: "u64 \<Rightarrow> u64 \<Rightarrow> u64 option" where
  "caml_int64_shift_right_unsigned v1 v2 = c_shift drop_bit v1 (Int_val v2)"
definition caml_int64_of_int :: "u64 \<Rightarrow> u64" where "caml_int64_of_int v = Long_val v"
definition caml_int64_to_int :: "u64 \<Rightarrow> u64" where "caml_int64_to_int v = Val_long v"
definition caml_int64_of_int32 :: "u32 \<Rightarrow> u64" where "caml_int64_of_int32 v = scast v"
definition caml_int64_to_int32 :: "u64 \<Rightarrow> u32" where "caml_int64_to_int32 v = ucast v"
definition caml_int64_of_nativeint :: "u64 \<Rightarrow> u64" where "caml_int64_of_nativeint v = v"
definition caml_int64_to_nativeint :: "u64 \<Rightarrow> u64" where "caml_int64_to_nativeint v = v"
definition caml_int64_compare :: "u64 \<Rightarrow> u64 \<Rightarrow> u64" where
  "caml_int64_compare v1 v2 = Val_long (word_of_int (sign_compare (sint v1) (sint v2)))"

definition nativeint_cmp :: "u64 \<Rightarrow> u64 \<Rightarrow> int" where
  "nativeint_cmp i1 i2 = sign_compare (sint i1) (sint i2)"
definition nativeint_hash :: "u64 \<Rightarrow> u64" where "nativeint_hash v = v"

definition nativeint_serialize :: "u64 \<Rightarrow> bytes \<Rightarrow> bytes" where
  "nativeint_serialize l out =
     (if sint l \<le> 0x7FFFFFFF \<and> sint l \<ge> - 0x80000000
      then caml_serialize_int_4 (ucast l) (caml_serialize_int_1 1 out)
      else caml_serialize_int_8 l (caml_serialize_int_1 2 out))"

text \<open>An ill-formed code raises \<open>Failure\<close> through \<open>caml_deserialize_error\<close>.\<close>

definition nativeint_deserialize :: "bytes \<Rightarrow> (u64 outcome \<times> bytes) option" where
  "nativeint_deserialize src =
     Option.bind (caml_deserialize_uint_1 src) (\<lambda>(code, src).
       if code = 1 then map_option (\<lambda>(i, src). (Inr (scast i), src)) (caml_deserialize_sint_4 src)
       else if code = 2 then map_option (\<lambda>(i, src). (Inr i, src)) (caml_deserialize_sint_8 src)
       else Some (Inl (Failure ''input_value: ill-formed native integer''), src))"

definition caml_nativeint_neg :: "u64 \<Rightarrow> u64" where "caml_nativeint_neg v = - v"
definition caml_nativeint_add :: "u64 \<Rightarrow> u64 \<Rightarrow> u64" where "caml_nativeint_add v1 v2 = v1 + v2"
definition caml_nativeint_sub :: "u64 \<Rightarrow> u64 \<Rightarrow> u64" where "caml_nativeint_sub v1 v2 = v1 - v2"
definition caml_nativeint_mul :: "u64 \<Rightarrow> u64 \<Rightarrow> u64" where "caml_nativeint_mul v1 v2 = v1 * v2"

definition Nativeint_min_int :: u64 where "Nativeint_min_int = push_bit 63 1"

definition caml_nativeint_div :: "u64 \<Rightarrow> u64 \<Rightarrow> u64 outcome option" where
  "caml_nativeint_div dividend divisor =
     (if divisor = 0 then Some (Inl Division_by_zero)
      else if dividend = Nativeint_min_int \<and> divisor = - 1 then Some (Inr dividend)
      else map_option Inr (c_div dividend divisor))"

definition caml_nativeint_mod :: "u64 \<Rightarrow> u64 \<Rightarrow> u64 outcome option" where
  "caml_nativeint_mod dividend divisor =
     (if divisor = 0 then Some (Inl Division_by_zero)
      else if dividend = Nativeint_min_int \<and> divisor = - 1 then Some (Inr 0)
      else map_option Inr (c_mod dividend divisor))"

definition caml_nativeint_and :: "u64 \<Rightarrow> u64 \<Rightarrow> u64" where "caml_nativeint_and v1 v2 = v1 AND v2"
definition caml_nativeint_or :: "u64 \<Rightarrow> u64 \<Rightarrow> u64" where "caml_nativeint_or v1 v2 = v1 OR v2"
definition caml_nativeint_xor :: "u64 \<Rightarrow> u64 \<Rightarrow> u64" where "caml_nativeint_xor v1 v2 = v1 XOR v2"
definition caml_nativeint_shift_left :: "u64 \<Rightarrow> u64 \<Rightarrow> u64 option" where
  "caml_nativeint_shift_left v1 v2 = c_shift push_bit v1 (Int_val v2)"
definition caml_nativeint_shift_right :: "u64 \<Rightarrow> u64 \<Rightarrow> u64 option" where
  "caml_nativeint_shift_right v1 v2 = c_shift signed_drop_bit v1 (Int_val v2)"
definition caml_nativeint_shift_right_unsigned :: "u64 \<Rightarrow> u64 \<Rightarrow> u64 option" where
  "caml_nativeint_shift_right_unsigned v1 v2 = c_shift drop_bit v1 (Int_val v2)"
definition caml_nativeint_of_int :: "u64 \<Rightarrow> u64" where "caml_nativeint_of_int v = Long_val v"
definition caml_nativeint_to_int :: "u64 \<Rightarrow> u64" where "caml_nativeint_to_int v = Val_long v"
definition caml_nativeint_of_int32 :: "u32 \<Rightarrow> u64" where "caml_nativeint_of_int32 v = scast v"
definition caml_nativeint_to_int32 :: "u64 \<Rightarrow> u32" where "caml_nativeint_to_int32 v = ucast v"
definition caml_nativeint_compare :: "u64 \<Rightarrow> u64 \<Rightarrow> u64" where
  "caml_nativeint_compare v1 v2 = Val_long (word_of_int (sign_compare (sint v1) (sint v2)))"

end
