(* ===== verification/Heap.thy ===== *)
theory Heap
  imports Values
begin

text \<open>
  The OCaml heap as the primitives on whole values see it: a store from addresses to
  blocks, whose fields are tagged integers or pointers (\<open>mlvalues.h\<close>). A block with a tag
  below \<open>No_scan_tag\<close> has fields, the others have bytes; a pointer that is not in the store is
  a pointer outside the heap. \<open>tree\<close> is the structured value a pointer stands for.
\<close>

datatype val = Long u64 | Ptr addr

datatype block =
    Scannable nat "val list"
  | Infix nat
  | Opaque nat "u8 list"
  | Custom nat "u8 list"

type_synonym heap = "addr \<Rightarrow> block option"

fun tag_of :: "block \<Rightarrow> nat" where
  "tag_of (Scannable t fs) = t"
| "tag_of (Infix n) = Infix_tag"
| "tag_of (Opaque t bs) = t"
| "tag_of (Custom ops bs) = Custom_tag"

text \<open>\<open>Wosize_val\<close> of a block.\<close>

fun wosize_of :: "block \<Rightarrow> nat" where
  "wosize_of (Scannable t fs) = length fs"
| "wosize_of (Infix n) = n"
| "wosize_of (Opaque t bs) = length bs div 8"
| "wosize_of (Custom ops bs) = length bs div 8 + 1"

section \<open>Strings\<close>

text \<open>
  The bytes of a string block: the contents, zero bytes, and a last byte that says how many
  (\<open>caml_alloc_string\<close>), so that the size is a multiple of the word size.
\<close>

definition string_pad :: "nat \<Rightarrow> nat" where
  "string_pad len = 7 - len mod 8"

definition string_block :: "u8 list \<Rightarrow> u8 list" where
  "string_block s = s @ replicate (string_pad (length s)) 0 @ [of_nat (string_pad (length s))]"

text \<open>\<open>caml_string_length\<close> of a block of these bytes.\<close>

definition string_length :: "u8 list \<Rightarrow> nat" where
  "string_length bs = (let temp = length bs - 1 in temp - unat (bs ! temp))"

lemma string_pad_less: "string_pad n < 8"
  by (simp add: string_pad_def)

lemma length_string_block: "length (string_block s) = 8 * (length s div 8 + 1)"
proof -
  obtain q r where "length s div 8 = q" "length s mod 8 = r" "length s = q * 8 + r" "r < 8"
    using div_mod_linear [of "length s" 8] by (metis zero_less_numeral)
  then show ?thesis by (simp add: string_block_def string_pad_def)
qed

lemma string_length_block [simp]: "string_length (string_block s) = length s"
proof -
  have "unat (of_nat (string_pad (length s)) :: u8) = string_pad (length s)"
    using string_pad_less [of "length s"] by (simp add: unat_of_nat_small)
  then show ?thesis
    by (simp add: string_length_def string_block_def nth_append Let_def)
qed

lemma take_string_block [simp]: "take (length s) (string_block s) = s"
  by (simp add: string_block_def)

lemma string_block_inject: "string_block s = string_block t \<longleftrightarrow> s = t"
  by (metis string_length_block take_string_block)

section \<open>Structured values\<close>

datatype tree = TLong int | TString "u8 list" | TObject int | TBlock nat "tree list"

text \<open>
  \<open>repr h v t\<close>: in \<open>h\<close>, the value \<open>v\<close> is the finite tree \<open>t\<close> of integers, strings, objects
  (known by their identifier) and blocks; forwarding blocks are transparent.
\<close>

definition plain_tag :: "nat \<Rightarrow> bool" where
  "plain_tag t \<longleftrightarrow> t < No_scan_tag \<and> t \<notin> {Forward_tag, Infix_tag, Object_tag, Closure_tag}"

inductive repr :: "heap \<Rightarrow> val \<Rightarrow> tree \<Rightarrow> bool" for h :: heap where
  repr_long: "Is_long n \<Longrightarrow> repr h (Long n) (TLong (sint (Long_val n)))"
| repr_string: "h a = Some (Opaque String_tag (string_block s)) \<Longrightarrow> length s < 8 * Max_wosize \<Longrightarrow>
    repr h (Ptr a) (TString s)"
| repr_object: "h a = Some (Scannable Object_tag (m # Long oid # fs)) \<Longrightarrow> Is_long oid \<Longrightarrow>
    repr h (Ptr a) (TObject (sint (Long_val oid)))"
| repr_block: "h a = Some (Scannable t fs) \<Longrightarrow> plain_tag t \<Longrightarrow> length fs \<le> Max_wosize \<Longrightarrow>
    list_all2 (repr h) fs ts \<Longrightarrow>
    repr h (Ptr a) (TBlock t ts)"
| repr_forward: "h a = Some (Scannable Forward_tag (v # fs)) \<Longrightarrow> repr h v t \<Longrightarrow> repr h (Ptr a) t"

inductive_cases repr_LongE: "repr h (Long n) t"
inductive_cases repr_TLongE: "repr h v (TLong n)"
inductive_cases repr_PtrE: "repr h (Ptr a) t"

end
