(* ===== verification/Three_Way.thy ===== *)
theory Three_Way
  imports Prelude "HOL-Library.Multiset"
begin

text \<open>
  The contract of a three-way comparison as OCaml's ordered containers and sorts use it:
  the sign of the result changes with the order of the arguments, and "at most" is
  transitive. The integer, string and structural comparisons interpret it.
\<close>

fun cmp_insert :: "('a \<Rightarrow> 'a \<Rightarrow> int) \<Rightarrow> 'a \<Rightarrow> 'a list \<Rightarrow> 'a list" where
  "cmp_insert cmp x [] = [x]"
| "cmp_insert cmp x (y # ys) = (if cmp x y \<le> 0 then x # y # ys else y # cmp_insert cmp x ys)"

definition cmp_sort :: "('a \<Rightarrow> 'a \<Rightarrow> int) \<Rightarrow> 'a list \<Rightarrow> 'a list" where
  "cmp_sort cmp xs = foldr (cmp_insert cmp) xs []"

definition cmp_sorted :: "('a \<Rightarrow> 'a \<Rightarrow> int) \<Rightarrow> 'a list \<Rightarrow> bool" where
  "cmp_sorted cmp = sorted_wrt (\<lambda>x y. cmp x y \<le> 0)"

locale three_way =
  fixes cmp :: "'a \<Rightarrow> 'a \<Rightarrow> int"
  assumes swap: "sgn (cmp y x) = - sgn (cmp x y)"
    and trans: "cmp x y \<le> 0 \<Longrightarrow> cmp y z \<le> 0 \<Longrightarrow> cmp x z \<le> 0"
begin

lemma refl [simp]: "cmp x x = 0"
  using swap [of x x] by (simp add: sgn_if split: if_splits)

lemma total: "cmp x y \<le> 0 \<or> cmp y x \<le> 0"
  using swap [of x y] by (auto simp: sgn_if split: if_splits)

lemma mset_insert: "mset (cmp_insert cmp x xs) = add_mset x (mset xs)"
  by (induction xs) auto

lemma sorted_insert: "cmp_sorted cmp xs \<Longrightarrow> cmp_sorted cmp (cmp_insert cmp x xs)"
proof (induction xs)
  case (Cons y ys)
  then have y: "\<forall>z\<in>set ys. cmp y z \<le> 0" "cmp_sorted cmp ys" by (auto simp: cmp_sorted_def)
  show ?case
  proof (cases "cmp x y \<le> 0")
    case True
    with y show ?thesis by (auto simp: cmp_sorted_def intro: trans)
  next
    case False
    then have "cmp y x \<le> 0" using total by blast
    moreover have "set (cmp_insert cmp x ys) = insert x (set ys)"
      using arg_cong [OF mset_insert, of set_mset] by simp
    ultimately show ?thesis using False y Cons.IH by (auto simp: cmp_sorted_def)
  qed
qed (simp add: cmp_sorted_def)

lemma sort_correct: "cmp_sorted cmp (cmp_sort cmp xs) \<and> mset (cmp_sort cmp xs) = mset xs"
  by (induction xs) (simp_all add: cmp_sort_def sorted_insert mset_insert, simp add: cmp_sorted_def)

end

text \<open>Comparing by a key inherits the contract from the keys.\<close>

lemma three_way_diff: "three_way (\<lambda>x y. f x - f y)" for f :: "'a \<Rightarrow> int"
  by unfold_locales (simp_all add: sgn_if)

section \<open>Lexicographic comparison\<close>

text \<open>Lexicographic comparison, the abstract order on strings and on encoded trees.\<close>

fun lex_compare :: "'a::linorder list \<Rightarrow> 'a list \<Rightarrow> int" where
  "lex_compare [] [] = 0"
| "lex_compare [] (y # ys) = - 1"
| "lex_compare (x # xs) [] = 1"
| "lex_compare (x # xs) (y # ys) =
     (if x < y then - 1 else if y < x then 1 else lex_compare xs ys)"

lemma lex_compare_values: "lex_compare s t \<in> {- 1, 0, 1}"
  by (induction s t rule: lex_compare.induct) auto

lemma lex_compare_0_iff: "lex_compare s t = 0 \<longleftrightarrow> s = t"
  by (induction s t rule: lex_compare.induct) auto

lemma lex_compare_swap: "lex_compare t s = - lex_compare s t"
  by (induction s t rule: lex_compare.induct) auto

lemma lex_compare_trans:
  "lex_compare x y \<le> 0 \<Longrightarrow> lex_compare y z \<le> 0 \<Longrightarrow> lex_compare x z \<le> 0"
proof (induction x z arbitrary: y rule: lex_compare.induct)
  case (4 a as c cs)
  then show ?case
    by (cases y) (auto split: if_splits)
qed (auto, (case_tac y; simp split: if_splits)+)

interpretation lex: three_way lex_compare
proof
  show "sgn (lex_compare y x) = - sgn (lex_compare x y)" for x y
    by (subst lex_compare_swap) (rule sgn_minus)
qed (rule lex_compare_trans)

end
