(* ===== verification/Str.thy ===== *)
theory Str
  imports Heap Three_Way
begin

text \<open>
  String primitives (\<open>str.c\<close>, string allocation in \<open>alloc.c\<close>) on the bytes of string
  blocks. Accesses outside a block, which the unchecked primitives can make, are \<open>None\<close>.
\<close>

section \<open>Allocation\<close>

text \<open>
  \<open>garbage\<close> is what the fresh block contains: a list of the \<open>8 * wosize\<close> bytes that
  \<open>Alloc_small\<close> or \<open>caml_alloc_shr\<close> return.
\<close>

definition string_wosize :: "nat \<Rightarrow> nat" where
  "string_wosize len = (len + 8) div 8"

definition caml_alloc_string :: "u8 list \<Rightarrow> nat \<Rightarrow> u8 list" where
  "caml_alloc_string garbage len =
     (let wosize = string_wosize len;
          result = take (8 * (wosize - 1)) garbage @ replicate 8 0;
          offset_index = 8 * wosize - 1
      in result[offset_index := of_nat (offset_index - len)])"

definition caml_copy_string :: "u8 list \<Rightarrow> u8 list \<Rightarrow> u8 list" where
  \<comment> \<open>\<open>s\<close>: the characters before the terminator\<close>
  "caml_copy_string garbage s =
     (let res = caml_alloc_string garbage (length s) in s @ drop (length s) res)"

definition caml_create_string :: "u8 list \<Rightarrow> u64 \<Rightarrow> u8 list outcome" where
  "caml_create_string garbage len =
     (let sz = unat (Long_val len)
      in if sz > 8 * Max_wosize - 1 then Inl (Invalid_argument ''String.create'')
         else Inr (caml_alloc_string garbage sz))"

section \<open>Access\<close>

definition caml_ml_string_length :: "u8 list \<Rightarrow> u64" where
  "caml_ml_string_length s = Val_long (of_nat (string_length s))"

definition caml_string_get :: "u8 list \<Rightarrow> u64 \<Rightarrow> u64 outcome" where
  "caml_string_get str index =
     (let idx = sint (Long_val index)
      in if idx < 0 \<or> idx \<ge> int (string_length str) then Inl Index_out_of_bounds
         else Inr (Val_long (ucast (str ! nat idx))))"

definition caml_string_set :: "u8 list \<Rightarrow> u64 \<Rightarrow> u64 \<Rightarrow> u8 list outcome" where
  "caml_string_set str index newval =
     (let idx = sint (Long_val index)
      in if idx < 0 \<or> idx \<ge> int (string_length str) then Inl Index_out_of_bounds
         else Inr (str[nat idx := ucast (Int_val newval)]))"

text \<open>
  \<open>memmove\<close> and \<open>memset\<close> on the bytes of the blocks; a negative offset or length is outside
  every block.
\<close>

definition memmove :: "u8 list \<Rightarrow> int \<Rightarrow> u8 list \<Rightarrow> int \<Rightarrow> int \<Rightarrow> u8 list option" where
  "memmove dst d src s n =
     (if 0 \<le> n \<and> 0 \<le> s \<and> 0 \<le> d \<and> s + n \<le> int (length src) \<and> d + n \<le> int (length dst)
      then Some (take (nat d) dst @ take (nat n) (drop (nat s) src) @ drop (nat (d + n)) dst) else None)"

definition memset :: "u8 list \<Rightarrow> int \<Rightarrow> u8 \<Rightarrow> int \<Rightarrow> u8 list option" where
  "memset dst d c n =
     (if 0 \<le> n \<and> 0 \<le> d \<and> d + n \<le> int (length dst)
      then Some (take (nat d) dst @ replicate (nat n) c @ drop (nat (d + n)) dst) else None)"

definition caml_blit_string :: "u8 list \<Rightarrow> u64 \<Rightarrow> u8 list \<Rightarrow> u64 \<Rightarrow> u64 \<Rightarrow> u8 list option" where
  \<comment> \<open>the new bytes of \<open>s2\<close>\<close>
  "caml_blit_string s1 ofs1 s2 ofs2 n =
     memmove s2 (sint (Long_val ofs2)) s1 (sint (Long_val ofs1)) (sint (Int_val n))"

definition caml_fill_string :: "u8 list \<Rightarrow> u64 \<Rightarrow> u64 \<Rightarrow> u64 \<Rightarrow> u8 list option" where
  "caml_fill_string s offset len init =
     memset s (sint (Long_val offset)) (ucast (Int_val init)) (sint (Long_val len))"

definition caml_bitvect_test :: "u8 list \<Rightarrow> u64 \<Rightarrow> u64 option" where
  "caml_bitvect_test bv n =
     (let pos = sint (Int_val n); i = pos div 8
      in if 0 \<le> i \<and> i < int (length bv)
         then Some (Val_long (ucast (bv ! nat i) AND push_bit (nat (pos mod 8)) 1)) else None)"

section \<open>Comparison\<close>

text \<open>The fields of a block of bytes, as words in memory order.\<close>

fun words_of :: "nat \<Rightarrow> u8 list \<Rightarrow> u8 list list" where
  "words_of 0 bs = []"
| "words_of (Suc n) bs = take 8 bs # words_of n (drop 8 bs)"

fun words_equal :: "u8 list list \<Rightarrow> u8 list list \<Rightarrow> bool" where
  "words_equal (p1 # ps1) (p2 # ps2) = (if p1 \<noteq> p2 then False else words_equal ps1 ps2)"
| "words_equal ps1 ps2 = True"

text \<open>\<open>same\<close>: whether the two values are the same pointer.\<close>

definition caml_string_equal :: "bool \<Rightarrow> u8 list \<Rightarrow> u8 list \<Rightarrow> u64" where
  "caml_string_equal same s1 s2 =
     (if same then Val_bool True
      else
        (let sz1 = length s1 div 8; sz2 = length s2 div 8
         in if sz1 \<noteq> sz2 then Val_bool False
            else Val_bool (words_equal (words_of sz1 s1) (words_of sz2 s2))))"

definition caml_string_notequal :: "bool \<Rightarrow> u8 list \<Rightarrow> u8 list \<Rightarrow> u64" where
  "caml_string_notequal same s1 s2 = Val_not (caml_string_equal same s1 s2)"

text \<open>\<open>memcmp\<close>: the first difference, as unsigned bytes.\<close>

fun memcmp :: "u8 list \<Rightarrow> u8 list \<Rightarrow> nat \<Rightarrow> int" where
  "memcmp p q 0 = 0"
| "memcmp p q (Suc n) =
     (if hd p \<noteq> hd q then uint (hd p) - uint (hd q) else memcmp (tl p) (tl q) n)"

definition caml_string_compare :: "bool \<Rightarrow> u8 list \<Rightarrow> u8 list \<Rightarrow> int" where
  \<comment> \<open>the argument of \<open>Val_int\<close>\<close>
  "caml_string_compare same s1 s2 =
     (if same then 0
      else
        (let len1 = string_length s1; len2 = string_length s2;
             res = memcmp s1 s2 (if len1 \<le> len2 then len1 else len2)
         in if res < 0 then - 1
            else if res > 0 then 1
            else if len1 < len2 then - 1
            else if len1 > len2 then 1
            else 0))"

definition caml_string_lessthan :: "bool \<Rightarrow> u8 list \<Rightarrow> u8 list \<Rightarrow> u64" where
  "caml_string_lessthan same s1 s2 = Val_bool (caml_string_compare same s1 s2 < 0)"
definition caml_string_lessequal :: "bool \<Rightarrow> u8 list \<Rightarrow> u8 list \<Rightarrow> u64" where
  "caml_string_lessequal same s1 s2 = Val_bool (caml_string_compare same s1 s2 \<le> 0)"
definition caml_string_greaterthan :: "bool \<Rightarrow> u8 list \<Rightarrow> u8 list \<Rightarrow> u64" where
  "caml_string_greaterthan same s1 s2 = Val_bool (caml_string_compare same s1 s2 > 0)"
definition caml_string_greaterequal :: "bool \<Rightarrow> u8 list \<Rightarrow> u8 list \<Rightarrow> u64" where
  "caml_string_greaterequal same s1 s2 = Val_bool (caml_string_compare same s1 s2 \<ge> 0)"

section \<open>Lemmas\<close>

lemma string_wosize_eq: "string_wosize len = len div 8 + 1"
  by (simp add: string_wosize_def)

lemma alloc_string_parts:
  assumes "length garbage = 8 * string_wosize len"
  shows "drop len (caml_alloc_string garbage len) = replicate (string_pad len) 0 @ [of_nat (string_pad len)]"
    and "length (caml_alloc_string garbage len) = 8 * string_wosize len"
proof -
  obtain q r where qr: "len div 8 = q" "len mod 8 = r" "len = q * 8 + r" "r < 8"
    using div_mod_linear [of len 8] by (metis zero_less_numeral)
  have w: "string_wosize len = Suc q" by (simp add: string_wosize_eq qr)
  have g: "length (take (8 * q) garbage) = 8 * q" using assms w by simp
  have r8: "replicate 8 (0 :: u8) = replicate r 0 @ replicate (7 - r) 0 @ [0]"
  proof -
    have "8 = r + ((7 - r) + 1)" using qr(4) by simp
    then have "replicate 8 (0 :: u8) = replicate (r + ((7 - r) + 1)) 0" by simp
    then show ?thesis unfolding replicate_add by simp
  qed
  have k: "8 * string_wosize len - 1 = 8 * q + 7" "8 * q + 7 - len = 7 - r" "string_wosize len - 1 = q"
    using qr(3,4) w by simp_all
  have "(take (8 * q) garbage @ replicate 8 0)[8 * q + 7 := x] =
      take (8 * q) garbage @ (replicate 8 0)[7 := x]" for x
    unfolding list_update_append g by simp
  then have res: "caml_alloc_string garbage len =
      take (8 * q) garbage @ (replicate 8 0)[7 := of_nat (7 - r)]"
    unfolding caml_alloc_string_def Let_def k by simp
  also have "(replicate 8 (0 :: u8))[7 := of_nat (7 - r)] = replicate r 0 @ replicate (7 - r) 0 @ [of_nat (7 - r)]"
    unfolding r8 using qr(4) by (simp add: list_update_append)
  finally have res2: "caml_alloc_string garbage len =
      take (8 * q) garbage @ replicate r 0 @ replicate (7 - r) 0 @ [of_nat (7 - r)]" .
  show "drop len (caml_alloc_string garbage len) = replicate (string_pad len) 0 @ [of_nat (string_pad len)]"
    unfolding res2 using g qr by (simp add: string_pad_def)
  show "length (caml_alloc_string garbage len) = 8 * string_wosize len"
    unfolding res2 using g qr w by simp
qed

lemma copy_string_block:
  "length garbage = 8 * string_wosize (length s) \<Longrightarrow> caml_copy_string garbage s = string_block s"
  by (simp add: caml_copy_string_def alloc_string_parts(1) string_block_def Let_def)

lemma string_length_alloc:
  assumes "length garbage = 8 * string_wosize len"
  shows "string_length (caml_alloc_string garbage len) = len"
proof -
  let ?b = "caml_alloc_string garbage len"
  have l: "length (take len ?b) = len"
    using alloc_string_parts(2) [OF assms] by (simp add: string_wosize_eq)
  have "?b = take len ?b @ replicate (string_pad len) 0 @ [of_nat (string_pad len)]"
    using alloc_string_parts(1) [OF assms] by (metis append_take_drop_id)
  moreover have "unat (of_nat (string_pad len) :: u8) = string_pad len"
    using string_pad_less [of len] by (simp add: unat_of_nat_small)
  ultimately show ?thesis
    using l by (metis (no_types, lifting) string_length_block string_block_def l)
qed

lemma words_equal_iff:
  "length p = 8 * n \<Longrightarrow> length q = 8 * n \<Longrightarrow> words_equal (words_of n p) (words_of n q) \<longleftrightarrow> p = q"
proof (induction n arbitrary: p q)
  case (Suc n)
  have "p = q \<longleftrightarrow> take 8 p = take 8 q \<and> drop 8 p = drop 8 q"
    by (metis append_take_drop_id)
  with Suc show ?case by simp
qed simp

lemma memcmp_lex_compare:
  assumes "n = min (length s) (length t)"
  shows "sgn (memcmp (s @ u) (t @ v) n) = (if take n s = take n t then 0 else lex_compare s t)"
    and "take n s = take n t \<Longrightarrow> lex_compare s t = sgn (int (length s) - int (length t))"
proof -
  show "sgn (memcmp (s @ u) (t @ v) n) = (if take n s = take n t then 0 else lex_compare s t)"
    using assms
    by (induction s t arbitrary: n rule: lex_compare.induct)
      (auto simp: word_less_def word_uint_eq_iff sgn_if split: if_splits)
  show "take n s = take n t \<Longrightarrow> lex_compare s t = sgn (int (length s) - int (length t))"
    using assms
    by (induction s t arbitrary: n rule: lex_compare.induct) (auto simp: sgn_if split: if_splits)
qed

lemma string_block_append: "\<exists>u. string_block s = s @ u"
  by (simp add: string_block_def)

lemma string_compare_block:
  "same \<longrightarrow> s = t \<Longrightarrow> caml_string_compare same (string_block s) (string_block t) = lex_compare s t"
proof (cases same)
  case True
  assume "same \<longrightarrow> s = t"
  with True show ?thesis by (simp add: caml_string_compare_def lex_compare_0_iff)
next
  case False
  let ?n = "min (length s) (length t)"
  obtain u v where uv: "string_block s = s @ u" "string_block t = t @ v"
    using string_block_append by meson
  let ?m = "memcmp (s @ u) (t @ v) ?n"
  have n: "(if length s \<le> length t then length s else length t) = ?n" by simp
  have m: "memcmp (string_block s) (string_block t) ?n = ?m" by (simp only: uv)
  have c: "caml_string_compare same (string_block s) (string_block t) =
      (if ?m < 0 then - 1 else if ?m > 0 then 1 else sgn (int (length s) - int (length t)))"
    using False unfolding caml_string_compare_def string_length_block Let_def n m
    by (simp add: sgn_if)
  note mb1 = memcmp_lex_compare(1) [OF refl, of s u t v]
  note mb2 = memcmp_lex_compare(2) [OF refl, of s t]
  show ?thesis
  proof (cases "take ?n s = take ?n t")
    case True
    then have "?m = 0" using mb1 by (simp add: sgn_eq_0_iff)
    with c mb2 [OF True] show ?thesis by simp
  next
    case False
    then have s: "sgn ?m = lex_compare s t" using mb1 by simp
    have "lex_compare s t \<noteq> 0" using False lex_compare_0_iff [of s t] by auto
    with s lex_compare_values [of s t] show ?thesis
      by (auto simp: c sgn_if split: if_splits)
  qed
qed

section \<open>Properties\<close>

lemma string_equal_bytes:
  assumes "same \<longrightarrow> p = q" "length p = 8 * m" "length q = 8 * n"
  shows "caml_string_equal same p q = Val_bool (p = q)"
proof (cases "m = n")
  case True
  with assms show ?thesis
    by (auto simp: caml_string_equal_def words_equal_iff)
next
  case False
  then have "p \<noteq> q" using assms by auto
  with False assms show ?thesis by (auto simp: caml_string_equal_def)
qed

lemma string_equal_block:
  assumes "same \<longrightarrow> s = t"
  shows "caml_string_equal same (string_block s) (string_block t) = Val_bool (s = t)"
proof -
  have "same \<longrightarrow> string_block s = string_block t" using assms by simp
  from string_equal_bytes [OF this length_string_block length_string_block]
  show ?thesis by (simp only: string_block_inject)
qed

text \<open>
  C28. The comparison primitives, which work on the padded words of the blocks, decide
  equality and the lexicographic order of the contents; the shortcut for physically equal
  arguments does not change them.
\<close>

theorem string_primitives_order:
  assumes "same \<longrightarrow> s = t"
  shows "caml_string_equal same (string_block s) (string_block t) = Val_bool (s = t)
    \<and> caml_string_notequal same (string_block s) (string_block t) = Val_bool (s \<noteq> t)
    \<and> caml_string_compare same (string_block s) (string_block t) = lex_compare s t
    \<and> caml_string_lessthan same (string_block s) (string_block t) = Val_bool (lex_compare s t < 0)
    \<and> caml_string_lessequal same (string_block s) (string_block t) = Val_bool (lex_compare s t \<le> 0)
    \<and> caml_string_greaterthan same (string_block s) (string_block t) = Val_bool (lex_compare t s < 0)
    \<and> caml_string_greaterequal same (string_block s) (string_block t) = Val_bool (lex_compare t s \<le> 0)"
  using lex_compare_swap [of t s]
  by (simp add: string_equal_block [OF assms] string_compare_block [OF assms] caml_string_notequal_def
      caml_string_lessthan_def caml_string_lessequal_def caml_string_greaterthan_def
      caml_string_greaterequal_def Val_not_def Val_bool_def)

lemma string_primitives_order_witness:
  "caml_string_compare False (string_block [1, 2]) (string_block [1, 2, 0]) = - 1"
  using string_primitives_order [of False "[1, 2]" "[1, 2, 0]"] by simp

text \<open>
  Sorting with the string comparison yields a sorted permutation: the primitive is a
  total preorder on string blocks.
\<close>

theorem string_sort:
  "let cmp = (\<lambda>s t. caml_string_compare False (string_block s) (string_block t))
   in cmp_sorted cmp (cmp_sort cmp ss) \<and> mset (cmp_sort cmp ss) = mset ss"
  using lex.sort_correct [of ss] by (simp add: string_compare_block Let_def)

lemma string_block_update:
  "i < length s \<Longrightarrow> (string_block s)[i := c] = string_block (s[i := c])"
  by (simp add: string_block_def list_update_append)

text \<open>
  Indexed access to a string is bounds-checked against its length, not its block: inside
  it reads and replaces one byte of the contents, outside it raises.
\<close>

theorem string_access:
  defines "ix k \<equiv> sint (Long_val k)"
  shows "caml_string_get (string_block s) k =
      (if 0 \<le> ix k \<and> ix k < int (length s) then Inr (Val_long (ucast (s ! nat (ix k)))) else Inl Index_out_of_bounds)
    \<and> caml_string_set (string_block s) k v =
      (if 0 \<le> ix k \<and> ix k < int (length s) then Inr (string_block (s[nat (ix k) := ucast (Int_val v)]))
       else Inl Index_out_of_bounds)"
proof -
  have "string_block s ! nat (ix k) = s ! nat (ix k)" if "0 \<le> ix k" "ix k < int (length s)"
    using that by (simp add: string_block_def nth_append nat_less_iff)
  then show ?thesis
    unfolding caml_string_get_def caml_string_set_def Let_def ix_def
    by (auto simp: string_block_update nat_less_iff)
qed

text \<open>
  Whatever the fresh memory holds, an allocated string has the requested length, and
  copying a C string stores exactly its characters; a length that no block can hold raises.
\<close>

theorem string_allocation:
  assumes "length garbage = 8 * string_wosize n" and "length s = n"
  shows "string_length (caml_alloc_string garbage n) = n
    \<and> caml_copy_string garbage s = string_block s
    \<and> (n \<le> 8 * Max_wosize - 1 \<longrightarrow>
        caml_create_string garbage (Val_long (of_nat n)) = Inr (caml_alloc_string garbage n))
    \<and> (8 * Max_wosize - 1 < n \<and> n < 2 ^ 62 \<longrightarrow>
        caml_create_string garbage (Val_long (of_nat n)) = Inl (Invalid_argument ''String.create''))"
proof -
  have "unat (Long_val (Val_long (of_nat n))) = n" if "n < 2 ^ 62"
    using that by (simp add: Long_val_Val_long_of_nat unat_of_nat_small)
  moreover have "8 * Max_wosize - 1 < 2 ^ 62" by (simp add: Max_wosize_def)
  ultimately show ?thesis
    using assms string_length_alloc copy_string_block by (auto simp: caml_create_string_def Let_def)
qed

lemma string_allocation_witness:
  "string_length (caml_alloc_string (replicate 8 170) 3) = 3"
  using string_allocation [of "replicate 8 170" 3 "[1, 2, 3]"] by (simp add: string_wosize_def)

text \<open>
  Copying a substring inside the bounds of both strings changes exactly the bytes it
  covers and keeps the destination a string of the same length; a copy that leaves either
  block is not defined.
\<close>

theorem blit_string_contents:
  fixes n :: nat
  assumes "sint (Int_val len) = int n" "sint (Long_val ofs1) = int i" "sint (Long_val ofs2) = int j"
    and "i + n \<le> length s" "j + n \<le> length t"
  shows "caml_blit_string (string_block s) ofs1 (string_block t) ofs2 len =
    Some (string_block (take j t @ take n (drop i s) @ drop (j + n) t))"
proof -
  have u: "\<exists>u. string_block s = s @ u" using string_block_append by blast
  have "length (take j t @ take n (drop i s) @ drop (j + n) t) = length t" using assms by simp
  then have "string_block (take j t @ take n (drop i s) @ drop (j + n) t) =
      take j (string_block t) @ take n (drop i (string_block s)) @ drop (j + n) (string_block t)"
    using assms u by (simp add: string_block_def)
  moreover have "length s \<le> length (string_block s)" "length t \<le> length (string_block t)"
    by (simp_all add: string_block_def)
  ultimately show ?thesis
    using assms by (simp add: caml_blit_string_def memmove_def nat_add_distrib)
qed

lemma blit_string_contents_witness:
  "caml_blit_string (string_block [1, 2, 3]) (Val_long 1) (string_block [7, 8, 9]) (Val_long 0) (Val_long 2) =
    Some (string_block [2, 3, 9])"
  using blit_string_contents [of "Val_long 2" 2 "Val_long 1" 1 "Val_long 0" 0 "[1, 2, 3]" "[7, 8, 9]"]
    Int_val_Val_long_of_nat [of 2] Long_val_Val_long_of_nat [of 1] Long_val_Val_long_of_nat [of 0]
  by simp

end
