(* ===== verification/Compare.thy ===== *)
theory Compare
  imports Str Ints
begin

text \<open>
  Structural comparison (\<open>compare.c\<close>): the loop of \<open>compare_val\<close> with its explicit stack, on
  the values of a store. The kernel build has no floating-point cases. Parameters: the
  compare functions of custom blocks, and which sizes \<open>__malloc\<close> and \<open>__realloc\<close> grant. \<open>None\<close>:
  an access outside a block, or a loop that does not end.
\<close>

section \<open>The stack\<close>

text \<open>An item: the fields still to compare, from \<open>v1\<close> and \<open>v2\<close> on; their number is \<open>count\<close>.\<close>

type_synonym compare_item = "val list \<times> val list"

definition COMPARE_STACK_INIT_SIZE :: nat where "COMPARE_STACK_INIT_SIZE = 256"
definition COMPARE_STACK_MAX_SIZE :: nat where "COMPARE_STACK_MAX_SIZE = 1024 * 1024"

text \<open>The new size of the stack; \<open>None\<close>: \<open>compare_stack_overflow\<close>.\<close>

definition compare_resize_stack :: "(nat \<Rightarrow> bool) \<Rightarrow> nat \<Rightarrow> nat option" where
  "compare_resize_stack malloc lim =
     (let newsize = 2 * lim
      in if newsize \<ge> COMPARE_STACK_MAX_SIZE then None
         else if \<not> malloc newsize then None
         else Some newsize)"

section \<open>The loop\<close>

definition LESS :: u64 where "LESS = - 1"
definition EQUAL :: u64 where "EQUAL = 0"
definition GREATER :: u64 where "GREATER = 1"
definition UNORDERED :: u64 where "UNORDERED = push_bit 63 1"

datatype compare_next = Done "u64 outcome" | Next val val "compare_item list" nat | Undef

text \<open>
  \<open>compare\<close> of the custom operations number \<open>ops\<close>, \<open>None\<close> for \<open>NULL\<close>: its result on the two
  blocks and whether it sets \<open>caml_compare_unordered\<close>.
\<close>

type_synonym custom_compare = "nat \<Rightarrow> (block \<Rightarrow> block \<Rightarrow> u32 \<times> bool) option"

fun next_item :: "compare_item list \<Rightarrow> nat \<Rightarrow> compare_next" where
  "next_item [] lim = Done (Inr EQUAL)"
| "next_item (([v1], [v2]) # sp) lim = Next v1 v2 sp lim"
| "next_item ((v1 # r1, v2 # r2) # sp) lim = Next v1 v2 ((r1, r2) # sp) lim"
| "next_item (_ # sp) lim = Undef"

fun Forward_val :: "block \<Rightarrow> val option" where
  "Forward_val (Scannable t (v # fs)) = Some v"
| "Forward_val _ = None"

fun Oid_val :: "block \<Rightarrow> u64 option" where
  "Oid_val (Scannable t (m # Long v # fs)) = Some (Long_val v)"
| "Oid_val _ = None"

text \<open>The bytes of the two strings up to the first difference, then the lengths.\<close>

fun compare_bytes :: "nat \<Rightarrow> u8 list \<Rightarrow> u8 list \<Rightarrow> u64 option" where
  "compare_bytes (Suc len) (p1 # ps1) (p2 # ps2) =
     (if p1 \<noteq> p2 then Some (ucast p1 - ucast p2) else compare_bytes len ps1 ps2)"
| "compare_bytes _ _ _ = None"

definition compare_strings :: "u8 list \<Rightarrow> u8 list \<Rightarrow> u64 option" where
  "compare_strings s1 s2 =
     (let len1 = string_length s1; len2 = string_length s2
      in case compare_bytes (if len1 \<le> len2 then len1 else len2) s1 s2 of
           Some r \<Rightarrow> Some r
         | None \<Rightarrow> if len1 \<noteq> len2 then Some (of_nat len1 - of_nat len2) else None)"

text \<open>Two blocks of the same tag (the \<open>switch\<close>); \<open>same\<close>: they are one block.\<close>

definition compare_blocks :: "custom_compare \<Rightarrow> (nat \<Rightarrow> bool) \<Rightarrow> bool \<Rightarrow> bool \<Rightarrow> block \<Rightarrow> block \<Rightarrow>
    compare_item list \<Rightarrow> nat \<Rightarrow> compare_next" where
  "compare_blocks custom malloc tot same b1 b2 sp lim =
     (let t1 = tag_of b1
      in if t1 = String_tag then
           (case (b1, b2) of
              (Opaque _ s1, Opaque _ s2) \<Rightarrow>
                (if same then next_item sp lim
                 else case compare_strings s1 s2 of
                        Some r \<Rightarrow> Done (Inr r) | None \<Rightarrow> next_item sp lim)
            | _ \<Rightarrow> Undef)
         else if t1 = Abstract_tag then Done (Inl (Invalid_argument ''equal: abstract value''))
         else if t1 = Closure_tag \<or> t1 = Infix_tag then Done (Inl (Invalid_argument ''equal: functional value''))
         else if t1 = Object_tag then
           (case (Oid_val b1, Oid_val b2) of
              (Some oid1, Some oid2) \<Rightarrow>
                if oid1 \<noteq> oid2 then Done (Inr (oid1 - oid2)) else next_item sp lim
            | _ \<Rightarrow> Undef)
         else if t1 = Custom_tag then
           (case b1 of
              Custom ops _ \<Rightarrow>
                (case custom ops of
                   None \<Rightarrow> Done (Inl (Invalid_argument ''equal: abstract value''))
                 | Some f \<Rightarrow>
                     (let (res, unordered) = f b1 b2
                      in if unordered \<and> \<not> tot then Done (Inr UNORDERED)
                         else if res \<noteq> 0 then Done (Inr (scast res))
                         else next_item sp lim))
            | _ \<Rightarrow> Undef)
         else
           (let sz1 = wosize_of b1; sz2 = wosize_of b2
            in if sz1 \<noteq> sz2 then Done (Inr (of_nat sz1 - of_nat sz2))
               else if sz1 = 0 then next_item sp lim
               else
                 (case (b1, b2) of
                    (Scannable _ (f1 # fs1), Scannable _ (f2 # fs2)) \<Rightarrow>
                      if sz1 > 1 then
                        (if length sp + 1 \<ge> lim
                         then (case compare_resize_stack malloc lim of
                                 None \<Rightarrow> Done (Inl Out_of_memory)
                               | Some lim' \<Rightarrow> Next f1 f2 ((fs1, fs2) # sp) lim')
                         else Next f1 f2 ((fs1, fs2) # sp) lim)
                      else Next f1 f2 sp lim
                  | _ \<Rightarrow> Undef)))"

text \<open>\<open>v = Forward_val (v); continue\<close>\<close>

definition follow :: "block \<Rightarrow> (val \<Rightarrow> compare_next) \<Rightarrow> compare_next" where
  "follow b k = (case Forward_val b of Some v \<Rightarrow> k v | None \<Rightarrow> Undef)"

fun is_forward :: "block option \<Rightarrow> bool" where
  "is_forward (Some b) = (tag_of b = Forward_tag)"
| "is_forward None = False"

text \<open>The machine word of a pointer.\<close>

definition word_of_addr :: "addr \<Rightarrow> u64" where
  "word_of_addr a = of_nat (8 * a)"

text \<open>One turn of \<open>while (1)\<close>; \<open>Is_in_value_area\<close> is being in the store.\<close>

fun compare_step :: "custom_compare \<Rightarrow> (nat \<Rightarrow> bool) \<Rightarrow> heap \<Rightarrow> bool \<Rightarrow> val \<Rightarrow> val \<Rightarrow>
    compare_item list \<Rightarrow> nat \<Rightarrow> compare_next" where
  "compare_step custom malloc h tot (Long n1) (Long n2) sp lim =
     (if n1 = n2 then next_item sp lim else Done (Inr (Long_val n1 - Long_val n2)))"
| "compare_step custom malloc h tot (Long n1) (Ptr a2) sp lim =
     (if is_forward (h a2) then follow (the (h a2)) (\<lambda>v2. Next (Long n1) v2 sp lim)
      else Done (Inr LESS))"
| "compare_step custom malloc h tot (Ptr a1) (Long n2) sp lim =
     (if is_forward (h a1) then follow (the (h a1)) (\<lambda>v1. Next v1 (Long n2) sp lim)
      else Done (Inr GREATER))"
| "compare_step custom malloc h tot (Ptr a1) (Ptr a2) sp lim =
     (if a1 = a2 \<and> tot then next_item sp lim
      else
        case (h a1, h a2) of
          (Some b1, Some b2) \<Rightarrow>
            if tag_of b1 = Forward_tag then follow b1 (\<lambda>v1. Next v1 (Ptr a2) sp lim)
            else if tag_of b2 = Forward_tag then follow b2 (\<lambda>v2. Next (Ptr a1) v2 sp lim)
            else if tag_of b1 \<noteq> tag_of b2 then Done (Inr (of_nat (tag_of b1) - of_nat (tag_of b2)))
            else compare_blocks custom malloc tot (a1 = a2) b1 b2 sp lim
        | _ \<Rightarrow>
            if a1 = a2 then next_item sp lim
            else Done (Inr (signed_drop_bit 1 (word_of_addr a1) - signed_drop_bit 1 (word_of_addr a2))))"

partial_function (option) compare_loop :: "custom_compare \<Rightarrow> (nat \<Rightarrow> bool) \<Rightarrow> heap \<Rightarrow> bool \<Rightarrow> val \<Rightarrow> val \<Rightarrow>
    compare_item list \<Rightarrow> nat \<Rightarrow> u64 outcome option" where
  "compare_loop custom malloc h tot v1 v2 sp lim =
     (case compare_step custom malloc h tot v1 v2 sp lim of
        Done r \<Rightarrow> Some r
      | Next v1 v2 sp lim \<Rightarrow> compare_loop custom malloc h tot v1 v2 sp lim
      | Undef \<Rightarrow> None)"

definition compare_val :: "custom_compare \<Rightarrow> (nat \<Rightarrow> bool) \<Rightarrow> heap \<Rightarrow> val \<Rightarrow> val \<Rightarrow> bool \<Rightarrow> u64 outcome option" where
  "compare_val custom malloc h v1 v2 tot =
     compare_loop custom malloc h tot v1 v2 [] COMPARE_STACK_INIT_SIZE"

section \<open>The primitives\<close>

text \<open>The test of the primitives on the result of \<open>compare_val\<close>, raised errors passed on.\<close>

definition compare_test :: "(u64 \<Rightarrow> u64) \<Rightarrow> u64 outcome option \<Rightarrow> u64 outcome option" where
  "compare_test f r = map_option (\<lambda>r. bind_outcome r (\<lambda>res. Inr (f res))) r"

definition caml_compare :: "custom_compare \<Rightarrow> (nat \<Rightarrow> bool) \<Rightarrow> heap \<Rightarrow> val \<Rightarrow> val \<Rightarrow> u64 outcome option" where
  "caml_compare custom malloc h v1 v2 =
     compare_test (\<lambda>res. if sint res < 0 then Val_long LESS else if sint res > 0 then Val_long GREATER else Val_long EQUAL)
       (compare_val custom malloc h v1 v2 True)"

definition caml_equal :: "custom_compare \<Rightarrow> (nat \<Rightarrow> bool) \<Rightarrow> heap \<Rightarrow> val \<Rightarrow> val \<Rightarrow> u64 outcome option" where
  "caml_equal custom malloc h v1 v2 =
     compare_test (\<lambda>res. Val_bool (res = 0)) (compare_val custom malloc h v1 v2 False)"

definition caml_notequal :: "custom_compare \<Rightarrow> (nat \<Rightarrow> bool) \<Rightarrow> heap \<Rightarrow> val \<Rightarrow> val \<Rightarrow> u64 outcome option" where
  "caml_notequal custom malloc h v1 v2 =
     compare_test (\<lambda>res. Val_bool (res \<noteq> 0)) (compare_val custom malloc h v1 v2 False)"

definition caml_lessthan :: "custom_compare \<Rightarrow> (nat \<Rightarrow> bool) \<Rightarrow> heap \<Rightarrow> val \<Rightarrow> val \<Rightarrow> u64 outcome option" where
  "caml_lessthan custom malloc h v1 v2 =
     compare_test (\<lambda>res. Val_bool (sint res < 0 \<and> res \<noteq> UNORDERED)) (compare_val custom malloc h v1 v2 False)"

definition caml_lessequal :: "custom_compare \<Rightarrow> (nat \<Rightarrow> bool) \<Rightarrow> heap \<Rightarrow> val \<Rightarrow> val \<Rightarrow> u64 outcome option" where
  "caml_lessequal custom malloc h v1 v2 =
     compare_test (\<lambda>res. Val_bool (sint res \<le> 0 \<and> res \<noteq> UNORDERED)) (compare_val custom malloc h v1 v2 False)"

definition caml_greaterthan :: "custom_compare \<Rightarrow> (nat \<Rightarrow> bool) \<Rightarrow> heap \<Rightarrow> val \<Rightarrow> val \<Rightarrow> u64 outcome option" where
  "caml_greaterthan custom malloc h v1 v2 =
     compare_test (\<lambda>res. Val_bool (sint res > 0)) (compare_val custom malloc h v1 v2 False)"

definition caml_greaterequal :: "custom_compare \<Rightarrow> (nat \<Rightarrow> bool) \<Rightarrow> heap \<Rightarrow> val \<Rightarrow> val \<Rightarrow> u64 outcome option" where
  "caml_greaterequal custom malloc h v1 v2 =
     compare_test (\<lambda>res. Val_bool (sint res \<ge> 0)) (compare_val custom malloc h v1 v2 False)"

end
