(* ===== verification/Compare_Proofs.thy ===== *)
theory Compare_Proofs
  imports Compare
begin

text \<open>
  Structural comparison against its specification: an order on the trees that values stand
  for, defined by recursion. The loop with the explicit stack computes it.
\<close>

section \<open>The order on trees\<close>

text \<open>
  Integers come before blocks, blocks are ordered by tag; within a tag strings are ordered
  lexicographically, objects by their identifier, blocks by size and then field by field.
\<close>

fun tree_rank :: "tree \<Rightarrow> int" where
  "tree_rank (TLong n) = - 1"
| "tree_rank (TString s) = 4 * int String_tag"
| "tree_rank (TObject n) = 4 * int Object_tag + 1"
| "tree_rank (TBlock t ts) = 4 * int t + 2"

fun tree_compare :: "tree \<Rightarrow> tree \<Rightarrow> int" and trees_compare :: "tree list \<Rightarrow> tree list \<Rightarrow> int" where
  "tree_compare (TLong m) (TLong n) = sgn (m - n)"
| "tree_compare (TString s) (TString t) = lex_compare s t"
| "tree_compare (TObject m) (TObject n) = sgn (m - n)"
| "tree_compare (TBlock t ts) (TBlock u us) =
     (if t \<noteq> u then sgn (int t - int u)
      else if length ts \<noteq> length us then sgn (int (length ts) - int (length us))
      else trees_compare ts us)"
| "tree_compare x y = sgn (tree_rank x - tree_rank y)"
| "trees_compare [] [] = 0"
| "trees_compare (x # xs) (y # ys) = (if tree_compare x y \<noteq> 0 then tree_compare x y else trees_compare xs ys)"
| "trees_compare xs ys = sgn (int (length xs) - int (length ys))"

text \<open>
  The order is the lexicographic order of a prefix code, so that it inherits the contract of
  a three-way comparison.
\<close>

fun tree_code :: "tree \<Rightarrow> int list" where
  "tree_code (TLong n) = [- 1, n]"
| "tree_code (TString s) = tree_rank (TString s) # map (\<lambda>b. uint b + 1) s @ [0]"
| "tree_code (TObject n) = [tree_rank (TObject n), n]"
| "tree_code (TBlock t ts) = tree_rank (TBlock t ts) # int (length ts) # concat (map tree_code ts)"

lemma lex_compare_sgn: "x \<noteq> y \<Longrightarrow> lex_compare (x # xs) (y # ys) = sgn (x - y)" for x y :: int
  by auto

lemma lex_string_code:
  "lex_compare (map (\<lambda>b. uint b + 1) s @ 0 # u) (map (\<lambda>b. uint b + 1) t @ 0 # v) =
     (if s = t then lex_compare u v else lex_compare s t)" for s t :: "u8 list"
proof (induction s t rule: lex_compare.induct)
  case (2 y ys)
  have "0 < uint y + 1" using uint_ge_0 [of y] by linarith
  then show ?case by (simp add: not_less_iff_gr_or_eq)
next
  case (3 x xs)
  have "0 < uint x + 1" "\<not> uint x + 1 < 0" using uint_ge_0 [of x] by linarith+
  then show ?case by simp
qed (auto simp: word_less_def word_uint_eq_iff)

lemma tree_rank_ge: "- 1 \<le> tree_rank t"
  by (cases t) simp_all

lemma tree_code_rank: "\<exists>c. tree_code t = tree_rank t # c"
  by (cases t) simp_all

lemma tree_code_ranks:
  "tree_rank a \<noteq> tree_rank b \<Longrightarrow>
   lex_compare (tree_code a @ x) (tree_code b @ y) = sgn (tree_rank a - tree_rank b)"
  using tree_code_rank [of a] tree_code_rank [of b] by (auto simp: lex_compare_sgn)

lemma tree_code_compare:
  "lex_compare (tree_code a @ x) (tree_code b @ y) = (if a = b then lex_compare x y else tree_compare a b)
   \<and> (tree_compare a b = 0 \<longleftrightarrow> a = b)"
  "length as = length bs \<Longrightarrow>
   lex_compare (concat (map tree_code as) @ x) (concat (map tree_code bs) @ y) =
     (if as = bs then lex_compare x y else trees_compare as bs)
   \<and> (trees_compare as bs = 0 \<longleftrightarrow> as = bs)"
proof (induction a b and as bs arbitrary: x y and x y rule: tree_compare_trees_compare.induct)
  case (2 s t)
  then show ?case by (simp add: lex_string_code lex_compare_0_iff)
next
  case (4 t ts u us)
  show ?case
  proof (cases "t = u \<and> length ts = length us")
    case True
    with 4 [of x y] show ?thesis by auto
  next
    case False
    then show ?thesis by (auto simp: sgn_if)
  qed
qed (auto simp: sgn_if tag_defs split: if_splits, presburger+)

lemma tree_compare_code: "tree_compare a b = lex_compare (tree_code a) (tree_code b)"
  using tree_code_compare(1) [of a "[]" b "[]"] by (cases "a = b") auto

lemma tree_compare_0_iff: "tree_compare a b = 0 \<longleftrightarrow> a = b"
  using tree_code_compare(1) [of a "[]" b "[]"] by simp

interpretation tree: three_way tree_compare
proof
  show "sgn (tree_compare y x) = - sgn (tree_compare x y)" for x y
    unfolding tree_compare_code by (rule lex.swap)
  show "tree_compare x y \<le> 0 \<Longrightarrow> tree_compare y z \<le> 0 \<Longrightarrow> tree_compare x z \<le> 0" for x y z
    unfolding tree_compare_code by (rule lex.trans)
qed

section \<open>The stack the loop needs\<close>

text \<open>
  Fields but the last are compared with one more item on the stack, the last one without, so
  that a list of any length takes one item.
\<close>

fun stack_need :: "tree \<Rightarrow> nat" and stack_needs :: "tree list \<Rightarrow> nat" where
  "stack_need (TBlock t ts) = stack_needs ts"
| "stack_need _ = 0"
| "stack_needs [] = 0"
| "stack_needs [x] = stack_need x"
| "stack_needs (x # y # zs) = max (1 + stack_need x) (stack_needs (y # zs))"

definition stack_size :: "nat \<Rightarrow> bool" where
  "stack_size lim \<longleftrightarrow> (\<exists>k\<le>11. lim = COMPARE_STACK_INIT_SIZE * 2 ^ k)"

lemma stack_size_init: "stack_size COMPARE_STACK_INIT_SIZE"
  unfolding stack_size_def by (rule exI [of _ 0]) simp

lemma resize_granted:
  assumes "stack_size lim" "lim < 2 ^ 19" "malloc = (\<lambda>_. True)"
  shows "compare_resize_stack malloc lim = Some (2 * lim) \<and> stack_size (2 * lim)"
proof -
  obtain k where k: "k \<le> 11" "lim = 256 * 2 ^ k"
    using assms(1) by (auto simp: stack_size_def COMPARE_STACK_INIT_SIZE_def)
  with assms(2) have "k \<noteq> 11" by auto
  with k have "Suc k \<le> 11" "2 * lim = 256 * 2 ^ Suc k" by auto
  then have "stack_size (2 * lim)" unfolding stack_size_def COMPARE_STACK_INIT_SIZE_def by blast
  moreover have "2 * lim < 2 ^ 20" using assms(2) by simp
  ultimately show ?thesis
    using assms(3) by (simp add: compare_resize_stack_def COMPARE_STACK_MAX_SIZE_def)
qed

section \<open>Machine differences\<close>

lemma sint_Long_val: "sint (Long_val n) = sint n div 2"
  by (simp add: Long_val_def sint_signed_drop_bit_eq drop_bit_eq_div)

lemma Long_val_inject:
  assumes "Is_long m" "Is_long n" "Long_val m = Long_val n"
  shows "m = n"
proof -
  have "odd (sint k)" if "Is_long k" for k
  proof -
    have "bit k 0" using that by (auto simp: Is_long_def and_one_eq bit_0 mod2_eq_if)
    then have "bit (sint k) 0" by (simp add: bit_sint_iff)
    then show ?thesis by (simp add: bit_0)
  qed
  then have "odd (sint m)" "odd (sint n)" using assms by blast+
  moreover have "sint m div 2 = sint n div 2" using assms(3) sint_Long_val by metis
  ultimately have "sint m = sint n" by (metis odd_two_times_div_two_succ)
  then show ?thesis by (rule signed_word_eqI)
qed

lemma sint_diff:
  fixes a b :: u64
  assumes "- (2 ^ 63) \<le> sint a - sint b" "sint a - sint b < 2 ^ 63"
  shows "sint (a - b) = sint a - sint b"
proof -
  have "a - b = word_of_int (sint a - sint b)" by simp
  moreover have "signed_take_bit 63 (sint a - sint b) = sint a - sint b"
    using assms by (intro signed_take_bit_int_eq_self) simp_all
  ultimately show ?thesis by (simp only: sint_sbintrunc') simp
qed

lemma sint_Long_val_range: "- (2 ^ 62) \<le> sint (Long_val n)" "sint (Long_val n) < 2 ^ 62"
proof -
  have "sint (Long_val n) = sint n div 2" by (rule sint_Long_val)
  moreover have "- (2 ^ 63) \<le> sint n" "sint n < 2 ^ 63" using sint_ge [of n] sint_lt [of n] by simp_all
  ultimately show "- (2 ^ 62) \<le> sint (Long_val n)" "sint (Long_val n) < 2 ^ 62" by simp_all
qed

lemma sint_of_nat_diff:
  "m \<le> 2 ^ 60 \<Longrightarrow> n \<le> 2 ^ 60 \<Longrightarrow> sint (of_nat m - of_nat n :: u64) = int m - int n"
  by (subst sint_diff) (simp_all add: sint_of_nat_small)

text \<open>What \<open>compare_val\<close> promises of its result.\<close>

definition signals :: "u64 \<Rightarrow> int \<Rightarrow> bool" where
  "signals r c \<longleftrightarrow> sgn (sint r) = c \<and> r \<noteq> UNORDERED"

lemma signalsI: "sint r = d \<Longrightarrow> - (2 ^ 63) < d \<Longrightarrow> c = sgn d \<Longrightarrow> signals r c"
  by (auto simp: signals_def UNORDERED_def push_bit_eq_mult)

lemma signals_of_nat:
  "m \<le> 2 ^ 60 \<Longrightarrow> n \<le> 2 ^ 60 \<Longrightarrow> signals (of_nat m - of_nat n) (sgn (int m - int n))"
  by (rule signalsI [OF sint_of_nat_diff]) simp_all

lemma signals_Long_val:
  "signals (Long_val m - Long_val n) (sgn (sint (Long_val m) - sint (Long_val n)))"
  using sint_Long_val_range [of m] sint_Long_val_range [of n]
  by (intro signalsI [OF sint_diff]) simp_all

lemma sint_ucast_byte: "sint (ucast (b :: u8) :: u64) = uint b"
proof -
  obtain c where c: "uint b = c" "0 \<le> c" "c < 256" using uint_bounded [of b] by simp
  moreover from c have "signed_take_bit 63 c = c"
    by (intro signed_take_bit_int_eq_self) simp_all
  ultimately show ?thesis
    by (simp add: sint_uint unsigned_ucast_eq take_bit_int_eq_self)
qed

lemma compare_bytes_lex:
  assumes "n = min (length s) (length t)"
  shows "case compare_bytes n (s @ u) (t @ v) of
      Some r \<Rightarrow> s \<noteq> t \<and> signals r (lex_compare s t)
    | None \<Rightarrow> take n s = take n t"
  using assms
proof (induction s t arbitrary: n rule: lex_compare.induct)
  case (4 x xs y ys)
  have "signals (ucast x - ucast y) (lex_compare (x # xs) (y # ys))" if "x \<noteq> y"
  proof (rule signalsI [OF sint_diff])
    obtain a b where "uint x = a" "0 \<le> a" "a < 256" "uint y = b" "0 \<le> b" "b < 256"
      using uint_bounded [of x] uint_bounded [of y] by simp
    then show "- (2 ^ 63) \<le> sint (ucast x :: u64) - sint (ucast y :: u64)"
      "sint (ucast x :: u64) - sint (ucast y :: u64) < 2 ^ 63"
      "- (2 ^ 63) < sint (ucast x :: u64) - sint (ucast y :: u64)"
      unfolding sint_ucast_byte by simp_all
    show "lex_compare (x # xs) (y # ys) = sgn (sint (ucast x :: u64) - sint (ucast y :: u64))"
      using that by (auto simp: sint_ucast_byte word_less_def word_uint_eq_iff sgn_if)
  qed
  with 4 show ?case by (auto split: option.splits)
qed auto

lemma compare_strings_lex:
  assumes "length s < 2 ^ 58" "length t < 2 ^ 58"
  shows "case compare_strings (string_block s) (string_block t) of
      Some r \<Rightarrow> s \<noteq> t \<and> signals r (lex_compare s t)
    | None \<Rightarrow> s = t"
proof -
  let ?n = "min (length s) (length t)"
  obtain u v where uv: "string_block s = s @ u" "string_block t = t @ v"
    using string_block_append by meson
  have n: "(if length s \<le> length t then length s else length t) = ?n" by simp
  have m: "compare_bytes ?n (string_block s) (string_block t) = compare_bytes ?n (s @ u) (t @ v)"
    by (simp only: uv)
  note b = compare_bytes_lex [OF refl, of s t u v]
  show ?thesis
  proof (cases "compare_bytes ?n (s @ u) (t @ v)")
    case (Some r)
    with b show ?thesis
      unfolding compare_strings_def string_length_block Let_def n m by simp
  next
    case None
    then have eq: "take ?n s = take ?n t" using b by simp
    have "signals (of_nat (length s) - of_nat (length t)) (lex_compare s t)"
      using signals_of_nat [of "length s" "length t"] assms memcmp_lex_compare(2) [OF refl eq] by simp
    moreover have "s = t" if "length s = length t" using eq that by simp
    ultimately show ?thesis
      using None unfolding compare_strings_def string_length_block Let_def n m by auto
  qed
qed

section \<open>The loop computes the order\<close>

text \<open>What the loop does next after a step.\<close>

definition compare_run :: "custom_compare \<Rightarrow> heap \<Rightarrow> bool \<Rightarrow> compare_next \<Rightarrow> u64 outcome option" where
  "compare_run custom h tot s =
     (case s of
        Done r \<Rightarrow> Some r
      | Next v1 v2 sp lim \<Rightarrow> compare_loop custom (\<lambda>_. True) h tot v1 v2 sp lim
      | Undef \<Rightarrow> None)"

lemma compare_loop_run:
  "compare_loop custom (\<lambda>_. True) h tot v1 v2 sp lim =
     compare_run custom h tot (compare_step custom (\<lambda>_. True) h tot v1 v2 sp lim)"
  unfolding compare_run_def by (subst compare_loop.simps) simp

lemma compare_run_simps [simp]:
  "compare_run custom h tot (Done r) = Some r"
  "compare_run custom h tot (Next v1 v2 sp lim) = compare_loop custom (\<lambda>_. True) h tot v1 v2 sp lim"
  by (simp_all add: compare_run_def)

text \<open>
  A run that compares equal trees goes on with the stack, whose size may have grown; one
  that compares different trees ends with the sign of the order.
\<close>

definition run_decides :: "custom_compare \<Rightarrow> heap \<Rightarrow> bool \<Rightarrow> compare_item list \<Rightarrow> nat \<Rightarrow> int \<Rightarrow>
    u64 outcome option \<Rightarrow> bool" where
  "run_decides custom h tot sp lim c res \<longleftrightarrow>
     (if c = 0 then \<exists>lim'. stack_size lim' \<and> lim \<le> lim' \<and> res = compare_run custom h tot (next_item sp lim')
      else \<exists>r. res = Some (Inr r) \<and> signals r c)"

lemma run_decides_next: "stack_size lim \<Longrightarrow> run_decides custom h tot sp lim 0 (compare_run custom h tot (next_item sp lim))"
  by (auto simp: run_decides_def)

lemma run_decides_done: "c \<noteq> 0 \<Longrightarrow> signals r c \<Longrightarrow> run_decides custom h tot sp lim c (Some (Inr r))"
  by (auto simp: run_decides_def)

lemma run_decides_mono: "run_decides custom h tot sp lim' c res \<Longrightarrow> lim \<le> lim' \<Longrightarrow> run_decides custom h tot sp lim c res"
  by (fastforce simp: run_decides_def split: if_splits)

definition decides :: "custom_compare \<Rightarrow> heap \<Rightarrow> bool \<Rightarrow> val \<Rightarrow> val \<Rightarrow> tree \<Rightarrow> tree \<Rightarrow> bool" where
  "decides custom h tot v1 v2 t1 t2 \<longleftrightarrow>
     (\<forall>sp lim. stack_size lim \<longrightarrow> length sp < lim \<longrightarrow> length sp + stack_need t1 < 2 ^ 19 \<longrightarrow>
        run_decides custom h tot sp lim (tree_compare t1 t2)
          (compare_loop custom (\<lambda>_. True) h tot v1 v2 sp lim))"

lemma decidesD:
  "decides custom h tot v1 v2 t1 t2 \<Longrightarrow> stack_size lim \<Longrightarrow> length sp < lim \<Longrightarrow>
   length sp + stack_need t1 < 2 ^ 19 \<Longrightarrow>
   run_decides custom h tot sp lim (tree_compare t1 t2)
     (compare_loop custom (\<lambda>_. True) h tot v1 v2 sp lim)"
  by (simp add: decides_def)

text \<open>The fields of an item on top of the stack.\<close>

lemma fields_decided:
  assumes "list_all2 (\<lambda>v t. \<forall>v2 t2. repr h v2 t2 \<longrightarrow> decides custom h tot v v2 t t2) fs1 ts1"
    and "list_all2 (repr h) fs2 ts2" "length ts2 = length ts1" "fs1 \<noteq> []"
    and "stack_size lim" "length sp < lim" "1 < length fs1 \<longrightarrow> length sp + 1 < lim"
    and "length sp + stack_needs ts1 < 2 ^ 19"
  shows "run_decides custom h tot sp lim (trees_compare ts1 ts2)
      (compare_run custom h tot (next_item ((fs1, fs2) # sp) lim))"
  using assms
proof (induction fs1 arbitrary: fs2 ts1 ts2 lim)
  case (Cons f1 r1)
  then obtain x xs where ts1: "ts1 = x # xs" "\<And>v2 t2. repr h v2 t2 \<Longrightarrow> decides custom h tot f1 v2 x t2"
    "list_all2 (\<lambda>v t. \<forall>v2 t2. repr h v2 t2 \<longrightarrow> decides custom h tot v v2 t t2) r1 xs"
    by (auto simp: list_all2_Cons1)
  with Cons.prems obtain f2 r2 y ys where ts2: "fs2 = f2 # r2" "ts2 = y # ys" "repr h f2 y"
    "list_all2 (repr h) r2 ys" "length ys = length xs"
    by (cases ts2) (auto simp: list_all2_Cons2)
  have d: "decides custom h tot f1 f2 x y" using ts1(2) ts2(3) .
  have len: "length r1 = length xs" "length r2 = length ys"
    using ts1(3) ts2(4) by (simp_all add: list_all2_lengthD)
  show ?case
  proof (cases r1)
    case Nil
    with len ts2(5) have e: "xs = []" "ys = []" "r2 = []" by simp_all
    have "run_decides custom h tot sp lim (tree_compare x y) (compare_loop custom (\<lambda>_. True) h tot f1 f2 sp lim)"
      using Cons.prems e by (intro decidesD [OF d]) (simp_all add: ts1(1))
    then show ?thesis using Nil e by (cases "tree_compare x y = 0") (simp_all add: ts1(1) ts2(1,2))
  next
    case (Cons f1' r1')
    with len ts2(5) obtain f2' r2' x' xs' where e: "r2 = f2' # r2'" "xs = x' # xs'"
      by (metis length_0_conv neq_Nil_conv)
    let ?sp = "(r1, r2) # sp"
    have n: "next_item ((f1 # r1, f2 # r2) # sp) lim = Next f1 f2 ?sp lim"
      by (simp add: Cons e(1))
    have b: "length ?sp < lim" "length ?sp + stack_need x < 2 ^ 19" "length sp + stack_needs xs < 2 ^ 19"
      using Cons.prems Cons by (simp_all add: ts1(1) e(2))
    have r: "run_decides custom h tot ?sp lim (tree_compare x y)
        (compare_loop custom (\<lambda>_. True) h tot f1 f2 ?sp lim)"
      using b \<open>stack_size lim\<close> by (intro decidesD [OF d])
    show ?thesis
    proof (cases "tree_compare x y = 0")
      case True
      with r obtain lim' where l: "stack_size lim'" "lim \<le> lim'"
        "compare_loop custom (\<lambda>_. True) h tot f1 f2 ?sp lim = compare_run custom h tot (next_item ?sp lim')"
        by (auto simp: run_decides_def)
      have "run_decides custom h tot sp lim' (trees_compare xs ys) (compare_run custom h tot (next_item ?sp lim'))"
        using ts1(3) ts2(4,5) Cons l b by (intro Cons.IH) simp_all
      with l True show ?thesis
        unfolding ts1(1) ts2(1,2) n by (auto intro: run_decides_mono)
    next
      case False
      with r show ?thesis
        unfolding ts1(1) ts2(1,2) n by (simp add: run_decides_def)
    qed
  qed
qed simp

section \<open>Values and trees\<close>

lemma forward_not_plain: "\<not> plain_tag Forward_tag"
  by (simp add: plain_tag_def)

lemma repr_unique: "repr h v t \<Longrightarrow> repr h v t' \<Longrightarrow> t = t'"
proof (induction arbitrary: t' rule: repr.induct)
  case (repr_block a t fs ts)
  from repr_block.prems repr_block.hyps obtain us where us: "t' = TBlock t us" "list_all2 (repr h) fs us"
    by (cases rule: repr_PtrE) (auto simp: plain_tag_def)
  have "list_all2 (=) ts us"
    using repr_block.IH us(2)
    by (auto simp: list_all2_conv_all_nth)
  with us(1) show ?case by (simp add: list.rel_eq)
next
  case (repr_forward a v fs t)
  from repr_forward.prems repr_forward.hyps have "repr h v t'"
    by (cases rule: repr_PtrE) (auto simp: plain_tag_def tag_defs)
  then show ?case by (rule repr_forward.IH)
qed (auto elim!: repr_LongE repr_PtrE simp: plain_tag_def tag_defs string_block_inject)

text \<open>A value that is not a forwarding block.\<close>

fun direct :: "heap \<Rightarrow> val \<Rightarrow> bool" where
  "direct h (Long n) = True"
| "direct h (Ptr a) = (h a \<noteq> None \<and> \<not> is_forward (h a))"

fun tree_tag :: "tree \<Rightarrow> nat" where
  "tree_tag (TLong n) = 0"
| "tree_tag (TString s) = String_tag"
| "tree_tag (TObject n) = Object_tag"
| "tree_tag (TBlock t ts) = t"

lemma repr_heap: "repr h (Ptr a) t \<Longrightarrow> h a \<noteq> None"
  by (auto elim: repr_PtrE)

text \<open>What the block of a direct pointer is.\<close>

lemma direct_block:
  assumes "repr h (Ptr a) t" "direct h (Ptr a)"
  shows "(\<exists>s. t = TString s \<and> h a = Some (Opaque String_tag (string_block s)) \<and> length s < 8 * Max_wosize)
    \<or> (\<exists>m oid fs. t = TObject (sint (Long_val oid)) \<and> h a = Some (Scannable Object_tag (m # Long oid # fs)) \<and> Is_long oid)
    \<or> (\<exists>g fs ts. t = TBlock g ts \<and> h a = Some (Scannable g fs) \<and> plain_tag g \<and> length fs \<le> Max_wosize
          \<and> list_all2 (repr h) fs ts)"
  using assms by (cases rule: repr_PtrE) auto

lemma decidesI:
  assumes "\<And>sp lim. stack_size lim \<Longrightarrow> length sp < lim \<Longrightarrow> length sp + stack_need t1 < 2 ^ 19 \<Longrightarrow>
      run_decides custom h tot sp lim (tree_compare t1 t2)
        (compare_run custom h tot (compare_step custom (\<lambda>_. True) h tot v1 v2 sp lim))"
  shows "decides custom h tot v1 v2 t1 t2"
  using assms by (simp add: decides_def compare_loop_run)

lemma decides_forward1:
  assumes "h a = Some (Scannable Forward_tag (v # fs))" "repr h v t1" "repr h v2 t2"
    "decides custom h tot v v2 t1 t2"
  shows "decides custom h tot (Ptr a) v2 t1 t2"
proof (cases "v2 = Ptr a \<and> tot")
  case True
  then have "t1 = t2" using assms(1-3) repr_unique repr_forward by metis
  then have "tree_compare t1 t2 = 0" by (simp add: tree_compare_0_iff)
  with True show ?thesis by (intro decidesI) (simp add: run_decides_next)
next
  case False
  have "\<exists>b. h x = Some b" if "v2 = Ptr x" for x using assms(3) that repr_heap by auto
  then have "compare_step custom (\<lambda>_. True) h tot (Ptr a) v2 sp lim = Next v v2 sp lim" for sp lim
    using False assms(1) by (cases v2) (auto simp: follow_def)
  with assms(4) show ?thesis by (intro decidesI) (simp add: decidesD)
qed

lemma decides_forward2:
  assumes "h a = Some (Scannable Forward_tag (v # fs))" "direct h v1" "decides custom h tot v1 v t1 t2"
  shows "decides custom h tot v1 (Ptr a) t1 t2"
proof -
  have "compare_step custom (\<lambda>_. True) h tot v1 (Ptr a) sp lim = Next v1 v sp lim" for sp lim
    using assms(1,2) by (cases v1) (auto simp: follow_def)
  with assms(3) show ?thesis by (intro decidesI) (simp add: decidesD)
qed

lemma direct_heads:
  "h a = Some (Opaque String_tag bs) \<Longrightarrow> direct h (Ptr a)"
  "h a = Some (Scannable Object_tag fs) \<Longrightarrow> direct h (Ptr a)"
  "h a = Some (Scannable t fs) \<Longrightarrow> plain_tag t \<Longrightarrow> direct h (Ptr a)"
  by (auto simp: tag_defs plain_tag_def)

lemma decides_to_direct:
  assumes "repr h v2 t2" "direct h v1"
    and "\<And>w. direct h w \<Longrightarrow> repr h w t2 \<Longrightarrow> decides custom h tot v1 w t1 t2"
  shows "decides custom h tot v1 v2 t1 t2"
  using assms
proof (induction rule: repr.induct)
  case (repr_long n)
  then show ?case using repr.repr_long [of n h] direct.simps(1) by blast
next
  case (repr_string a s)
  then show ?case using repr.repr_string direct_heads(1) by blast
next
  case (repr_object a m oid fs)
  then show ?case using repr.repr_object direct_heads(2) by blast
next
  case (repr_block a t fs ts)
  have "list_all2 (repr h) fs ts" using repr_block.IH by (auto elim: list_all2_mono)
  with repr_block.hyps have "repr h (Ptr a) (TBlock t ts)" by (intro repr.repr_block)
  moreover have "direct h (Ptr a)" using repr_block.hyps direct_heads(3) by blast
  ultimately show ?case using repr_block.prems by blast
next
  case (repr_forward a v fs t)
  then show ?case using decides_forward2 by blast
qed

section \<open>Direct values\<close>

lemma tree_tag_block: "repr h (Ptr a) t \<Longrightarrow> direct h (Ptr a) \<Longrightarrow> \<exists>b. h a = Some b \<and> tag_of b = tree_tag t"
  using direct_block by fastforce

lemma tree_tag_small: "repr h v t \<Longrightarrow> tree_tag t < 256"
  by (induction rule: repr.induct) (simp_all add: plain_tag_def tag_defs)

text \<open>Blocks of different tags: the order of the tags.\<close>

lemma tree_compare_tags:
  assumes "repr h (Ptr a) t" "direct h (Ptr a)" "repr h (Ptr b) u" "direct h (Ptr b)" "tree_tag t \<noteq> tree_tag u"
  shows "tree_compare t u = sgn (int (tree_tag t) - int (tree_tag u))"
  using direct_block [OF assms(1,2)] direct_block [OF assms(3,4)] assms(5)
  by (elim disjE exE conjE) (simp_all add: sgn_if plain_tag_def tag_defs split: if_splits)

lemma compare_same_string:
  assumes "b1 = Opaque String_tag (string_block s)" "b2 = Opaque String_tag (string_block t)"
    and "length s < 8 * Max_wosize" "length t < 8 * Max_wosize" "same \<longrightarrow> s = t" "stack_size lim"
  shows "run_decides custom h tot sp lim (lex_compare s t)
    (compare_run custom h tot (compare_blocks custom (\<lambda>_. True) tot same b1 b2 sp lim))"
proof -
  have "length s < 2 ^ 58" "length t < 2 ^ 58" using assms(3,4) by (simp_all add: Max_wosize_def)
  note c = compare_strings_lex [OF this]
  show ?thesis
  proof (cases "s = t")
    case True
    with c have "compare_strings (string_block s) (string_block t) = None"
      by (auto split: option.splits)
    with True assms(1,2,6) show ?thesis
      by (simp add: compare_blocks_def run_decides_next lex_compare_0_iff)
  next
    case False
    with c obtain r where "compare_strings (string_block s) (string_block t) = Some r" "signals r (lex_compare s t)"
      by (auto split: option.splits)
    with False assms show ?thesis
      by (simp add: compare_blocks_def run_decides_done lex_compare_0_iff)
  qed
qed

lemma compare_same_object:
  assumes "b1 = Scannable Object_tag (m # Long o1 # fs)" "b2 = Scannable Object_tag (n # Long o2 # gs)"
    and "stack_size lim"
  shows "run_decides custom h tot sp lim (sgn (sint (Long_val o1) - sint (Long_val o2)))
    (compare_run custom h tot (compare_blocks custom (\<lambda>_. True) tot same b1 b2 sp lim))"
proof (cases "Long_val o1 = Long_val o2")
  case True
  with assms show ?thesis by (simp add: compare_blocks_def tag_defs run_decides_next)
next
  case False
  then have "sgn (sint (Long_val o1) - sint (Long_val o2)) \<noteq> 0" by (auto simp: sgn_if signed_word_eqI)
  with False assms signals_Long_val [of o1 o2] show ?thesis
    by (simp add: compare_blocks_def tag_defs run_decides_done)
qed

lemma next_item_fields:
  "length fs = length gs \<Longrightarrow>
   next_item ((f # fs, e # gs) # sp) lim = (if fs = [] then Next f e sp lim else Next f e ((fs, gs) # sp) lim)"
  by (cases fs; cases gs) simp_all

lemma plain_tagD:
  "plain_tag g \<Longrightarrow> g \<noteq> String_tag \<and> g \<noteq> Abstract_tag \<and> \<not> (g = Closure_tag \<or> g = Infix_tag)
    \<and> g \<noteq> Object_tag \<and> g \<noteq> Custom_tag \<and> g \<noteq> Forward_tag"
  by (auto simp: plain_tag_def tag_defs)

lemma compare_blocks_push:
  assumes "plain_tag g" "length fs = length gs"
  shows "compare_blocks custom malloc tot same (Scannable g (f # fs)) (Scannable g (e # gs)) sp lim =
    (if fs = [] then Next f e sp lim
     else if lim \<le> length sp + 1
     then (case compare_resize_stack malloc lim of
             None \<Rightarrow> Done (Inl Out_of_memory)
           | Some lim' \<Rightarrow> Next f e ((fs, gs) # sp) lim')
     else Next f e ((fs, gs) # sp) lim)"
  using assms(2) plain_tagD [OF assms(1)] by (cases fs; cases gs) (auto simp: compare_blocks_def)

lemma compare_same_block:
  assumes "plain_tag g" "list_all2 (\<lambda>v t. \<forall>v2 t2. repr h v2 t2 \<longrightarrow> decides custom h tot v v2 t t2) fs ts"
    and "list_all2 (repr h) gs us" "length fs \<le> Max_wosize" "length gs \<le> Max_wosize"
    and "stack_size lim" "length sp < lim" "length sp + stack_needs ts < 2 ^ 19"
  shows "run_decides custom h tot sp lim (tree_compare (TBlock g ts) (TBlock g us))
    (compare_run custom h tot (compare_blocks custom (\<lambda>_. True) tot same (Scannable g fs) (Scannable g gs) sp lim))"
proof -
  have len: "length fs = length ts" "length gs = length us"
    using assms(2,3) by (simp_all add: list_all2_lengthD)
  note tags = plain_tagD [OF assms(1)]
  show ?thesis
  proof (cases "length fs = length gs")
    case False
    then have "signals (of_nat (length fs) - of_nat (length gs)) (sgn (int (length fs) - int (length gs)))"
      using assms(4,5) by (intro signals_of_nat) (simp_all add: Max_wosize_def)
    with False len tags show ?thesis
      by (simp add: compare_blocks_def run_decides_done sgn_if)
  next
    case True
    show ?thesis
    proof (cases fs)
      case Nil
      with True len tags assms(6) show ?thesis
        by (simp add: compare_blocks_def run_decides_next)
    next
      case (Cons f fs')
      with True obtain e gs' where gs: "gs = e # gs'" by (cases gs) auto
      have l: "length fs' = length gs'" using True Cons gs by simp
      note push = compare_blocks_push [OF assms(1) l, of custom "\<lambda>_. True" tot same f e sp lim]
        and item = next_item_fields [OF l, of f e sp]
      obtain lim' where lim': "stack_size lim'" "lim \<le> lim'" "1 < length fs \<longrightarrow> length sp + 1 < lim'"
        "compare_blocks custom (\<lambda>_. True) tot same (Scannable g fs) (Scannable g gs) sp lim =
         next_item ((fs, gs) # sp) lim'"
      proof (cases "fs' \<noteq> [] \<and> length sp + 1 \<ge> lim")
        case True
        with Cons len(1) obtain x y zs where "ts = x # y # zs"
          by (auto simp: neq_Nil_conv length_Suc_conv Suc_length_conv)
        then have "length sp + 1 < 2 ^ 19" using assms(8) by simp
        with True have r: "compare_resize_stack (\<lambda>_. True) lim = Some (2 * lim)" "stack_size (2 * lim)"
          using resize_granted [OF assms(6) _ refl] by simp_all
        show ?thesis
        proof (rule that [of "2 * lim"])
          show "compare_blocks custom (\<lambda>_. True) tot same (Scannable g fs) (Scannable g gs) sp lim =
              next_item ((fs, gs) # sp) (2 * lim)"
            unfolding Cons gs push item using True r by simp
        qed (use r(2) assms(7) in simp_all)
      next
        case False
        show ?thesis
        proof (rule that [of lim])
          show "compare_blocks custom (\<lambda>_. True) tot same (Scannable g fs) (Scannable g gs) sp lim =
              next_item ((fs, gs) # sp) lim"
            unfolding Cons gs push item using False by (cases "fs' = []") simp_all
        qed (use False assms(6) Cons in auto)
      qed
      have "run_decides custom h tot sp lim' (trees_compare ts us)
          (compare_run custom h tot (next_item ((fs, gs) # sp) lim'))"
        using assms(7) lim'(2) len True Cons
        by (intro fields_decided [OF assms(2,3) _ _ lim'(1) _ lim'(3) assms(8)]) simp_all
      with lim' len True show ?thesis by (auto intro: run_decides_mono)
    qed
  qed
qed

lemma direct_decided:
  assumes r1: "repr h v1 t1" "direct h v1" and r2: "repr h v2 t2" "direct h v2"
    and fields: "\<And>a g fs ts. v1 = Ptr a \<Longrightarrow> h a = Some (Scannable g fs) \<Longrightarrow> t1 = TBlock g ts \<Longrightarrow>
      list_all2 (\<lambda>v t. \<forall>v2 t2. repr h v2 t2 \<longrightarrow> decides custom h tot v v2 t t2) fs ts"
  shows "decides custom h tot v1 v2 t1 t2"
proof (rule decidesI)
  fix sp :: "compare_item list" and lim
  assume lim: "stack_size lim" "length sp < lim" "length sp + stack_need t1 < 2 ^ 19"
  let ?goal = "\<lambda>s. run_decides custom h tot sp lim (tree_compare t1 t2) (compare_run custom h tot s)"
  show "?goal (compare_step custom (\<lambda>_. True) h tot v1 v2 sp lim)"
  proof (cases v1; cases v2)
    fix m n assume v: "v1 = Long m" "v2 = Long n"
    with r1 r2 have t: "t1 = TLong (sint (Long_val m))" "t2 = TLong (sint (Long_val n))" "Is_long m" "Is_long n"
      by (auto elim: repr_LongE)
    then have "m = n \<longleftrightarrow> Long_val m = Long_val n" using Long_val_inject by metis
    then show ?thesis
      using v t lim(1) signals_Long_val [of m n]
      by (auto simp: run_decides_next intro!: run_decides_done simp: sgn_eq_0_iff signed_word_eqI)
  next
    fix m b assume v: "v1 = Long m" "v2 = Ptr b"
    have "tree_compare t1 t2 = - 1"
      using r1 v(1) direct_block [OF r2 [unfolded v(2)]] by (auto elim!: repr_LongE simp: sgn_if tag_defs)
    moreover have "signals LESS (- 1)" by (rule signalsI [of _ "- 1"]) (simp_all add: LESS_def)
    ultimately show ?thesis
      using v r2 by (auto intro!: run_decides_done)
  next
    fix a n assume v: "v1 = Ptr a" "v2 = Long n"
    have "tree_compare t1 t2 = 1"
      using r2 v(2) direct_block [OF r1 [unfolded v(1)]] by (auto elim!: repr_LongE simp: sgn_if tag_defs)
    moreover have "signals GREATER 1" by (rule signalsI [of _ 1]) (simp_all add: GREATER_def)
    ultimately show ?thesis
      using v r1 by (auto intro!: run_decides_done)
  next
    fix a b assume v: "v1 = Ptr a" "v2 = Ptr b"
    note d1 = direct_block [OF r1 [unfolded v(1)]] and d2 = direct_block [OF r2 [unfolded v(2)]]
    from tree_tag_block [OF r1 [unfolded v(1)]] tree_tag_block [OF r2 [unfolded v(2)]]
    obtain b1 b2 where b: "h a = Some b1" "tag_of b1 = tree_tag t1" "h b = Some b2" "tag_of b2 = tree_tag t2" by blast
    have nf: "tag_of b1 \<noteq> Forward_tag" "tag_of b2 \<noteq> Forward_tag" using r1(2) r2(2) v b by simp_all
    have same: "t1 = t2" if "a = b" using that v r1(1) r2(1) repr_unique by metis
    consider "a = b \<and> tot" | "\<not> (a = b \<and> tot)" "tree_tag t1 \<noteq> tree_tag t2" | "\<not> (a = b \<and> tot)" "tree_tag t1 = tree_tag t2"
      by blast
    then show ?thesis
    proof cases
      case 1
      with v same lim(1) show ?thesis by (simp add: run_decides_next tree_compare_0_iff)
    next
      case 2
      have "tree_compare t1 t2 = sgn (int (tree_tag t1) - int (tree_tag t2))"
        using tree_compare_tags r1 r2 v 2(2) by blast
      moreover have "signals (of_nat (tree_tag t1) - of_nat (tree_tag t2)) (sgn (int (tree_tag t1) - int (tree_tag t2)))"
        using tree_tag_small [OF r1(1)] tree_tag_small [OF r2(1)] by (intro signals_of_nat) simp_all
      ultimately show ?thesis
        using 2 v b nf by (auto intro!: run_decides_done simp: sgn_if)
    next
      case 3
      then have s: "compare_step custom (\<lambda>_. True) h tot v1 v2 sp lim =
          compare_blocks custom (\<lambda>_. True) tot (a = b) b1 b2 sp lim"
        using 3(1) v b nf by (cases "a = b") simp_all
      from d1 d2 3(2) have "?goal (compare_blocks custom (\<lambda>_. True) tot (a = b) b1 b2 sp lim)"
      proof (elim disjE exE conjE)
        fix s t
        assume "t1 = TString s" "t2 = TString t" "h a = Some (Opaque String_tag (string_block s))"
          "h b = Some (Opaque String_tag (string_block t))" "length s < 8 * Max_wosize" "length t < 8 * Max_wosize"
        with same b lim(1) show "?goal (compare_blocks custom (\<lambda>_. True) tot (a = b) b1 b2 sp lim)" by (auto intro!: compare_same_string)
      next
        fix m1 o1 fs1 m2 o2 fs2
        assume "t1 = TObject (sint (Long_val o1))" "t2 = TObject (sint (Long_val o2))"
          "h a = Some (Scannable Object_tag (m1 # Long o1 # fs1))" "h b = Some (Scannable Object_tag (m2 # Long o2 # fs2))"
        with b lim(1) show "?goal (compare_blocks custom (\<lambda>_. True) tot (a = b) b1 b2 sp lim)"
          by (auto intro!: compare_same_object)
      next
        fix g1 fs1 ts1 g2 fs2 ts2
        assume *: "tree_tag t1 = tree_tag t2" "t1 = TBlock g1 ts1" "t2 = TBlock g2 ts2" "h a = Some (Scannable g1 fs1)"
          "h b = Some (Scannable g2 fs2)" "plain_tag g1" "length fs1 \<le> Max_wosize" "length fs2 \<le> Max_wosize"
          "list_all2 (repr h) fs2 ts2"
        then show "?goal (compare_blocks custom (\<lambda>_. True) tot (a = b) b1 b2 sp lim)"
          using b lim fields [OF v(1) *(4,2)] compare_same_block [of g1 h custom tot fs1 ts1 fs2 ts2 lim sp "a = b"]
          by simp
      qed (auto simp: plain_tag_def tag_defs)
      then show ?thesis unfolding s .
    qed
  qed
qed

lemma decided_from_direct:
  assumes "repr h v1 t1" "direct h v1" "repr h v2 t2"
    and "\<And>a g fs ts. v1 = Ptr a \<Longrightarrow> h a = Some (Scannable g fs) \<Longrightarrow> t1 = TBlock g ts \<Longrightarrow>
      list_all2 (\<lambda>v t. \<forall>v2 t2. repr h v2 t2 \<longrightarrow> decides custom h tot v v2 t t2) fs ts"
  shows "decides custom h tot v1 v2 t1 t2"
  using assms(3,2)
proof (rule decides_to_direct)
  fix w assume "direct h w" "repr h w t2"
  with assms show "decides custom h tot v1 w t1 t2" by (intro direct_decided)
qed

theorem repr_decided:
  assumes "repr h v1 t1" "repr h v2 t2"
  shows "decides custom h tot v1 v2 t1 t2"
  using assms
proof (induction arbitrary: v2 t2 rule: repr.induct)
  case (repr_long n)
  then show ?case by (intro decided_from_direct) (auto intro: repr.repr_long)
next
  case (repr_string a s)
  have "repr h (Ptr a) (TString s)" "direct h (Ptr a)"
    using repr_string.hyps repr.repr_string direct_heads(1) by blast+
  with repr_string.prems show ?case by (intro decided_from_direct) auto
next
  case (repr_object a m oid fs)
  have "repr h (Ptr a) (TObject (sint (Long_val oid)))" "direct h (Ptr a)"
    using repr_object.hyps repr.repr_object direct_heads(2) by blast+
  with repr_object.prems show ?case by (intro decided_from_direct) auto
next
  case (repr_block a t fs ts)
  have "list_all2 (repr h) fs ts" using repr_block.IH by (auto elim: list_all2_mono)
  with repr_block.hyps have r: "repr h (Ptr a) (TBlock t ts)" by (intro repr.repr_block)
  have d: "direct h (Ptr a)" using repr_block.hyps direct_heads(3) by blast
  have f: "list_all2 (\<lambda>v t. \<forall>v2 t2. repr h v2 t2 \<longrightarrow> decides custom h tot v v2 t t2) fs ts"
    using repr_block.IH by (auto elim: list_all2_mono)
  show ?case
    using r d repr_block.prems by (rule decided_from_direct) (use f repr_block.hyps in auto)
next
  case (repr_forward a v fs t)
  then show ?case using decides_forward1 by blast
qed

section \<open>The primitives\<close>

lemma compare_val_correct:
  assumes "repr h v1 t1" "repr h v2 t2" "stack_need t1 < 2 ^ 19"
  obtains r where "compare_val custom (\<lambda>_. True) h v1 v2 tot = Some (Inr r)" "signals r (tree_compare t1 t2)"
proof -
  have "run_decides custom h tot [] COMPARE_STACK_INIT_SIZE (tree_compare t1 t2)
      (compare_val custom (\<lambda>_. True) h v1 v2 tot)"
    unfolding compare_val_def
    using assms(3) by (intro decidesD [OF repr_decided [OF assms(1,2)] stack_size_init])
      (simp_all add: COMPARE_STACK_INIT_SIZE_def)
  moreover have "signals EQUAL 0" by (simp add: signals_def EQUAL_def UNORDERED_def push_bit_eq_mult)
  ultimately show ?thesis
    using that by (auto simp: run_decides_def split: if_splits)
qed

lemma signals_tests:
  assumes "signals r c"
  shows "sint r < 0 \<longleftrightarrow> c < 0" "sint r > 0 \<longleftrightarrow> c > 0" "sint r \<le> 0 \<longleftrightarrow> c \<le> 0" "sint r \<ge> 0 \<longleftrightarrow> c \<ge> 0"
    "r = 0 \<longleftrightarrow> c = 0" "r \<noteq> UNORDERED" "0 \<noteq> c \<longrightarrow> 0 \<noteq> r"
  using assms by (auto simp: signals_def sgn_if signed_word_eqI split: if_splits)

lemma caml_equal_repr:
  assumes "repr h v1 t1" "repr h v2 t2" "stack_need t1 < 2 ^ 19"
  shows "caml_equal custom (\<lambda>_. True) h v1 v2 = Some (Inr (Val_bool (t1 = t2)))"
proof -
  obtain q where q: "compare_val custom (\<lambda>_. True) h v1 v2 False = Some (Inr q)" "signals q (tree_compare t1 t2)"
    using compare_val_correct [OF assms] by blast
  show ?thesis
    using signals_tests(5) [OF q(2)] by (simp add: caml_equal_def compare_test_def q(1) tree_compare_0_iff)
qed

text \<open>
  C7. On finite values whose comparison fits the stack, the comparison primitives end, raise
  nothing and decide the order on the trees the values stand for: sharing, forwarding
  blocks, growth of the stack and the machine differences do not show.
\<close>

theorem compare_primitives_decide:
  assumes "repr h v1 t1" "repr h v2 t2" "stack_need t1 < 2 ^ 19"
  defines "c \<equiv> tree_compare t1 t2" and "m \<equiv> \<lambda>_ :: nat. True"
  shows "caml_compare custom m h v1 v2 = Some (Inr (Val_long (word_of_int c)))
    \<and> caml_equal custom m h v1 v2 = Some (Inr (Val_bool (t1 = t2)))
    \<and> caml_notequal custom m h v1 v2 = Some (Inr (Val_bool (t1 \<noteq> t2)))
    \<and> caml_lessthan custom m h v1 v2 = Some (Inr (Val_bool (c < 0)))
    \<and> caml_lessequal custom m h v1 v2 = Some (Inr (Val_bool (c \<le> 0)))
    \<and> caml_greaterthan custom m h v1 v2 = Some (Inr (Val_bool (c > 0)))
    \<and> caml_greaterequal custom m h v1 v2 = Some (Inr (Val_bool (c \<ge> 0)))"
proof -
  have eq: "t1 = t2 \<longleftrightarrow> c = 0" unfolding c_def by (simp add: tree_compare_0_iff)
  have cv: "c \<in> {- 1, 0, 1}"
    unfolding c_def tree_compare_code by (rule lex_compare_values)
  obtain r where r: "compare_val custom m h v1 v2 True = Some (Inr r)" "signals r c"
    unfolding c_def m_def by (rule compare_val_correct [OF assms(1-3)])
  obtain q where q: "compare_val custom m h v1 v2 False = Some (Inr q)" "signals q c"
    unfolding c_def m_def by (rule compare_val_correct [OF assms(1-3)])
  note s = signals_tests [OF r(2)] and u = signals_tests [OF q(2)]
  have "caml_compare custom m h v1 v2 = Some (Inr (Val_long (word_of_int c)))"
    using cv by (auto simp: caml_compare_def compare_test_def r(1) s LESS_def EQUAL_def GREATER_def)
  then show ?thesis
    unfolding caml_equal_def caml_notequal_def caml_lessthan_def caml_lessequal_def
      caml_greaterthan_def caml_greaterequal_def compare_test_def q(1) eq
    by (simp add: u)
qed

lemma compare_primitives_decide_witness:
  "caml_compare (\<lambda>_. None) (\<lambda>_. True)
     [1 \<mapsto> Scannable 0 [Long 3, Ptr 2], 2 \<mapsto> Opaque String_tag (string_block [7]),
      3 \<mapsto> Scannable Forward_tag [Ptr 4], 4 \<mapsto> Scannable 0 [Long 3, Ptr 5],
      5 \<mapsto> Opaque String_tag (string_block [7, 1])] (Ptr 1) (Ptr 3)
   = Some (Inr (Val_long (- 1)))"
proof -
  let ?h = "[1 \<mapsto> Scannable 0 [Long 3, Ptr 2], 2 \<mapsto> Opaque String_tag (string_block [7]),
      3 \<mapsto> Scannable Forward_tag [Ptr 4], 4 \<mapsto> Scannable 0 [Long 3, Ptr 5],
      5 \<mapsto> Opaque String_tag (string_block [7, 1])] :: heap"
  have l: "repr ?h (Long 3) (TLong (sint (Long_val 3)))"
    by (rule repr_long) (simp add: Is_long_def)
  have s: "repr ?h (Ptr 2) (TString [7])" "repr ?h (Ptr 5) (TString [7, 1])"
    by (rule repr_string; simp add: Max_wosize_def)+
  have 1: "repr ?h (Ptr 1) (TBlock 0 [TLong (sint (Long_val 3)), TString [7]])"
    by (rule repr_block [of _ _ _ "[Long 3, Ptr 2]"]) (use l s in \<open>simp_all add: plain_tag_def tag_defs Max_wosize_def\<close>)
  have "repr ?h (Ptr 4) (TBlock 0 [TLong (sint (Long_val 3)), TString [7, 1]])"
    by (rule repr_block [of _ _ _ "[Long 3, Ptr 5]"]) (use l s in \<open>simp_all add: plain_tag_def tag_defs Max_wosize_def\<close>)
  then have 3: "repr ?h (Ptr 3) (TBlock 0 [TLong (sint (Long_val 3)), TString [7, 1]])"
    by (rule repr_forward [rotated]) simp
  have "tree_compare (TBlock 0 [TLong (sint (Long_val 3)), TString [7]])
      (TBlock 0 [TLong (sint (Long_val 3)), TString [7, 1]]) = - 1" by simp
  with compare_primitives_decide [OF 1 3, THEN conjunct1, of "\<lambda>_. None"] show ?thesis
    by (simp del: fun_upd_apply)
qed

text \<open>
  "At most" is transitive on the values the primitive decides, so that ordered containers
  can rely on it.
\<close>

theorem lessequal_transitive:
  assumes "repr h v1 t1" "repr h v2 t2" "repr h v3 t3"
    and "stack_need t1 < 2 ^ 19" "stack_need t2 < 2 ^ 19"
    and "caml_lessequal custom (\<lambda>_. True) h v1 v2 = Some (Inr (Val_bool True))"
    and "caml_lessequal custom (\<lambda>_. True) h v2 v3 = Some (Inr (Val_bool True))"
  shows "caml_lessequal custom (\<lambda>_. True) h v1 v3 = Some (Inr (Val_bool True))"
proof -
  have le: "caml_lessequal custom (\<lambda>_. True) h v w = Some (Inr (Val_bool (tree_compare t u \<le> 0)))"
    if vw: "repr h v t" "repr h w u" "stack_need t < 2 ^ 19" for v w t u
  proof -
    obtain q where q: "compare_val custom (\<lambda>_. True) h v w False = Some (Inr q)" "signals q (tree_compare t u)"
      using compare_val_correct [OF vw] by blast
    show ?thesis using signals_tests [OF q(2)] by (simp add: caml_lessequal_def compare_test_def q(1))
  qed
  have vb: "Val_bool b = Val_bool True \<longleftrightarrow> b" for b by (simp add: Val_bool_def Val_long_def)
  have "tree_compare t1 t2 \<le> 0" "tree_compare t2 t3 \<le> 0"
    using assms(6,7) le [OF assms(1,2,4)] le [OF assms(2,3,5)] by (simp_all add: vb)
  then have "tree_compare t1 t3 \<le> 0" by (rule tree.trans)
  then show ?thesis using le [OF assms(1,3,4)] by simp
qed

lemma lessequal_transitive_witness:
  "caml_lessequal (\<lambda>_. None) (\<lambda>_. True) Map.empty (Long 3) (Long 7) = Some (Inr (Val_bool True))"
proof (rule lessequal_transitive [of _ _ "TLong (sint (Long_val 3))" "Long 5" "TLong (sint (Long_val 5))"
      _ "TLong (sint (Long_val 7))"])
  show "caml_lessequal (\<lambda>_. None) (\<lambda>_. True) Map.empty (Long 3) (Long 5) = Some (Inr (Val_bool True))"
    "caml_lessequal (\<lambda>_. None) (\<lambda>_. True) Map.empty (Long 5) (Long 7) = Some (Inr (Val_bool True))"
    by (simp_all add: caml_lessequal_def compare_test_def compare_val_def compare_loop.simps Long_val_def
        UNORDERED_def push_bit_eq_mult signed_drop_bit_word_numeral)
qed (auto intro: repr_long simp: Is_long_def)

section \<open>Cyclic values\<close>

text \<open>The turns of the loop: \<open>Done\<close> and \<open>Undef\<close> are final.\<close>

fun compare_turn :: "custom_compare \<Rightarrow> (nat \<Rightarrow> bool) \<Rightarrow> heap \<Rightarrow> bool \<Rightarrow> compare_next \<Rightarrow> compare_next" where
  "compare_turn custom malloc h tot (Next v1 v2 sp lim) = compare_step custom malloc h tot v1 v2 sp lim"
| "compare_turn custom malloc h tot r = r"

lemma compare_loop_turns:
  "compare_loop custom malloc h tot v1 v2 sp lim = Some r \<Longrightarrow>
   \<exists>n. (compare_turn custom malloc h tot ^^ n) (Next v1 v2 sp lim) = Done r"
proof (rule compare_loop.raw_induct [where P = "\<lambda>custom malloc h tot v1 v2 sp lim r.
    \<exists>n. (compare_turn custom malloc h tot ^^ n) (Next v1 v2 sp lim) = Done r"])
  fix loop custom malloc h tot v1 v2 sp lim r
  assume IH: "\<And>custom malloc h tot v1 v2 sp lim r. loop custom malloc h tot v1 v2 sp lim = Some r \<Longrightarrow>
      \<exists>n. (compare_turn custom malloc h tot ^^ n) (Next v1 v2 sp lim) = Done r"
    and body: "(case compare_step custom malloc h tot v1 v2 sp lim of
        Done r \<Rightarrow> Some r | Next v1 v2 sp lim \<Rightarrow> loop custom malloc h tot v1 v2 sp lim | Undef \<Rightarrow> None) = Some r"
  show "\<exists>n. (compare_turn custom malloc h tot ^^ n) (Next v1 v2 sp lim) = Done r"
  proof (cases "compare_step custom malloc h tot v1 v2 sp lim")
    case (Done q)
    with body have "(compare_turn custom malloc h tot ^^ 1) (Next v1 v2 sp lim) = Done r" by simp
    then show ?thesis by blast
  next
    case (Next w1 w2 sq lim')
    with body have "loop custom malloc h tot w1 w2 sq lim' = Some r" by simp
    from IH [OF this] obtain n
      where n: "(compare_turn custom malloc h tot ^^ n) (Next w1 w2 sq lim') = Done r" ..
    have "(compare_turn custom malloc h tot ^^ Suc n) (Next v1 v2 sp lim) = Done r"
      unfolding funpow_Suc_right o_apply compare_turn.simps Next n ..
    then show ?thesis by blast
  qed (use body in simp)
qed

text \<open>
  Pairs of blocks of one tag and size whose last fields are again a pair of the set and whose
  other fields are equal immediates: circular lists of integers, of any periods, are an
  instance. Under \<open>tot\<close> the two blocks differ, since identical pointers are then equal.
\<close>

definition tail_cyclic :: "bool \<Rightarrow> heap \<Rightarrow> (addr \<times> addr) set \<Rightarrow> bool" where
  "tail_cyclic tot h R \<longleftrightarrow> (\<forall>(a, b)\<in>R. (a \<noteq> b \<or> \<not> tot) \<and>
     (\<exists>g ns a' b'. plain_tag g \<and> (a', b') \<in> R \<and>
        h a = Some (Scannable g (map Long ns @ [Ptr a'])) \<and>
        h b = Some (Scannable g (map Long ns @ [Ptr b']))))"

definition cyclic_state :: "(addr \<times> addr) set \<Rightarrow> compare_next \<Rightarrow> bool" where
  "cyclic_state R r \<longleftrightarrow>
     (\<exists>(a, b)\<in>R. r = Next (Ptr a) (Ptr b) [] COMPARE_STACK_INIT_SIZE \<or>
        (\<exists>n ns. r = Next (Long n) (Long n) [(map Long ns @ [Ptr a], map Long ns @ [Ptr b])]
           COMPARE_STACK_INIT_SIZE))"

lemma cyclic_state_fields:
  assumes "(a, b) \<in> R"
  shows "cyclic_state R (next_item [(map Long ns @ [Ptr a], map Long ns @ [Ptr b])] COMPARE_STACK_INIT_SIZE)"
  using assms by (cases ns) (auto simp: cyclic_state_def next_item_fields)

lemma cyclic_state_turn:
  assumes R: "tail_cyclic tot h R" and r: "cyclic_state R r"
  shows "cyclic_state R (compare_turn custom malloc h tot r)"
proof -
  from r obtain a b where ab: "(a, b) \<in> R" and
    "r = Next (Ptr a) (Ptr b) [] COMPARE_STACK_INIT_SIZE \<or>
     (\<exists>n ns. r = Next (Long n) (Long n) [(map Long ns @ [Ptr a], map Long ns @ [Ptr b])]
        COMPARE_STACK_INIT_SIZE)"
    by (auto simp: cyclic_state_def)
  then consider (block) "r = Next (Ptr a) (Ptr b) [] COMPARE_STACK_INIT_SIZE"
    | (field) n ns where "r = Next (Long n) (Long n) [(map Long ns @ [Ptr a], map Long ns @ [Ptr b])]
        COMPARE_STACK_INIT_SIZE" by blast
  then show ?thesis
  proof cases
    case block
    from R ab obtain g ns a' b' where g: "plain_tag g" "(a', b') \<in> R" "a \<noteq> b \<or> \<not> tot"
      "h a = Some (Scannable g (map Long ns @ [Ptr a']))" "h b = Some (Scannable g (map Long ns @ [Ptr b']))"
      by (fastforce simp: tail_cyclic_def)
    have "compare_turn custom malloc h tot r = compare_blocks custom malloc tot (a = b)
        (Scannable g (map Long ns @ [Ptr a'])) (Scannable g (map Long ns @ [Ptr b'])) [] COMPARE_STACK_INIT_SIZE"
      using g(3-5) plain_tagD [OF g(1)] by (auto simp: block)
    also have "\<dots> = next_item [(map Long ns @ [Ptr a'], map Long ns @ [Ptr b'])] COMPARE_STACK_INIT_SIZE"
      by (cases ns) (simp_all add: compare_blocks_push [OF g(1)] next_item_fields COMPARE_STACK_INIT_SIZE_def)
    finally show ?thesis using cyclic_state_fields [OF g(2)] by simp
  next
    case field
    then show ?thesis using cyclic_state_fields [OF ab] by simp
  qed
qed

text \<open>
  C40. Comparison of cyclic values does not end: for two values that are cyclic through their
  last fields and never differ (such as two circular lists of the same integers), after any
  number of turns the loop is still running, with at most one item on its stack, so it neither
  returns, raises nor fails; under \<open>compare\<close> (\<open>tot\<close>) the values are distinct, under the
  other primitives they may be one value.
\<close>

theorem compare_cyclic_diverges:
  assumes "tail_cyclic tot h R" "(a, b) \<in> R"
  shows "(\<exists>v1 v2 sp lim. (compare_turn custom malloc h tot ^^ n)
      (Next (Ptr a) (Ptr b) [] COMPARE_STACK_INIT_SIZE) = Next v1 v2 sp lim \<and> length sp \<le> 1) \<and>
    compare_val custom malloc h (Ptr a) (Ptr b) tot = None"
proof -
  let ?run = "\<lambda>n. (compare_turn custom malloc h tot ^^ n) (Next (Ptr a) (Ptr b) [] COMPARE_STACK_INIT_SIZE)"
  have st: "cyclic_state R (?run n)" for n
  proof (induction n)
    case 0
    then show ?case using assms(2) by (auto simp: cyclic_state_def)
  next
    case (Suc n)
    from cyclic_state_turn [OF assms(1) this] show ?case by simp
  qed
  then have run: "\<exists>v1 v2 sp lim. ?run n = Next v1 v2 sp lim \<and> length sp \<le> 1" for n
    unfolding cyclic_state_def by fastforce
  have "compare_val custom malloc h (Ptr a) (Ptr b) tot \<noteq> Some r" for r
  proof
    assume "compare_val custom malloc h (Ptr a) (Ptr b) tot = Some r"
    then obtain k where "?run k = Done r" using compare_loop_turns unfolding compare_val_def by blast
    with run [of k] show False by auto
  qed
  with run show ?thesis by (metis not_Some_eq)
qed

lemma compare_cyclic_diverges_witness:
  "compare_val (\<lambda>_. None) (\<lambda>_. True)
     [1 \<mapsto> Scannable 0 [Long 3, Ptr 1], 2 \<mapsto> Scannable 0 [Long 3, Ptr 5], 5 \<mapsto> Scannable 0 [Long 3, Ptr 2]]
     (Ptr 1) (Ptr 2) True = None"
proof -
  let ?h = "[1 \<mapsto> Scannable 0 [Long 3, Ptr 1], 2 \<mapsto> Scannable 0 [Long 3, Ptr 5], 5 \<mapsto> Scannable 0 [Long 3, Ptr 2]] :: heap"
  let ?R = "{(1, 2), (1, 5)} :: (addr \<times> addr) set"
  let ?P = "\<lambda>a b. \<exists>g ns a' b'. plain_tag g \<and> (a', b') \<in> ?R \<and>
      ?h a = Some (Scannable g (map Long ns @ [Ptr a'])) \<and> ?h b = Some (Scannable g (map Long ns @ [Ptr b']))"
  have g: "plain_tag 0" by (simp add: plain_tag_def tag_defs)
  have "?P 1 2" by (rule exI [of _ 0], rule exI [of _ "[3]"], rule exI [of _ 1], rule exI [of _ 5]) (simp add: g)
  moreover have "?P 1 5" by (rule exI [of _ 0], rule exI [of _ "[3]"], rule exI [of _ 1], rule exI [of _ 2]) (simp add: g)
  ultimately have "tail_cyclic True ?h ?R" unfolding tail_cyclic_def by fastforce
  from compare_cyclic_diverges [OF this, of 1 2] show ?thesis by simp
qed

end
