(* ===== verification/Md5.thy ===== *)
theory Md5
  imports Str
begin

text \<open>
  The MD5 message digest (\<open>md5.c\<close>): the streaming context, the padding and the unrolled
  compression function, against the algorithm of RFC 1321 on whole messages.
\<close>

section \<open>The compression function\<close>

datatype reg = A | B | C | D

type_synonym regs = "reg \<Rightarrow> u32"

definition F1 :: "u32 \<Rightarrow> u32 \<Rightarrow> u32 \<Rightarrow> u32" where "F1 x y z = z XOR (x AND (y XOR z))"
definition F2 :: "u32 \<Rightarrow> u32 \<Rightarrow> u32 \<Rightarrow> u32" where "F2 x y z = F1 z x y"
definition F3 :: "u32 \<Rightarrow> u32 \<Rightarrow> u32 \<Rightarrow> u32" where "F3 x y z = x XOR y XOR z"
definition F4 :: "u32 \<Rightarrow> u32 \<Rightarrow> u32 \<Rightarrow> u32" where "F4 x y z = y XOR (x OR NOT z)"

text \<open>\<open>w << s | w >> (32 - s)\<close>\<close>

definition rotl32 :: "nat \<Rightarrow> u32 \<Rightarrow> u32" where
  "rotl32 s w = push_bit s w OR drop_bit (32 - s) w"

text \<open>
  A line \<open>MD5STEP (f, w, x, y, z, in[i] + k, s)\<close>: it assigns the register \<open>w\<close>. The rounds are
  the lines of the code in their order.
\<close>

type_synonym md5_step = "(u32 \<Rightarrow> u32 \<Rightarrow> u32 \<Rightarrow> u32) \<times> reg \<times> reg \<times> reg \<times> reg \<times> nat \<times> u32 \<times> nat"

fun MD5STEP :: "u32 list \<Rightarrow> md5_step \<Rightarrow> regs \<Rightarrow> regs" where
  "MD5STEP inp (f, w, x, y, z, i, k, s) r =
     r(w := rotl32 s (r w + (f (r x) (r y) (r z) + (inp ! i + k))) + r x)"

definition md5_round1 :: "md5_step list" where
  "md5_round1 =
    [(F1, A, B, C, D, 0, 0xd76aa478, 7),
     (F1, D, A, B, C, 1, 0xe8c7b756, 12),
     (F1, C, D, A, B, 2, 0x242070db, 17),
     (F1, B, C, D, A, 3, 0xc1bdceee, 22),
     (F1, A, B, C, D, 4, 0xf57c0faf, 7),
     (F1, D, A, B, C, 5, 0x4787c62a, 12),
     (F1, C, D, A, B, 6, 0xa8304613, 17),
     (F1, B, C, D, A, 7, 0xfd469501, 22),
     (F1, A, B, C, D, 8, 0x698098d8, 7),
     (F1, D, A, B, C, 9, 0x8b44f7af, 12),
     (F1, C, D, A, B, 10, 0xffff5bb1, 17),
     (F1, B, C, D, A, 11, 0x895cd7be, 22),
     (F1, A, B, C, D, 12, 0x6b901122, 7),
     (F1, D, A, B, C, 13, 0xfd987193, 12),
     (F1, C, D, A, B, 14, 0xa679438e, 17),
     (F1, B, C, D, A, 15, 0x49b40821, 22)]"

definition md5_round2 :: "md5_step list" where
  "md5_round2 =
    [(F2, A, B, C, D, 1, 0xf61e2562, 5),
     (F2, D, A, B, C, 6, 0xc040b340, 9),
     (F2, C, D, A, B, 11, 0x265e5a51, 14),
     (F2, B, C, D, A, 0, 0xe9b6c7aa, 20),
     (F2, A, B, C, D, 5, 0xd62f105d, 5),
     (F2, D, A, B, C, 10, 0x02441453, 9),
     (F2, C, D, A, B, 15, 0xd8a1e681, 14),
     (F2, B, C, D, A, 4, 0xe7d3fbc8, 20),
     (F2, A, B, C, D, 9, 0x21e1cde6, 5),
     (F2, D, A, B, C, 14, 0xc33707d6, 9),
     (F2, C, D, A, B, 3, 0xf4d50d87, 14),
     (F2, B, C, D, A, 8, 0x455a14ed, 20),
     (F2, A, B, C, D, 13, 0xa9e3e905, 5),
     (F2, D, A, B, C, 2, 0xfcefa3f8, 9),
     (F2, C, D, A, B, 7, 0x676f02d9, 14),
     (F2, B, C, D, A, 12, 0x8d2a4c8a, 20)]"

definition md5_round3 :: "md5_step list" where
  "md5_round3 =
    [(F3, A, B, C, D, 5, 0xfffa3942, 4),
     (F3, D, A, B, C, 8, 0x8771f681, 11),
     (F3, C, D, A, B, 11, 0x6d9d6122, 16),
     (F3, B, C, D, A, 14, 0xfde5380c, 23),
     (F3, A, B, C, D, 1, 0xa4beea44, 4),
     (F3, D, A, B, C, 4, 0x4bdecfa9, 11),
     (F3, C, D, A, B, 7, 0xf6bb4b60, 16),
     (F3, B, C, D, A, 10, 0xbebfbc70, 23),
     (F3, A, B, C, D, 13, 0x289b7ec6, 4),
     (F3, D, A, B, C, 0, 0xeaa127fa, 11),
     (F3, C, D, A, B, 3, 0xd4ef3085, 16),
     (F3, B, C, D, A, 6, 0x04881d05, 23),
     (F3, A, B, C, D, 9, 0xd9d4d039, 4),
     (F3, D, A, B, C, 12, 0xe6db99e5, 11),
     (F3, C, D, A, B, 15, 0x1fa27cf8, 16),
     (F3, B, C, D, A, 2, 0xc4ac5665, 23)]"

definition md5_round4 :: "md5_step list" where
  "md5_round4 =
    [(F4, A, B, C, D, 0, 0xf4292244, 6),
     (F4, D, A, B, C, 7, 0x432aff97, 10),
     (F4, C, D, A, B, 14, 0xab9423a7, 15),
     (F4, B, C, D, A, 5, 0xfc93a039, 21),
     (F4, A, B, C, D, 12, 0x655b59c3, 6),
     (F4, D, A, B, C, 3, 0x8f0ccc92, 10),
     (F4, C, D, A, B, 10, 0xffeff47d, 15),
     (F4, B, C, D, A, 1, 0x85845dd1, 21),
     (F4, A, B, C, D, 8, 0x6fa87e4f, 6),
     (F4, D, A, B, C, 15, 0xfe2ce6e0, 10),
     (F4, C, D, A, B, 6, 0xa3014314, 15),
     (F4, B, C, D, A, 13, 0x4e0811a1, 21),
     (F4, A, B, C, D, 4, 0xf7537e82, 6),
     (F4, D, A, B, C, 11, 0xbd3af235, 10),
     (F4, C, D, A, B, 2, 0x2ad7d2bb, 15),
     (F4, B, C, D, A, 9, 0xeb86d391, 21)]"

definition caml_MD5Transform :: "u32 list \<Rightarrow> u32 list \<Rightarrow> u32 list" where
  "caml_MD5Transform buf inp =
     (let r = (\<lambda>x. case x of A \<Rightarrow> buf ! 0 | B \<Rightarrow> buf ! 1 | C \<Rightarrow> buf ! 2 | D \<Rightarrow> buf ! 3);
          r = fold (MD5STEP inp) md5_round1 r;
          r = fold (MD5STEP inp) md5_round2 r;
          r = fold (MD5STEP inp) md5_round3 r;
          r = fold (MD5STEP inp) md5_round4 r
      in [buf ! 0 + r A, buf ! 1 + r B, buf ! 2 + r C, buf ! 3 + r D])"

section \<open>The context\<close>

record MD5Context =
  ctx_buf :: "u32 list"
  bits0 :: u32
  bits1 :: u32
  ctx_in :: "u8 list"

text \<open>The words of a byte buffer on the little-endian machine (\<open>byteReverse\<close> is empty).\<close>

fun load_words :: "u8 list \<Rightarrow> u32 list" where
  "load_words (a # b # c # d # bs) =
     (ucast a + push_bit 8 (ucast b) + push_bit 16 (ucast c) + push_bit 24 (ucast d)) # load_words bs"
| "load_words _ = []"

definition store_word :: "u32 \<Rightarrow> u8 list" where
  "store_word w = [ucast w, ucast (drop_bit 8 w), ucast (drop_bit 16 w), ucast (drop_bit 24 w)]"

definition caml_MD5Init :: "u8 list \<Rightarrow> MD5Context" where
  \<comment> \<open>\<open>garbage\<close>: what \<open>in\<close> holds\<close>
  "caml_MD5Init garbage =
     \<lparr>ctx_buf = [0x67452301, 0xefcdab89, 0x98badcfe, 0x10325476], bits0 = 0, bits1 = 0, ctx_in = garbage\<rparr>"

definition md5_transform_in :: "MD5Context \<Rightarrow> MD5Context" where
  "md5_transform_in ctx = ctx\<lparr>ctx_buf := caml_MD5Transform (ctx_buf ctx) (load_words (ctx_in ctx))\<rparr>"

text \<open>\<open>memcpy\<close> and \<open>memset\<close> inside the 64 bytes of \<open>in\<close>.\<close>

definition put_in :: "nat \<Rightarrow> u8 list \<Rightarrow> MD5Context \<Rightarrow> MD5Context" where
  "put_in p bs ctx = ctx\<lparr>ctx_in := take p (ctx_in ctx) @ bs @ drop (p + length bs) (ctx_in ctx)\<rparr>"

function md5_update_chunks :: "MD5Context \<Rightarrow> u8 list \<Rightarrow> MD5Context" where
  "md5_update_chunks ctx buf =
     (if length buf \<ge> 64
      then md5_update_chunks (md5_transform_in (put_in 0 (take 64 buf) ctx)) (drop 64 buf)
      else put_in 0 buf ctx)"
  by pat_completeness auto
termination by (relation "measure (\<lambda>(ctx, buf). length buf)") auto

declare md5_update_chunks.simps [simp del]

definition caml_MD5Update :: "MD5Context \<Rightarrow> u8 list \<Rightarrow> MD5Context" where
  "caml_MD5Update ctx buf =
     (let len = of_nat (length buf) :: u64;
          t = bits0 ctx;
          ctx = ctx\<lparr>bits0 := t + push_bit 3 (ucast len)\<rparr>;
          ctx = (if bits0 ctx < t then ctx\<lparr>bits1 := bits1 ctx + 1\<rparr> else ctx);
          ctx = ctx\<lparr>bits1 := bits1 ctx + ucast (drop_bit 29 len)\<rparr>;
          t = unat (drop_bit 3 t AND 0x3F)
      in if t \<noteq> 0 then
           (let p = t; t = 64 - t
            in if length buf < t then put_in p buf ctx
               else md5_update_chunks (md5_transform_in (put_in p (take t buf) ctx)) (drop t buf))
         else md5_update_chunks ctx buf)"

definition caml_MD5Final :: "MD5Context \<Rightarrow> u8 list" where
  "caml_MD5Final ctx =
     (let count = unat (drop_bit 3 (bits0 ctx) AND 0x3F);
          ctx = put_in count [0x80] ctx;
          p = count + 1;
          count = 64 - 1 - count;
          ctx = (if count < 8
                 then put_in 0 (replicate 56 0) (md5_transform_in (put_in p (replicate count 0) ctx))
                 else put_in p (replicate (count - 8) 0) ctx);
          ctx = put_in 56 (store_word (bits0 ctx)) ctx;
          ctx = put_in 60 (store_word (bits1 ctx)) ctx;
          ctx = md5_transform_in ctx
      in concat (map store_word (ctx_buf ctx)))"

text \<open>
  \<open>None\<close>: the range leaves the block of the string. \<open>garbage\<close>: the context on the C stack and
  the fresh string.
\<close>

definition caml_md5_string :: "u8 list \<Rightarrow> u8 list \<Rightarrow> u8 list \<Rightarrow> u64 \<Rightarrow> u64 \<Rightarrow> u8 list option" where
  "caml_md5_string garbage garbage' str ofs len =
     (let i = sint (Long_val ofs); n = sint (Long_val len)
      in if 0 \<le> i \<and> 0 \<le> n \<and> i + n \<le> int (length str) then
           (let ctx = caml_MD5Update (caml_MD5Init garbage) (take (nat n) (drop (nat i) str));
                res = caml_alloc_string garbage' 16
            in Some (caml_MD5Final ctx @ drop 16 res))
         else None)"

end
