(* ===== verification/Md5_Proofs.thy ===== *)
theory Md5_Proofs
  imports Md5
begin

text \<open>
  RFC 1321 on whole messages, and the proof that the streaming code computes it however the
  message is cut into buffers.
\<close>

section \<open>The reference algorithm\<close>

definition md5_K :: "u32 list" where
  "md5_K =
    [0xd76aa478, 0xe8c7b756, 0x242070db, 0xc1bdceee, 0xf57c0faf, 0x4787c62a,
     0xa8304613, 0xfd469501, 0x698098d8, 0x8b44f7af, 0xffff5bb1, 0x895cd7be,
     0x6b901122, 0xfd987193, 0xa679438e, 0x49b40821, 0xf61e2562, 0xc040b340,
     0x265e5a51, 0xe9b6c7aa, 0xd62f105d, 0x02441453, 0xd8a1e681, 0xe7d3fbc8,
     0x21e1cde6, 0xc33707d6, 0xf4d50d87, 0x455a14ed, 0xa9e3e905, 0xfcefa3f8,
     0x676f02d9, 0x8d2a4c8a, 0xfffa3942, 0x8771f681, 0x6d9d6122, 0xfde5380c,
     0xa4beea44, 0x4bdecfa9, 0xf6bb4b60, 0xbebfbc70, 0x289b7ec6, 0xeaa127fa,
     0xd4ef3085, 0x04881d05, 0xd9d4d039, 0xe6db99e5, 0x1fa27cf8, 0xc4ac5665,
     0xf4292244, 0x432aff97, 0xab9423a7, 0xfc93a039, 0x655b59c3, 0x8f0ccc92,
     0xffeff47d, 0x85845dd1, 0x6fa87e4f, 0xfe2ce6e0, 0xa3014314, 0x4e0811a1,
     0xf7537e82, 0xbd3af235, 0x2ad7d2bb, 0xeb86d391]"

definition md5_shift :: "nat \<Rightarrow> nat" where
  "md5_shift i = [[7, 12, 17, 22], [5, 9, 14, 20], [4, 11, 16, 23], [6, 10, 15, 21]] ! (i div 16) ! (i mod 4)"

definition md5_index :: "nat \<Rightarrow> nat" where
  "md5_index i =
     (if i < 16 then i else if i < 32 then (5 * i + 1) mod 16 else if i < 48 then (3 * i + 5) mod 16
      else 7 * i mod 16)"

definition md5_F :: "nat \<Rightarrow> u32 \<Rightarrow> u32 \<Rightarrow> u32 \<Rightarrow> u32" where
  "md5_F i x y z =
     (if i < 16 then (x AND y) OR (NOT x AND z)
      else if i < 32 then (z AND x) OR (NOT z AND y)
      else if i < 48 then x XOR y XOR z
      else y XOR (x OR NOT z))"

text \<open>
  One operation of the loop; the four variables change roles. The rotation is the Word
  library's.
\<close>

fun md5_op :: "u32 list \<Rightarrow> nat \<Rightarrow> u32 \<times> u32 \<times> u32 \<times> u32 \<Rightarrow> u32 \<times> u32 \<times> u32 \<times> u32" where
  "md5_op M i (a, b, c, d) =
     (d, b + word_rotl (md5_shift i) (a + md5_F i b c d + md5_K ! i + M ! md5_index i), b, c)"

definition md5_block :: "u32 list \<Rightarrow> u32 list \<Rightarrow> u32 list" where
  "md5_block h M =
     (case fold (md5_op M) [0..<64] (h ! 0, h ! 1, h ! 2, h ! 3) of
        (a, b, c, d) \<Rightarrow> [h ! 0 + a, h ! 1 + b, h ! 2 + c, h ! 3 + d])"

function md5_absorb :: "u32 list \<Rightarrow> u8 list \<Rightarrow> u32 list" where
  "md5_absorb h bs = (if length bs < 64 then h else md5_absorb (md5_block h (load_words (take 64 bs))) (drop 64 bs))"
  by pat_completeness auto
termination by (relation "measure (\<lambda>(h, bs). length bs)") auto

declare md5_absorb.simps [simp del]

definition md5_pad :: "u8 list \<Rightarrow> u8 list" where
  "md5_pad m =
     m @ [0x80] @ replicate (if length m mod 64 < 56 then 55 - length m mod 64 else 119 - length m mod 64) 0
       @ store_word (of_nat (8 * length m)) @ store_word (of_nat (8 * length m div 2 ^ 32))"

definition md5_init :: "u32 list" where
  "md5_init = [0x67452301, 0xefcdab89, 0x98badcfe, 0x10325476]"

definition md5 :: "u8 list \<Rightarrow> u8 list" where
  "md5 m = concat (map store_word (md5_absorb md5_init (md5_pad m)))"

section \<open>The unrolled rounds\<close>

definition md5_steps :: "md5_step list" where
  "md5_steps = md5_round1 @ md5_round2 @ md5_round3 @ md5_round4"

text \<open>The register that is variable \<open>v\<close> of the reference loop before operation \<open>i\<close>.\<close>

definition md5_role :: "nat \<Rightarrow> nat \<Rightarrow> reg" where
  "md5_role i v = [A, D, C, B] ! ((i + 4 - v) mod 4)"

lemma F1_eq: "F1 x y z = (x AND y) OR (NOT x AND z)"
  by (rule bit_eqI) (auto simp: F1_def bit_simps)

lemma md5_F_code:
  "i < 16 \<Longrightarrow> md5_F i = F1" "16 \<le> i \<Longrightarrow> i < 32 \<Longrightarrow> md5_F i = F2"
  "32 \<le> i \<Longrightarrow> i < 48 \<Longrightarrow> md5_F i = F3" "48 \<le> i \<Longrightarrow> md5_F i = F4"
  by (auto simp: md5_F_def F1_eq F2_def F3_def F4_def fun_eq_iff)

definition md5_fun :: "nat \<Rightarrow> u32 \<Rightarrow> u32 \<Rightarrow> u32 \<Rightarrow> u32" where
  "md5_fun i = (if i < 16 then F1 else if i < 32 then F2 else if i < 48 then F3 else F4)"

lemma md5_steps_table:
  "md5_steps = map (\<lambda>i. (md5_fun i, md5_role i 0, md5_role i 1, md5_role i 2, md5_role i 3,
       md5_index i, md5_K ! i, md5_shift i)) [0..<64]"
  unfolding md5_steps_def md5_round1_def md5_round2_def md5_round3_def md5_round4_def
  by (simp add: upt_rec md5_fun_def md5_role_def md5_index_def md5_K_def md5_shift_def)

lemma md5_fun_F: "md5_fun i = md5_F i"
  using md5_F_code [of i] by (simp add: md5_fun_def)

definition md5_view :: "nat \<Rightarrow> regs \<Rightarrow> u32 \<times> u32 \<times> u32 \<times> u32" where
  "md5_view i r = (r (md5_role i 0), r (md5_role i 1), r (md5_role i 2), r (md5_role i 3))"

lemma md5_role_mod: "v \<le> 4 \<Longrightarrow> md5_role (4 * q + k) v = md5_role k v"
proof -
  assume "v \<le> 4"
  then have "4 * q + k + 4 - v = q * 4 + (k + 4 - v)" by simp
  then show ?thesis unfolding md5_role_def by (simp only: mod_mult_self3)
qed

lemma md5_roles:
  "md5_role (Suc i) 0 = md5_role i 3" "md5_role (Suc i) 1 = md5_role i 0"
  "md5_role (Suc i) 2 = md5_role i 1" "md5_role (Suc i) 3 = md5_role i 2"
  "distinct [md5_role i 0, md5_role i 1, md5_role i 2, md5_role i 3]"
proof -
  obtain q k where qk: "i = 4 * q + k" "k < 4"
    by (rule that [of "i div 4" "i mod 4"]) simp_all
  then have s: "Suc i = 4 * q + Suc k" by simp
  have r: "md5_role i v = md5_role k v" "md5_role (Suc i) v = md5_role (Suc k) v" if "v \<le> 4" for v
    unfolding s unfolding qk(1) using md5_role_mod [OF that] by blast+
  have v: "0 \<le> (4 :: nat)" "1 \<le> (4 :: nat)" "2 \<le> (4 :: nat)" "3 \<le> (4 :: nat)" by simp_all
  have all: "\<forall>k\<in>{0, 1, 2, 3}. md5_role (Suc k) 0 = md5_role k 3 \<and> md5_role (Suc k) 1 = md5_role k 0
      \<and> md5_role (Suc k) 2 = md5_role k 1 \<and> md5_role (Suc k) 3 = md5_role k 2
      \<and> distinct [md5_role k 0, md5_role k 1, md5_role k 2, md5_role k 3]"
    by (simp add: md5_role_def)
  have "k \<in> {0, 1, 2, 3}" using qk(2) by auto
  note p = bspec [OF all this]
  show "md5_role (Suc i) 0 = md5_role i 3" "md5_role (Suc i) 1 = md5_role i 0"
    "md5_role (Suc i) 2 = md5_role i 1" "md5_role (Suc i) 3 = md5_role i 2"
    "distinct [md5_role i 0, md5_role i 1, md5_role i 2, md5_role i 3]"
    unfolding r [OF v(1)] r [OF v(2)] r [OF v(3)] r [OF v(4)] using p by blast+
qed

lemma rotl32_word_rotl:
  assumes "0 < s" "s < 32"
  shows "rotl32 s w = word_rotl s w"
proof (rule bit_word_eqI)
  fix n
  assume "n < LENGTH(32)"
  then have n: "n < 32" by simp
  have rot: "bit (word_rotl s w) n \<longleftrightarrow> bit w ((n + (32 - s)) mod 32)"
    using assms n by (simp add: bit_word_rotl_iff)
  have code: "bit (rotl32 s w) n \<longleftrightarrow> s \<le> n \<and> bit w (n - s) \<or> bit w (32 - s + n)"
    using n by (auto simp: rotl32_def bit_or_iff bit_push_bit_iff bit_drop_bit_eq)
  show "bit (rotl32 s w) n \<longleftrightarrow> bit (word_rotl s w) n"
  proof (cases "s \<le> n")
    case True
    then have "(n + (32 - s)) mod 32 = n - s" using assms n by (simp add: mod_if)
    moreover have "\<not> bit w (32 - s + n)" using True assms bit_imp_le_length [of w "32 - s + n"] by auto
    ultimately show ?thesis using True rot code by simp
  next
    case False
    then have "(n + (32 - s)) mod 32 = 32 - s + n"
      using assms by (simp add: add.commute)
    with False rot code show ?thesis by simp
  qed
qed

lemma md5_shift_bounds: "i < 64 \<Longrightarrow> 0 < md5_shift i \<and> md5_shift i < 32"
proof -
  assume "i < 64"
  then have "i div 16 \<in> {0, 1, 2, 3}" "i mod 4 \<in> {0, 1, 2, 3}" by auto
  then show ?thesis by (auto simp: md5_shift_def)
qed

lemma md5_step_op:
  "i < 64 \<Longrightarrow> md5_view (Suc i) (MD5STEP M (md5_fun i, md5_role i 0, md5_role i 1, md5_role i 2, md5_role i 3,
       md5_index i, md5_K ! i, md5_shift i) r) = md5_op M i (md5_view i r)"
proof -
  assume "i < 64"
  then have rot: "rotl32 (md5_shift i) v = word_rotl (md5_shift i) v" for v
    using md5_shift_bounds rotl32_word_rotl by blast
  obtain w x y z where r: "md5_role i 0 = w" "md5_role i 1 = x" "md5_role i 2 = y" "md5_role i 3 = z" by blast
  have d: "w \<noteq> x" "w \<noteq> y" "w \<noteq> z" "x \<noteq> y" "x \<noteq> z" "y \<noteq> z"
    using md5_roles(5) [of i] unfolding r by simp_all
  have e: "r w + (f + (m + k)) = r w + f + k + m" for f m k by (simp add: algebra_simps)
  show ?thesis
    unfolding md5_view_def md5_roles r MD5STEP.simps md5_op.simps md5_fun_F e rot
    using d by (simp add: add.commute)
qed

lemma md5_steps_ops:
  "n \<le> 64 \<Longrightarrow> md5_view n (fold (MD5STEP M) (map (\<lambda>i. (md5_fun i, md5_role i 0, md5_role i 1, md5_role i 2, md5_role i 3,
       md5_index i, md5_K ! i, md5_shift i)) [0..<n]) r) = fold (md5_op M) [0..<n] (md5_view 0 r)"
  by (induction n) (simp_all add: md5_step_op [unfolded One_nat_def] del: MD5STEP.simps)

text \<open>
  C8. The 64 unrolled steps of the compression function, with their rewritten boolean
  functions and permuted registers, are the loop of RFC 1321.
\<close>

theorem MD5Transform_rfc: "caml_MD5Transform h M = md5_block h M"
proof -
  let ?r = "\<lambda>x. case x of A \<Rightarrow> h ! 0 | B \<Rightarrow> h ! 1 | C \<Rightarrow> h ! 2 | D \<Rightarrow> h ! 3"
  let ?s = "fold (MD5STEP M) md5_steps ?r"
  have "md5_view 64 ?s = fold (md5_op M) [0..<64] (md5_view 0 ?r)"
    unfolding md5_steps_table by (rule md5_steps_ops) (rule order_refl)
  moreover have "md5_view 64 ?s = (?s A, ?s B, ?s C, ?s D)"
    "md5_view 0 ?r = (h ! 0, h ! 1, h ! 2, h ! 3)"
    by (simp_all add: md5_view_def md5_role_def)
  ultimately show ?thesis
    by (simp add: caml_MD5Transform_def md5_block_def md5_steps_def Let_def
        del: upt_Suc split: prod.splits)
qed

section \<open>Streaming\<close>

text \<open>
  The context after the bytes \<open>m\<close>: the whole blocks are absorbed, the rest of \<open>m\<close> is at the
  start of \<open>in\<close>, and the counters hold the length in bits.
\<close>

definition md5_data :: "u8 list \<Rightarrow> MD5Context \<Rightarrow> bool" where
  "md5_data m ctx \<longleftrightarrow>
     ctx_buf ctx = md5_absorb md5_init m
     \<and> length (ctx_in ctx) = 64 \<and> take (length m mod 64) (ctx_in ctx) = drop (64 * (length m div 64)) m"

definition md5_context :: "u8 list \<Rightarrow> MD5Context \<Rightarrow> bool" where
  "md5_context m ctx \<longleftrightarrow>
     md5_data m ctx \<and> bits0 ctx = of_nat (8 * length m) \<and> bits1 ctx = of_nat (8 * length m div 2 ^ 32)"

lemma md5_absorb_append:
  "length p = 64 * k \<Longrightarrow> md5_absorb h (p @ q) = md5_absorb (md5_absorb h p) q"
proof (induction k arbitrary: h p)
  case (Suc k)
  then have "md5_absorb h (p @ q) = md5_absorb (md5_block h (load_words (take 64 p))) (drop 64 p @ q)"
    "md5_absorb h p = md5_absorb (md5_block h (load_words (take 64 p))) (drop 64 p)"
    by (simp_all add: md5_absorb.simps [of h "p @ q"] md5_absorb.simps [of h p])
  with Suc show ?case by simp
qed (simp add: md5_absorb.simps [of _ "[]"])

lemma md5_absorb_whole: "md5_absorb h (take (64 * (length m div 64)) m) = md5_absorb h m"
proof -
  have "md5_absorb h m = md5_absorb (md5_absorb h (take (64 * (length m div 64)) m)) (drop (64 * (length m div 64)) m)"
    using md5_absorb_append [of "take (64 * (length m div 64)) m" "length m div 64" h "drop (64 * (length m div 64)) m"]
    by simp
  moreover have "length (drop (64 * (length m div 64)) m) < 64" by (simp add: minus_mult_div_eq_mod)
  ultimately show ?thesis using md5_absorb.simps [of _ "drop (64 * (length m div 64)) m"] by presburger
qed

text \<open>The loop over whole blocks.\<close>

lemma md5_update_chunks_absorb:
  assumes "length (ctx_in ctx) = 64"
  shows "ctx_buf (md5_update_chunks ctx buf) = md5_absorb (ctx_buf ctx) buf
    \<and> length (ctx_in (md5_update_chunks ctx buf)) = 64
    \<and> take (length buf mod 64) (ctx_in (md5_update_chunks ctx buf)) = drop (64 * (length buf div 64)) buf
    \<and> bits0 (md5_update_chunks ctx buf) = bits0 ctx \<and> bits1 (md5_update_chunks ctx buf) = bits1 ctx"
  using assms
proof (induction ctx buf rule: md5_update_chunks.induct)
  case (1 ctx buf)
  show ?case
  proof (cases "64 \<le> length buf")
    case True
    let ?ctx = "md5_transform_in (put_in 0 (take 64 buf) ctx)"
    have c: "length (ctx_in ?ctx) = 64" "ctx_buf ?ctx = md5_block (ctx_buf ctx) (load_words (take 64 buf))"
      "bits0 ?ctx = bits0 ctx" "bits1 ?ctx = bits1 ctx"
      using 1(2) True by (simp_all add: md5_transform_in_def put_in_def MD5Transform_rfc)
    have u: "md5_update_chunks ctx buf = md5_update_chunks ?ctx (drop 64 buf)"
      using True md5_update_chunks.simps [of ctx buf] by simp
    have a: "md5_absorb (ctx_buf ctx) buf = md5_absorb (ctx_buf ?ctx) (drop 64 buf)"
      using True md5_absorb.simps [of "ctx_buf ctx" buf] c(2) by simp
    have "(n - 64) mod 64 = n mod 64" "64 * ((n - 64) div 64) + 64 = 64 * (n div 64)" if "64 \<le> n" for n :: nat
      using le_mod_geq [OF that] le_div_geq [of 64 n] that by simp_all
    from this [OF True] have r: "length (drop 64 buf) mod 64 = length buf mod 64"
      "drop (64 * (length (drop 64 buf) div 64)) (drop 64 buf) = drop (64 * (length buf div 64)) buf"
      by (simp_all only: length_drop drop_drop)
    show ?thesis
      using 1(1) [OF True c(1)] unfolding u a r c(3,4) .
  next
    case False
    with 1(2) show ?thesis
      by (simp add: md5_update_chunks.simps [of ctx buf] put_in_def md5_absorb.simps [of _ buf])
  qed
qed

lemma md5_data_bits [simp]:
  "md5_data m (bits0_update f ctx) = md5_data m ctx" "md5_data m (bits1_update f ctx) = md5_data m ctx"
  by (simp_all add: md5_data_def)

lemma put_in_bits [simp]:
  "bits0 (put_in p bs ctx) = bits0 ctx" "bits1 (put_in p bs ctx) = bits1 ctx" "ctx_buf (put_in p bs ctx) = ctx_buf ctx"
  "bits0 (md5_transform_in ctx) = bits0 ctx" "bits1 (md5_transform_in ctx) = bits1 ctx"
  "ctx_in (md5_transform_in ctx) = ctx_in ctx"
  by (simp_all add: put_in_def md5_transform_in_def)

lemma length_put_in [simp]:
  "p + length bs \<le> length (ctx_in ctx) \<Longrightarrow> length (ctx_in (put_in p bs ctx)) = length (ctx_in ctx)"
  by (simp add: put_in_def)

lemma md5_chunks_data:
  assumes "md5_data m ctx" "length m = 64 * k"
  shows "md5_data (m @ b) (md5_update_chunks ctx b)"
proof -
  have c: "length (ctx_in ctx) = 64" "ctx_buf ctx = md5_absorb md5_init m" using assms(1) by (simp_all add: md5_data_def)
  show ?thesis
    using md5_update_chunks_absorb [OF c(1), of b] c(2) md5_absorb_append [OF assms(2), of md5_init b] assms(2)
    by (simp add: md5_data_def)
qed

text \<open>Filling the partial block.\<close>

lemma md5_put_partial:
  assumes "md5_data m ctx" "length m mod 64 + length b < 64"
  shows "md5_data (m @ b) (put_in (length m mod 64) b ctx)"
proof -
  obtain k r where k: "length m div 64 = k" "length m mod 64 = r" "length m = k * 64 + r"
    using div_mod_linear [of "length m" 64] by metis
  have "length (m @ b) = (r + length b) + k * 64" "r + length b < 64" using assms(2) k by simp_all
  then have l: "length (m @ b) mod 64 = r + length b" "length (m @ b) div 64 = k"
    by (simp_all only: mod_mult_self1 mod_less div_mult_self1 div_less)
  have "md5_absorb md5_init (m @ b) = md5_absorb md5_init (take (64 * k) (m @ b))"
    using md5_absorb_whole [of md5_init "m @ b"] l by simp
  also have "\<dots> = md5_absorb md5_init m"
    using md5_absorb_whole [of md5_init m] k by simp
  finally have "md5_absorb md5_init (m @ b) = md5_absorb md5_init m" .
  then show ?thesis
    using assms k l by (simp add: md5_data_def put_in_def)
qed

lemma md5_fill_block:
  assumes "md5_data m ctx" "length m mod 64 + length b = 64"
  shows "md5_data (m @ b) (md5_transform_in (put_in (length m mod 64) b ctx))"
    and "length (m @ b) mod 64 = 0"
proof -
  obtain k r where k: "length m div 64 = k" "length m mod 64 = r" "length m = 64 * k + r"
    using div_mod_linear [of "length m" 64] by (metis mult.commute)
  obtain p s where m: "m = p @ s" "length p = 64 * k" "length s = r"
    by (rule that [of "take (64 * k) m" "drop (64 * k) m"]) (simp_all add: k(3))
  have inp: "take r (ctx_in ctx) = s" "length (ctx_in ctx) = 64"
    "ctx_buf ctx = md5_absorb md5_init (take (64 * (length m div 64)) m)"
    using assms(1) m k md5_absorb_whole [of md5_init m] by (simp_all add: md5_data_def)
  have full: "ctx_in (put_in r b ctx) = s @ b"
    using inp assms(2) k by (simp add: put_in_def)
  have sb: "length (s @ b) = 64" using m assms(2) k by simp
  have "md5_absorb md5_init (m @ b) = md5_absorb (md5_absorb md5_init p) (s @ b)"
    using md5_absorb_append [OF m(2)] m(1) by simp
  also have "\<dots> = md5_block (md5_absorb md5_init p) (load_words (s @ b))"
    using sb md5_absorb.simps [of "md5_absorb md5_init p" "s @ b"] md5_absorb.simps [of _ "[]"] by simp
  finally have a: "md5_absorb md5_init (m @ b) = md5_block (md5_absorb md5_init p) (load_words (s @ b))" .
  have "length (m @ b) = 64 * (k + 1)" using m sb by simp
  then show mod0: "length (m @ b) mod 64 = 0" by simp
  have "ctx_buf ctx = md5_absorb md5_init p" using inp(3) m k(1) by simp
  then show "md5_data (m @ b) (md5_transform_in (put_in (length m mod 64) b ctx))"
    using a full mod0 \<open>length (m @ b) = 64 * (k + 1)\<close> sb k(2)
    by (simp add: md5_data_def md5_transform_in_def MD5Transform_rfc)
qed

section \<open>The counters\<close>

lemma md5_index_of:
  "unat (drop_bit 3 (of_nat (8 * n) :: u32) AND 0x3F) = n mod 64"
proof -
  have "unat (drop_bit 3 (of_nat (8 * n) :: u32) AND 0x3F) = unat (of_nat (8 * n) :: u32) div 8 mod 64"
    using unat_and_mask [of "drop_bit 3 (of_nat (8 * n) :: u32)" 6] unat_shiftr [of 3 "of_nat (8 * n) :: u32"]
    by (simp add: mask_eq_exp_minus_1)
  also have "unat (of_nat (8 * n) :: u32) = 8 * (n mod 2 ^ 29)"
    unfolding unat_of_nat_mod by (simp add: mult_mod_right)
  finally show ?thesis by (simp add: mod_mod_cancel)
qed

lemma md5_bits:
  fixes m l :: nat
  assumes "l < 2 ^ 61"
  defines "t \<equiv> of_nat (8 * m) :: u32" and "len \<equiv> of_nat l :: u64"
  shows "t + push_bit 3 (ucast len) = of_nat (8 * (m + l))"
    and "(if t + push_bit 3 (ucast len) < t then of_nat (8 * m div 2 ^ 32) + 1 else of_nat (8 * m div 2 ^ 32))
      + ucast (drop_bit 29 len) = (of_nat (8 * (m + l) div 2 ^ 32) :: u32)"
proof -
  have u: "ucast len = (of_nat l :: u32)"
    unfolding len_def word_unat_eq_iff unat_ucast_mod unat_of_nat_mod by (simp add: mod_mod_cancel)
  then have p: "push_bit 3 (ucast len) = (of_nat (8 * l) :: u32)"
    by (simp add: push_bit_eq_mult)
  then show sum: "t + push_bit 3 (ucast len) = of_nat (8 * (m + l))"
    unfolding t_def by (simp add: algebra_simps)
  have "unat len = l" unfolding len_def using assms(1) by (simp add: unat_of_nat_small)
  then have "unat (drop_bit 29 len) = l div 2 ^ 29" by (simp add: unat_shiftr)
  then have d: "ucast (drop_bit 29 len) = (of_nat (l div 2 ^ 29) :: u32)" 
    by (simp add: word_unat_eq_iff unat_ucast_mod unat_of_nat_mod)
  have e: "8 * l div 2 ^ 32 = l div 2 ^ 29" by simp
  let ?x = "8 * m mod 2 ^ 32" and ?y = "8 * l mod 2 ^ 32"
  have "t + push_bit 3 (ucast len) < t \<longleftrightarrow> (?x + ?y) mod 2 ^ 32 < ?x"
    unfolding sum unfolding t_def word_less_nat_alt unat_of_nat_mod
    by (simp add: mod_add_eq distrib_left)
  also have "\<dots> \<longleftrightarrow> 2 ^ 32 \<le> ?x + ?y"
  proof (cases "?x + ?y < 2 ^ 32")
    case False
    obtain x y where xy: "?x = x" "?y = y" "x < 2 ^ 32" "y < 2 ^ 32" by simp
    with False have "(x + y) mod 2 ^ 32 = x + y - 2 ^ 32" by (simp add: le_mod_geq)
    with False xy show ?thesis unfolding xy by simp
  qed simp
  finally have c: "t + push_bit 3 (ucast len) < t \<longleftrightarrow> 2 ^ 32 \<le> ?x + ?y" .
  have "(?x + ?y) div 2 ^ 32 = (if 2 ^ 32 \<le> ?x + ?y then 1 else 0)"
  proof (cases "?x + ?y < 2 ^ 32")
    case False
    obtain x y where xy: "?x = x" "?y = y" "x < 2 ^ 32" "y < 2 ^ 32" by simp
    with False show ?thesis unfolding xy by (simp add: le_div_geq)
  qed simp
  then have "8 * (m + l) div 2 ^ 32 = 8 * m div 2 ^ 32 + l div 2 ^ 29 + (if 2 ^ 32 \<le> ?x + ?y then 1 else 0)"
    using div_add1_eq [of "8 * m" "8 * l" "2 ^ 32"] e by (simp add: distrib_left)
  then show "(if t + push_bit 3 (ucast len) < t then of_nat (8 * m div 2 ^ 32) + 1 else of_nat (8 * m div 2 ^ 32))
      + ucast (drop_bit 29 len) = (of_nat (8 * (m + l) div 2 ^ 32) :: u32)"
    unfolding c d by (simp del: of_nat_add add: of_nat_add [symmetric])
qed

section \<open>Streaming refines the reference\<close>

lemma md5_context_init: "length garbage = 64 \<Longrightarrow> md5_context [] (caml_MD5Init garbage)"
  by (simp add: md5_context_def md5_data_def caml_MD5Init_def md5_init_def md5_absorb.simps [of _ "[]"])

lemma md5_update_data:
  assumes "md5_data m ctx"
  shows "md5_data (m @ b)
    (let t = length m mod 64
     in if t \<noteq> 0 then
          (if length b < 64 - t then put_in t b ctx
           else md5_update_chunks (md5_transform_in (put_in t (take (64 - t) b) ctx)) (drop (64 - t) b))
        else md5_update_chunks ctx b)"
proof -
  let ?t = "length m mod 64"
  have t: "?t < 64" by simp
  consider "?t = 0" | "?t \<noteq> 0" "length b < 64 - ?t" | "?t \<noteq> 0" "\<not> length b < 64 - ?t" by blast
  then show ?thesis
  proof cases
    case 1
    then have "length m = 64 * (length m div 64)" using mult_div_mod_eq [of 64 "length m"] by simp
    with md5_chunks_data [OF assms this] 1 show ?thesis by simp
  next
    case 2
    with md5_put_partial [OF assms, of b] show ?thesis by simp
  next
    case 3
    let ?m = "m @ take (64 - ?t) b"
    let ?ctx = "md5_transform_in (put_in ?t (take (64 - ?t) b) ctx)"
    have "?t + length (take (64 - ?t) b) = 64" using 3(2) t by (simp add: min_def)
    note f = md5_fill_block [OF assms this]
    have "length ?m = 64 * (length ?m div 64)" using mult_div_mod_eq [of 64 "length ?m"] f(2) by linarith
    from md5_chunks_data [OF f(1) this, of "drop (64 - ?t) b"] 3 show ?thesis by (simp add: Let_def)
  qed
qed

lemma md5_context_update:
  assumes "md5_context m ctx" "length b < 2 ^ 61"
  shows "md5_context (m @ b) (caml_MD5Update ctx b)"
proof -
  note bits = md5_bits [OF assms(2), of "length m"]
  have b0: "bits0 ctx = of_nat (8 * length m)" "bits1 ctx = of_nat (8 * length m div 2 ^ 32)" "md5_data m ctx"
    using assms(1) by (simp_all add: md5_context_def)
  have t: "unat (drop_bit 3 (bits0 ctx) AND 0x3F) = length m mod 64"
    unfolding b0(1) by (rule md5_index_of)
  obtain ctx' where ctx': "md5_data m ctx'" "bits0 ctx' = of_nat (8 * (length m + length b))"
    "bits1 ctx' = of_nat (8 * (length m + length b) div 2 ^ 32)"
    "caml_MD5Update ctx b =
      (let t = length m mod 64
       in if t \<noteq> 0 then
            (if length b < 64 - t then put_in t b ctx'
             else md5_update_chunks (md5_transform_in (put_in t (take (64 - t) b) ctx')) (drop (64 - t) b))
          else md5_update_chunks ctx' b)"
  proof
    let ?len = "of_nat (length b) :: u64"
    let ?c1 = "ctx\<lparr>bits0 := bits0 ctx + push_bit 3 (ucast ?len)\<rparr>"
    let ?c2 = "if bits0 ?c1 < bits0 ctx then ?c1\<lparr>bits1 := bits1 ?c1 + 1\<rparr> else ?c1"
    let ?c3 = "?c2\<lparr>bits1 := bits1 ?c2 + ucast (drop_bit 29 ?len)\<rparr>"
    show "caml_MD5Update ctx b =
      (let t = length m mod 64
       in if t \<noteq> 0 then
            (if length b < 64 - t then put_in t b ?c3
             else md5_update_chunks (md5_transform_in (put_in t (take (64 - t) b) ?c3)) (drop (64 - t) b))
          else md5_update_chunks ?c3 b)"
      unfolding caml_MD5Update_def Let_def t by simp
    show "md5_data m ?c3" using b0(3) by simp
    have 0: "bits0 ?c1 = of_nat (8 * (length m + length b))" using bits(1) b0(1) by simp
    then show "bits0 ?c3 = of_nat (8 * (length m + length b))" by simp
    show "bits1 ?c3 = of_nat (8 * (length m + length b) div 2 ^ 32)"
    proof -
      have "bits1 ?c3 = (if bits0 ctx + push_bit 3 (ucast ?len) < bits0 ctx then bits1 ctx + 1 else bits1 ctx)
          + ucast (drop_bit 29 ?len)" by simp
      then show ?thesis unfolding b0(1,2) using bits(2) by argo
    qed
  qed
  have "bits0 (caml_MD5Update ctx b) = bits0 ctx'" "bits1 (caml_MD5Update ctx b) = bits1 ctx'"
    using md5_update_chunks_absorb ctx'(1) unfolding ctx'(4) Let_def
    by (auto simp: md5_data_def split: if_splits)
  with md5_update_data [OF ctx'(1), of b] ctx' show ?thesis
    by (simp add: md5_context_def)
qed

lemma put_in_append:
  "p + length bs + length cs \<le> length (ctx_in ctx) \<Longrightarrow> q = p + length bs \<Longrightarrow>
   put_in q cs (put_in p bs ctx) = put_in p (bs @ cs) ctx"
proof -
  assume a: "p + length bs + length cs \<le> length (ctx_in ctx)" "q = p + length bs"
  then obtain u v where "ctx_in ctx = u @ v" "length u = p"
    by (intro that [of "take p (ctx_in ctx)" "drop p (ctx_in ctx)"]) simp_all
  then show "put_in q cs (put_in p bs ctx) = put_in p (bs @ cs) ctx"
    using a by (simp add: put_in_def add.commute)
qed

lemma length_store_word [simp]: "length (store_word w) = 4"
  by (simp add: store_word_def)

lemma md5_final:
  assumes "md5_context m ctx"
  shows "caml_MD5Final ctx = md5 m"
proof -
  let ?w = "store_word (of_nat (8 * length m)) @ store_word (of_nat (8 * length m div 2 ^ 32))"
  have b: "bits0 ctx = of_nat (8 * length m)" "bits1 ctx = of_nat (8 * length m div 2 ^ 32)" "md5_data m ctx"
    using assms by (simp_all add: md5_context_def)
  have t: "unat (drop_bit 3 (bits0 ctx) AND 0x3F) = length m mod 64"
    unfolding b(1) by (rule md5_index_of)
  obtain r where r: "length m mod 64 = r" "r < 64" by simp
  have l: "length (ctx_in ctx) = 64" using b(3) by (simp add: md5_data_def)
  show ?thesis
  proof (cases "64 - 1 - r < 8")
    case True
    let ?c1 = "md5_transform_in (put_in r ([0x80] @ replicate (64 - 1 - r) 0) ctx)"
    have f1: "md5_data (m @ [0x80] @ replicate (64 - 1 - r) 0) ?c1"
      "length (m @ [0x80] @ replicate (64 - 1 - r) 0) mod 64 = 0"
      using md5_fill_block [OF b(3), of "[0x80] @ replicate (64 - 1 - r) 0"] r by simp_all
    have l1: "length (ctx_in ?c1) = 64" using f1(1) by (simp add: md5_data_def)
    let ?c2 = "md5_transform_in (put_in 0 (replicate 56 0 @ ?w) ?c1)"
    have f2: "md5_data ((m @ [0x80] @ replicate (64 - 1 - r) 0) @ replicate 56 0 @ ?w) ?c2"
      using md5_fill_block(1) [OF f1(1), of "replicate 56 0 @ ?w"] f1(2) by simp
    have p1: "put_in (r + 1) (replicate (64 - 1 - r) 0) (put_in r [0x80] ctx) =
        put_in r ([0x80] @ replicate (64 - 1 - r) 0) ctx"
      by (rule put_in_append) (use l r(2) in simp_all)
    have p2: "put_in 60 (store_word w') (put_in 56 (store_word w) (put_in 0 (replicate 56 0) ?c1)) =
        put_in 0 (replicate 56 0 @ store_word w @ store_word w') ?c1" for w w'
    proof -
      have "put_in 56 (store_word w) (put_in 0 (replicate 56 0) ?c1) = put_in 0 (replicate 56 0 @ store_word w) ?c1"
        by (rule put_in_append) (simp_all only: l1 length_replicate length_store_word)
      moreover have "put_in 60 (store_word w') (put_in 0 (replicate 56 0 @ store_word w) ?c1) =
          put_in 0 ((replicate 56 0 @ store_word w) @ store_word w') ?c1"
        by (rule put_in_append) (simp_all only: l1 length_append length_replicate length_store_word)
      ultimately show ?thesis by simp
    qed
    have "caml_MD5Final ctx = concat (map store_word (ctx_buf ?c2))"
      unfolding caml_MD5Final_def Let_def t r(1) if_P [OF True] p1 put_in_bits p2 unfolding b(1,2) by (rule refl)
    moreover have "(m @ [0x80] @ replicate (64 - 1 - r) 0) @ replicate 56 0 @ ?w = md5_pad m"
    proof -
      have "119 - r = (64 - 1 - r) + 56" "\<not> r < 56" using True r(2) by simp_all
      then show ?thesis
        unfolding md5_pad_def r(1) by (simp only: replicate_add if_False append_assoc)
    qed
    ultimately show ?thesis using f2 by (simp add: md5_def md5_data_def)
  next
    case False
    let ?c2 = "md5_transform_in (put_in r ([0x80] @ replicate (64 - 1 - r - 8) 0 @ ?w) ctx)"
    have f2: "md5_data (m @ [0x80] @ replicate (64 - 1 - r - 8) 0 @ ?w) ?c2"
      using md5_fill_block(1) [OF b(3), of "[0x80] @ replicate (64 - 1 - r - 8) 0 @ ?w"] r False by simp
    have p: "put_in 60 (store_word w') (put_in 56 (store_word w)
          (put_in (r + 1) (replicate (64 - 1 - r - 8) 0) (put_in r [0x80] ctx))) =
        put_in r ([0x80] @ replicate (64 - 1 - r - 8) 0 @ store_word w @ store_word w') ctx" for w w'
    proof -
      let ?z = "replicate (64 - 1 - r - 8) 0 :: u8 list"
      have "put_in (r + 1) ?z (put_in r [0x80] ctx) = put_in r ([0x80] @ ?z) ctx"
        by (rule put_in_append) (use l r(2) False in simp_all)
      moreover have "put_in 56 (store_word w) (put_in r ([0x80] @ ?z) ctx) = put_in r (([0x80] @ ?z) @ store_word w) ctx"
        by (rule put_in_append) (use l r(2) False in simp_all)
      moreover have "put_in 60 (store_word w') (put_in r (([0x80] @ ?z) @ store_word w) ctx) =
          put_in r ((([0x80] @ ?z) @ store_word w) @ store_word w') ctx"
        by (rule put_in_append) (use l r(2) False in simp_all)
      ultimately show ?thesis by simp
    qed
    have "caml_MD5Final ctx = concat (map store_word (ctx_buf ?c2))"
      unfolding caml_MD5Final_def Let_def t r(1) if_not_P [OF False] put_in_bits p unfolding b(1,2) by (rule refl)
    moreover have "m @ [0x80] @ replicate (64 - 1 - r - 8) 0 @ ?w = md5_pad m"
      using False unfolding md5_pad_def r(1) by simp
    ultimately show ?thesis using f2 by (simp add: md5_def md5_data_def)
  qed
qed

text \<open>
  C6. However a message is cut into buffers, with whatever the context held before, updating
  with the buffers in turn and finishing gives the digest of RFC 1321 of their
  concatenation: buffering, the carry of the bit counters and the two padding cases do not
  show.
\<close>

theorem md5_streaming:
  assumes "length garbage = 64" "\<And>b. b \<in> set bufs \<Longrightarrow> length b < 2 ^ 61"
  shows "caml_MD5Final (fold (\<lambda>b ctx. caml_MD5Update ctx b) bufs (caml_MD5Init garbage)) = md5 (concat bufs)"
proof -
  have "md5_context (m @ concat bs) (fold (\<lambda>b ctx. caml_MD5Update ctx b) bs ctx)"
    if "md5_context m ctx" "\<And>b. b \<in> set bs \<Longrightarrow> length b < 2 ^ 61" for m bs ctx
    using that
  proof (induction bs arbitrary: m ctx)
    case (Cons b bs)
    have "md5_context (m @ b) (caml_MD5Update ctx b)"
      using Cons.prems by (intro md5_context_update) simp_all
    from Cons.IH [OF this] Cons.prems(2) show ?case by simp
  qed simp
  from this [OF md5_context_init [OF assms(1)] assms(2)] show ?thesis
    by (simp add: md5_final)
qed

lemma md5_streaming_witness:
  "caml_MD5Final (fold (\<lambda>b ctx. caml_MD5Update ctx b) [[97], [98, 99]] (caml_MD5Init (replicate 64 170))) =
     md5 [97, 98, 99]"
proof -
  have "length b < 2 ^ 61" if "b \<in> set [[97], [98, 99 :: u8]]" for b using that by auto
  with md5_streaming [of "replicate 64 170" "[[97], [98, 99]]"] show ?thesis by simp
qed

text \<open>
  The primitive digests a substring: inside the block it returns the string of the
  digest of those bytes, outside it is not defined.
\<close>

theorem md5_string_digest:
  assumes "length garbage = 64" "length garbage' = 24" "length str < 2 ^ 61"
    and "sint (Long_val ofs) = int i" "sint (Long_val len) = int n" "i + n \<le> length str"
  shows "caml_md5_string garbage garbage' str ofs len = Some (string_block (md5 (take n (drop i str))))"
proof -
  have "caml_MD5Final (caml_MD5Update (caml_MD5Init garbage) (take n (drop i str))) = md5 (take n (drop i str))"
    using md5_streaming [OF assms(1), of "[take n (drop i str)]"] assms(3) by simp
  moreover have "length (md5 m) = 16" for m
  proof -
    have len: "length (md5_absorb h bs) = 4" if "length h = 4" for h bs
      using that
    proof (induction h bs rule: md5_absorb.induct)
      case (1 h bs)
      have "length (md5_block h M) = 4" for M by (simp add: md5_block_def split: prod.splits)
      with 1 show ?case by (simp add: md5_absorb.simps [of h bs])
    qed
    have "length (concat (map store_word ws)) = 4 * length ws" for ws by (induction ws) simp_all
    with len [of md5_init] show ?thesis by (simp add: md5_def md5_init_def)
  qed
  moreover have "drop 16 (caml_alloc_string garbage' 16) = replicate (string_pad 16) 0 @ [of_nat (string_pad 16)]"
    by (rule alloc_string_parts(1)) (simp add: assms(2) string_wosize_def)
  ultimately show ?thesis
    using assms(4-6) by (simp add: caml_md5_string_def string_block_def Let_def)
qed

lemma md5_string_digest_witness:
  "caml_md5_string (replicate 64 0) (replicate 24 0) (string_block [97, 98, 99]) (Val_long 1) (Val_long 2) =
     Some (string_block (md5 [98, 99]))"
  using md5_string_digest [of "replicate 64 0" "replicate 24 0" "string_block [97, 98, 99]" "Val_long 1" 1
      "Val_long 2" 2] Long_val_Val_long_of_nat [of 1] Long_val_Val_long_of_nat [of 2]
  by (simp add: string_block_def string_pad_def)

end
