(* ===== verification/Globroots.thy ===== *)
theory Globroots
  imports Values
begin

text \<open>
  Global C roots (\<open>globroots.c\<close>): skip lists of root addresses, and the mutable and
  generational registration on top of them. A list has its own nodes; the address of a new
  node, which \<open>caml_stat_alloc\<close> chooses, is an argument.
\<close>

section \<open>The skip list\<close>

definition NUM_LEVELS :: nat where "NUM_LEVELS = 17"

text \<open>
  The nodes of a list: \<open>root\<close> and \<open>forward\<close> of each. The list header is the node \<open>HEAD\<close>, which
  has no root. \<open>None\<close> is \<open>NULL\<close>.
\<close>

record global_root_list =
  node_root :: "addr \<Rightarrow> addr"
  forward :: "addr \<Rightarrow> nat \<Rightarrow> addr option"
  level :: nat

definition HEAD :: addr where "HEAD = 0"

definition empty_root_list :: global_root_list where
  "empty_root_list = \<lparr>node_root = (\<lambda>_. 0), forward = (\<lambda>_ _. None), level = 0\<rparr>"

text \<open>The loop of \<open>random_level\<close>, with a bound on its turns.\<close>

fun count_levels :: "nat \<Rightarrow> u32 \<Rightarrow> nat \<Rightarrow> nat option" where
  "count_levels 0 r lev = None"
| "count_levels (Suc fuel) r lev =
     (if r AND 0xC0000000 = 0xC0000000 then count_levels fuel (push_bit 2 r) (lev + 1) else Some lev)"

definition random_level :: "u32 \<Rightarrow> nat option \<times> u32" where
  \<comment> \<open>the level and the new \<open>random_seed\<close>\<close>
  "random_level random_seed =
     (let r = random_seed * 69069 + 25173 in (count_levels NUM_LEVELS r 0, r))"

text \<open>The inner loop: along level \<open>i\<close> to the last node before \<open>r\<close>.\<close>

partial_function (option) root_walk :: "global_root_list \<Rightarrow> addr \<Rightarrow> nat \<Rightarrow> addr \<Rightarrow> addr option" where
  "root_walk rl r i e =
     (case forward rl e i of
        None \<Rightarrow> Some e
      | Some f \<Rightarrow> if node_root rl f \<ge> r then Some e else root_walk rl r i f)"

text \<open>The outer loop, from level \<open>i\<close> down: the last cursor and \<open>update\<close>.\<close>

fun root_find :: "global_root_list \<Rightarrow> addr \<Rightarrow> nat \<Rightarrow> addr \<Rightarrow> (nat \<Rightarrow> addr) \<Rightarrow> (addr \<times> (nat \<Rightarrow> addr)) option" where
  "root_find rl r 0 e update =
     (case root_walk rl r 0 e of None \<Rightarrow> None | Some e \<Rightarrow> Some (e, update(0 := e)))"
| "root_find rl r (Suc i) e update =
     (case root_walk rl r (Suc i) e of None \<Rightarrow> None | Some e \<Rightarrow> root_find rl r i e (update(Suc i := e)))"

definition set_forward :: "addr \<Rightarrow> nat \<Rightarrow> addr option \<Rightarrow> global_root_list \<Rightarrow> global_root_list" where
  "set_forward e i f rl = rl\<lparr>forward := (forward rl)(e := (forward rl e)(i := f))\<rparr>"

definition link_node :: "addr \<Rightarrow> (nat \<Rightarrow> addr) \<Rightarrow> nat \<Rightarrow> global_root_list \<Rightarrow> global_root_list" where
  "link_node e update i rl =
     (let rl = set_forward e i (forward rl (update i) i) rl in set_forward (update i) i (Some e) rl)"

text \<open>Whether the node after the cursor is the one of \<open>r\<close>.\<close>

definition root_present :: "global_root_list \<Rightarrow> addr \<Rightarrow> addr \<Rightarrow> bool" where
  "root_present rl e r = (case forward rl e 0 of Some n \<Rightarrow> node_root rl n = r | None \<Rightarrow> False)"

definition caml_insert_global_root ::
    "global_root_list \<Rightarrow> addr \<Rightarrow> addr \<Rightarrow> u32 \<Rightarrow> (global_root_list \<times> u32) option" where
  "caml_insert_global_root rl r new seed =
     (case root_find rl r (level rl) HEAD (\<lambda>_. 0) of
        None \<Rightarrow> None
      | Some (e, update) \<Rightarrow>
          if root_present rl e r then Some (rl, seed)
          else
            (case random_level seed of
               (None, seed) \<Rightarrow> None
             | (Some new_level, seed) \<Rightarrow>
                 (let update = (\<lambda>i. if level rl < i \<and> i \<le> new_level then HEAD else update i);
                      rl = rl\<lparr>level := max (level rl) new_level\<rparr>;
                      rl = rl\<lparr>node_root := (node_root rl)(new := r)\<rparr>
                  in Some (fold (link_node new update) [0..<Suc new_level] rl, seed))))"

definition unlink_node :: "addr \<Rightarrow> (nat \<Rightarrow> addr) \<Rightarrow> nat \<Rightarrow> global_root_list \<Rightarrow> global_root_list" where
  "unlink_node e update i rl =
     (if forward rl (update i) i = Some e then set_forward (update i) i (forward rl e i) rl else rl)"

text \<open>\<open>while (rootlist->level > 0 && rootlist->forward[rootlist->level] == NULL)\<close>\<close>

fun correct_level :: "(nat \<Rightarrow> addr option) \<Rightarrow> nat \<Rightarrow> nat" where
  "correct_level fwd 0 = 0"
| "correct_level fwd (Suc l) = (if fwd (Suc l) = None then correct_level fwd l else Suc l)"

definition caml_delete_global_root :: "global_root_list \<Rightarrow> addr \<Rightarrow> global_root_list option" where
  "caml_delete_global_root rl r =
     (case root_find rl r (level rl) HEAD (\<lambda>_. 0) of
        None \<Rightarrow> None
      | Some (e, update) \<Rightarrow>
          if \<not> root_present rl e r then Some rl
          else
            (let e = the (forward rl e 0);
                 rl = fold (unlink_node e update) [0..<Suc (level rl)] rl
             in Some (rl\<lparr>level := correct_level (forward rl HEAD) (level rl)\<rparr>)))"

text \<open>The nodes along level 0, as the iteration visits them.\<close>

partial_function (option) root_nodes :: "global_root_list \<Rightarrow> addr option \<Rightarrow> addr list option" where
  "root_nodes rl gr =
     (case gr of
        None \<Rightarrow> Some []
      | Some n \<Rightarrow>
          Option.bind (root_nodes rl (forward rl n 0)) (\<lambda>ns. Some (n # ns)))"

text \<open>The memory the roots are in, and the scanning action on a value and its root.\<close>

type_synonym root_memory = "addr \<Rightarrow> u64"
type_synonym scanning_action = "u64 \<Rightarrow> addr \<Rightarrow> root_memory \<Rightarrow> root_memory"

definition caml_iterate_global_roots ::
    "scanning_action \<Rightarrow> global_root_list \<Rightarrow> root_memory \<Rightarrow> root_memory option" where
  "caml_iterate_global_roots f rl mem =
     map_option (\<lambda>ns. fold (\<lambda>n mem. f (mem (node_root rl n)) (node_root rl n) mem) ns mem)
       (root_nodes rl (forward rl HEAD 0))"

definition caml_empty_global_roots :: "global_root_list \<Rightarrow> global_root_list" where
  "caml_empty_global_roots rl =
     (fold (\<lambda>i. set_forward HEAD i None) [0..<Suc (level rl)] rl)\<lparr>level := 0\<rparr>"

section \<open>The three lists\<close>

record global_roots =
  caml_global_roots :: global_root_list
  caml_global_roots_young :: global_root_list
  caml_global_roots_old :: global_root_list
  random_seed :: u32
  root_mem :: root_memory

definition insert_roots :: "global_root_list \<Rightarrow> addr \<Rightarrow> addr \<Rightarrow>
    (global_root_list \<Rightarrow> global_roots \<Rightarrow> global_roots) \<Rightarrow> global_roots \<Rightarrow> global_roots option" where
  "insert_roots rl r new put s =
     map_option (\<lambda>(rl, seed). put rl (s\<lparr>random_seed := seed\<rparr>))
       (caml_insert_global_root rl r new (random_seed s))"

definition insert_root :: "addr \<Rightarrow> addr \<Rightarrow> global_roots \<Rightarrow> global_roots option" where
  "insert_root r new s = insert_roots (caml_global_roots s) r new (\<lambda>rl. caml_global_roots_update (\<lambda>_. rl)) s"
definition insert_young :: "addr \<Rightarrow> addr \<Rightarrow> global_roots \<Rightarrow> global_roots option" where
  "insert_young r new s =
     insert_roots (caml_global_roots_young s) r new (\<lambda>rl. caml_global_roots_young_update (\<lambda>_. rl)) s"
definition insert_old :: "addr \<Rightarrow> addr \<Rightarrow> global_roots \<Rightarrow> global_roots option" where
  "insert_old r new s =
     insert_roots (caml_global_roots_old s) r new (\<lambda>rl. caml_global_roots_old_update (\<lambda>_. rl)) s"

definition delete_young :: "addr \<Rightarrow> global_roots \<Rightarrow> global_roots option" where
  "delete_young r s =
     map_option (\<lambda>rl. s\<lparr>caml_global_roots_young := rl\<rparr>) (caml_delete_global_root (caml_global_roots_young s) r)"
definition delete_old :: "addr \<Rightarrow> global_roots \<Rightarrow> global_roots option" where
  "delete_old r s =
     map_option (\<lambda>rl. s\<lparr>caml_global_roots_old := rl\<rparr>) (caml_delete_global_root (caml_global_roots_old s) r)"

definition caml_register_global_root :: "addr \<Rightarrow> addr \<Rightarrow> global_roots \<Rightarrow> global_roots option" where
  "caml_register_global_root r new s = insert_root r new s"

definition caml_remove_global_root :: "addr \<Rightarrow> global_roots \<Rightarrow> global_roots option" where
  "caml_remove_global_root r s =
     map_option (\<lambda>rl. s\<lparr>caml_global_roots := rl\<rparr>) (caml_delete_global_root (caml_global_roots s) r)"

text \<open>\<open>Is_young\<close> and \<open>Is_in_heap\<close> classify block addresses.\<close>

record address_class =
  Is_young :: "u64 \<Rightarrow> bool"
  Is_in_heap :: "u64 \<Rightarrow> bool"

definition caml_register_generational_global_root ::
    "address_class \<Rightarrow> addr \<Rightarrow> addr \<Rightarrow> global_roots \<Rightarrow> global_roots option" where
  "caml_register_generational_global_root ac r new s =
     (let v = root_mem s r
      in if Is_block v then
           (if Is_young ac v then insert_young r new s
            else if Is_in_heap ac v then insert_old r new s
            else Some s)
         else Some s)"

definition caml_remove_generational_global_root ::
    "address_class \<Rightarrow> addr \<Rightarrow> global_roots \<Rightarrow> global_roots option" where
  "caml_remove_generational_global_root ac r s =
     (let v = root_mem s r
      in if Is_block v then
           (if Is_young ac v then delete_young r s
            else if Is_in_heap ac v then delete_old r s
            else Some s)
         else Some s)"

definition caml_modify_generational_global_root ::
    "address_class \<Rightarrow> addr \<Rightarrow> addr \<Rightarrow> u64 \<Rightarrow> global_roots \<Rightarrow> global_roots option" where
  "caml_modify_generational_global_root ac r new newval s =
     (let oldval = root_mem s r;
          s =
            (if Is_block newval \<and> Is_young ac newval \<and> Is_block oldval \<and> Is_in_heap ac oldval
             then (case delete_old r s of None \<Rightarrow> None | Some s \<Rightarrow> insert_young r new s)
             else if \<not> Is_block oldval \<and> Is_block newval then
               (if Is_young ac newval then insert_young r new s
                else if Is_in_heap ac newval then insert_old r new s
                else Some s)
             else if Is_block oldval \<and> \<not> Is_block newval then
               (if Is_young ac oldval then delete_young r s
                else if Is_in_heap ac oldval then delete_old r s
                else Some s)
             else Some s)
      in map_option (\<lambda>s. s\<lparr>root_mem := (root_mem s)(r := newval)\<rparr>) s)"

definition iterate_roots :: "scanning_action \<Rightarrow> global_root_list \<Rightarrow> global_roots \<Rightarrow> global_roots option" where
  "iterate_roots f rl s =
     map_option (\<lambda>mem. s\<lparr>root_mem := mem\<rparr>) (caml_iterate_global_roots f rl (root_mem s))"

definition caml_scan_global_roots :: "scanning_action \<Rightarrow> global_roots \<Rightarrow> global_roots option" where
  "caml_scan_global_roots f s =
     Option.bind (iterate_roots f (caml_global_roots s) s) (\<lambda>s.
     Option.bind (iterate_roots f (caml_global_roots_young s) s) (\<lambda>s.
     iterate_roots f (caml_global_roots_old s) s))"

text \<open>
  The young roots are inserted in the old list at the addresses \<open>news\<close>, one for each.
\<close>

fun move_young :: "addr list \<Rightarrow> (nat \<Rightarrow> addr) \<Rightarrow> global_roots \<Rightarrow> global_roots option" where
  "move_young [] news s = Some s"
| "move_young (gr # grs) news s =
     Option.bind (insert_old (node_root (caml_global_roots_young s) gr) (news 0) s)
       (\<lambda>s. move_young grs (\<lambda>k. news (Suc k)) s)"

definition caml_scan_global_young_roots ::
    "scanning_action \<Rightarrow> (nat \<Rightarrow> addr) \<Rightarrow> global_roots \<Rightarrow> global_roots option" where
  "caml_scan_global_young_roots f news s =
     Option.bind (iterate_roots f (caml_global_roots s) s) (\<lambda>s.
     Option.bind (iterate_roots f (caml_global_roots_young s) s) (\<lambda>s.
     Option.bind (root_nodes (caml_global_roots_young s) (forward (caml_global_roots_young s) HEAD 0)) (\<lambda>grs.
     Option.bind (move_young grs news s) (\<lambda>s.
     Some (s\<lparr>caml_global_roots_young := caml_empty_global_roots (caml_global_roots_young s)\<rparr>)))))"

end
