(* ===== verification/Root_Set.thy ===== *)
theory Root_Set
  imports Prelude
begin

text \<open>
  The interface of a set of roots kept in nodes whose addresses the caller provides:
  \<open>wf l N R\<close> says that \<open>l\<close> uses the nodes \<open>N\<close> and stands for the set \<open>R\<close>.
\<close>

datatype root_op = Insert addr addr | Delete addr

fun root_op_set :: "root_op \<Rightarrow> addr set \<Rightarrow> addr set" where
  "root_op_set (Insert r new) R = insert r R"
| "root_op_set (Delete r) R = R - {r}"

fun root_op_nodes :: "root_op \<Rightarrow> addr list" where
  "root_op_nodes (Insert r new) = [new]"
| "root_op_nodes (Delete r) = []"

fun run_root_ops ::
    "('l \<Rightarrow> addr \<Rightarrow> addr \<Rightarrow> u32 \<Rightarrow> ('l \<times> u32) option) \<Rightarrow> ('l \<Rightarrow> addr \<Rightarrow> 'l option) \<Rightarrow>
     root_op list \<Rightarrow> 'l \<Rightarrow> u32 \<Rightarrow> ('l \<times> u32) option" where
  "run_root_ops ins del [] l seed = Some (l, seed)"
| "run_root_ops ins del (Insert r new # ops) l seed =
     Option.bind (ins l r new seed) (\<lambda>(l, seed). run_root_ops ins del ops l seed)"
| "run_root_ops ins del (Delete r # ops) l seed =
     Option.bind (del l r) (\<lambda>l. run_root_ops ins del ops l seed)"

locale root_set =
  fixes wf :: "'l \<Rightarrow> addr set \<Rightarrow> addr set \<Rightarrow> bool"
    and valid_node :: "addr \<Rightarrow> bool"
    and ins :: "'l \<Rightarrow> addr \<Rightarrow> addr \<Rightarrow> u32 \<Rightarrow> ('l \<times> u32) option"
    and del :: "'l \<Rightarrow> addr \<Rightarrow> 'l option"
  assumes insert_law: "wf l N R \<Longrightarrow> new \<notin> N \<Longrightarrow> valid_node new \<Longrightarrow>
      \<exists>l' seed' N'. ins l r new seed = Some (l', seed') \<and> wf l' N' (insert r R) \<and> N' \<subseteq> insert new N"
    and delete_law: "wf l N R \<Longrightarrow> \<exists>l' N'. del l r = Some l' \<and> wf l' N' (R - {r}) \<and> N' \<subseteq> N"
begin

lemma run_ops:
  assumes "wf l N R" "N \<inter> set (concat (map root_op_nodes ops)) = {}"
    "distinct (concat (map root_op_nodes ops))" "list_all valid_node (concat (map root_op_nodes ops))"
  shows "\<exists>l' seed' N'. run_root_ops ins del ops l seed = Some (l', seed') \<and> wf l' N' (fold root_op_set ops R)"
  using assms
proof (induction ops arbitrary: l N R seed)
  case (Cons op ops)
  show ?case
  proof (cases op)
    case (Insert r new)
    with Cons.prems have "new \<notin> N" "valid_node new" by auto
    from insert_law [OF Cons.prems(1) this, of r seed] obtain l' seed' N' where
      l': "ins l r new seed = Some (l', seed')" "wf l' N' (insert r R)" "N' \<subseteq> insert new N" by blast
    have "N' \<inter> set (concat (map root_op_nodes ops)) = {}" using l'(3) Cons.prems(2,3) Insert by auto
    with Cons.IH [OF l'(2) this] Cons.prems Insert l'(1) show ?thesis by simp
  next
    case (Delete r)
    from delete_law [OF Cons.prems(1), of r] obtain l' N' where
      l': "del l r = Some l'" "wf l' N' (R - {r})" "N' \<subseteq> N" by blast
    have "N' \<inter> set (concat (map root_op_nodes ops)) = {}" using l'(3) Cons.prems(2) Delete by auto
    with Cons.IH [OF l'(2) this] Cons.prems Delete l'(1) show ?thesis by simp
  qed
qed auto

end

end
