(* ===== verification/Globroots_Proofs.thy ===== *)
theory Globroots_Proofs
  imports Globroots Root_Set
begin

text \<open>
  The skip lists implement sets of roots, in increasing order; on top of the set operations,
  the generational registration keeps the roots the minor collection must scan.
\<close>

section \<open>Levels\<close>

lemma count_levels_bound:
  "count_levels fuel r lev = Some l \<Longrightarrow> l < lev + fuel"
  by (induction fuel r lev rule: count_levels.induct) (auto split: if_splits)

text \<open>After \<open>k\<close> shifts the low \<open>2 k\<close> bits are clear, so the loop stops after 16 of them.\<close>

lemma count_levels_ends:
  "16 < fuel + k \<Longrightarrow> k \<le> 16 \<Longrightarrow> take_bit (2 * k) r = 0 \<Longrightarrow> \<exists>l. count_levels fuel r lev = Some l \<and> l + k \<le> lev + 16"
proof (induction fuel r lev arbitrary: k rule: count_levels.induct)
  case (2 fuel r lev)
  show ?case
  proof (cases "r AND 0xC0000000 = 0xC0000000")
    case True
    have "k \<noteq> 16"
    proof
      assume "k = 16"
      with 2(4) have "r = 0" by (simp add: take_bit_word_eq_self)
      with True show False by simp
    qed
    with 2(3) have k: "Suc k \<le> 16" by simp
    have "take_bit (2 * Suc k) (push_bit 2 r) = 0"
      using 2(4) by (simp add: take_bit_push_bit)
    with 2(1) [OF True, of "Suc k"] 2(2) k True show ?thesis by auto
  next
    case False
    with 2(3) show ?thesis by auto
  qed
qed simp

text \<open>
  The level of a new node is always below the number of levels, whatever the state of
  the generator: the loop ends by itself and the assertion holds.
\<close>

theorem random_level_bound: "\<exists>l seed'. random_level seed = (Some l, seed') \<and> l < NUM_LEVELS"
  using count_levels_ends [of NUM_LEVELS 0 "seed * 69069 + 25173" 0]
  by (auto simp: random_level_def NUM_LEVELS_def Let_def)

section \<open>The invariant\<close>

text \<open>Whether \<open>e\<close> is on level \<open>i\<close>, and the first of some nodes that is.\<close>

definition tall :: "(addr \<Rightarrow> nat) \<Rightarrow> nat \<Rightarrow> addr \<Rightarrow> bool" where
  "tall hgt i e \<longleftrightarrow> e = HEAD \<or> i < hgt e"

text \<open>
  \<open>skip_list rl hgt ns\<close>: \<open>ns\<close> are the nodes in increasing order of their roots, \<open>hgt\<close> the number
  of their levels; on each level a node points to the next node of that level.
\<close>

definition skip_list :: "global_root_list \<Rightarrow> (addr \<Rightarrow> nat) \<Rightarrow> addr list \<Rightarrow> bool" where
  "skip_list rl hgt ns \<longleftrightarrow>
     HEAD \<notin> set ns \<and> distinct ns \<and> sorted_wrt (\<lambda>a b. node_root rl a < node_root rl b) ns
     \<and> level rl < NUM_LEVELS \<and> (\<forall>n\<in>set ns. 0 < hgt n \<and> hgt n \<le> Suc (level rl))
     \<and> (\<forall>i as e bs. HEAD # ns = as @ e # bs \<longrightarrow> tall hgt i e \<longrightarrow> forward rl e i = find (tall hgt i) bs)"

lemma skip_list_forward:
  "skip_list rl hgt ns \<Longrightarrow> HEAD # ns = as @ e # bs \<Longrightarrow> tall hgt i e \<Longrightarrow> forward rl e i = find (tall hgt i) bs"
  unfolding skip_list_def by blast

lemma skip_list_empty: "skip_list empty_root_list hgt []"
  by (auto simp: skip_list_def empty_root_list_def NUM_LEVELS_def Cons_eq_append_conv)

lemma find_append: "find P (xs @ ys) = (case find P xs of None \<Rightarrow> find P ys | Some x \<Rightarrow> Some x)"
  by (induction xs) auto

lemma find_None: "find P xs = None \<longleftrightarrow> filter P xs = []"
  by (induction xs) auto

lemma find_Some_split:
  assumes "find P xs = Some x"
  obtains ys zs where "xs = ys @ x # zs" "filter P ys = []" "P x"
  using assms
proof (induction xs arbitrary: thesis)
  case (Cons y xs)
  show ?case
  proof (cases "P y")
    case True
    with Cons.prems show ?thesis by (intro Cons.prems(1) [of "[]" xs]) auto
  next
    case False
    with Cons.prems(2) have "find P xs = Some x" by simp
    then obtain ys zs where "xs = ys @ x # zs" "filter P ys = []" "P x" using Cons.IH by blast
    with False show ?thesis by (intro Cons.prems(1) [of "y # ys" zs]) auto
  qed
qed simp

section \<open>Search\<close>

text \<open>The nodes before \<open>r\<close> and the others.\<close>

definition before :: "global_root_list \<Rightarrow> addr \<Rightarrow> addr list \<Rightarrow> addr list" where
  "before rl r ns = takeWhile (\<lambda>n. node_root rl n < r) ns"
definition onward :: "global_root_list \<Rightarrow> addr \<Rightarrow> addr list \<Rightarrow> addr list" where
  "onward rl r ns = dropWhile (\<lambda>n. node_root rl n < r) ns"

lemma before_onward: "ns = before rl r ns @ onward rl r ns"
  by (simp add: before_def onward_def)

lemma HEAD_split: "HEAD # ns = (HEAD # before rl r ns) @ onward rl r ns"
  by (simp add: before_def onward_def)

lemma before_less: "n \<in> set (before rl r ns) \<Longrightarrow> node_root rl n < r"
  by (auto simp: before_def dest: set_takeWhileD)

lemma onward_ge:
  assumes "skip_list rl hgt ns" "n \<in> set (onward rl r ns)"
  shows "r \<le> node_root rl n"
proof -
  have s: "sorted_wrt (\<lambda>a b. node_root rl a < node_root rl b) (onward rl r ns)"
    using assms(1) unfolding skip_list_def onward_def by (metis sorted_wrt_append takeWhile_dropWhile_id)
  show ?thesis
  proof (cases "onward rl r ns")
    case (Cons x xs)
    then have "\<not> node_root rl x < r" unfolding onward_def by (simp add: dropWhile_eq_Cons_conv)
    with s assms(2) Cons show ?thesis by fastforce
  qed (use assms(2) in simp)
qed

text \<open>The last node before \<open>r\<close> on a level.\<close>

definition pred_at :: "global_root_list \<Rightarrow> (addr \<Rightarrow> nat) \<Rightarrow> addr list \<Rightarrow> addr \<Rightarrow> nat \<Rightarrow> addr" where
  "pred_at rl hgt ns r i = last (filter (tall hgt i) (HEAD # before rl r ns))"

lemma tall_HEAD [simp]: "tall hgt i HEAD"
  by (simp add: tall_def)

lemma pred_at_in:
  "pred_at rl hgt ns r i \<in> set (HEAD # before rl r ns)" "tall hgt i (pred_at rl hgt ns r i)"
proof -
  have "filter (tall hgt i) (HEAD # before rl r ns) \<noteq> []" by simp
  then have "pred_at rl hgt ns r i \<in> set (filter (tall hgt i) (HEAD # before rl r ns))"
    unfolding pred_at_def by (rule last_in_set)
  then show "pred_at rl hgt ns r i \<in> set (HEAD # before rl r ns)" "tall hgt i (pred_at rl hgt ns r i)"
    by auto
qed

lemma root_walk_pred:
  assumes "skip_list rl hgt ns" "HEAD # before rl r ns = as @ e # cs" "tall hgt i e"
  shows "root_walk rl r i e = Some (pred_at rl hgt ns r i)"
  using assms(2,3)
proof (induction "length cs" arbitrary: as e cs rule: less_induct)
  case less
  have "HEAD # ns = as @ e # (cs @ onward rl r ns)"
    using HEAD_split [of ns rl r] unfolding less.prems(1) by simp
  then have f: "forward rl e i = find (tall hgt i) (cs @ onward rl r ns)"
    using skip_list_forward [OF assms(1) _ less.prems(2)] by blast
  show ?case
  proof (cases "find (tall hgt i) cs")
    case None
    then have "filter (tall hgt i) (HEAD # before rl r ns) = filter (tall hgt i) as @ [e]"
      using less.prems by (simp only: less.prems(1)) (simp add: find_None)
    then have p: "pred_at rl hgt ns r i = e" by (simp only: pred_at_def last_snoc)
    show ?thesis
    proof (cases "find (tall hgt i) (onward rl r ns)")
      case (Some x)
      then have "r \<le> node_root rl x" using onward_ge [OF assms(1)] by (auto elim: find_Some_split)
      with Some None f p show ?thesis by (subst root_walk.simps) (simp add: find_append)
    qed (use None f p in \<open>subst root_walk.simps; simp add: find_append\<close>)
  next
    case (Some x)
    then obtain ys zs where yz: "cs = ys @ x # zs" "tall hgt i x" by (rule find_Some_split)
    have "x \<in> set (before rl r ns)"
    proof -
      have "set (tl (as @ e # cs)) \<subseteq> set (before rl r ns)" using less.prems(1) by (metis list.sel(3) subset_refl)
      then show ?thesis using yz(1) by (cases as) auto
    qed
    then have "\<not> r \<le> node_root rl x" using before_less by (meson not_le)
    with Some f have w: "root_walk rl r i e = root_walk rl r i x"
      by (subst root_walk.simps) (simp add: find_append)
    have "HEAD # before rl r ns = (as @ e # ys) @ x # zs" using less.prems(1) yz(1) by simp
    from less.hyps [OF _ this yz(2)] show ?thesis unfolding w using yz(1) by simp
  qed
qed

lemma tall_Suc: "tall hgt (Suc i) e \<Longrightarrow> tall hgt i e"
  by (auto simp: tall_def)

lemma root_find_pred:
  assumes "skip_list rl hgt ns" "e \<in> set (HEAD # before rl r ns)" "tall hgt i e"
  shows "root_find rl r i e upd =
    Some (pred_at rl hgt ns r 0, \<lambda>j. if j \<le> i then pred_at rl hgt ns r j else upd j)"
  using assms(2,3)
proof (induction i arbitrary: e upd)
  case 0
  from 0(1) obtain as cs where "HEAD # before rl r ns = as @ e # cs" by (meson split_list)
  from root_walk_pred [OF assms(1) this 0(2)] show ?case by (auto simp: fun_eq_iff)
next
  case (Suc i)
  from Suc(2) obtain as cs where "HEAD # before rl r ns = as @ e # cs" by (meson split_list)
  from root_walk_pred [OF assms(1) this Suc(3)]
  have w: "root_walk rl r (Suc i) e = Some (pred_at rl hgt ns r (Suc i))" .
  show ?case
    using Suc.IH [OF pred_at_in(1) tall_Suc [OF pred_at_in(2)]] w
    by (auto simp: fun_eq_iff le_Suc_eq)
qed

section \<open>Insertion\<close>

lemma forward_set_forward [simp]:
  "forward (set_forward e i f rl) = (forward rl)(e := (forward rl e)(i := f))"
  "node_root (set_forward e i f rl) = node_root rl" "level (set_forward e i f rl) = level rl"
  by (simp_all add: set_forward_def)

lemma fold_link_node:
  assumes "\<And>i. update i \<noteq> e"
  shows "forward (fold (link_node e update) [0..<n] rl) d i =
      (if i < n then (if d = e then forward rl (update i) i else if d = update i then Some e else forward rl d i)
       else forward rl d i)
    \<and> node_root (fold (link_node e update) [0..<n] rl) = node_root rl
    \<and> level (fold (link_node e update) [0..<n] rl) = level rl"
proof (induction n arbitrary: d i)
  case (Suc n)
  have "forward (fold (link_node e update) [0..<n] rl) (update n) n = forward rl (update n) n"
    using Suc [of "update n" n] by simp
  moreover have "forward (link_node e update n rl') d i =
      (if i = n then (if d = e then forward rl' (update n) n else if d = update n then Some e else forward rl' d n)
       else forward rl' d i)" for rl'
    using assms [of n] by (simp add: link_node_def Let_def)
  moreover have "node_root (link_node e update n rl') = node_root rl'" "level (link_node e update n rl') = level rl'" for rl'
    by (simp_all add: link_node_def Let_def)
  ultimately show ?case
    using Suc [of d i] Suc [of d n] assms [of n] assms [of i]
    by (cases "i = n") (auto simp: less_Suc_eq)
qed simp

lemma skip_listI:
  assumes "HEAD \<notin> set ns" "distinct ns" "sorted_wrt (\<lambda>a b. node_root rl a < node_root rl b) ns"
    and "level rl < NUM_LEVELS" "\<And>n. n \<in> set ns \<Longrightarrow> 0 < hgt n \<and> hgt n \<le> Suc (level rl)"
    and "\<And>i as e bs. HEAD # ns = as @ e # bs \<Longrightarrow> tall hgt i e \<Longrightarrow> forward rl e i = find (tall hgt i) bs"
  shows "skip_list rl hgt ns"
  using assms unfolding skip_list_def by blast

text \<open>The predecessor at a level is the only node before \<open>r\<close> with no node of the level after it.\<close>

lemma pred_at_unique:
  assumes "skip_list rl hgt ns" "HEAD # before rl r ns = as @ e # cs" "tall hgt i e"
  shows "e = pred_at rl hgt ns r i \<longleftrightarrow> find (tall hgt i) cs = None"
proof
  assume "find (tall hgt i) cs = None"
  with assms show "e = pred_at rl hgt ns r i"
    by (simp only: pred_at_def assms(2)) (simp add: find_None)
next
  assume e: "e = pred_at rl hgt ns r i"
  show "find (tall hgt i) cs = None"
  proof (rule ccontr)
    assume "find (tall hgt i) cs \<noteq> None"
    then have "filter (tall hgt i) cs \<noteq> []" by (simp add: find_None)
    then have "pred_at rl hgt ns r i \<in> set cs"
      using assms(3) last_in_set [of "filter (tall hgt i) cs"] by (simp only: pred_at_def assms(2)) simp
    moreover have "distinct (as @ e # cs)"
    proof -
      have "distinct (HEAD # ns)" using assms(1) by (simp add: skip_list_def)
      then show ?thesis unfolding HEAD_split [of ns rl r] assms(2) by auto
    qed
    ultimately show False using e by simp
  qed
qed

lemma find_tall_upd:
  "a \<notin> set xs \<Longrightarrow> find (tall (hgt(a := k)) i) xs = find (tall hgt i) xs"
  by (induction xs) (auto simp: tall_def)

text \<open>The list with a new node: the pointers of every level.\<close>

lemma skip_list_insert:
  assumes inv: "skip_list rl hgt ns" and new: "new \<notin> set ns" "new \<noteq> HEAD"
    and absent: "r \<notin> node_root rl ` set ns" and l: "l < NUM_LEVELS"
    and root: "node_root rl' = (node_root rl)(new := r)" and lev: "level rl' = max (level rl) l"
    and fwd: "\<And>d i. forward rl' d i =
      (if i \<le> l then (if d = new then forward rl (pred_at rl hgt ns r i) i
                     else if d = pred_at rl hgt ns r i then Some new else forward rl d i)
       else forward rl d i)"
  shows "skip_list rl' (hgt(new := Suc l)) (before rl r ns @ new # onward rl r ns)"
proof (rule skip_listI)
  let ?lo = "before rl r ns" and ?hi = "onward rl r ns" and ?h = "hgt(new := Suc l)"
  note bf = before_onward [of ns rl r]
  have ns: "HEAD \<notin> set ns" "distinct ns" "sorted_wrt (\<lambda>a b. node_root rl a < node_root rl b) ns"
    "level rl < NUM_LEVELS" "\<And>n. n \<in> set ns \<Longrightarrow> 0 < hgt n \<and> hgt n \<le> Suc (level rl)"
    using inv by (simp_all add: skip_list_def)
  have sets: "set ns = set ?lo \<union> set ?hi" using bf by (metis set_append)
  have nin: "new \<notin> set ?lo" "new \<notin> set ?hi" using new sets by auto
  have hd: "HEAD \<notin> set ?lo" "HEAD \<notin> set ?hi" using ns(1) sets by auto
  have dis: "distinct (?lo @ ?hi)" using ns(2) bf by metis
  have srt: "sorted_wrt (\<lambda>a b. node_root rl a < node_root rl b) (?lo @ ?hi)" using ns(3) bf by metis
  have gt: "r < node_root rl n" if "n \<in> set ?hi" for n
    using onward_ge [OF inv that] that absent sets by force
  show "HEAD \<notin> set (?lo @ new # ?hi)" using hd new by simp
  show "distinct (?lo @ new # ?hi)" using dis nin by simp
  have same: "node_root rl' n = node_root rl n" if "n \<in> set ?lo \<or> n \<in> set ?hi" for n
    using that nin unfolding root by auto
  have mono: "sorted_wrt (\<lambda>a b. node_root rl' a < node_root rl' b) xs"
    if "sorted_wrt (\<lambda>a b. node_root rl a < node_root rl b) xs" "\<And>n. n \<in> set xs \<Longrightarrow> n \<in> set ?lo \<or> n \<in> set ?hi" for xs
    using that(1) by (rule sorted_wrt_mono_rel [rotated]) (use that(2) same in simp)
  show "sorted_wrt (\<lambda>a b. node_root rl' a < node_root rl' b) (?lo @ new # ?hi)"
    using srt before_less [of _ rl r ns] gt mono [of ?lo] mono [of ?hi] same
    by (simp add: sorted_wrt_append root)
  show "level rl' < NUM_LEVELS" using ns(4) l lev by simp
  show "0 < ?h n \<and> ?h n \<le> Suc (level rl')" if "n \<in> set (?lo @ new # ?hi)" for n
  proof (cases "n = new")
    case False
    with that sets ns(5) [of n] lev show ?thesis by auto
  qed (simp add: lev)
  show "forward rl' e i = find (tall ?h i) bs"
    if split: "HEAD # ?lo @ new # ?hi = as @ e # bs" and t: "tall ?h i e" for i as e bs
  proof -
    note full = HEAD_split [of ns rl r]
    have fp: "forward rl (pred_at rl hgt ns r i) i = find (tall hgt i) ?hi"
    proof -
      obtain xs ys where s: "HEAD # ?lo = xs @ pred_at rl hgt ns r i # ys"
        using pred_at_in(1) by (meson split_list)
      then have "find (tall hgt i) ys = None" using pred_at_unique [OF inv s pred_at_in(2)] by simp
      moreover have "HEAD # ns = xs @ pred_at rl hgt ns r i # (ys @ ?hi)" using s full by simp
      ultimately show ?thesis
        using skip_list_forward [OF inv _ pred_at_in(2)] by (simp add: find_append)
    qed
    have "(HEAD # ?lo) @ (new # ?hi) = as @ (e # bs)" using split by simp
    then consider (lo) cs where "HEAD # ?lo = as @ e # cs" "bs = cs @ new # ?hi"
      | (new) "e = new" "bs = ?hi" | (hi) cs where "?hi = cs @ e # bs"
      by (auto simp: append_eq_append_conv2 append_eq_Cons_conv Cons_eq_append_conv)
    then show ?thesis
    proof cases
      case lo
      have e: "e \<noteq> new" using lo(1) nin(1) new(2) by (metis in_set_conv_decomp set_ConsD)
      then have te: "tall hgt i e" using t by (simp add: tall_def)
      have cs: "new \<notin> set cs" using lo(1) nin(1) new(2) by (metis Un_iff set_ConsD set_append list.set_intros(2))
      have "HEAD # ns = as @ e # (cs @ ?hi)" using lo(1) full by simp
      then have f: "forward rl e i = find (tall hgt i) (cs @ ?hi)" by (rule skip_list_forward [OF inv _ te])
      have "find (tall ?h i) bs = (case find (tall hgt i) cs of
          None \<Rightarrow> if i \<le> l then Some new else find (tall hgt i) ?hi | Some x \<Rightarrow> Some x)"
        unfolding lo(2) using cs nin(2) new(2) by (auto simp: find_append find_tall_upd tall_def split: option.splits)
      with pred_at_unique [OF inv lo(1) te] f e show ?thesis
        unfolding fwd using new(2) by (auto simp: find_append split: option.splits)
    next
      case new
      with t assms(3) have "i \<le> l" by (simp add: tall_def)
      with new fp nin(2) show ?thesis unfolding fwd by (simp add: find_tall_upd)
    next
      case hi
      have e: "e \<noteq> new" "e \<in> set ?hi" "new \<notin> set bs" using hi nin(2) by auto
      have p: "e \<noteq> pred_at rl hgt ns r i"
        using pred_at_in(1) [of rl hgt ns r i] e(2) dis hd by auto
      have "tall hgt i e" using t e(1) by (simp add: tall_def)
      moreover have "HEAD # ns = ((HEAD # ?lo) @ cs) @ e # bs" using full hi by simp
      ultimately have "forward rl e i = find (tall hgt i) bs" by (intro skip_list_forward [OF inv])
      with e p show ?thesis unfolding fwd by (simp add: find_tall_upd)
    qed
  qed
qed

text \<open>The set a list stands for.\<close>

definition roots_of :: "global_root_list \<Rightarrow> addr list \<Rightarrow> addr set" where
  "roots_of rl ns = node_root rl ` set ns"

lemma forward_pred_0:
  assumes "skip_list rl hgt ns"
  shows "forward rl (pred_at rl hgt ns r 0) 0 =
    (case onward rl r ns of [] \<Rightarrow> None | n # _ \<Rightarrow> Some n)"
proof -
  have all: "find (tall hgt 0) xs = (case xs of [] \<Rightarrow> None | n # _ \<Rightarrow> Some n)" if "set xs \<subseteq> set ns" for xs
    using assms that by (cases xs) (auto simp: skip_list_def tall_def)
  obtain xs ys where s: "HEAD # before rl r ns = xs @ pred_at rl hgt ns r 0 # ys"
    using pred_at_in(1) by (meson split_list)
  then have ys: "find (tall hgt 0) ys = None" using pred_at_unique [OF assms s pred_at_in(2)] by simp
  have "HEAD # ns = xs @ pred_at rl hgt ns r 0 # (ys @ onward rl r ns)"
    unfolding HEAD_split [of ns rl r] s by simp
  then have "forward rl (pred_at rl hgt ns r 0) 0 = find (tall hgt 0) (onward rl r ns)"
    using skip_list_forward [OF assms _ pred_at_in(2)] ys by (simp add: find_append)
  moreover have "set (onward rl r ns) \<subseteq> set ns" by (metis HEAD_split before_onward set_append Un_upper2)
  ultimately show ?thesis using all by simp
qed

lemma root_present_iff:
  assumes "skip_list rl hgt ns"
  shows "root_present rl (pred_at rl hgt ns r 0) r \<longleftrightarrow> r \<in> roots_of rl ns"
proof (cases "onward rl r ns")
  case Nil
  then have "ns = before rl r ns" using before_onward [of ns rl r] by simp
  then have "r \<notin> roots_of rl ns" unfolding roots_of_def using before_less by (metis imageE less_irrefl)
  then show ?thesis using Nil forward_pred_0 [OF assms] by (simp add: root_present_def)
next
  case (Cons n xs)
  have ns: "ns = before rl r ns @ n # xs" using before_onward [of ns rl r] Cons by simp
  have "sorted_wrt (\<lambda>a b. node_root rl a < node_root rl b) ns" using assms by (simp add: skip_list_def)
  then have "sorted_wrt (\<lambda>a b. node_root rl a < node_root rl b) (before rl r ns @ n # xs)" using ns by metis
  then have "r < node_root rl m" if "m \<in> set xs" for m
    using that onward_ge [OF assms, of n r] Cons by (force simp: sorted_wrt_append)
  then have "r \<in> roots_of rl ns \<longleftrightarrow> node_root rl n = r"
    using before_less [of _ rl r ns] by (subst ns) (auto simp: roots_of_def)
  then show ?thesis using Cons forward_pred_0 [OF assms] by (simp add: root_present_def)
qed

lemma insert_global_root:
  assumes inv: "skip_list rl hgt ns" and new: "new \<notin> set ns" "new \<noteq> HEAD"
  obtains rl' hgt' ns' seed' where "caml_insert_global_root rl r new seed = Some (rl', seed')"
    "skip_list rl' hgt' ns'" "roots_of rl' ns' = insert r (roots_of rl ns)" "set ns' \<subseteq> insert new (set ns)"
proof -
  let ?p = "\<lambda>i. pred_at rl hgt ns r i"
  have f: "root_find rl r (level rl) HEAD (\<lambda>_. 0) = Some (?p 0, \<lambda>j. if j \<le> level rl then ?p j else 0)"
    by (rule root_find_pred [OF inv]) simp_all
  show ?thesis
  proof (cases "r \<in> roots_of rl ns")
    case True
    then have "caml_insert_global_root rl r new seed = Some (rl, seed)"
      using root_present_iff [OF inv] f by (simp add: caml_insert_global_root_def)
    from that [OF this inv] True show ?thesis by auto
  next
    case False
    obtain l seed' where l: "random_level seed = (Some l, seed')" "l < NUM_LEVELS"
      using random_level_bound by blast
    let ?upd = "\<lambda>i. if level rl < i \<and> i \<le> l then HEAD else if i \<le> level rl then ?p i else 0"
    let ?rl = "rl\<lparr>level := max (level rl) l, node_root := (node_root rl)(new := r)\<rparr>"
    let ?rl' = "fold (link_node new ?upd) [0..<Suc l] ?rl"
    have top: "?p i = HEAD" if "level rl < i" for i
    proof -
      have "tall hgt i n \<longleftrightarrow> n = HEAD" if "n \<in> set ns" for n
        using inv that \<open>level rl < i\<close> by (auto simp: skip_list_def tall_def)
      then have "filter (tall hgt i) (before rl r ns) = []"
        using inv before_onward [of ns rl r] by (auto simp: filter_empty_conv skip_list_def dest: set_takeWhileD simp: before_def)
      then show ?thesis by (simp add: pred_at_def)
    qed
    then have upd: "?upd i = ?p i" if "i \<le> l" for i using that by simp
    have pn: "?p i \<noteq> new" for i
      using pred_at_in(1) [of rl hgt ns r i] new before_onward [of ns rl r] by (metis Un_iff set_ConsD set_append)
    have "HEAD \<noteq> new" "(0 :: addr) \<noteq> new" using new(2) by (simp_all add: HEAD_def)
    then have "?upd i \<noteq> new" for i using pn [of i] by simp
    note lk = fold_link_node [of ?upd new, OF this]
    have ins: "caml_insert_global_root rl r new seed = Some (?rl', seed')"
      using f False root_present_iff [OF inv] l(1) by (simp add: caml_insert_global_root_def Let_def del: upt_Suc)
    have "skip_list ?rl' (hgt(new := Suc l)) (before rl r ns @ new # onward rl r ns)"
    proof (rule skip_list_insert [OF inv new _ l(2)])
      show "r \<notin> node_root rl ` set ns" using False by (simp add: roots_of_def)
      show "node_root ?rl' = (node_root rl)(new := r)" "level ?rl' = max (level rl) l"
        using lk by (simp_all del: upt_Suc)
      show "forward ?rl' d i =
          (if i \<le> l then (if d = new then forward rl (?p i) i else if d = ?p i then Some new else forward rl d i)
           else forward rl d i)" for d i
      proof (cases "i \<le> l")
        case True
        with upd [OF this] lk [of "Suc l" ?rl d i] show ?thesis by (simp del: upt_Suc)
      next
        case False
        with lk [of "Suc l" ?rl d i] show ?thesis by (simp del: upt_Suc)
      qed
    qed
    moreover have "roots_of ?rl' (before rl r ns @ new # onward rl r ns) = insert r (roots_of rl ns)"
    proof -
      have "node_root ?rl' = (node_root rl)(new := r)" using lk by (simp del: upt_Suc)
      moreover have "set ns = set (before rl r ns) \<union> set (onward rl r ns)"
        by (metis before_onward set_append)
      ultimately show ?thesis using new(1) by (auto simp: roots_of_def)
    qed
    moreover have "set (before rl r ns @ new # onward rl r ns) \<subseteq> insert new (set ns)"
      by (auto simp: before_def onward_def dest: set_takeWhileD set_dropWhileD)
    ultimately show ?thesis using that [OF ins] by blast
  qed
qed

section \<open>Deletion\<close>

lemma fold_unlink_node:
  assumes "\<And>i. i < n \<Longrightarrow> update i \<noteq> e"
  shows "forward (fold (unlink_node e update) [0..<n] rl) d i =
      (if i < n \<and> d = update i \<and> forward rl d i = Some e then forward rl e i else forward rl d i)
    \<and> node_root (fold (unlink_node e update) [0..<n] rl) = node_root rl
    \<and> level (fold (unlink_node e update) [0..<n] rl) = level rl"
  using assms
proof (induction n arbitrary: d i)
  case (Suc n)
  have "forward (unlink_node e update n rl') d i =
      (if i = n \<and> d = update n \<and> forward rl' d n = Some e then forward rl' e n else forward rl' d i)" for rl'
    by (simp add: unlink_node_def)
  moreover have "node_root (unlink_node e update n rl') = node_root rl'" "level (unlink_node e update n rl') = level rl'" for rl'
    by (simp_all add: unlink_node_def)
  ultimately show ?case
    using Suc.IH [of d i] Suc.IH [of d n] Suc.IH [of e n] Suc.prems
    by (cases "i = n") (auto simp: less_Suc_eq)
qed simp

lemma correct_level:
  "correct_level f l \<le> l" "correct_level f l < j \<Longrightarrow> j \<le> l \<Longrightarrow> f j = None"
  by (induction l) (auto simp: le_Suc_eq split: if_splits)

lemma skip_list_delete:
  assumes inv: "skip_list rl hgt ns" and on: "onward rl r ns = x # hi"
    and root: "node_root rl' = node_root rl" and lev: "level rl' = correct_level (forward rl' HEAD) (level rl)"
    and fwd: "\<And>d i. forward rl' d i =
      (if i \<le> level rl \<and> d = pred_at rl hgt ns r i \<and> forward rl d i = Some x then forward rl x i else forward rl d i)"
  shows "skip_list rl' hgt (before rl r ns @ hi)"
proof -
  let ?lo = "before rl r ns"
  have full: "HEAD # ns = (HEAD # ?lo) @ x # hi" using HEAD_split [of ns rl r] on by simp
  then have ns: "ns = ?lo @ x # hi" by simp
  then have sets: "set ns = set (?lo @ x # hi)" by (rule arg_cong)
  have "distinct (HEAD # ns)" using inv by (simp add: skip_list_def)
  then have dis: "distinct ((HEAD # ?lo) @ x # hi)" unfolding full .
  have hx: "hgt n \<le> Suc (level rl)" "0 < hgt n" if "n \<in> set ns" for n
    using inv that by (simp_all add: skip_list_def)
  have srt: "sorted_wrt (\<lambda>a b. node_root rl a < node_root rl b) (?lo @ x # hi)"
    using inv ns unfolding skip_list_def by metis
  have links: "forward rl' e i = find (tall hgt i) bs"
    if split: "HEAD # ?lo @ hi = as @ e # bs" and t: "tall hgt i e" for i as e bs
  proof -
    have "(HEAD # ?lo) @ hi = as @ (e # bs)" using split by simp
    then consider (lo) cs where "HEAD # ?lo = as @ e # cs" "bs = cs @ hi" | (hi) cs where "hi = cs @ e # bs"
      by (auto simp: append_eq_append_conv2 append_eq_Cons_conv Cons_eq_append_conv)
    then show ?thesis
    proof cases
      case lo
      have "HEAD # ns = as @ e # (cs @ x # hi)" unfolding full lo(1) by simp
      then have f: "forward rl e i = find (tall hgt i) (cs @ x # hi)" by (rule skip_list_forward [OF inv _ t])
      show ?thesis
      proof (cases "find (tall hgt i) cs")
        case None
        then have p: "e = pred_at rl hgt ns r i" using pred_at_unique [OF inv lo(1) t] by simp
        show ?thesis
        proof (cases "tall hgt i x")
          case True
          have "x \<noteq> HEAD" using dis by auto
          moreover have "x \<in> set ns" unfolding sets by simp
          ultimately have "i \<le> level rl" using True hx(1) [of x] by (simp add: tall_def)
          moreover have "HEAD # ns = (HEAD # ?lo) @ x # hi" by (rule full)
          then have "forward rl x i = find (tall hgt i) hi" by (rule skip_list_forward [OF inv _ True])
          ultimately show ?thesis using p f None True lo(2) unfolding fwd by (simp add: find_append)
        next
          case False
          then have "forward rl e i = find (tall hgt i) hi" using f None by (simp add: find_append)
          moreover have "find (tall hgt i) hi \<noteq> Some x" using False by (auto elim: find_Some_split)
          ultimately show ?thesis using None lo(2) unfolding fwd by (simp add: find_append)
        qed
      next
        case (Some y)
        then have "e \<noteq> pred_at rl hgt ns r i" using pred_at_unique [OF inv lo(1) t] by simp
        with f Some lo(2) show ?thesis unfolding fwd by (simp add: find_append)
      qed
    next
      case hi
      have "e \<noteq> pred_at rl hgt ns r i" using pred_at_in(1) [of rl hgt ns r i] dis hi by auto
      moreover have "HEAD # ns = ((HEAD # ?lo) @ x # cs) @ e # bs" unfolding full hi by simp
      then have "forward rl e i = find (tall hgt i) bs" by (rule skip_list_forward [OF inv _ t])
      ultimately show ?thesis unfolding fwd by simp
    qed
  qed
  show ?thesis
  proof (rule skip_listI)
    show "HEAD \<notin> set (?lo @ hi)" "distinct (?lo @ hi)" using dis by auto
    show "sorted_wrt (\<lambda>a b. node_root rl' a < node_root rl' b) (?lo @ hi)"
      using srt unfolding root by (simp add: sorted_wrt_append)
    have "level rl < NUM_LEVELS" using inv by (simp add: skip_list_def)
    then show "level rl' < NUM_LEVELS" using correct_level(1) [of "forward rl' HEAD" "level rl"] lev by simp
    show "0 < hgt n \<and> hgt n \<le> Suc (level rl')" if n: "n \<in> set (?lo @ hi)" for n
    proof -
      have nn: "n \<in> set ns" using n unfolding sets by auto
      have "hgt n \<le> Suc (level rl')"
      proof (rule ccontr)
        assume "\<not> hgt n \<le> Suc (level rl')"
        then have "forward rl' HEAD (hgt n - 1) = None"
          using hx(1) [OF nn] unfolding lev by (intro correct_level(2) [of "forward rl' HEAD" "level rl"]) simp_all
        moreover have "forward rl' HEAD (hgt n - 1) = find (tall hgt (hgt n - 1)) (?lo @ hi)"
          by (rule links [of "[]"]) simp_all
        moreover have "tall hgt (hgt n - 1) n" using hx(2) [OF nn] by (simp add: tall_def)
        ultimately have "find (tall hgt (hgt n - 1)) (?lo @ hi) = None" "tall hgt (hgt n - 1) n" by simp_all
        then show False using n unfolding find_None filter_empty_conv by blast
      qed
      with hx(2) [OF nn] show ?thesis by simp
    qed
  qed (rule links)
qed

lemma delete_global_root:
  assumes inv: "skip_list rl hgt ns"
  obtains rl' ns' where "caml_delete_global_root rl r = Some rl'" "skip_list rl' hgt ns'"
    "roots_of rl' ns' = roots_of rl ns - {r}" "set ns' \<subseteq> set ns"
proof -
  let ?p = "\<lambda>i. pred_at rl hgt ns r i"
  have f: "root_find rl r (level rl) HEAD (\<lambda>_. 0) = Some (?p 0, \<lambda>j. if j \<le> level rl then ?p j else 0)"
    by (rule root_find_pred [OF inv]) simp_all
  show ?thesis
  proof (cases "r \<in> roots_of rl ns")
    case False
    then have "caml_delete_global_root rl r = Some rl"
      using root_present_iff [OF inv] f by (simp add: caml_delete_global_root_def)
    from that [OF this inv] False show ?thesis by auto
  next
    case True
    then have pres: "root_present rl (?p 0) r" using root_present_iff [OF inv] by simp
    then obtain x hi where on: "onward rl r ns = x # hi" and x: "node_root rl x = r"
      using forward_pred_0 [OF inv, of r] by (cases "onward rl r ns") (auto simp: root_present_def)
    then have e: "forward rl (?p 0) 0 = Some x" using forward_pred_0 [OF inv, of r] by simp
    have ns: "ns = before rl r ns @ x # hi" using before_onward [of ns rl r] on by simp
    then have sets: "set ns = set (before rl r ns @ x # hi)" by (rule arg_cong)
    have "distinct (HEAD # ns)" using inv by (simp add: skip_list_def)
    then have dis: "distinct (HEAD # before rl r ns @ x # hi)" using ns by metis
    let ?upd = "\<lambda>j. if j \<le> level rl then ?p j else 0"
    have "?p j \<noteq> x" for j
      using pred_at_in(1) [of rl hgt ns r j] dis by auto
    then have "?upd j \<noteq> x" if "j < Suc (level rl)" for j using that by simp
    note uk = fold_unlink_node [of "Suc (level rl)" ?upd x, OF this]
    let ?rl = "fold (unlink_node x ?upd) [0..<Suc (level rl)] rl"
    let ?rl' = "?rl\<lparr>level := correct_level (forward ?rl HEAD) (level ?rl)\<rparr>"
    have del: "caml_delete_global_root rl r = Some ?rl'"
      using f pres e by (simp add: caml_delete_global_root_def Let_def del: upt_Suc)
    have r': "node_root ?rl' = node_root rl" using uk by (simp del: upt_Suc)
    have "skip_list ?rl' hgt (before rl r ns @ hi)"
    proof (rule skip_list_delete [OF inv on r'])
      show "level ?rl' = correct_level (forward ?rl' HEAD) (level rl)" using uk by (simp del: upt_Suc)
      show "forward ?rl' d i =
          (if i \<le> level rl \<and> d = ?p i \<and> forward rl d i = Some x then forward rl x i else forward rl d i)" for d i
        using uk [of rl d i] by (auto simp: less_Suc_eq_le simp del: upt_Suc)
    qed
    moreover have "roots_of ?rl' (before rl r ns @ hi) = roots_of rl ns - {r}"
    proof -
      have "sorted_wrt (\<lambda>a b. node_root rl a < node_root rl b) (before rl r ns @ x # hi)"
        using inv ns unfolding skip_list_def by metis
      then have "r < node_root rl n" if "n \<in> set hi" for n
        using that x by (auto simp: sorted_wrt_append)
      then show ?thesis
        using before_less [of _ rl r ns] x unfolding roots_of_def r' sets by force
    qed
    moreover have "set (before rl r ns @ hi) \<subseteq> set ns" unfolding sets by auto
    ultimately show ?thesis using that [OF del] by blast
  qed
qed

section \<open>Iteration and emptying\<close>

lemma root_nodes_list:
  assumes "skip_list rl hgt ns" "HEAD # ns = as @ e # bs"
  shows "root_nodes rl (forward rl e 0) = Some bs"
  using assms(2)
proof (induction bs arbitrary: as e)
  case (Cons b bs)
  have all: "n \<in> set (as @ e # b # bs) \<Longrightarrow> tall hgt 0 n" for n
    unfolding Cons.prems [symmetric] using assms(1) by (auto simp: skip_list_def tall_def)
  have "forward rl e 0 = find (tall hgt 0) (b # bs)"
    by (rule skip_list_forward [OF assms(1) Cons.prems]) (simp add: all)
  then have "forward rl e 0 = Some b" using all [of b] by simp
  moreover have "HEAD # ns = (as @ [e]) @ b # bs" using Cons.prems by simp
  from Cons.IH [OF this] have "root_nodes rl (forward rl b 0) = Some bs" .
  ultimately show ?case by (subst root_nodes.simps) simp
next
  case Nil
  have "n \<in> set (as @ [e]) \<Longrightarrow> tall hgt 0 n" for n
    unfolding Nil [symmetric] using assms(1) by (auto simp: skip_list_def tall_def)
  then have "forward rl e 0 = find (tall hgt 0) []"
    by (intro skip_list_forward [OF assms(1) Nil]) simp
  then show ?case by (subst root_nodes.simps) simp
qed

lemma iterate_nodes: "skip_list rl hgt ns \<Longrightarrow> root_nodes rl (forward rl HEAD 0) = Some ns"
  by (rule root_nodes_list [of _ _ _ "[]"]) simp_all

lemma sorted_roots:
  assumes "skip_list rl hgt ns"
  shows "map (node_root rl) ns = sorted_list_of_set (roots_of rl ns)"
proof -
  have "sorted_wrt (<) (map (node_root rl) ns)"
    using assms by (simp add: skip_list_def sorted_wrt_map)
  then show ?thesis
    unfolding roots_of_def strict_sorted_iff
    by (metis list.set_map sorted_list_of_set.idem_if_sorted_distinct)
qed

lemma fold_clear_head:
  "forward (fold (\<lambda>i. set_forward HEAD i None) [0..<n] rl) d i =
     (if d = HEAD \<and> i < n then None else forward rl d i)
   \<and> level (fold (\<lambda>i. set_forward HEAD i None) [0..<n] rl) = level rl"
  by (induction n arbitrary: d i) (auto simp: less_Suc_eq)

lemma empty_global_roots:
  assumes "skip_list rl hgt ns"
  shows "skip_list (caml_empty_global_roots rl) hgt []"
proof -
  have "forward rl HEAD i = None" if "level rl < i" for i
  proof -
    have "\<not> tall hgt i n" if "n \<in> set ns" for n
      using assms that \<open>level rl < i\<close> by (auto simp: skip_list_def tall_def)
    then have "find (tall hgt i) ns = None" by (simp add: find_None)
    moreover have "forward rl HEAD i = find (tall hgt i) ns"
      by (rule skip_list_forward [OF assms, of "[]"]) simp_all
    ultimately show ?thesis by simp
  qed
  then show ?thesis
    using fold_clear_head [of "Suc (level rl)" rl]
    by (auto simp: skip_list_def caml_empty_global_roots_def Cons_eq_append_conv NUM_LEVELS_def less_Suc_eq_le
        not_le simp del: upt_Suc)
qed

section \<open>Skip lists implement sets\<close>

definition root_list :: "global_root_list \<Rightarrow> addr set \<Rightarrow> addr set \<Rightarrow> bool" where
  "root_list rl N R \<longleftrightarrow> (\<exists>hgt ns. skip_list rl hgt ns \<and> set ns = N \<and> roots_of rl ns = R)"

lemma root_list_empty: "root_list empty_root_list {} {}"
  unfolding root_list_def using skip_list_empty by (auto simp: roots_of_def)

interpretation skip: root_set root_list "\<lambda>new. new \<noteq> HEAD" caml_insert_global_root caml_delete_global_root
proof
  fix rl N R new r seed
  assume "root_list rl N R" "new \<notin> N" "new \<noteq> HEAD"
  then obtain hgt ns where "skip_list rl hgt ns" "new \<notin> set ns" "new \<noteq> HEAD" "set ns = N" "roots_of rl ns = R"
    by (auto simp: root_list_def)
  from insert_global_root [OF this(1-3), of r seed] this(4,5)
  show "\<exists>l' seed' N'. caml_insert_global_root rl r new seed = Some (l', seed') \<and> root_list l' N' (insert r R)
      \<and> N' \<subseteq> insert new N"
    unfolding root_list_def by metis
next
  fix rl N R r
  assume "root_list rl N R"
  then obtain hgt ns where "skip_list rl hgt ns" "set ns = N" "roots_of rl ns = R" by (auto simp: root_list_def)
  from delete_global_root [OF this(1), of r] this(2,3)
  show "\<exists>l' N'. caml_delete_global_root rl r = Some l' \<and> root_list l' N' (R - {r}) \<and> N' \<subseteq> N"
    unfolding root_list_def by metis
qed

text \<open>
  C5. A sequence of insertions and deletions on a skip list, whatever levels the generator
  draws, behaves as on a set: every operation ends, and the iteration then visits the
  elements of the set once each, in increasing order.
\<close>

theorem skip_list_refines_set:
  assumes "distinct (concat (map root_op_nodes ops))" "HEAD \<notin> set (concat (map root_op_nodes ops))"
  shows "\<exists>rl seed' ns.
    run_root_ops caml_insert_global_root caml_delete_global_root ops empty_root_list seed = Some (rl, seed')
    \<and> root_nodes rl (forward rl HEAD 0) = Some ns
    \<and> map (node_root rl) ns = sorted_list_of_set (fold root_op_set ops {})"
proof -
  have "list_all (\<lambda>new. new \<noteq> HEAD) (concat (map root_op_nodes ops))"
    unfolding list_all_iff using assms(2) by blast
  from skip.run_ops [OF root_list_empty _ assms(1) this, of seed] obtain rl seed' N where
    r: "run_root_ops caml_insert_global_root caml_delete_global_root ops empty_root_list seed = Some (rl, seed')"
    "root_list rl N (fold root_op_set ops {})" by auto
  from r(2) obtain hgt ns where s: "skip_list rl hgt ns" "roots_of rl ns = fold root_op_set ops {}"
    by (auto simp: root_list_def)
  from r(1) iterate_nodes [OF s(1)] sorted_roots [OF s(1)] show ?thesis unfolding s(2) by blast
qed

lemma skip_list_refines_set_witness:
  "\<exists>rl seed' ns.
    run_root_ops caml_insert_global_root caml_delete_global_root
      [Insert 30 1, Insert 10 2, Insert 20 3, Delete 30, Insert 10 4] empty_root_list 7 = Some (rl, seed')
    \<and> root_nodes rl (forward rl HEAD 0) = Some ns \<and> map (node_root rl) ns = [10, 20]"
proof -
  have "distinct (concat (map root_op_nodes [Insert 30 1, Insert 10 2, Insert 20 3, Delete 30, Insert 10 4]))"
    "HEAD \<notin> set (concat (map root_op_nodes [Insert 30 1, Insert 10 2, Insert 20 3, Delete 30, Insert 10 4]))"
    by (simp_all add: HEAD_def)
  moreover have "fold root_op_set [Insert 30 1, Insert 10 2, Insert 20 3, Delete 30, Insert 10 4] {} = {10, 20}"
  proof -
    have "insert (10 :: addr) (insert 20 (insert 10 (insert 30 {})) - {30}) = {10, 20}" by fastforce
    then show ?thesis by (simp only: fold_simps root_op_set.simps)
  qed
  moreover have "sorted_list_of_set {10, 20 :: addr} = [10, 20]" by simp
  ultimately show ?thesis
    using skip_list_refines_set [of "[Insert 30 1, Insert 10 2, Insert 20 3, Delete 30, Insert 10 4]" 7]
    by presburger
qed

end
