(* ===== verification/Globroots_Generational.thy ===== *)
theory Globroots_Generational
  imports Globroots_Proofs
begin

text \<open>
  The generational registration over the set interface of the skip lists: what the minor
  collection needs of the young and old lists, and where the code loses it.
\<close>

section \<open>Lists as sets\<close>

definition nodes :: "global_root_list \<Rightarrow> addr set" where
  "nodes rl = (case root_nodes rl (forward rl HEAD 0) of Some ns \<Rightarrow> set ns | None \<Rightarrow> {})"
definition roots :: "global_root_list \<Rightarrow> addr set" where
  "roots rl = node_root rl ` nodes rl"
definition wf_roots :: "global_root_list \<Rightarrow> bool" where
  "wf_roots rl \<longleftrightarrow> (\<exists>hgt ns. skip_list rl hgt ns)"

lemma root_list_iff: "root_list rl N R \<longleftrightarrow> wf_roots rl \<and> N = nodes rl \<and> R = roots rl"
proof -
  have "nodes rl = set ns" if "skip_list rl hgt ns" for hgt ns
    using iterate_nodes [OF that] by (simp add: nodes_def)
  then show ?thesis unfolding root_list_def wf_roots_def roots_def roots_of_def by metis
qed

lemma insert_wf:
  assumes "wf_roots rl" "new \<notin> nodes rl" "new \<noteq> HEAD"
  obtains rl' seed' where "caml_insert_global_root rl r new seed = Some (rl', seed')" "wf_roots rl'"
    "roots rl' = insert r (roots rl)" "nodes rl' \<subseteq> insert new (nodes rl)"
  using skip.insert_law [of rl "nodes rl" "roots rl" new r seed] assms by (auto simp: root_list_iff)

lemma delete_wf:
  assumes "wf_roots rl"
  obtains rl' where "caml_delete_global_root rl r = Some rl'" "wf_roots rl'" "roots rl' = roots rl - {r}"
    "nodes rl' \<subseteq> nodes rl"
  using skip.delete_law [of rl "nodes rl" "roots rl" r] assms by (auto simp: root_list_iff)

lemma empty_wf:
  assumes "wf_roots rl"
  shows "wf_roots (caml_empty_global_roots rl)" "roots (caml_empty_global_roots rl) = {}"
proof -
  obtain hgt where e: "skip_list (caml_empty_global_roots rl) hgt []"
    using assms empty_global_roots by (auto simp: wf_roots_def)
  then show "wf_roots (caml_empty_global_roots rl)" by (auto simp: wf_roots_def)
  show "roots (caml_empty_global_roots rl) = {}"
    using iterate_nodes [OF e] by (simp add: roots_def nodes_def)
qed

section \<open>The invariant\<close>

definition exclusive :: "address_class \<Rightarrow> bool" where
  "exclusive ac \<longleftrightarrow> (\<forall>v. \<not> (Is_young ac v \<and> Is_in_heap ac v))"

text \<open>
  A root that holds a young block is in the young list, one that holds a major block is in
  one of the two.
\<close>

definition root_tracked :: "address_class \<Rightarrow> global_roots \<Rightarrow> addr \<Rightarrow> bool" where
  "root_tracked ac s r \<longleftrightarrow>
     (let v = root_mem s r
      in Is_block v \<longrightarrow>
        (Is_young ac v \<longrightarrow> r \<in> roots (caml_global_roots_young s))
        \<and> (Is_in_heap ac v \<longrightarrow> r \<in> roots (caml_global_roots_young s) \<union> roots (caml_global_roots_old s)))"

definition generational :: "address_class \<Rightarrow> addr set \<Rightarrow> global_roots \<Rightarrow> bool" where
  "generational ac G s \<longleftrightarrow>
     wf_roots (caml_global_roots_young s) \<and> wf_roots (caml_global_roots_old s) \<and> (\<forall>r\<in>G. root_tracked ac s r)"

definition fresh_node :: "addr \<Rightarrow> global_roots \<Rightarrow> bool" where
  "fresh_node new s \<longleftrightarrow>
     new \<noteq> HEAD \<and> new \<notin> nodes (caml_global_roots_young s) \<and> new \<notin> nodes (caml_global_roots_old s)"

lemma insert_young_ok:
  assumes "wf_roots (caml_global_roots_young s)" "fresh_node new s"
  obtains s' where "insert_young r new s = Some s'" "wf_roots (caml_global_roots_young s')"
    "roots (caml_global_roots_young s') = insert r (roots (caml_global_roots_young s))"
    "caml_global_roots_old s' = caml_global_roots_old s" "root_mem s' = root_mem s"
proof -
  have "new \<notin> nodes (caml_global_roots_young s)" "new \<noteq> HEAD" using assms(2) by (simp_all add: fresh_node_def)
  then obtain rl' seed' where "caml_insert_global_root (caml_global_roots_young s) r new (random_seed s) = Some (rl', seed')"
    "wf_roots rl'" "roots rl' = insert r (roots (caml_global_roots_young s))"
    "nodes rl' \<subseteq> insert new (nodes (caml_global_roots_young s))"
    by (rule insert_wf [OF assms(1)])
  then show ?thesis
    by (intro that [of "s\<lparr>random_seed := seed', caml_global_roots_young := rl'\<rparr>"]) (simp_all add: insert_young_def insert_roots_def)
qed

lemma insert_old_ok:
  assumes "wf_roots (caml_global_roots_old s)" "new \<noteq> HEAD" "new \<notin> nodes (caml_global_roots_old s)"
  obtains s' where "insert_old r new s = Some s'" "wf_roots (caml_global_roots_old s')"
    "roots (caml_global_roots_old s') = insert r (roots (caml_global_roots_old s))"
    "nodes (caml_global_roots_old s') \<subseteq> insert new (nodes (caml_global_roots_old s))"
    "caml_global_roots_young s' = caml_global_roots_young s" "root_mem s' = root_mem s"
proof -
  obtain rl' seed' where "caml_insert_global_root (caml_global_roots_old s) r new (random_seed s) = Some (rl', seed')"
    "wf_roots rl'" "roots rl' = insert r (roots (caml_global_roots_old s))"
    "nodes rl' \<subseteq> insert new (nodes (caml_global_roots_old s))"
    by (rule insert_wf [OF assms(1,3,2)])
  then show ?thesis
    by (intro that [of "s\<lparr>random_seed := seed', caml_global_roots_old := rl'\<rparr>"]) (simp_all add: insert_old_def insert_roots_def)
qed

lemma delete_young_ok:
  assumes "wf_roots (caml_global_roots_young s)"
  obtains s' where "delete_young r s = Some s'" "wf_roots (caml_global_roots_young s')"
    "roots (caml_global_roots_young s') = roots (caml_global_roots_young s) - {r}"
    "nodes (caml_global_roots_young s') \<subseteq> nodes (caml_global_roots_young s)"
    "caml_global_roots_old s' = caml_global_roots_old s" "root_mem s' = root_mem s"
proof -
  obtain rl' where "caml_delete_global_root (caml_global_roots_young s) r = Some rl'" "wf_roots rl'"
    "roots rl' = roots (caml_global_roots_young s) - {r}" "nodes rl' \<subseteq> nodes (caml_global_roots_young s)"
    by (rule delete_wf [OF assms])
  then show ?thesis
    by (intro that [of "s\<lparr>caml_global_roots_young := rl'\<rparr>"]) (simp_all add: delete_young_def)
qed

lemma delete_old_ok:
  assumes "wf_roots (caml_global_roots_old s)"
  obtains s' where "delete_old r s = Some s'" "wf_roots (caml_global_roots_old s')"
    "roots (caml_global_roots_old s') = roots (caml_global_roots_old s) - {r}"
    "nodes (caml_global_roots_old s') \<subseteq> nodes (caml_global_roots_old s)"
    "caml_global_roots_young s' = caml_global_roots_young s" "root_mem s' = root_mem s"
proof -
  obtain rl' where "caml_delete_global_root (caml_global_roots_old s) r = Some rl'" "wf_roots rl'"
    "roots rl' = roots (caml_global_roots_old s) - {r}" "nodes rl' \<subseteq> nodes (caml_global_roots_old s)"
    by (rule delete_wf [OF assms])
  then show ?thesis
    by (intro that [of "s\<lparr>caml_global_roots_old := rl'\<rparr>"]) (simp_all add: delete_old_def)
qed

section \<open>Registration and modification\<close>

text \<open>
  What a step must give for the invariant: the root \<open>r\<close> tracked, the lists unchanged at the
  other roots.
\<close>

lemma generationalI:
  assumes "generational ac G s" "wf_roots (caml_global_roots_young s')" "wf_roots (caml_global_roots_old s')"
    and "\<And>q. q \<noteq> r \<Longrightarrow> root_mem s' q = root_mem s q"
    and "\<And>q. q \<noteq> r \<Longrightarrow> q \<in> roots (caml_global_roots_young s') \<longleftrightarrow> q \<in> roots (caml_global_roots_young s)"
    and "\<And>q. q \<noteq> r \<Longrightarrow> q \<in> roots (caml_global_roots_old s') \<longleftrightarrow> q \<in> roots (caml_global_roots_old s)"
    and "root_tracked ac s' r"
  shows "generational ac (insert r G) s'"
  using assms unfolding generational_def
  by (auto simp: root_tracked_def Let_def) (metis (full_types))+

lemma register_generational:
  assumes "generational ac G s" "fresh_node new s" "exclusive ac"
  shows "\<exists>s'. caml_register_generational_global_root ac r new s = Some s' \<and> generational ac (insert r G) s'"
proof -
  let ?v = "root_mem s r"
  have wf: "wf_roots (caml_global_roots_young s)" "wf_roots (caml_global_roots_old s)"
    using assms(1) by (simp_all add: generational_def)
  consider "Is_block ?v" "Is_young ac ?v" | "Is_block ?v" "\<not> Is_young ac ?v" "Is_in_heap ac ?v"
    | "\<not> Is_block ?v \<or> (\<not> Is_young ac ?v \<and> \<not> Is_in_heap ac ?v)" by blast
  then show ?thesis
  proof cases
    case 1
    obtain s' where s': "insert_young r new s = Some s'" "wf_roots (caml_global_roots_young s')"
      "roots (caml_global_roots_young s') = insert r (roots (caml_global_roots_young s))"
      "caml_global_roots_old s' = caml_global_roots_old s" "root_mem s' = root_mem s"
      using insert_young_ok [OF wf(1) assms(2)] by blast
    have "generational ac (insert r G) s'"
      using assms(1) s'(2) by (rule generationalI) (use s' wf in \<open>simp_all add: root_tracked_def\<close>)
    with 1 s'(1) show ?thesis by (simp add: caml_register_generational_global_root_def)
  next
    case 2
    have n: "new \<noteq> HEAD" "new \<notin> nodes (caml_global_roots_old s)" using assms(2) by (simp_all add: fresh_node_def)
    obtain s' where s': "insert_old r new s = Some s'" "wf_roots (caml_global_roots_old s')"
      "roots (caml_global_roots_old s') = insert r (roots (caml_global_roots_old s))"
      "caml_global_roots_young s' = caml_global_roots_young s" "root_mem s' = root_mem s"
      using insert_old_ok [OF wf(2) n] by blast
    have "generational ac (insert r G) s'"
      using assms(1) by (rule generationalI) (use 2 s' wf in \<open>simp_all add: root_tracked_def\<close>)
    with 2 s'(1) show ?thesis by (simp add: caml_register_generational_global_root_def)
  next
    case 3
    have "generational ac (insert r G) s"
      using assms(1) by (rule generationalI) (use 3 wf in \<open>auto simp: root_tracked_def\<close>)
    with 3 show ?thesis by (auto simp: caml_register_generational_global_root_def Let_def)
  qed
qed

lemma roots_mem_update [simp]:
  "caml_global_roots_young (root_mem_update g s) = caml_global_roots_young s"
  "caml_global_roots_old (root_mem_update g s) = caml_global_roots_old s"
  by simp_all

text \<open>
  C23. Modifying a registered generational root keeps the invariant of the minor collection,
  provided the block it held before is in one of the two generations: the root ends up in
  the list its new value requires.
\<close>

theorem modify_generational:
  assumes inv: "generational ac G s" "r \<in> G" and new: "fresh_node new s" and ac: "exclusive ac"
    and old: "Is_block (root_mem s r) \<longrightarrow> Is_young ac (root_mem s r) \<or> Is_in_heap ac (root_mem s r)"
  shows "\<exists>s'. caml_modify_generational_global_root ac r new newval s = Some s'
    \<and> generational ac G s' \<and> root_mem s' = (root_mem s)(r := newval)"
proof -
  let ?v = "root_mem s r" and ?put = "\<lambda>s'. s'\<lparr>root_mem := (root_mem s')(r := newval)\<rparr>"
  have wf: "wf_roots (caml_global_roots_young s)" "wf_roots (caml_global_roots_old s)" and tr: "root_tracked ac s r"
    using inv by (simp_all add: generational_def)
  have n: "new \<noteq> HEAD" "new \<notin> nodes (caml_global_roots_old s)" using new by (simp_all add: fresh_node_def)
  have G: "insert r G = G" using inv(2) by blast
  consider
      (move) "Is_block newval" "Is_young ac newval" "Is_block ?v" "Is_in_heap ac ?v"
    | (add_young) "\<not> Is_block ?v" "Is_block newval" "Is_young ac newval"
    | (add_old) "\<not> Is_block ?v" "Is_block newval" "\<not> Is_young ac newval" "Is_in_heap ac newval"
    | (drop_young) "Is_block ?v" "\<not> Is_block newval" "Is_young ac ?v"
    | (drop_old) "Is_block ?v" "\<not> Is_block newval" "\<not> Is_young ac ?v" "Is_in_heap ac ?v"
    | (none) "(Is_block ?v \<and> Is_block newval \<and> \<not> (Is_young ac newval \<and> Is_in_heap ac ?v))
        \<or> (\<not> Is_block ?v \<and> Is_block newval \<and> \<not> Is_young ac newval \<and> \<not> Is_in_heap ac newval)
        \<or> (\<not> Is_block ?v \<and> \<not> Is_block newval)"
    using old by blast
  then show ?thesis
  proof cases
    case move
    obtain s1 where s1: "delete_old r s = Some s1" "wf_roots (caml_global_roots_old s1)"
      "roots (caml_global_roots_old s1) = roots (caml_global_roots_old s) - {r}"
      "nodes (caml_global_roots_old s1) \<subseteq> nodes (caml_global_roots_old s)"
      "caml_global_roots_young s1 = caml_global_roots_young s" "root_mem s1 = root_mem s"
      by (rule delete_old_ok [OF wf(2)])
    have "wf_roots (caml_global_roots_young s1)" "fresh_node new s1"
      using s1 wf new by (auto simp: fresh_node_def)
    then obtain s2 where s2: "insert_young r new s1 = Some s2" "wf_roots (caml_global_roots_young s2)"
      "roots (caml_global_roots_young s2) = insert r (roots (caml_global_roots_young s1))"
      "caml_global_roots_old s2 = caml_global_roots_old s1" "root_mem s2 = root_mem s1"
      by (rule insert_young_ok)
    have "generational ac (insert r G) (?put s2)"
      using inv(1) by (rule generationalI) (use s1 s2 in \<open>auto simp: root_tracked_def\<close>)
    with move s1 s2 G show ?thesis by (simp add: caml_modify_generational_global_root_def)
  next
    case add_young
    obtain s1 where s1: "insert_young r new s = Some s1" "wf_roots (caml_global_roots_young s1)"
      "roots (caml_global_roots_young s1) = insert r (roots (caml_global_roots_young s))"
      "caml_global_roots_old s1 = caml_global_roots_old s" "root_mem s1 = root_mem s"
      by (rule insert_young_ok [OF wf(1) new])
    have "generational ac (insert r G) (?put s1)"
      using inv(1) by (rule generationalI) (use s1 wf in \<open>auto simp: root_tracked_def\<close>)
    with add_young s1 G show ?thesis by (simp add: caml_modify_generational_global_root_def)
  next
    case add_old
    obtain s1 where s1: "insert_old r new s = Some s1" "wf_roots (caml_global_roots_old s1)"
      "roots (caml_global_roots_old s1) = insert r (roots (caml_global_roots_old s))"
      "nodes (caml_global_roots_old s1) \<subseteq> insert new (nodes (caml_global_roots_old s))"
      "caml_global_roots_young s1 = caml_global_roots_young s" "root_mem s1 = root_mem s"
      by (rule insert_old_ok [OF wf(2) n])
    have "generational ac (insert r G) (?put s1)"
      using inv(1) by (rule generationalI) (use add_old s1 wf in \<open>auto simp: root_tracked_def\<close>)
    with add_old s1 G show ?thesis by (simp add: caml_modify_generational_global_root_def)
  next
    case drop_young
    obtain s1 where s1: "delete_young r s = Some s1" "wf_roots (caml_global_roots_young s1)"
      "roots (caml_global_roots_young s1) = roots (caml_global_roots_young s) - {r}"
      "nodes (caml_global_roots_young s1) \<subseteq> nodes (caml_global_roots_young s)"
      "caml_global_roots_old s1 = caml_global_roots_old s" "root_mem s1 = root_mem s"
      by (rule delete_young_ok [OF wf(1)])
    have "generational ac (insert r G) (?put s1)"
      using inv(1) by (rule generationalI) (use drop_young s1 wf in \<open>auto simp: root_tracked_def\<close>)
    with drop_young s1 G show ?thesis by (simp add: caml_modify_generational_global_root_def)
  next
    case drop_old
    obtain s1 where s1: "delete_old r s = Some s1" "wf_roots (caml_global_roots_old s1)"
      "roots (caml_global_roots_old s1) = roots (caml_global_roots_old s) - {r}"
      "nodes (caml_global_roots_old s1) \<subseteq> nodes (caml_global_roots_old s)"
      "caml_global_roots_young s1 = caml_global_roots_young s" "root_mem s1 = root_mem s"
      by (rule delete_old_ok [OF wf(2)])
    have "generational ac (insert r G) (?put s1)"
      using inv(1) by (rule generationalI) (use drop_old s1 wf in \<open>auto simp: root_tracked_def\<close>)
    with drop_old s1 G show ?thesis by (simp add: caml_modify_generational_global_root_def)
  next
    case none
    have "root_tracked ac (?put s) r"
      using none tr old ac by (auto simp: root_tracked_def exclusive_def Let_def)
    with inv(1) have "generational ac (insert r G) (?put s)"
      by (rule_tac generationalI) (use wf in simp_all)
    moreover have "caml_modify_generational_global_root ac r new newval s = Some (?put s)"
      using none by (auto simp: caml_modify_generational_global_root_def Let_def)
    ultimately show ?thesis using G by simp
  qed
qed

text \<open>An example of the two classes, and a state with one registered root.\<close>

definition example_class :: address_class where
  "example_class = \<lparr>Is_young = (\<lambda>v. v \<ge> 0x1000 \<and> v < 0x2000), Is_in_heap = (\<lambda>v. v \<ge> 0x2000 \<and> v < 0x3000)\<rparr>"

definition no_roots :: "root_memory \<Rightarrow> global_roots" where
  "no_roots mem =
     \<lparr>caml_global_roots = empty_root_list, caml_global_roots_young = empty_root_list,
      caml_global_roots_old = empty_root_list, random_seed = 0, root_mem = mem\<rparr>"

lemma no_roots_mem [simp]: "root_mem (no_roots mem) = mem"
  by (simp add: no_roots_def)

lemma nodes_empty: "nodes empty_root_list = {}" "roots empty_root_list = {}" "wf_roots empty_root_list"
  using root_list_empty by (simp_all add: root_list_iff)

lemma generational_no_roots:
  "(\<And>r. r \<in> G \<Longrightarrow> \<not> Is_block (mem r)) \<Longrightarrow> generational ac G (no_roots mem)"
  by (simp add: generational_def no_roots_def nodes_empty root_tracked_def)

lemma fresh_no_roots: "new \<noteq> HEAD \<Longrightarrow> fresh_node new (no_roots mem)"
  by (simp add: fresh_node_def no_roots_def nodes_empty)

lemma exclusive_example: "exclusive example_class"
  by (auto simp: exclusive_def example_class_def not_less)

lemma modify_generational_witness:
  "\<exists>s'. caml_modify_generational_global_root example_class 8 16 0x1000 (no_roots (\<lambda>_. 1)) = Some s'
    \<and> generational example_class {8} s' \<and> root_mem s' = (\<lambda>_. 1)(8 := 0x1000)"
  using modify_generational [of example_class "{8}" "no_roots (\<lambda>_. 1)" 8 16 "0x1000"]
  by (simp add: generational_no_roots fresh_no_roots exclusive_example HEAD_def Is_block_def)

section \<open>Where the lists lose a root\<close>

text \<open>
  C24. A registered root that holds a block outside both generations, such as static data, is
  in no list; giving it a young block does not put it in one, so the next minor collection
  does not see the root.
\<close>

theorem modify_loses_static_root:
  assumes "generational ac G s" "r \<notin> roots (caml_global_roots_young s)"
    and "Is_block (root_mem s r)" "\<not> Is_young ac (root_mem s r)" "\<not> Is_in_heap ac (root_mem s r)"
    and "Is_block newval" "Is_young ac newval"
  shows "\<exists>s'. caml_modify_generational_global_root ac r new newval s = Some s'
    \<and> root_mem s' r = newval \<and> \<not> root_tracked ac s' r"
  using assms by (auto simp: caml_modify_generational_global_root_def root_tracked_def Let_def)

lemma modify_loses_static_root_witness:
  "\<exists>s'. caml_modify_generational_global_root example_class 8 16 0x1000 (no_roots (\<lambda>_. 0x8000)) = Some s'
    \<and> root_mem s' 8 = 0x1000 \<and> \<not> root_tracked example_class s' 8"
proof -
  have "generational example_class {} (no_roots (\<lambda>_. 0x8000))" by (rule generational_no_roots) simp
  from modify_loses_static_root [OF this, of 8 "0x1000" 16] show ?thesis
    by (simp add: no_roots_def nodes_empty Is_block_def example_class_def)
qed

text \<open>
  C25. Unregistering a root whose value went from the young to the major generation looks for
  it in the old list only: when no minor collection came in between, the address stays in the
  young list after the root is gone.
\<close>

theorem remove_leaves_root:
  assumes "wf_roots (caml_global_roots_old s)" "r \<in> roots (caml_global_roots_young s)"
    and "Is_block (root_mem s r)" "\<not> Is_young ac (root_mem s r)"
  shows "\<exists>s'. caml_remove_generational_global_root ac r s = Some s' \<and> r \<in> roots (caml_global_roots_young s')"
proof (cases "Is_in_heap ac (root_mem s r)")
  case True
  obtain s1 where "delete_old r s = Some s1" "wf_roots (caml_global_roots_old s1)"
    "roots (caml_global_roots_old s1) = roots (caml_global_roots_old s) - {r}"
    "nodes (caml_global_roots_old s1) \<subseteq> nodes (caml_global_roots_old s)"
    "caml_global_roots_young s1 = caml_global_roots_young s" "root_mem s1 = root_mem s"
    by (rule delete_old_ok [OF assms(1)])
  with True assms(2-4) show ?thesis by (simp add: caml_remove_generational_global_root_def)
qed (use assms in \<open>simp add: caml_remove_generational_global_root_def\<close>)

lemma remove_leaves_root_witness:
  "\<exists>s1 s2 s3. caml_register_generational_global_root example_class 8 16 (no_roots (\<lambda>_. 0x1000)) = Some s1
    \<and> caml_modify_generational_global_root example_class 8 24 0x2000 s1 = Some s2
    \<and> caml_remove_generational_global_root example_class 8 s2 = Some s3
    \<and> 8 \<in> roots (caml_global_roots_young s3)"
proof -
  let ?s = "no_roots (\<lambda>_. 0x1000)"
  have "wf_roots (caml_global_roots_young ?s)" "fresh_node 16 ?s"
    using fresh_no_roots [of 16 "\<lambda>_. 0x1000"] by (simp_all add: no_roots_def nodes_empty HEAD_def)
  then obtain s1 where s1: "insert_young 8 16 ?s = Some s1" "wf_roots (caml_global_roots_young s1)"
    "roots (caml_global_roots_young s1) = insert 8 (roots (caml_global_roots_young ?s))"
    "caml_global_roots_old s1 = caml_global_roots_old ?s" "root_mem s1 = root_mem ?s"
    by (rule insert_young_ok)
  have reg: "caml_register_generational_global_root example_class 8 16 ?s = Some s1"
    using s1(1) by (simp add: caml_register_generational_global_root_def Is_block_def example_class_def)
  let ?s2 = "s1\<lparr>root_mem := (root_mem s1)(8 := 0x2000)\<rparr>"
  have mod: "caml_modify_generational_global_root example_class 8 24 0x2000 s1 = Some ?s2"
    using s1(5) by (simp add: caml_modify_generational_global_root_def Is_block_def example_class_def)
  have "wf_roots (caml_global_roots_old ?s2)" "8 \<in> roots (caml_global_roots_young ?s2)"
    using s1 by (simp_all add: no_roots_def nodes_empty)
  from remove_leaves_root [OF this, of example_class]
  obtain s3 where "caml_remove_generational_global_root example_class 8 ?s2 = Some s3" "8 \<in> roots (caml_global_roots_young s3)"
    by (auto simp: Is_block_def example_class_def)
  with reg mod show ?thesis by blast
qed

section \<open>The minor scan\<close>

lemma move_young_ok:
  assumes "wf_roots (caml_global_roots_old s)" "inj_on news {..<length grs}"
    "\<And>k. k < length grs \<Longrightarrow> news k \<noteq> HEAD \<and> news k \<notin> nodes (caml_global_roots_old s)"
  shows "\<exists>s'. move_young grs news s = Some s' \<and> wf_roots (caml_global_roots_old s')
    \<and> roots (caml_global_roots_old s') = roots (caml_global_roots_old s) \<union> node_root (caml_global_roots_young s) ` set grs
    \<and> caml_global_roots_young s' = caml_global_roots_young s \<and> root_mem s' = root_mem s"
  using assms
proof (induction grs arbitrary: news s)
  case (Cons gr grs)
  have n: "news 0 \<noteq> HEAD" "news 0 \<notin> nodes (caml_global_roots_old s)" using Cons.prems(3) [of 0] by simp_all
  obtain s1 where s1: "insert_old (node_root (caml_global_roots_young s) gr) (news 0) s = Some s1"
    "wf_roots (caml_global_roots_old s1)"
    "roots (caml_global_roots_old s1) = insert (node_root (caml_global_roots_young s) gr) (roots (caml_global_roots_old s))"
    "nodes (caml_global_roots_old s1) \<subseteq> insert (news 0) (nodes (caml_global_roots_old s))"
    "caml_global_roots_young s1 = caml_global_roots_young s" "root_mem s1 = root_mem s"
    by (rule insert_old_ok [OF Cons.prems(1) n])
  have inj: "inj_on (\<lambda>k. news (Suc k)) {..<length grs}"
    using Cons.prems(2) by (auto simp: inj_on_def)
  have fr: "news (Suc k) \<noteq> HEAD \<and> news (Suc k) \<notin> nodes (caml_global_roots_old s1)" if "k < length grs" for k
  proof -
    have "news (Suc k) \<noteq> news 0" using Cons.prems(2) that by (auto simp: inj_on_def)
    then show ?thesis using Cons.prems(3) [of "Suc k"] that s1(4) by auto
  qed
  from Cons.IH [OF s1(2) inj fr] obtain s' where "move_young grs (\<lambda>k. news (Suc k)) s1 = Some s'"
    "wf_roots (caml_global_roots_old s')"
    "roots (caml_global_roots_old s') = roots (caml_global_roots_old s1) \<union> node_root (caml_global_roots_young s1) ` set grs"
    "caml_global_roots_young s' = caml_global_roots_young s1" "root_mem s' = root_mem s1" by blast
  with s1 show ?case by auto
qed simp

lemma iterate_ok:
  assumes "wf_roots rl"
  shows "caml_iterate_global_roots f rl mem =
    Some (fold (\<lambda>r mem. f (mem r) r mem) (sorted_list_of_set (roots rl)) mem)"
proof -
  obtain hgt ns where s: "skip_list rl hgt ns" using assms by (auto simp: wf_roots_def)
  have "roots rl = roots_of rl ns" using iterate_nodes [OF s] by (simp add: roots_def nodes_def roots_of_def)
  then have m: "map (node_root rl) ns = sorted_list_of_set (roots rl)" using sorted_roots [OF s] by simp
  have "fold (\<lambda>n mem. f (mem (node_root rl n)) (node_root rl n) mem) ns mem =
      fold (\<lambda>r mem. f (mem r) r mem) (map (node_root rl) ns) mem"
    by (simp add: fold_map comp_def)
  then show ?thesis using iterate_nodes [OF s] m by (simp add: caml_iterate_global_roots_def)
qed

text \<open>
  The scan for a minor collection visits every mutable root and every young root, in
  increasing order, then leaves the young list empty and its roots in the old list, so that
  no root is lost between two minor collections.
\<close>

theorem minor_scan_moves_roots:
  assumes "wf_roots (caml_global_roots s)" "wf_roots (caml_global_roots_young s)" "wf_roots (caml_global_roots_old s)"
    and "inj news" "\<And>k. news k \<noteq> HEAD" "\<And>k. news k \<notin> nodes (caml_global_roots_old s)"
  shows "\<exists>s'. caml_scan_global_young_roots f news s = Some s'
    \<and> root_mem s' = fold (\<lambda>r mem. f (mem r) r mem)
        (sorted_list_of_set (roots (caml_global_roots s)) @ sorted_list_of_set (roots (caml_global_roots_young s)))
        (root_mem s)
    \<and> roots (caml_global_roots_young s') = {}
    \<and> roots (caml_global_roots_old s') = roots (caml_global_roots_old s) \<union> roots (caml_global_roots_young s)
    \<and> wf_roots (caml_global_roots_young s') \<and> wf_roots (caml_global_roots_old s')"
proof -
  let ?m1 = "fold (\<lambda>r mem. f (mem r) r mem) (sorted_list_of_set (roots (caml_global_roots s))) (root_mem s)"
  let ?m2 = "fold (\<lambda>r mem. f (mem r) r mem) (sorted_list_of_set (roots (caml_global_roots_young s))) ?m1"
  let ?s2 = "s\<lparr>root_mem := ?m2\<rparr>"
  obtain hgt grs where g: "skip_list (caml_global_roots_young s) hgt grs" using assms(2) by (auto simp: wf_roots_def)
  have gs: "root_nodes (caml_global_roots_young s) (forward (caml_global_roots_young s) HEAD 0) = Some grs"
    by (rule iterate_nodes [OF g])
  then have rs: "node_root (caml_global_roots_young s) ` set grs = roots (caml_global_roots_young s)"
    by (simp add: roots_def nodes_def)
  have "\<exists>s'. move_young grs news ?s2 = Some s' \<and> wf_roots (caml_global_roots_old s')
    \<and> roots (caml_global_roots_old s') = roots (caml_global_roots_old ?s2) \<union> node_root (caml_global_roots_young ?s2) ` set grs
    \<and> caml_global_roots_young s' = caml_global_roots_young ?s2 \<and> root_mem s' = root_mem ?s2"
    using assms(3-6) by (intro move_young_ok) (auto intro: inj_on_subset)
  then obtain s3 where s3: "move_young grs news ?s2 = Some s3" "wf_roots (caml_global_roots_old s3)"
    "roots (caml_global_roots_old s3) = roots (caml_global_roots_old s) \<union> roots (caml_global_roots_young s)"
    "caml_global_roots_young s3 = caml_global_roots_young s" "root_mem s3 = ?m2"
    using rs by auto
  have "caml_scan_global_young_roots f news s =
      Some (s3\<lparr>caml_global_roots_young := caml_empty_global_roots (caml_global_roots_young s3)\<rparr>)"
    using gs s3(1) by (simp add: caml_scan_global_young_roots_def iterate_roots_def iterate_ok [OF assms(1)] iterate_ok [OF assms(2)])
  with s3 empty_wf [OF assms(2)] show ?thesis by simp
qed

lemma minor_scan_moves_roots_witness:
  "\<exists>s'. caml_scan_global_young_roots (\<lambda>v r mem. mem(r := 1)) Suc (no_roots (\<lambda>_. 1)) = Some s'
    \<and> roots (caml_global_roots_young s') = {}"
  using minor_scan_moves_roots [of "no_roots (\<lambda>_. 1)" Suc "\<lambda>v r mem. mem(r := 1)"]
  by (auto simp: no_roots_def nodes_empty HEAD_def)

end
