(* ===== verification/Marking.thy ===== *)
theory Marking
  imports Heap
begin

text \<open>
  The marking phase of the major collector (\<open>major_gc.c\<close>, \<open>caml_final_update\<close> of
  \<open>finalise.c\<close>): the mark stack with its overflow, the walk over the heap after an overflow,
  the weak and final subphases. The heap is a store of blocks with a colour; a pointer to an
  infix header leads to the closure it is in. \<open>NULL\<close> is the pointer \<open>0\<close>.
\<close>

section \<open>State\<close>

datatype colour = White | Gray | Blue | Black

datatype gblock = Block colour nat "val list" | Infix_header nat

datatype gc_phase = Phase_mark | Phase_sweep | Phase_idle
datatype gc_subphase = Subphase_main | Subphase_weak1 | Subphase_weak2 | Subphase_final

text \<open>
  \<open>gray_stack\<close> holds \<open>gray_vals[0..gray_vals_cur)\<close>, the top first; \<open>chunk_rest\<close> are the chunks
  after the current one, with their sizes in words; \<open>weak_prev\<close> is the block whose field \<open>0\<close> it
  points to, \<open>None\<close> for \<open>&caml_weak_list_head\<close>. \<open>final_table\<close> has the function, value and offset
  of the finalisable set, \<open>to_do\<close> those of the finalising sets.
\<close>

record gc =
  blocks :: "addr \<Rightarrow> gblock option"
  gray_stack :: "addr list"
  gray_vals_size :: nat
  heap_is_pure :: bool
  heap_chunks :: "(addr \<times> nat) list"
  markhp :: addr
  limit :: addr
  chunk_rest :: "(addr \<times> nat) list"
  phase :: gc_phase
  subphase :: gc_subphase
  weak_list_head :: val
  weak_prev :: "addr option"
  final_table :: "(val \<times> val \<times> nat) list"
  to_do :: "(val \<times> val \<times> nat) list"

text \<open>
  What the phase depends on: \<open>caml_stat_heap_size\<close>, whether \<open>__realloc\<close> grants a size, the
  tags of the value area outside the major heap, and \<open>caml_weak_none\<close>.
\<close>

record gc_env =
  stat_heap_size :: nat
  realloc_grants :: "nat \<Rightarrow> bool"
  outside_tag :: "addr \<Rightarrow> nat option"
  weak_none :: val

definition NULL :: val where "NULL = Ptr 0"

text \<open>The address of the block a pointer into the heap belongs to.\<close>

definition base :: "gc \<Rightarrow> addr \<Rightarrow> addr" where
  "base s a = (case blocks s a of Some (Infix_header ofs) \<Rightarrow> a - ofs | _ \<Rightarrow> a)"

text \<open>\<open>Tag_val\<close> of a pointer in the value area, \<open>None\<close> outside.\<close>

definition value_tag :: "gc_env \<Rightarrow> gc \<Rightarrow> addr \<Rightarrow> nat option" where
  "value_tag env s a =
     (case blocks s a of
        Some (Block c t fs) \<Rightarrow> Some t
      | Some (Infix_header ofs) \<Rightarrow> Some Infix_tag
      | None \<Rightarrow> outside_tag env a)"

definition set_colour :: "addr \<Rightarrow> colour \<Rightarrow> gc \<Rightarrow> gc" where
  "set_colour a c s =
     (case blocks s a of
        Some (Block c' t fs) \<Rightarrow> s\<lparr>blocks := (blocks s)(a \<mapsto> Block c t fs)\<rparr>
      | _ \<Rightarrow> s)"

definition set_field :: "addr \<Rightarrow> nat \<Rightarrow> val \<Rightarrow> gc \<Rightarrow> gc" where
  "set_field a i v s =
     (case blocks s a of
        Some (Block c t fs) \<Rightarrow> s\<lparr>blocks := (blocks s)(a \<mapsto> Block c t (fs[i := v]))\<rparr>
      | _ \<Rightarrow> s)"

section \<open>The mark stack\<close>

definition realloc_gray_vals :: "gc_env \<Rightarrow> gc \<Rightarrow> gc" where
  "realloc_gray_vals env s =
     (let n = gray_vals_size s
      in if n < stat_heap_size env div 128 then
           (if \<not> realloc_grants env (2 * n) then s\<lparr>gray_stack := [], heap_is_pure := False\<rparr>
            else s\<lparr>gray_vals_size := 2 * n\<rparr>)
         else s\<lparr>gray_stack := drop (length (gray_stack s) - n div 2) (gray_stack s), heap_is_pure := False\<rparr>)"

definition push_gray :: "gc_env \<Rightarrow> addr \<Rightarrow> gc \<Rightarrow> gc" where
  "push_gray env a s =
     (let s = s\<lparr>gray_stack := a # gray_stack s\<rparr>
      in if length (gray_stack s) \<ge> gray_vals_size s then realloc_gray_vals env s else s)"

definition caml_darken :: "gc_env \<Rightarrow> val \<Rightarrow> gc \<Rightarrow> gc" where
  "caml_darken env v s =
     (case v of
        Long n \<Rightarrow> s
      | Ptr a \<Rightarrow>
          if blocks s a = None then s
          else
            (let a = base s a
             in case blocks s a of
                  Some (Block White t fs) \<Rightarrow>
                    if t < No_scan_tag then push_gray env a (set_colour a Gray s)
                    else set_colour a Black s
                | _ \<Rightarrow> s))"

text \<open>\<open>caml_darken_all_roots\<close> on the values of the roots, and \<open>start_cycle\<close>.\<close>

definition caml_darken_all_roots :: "gc_env \<Rightarrow> val list \<Rightarrow> gc \<Rightarrow> gc" where
  "caml_darken_all_roots env roots s = fold (caml_darken env) roots s"

definition start_cycle :: "gc_env \<Rightarrow> val list \<Rightarrow> gc \<Rightarrow> gc" where
  "start_cycle env roots s =
     (caml_darken_all_roots env roots s)\<lparr>phase := Phase_mark, subphase := Subphase_main, markhp := 0\<rparr>"

section \<open>Marking a block\<close>

text \<open>
  The test that forbids short-circuiting a forwarding block with the value \<open>f\<close>: \<open>f\<close> is a block
  outside the value area, or one that must stay behind a forwarding block.
\<close>

definition keep_forward :: "gc_env \<Rightarrow> gc \<Rightarrow> val \<Rightarrow> bool" where
  "keep_forward env s f =
     (case f of
        Long n \<Rightarrow> False
      | Ptr b \<Rightarrow>
          (case value_tag env s b of
             None \<Rightarrow> True
           | Some t \<Rightarrow> t = Forward_tag \<or> t = Lazy_tag \<or> t = Double_tag))"

definition shade :: "gc_env \<Rightarrow> addr \<Rightarrow> gc \<Rightarrow> gc" where
  "shade env a s =
     (case blocks s a of
        Some (Block White t fs) \<Rightarrow> push_gray env a (set_colour a Gray s)
      | _ \<Rightarrow> s)"

text \<open>The body of the loop over the fields of \<open>v\<close>.\<close>

definition mark_field :: "gc_env \<Rightarrow> addr \<Rightarrow> nat \<Rightarrow> gc \<Rightarrow> gc" where
  "mark_field env v i s =
     (case blocks s v of
        Some (Block c t fs) \<Rightarrow>
          (case fs ! i of
             Long n \<Rightarrow> s
           | Ptr child \<Rightarrow>
               (case blocks s child of
                  None \<Rightarrow> s
                | Some (Infix_header ofs) \<Rightarrow> shade env (child - ofs) s
                | Some (Block cc ct cfs) \<Rightarrow>
                    shade env child
                      (if ct = Forward_tag \<and> cfs \<noteq> [] \<and> \<not> keep_forward env s (cfs ! 0)
                       then set_field v i (cfs ! 0) s else s)))
      | _ \<Rightarrow> s)"

text \<open>A block from the top of the stack; the number is what the work decreases by.\<close>

definition mark_block :: "gc_env \<Rightarrow> addr \<Rightarrow> gc \<Rightarrow> gc \<times> nat" where
  "mark_block env v s =
     (case blocks s v of
        Some (Block c t fs) \<Rightarrow>
          (let s = set_colour v Black s;
               s = (if t < No_scan_tag then fold (mark_field env v) [0..<length fs] s else s)
           in (s, length fs + 1))
      | _ \<Rightarrow> (s, 0))"

section \<open>The other subphases\<close>

text \<open>\<open>Is_white_val\<close>; an infix header has the white colour it was made with.\<close>

definition is_white :: "gc \<Rightarrow> addr \<Rightarrow> bool" where
  "is_white s a =
     (case blocks s a of
        Some (Block c t fs) \<Rightarrow> c = White | Some (Infix_header ofs) \<Rightarrow> True | None \<Rightarrow> False)"

text \<open>Field \<open>i\<close> of the weak array \<open>cur\<close>; a short-circuited value is looked at again.\<close>

definition weak_clear :: "gc_env \<Rightarrow> addr \<Rightarrow> nat \<Rightarrow> val \<Rightarrow> gc \<Rightarrow> gc" where
  "weak_clear env cur i curfield s =
     (case curfield of
        Long n \<Rightarrow> s
      | Ptr a \<Rightarrow>
          if curfield \<noteq> weak_none env \<and> blocks s a \<noteq> None \<and> is_white s a
          then set_field cur i (weak_none env) s else s)"

definition weak_field :: "gc_env \<Rightarrow> addr \<Rightarrow> nat \<Rightarrow> gc \<Rightarrow> gc" where
  "weak_field env cur i s =
     (case blocks s cur of
        Some (Block c t fs) \<Rightarrow>
          (case fs ! i of
             Long n \<Rightarrow> s
           | Ptr a \<Rightarrow>
               if fs ! i = weak_none env then s
               else
                 (case blocks s a of
                    Some (Block ac at (f # afs)) \<Rightarrow>
                      if at = Forward_tag \<and> (case f of Ptr b \<Rightarrow> True | Long n \<Rightarrow> False) \<and> \<not> keep_forward env s f
                      then weak_clear env cur i f (set_field cur i f s)
                      else weak_clear env cur i (Ptr a) s
                  | _ \<Rightarrow> weak_clear env cur i (Ptr a) s))
      | _ \<Rightarrow> s)"

text \<open>\<open>*weak_prev\<close> and its assignment.\<close>

definition weak_current :: "gc \<Rightarrow> val" where
  "weak_current s =
     (case weak_prev s of
        None \<Rightarrow> weak_list_head s
      | Some a \<Rightarrow> (case blocks s a of Some (Block c t (f # fs)) \<Rightarrow> f | _ \<Rightarrow> NULL))"

definition set_weak_current :: "val \<Rightarrow> gc \<Rightarrow> gc" where
  "set_weak_current v s =
     (case weak_prev s of None \<Rightarrow> s\<lparr>weak_list_head := v\<rparr> | Some a \<Rightarrow> set_field a 0 v s)"

text \<open>An entry of the finalisable set: kept, or moved with its value short-circuited.\<close>

definition final_move :: "gc_env \<Rightarrow> gc \<Rightarrow> val \<times> val \<times> nat \<Rightarrow> (val \<times> val \<times> nat) + (val \<times> val \<times> nat)" where
  "final_move env s e =
     (case e of
        (fn, Ptr a, ofs) \<Rightarrow>
          (if is_white s a then
             (case blocks s a of
                Some (Block c t (fv # fs)) \<Rightarrow>
                  if t = Forward_tag \<and> \<not> keep_forward env s fv then
                    (case fv of
                       Ptr b \<Rightarrow> if blocks s b \<noteq> None \<and> \<not> is_white s b then Inl (fn, fv, ofs) else Inr (fn, fv, ofs)
                     | Long n \<Rightarrow> Inr (fn, fv, ofs))
                  else Inr e
              | _ \<Rightarrow> Inr e)
           else Inl e)
      | _ \<Rightarrow> Inl e)"

fun lefts :: "('a + 'b) list \<Rightarrow> 'a list" where
  "lefts [] = []"
| "lefts (Inl x # xs) = x # lefts xs"
| "lefts (Inr y # xs) = lefts xs"

fun rights :: "('a + 'b) list \<Rightarrow> 'b list" where
  "rights [] = []"
| "rights (Inl x # xs) = rights xs"
| "rights (Inr y # xs) = y # rights xs"

definition caml_final_update :: "gc_env \<Rightarrow> gc \<Rightarrow> gc" where
  "caml_final_update env s =
     (if \<exists>(fn, v, ofs)\<in>set (final_table s). (case v of Ptr a \<Rightarrow> is_white s a | Long n \<Rightarrow> False) then
        (let moves = map (final_move env s) (final_table s);
             s = s\<lparr>final_table := lefts moves, to_do := to_do s @ rights moves\<rparr>
         in fold (\<lambda>(fn, v, ofs). caml_darken env v) (rights moves) s)
      else s)"

section \<open>A turn of the loop\<close>

text \<open>
  \<open>mark_step env s\<close>: one turn of \<open>while (work > 0)\<close> of \<open>mark_slice\<close>, with what it takes from
  \<open>work\<close>; \<open>None\<close> in the second component sets \<open>work\<close> to \<open>0\<close>. No step is possible when the walk is
  not at a block.
\<close>

definition mark_step :: "gc_env \<Rightarrow> gc \<Rightarrow> (gc \<times> nat option) option" where
  "mark_step env s =
     (case gray_stack s of
        v # rest \<Rightarrow>
          (let (s', n) = mark_block env v (s\<lparr>gray_stack := rest\<rparr>) in Some (s', Some n))
      | [] \<Rightarrow>
          if markhp s \<noteq> 0 then
            (if markhp s = limit s then
               (case chunk_rest s of
                  [] \<Rightarrow> Some (s\<lparr>markhp := 0\<rparr>, Some 0)
                | (c, n) # cs \<Rightarrow> Some (s\<lparr>markhp := c, limit := c + n, chunk_rest := cs\<rparr>, Some 0))
             else
               (case blocks s (markhp s + 1) of
                  Some (Block c t fs) \<Rightarrow>
                    (let s' = (if c = Gray then s\<lparr>gray_stack := [markhp s + 1]\<rparr> else s)
                     in Some (s'\<lparr>markhp := markhp s + 1 + length fs\<rparr>, Some 0))
                | _ \<Rightarrow> None))
          else if \<not> heap_is_pure s then
            (case heap_chunks s of
               (c, n) # cs \<Rightarrow>
                 Some (s\<lparr>heap_is_pure := True, markhp := c, limit := c + n, chunk_rest := cs\<rparr>, Some 0)
             | [] \<Rightarrow> None)
          else
            (case subphase s of
               Subphase_main \<Rightarrow> Some (s\<lparr>subphase := Subphase_weak1, weak_prev := None\<rparr>, Some 0)
             | Subphase_weak1 \<Rightarrow>
                 (case weak_current s of
                    Ptr cur \<Rightarrow>
                      if cur \<noteq> 0 then
                        (case blocks s cur of
                           Some (Block c t fs) \<Rightarrow>
                             Some ((fold (weak_field env cur) [1..<length fs] s)\<lparr>weak_prev := Some cur\<rparr>,
                               Some (length fs + 1))
                         | _ \<Rightarrow> None)
                      else Some (s\<lparr>subphase := Subphase_weak2, weak_prev := None\<rparr>, Some 0)
                  | Long n \<Rightarrow> None)
             | Subphase_weak2 \<Rightarrow>
                 (case weak_current s of
                    Ptr cur \<Rightarrow>
                      if cur \<noteq> 0 then
                        (case blocks s cur of
                           Some (Block c t (f # fs)) \<Rightarrow>
                             Some (if c = White then set_weak_current f s else s\<lparr>weak_prev := Some cur\<rparr>, Some 1)
                         | _ \<Rightarrow> None)
                      else Some ((caml_final_update env s)\<lparr>subphase := Subphase_final\<rparr>, Some 0)
                  | Long n \<Rightarrow> None)
             | Subphase_final \<Rightarrow> Some (s\<lparr>phase := Phase_sweep\<rparr>, None)))"

text \<open>\<open>fuel\<close> bounds the turns; a slice that is not over by then is \<open>None\<close>.\<close>

fun mark_slice :: "gc_env \<Rightarrow> nat \<Rightarrow> int \<Rightarrow> gc \<Rightarrow> gc option" where
  "mark_slice env 0 work s = (if work > 0 then None else Some s)"
| "mark_slice env (Suc fuel) work s =
     (if work > 0 then
        (case mark_step env s of
           None \<Rightarrow> None
         | Some (s, Some n) \<Rightarrow> mark_slice env fuel (work - int n) s
         | Some (s, None) \<Rightarrow> Some s)
      else Some s)"

end
