(* ===== verification/Marking_Proofs.thy ===== *)
theory Marking_Proofs
  imports Marking Transitions
begin

text \<open>
  The tri-colour invariant of the marking phase: at the start of the sweep no block that the
  roots reach is white. Overflows of the mark stack, the short-circuiting of forwarding blocks
  and values darkened by the program in between do not break it.
\<close>

section \<open>The invariant\<close>

definition white :: "gc \<Rightarrow> addr \<Rightarrow> bool" where
  "white s a \<longleftrightarrow> (\<exists>t fs. blocks s a = Some (Block White t fs))"
definition gray :: "gc \<Rightarrow> addr \<Rightarrow> bool" where
  "gray s a \<longleftrightarrow> (\<exists>t fs. blocks s a = Some (Block Gray t fs))"

text \<open>
  A white block that a black one points to is tolerated while a forwarding block that is gray,
  or whose first field is still to be marked (\<open>X\<close>), has it as its value.
\<close>

definition guarded :: "gc \<Rightarrow> (addr \<times> nat) set \<Rightarrow> addr \<Rightarrow> bool" where
  "guarded s X a \<longleftrightarrow>
     (\<nexists>c fs. blocks s a = Some (Block c Forward_tag fs))
     \<and> (\<exists>g c fs. blocks s g = Some (Block c Forward_tag (Ptr a # fs)) \<and> (c = Gray \<or> (g, 0) \<in> X))"

definition covered :: "gc \<Rightarrow> (addr \<times> nat) set \<Rightarrow> val \<Rightarrow> bool" where
  "covered s X f \<longleftrightarrow>
     (\<forall>a. f = Ptr a \<longrightarrow> blocks s a \<noteq> None \<longrightarrow> \<not> white s (base s a) \<or> guarded s X a)"

definition tricolour :: "gc \<Rightarrow> (addr \<times> nat) set \<Rightarrow> bool" where
  "tricolour s X \<longleftrightarrow>
     (\<forall>v t fs i. blocks s v = Some (Block Black t fs) \<longrightarrow> t < No_scan_tag \<longrightarrow> i < length fs \<longrightarrow>
        (v, i) \<notin> X \<longrightarrow> covered s X (fs ! i))"

text \<open>What the walk after an overflow has still to visit.\<close>

definition pending :: "gc \<Rightarrow> addr set" where
  "pending s =
     (if markhp s = 0 then {}
      else {a. markhp s < a \<and> a \<le> limit s} \<union> {a. \<exists>(c, n)\<in>set (chunk_rest s). c < a \<and> a \<le> c + n})"

definition grays_known :: "gc \<Rightarrow> bool" where
  "grays_known s \<longleftrightarrow> (heap_is_pure s \<longrightarrow> (\<forall>a. gray s a \<longrightarrow> a \<in> set (gray_stack s) \<or> a \<in> pending s))"

definition free_blocks_plain :: "gc \<Rightarrow> bool" where
  "free_blocks_plain s \<longleftrightarrow> (\<forall>a t fs. blocks s a = Some (Block Blue t fs) \<longrightarrow> t \<noteq> Forward_tag)"

text \<open>Blocks do not overlap and lie in the chunks, none of which is at \<open>NULL\<close>.\<close>

definition heap_shape :: "gc \<Rightarrow> bool" where
  "heap_shape s \<longleftrightarrow>
     (\<forall>a c t fs b c' t' fs'. blocks s a = Some (Block c t fs) \<longrightarrow> blocks s b = Some (Block c' t' fs') \<longrightarrow>
        \<not> (a < b \<and> b \<le> a + length fs))
     \<and> (\<forall>a c t fs. blocks s a = Some (Block c t fs) \<longrightarrow> (\<exists>(p, n)\<in>set (heap_chunks s). p < a \<and> a \<le> p + n))
     \<and> 0 \<notin> fst ` set (heap_chunks s)"

text \<open>The weak arrays are blocks that are not scanned, linked by their first fields.\<close>

definition weak_links :: "gc \<Rightarrow> addr set \<Rightarrow> bool" where
  "weak_links s N \<longleftrightarrow>
     (\<forall>a\<in>N. \<exists>c t f fs. blocks s a = Some (Block c t (f # fs)) \<and> No_scan_tag \<le> t \<and> f \<in> Ptr ` insert 0 N)
     \<and> weak_list_head s \<in> Ptr ` insert 0 N \<and> (\<forall>a. weak_prev s = Some a \<longrightarrow> a \<in> N)"

section \<open>Shading\<close>

text \<open>
  \<open>evolves s s' v\<close>: colours only go from white to gray, and only the fields of \<open>v\<close> may differ.
\<close>

definition evolves :: "gc \<Rightarrow> gc \<Rightarrow> addr option \<Rightarrow> bool" where
  "evolves s s' v \<longleftrightarrow>
     (\<forall>a. case blocks s a of
            None \<Rightarrow> blocks s' a = None
          | Some (Infix_header ofs) \<Rightarrow> blocks s' a = Some (Infix_header ofs)
          | Some (Block c t fs) \<Rightarrow>
              \<exists>c' fs'. blocks s' a = Some (Block c' t fs') \<and> length fs' = length fs \<and> (v \<noteq> Some a \<longrightarrow> fs' = fs)
                \<and> (c' = c \<or> c = White \<and> c' = Gray))"

lemma evolvesD:
  assumes "evolves s s' v"
  shows "blocks s a = None \<longleftrightarrow> blocks s' a = None"
    and "blocks s a = Some (Infix_header ofs) \<longleftrightarrow> blocks s' a = Some (Infix_header ofs)"
    and "blocks s a = Some (Block c t fs) \<Longrightarrow> \<exists>c' fs'. blocks s' a = Some (Block c' t fs') \<and> length fs' = length fs
      \<and> (v \<noteq> Some a \<longrightarrow> fs' = fs) \<and> (c' = c \<or> c = White \<and> c' = Gray)"
    and "blocks s' a = Some (Block c' t fs') \<Longrightarrow> \<exists>c fs. blocks s a = Some (Block c t fs) \<and> length fs' = length fs
      \<and> (v \<noteq> Some a \<longrightarrow> fs' = fs) \<and> (c' = c \<or> c = White \<and> c' = Gray)"
  using assms [unfolded evolves_def, rule_format, of a]
  by (auto split: option.splits gblock.splits)

lemma evolves_base: "evolves s s' v \<Longrightarrow> base s' a = base s a"
  using evolvesD [of s s' v a] unfolding base_def
  by (cases "blocks s a"; cases "blocks s' a") (auto split: gblock.splits)

lemma evolves_white: "evolves s s' v \<Longrightarrow> \<not> white s a \<Longrightarrow> \<not> white s' a"
  unfolding white_def using evolvesD(4) by fastforce

lemma evolves_refl: "evolves s s v"
  by (auto simp: evolves_def split: option.splits gblock.splits)

lemma evolves_trans: "evolves s s' v \<Longrightarrow> evolves s' s'' v \<Longrightarrow> evolves s s'' v"
  unfolding evolves_def
  by (rule allI) (drule_tac x = a in spec, drule_tac x = a in spec, auto split: option.splits gblock.splits)

lemma push_gray_simps [simp]:
  "blocks (push_gray env a s) = blocks s" "heap_chunks (push_gray env a s) = heap_chunks s"
  "markhp (push_gray env a s) = markhp s" "limit (push_gray env a s) = limit s"
  "chunk_rest (push_gray env a s) = chunk_rest s" "phase (push_gray env a s) = phase s"
  "weak_list_head (push_gray env a s) = weak_list_head s" "weak_prev (push_gray env a s) = weak_prev s"
  "subphase (push_gray env a s) = subphase s"
  by (simp_all add: push_gray_def realloc_gray_vals_def Let_def)

lemma push_gray_pure:
  "heap_is_pure (push_gray env a s) \<Longrightarrow> heap_is_pure s \<and> gray_stack (push_gray env a s) = a # gray_stack s"
  by (auto simp: push_gray_def realloc_gray_vals_def Let_def split: if_splits)

text \<open>What does not change when blocks are shaded or fields are set.\<close>

definition same_walk :: "gc \<Rightarrow> gc \<Rightarrow> bool" where
  "same_walk s s' \<longleftrightarrow>
     heap_chunks s' = heap_chunks s \<and> markhp s' = markhp s \<and> limit s' = limit s \<and> chunk_rest s' = chunk_rest s
     \<and> phase s' = phase s \<and> weak_list_head s' = weak_list_head s \<and> weak_prev s' = weak_prev s
     \<and> subphase s' = subphase s"

lemma same_walk_trans: "same_walk s s' \<Longrightarrow> same_walk s' s'' \<Longrightarrow> same_walk s s''"
  by (simp add: same_walk_def)

lemma same_walk_refl [simp]: "same_walk s s"
  by (simp add: same_walk_def)

lemma pending_same: "same_walk s s' \<Longrightarrow> pending s' = pending s"
  by (simp add: same_walk_def pending_def)

lemma set_colour_simps [simp]:
  "heap_chunks (set_colour a c s) = heap_chunks s" "markhp (set_colour a c s) = markhp s"
  "limit (set_colour a c s) = limit s" "chunk_rest (set_colour a c s) = chunk_rest s"
  "phase (set_colour a c s) = phase s" "weak_list_head (set_colour a c s) = weak_list_head s"
  "weak_prev (set_colour a c s) = weak_prev s" "gray_stack (set_colour a c s) = gray_stack s"
  "heap_is_pure (set_colour a c s) = heap_is_pure s" "subphase (set_colour a c s) = subphase s"
  by (simp_all add: set_colour_def split: option.splits gblock.splits)

lemma set_field_simps [simp]:
  "heap_chunks (set_field a i v s) = heap_chunks s" "markhp (set_field a i v s) = markhp s"
  "limit (set_field a i v s) = limit s" "chunk_rest (set_field a i v s) = chunk_rest s"
  "phase (set_field a i v s) = phase s" "weak_list_head (set_field a i v s) = weak_list_head s"
  "weak_prev (set_field a i v s) = weak_prev s" "gray_stack (set_field a i v s) = gray_stack s"
  "heap_is_pure (set_field a i v s) = heap_is_pure s" "subphase (set_field a i v s) = subphase s"
  by (simp_all add: set_field_def split: option.splits gblock.splits)

lemma shade_facts:
  shows "evolves s (shade env a s) v" "same_walk s (shade env a s)" "\<not> white (shade env a s) a"
    and "grays_known s \<Longrightarrow> grays_known (shade env a s)"
proof -
  consider (w) t fs where "blocks s a = Some (Block White t fs)" | (n) "\<not> white s a" "shade env a s = s"
    unfolding shade_def white_def by (auto split: option.splits gblock.splits colour.splits)
  then have "evolves s (shade env a s) v \<and> same_walk s (shade env a s) \<and> \<not> white (shade env a s) a
    \<and> (grays_known s \<longrightarrow> grays_known (shade env a s))"
  proof cases
    case w
    then have b: "blocks (shade env a s) = (blocks s)(a \<mapsto> Block Gray t fs)"
      by (simp add: shade_def set_colour_def)
    have w': "same_walk s (shade env a s)" using w by (simp add: same_walk_def shade_def)
    have "evolves s (shade env a s) v"
      using w by (auto simp: evolves_def b split: option.splits gblock.splits)
    moreover have "\<not> white (shade env a s) a" by (simp add: white_def b)
    moreover have "grays_known (shade env a s)" if "grays_known s"
      unfolding grays_known_def
    proof (intro impI allI)
      fix x assume p: "heap_is_pure (shade env a s)" and g: "gray (shade env a s) x"
      have sh: "shade env a s = push_gray env a (set_colour a Gray s)" using w by (simp add: shade_def)
      from p have "heap_is_pure s" "gray_stack (shade env a s) = a # gray_stack s"
        unfolding sh using push_gray_pure by fastforce+
      moreover have "x = a \<or> gray s x" using g by (auto simp: gray_def b split: if_splits)
      ultimately show "x \<in> set (gray_stack (shade env a s)) \<or> x \<in> pending (shade env a s)"
        using that pending_same [OF w'] by (auto simp: grays_known_def)
    qed
    ultimately show ?thesis using w' by blast
  qed (auto simp: evolves_refl)
  then show "evolves s (shade env a s) v" "same_walk s (shade env a s)" "\<not> white (shade env a s) a"
    "grays_known s \<Longrightarrow> grays_known (shade env a s)" by blast+
qed

lemma set_field_evolves:
  "evolves s (set_field v i f s) (Some v)" "same_walk s (set_field v i f s)"
  "grays_known s \<Longrightarrow> grays_known (set_field v i f s)"
proof -
  show e: "evolves s (set_field v i f s) (Some v)" "same_walk s (set_field v i f s)"
    by (auto simp: evolves_def set_field_def same_walk_def split: option.splits gblock.splits)
  have "gray (set_field v i f s) a \<Longrightarrow> gray s a" for a
    by (auto simp: gray_def set_field_def split: option.splits gblock.splits if_splits)
  then show "grays_known s \<Longrightarrow> grays_known (set_field v i f s)"
    using pending_same [OF e(2)] by (auto simp: grays_known_def)
qed

section \<open>Marking a field\<close>

text \<open>Coverage survives when fields of other blocks than guards are set.\<close>

lemma covered_evolves:
  assumes "evolves s s' v" "covered s X f"
    and "\<And>g c fs a. blocks s g = Some (Block c Forward_tag (Ptr a # fs)) \<Longrightarrow> c = Gray \<or> (g, 0) \<in> X \<Longrightarrow>
      f = Ptr a \<Longrightarrow> (\<nexists>c fs. blocks s a = Some (Block c Forward_tag fs)) \<Longrightarrow> blocks s a \<noteq> None \<Longrightarrow>
      \<not> white s' (base s' a) \<or> (\<exists>c fs. blocks s' g = Some (Block c Forward_tag (Ptr a # fs)) \<and> (c = Gray \<or> (g, 0) \<in> X'))"
  shows "covered s' X' f"
  unfolding covered_def
proof (intro allI impI)
  fix a assume f: "f = Ptr a" and "blocks s' a \<noteq> None"
  then have in_heap: "blocks s a \<noteq> None" using evolvesD(1) [OF assms(1)] by simp
  with assms(2) f consider "\<not> white s (base s a)" | "guarded s X a" by (auto simp: covered_def)
  then show "\<not> white s' (base s' a) \<or> guarded s' X' a"
  proof cases
    case 1
    then show ?thesis using evolves_white [OF assms(1)] evolves_base [OF assms(1)] by simp
  next
    case 2
    then obtain g c fs where nf: "\<nexists>c fs. blocks s a = Some (Block c Forward_tag fs)"
      and g: "blocks s g = Some (Block c Forward_tag (Ptr a # fs))" "c = Gray \<or> (g, 0) \<in> X"
      unfolding guarded_def by blast
    have "\<nexists>c fs. blocks s' a = Some (Block c Forward_tag fs)" using nf evolvesD(4) [OF assms(1)] by blast
    with assms(3) [OF g f nf in_heap] show ?thesis unfolding guarded_def by blast
  qed
qed

lemma fold_upt_invariant:
  assumes "P 0 s" "\<And>i s. i < n \<Longrightarrow> P i s \<Longrightarrow> P (Suc i) (f i s)"
  shows "P n (fold f [0..<n] s)"
  using assms by (induction n) auto

text \<open>The fields of \<open>v\<close> from \<open>i\<close> on.\<close>

definition rest_fields :: "addr \<Rightarrow> nat \<Rightarrow> nat \<Rightarrow> (addr \<times> nat) set" where
  "rest_fields v i n = {v} \<times> {i..<n}"

text \<open>Marking field \<open>i\<close> when its block is shaded and, it may be, the pointer short-circuited.\<close>

lemma tricolour_field:
  assumes tri: "tricolour s (rest_fields v i n)" and i: "i < n"
    and v: "blocks s v = Some (Block Black t fs)" "length fs = n"
    and ev: "evolves s s' (Some v)" and v': "blocks s' v = Some (Block Black t (fs[i := f]))"
    and marked: "covered s' (rest_fields v (Suc i) n) f"
    and first: "\<And>a fs'. i = 0 \<Longrightarrow> fs ! 0 = Ptr a \<Longrightarrow> blocks s a \<noteq> None \<Longrightarrow>
      (\<nexists>c fs. blocks s a = Some (Block c Forward_tag fs)) \<Longrightarrow> \<not> white s' (base s' a)"
  shows "tricolour s' (rest_fields v (Suc i) n)"
  unfolding tricolour_def
proof (intro allI impI)
  let ?X = "rest_fields v i n" and ?X' = "rest_fields v (Suc i) n"
  fix u tu fu j
  assume u: "blocks s' u = Some (Block Black tu fu)" "tu < No_scan_tag" "j < length fu" "(u, j) \<notin> ?X'"
  show "covered s' ?X' (fu ! j)"
  proof (cases "u = v \<and> j = i")
    case True
    with u(1,3) v' marked show ?thesis by auto
  next
    case False
    then have nX: "(u, j) \<notin> ?X" using u(4) by (auto simp: rest_fields_def)
    obtain fs0 where o: "blocks s u = Some (Block Black tu fs0)" "length fu = length fs0" "u \<noteq> v \<longrightarrow> fu = fs0"
      using evolvesD(4) [OF ev u(1)] by auto
    have "fu ! j = fs0 ! j"
    proof (cases "u = v")
      case True
      with o(1) v(1) u(1) v' False show ?thesis by auto
    qed (use o(3) in simp)
    then have cov: "covered s ?X (fu ! j)"
      using tri o(1,2) u(2,3) nX by (simp add: tricolour_def)
    show ?thesis
      using ev cov
    proof (rule covered_evolves)
      fix g c gs a
      assume g: "blocks s g = Some (Block c Forward_tag (Ptr a # gs))" "c = Gray \<or> (g, 0) \<in> ?X"
        and nf: "\<nexists>c fs. blocks s a = Some (Block c Forward_tag fs)" and h: "blocks s a \<noteq> None"
      show "\<not> white s' (base s' a)
          \<or> (\<exists>c fs. blocks s' g = Some (Block c Forward_tag (Ptr a # fs)) \<and> (c = Gray \<or> (g, 0) \<in> ?X'))"
      proof (cases "g = v")
        case True
        with g v(1) have "(v, 0) \<in> ?X" "fs ! 0 = Ptr a" by auto
        then have "i = 0" by (simp add: rest_fields_def)
        with first \<open>fs ! 0 = Ptr a\<close> nf h show ?thesis by blast
      next
        case False
        then have "c = Gray" using g(2) by (auto simp: rest_fields_def)
        with False evolvesD(3) [OF ev g(1)] show ?thesis by auto
      qed
    qed
  qed
qed

lemma covered_not_white:
  "\<not> white s (base s a) \<Longrightarrow> covered s X (Ptr a)"
  by (simp add: covered_def)

text \<open>What marking needs of the block and what it keeps.\<close>

definition marking :: "addr \<Rightarrow> nat \<Rightarrow> nat \<Rightarrow> nat \<Rightarrow> gc \<Rightarrow> gc \<Rightarrow> bool" where
  "marking v t n i s0 s \<longleftrightarrow>
     tricolour s (rest_fields v i n) \<and> (\<exists>fs. blocks s v = Some (Block Black t fs) \<and> length fs = n)
     \<and> evolves s0 s (Some v) \<and> same_walk s0 s \<and> (grays_known s0 \<longrightarrow> grays_known s)"

lemma free_blocks_evolves: "evolves s s' v \<Longrightarrow> free_blocks_plain s \<Longrightarrow> free_blocks_plain s'"
  unfolding free_blocks_plain_def using evolvesD(4) by fastforce

lemma mark_field_marking:
  assumes m: "marking v t n i s0 s" and i: "i < n" and t: "t < No_scan_tag" and fb: "free_blocks_plain s0"
  shows "marking v t n (Suc i) s0 (mark_field env v i s)"
proof -
  from m obtain fs where v: "blocks s v = Some (Block Black t fs)" "length fs = n"
    and tri: "tricolour s (rest_fields v i n)" and ev0: "evolves s0 s (Some v)" and w0: "same_walk s0 s"
    and gk: "grays_known s0 \<longrightarrow> grays_known s" unfolding marking_def by blast
  have fb': "free_blocks_plain s" using free_blocks_evolves [OF ev0 fb] .
  let ?s' = "mark_field env v i s" and ?X' = "rest_fields v (Suc i) n"
  have main: "tricolour ?s' ?X' \<and> (\<exists>fs. blocks ?s' v = Some (Block Black t fs) \<and> length fs = n)
      \<and> evolves s ?s' (Some v) \<and> same_walk s ?s' \<and> (grays_known s \<longrightarrow> grays_known ?s')"
  proof -
    \<comment> \<open>nothing to mark\<close>
    have idle: ?thesis if "?s' = s" "covered s ?X' (fs ! i)" "\<And>a. fs ! i = Ptr a \<Longrightarrow> blocks s a = None"
    proof -
      have "blocks s v = Some (Block Black t (fs[i := fs ! i]))" using v by simp
      then have "tricolour s ?X'"
        using that(3) by (intro tricolour_field [OF tri i v evolves_refl _ that(2)]) auto
      with that v show ?thesis by (simp add: evolves_refl)
    qed
    \<comment> \<open>a block is shaded\<close>
    have shaded: ?thesis if "?s' = shade env c s" "fs ! i = Ptr a" "base s a = c" for a c
    proof -
      note sf = shade_facts [where env = env and a = c and s = s]
      have nw: "\<not> white ?s' (base ?s' a)"
        using sf(3) evolves_base [OF sf(1)] that by simp
      have "blocks ?s' v = Some (Block Black t fs)"
        using evolvesD(3) [OF sf(1) [where v = None] v(1)] that(1) by auto
      then have v': "blocks ?s' v = Some (Block Black t (fs[i := fs ! i]))" by simp
      have "covered ?s' ?X' (fs ! i)" using nw that(2) covered_not_white by simp
      then have "tricolour ?s' ?X'"
        using sf(1) [of "Some v"] that(1,2) nw by (intro tricolour_field [OF tri i v _ v']) auto
      with sf that v' v(2) show ?thesis by auto
    qed
    show ?thesis
    proof (cases "fs ! i")
      case (Long k)
      then show ?thesis using v by (intro idle) (simp_all add: mark_field_def covered_def)
    next
      case (Ptr a)
      show ?thesis
      proof (cases "blocks s a")
        case None
        with Ptr v show ?thesis by (intro idle) (simp_all add: mark_field_def covered_def)
      next
        case (Some b)
        show ?thesis
        proof (cases b)
          case (Infix_header ofs)
          with Some Ptr v show ?thesis by (intro shaded [of "a - ofs" a]) (simp_all add: mark_field_def base_def)
        next
          case (Block ca ta fa)
          show ?thesis
          proof (cases "ta = Forward_tag \<and> fa \<noteq> [] \<and> \<not> keep_forward env s (fa ! 0)")
            case False
            with Block Some Ptr v show ?thesis by (intro shaded [of a a]) (auto simp: mark_field_def base_def)
          next
            case True
            then obtain f fr where fa: "ta = Forward_tag" "fa = f # fr" "\<not> keep_forward env s f"
              by (cases fa) auto
            let ?s1 = "set_field v i f s"
            have s': "?s' = shade env a ?s1" using Ptr Some Block v fa by (simp add: mark_field_def)
            note sf = shade_facts [where env = env and a = a and s = ?s1]
            have ev: "evolves s ?s' (Some v)"
              unfolding s' by (rule evolves_trans [OF set_field_evolves(1) sf(1)])
            have v1: "blocks ?s1 v = Some (Block Black t (fs[i := f]))" using v by (simp add: set_field_def)
            then have v': "blocks ?s' v = Some (Block Black t (fs[i := f]))"
              using evolvesD(3) [OF sf(1) [where v = None] v1] unfolding s' by auto
            have ba: "blocks s a = Some (Block ca Forward_tag (f # fr))" using Some Block fa by simp
            have nf: "\<nexists>c fs. blocks s b = Some (Block c Forward_tag fs)" if "f = Ptr b" "blocks s b \<noteq> None" for b
              using fa(3) that by (auto simp: keep_forward_def value_tag_def)
            \<comment> \<open>coverage of the value in the old state carries over\<close>
            have carry: "covered ?s' ?X' f" if "covered s (rest_fields v i n) f"
              using ev that
            proof (rule covered_evolves)
              fix g c gs b
              assume g: "blocks s g = Some (Block c Forward_tag (Ptr b # gs))" "c = Gray \<or> (g, 0) \<in> rest_fields v i n"
                and nfb: "\<nexists>c fs. blocks s b = Some (Block c Forward_tag fs)"
              have "g \<noteq> v"
              proof
                assume "g = v"
                with g v(1) have "i = 0" "fs = Ptr b # gs" by (auto simp: rest_fields_def)
                with Ptr ba nfb show False by simp
              qed
              then have "c = Gray" using g(2) by (auto simp: rest_fields_def)
              with \<open>g \<noteq> v\<close> evolvesD(3) [OF ev g(1)]
              have "\<exists>c fs. blocks ?s' g = Some (Block c Forward_tag (Ptr b # fs)) \<and> (c = Gray \<or> (g, 0) \<in> ?X')"
                by auto
              then show "\<not> white ?s' (base ?s' b) \<or>
                  (\<exists>c fs. blocks ?s' g = Some (Block c Forward_tag (Ptr b # fs)) \<and> (c = Gray \<or> (g, 0) \<in> ?X'))" ..
            qed
            have marked: "covered ?s' ?X' f"
            proof (cases "ca = Black")
              case True
              have "(a, 0) \<notin> rest_fields v i n"
              proof
                assume "(a, 0) \<in> rest_fields v i n"
                then have "a = v" "i = 0" by (auto simp: rest_fields_def)
                with v ba Ptr have "f = Ptr a" by simp
                with nf ba show False by blast
              qed
              moreover have "Forward_tag < No_scan_tag" by (simp add: tag_defs)
              ultimately have "covered s (rest_fields v i n) ((f # fr) ! 0)"
                using tri ba True unfolding tricolour_def by blast
              then show ?thesis using carry by simp
            next
              case False
              then have "a \<noteq> v" using ba v(1) by auto
              then have a1: "blocks ?s1 a = Some (Block ca Forward_tag (f # fr))"
                using ba by (simp add: set_field_def split: option.splits gblock.splits)
              have "ca \<noteq> Blue" using fb' ba by (auto simp: free_blocks_plain_def)
              have "blocks ?s' a = Some (Block Gray Forward_tag (f # fr))"
                using evolvesD(3) [OF sf(1) [where v = None] a1] sf(3) False \<open>ca \<noteq> Blue\<close>
                unfolding s' white_def by (cases ca) auto
              moreover have "\<nexists>c fs. blocks ?s' b = Some (Block c Forward_tag fs)" if "f = Ptr b" "blocks ?s' b \<noteq> None" for b
                using nf [of b] that evolvesD(1) [OF ev, of b] evolvesD(4) [OF ev, of b] by blast
              ultimately have "guarded ?s' ?X' b" if "f = Ptr b" "blocks ?s' b \<noteq> None" for b
                using that unfolding guarded_def by blast
              then show ?thesis unfolding covered_def by blast
            qed
            have "tricolour ?s' ?X'"
              using Ptr ba by (intro tricolour_field [OF tri i v ev v' marked]) auto
            moreover have "same_walk s ?s'"
              unfolding s' by (rule same_walk_trans [OF set_field_evolves(2) sf(2)])
            moreover have "grays_known s \<longrightarrow> grays_known ?s'"
              unfolding s' using set_field_evolves(3) sf(4) by blast
            ultimately show ?thesis using v' v(2) ev by auto
          qed
        qed
      qed
    qed
  qed
  with w0 gk evolves_trans [OF ev0] same_walk_trans [OF w0] show ?thesis
    unfolding marking_def by blast
qed

section \<open>Marking a block\<close>

lemma tricolour_blacken:
  assumes "tricolour s {}" "blocks s v = Some (Block c t fs)"
  shows "tricolour (set_colour v Black s) (rest_fields v 0 (length fs))"
  unfolding tricolour_def
proof (intro allI impI)
  let ?s = "set_colour v Black s" and ?X = "rest_fields v 0 (length fs)"
  have b: "blocks ?s = (blocks s)(v \<mapsto> Block Black t fs)" using assms(2) by (simp add: set_colour_def)
  fix u tu fu i
  assume u: "blocks ?s u = Some (Block Black tu fu)" "tu < No_scan_tag" "i < length fu" "(u, i) \<notin> ?X"
  then have "u \<noteq> v" by (auto simp: b rest_fields_def)
  with u b have "covered s {} (fu ! i)" using assms(1) by (simp add: tricolour_def)
  moreover have bs: "base ?s a = base s a" for a using assms(2) by (simp add: base_def b)
  moreover have "white ?s a \<Longrightarrow> white s a" for a by (auto simp: white_def b split: if_splits)
  moreover have "guarded s {} a \<Longrightarrow> guarded ?s ?X a" for a
  proof -
    assume "guarded s {} a"
    then obtain g gs where nf: "\<nexists>c fs. blocks s a = Some (Block c Forward_tag fs)"
      and g: "blocks s g = Some (Block Gray Forward_tag (Ptr a # gs))" unfolding guarded_def by blast
    have nf': "\<nexists>c fs. blocks ?s a = Some (Block c Forward_tag fs)"
      using nf assms(2) by (auto simp: b split: if_splits)
    have "\<exists>c fs. blocks ?s g = Some (Block c Forward_tag (Ptr a # fs)) \<and> (c = Gray \<or> (g, 0) \<in> ?X)"
      using g assms(2) by (auto simp: b rest_fields_def)
    with nf' show "guarded ?s ?X a" unfolding guarded_def by blast
  qed
  ultimately show "covered ?s ?X (fu ! i)"
    using assms(2) unfolding covered_def by (auto simp: b split: if_splits)
qed

text \<open>The part of the invariant that marking works on.\<close>

definition mark_inv :: "gc \<Rightarrow> bool" where
  "mark_inv s \<longleftrightarrow> tricolour s {} \<and> grays_known s \<and> free_blocks_plain s \<and> heap_shape s \<and> (\<exists>N. weak_links s N)"

text \<open>Blocks keep their places, tags and sizes, and none becomes white.\<close>

definition same_heap :: "gc \<Rightarrow> gc \<Rightarrow> bool" where
  "same_heap s s' \<longleftrightarrow>
     (\<forall>a. case blocks s a of
            None \<Rightarrow> blocks s' a = None
          | Some (Infix_header ofs) \<Rightarrow> blocks s' a = Some (Infix_header ofs)
          | Some (Block c t fs) \<Rightarrow>
              \<exists>c' fs'. blocks s' a = Some (Block c' t fs') \<and> length fs' = length fs
                \<and> (c \<noteq> White \<longrightarrow> c' \<noteq> White) \<and> (c' = Blue \<longrightarrow> c = Blue))
     \<and> heap_chunks s' = heap_chunks s"

lemma same_heapD:
  assumes "same_heap s s'"
  shows "blocks s a = None \<longleftrightarrow> blocks s' a = None"
    and "blocks s a = Some (Infix_header ofs) \<longleftrightarrow> blocks s' a = Some (Infix_header ofs)"
    and "blocks s' a = Some (Block c' t fs') \<Longrightarrow> \<exists>c fs. blocks s a = Some (Block c t fs) \<and> length fs' = length fs
      \<and> (c \<noteq> White \<longrightarrow> c' \<noteq> White) \<and> (c' = Blue \<longrightarrow> c = Blue)"
  using assms [unfolded same_heap_def, THEN conjunct1, rule_format, of a]
  by (auto split: option.splits gblock.splits)

lemma same_heap_trans: "same_heap s s' \<Longrightarrow> same_heap s' s'' \<Longrightarrow> same_heap s s''"
proof -
  assume h: "same_heap s s'" "same_heap s' s''"
  have "case blocks s a of
      None \<Rightarrow> blocks s'' a = None
    | Some (Infix_header ofs) \<Rightarrow> blocks s'' a = Some (Infix_header ofs)
    | Some (Block c t fs) \<Rightarrow>
        \<exists>c' fs'. blocks s'' a = Some (Block c' t fs') \<and> length fs' = length fs
          \<and> (c \<noteq> White \<longrightarrow> c' \<noteq> White) \<and> (c' = Blue \<longrightarrow> c = Blue)" for a
  proof -
    note 1 = h(1) [unfolded same_heap_def, THEN conjunct1, rule_format, of a]
      and 2 = h(2) [unfolded same_heap_def, THEN conjunct1, rule_format, of a]
    show ?thesis
    proof (cases "blocks s a")
      case (Some b)
      with 1 2 show ?thesis by (cases b) auto
    qed (use 1 2 in simp)
  qed
  moreover have "heap_chunks s'' = heap_chunks s" using h by (simp add: same_heap_def)
  ultimately show ?thesis unfolding same_heap_def by blast
qed

lemma same_heap_refl: "same_heap s s"
  by (auto simp: same_heap_def split: option.splits gblock.splits)

lemma evolves_same_heap: "evolves s s' v \<Longrightarrow> heap_chunks s' = heap_chunks s \<Longrightarrow> same_heap s s'"
  unfolding evolves_def same_heap_def
  by (intro conjI allI; (drule_tac x = a in spec)?) (auto split: option.splits gblock.splits)

lemma set_colour_same_heap: "c \<noteq> White \<Longrightarrow> c \<noteq> Blue \<Longrightarrow> same_heap s (set_colour a c s)"
  by (auto simp: same_heap_def set_colour_def split: option.splits gblock.splits)

lemma same_heap_base: "same_heap s s' \<Longrightarrow> base s' a = base s a"
  using same_heapD [of s s' a] unfolding base_def
  by (cases "blocks s a"; cases "blocks s' a") (auto split: gblock.splits)

lemma same_heap_white: "same_heap s s' \<Longrightarrow> \<not> white s a \<Longrightarrow> \<not> white s' a"
  unfolding white_def using same_heapD(3) by blast

lemma heap_shapeD:
  assumes "heap_shape s" "blocks s a = Some (Block c t fs)"
  shows "blocks s b = Some (Block c' t' fs') \<Longrightarrow> \<not> (a < b \<and> b \<le> a + length fs)"
    and "\<exists>(p, n)\<in>set (heap_chunks s). p < a \<and> a \<le> p + n" and "0 \<notin> fst ` set (heap_chunks s)"
  using assms unfolding heap_shape_def by blast+

lemma same_heap_shape: "same_heap s s' \<Longrightarrow> heap_shape s \<Longrightarrow> heap_shape s'"
proof -
  assume h: "same_heap s s'" and s: "heap_shape s"
  have c: "heap_chunks s' = heap_chunks s" using h by (simp add: same_heap_def)
  show "heap_shape s'"
    unfolding heap_shape_def c
  proof (intro conjI allI impI)
    fix a c t fs b c' t' fs'
    assume A: "blocks s' a = Some (Block c t fs)" and B: "blocks s' b = Some (Block c' t' fs')"
    from same_heapD(3) [OF h A] same_heapD(3) [OF h B] obtain d gs d' gs' where
      "blocks s a = Some (Block d t gs)" "length fs = length gs" "blocks s b = Some (Block d' t' gs')" by blast
    with heap_shapeD(1) [OF s, of a d t gs b d' t' gs'] show "\<not> (a < b \<and> b \<le> a + length fs)" by simp
  next
    fix a c t fs assume A: "blocks s' a = Some (Block c t fs)"
    from same_heapD(3) [OF h A] obtain d gs where "blocks s a = Some (Block d t gs)" by blast
    from heap_shapeD(2) [OF s this] show "\<exists>(p, n)\<in>set (heap_chunks s). p < a \<and> a \<le> p + n" .
  qed (use s in \<open>simp add: heap_shape_def\<close>)
qed

lemma same_heap_free: "same_heap s s' \<Longrightarrow> free_blocks_plain s \<Longrightarrow> free_blocks_plain s'"
  unfolding free_blocks_plain_def using same_heapD(3) by blast

lemma mark_block_ok:
  assumes inv: "tricolour s {}" "free_blocks_plain s"
    and known: "heap_is_pure s \<longrightarrow> (\<forall>a. gray s a \<longrightarrow> a = v \<or> a \<in> set (gray_stack s) \<or> a \<in> pending s)"
    and m: "mark_block env v s = (s', n)"
  shows "tricolour s' {} \<and> grays_known s' \<and> same_heap s s' \<and> same_walk s s'
    \<and> (\<forall>a c t fs. blocks s a = Some (Block c t fs) \<longrightarrow> No_scan_tag \<le> t \<longrightarrow> (\<exists>c'. blocks s' a = Some (Block c' t fs)))"
proof (cases "\<exists>c t fs. blocks s v = Some (Block c t fs)")
  case False
  then have "s' = s" using m by (auto simp: mark_block_def split: option.splits gblock.splits)
  moreover have "grays_known s" using known False unfolding grays_known_def gray_def by blast
  ultimately show ?thesis using inv same_heap_refl by auto
next
  case True
  then obtain c t fs where v: "blocks s v = Some (Block c t fs)" by blast
  let ?s1 = "set_colour v Black s"
  have b1: "blocks ?s1 = (blocks s)(v \<mapsto> Block Black t fs)" using v by (simp add: set_colour_def)
  have w1: "same_walk s ?s1" by (simp add: same_walk_def)
  have g1: "grays_known ?s1"
    unfolding grays_known_def pending_same [OF w1] using known by (auto simp: gray_def b1 split: if_splits)
  have h1: "same_heap s ?s1" by (rule set_colour_same_heap) simp_all
  have opaque1: "\<exists>c'. blocks ?s1 a = Some (Block c' ta fa)" if "blocks s a = Some (Block ca ta fa)" for a ca ta fa
    using that v by (auto simp: b1)
  show ?thesis
  proof (cases "t < No_scan_tag")
    case False
    then have s': "s' = ?s1" using m v by (simp add: mark_block_def Let_def)
    have nf: "t \<noteq> Forward_tag" using False by (auto simp: tag_defs)
    have g: "guarded ?s1 {} a" if "guarded ?s1 (rest_fields v 0 (length fs)) a" for a
      using that nf unfolding guarded_def b1 by (auto simp: rest_fields_def split: if_splits)
    have c: "covered ?s1 {} f" if "covered ?s1 (rest_fields v 0 (length fs)) f" for f
      using that g unfolding covered_def by blast
    have "tricolour ?s1 {}"
      unfolding tricolour_def
    proof (intro allI impI)
      fix u tu fu i
      assume u: "blocks ?s1 u = Some (Block Black tu fu)" "tu < No_scan_tag" "i < length fu"
      have "(u, i) \<notin> rest_fields v 0 (length fs)" using u(1,2) False by (auto simp: rest_fields_def b1)
      with u tricolour_blacken [OF inv(1) v] show "covered ?s1 {} (fu ! i)"
        unfolding tricolour_def by (intro c) blast
    qed
    with s' g1 h1 w1 opaque1 show ?thesis by blast
  next
    case True
    then have s': "s' = fold (mark_field env v) [0..<length fs] ?s1" using m v by (simp add: mark_block_def Let_def)
    have "marking v t (length fs) 0 ?s1 ?s1"
      using tricolour_blacken [OF inv(1) v] by (simp add: marking_def b1 evolves_refl)
    then have mk: "marking v t (length fs) (length fs) ?s1 s'"
      unfolding s'
      by (rule fold_upt_invariant) (rule mark_field_marking [OF _ _ True same_heap_free [OF h1 inv(2)]])
    then have ev: "evolves ?s1 s' (Some v)" and w: "same_walk ?s1 s'" and g: "grays_known s'"
      and tri: "tricolour s' (rest_fields v (length fs) (length fs))"
      using g1 unfolding marking_def by blast+
    have "tricolour s' {}" using tri by (simp add: rest_fields_def)
    moreover have "same_heap ?s1 s'" using evolves_same_heap [OF ev] w by (simp add: same_walk_def)
    moreover have "\<exists>c'. blocks s' a = Some (Block c' ta fa)"
      if "blocks s a = Some (Block ca ta fa)" "No_scan_tag \<le> ta" for a ca ta fa
    proof -
      have "a \<noteq> v" using that v True by auto
      then have "blocks ?s1 a = Some (Block ca ta fa)" using that(1) by (simp add: b1)
      with evolvesD(3) [OF ev this] \<open>a \<noteq> v\<close> show ?thesis by auto
    qed
    ultimately show ?thesis using g same_heap_trans [OF h1] same_walk_trans [OF w1 w] by blast
  qed
qed

section \<open>Steps of the collector\<close>

definition gc_inv :: "val set \<Rightarrow> gc \<Rightarrow> bool" where
  "gc_inv R s \<longleftrightarrow>
     tricolour s {} \<and> grays_known s \<and> free_blocks_plain s \<and> heap_shape s \<and> (\<exists>N. weak_links s N)
     \<and> (\<forall>a. Ptr a \<in> R \<longrightarrow> blocks s a \<noteq> None \<longrightarrow> \<not> white s (base s a))
     \<and> 0 \<notin> fst ` set (chunk_rest s) \<and> (phase s = Phase_sweep \<longrightarrow> (\<forall>a. \<not> gray s a))"

text \<open>What a step must show; the rest of the invariant follows.\<close>

definition opaque_kept :: "gc \<Rightarrow> gc \<Rightarrow> bool" where
  "opaque_kept s s' \<longleftrightarrow>
     (\<forall>a c t fs. blocks s a = Some (Block c t fs) \<longrightarrow> No_scan_tag \<le> t \<longrightarrow> (\<exists>c'. blocks s' a = Some (Block c' t fs)))"

lemma weak_links_kept:
  "weak_links s N \<Longrightarrow> opaque_kept s s' \<Longrightarrow> weak_list_head s' = weak_list_head s \<Longrightarrow>
   weak_prev s' \<in> {weak_prev s, None} \<Longrightarrow> weak_links s' N"
  unfolding weak_links_def opaque_kept_def by (intro conjI ballI) (blast, simp, auto)

lemma gc_invI:
  assumes "gc_inv R s" "same_heap s s'" "tricolour s' {}" "grays_known s'" "\<exists>N. weak_links s' N"
    and "0 \<notin> fst ` set (chunk_rest s')" "phase s' = Phase_sweep \<Longrightarrow> \<forall>a. \<not> gray s' a"
  shows "gc_inv R s'"
proof -
  have "\<not> white s' (base s' a)" if "Ptr a \<in> R" "blocks s' a \<noteq> None" for a
    using assms(1) that same_heapD(1) [OF assms(2)] same_heap_white [OF assms(2)] same_heap_base [OF assms(2)]
    unfolding gc_inv_def by auto
  then show ?thesis
    using assms same_heap_free [OF assms(2)] same_heap_shape [OF assms(2)] unfolding gc_inv_def by blast
qed

lemma tricolour_evolves:
  assumes "tricolour s {}" "evolves s s' None"
  shows "tricolour s' {}"
  unfolding tricolour_def
proof (intro allI impI)
  fix v t fs i assume v: "blocks s' v = Some (Block Black t fs)" "t < No_scan_tag" "i < length fs"
  then have "blocks s v = Some (Block Black t fs)" using evolvesD(4) [OF assms(2) v(1)] by auto
  with assms(1) v have "covered s {} (fs ! i)" by (simp add: tricolour_def)
  with assms(2) show "covered s' {} (fs ! i)"
  proof (rule covered_evolves)
    fix g c gs a assume g: "blocks s g = Some (Block c Forward_tag (Ptr a # gs))" "c = Gray \<or> (g, 0) \<in> {}"
    then have "blocks s' g = Some (Block Gray Forward_tag (Ptr a # gs))"
      using evolvesD(3) [OF assms(2) g(1)] by auto
    then show "\<not> white s' (base s' a)
        \<or> (\<exists>c fs. blocks s' g = Some (Block c Forward_tag (Ptr a # fs)) \<and> (c = Gray \<or> (g, 0) \<in> {}))" by blast
  qed
qed

lemma evolves_opaque: "evolves s s' None \<Longrightarrow> opaque_kept s s'"
  unfolding opaque_kept_def using evolvesD(3) [of s s' None] by fastforce

lemma blacken_opaque:
  assumes "blocks s b = Some (Block c t fs)" "No_scan_tag \<le> t"
  shows "tricolour s {} \<Longrightarrow> tricolour (set_colour b Black s) {}" "grays_known s \<Longrightarrow> grays_known (set_colour b Black s)"
    "opaque_kept s (set_colour b Black s)"
proof -
  let ?s = "set_colour b Black s"
  have b1: "blocks ?s = (blocks s)(b \<mapsto> Block Black t fs)" using assms by (simp add: set_colour_def)
  have nf: "t \<noteq> Forward_tag" using assms(2) by (auto simp: tag_defs)
  have "same_walk s ?s" by (simp add: same_walk_def)
  then show "grays_known s \<Longrightarrow> grays_known ?s"
    using pending_same by (auto simp: grays_known_def gray_def b1)
  show "opaque_kept s ?s" using assms(1) by (auto simp: opaque_kept_def b1)
  have bs: "base ?s a = base s a" for a using assms(1) by (simp add: base_def b1)
  have w: "white ?s a \<Longrightarrow> white s a" for a by (auto simp: white_def b1 split: if_splits)
  have g: "guarded ?s {} a" if "guarded s {} a" for a
  proof -
    from that obtain q qs where nfa: "\<nexists>c fs. blocks s a = Some (Block c Forward_tag fs)"
      and q: "blocks s q = Some (Block Gray Forward_tag (Ptr a # qs))" unfolding guarded_def by blast
    have "q \<noteq> b" using q assms(1) nf by auto
    then have "blocks ?s q = Some (Block Gray Forward_tag (Ptr a # qs))" using q by (simp add: b1)
    moreover have "\<nexists>c fs. blocks ?s a = Some (Block c Forward_tag fs)" using nfa nf by (simp add: b1)
    ultimately show ?thesis unfolding guarded_def by blast
  qed
  have "covered s {} f \<Longrightarrow> covered ?s {} f" for f
    unfolding covered_def using assms(1) bs w g by (auto simp: b1 split: if_splits)
  then show "tricolour s {} \<Longrightarrow> tricolour ?s {}"
    using assms(2) unfolding tricolour_def b1 by (auto split: if_splits)
qed

lemma darken_inv:
  assumes "gc_inv R s" "phase s \<noteq> Phase_sweep"
  shows "gc_inv R (caml_darken env v s)" "phase (caml_darken env v s) = phase s"
    "same_heap s (caml_darken env v s)"
    "v = Ptr a \<Longrightarrow> blocks s a \<noteq> None \<Longrightarrow> \<not> white (caml_darken env v s) (base s a)"
proof -
  obtain N where inv: "tricolour s {}" "grays_known s" "weak_links s N" "0 \<notin> fst ` set (chunk_rest s)"
    using assms(1) unfolding gc_inv_def by blast
  consider (none) "caml_darken env v s = s" "\<And>a. v = Ptr a \<Longrightarrow> blocks s a \<noteq> None \<Longrightarrow> \<not> white s (base s a)"
    | (shade) a where "v = Ptr a" "caml_darken env v s = shade env (base s a) s"
    | (opaque) a t fs where "v = Ptr a" "blocks s (base s a) = Some (Block White t fs)" "No_scan_tag \<le> t"
        "caml_darken env v s = set_colour (base s a) Black s"
  proof (cases v)
    case (Long n)
    then show ?thesis by (intro none) (simp_all add: caml_darken_def)
  next
    case (Ptr a)
    show ?thesis
    proof (cases "blocks s a = None \<or> \<not> white s (base s a)")
      case True
      with Ptr show ?thesis
        by (intro none) (auto simp: caml_darken_def Let_def white_def split: option.splits gblock.splits colour.splits)
    next
      case False
      then obtain t fs where w: "blocks s (base s a) = Some (Block White t fs)" by (auto simp: white_def)
      show ?thesis
      proof (cases "t < No_scan_tag")
        case True
        with w Ptr False show ?thesis by (intro shade [of a]) (auto simp: caml_darken_def Let_def shade_def)
      next
        case nt: False
        with w Ptr False show ?thesis by (intro opaque [of a t fs]) (auto simp: caml_darken_def Let_def)
      qed
    qed
  qed
  then have "gc_inv R (caml_darken env v s) \<and> phase (caml_darken env v s) = phase s
    \<and> same_heap s (caml_darken env v s)
    \<and> (\<forall>a. v = Ptr a \<longrightarrow> blocks s a \<noteq> None \<longrightarrow> \<not> white (caml_darken env v s) (base s a))"
  proof cases
    case none
    from none(2) have "\<forall>a. v = Ptr a \<longrightarrow> blocks s a \<noteq> None \<longrightarrow> \<not> white s (base s a)" by blast
    with assms show ?thesis unfolding none(1) by (intro conjI same_heap_refl refl)
  next
    case shade
    note sf = shade_facts [where env = env and a = "base s a" and s = s]
    have ev: "evolves s (caml_darken env v s) None" and w: "same_walk s (caml_darken env v s)"
      using sf(1,2) shade(2) by simp_all
    have h: "same_heap s (caml_darken env v s)" using evolves_same_heap [OF ev] w by (simp add: same_walk_def)
    have "weak_links (caml_darken env v s) N"
      by (rule weak_links_kept [OF inv(3) evolves_opaque [OF ev]]) (use w in \<open>simp_all add: same_walk_def\<close>)
    then have "gc_inv R (caml_darken env v s)"
      using w tricolour_evolves [OF inv(1) ev] sf(4) [OF inv(2)] shade(2) assms(2) inv(4)
      by (intro gc_invI [OF assms(1) h]) (auto simp: same_walk_def)
    then show ?thesis using h w sf(3) shade assms(2) by (auto simp: same_walk_def)
  next
    case opaque
    note bo = blacken_opaque [OF opaque(2,3)]
    have h: "same_heap s (caml_darken env v s)" unfolding opaque(4) by (rule set_colour_same_heap) simp_all
    have "weak_links (caml_darken env v s) N"
      unfolding opaque(4) by (rule weak_links_kept [OF inv(3) bo(3)]) simp_all
    then have "gc_inv R (caml_darken env v s)"
      using bo(1) [OF inv(1)] bo(2) [OF inv(2)] assms(2) inv(4) opaque(4) by (intro gc_invI [OF assms(1) h]) auto
    then show ?thesis using h opaque assms(2) by (auto simp: white_def set_colour_def)
  qed
  then show "gc_inv R (caml_darken env v s)" "phase (caml_darken env v s) = phase s"
    "same_heap s (caml_darken env v s)"
    "v = Ptr a \<Longrightarrow> blocks s a \<noteq> None \<Longrightarrow> \<not> white (caml_darken env v s) (base s a)" by blast+
qed

lemma darken_all_inv:
  assumes "gc_inv R s" "phase s \<noteq> Phase_sweep"
  shows "gc_inv R (fold (caml_darken env) vs s) \<and> phase (fold (caml_darken env) vs s) = phase s
    \<and> same_heap s (fold (caml_darken env) vs s)
    \<and> (\<forall>a. Ptr a \<in> set vs \<longrightarrow> blocks s a \<noteq> None \<longrightarrow> \<not> white (fold (caml_darken env) vs s) (base s a))"
  using assms
proof (induction vs arbitrary: s)
  case (Cons v vs)
  let ?s = "caml_darken env v s"
  note d = darken_inv [OF Cons.prems, where env = env and v = v]
  have p: "phase ?s \<noteq> Phase_sweep" using d(2) Cons.prems(2) by simp
  note i = Cons.IH [OF d(1) p]
  have h: "same_heap s (fold (caml_darken env) vs ?s)" using same_heap_trans [OF d(3)] i by blast
  have "\<not> white (fold (caml_darken env) vs ?s) (base s a)" if "Ptr a \<in> set (v # vs)" "blocks s a \<noteq> None" for a
  proof (cases "v = Ptr a")
    case True
    then show ?thesis using d(4) that(2) same_heap_white i by blast
  next
    case False
    then have "Ptr a \<in> set vs" using that(1) by auto
    then show ?thesis using i that(2) same_heapD(1) [OF d(3)] same_heap_base [OF d(3)] by metis
  qed
  with i h d(2) show ?case by simp
qed (simp add: same_heap_refl)

section \<open>Weak arrays and finalisation\<close>

text \<open>Fields of a block that is not scanned are changed, the first one at most to a value of \<open>M\<close>.\<close>

definition weak_update :: "addr \<Rightarrow> val set \<Rightarrow> gc \<Rightarrow> gc \<Rightarrow> bool" where
  "weak_update cur M s s' \<longleftrightarrow>
     (\<exists>c t fs fs'. blocks s cur = Some (Block c t fs) \<and> No_scan_tag \<le> t \<and> length fs' = length fs
        \<and> s' = s\<lparr>blocks := (blocks s)(cur \<mapsto> Block c t fs')\<rparr> \<and> (fs \<noteq> [] \<longrightarrow> fs' ! 0 \<in> insert (fs ! 0) M))"

lemma weak_update_refl: "blocks s cur = Some (Block c t fs) \<Longrightarrow> No_scan_tag \<le> t \<Longrightarrow> weak_update cur M s s"
  unfolding weak_update_def by (intro exI [of _ c] exI [of _ t] exI [of _ fs]) (simp add: fun_upd_idem)

lemma weak_update_trans:
  assumes "weak_update cur M s s'" "weak_update cur M s' s''"
  shows "weak_update cur M s s''"
proof -
  from assms(1) obtain c t fs fs' where a: "blocks s cur = Some (Block c t fs)" "No_scan_tag \<le> t"
    "length fs' = length fs" "s' = s\<lparr>blocks := (blocks s)(cur \<mapsto> Block c t fs')\<rparr>" "fs \<noteq> [] \<longrightarrow> fs' ! 0 \<in> insert (fs ! 0) M"
    unfolding weak_update_def by blast
  from assms(2) obtain c' t' gs gs' where b: "blocks s' cur = Some (Block c' t' gs)" "length gs' = length gs"
    "s'' = s'\<lparr>blocks := (blocks s')(cur \<mapsto> Block c' t' gs')\<rparr>" "gs \<noteq> [] \<longrightarrow> gs' ! 0 \<in> insert (gs ! 0) M"
    unfolding weak_update_def by blast
  from a(4) b(1) have e: "c' = c" "t' = t" "gs = fs'" by simp_all
  have "fs \<noteq> [] \<longrightarrow> fs' \<noteq> []" using a(3) by (cases fs) auto
  with a b e have "length gs' = length fs" "s'' = s\<lparr>blocks := (blocks s)(cur \<mapsto> Block c t gs')\<rparr>"
    "fs \<noteq> [] \<longrightarrow> gs' ! 0 \<in> insert (fs ! 0) M" by auto
  with a(1,2) show ?thesis unfolding weak_update_def by blast
qed

lemma set_field_weak:
  assumes "blocks s cur = Some (Block c t fs)" "No_scan_tag \<le> t" "0 < i"
  shows "weak_update cur M s (set_field cur i f s)"
  unfolding weak_update_def
  by (intro exI [of _ c] exI [of _ t] exI [of _ fs] exI [of _ "fs[i := f]"]) (use assms in \<open>simp add: set_field_def\<close>)

lemma weak_clear_weak:
  assumes "blocks s cur = Some (Block c t fs)" "No_scan_tag \<le> t" "0 < i"
  shows "weak_update cur M s (weak_clear env cur i f s)"
  using set_field_weak [OF assms] weak_update_refl [OF assms(1,2)] by (auto simp: weak_clear_def split: val.splits)

lemma weak_field_weak:
  assumes "blocks s cur = Some (Block c t fs)" "No_scan_tag \<le> t" "0 < i"
  shows "weak_update cur M s (weak_field env cur i s)"
proof -
  have two: "weak_update cur M s (weak_clear env cur i f (set_field cur i f s))" for f
  proof -
    have "blocks (set_field cur i f s) cur = Some (Block c t (fs[i := f]))" using assms(1) by (simp add: set_field_def)
    from weak_clear_weak [OF this assms(2,3)] set_field_weak [OF assms] show ?thesis by (rule weak_update_trans [rotated])
  qed
  show ?thesis
    using assms(1) two weak_clear_weak [OF assms] weak_update_refl [OF assms(1,2)]
    by (auto simp: weak_field_def split: val.splits option.splits gblock.splits list.splits)
qed

lemma weak_fields_weak:
  assumes "blocks s cur = Some (Block c t fs)" "No_scan_tag \<le> t"
  shows "weak_update cur M s (fold (weak_field env cur) [1..<n] s)"
proof (induction n)
  case (Suc n)
  show ?case
  proof (cases "1 \<le> n")
    case True
    from Suc obtain c' fs' where "blocks (fold (weak_field env cur) [1..<n] s) cur = Some (Block c' t fs')"
      using assms(1) by (auto simp: weak_update_def)
    from weak_field_weak [OF this assms(2)] True Suc show ?thesis
      by (auto intro: weak_update_trans)
  qed (use weak_update_refl [OF assms] in simp)
qed (use weak_update_refl [OF assms] in simp)

lemma weak_update_ok:
  assumes "weak_update cur M s s'"
  shows "same_heap s s'" "tricolour s {} \<Longrightarrow> tricolour s' {}" "grays_known s \<Longrightarrow> grays_known s'"
    "same_walk s s'" "M \<subseteq> Ptr ` insert 0 N \<Longrightarrow> weak_links s N \<Longrightarrow> weak_links s' N"
proof -
  from assms obtain c t fs fs' where w: "blocks s cur = Some (Block c t fs)" "No_scan_tag \<le> t" "length fs' = length fs"
    "s' = s\<lparr>blocks := (blocks s)(cur \<mapsto> Block c t fs')\<rparr>" "fs \<noteq> [] \<longrightarrow> fs' ! 0 \<in> insert (fs ! 0) M"
    unfolding weak_update_def by blast
  have b: "blocks s' = (blocks s)(cur \<mapsto> Block c t fs')" using w(4) by simp
  have nf: "t \<noteq> Forward_tag" using w(2) by (auto simp: tag_defs)
  have "case blocks s a of None \<Rightarrow> blocks s' a = None
      | Some (Infix_header ofs) \<Rightarrow> blocks s' a = Some (Infix_header ofs)
      | Some (Block c t fs) \<Rightarrow> \<exists>c' fs'. blocks s' a = Some (Block c' t fs') \<and> length fs' = length fs
          \<and> (c \<noteq> White \<longrightarrow> c' \<noteq> White) \<and> (c' = Blue \<longrightarrow> c = Blue)" for a
    unfolding b using w(1,3) by (cases "a = cur") (simp_all split: option.split gblock.split)
  then show "same_heap s s'" using w(4) unfolding same_heap_def by simp
  show sw: "same_walk s s'" using w(4) by (simp add: same_walk_def)
  then show "grays_known s \<Longrightarrow> grays_known s'"
    using pending_same [OF sw] w by (auto simp: grays_known_def gray_def)
  have bs: "base s' a = base s a" for a using w(1) by (simp add: base_def b)
  have wh: "white s' a \<longleftrightarrow> white s a" for a using w(1) by (auto simp: white_def b)
  have g: "guarded s' {} a" if "guarded s {} a" for a
  proof -
    from that obtain q qs where nfa: "\<nexists>c fs. blocks s a = Some (Block c Forward_tag fs)"
      and q: "blocks s q = Some (Block Gray Forward_tag (Ptr a # qs))" unfolding guarded_def by blast
    have "q \<noteq> cur" using q w(1) nf by auto
    then have "blocks s' q = Some (Block Gray Forward_tag (Ptr a # qs))" using q by (simp add: b)
    moreover have "\<nexists>c fs. blocks s' a = Some (Block c Forward_tag fs)" using nfa nf by (simp add: b)
    ultimately show ?thesis unfolding guarded_def by blast
  qed
  have "covered s {} f \<Longrightarrow> covered s' {} f" for f
    unfolding covered_def using w(1) bs wh g by (auto simp: b split: if_splits)
  then show "tricolour s {} \<Longrightarrow> tricolour s' {}"
    using w(2) unfolding tricolour_def b by (auto split: if_splits)
  show "M \<subseteq> Ptr ` insert 0 N \<Longrightarrow> weak_links s N \<Longrightarrow> weak_links s' N"
    unfolding weak_links_def
  proof (elim conjE, intro conjI ballI)
    fix a assume M: "M \<subseteq> Ptr ` insert 0 N" and "\<forall>a\<in>N. \<exists>c t f fs. blocks s a = Some (Block c t (f # fs)) \<and> No_scan_tag \<le> t \<and> f \<in> Ptr ` insert 0 N"
      and "a \<in> N"
    then obtain ca ta f gs where a: "blocks s a = Some (Block ca ta (f # gs))" "No_scan_tag \<le> ta" "f \<in> Ptr ` insert 0 N"
      by blast
    show "\<exists>c t f fs. blocks s' a = Some (Block c t (f # fs)) \<and> No_scan_tag \<le> t \<and> f \<in> Ptr ` insert 0 N"
    proof (cases "a = cur")
      case True
      with a w obtain f' gs' where "fs' = f' # gs'" "f' \<in> insert f M" by (cases fs') auto
      with True a w(1) M show ?thesis by (auto simp: b)
    qed (use a b in auto)
  qed (use w(4) in simp_all)
qed

lemma final_update_inv:
  assumes "gc_inv R s" "phase s = Phase_mark"
  shows "gc_inv R (caml_final_update env s) \<and> phase (caml_final_update env s) = Phase_mark
    \<and> same_heap s (caml_final_update env s)"
proof -
  have f: "fold (\<lambda>(fn, v, ofs). caml_darken env v) xs s = fold (caml_darken env) (map (\<lambda>(fn, v, ofs). v) xs) s"
    for xs :: "(val \<times> val \<times> nat) list" and s
    by (induction xs arbitrary: s) auto
  have t: "gc_inv R (s\<lparr>final_table := x, to_do := y\<rparr>)" "same_heap s (s\<lparr>final_table := x, to_do := y\<rparr>)" for x y
  proof -
    let ?s = "s\<lparr>final_table := x, to_do := y\<rparr>"
    have b: "blocks ?s = blocks s" "heap_chunks ?s = heap_chunks s" by simp_all
    show h: "same_heap s ?s" using same_heap_refl [of s] unfolding same_heap_def b .
    have "tricolour ?s {} = tricolour s {}"
      by (simp add: tricolour_def covered_def guarded_def white_def base_def)
    moreover have "grays_known ?s = grays_known s" by (simp add: grays_known_def gray_def pending_def)
    moreover have "weak_links ?s N = weak_links s N" for N by (simp add: weak_links_def)
    ultimately show "gc_inv R ?s" using assms by (intro gc_invI [OF assms(1) h]) (auto simp: gc_inv_def)
  qed
  show ?thesis
  proof (cases "\<exists>(fn, v, ofs)\<in>set (final_table s). (case v of Ptr a \<Rightarrow> is_white s a | Long n \<Rightarrow> False)")
    case True
    define x where "x = lefts (map (final_move env s) (final_table s))"
    define y where "y = to_do s @ rights (map (final_move env s) (final_table s))"
    define vs where "vs = map (\<lambda>(fn, v, ofs). v) (rights (map (final_move env s) (final_table s)))"
    have e: "caml_final_update env s = fold (caml_darken env) vs (s\<lparr>final_table := x, to_do := y\<rparr>)"
      using True unfolding caml_final_update_def Let_def f x_def y_def vs_def by simp
    from darken_all_inv [OF t(1), of y x env vs] assms(2) same_heap_trans [OF t(2) [of y x]]
    show ?thesis unfolding e by simp
  next
    case False
    then show ?thesis using assms same_heap_refl unfolding caml_final_update_def by simp
  qed
qed


section \<open>A step keeps the invariant\<close>

lemma weak_current_known:
  assumes "weak_links s N" "weak_current s = Ptr cur" "cur \<noteq> 0"
  shows "cur \<in> N" "\<exists>c t f fs. blocks s cur = Some (Block c t (f # fs)) \<and> No_scan_tag \<le> t \<and> f \<in> Ptr ` insert 0 N"
proof -
  show "cur \<in> N"
  proof (cases "weak_prev s")
    case None
    then show ?thesis using assms by (auto simp: weak_links_def weak_current_def)
  next
    case (Some p)
    then have "p \<in> N" using assms(1) by (simp add: weak_links_def)
    then obtain c t f fs where "blocks s p = Some (Block c t (f # fs))" "f \<in> Ptr ` insert 0 N"
      using assms(1) unfolding weak_links_def by blast
    then show ?thesis using assms Some by (auto simp: weak_current_def)
  qed
  then show "\<exists>c t f fs. blocks s cur = Some (Block c t (f # fs)) \<and> No_scan_tag \<le> t \<and> f \<in> Ptr ` insert 0 N"
    using assms(1) unfolding weak_links_def by blast
qed

text \<open>Steps that only move the walk, the subphase or the position in the list of weak arrays.\<close>

lemma gc_inv_move:
  assumes "gc_inv R s" "phase s = Phase_mark"
    and "blocks s' = blocks s" "heap_chunks s' = heap_chunks s" "0 \<notin> fst ` set (chunk_rest s')"
    and "\<exists>N. weak_links s' N" "grays_known s'" "phase s' = Phase_sweep \<Longrightarrow> \<forall>a. \<not> gray s a"
  shows "gc_inv R s' \<and> same_heap s s'"
proof -
  have h: "same_heap s s'" using same_heap_refl [of s] unfolding same_heap_def assms(3,4) .
  have "tricolour s {}" using assms(1) by (simp add: gc_inv_def)
  then have "tricolour s' {}" unfolding tricolour_def covered_def guarded_def white_def base_def assms(3) .
  moreover have "gray s' a = gray s a" for a unfolding gray_def assms(3) ..
  ultimately show ?thesis using gc_invI [OF assms(1) h] assms(5-8) h by blast
qed

lemma gc_invD:
  assumes "gc_inv R s"
  shows "tricolour s {}" "grays_known s" "free_blocks_plain s" "heap_shape s" "\<exists>N. weak_links s N"
    "0 \<notin> fst ` set (chunk_rest s)"
  using assms unfolding gc_inv_def by blast+

lemma pop_step:
  assumes "gc_inv R s" "phase s = Phase_mark" "gray_stack s = v # rest"
    and m: "mark_block env v (s\<lparr>gray_stack := rest\<rparr>) = (s', n)"
  shows "gc_inv R s' \<and> same_heap s s'"
proof -
  let ?s = "s\<lparr>gray_stack := rest\<rparr>"
  note inv = gc_invD [OF assms(1)]
  have b: "blocks ?s = blocks s" "heap_chunks ?s = heap_chunks s" by simp_all
  have "tricolour ?s {}" using inv(1) unfolding tricolour_def covered_def guarded_def white_def base_def b .
  moreover have "free_blocks_plain ?s" using inv(3) unfolding free_blocks_plain_def b .
  moreover have "heap_is_pure ?s \<longrightarrow> (\<forall>a. gray ?s a \<longrightarrow> a = v \<or> a \<in> set (gray_stack ?s) \<or> a \<in> pending ?s)"
  proof -
    have "gray ?s a = gray s a" for a unfolding gray_def b ..
    moreover have "pending ?s = pending s" by (simp add: pending_def)
    ultimately show ?thesis using inv(2) assms(3) unfolding grays_known_def by simp
  qed
  ultimately have k: "tricolour s' {}" "grays_known s'" "same_heap ?s s'" "same_walk ?s s'" "opaque_kept ?s s'"
    using mark_block_ok [OF _ _ _ m] unfolding opaque_kept_def by blast+
  have h: "same_heap s s'" using k(3) unfolding same_heap_def b .
  obtain N where "weak_links s N" using inv(5) by blast
  then have "weak_links ?s N" by (simp add: weak_links_def)
  from weak_links_kept [OF this k(5)] k(4) have "weak_links s' N" by (simp add: same_walk_def)
  then show ?thesis
    using k(1,2,4) h inv(6) assms(2) by (intro conjI gc_invI [OF assms(1) h]) (auto simp: same_walk_def)
qed

text \<open>The walk over the heap.\<close>

lemma walk_known:
  assumes "gc_inv R s" "gray_stack s = []" "markhp s \<noteq> 0" "heap_is_pure s" "gray s a"
  shows "markhp s < a \<and> a \<le> limit s \<or> (\<exists>(c, n)\<in>set (chunk_rest s). c < a \<and> a \<le> c + n)"
  using gc_invD(2) [OF assms(1)] assms(2-) by (auto simp: grays_known_def pending_def)

lemma walk_chunk_step:
  assumes "gc_inv R s" "phase s = Phase_mark" "gray_stack s = []" "markhp s \<noteq> 0" "markhp s = limit s"
  shows "chunk_rest s = [] \<Longrightarrow> gc_inv R (s\<lparr>markhp := 0\<rparr>) \<and> same_heap s (s\<lparr>markhp := 0\<rparr>)"
    and "chunk_rest s = (c, n) # cs \<Longrightarrow> gc_inv R (s\<lparr>markhp := c, limit := c + n, chunk_rest := cs\<rparr>)
      \<and> same_heap s (s\<lparr>markhp := c, limit := c + n, chunk_rest := cs\<rparr>)"
proof -
  note inv = gc_invD [OF assms(1)]
  obtain N where N: "weak_links s N" using inv(5) by blast
  note wk = walk_known [OF assms(1,3,4)]
  {
    assume "chunk_rest s = []"
    then have "\<not> gray s a" if "heap_is_pure s" for a using wk [OF that, of a] assms(5) by fastforce
    then have "grays_known (s\<lparr>markhp := 0\<rparr>)" by (auto simp: grays_known_def gray_def)
    moreover have "weak_links (s\<lparr>markhp := 0\<rparr>) N" using N by (simp add: weak_links_def)
    ultimately show "gc_inv R (s\<lparr>markhp := 0\<rparr>) \<and> same_heap s (s\<lparr>markhp := 0\<rparr>)"
      using assms(2) inv(6) by (intro gc_inv_move [OF assms(1,2)]) auto
  next
    let ?s = "s\<lparr>markhp := c, limit := c + n, chunk_rest := cs\<rparr>"
    assume r: "chunk_rest s = (c, n) # cs"
    then have "c \<noteq> 0" using inv(6) by force
    have "a \<in> pending ?s" if "heap_is_pure s" "gray s a" for a
      using wk [OF that] assms(5) r \<open>c \<noteq> 0\<close> by (auto simp: pending_def)
    then have "grays_known ?s" by (auto simp: grays_known_def gray_def)
    moreover have "weak_links ?s N" using N by (simp add: weak_links_def)
    ultimately show "gc_inv R ?s \<and> same_heap s ?s"
      using assms(2) inv(6) r by (intro gc_inv_move [OF assms(1,2)]) auto
  }
qed

lemma walk_block_step:
  assumes "gc_inv R s" "phase s = Phase_mark" "gray_stack s = []" "markhp s \<noteq> 0"
    and b: "blocks s (markhp s + 1) = Some (Block c t fs)"
    and s': "s' = s\<lparr>gray_stack := (if c = Gray then [markhp s + 1] else []), markhp := markhp s + 1 + length fs\<rparr>"
  shows "gc_inv R s' \<and> same_heap s s'"
proof -
  note inv = gc_invD [OF assms(1)]
  obtain N where N: "weak_links s N" using inv(5) by blast
  have bs: "blocks s' = blocks s" and p: "heap_is_pure s' = heap_is_pure s" using s' by simp_all
  have "a \<in> set (gray_stack s') \<or> a \<in> pending s'" if "heap_is_pure s" "gray s a" for a
  proof -
    from that(2) obtain t' gs where a: "blocks s a = Some (Block Gray t' gs)" by (auto simp: gray_def)
    have no: "\<not> (markhp s + 1 < a \<and> a \<le> markhp s + 1 + length fs)" using heap_shapeD(1) [OF inv(4) b a] .
    show ?thesis
    proof (cases "a = markhp s + 1")
      case True
      then have "c = Gray" using a b by simp
      then show ?thesis using True s' by simp
    next
      case False
      with walk_known [OF assms(1,3,4) that] no show ?thesis by (auto simp: pending_def s')
    qed
  qed
  then have "grays_known s'" unfolding grays_known_def gray_def bs p by blast
  moreover have "weak_links s' N" using N by (simp add: weak_links_def s')
  ultimately show ?thesis
    using assms(2) inv(6) by (intro gc_inv_move [OF assms(1,2) bs]) (auto simp: s')
qed

lemma restart_step:
  assumes "gc_inv R s" "phase s = Phase_mark" "heap_chunks s = (c, n) # cs"
    and s': "s' = s\<lparr>heap_is_pure := True, markhp := c, limit := c + n, chunk_rest := cs\<rparr>"
  shows "gc_inv R s' \<and> same_heap s s'"
proof -
  note inv = gc_invD [OF assms(1)]
  obtain N where N: "weak_links s N" using inv(5) by blast
  have c: "c \<noteq> 0" "0 \<notin> fst ` set cs" using inv(4) assms(3) by (auto simp: heap_shape_def)
  have bs: "blocks s' = blocks s" using s' by simp
  have "a \<in> pending s'" if "gray s a" for a
  proof -
    from that obtain t gs where "blocks s a = Some (Block Gray t gs)" by (auto simp: gray_def)
    from heap_shapeD(2) [OF inv(4) this] assms(3) c(1) show ?thesis by (auto simp: pending_def s')
  qed
  then have "grays_known s'" unfolding grays_known_def gray_def bs by blast
  moreover have "weak_links s' N" using N by (simp add: weak_links_def s')
  ultimately show ?thesis
    using assms(2) c(2) by (intro gc_inv_move [OF assms(1,2) bs]) (auto simp: s')
qed

text \<open>The subphases; no block is gray when they are looked at.\<close>

lemma subphase_idle:
  assumes "gc_inv R s" "gray_stack s = []" "markhp s = 0" "heap_is_pure s"
  shows "\<not> gray s a"
  using gc_invD(2) [OF assms(1)] assms(2-) by (auto simp: grays_known_def pending_def)

lemma no_gray_known: "blocks s' = blocks s \<Longrightarrow> (\<And>a. \<not> gray s a) \<Longrightarrow> grays_known s'"
  by (simp add: grays_known_def gray_def)

lemma weak_update_inv:
  assumes "gc_inv R s" "phase s = Phase_mark" "weak_update cur M s s'" "weak_links s N" "M \<subseteq> Ptr ` insert 0 N"
  shows "gc_inv R s'" "same_heap s s'" "phase s' = Phase_mark" "weak_links s' N"
proof -
  note inv = gc_invD [OF assms(1)] and ok = weak_update_ok [OF assms(3)]
  show h: "same_heap s s'" and l: "weak_links s' N" using ok(1,5) assms(4,5) by blast+
  have w: "phase s' = phase s" "chunk_rest s' = chunk_rest s" using ok(4) by (simp_all add: same_walk_def)
  show "phase s' = Phase_mark" using w(1) assms(2) by simp
  show "gc_inv R s'"
    using ok(2) [OF inv(1)] ok(3) [OF inv(2)] l inv(6) w assms(2) by (intro gc_invI [OF assms(1) h]) auto
qed

lemma weak1_step:
  assumes "gc_inv R s" "phase s = Phase_mark" "gray_stack s = []" "markhp s = 0" "heap_is_pure s"
    and cur: "weak_current s = Ptr cur" "cur \<noteq> 0" and b: "blocks s cur = Some (Block c t fs)"
    and s': "s' = (fold (weak_field env cur) [1..<length fs] s)\<lparr>weak_prev := Some cur\<rparr>"
  shows "gc_inv R s' \<and> same_heap s s'"
proof -
  note inv = gc_invD [OF assms(1)]
  obtain N where N: "weak_links s N" using inv(5) by blast
  have k: "cur \<in> N" "No_scan_tag \<le> t" using weak_current_known [OF N cur] b by auto
  let ?s = "fold (weak_field env cur) [1..<length fs] s"
  have "weak_update cur {} s ?s" using weak_fields_weak [OF b k(2)] .
  note u = weak_update_inv [OF assms(1,2) this N empty_subsetI]
  have bs: "blocks s' = blocks ?s" using s' by simp
  have "weak_links s' N" using u(4) k(1) by (simp add: weak_links_def s')
  moreover have "grays_known s'"
  proof -
    have "gray s' a = gray ?s a" "pending s' = pending ?s" "heap_is_pure s' = heap_is_pure ?s"
      "gray_stack s' = gray_stack ?s" for a
      using s' by (simp_all add: gray_def pending_def)
    then show ?thesis using gc_invD(2) [OF u(1)] unfolding grays_known_def by simp
  qed
  ultimately have "gc_inv R s' \<and> same_heap ?s s'"
    using u(3) gc_invD(6) [OF u(1)] by (intro gc_inv_move [OF u(1,3) bs]) (auto simp: s')
  then show ?thesis using same_heap_trans [OF u(2)] by blast
qed

lemma weak2_step:
  assumes "gc_inv R s" "phase s = Phase_mark" "gray_stack s = []" "markhp s = 0" "heap_is_pure s"
    and cur: "weak_current s = Ptr cur" "cur \<noteq> 0" and b: "blocks s cur = Some (Block c t (f # fs))"
    and s': "s' = (if c = White then set_weak_current f s else s\<lparr>weak_prev := Some cur\<rparr>)"
  shows "gc_inv R s' \<and> same_heap s s'"
proof -
  note inv = gc_invD [OF assms(1)] and ng = subphase_idle [OF assms(1,3-5)]
  obtain N where N: "weak_links s N" using inv(5) by blast
  have k: "cur \<in> N" "f \<in> Ptr ` insert 0 N" using weak_current_known [OF N cur] b by auto
  consider (drop_head) "s' = s\<lparr>weak_list_head := f\<rparr>" | (next_block) "s' = s\<lparr>weak_prev := Some cur\<rparr>"
    | (drop) p where "weak_prev s = Some p" "s' = set_field p 0 f s"
    using s' by (auto simp: set_weak_current_def split: if_splits option.splits)
  then show ?thesis
  proof cases
    case drop_head
    have "weak_links s' N" using N k by (simp add: weak_links_def drop_head)
    then show ?thesis
      using assms(2) inv(6) by (intro gc_inv_move [OF assms(1,2)] no_gray_known [OF _ ng]) (auto simp: drop_head)
  next
    case next_block
    have "weak_links s' N" using N k by (simp add: weak_links_def next_block)
    then show ?thesis
      using assms(2) inv(6) by (intro gc_inv_move [OF assms(1,2)] no_gray_known [OF _ ng]) (auto simp: next_block)
  next
    case drop
    then have "p \<in> N" using N by (simp add: weak_links_def)
    then obtain cp tp fp gs where p: "blocks s p = Some (Block cp tp (fp # gs))" "No_scan_tag \<le> tp"
      using N unfolding weak_links_def by blast
    have "weak_update p {f} s s'"
      unfolding weak_update_def drop(2)
      by (intro exI [of _ cp] exI [of _ tp] exI [of _ "fp # gs"] exI [of _ "f # gs"]) (use p in \<open>simp add: set_field_def\<close>)
    from weak_update_inv [OF assms(1,2) this N] k(2) show ?thesis by simp
  qed
qed

lemma to_subphase:
  assumes "gc_inv R s" "phase s = Phase_mark"
    and "s' = s\<lparr>subphase := x, weak_prev := None\<rparr> \<or> s' = s\<lparr>subphase := x\<rparr> \<or> s' = s\<lparr>phase := Phase_sweep\<rparr> \<and> (\<forall>a. \<not> gray s a)"
  shows "gc_inv R s' \<and> same_heap s s'"
proof -
  note inv = gc_invD [OF assms(1)]
  obtain N where "weak_links s N" using inv(5) by blast
  with assms(3) have "weak_links s' N" by (auto simp: weak_links_def)
  moreover have "gray s' a = gray s a" "pending s' = pending s" "heap_is_pure s' = heap_is_pure s"
    "gray_stack s' = gray_stack s" for a
    using assms(3) by (auto simp: gray_def pending_def)
  then have "grays_known s'" using inv(2) unfolding grays_known_def by simp
  ultimately show ?thesis
    using assms(2,3) inv(6) by (intro gc_inv_move [OF assms(1,2)]) auto
qed

lemma mark_step_inv:
  assumes "gc_inv R s" "phase s = Phase_mark" "mark_step env s = Some (s', n)"
  shows "gc_inv R s' \<and> same_heap s s'"
proof (cases "gray_stack s")
  case (Cons v rest)
  then obtain k where "mark_block env v (s\<lparr>gray_stack := rest\<rparr>) = (s', k)"
    using assms(3) by (auto simp: mark_step_def split: prod.splits)
  from pop_step [OF assms(1,2) Cons this] show ?thesis .
next
  case Nil
  note step = assms(3) [unfolded mark_step_def Nil, simplified]
  consider (walk) "markhp s \<noteq> 0" | (impure) "markhp s = 0" "\<not> heap_is_pure s" | (pure) "markhp s = 0" "heap_is_pure s"
    by blast
  then show ?thesis
  proof cases
    case walk
    show ?thesis
    proof (cases "markhp s = limit s")
      case True
      show ?thesis
        using step walk True walk_chunk_step [OF assms(1,2) Nil walk True]
        by (cases "chunk_rest s") (auto split: prod.splits)
    next
      case False
      then obtain c t fs where "blocks s (markhp s + 1) = Some (Block c t fs)"
        and "s' = s\<lparr>gray_stack := (if c = Gray then [markhp s + 1] else []), markhp := markhp s + 1 + length fs\<rparr>"
        using step walk Nil by (auto simp: Let_def split: option.splits gblock.splits if_splits)
      from walk_block_step [OF assms(1,2) Nil walk this] show ?thesis .
    qed
  next
    case impure
    then obtain c k cs where "heap_chunks s = (c, k) # cs"
      and "s' = s\<lparr>heap_is_pure := True, markhp := c, limit := c + k, chunk_rest := cs\<rparr>"
      using step by (auto split: list.splits)
    from restart_step [OF assms(1,2) this] show ?thesis .
  next
    case pure
    note ng = subphase_idle [OF assms(1) Nil pure]
    show ?thesis
    proof (cases "subphase s")
      case Subphase_main
      with step pure show ?thesis by (intro to_subphase [OF assms(1,2)]) auto
    next
      case Subphase_weak1
      with step pure obtain cur where cur: "weak_current s = Ptr cur" by (auto split: val.splits)
      show ?thesis
      proof (cases "cur = 0")
        case True
        with step pure Subphase_weak1 cur show ?thesis by (intro to_subphase [OF assms(1,2)]) auto
      next
        case False
        with step pure Subphase_weak1 cur obtain c t fs where "blocks s cur = Some (Block c t fs)"
          and "s' = (fold (weak_field env cur) [1..<length fs] s)\<lparr>weak_prev := Some cur\<rparr>"
          by (auto split: option.splits gblock.splits)
        from weak1_step [OF assms(1,2) Nil pure cur False this] show ?thesis .
      qed
    next
      case Subphase_weak2
      with step pure obtain cur where cur: "weak_current s = Ptr cur" by (auto split: val.splits)
      show ?thesis
      proof (cases "cur = 0")
        case True
        with step pure Subphase_weak2 cur have s': "s' = (caml_final_update env s)\<lparr>subphase := Subphase_final\<rparr>" by auto
        note f = final_update_inv [OF assms(1,2), where env = env]
        have "gc_inv R s' \<and> same_heap (caml_final_update env s) s'"
          using f s' by (intro to_subphase [where x = Subphase_final]) auto
        then show ?thesis using f same_heap_trans by blast
      next
        case False
        with step pure Subphase_weak2 cur obtain c t f fs where "blocks s cur = Some (Block c t (f # fs))"
          and "s' = (if c = White then set_weak_current f s else s\<lparr>weak_prev := Some cur\<rparr>)"
          by (auto split: option.splits gblock.splits list.splits)
        from weak2_step [OF assms(1,2) Nil pure cur False this] show ?thesis .
      qed
    next
      case Subphase_final
      with step pure ng show ?thesis by (intro to_subphase [OF assms(1,2)]) auto
    qed
  qed
qed

section \<open>A cycle\<close>

text \<open>
  A step of the marking phase: a turn of the loop of \<open>mark_slice\<close>, or a value the program
  darkens in between (\<open>caml_modify\<close> darkens the old value of a field).
\<close>

definition gc_step :: "gc_env \<Rightarrow> gc \<Rightarrow> gc \<Rightarrow> bool" where
  "gc_step env s s' \<longleftrightarrow>
     phase s = Phase_mark \<and> ((\<exists>n. mark_step env s = Some (s', n)) \<or> (\<exists>v. s' = caml_darken env v s))"

text \<open>The heap between two cycles, when \<open>start_cycle\<close> may be called.\<close>

definition idle_heap :: "gc \<Rightarrow> bool" where
  "idle_heap s \<longleftrightarrow>
     phase s = Phase_idle \<and> gray_stack s = [] \<and> markhp s = 0 \<and> 0 \<notin> fst ` set (chunk_rest s)
     \<and> (\<forall>a c t fs. blocks s a = Some (Block c t fs) \<longrightarrow> c = White \<or> c = Blue)
     \<and> free_blocks_plain s \<and> heap_shape s \<and> (\<exists>N. weak_links s N)"

text \<open>The blocks that the values of \<open>R\<close> lead to through fields the collector scans.\<close>

inductive reaches :: "val set \<Rightarrow> gc \<Rightarrow> addr \<Rightarrow> bool" for R s where
  reaches_root: "Ptr a \<in> R \<Longrightarrow> reaches R s (base s a)"
| reaches_field: "reaches R s a \<Longrightarrow> blocks s a = Some (Block c t fs) \<Longrightarrow> c \<noteq> Blue \<Longrightarrow> t < No_scan_tag \<Longrightarrow>
    Ptr b \<in> set fs \<Longrightarrow> reaches R s (base s b)"

lemma base_None: "blocks s a = None \<Longrightarrow> base s a = a"
  by (simp add: base_def)

lemma start_cycle_inv:
  assumes "idle_heap s"
  shows "gc_inv (set roots) (start_cycle env roots s)"
proof -
  let ?m = "fold (caml_darken env) roots s"
  have "blocks s a = Some (Block c t fs) \<Longrightarrow> c = White \<or> c = Blue" for a c t fs
    using assms unfolding idle_heap_def by blast
  then have "\<nexists>a t fs. blocks s a = Some (Block Black t fs)" "\<not> gray s a" for a
    unfolding gray_def by blast+
  then have "tricolour s {}" "grays_known s" by (simp_all add: tricolour_def grays_known_def)
  then have "gc_inv {} s" using assms by (simp add: idle_heap_def gc_inv_def)
  moreover have "phase s \<noteq> Phase_sweep" "markhp s = 0" using assms by (simp_all add: idle_heap_def)
  ultimately have d: "gc_inv {} ?m" "same_heap s ?m" "phase ?m = phase s"
    "\<And>a. Ptr a \<in> set roots \<Longrightarrow> blocks s a \<noteq> None \<Longrightarrow> \<not> white ?m (base s a)"
    using darken_all_inv [of "{}" s env roots] by blast+
  have mh: "markhp ?m = 0" using \<open>markhp s = 0\<close>
  proof (induction roots arbitrary: s)
    case (Cons v vs)
    have "markhp (caml_darken env v s) = markhp s"
      by (auto simp: caml_darken_def Let_def split: val.splits option.splits gblock.splits colour.splits)
    with Cons show ?case by simp
  qed simp
  let ?s = "start_cycle env roots s"
  have e: "?s = ?m\<lparr>phase := Phase_mark, subphase := Subphase_main, markhp := 0\<rparr>"
    by (simp add: start_cycle_def caml_darken_all_roots_def)
  have bs: "blocks ?s = blocks ?m" "heap_chunks ?s = heap_chunks ?m" "phase ?s = Phase_mark"
    "heap_is_pure ?s = heap_is_pure ?m" "gray_stack ?s = gray_stack ?m" "chunk_rest ?s = chunk_rest ?m"
    by (simp_all add: e)
  have h: "same_heap ?m ?s" using same_heap_refl [of ?m] unfolding same_heap_def bs .
  note inv = gc_invD [OF d(1)]
  have "tricolour ?s {}" using inv(1) unfolding tricolour_def covered_def guarded_def white_def base_def bs .
  moreover have "grays_known ?s"
    using inv(2) mh unfolding grays_known_def gray_def bs pending_def by (simp add: e)
  moreover have "\<exists>N. weak_links ?s N" using inv(5) unfolding weak_links_def bs by (simp add: e)
  ultimately have "gc_inv {} ?s"
    using inv(6) bs by (intro gc_invI [OF d(1) h]) auto
  moreover have "\<not> white ?s (base ?s a)" if "Ptr a \<in> set roots" "blocks ?s a \<noteq> None" for a
    using d(4) [OF that(1)] that(2) same_heapD(1) [OF d(2)] same_heap_base [OF d(2)]
    unfolding white_def bs(1) by (simp add: base_def bs(1))
  ultimately show ?thesis by (simp add: gc_inv_def)
qed

interpretation marking: invariant_system
  "\<lambda>s. \<exists>s0. idle_heap s0 \<and> s = start_cycle env roots s0" "gc_step env" "gc_inv (set roots)" for env roots
proof
  fix s assume "\<exists>s0. idle_heap s0 \<and> s = start_cycle env roots s0"
  then show "gc_inv (set roots) s" using start_cycle_inv by blast
next
  fix s s' assume "gc_inv (set roots) s" "gc_step env s s'"
  then show "gc_inv (set roots) s'" using mark_step_inv darken_inv(1) unfolding gc_step_def by (metis gc_phase.distinct(1))
qed

lemma sweep_not_white:
  assumes "gc_inv R s" "phase s = Phase_sweep" "reaches R s a"
  shows "\<not> white s a"
  using assms(3)
proof induction
  case (reaches_root a)
  then show ?case using assms(1) base_None [of s a] by (cases "blocks s a = None") (auto simp: gc_inv_def white_def)
next
  case (reaches_field a c t fs b)
  have ng: "\<not> gray s x" for x using assms(1,2) by (simp add: gc_inv_def)
  then have "c = Black" using reaches_field by (cases c) (auto simp: white_def gray_def)
  obtain i where i: "i < length fs" "fs ! i = Ptr b" using reaches_field.hyps by (auto simp: in_set_conv_nth)
  have "covered s {} (Ptr b)"
    using gc_invD(1) [OF assms(1)] reaches_field.hyps i \<open>c = Black\<close> unfolding tricolour_def by fastforce
  moreover have "\<not> guarded s {} b" using ng unfolding guarded_def gray_def by blast
  ultimately show ?case using base_None [of s b] by (cases "blocks s b = None") (auto simp: covered_def white_def)
qed



text \<open>
  A heap of one chunk with two blocks, of which the second is only reached through the first, and
  a mark stack of one entry: every block pushed makes it overflow.
\<close>

fun mark_turns :: "gc_env \<Rightarrow> nat \<Rightarrow> gc \<Rightarrow> gc option" where
  "mark_turns env 0 s = Some s"
| "mark_turns env (Suc n) s =
     (if phase s = Phase_mark
      then (case mark_step env s of Some (s', k) \<Rightarrow> mark_turns env n s' | None \<Rightarrow> None)
      else Some s)"

lemma mark_turns_steps: "mark_turns env n s = Some s' \<Longrightarrow> (gc_step env)\<^sup>*\<^sup>* s s'"
proof (induction n arbitrary: s)
  case (Suc n)
  show ?case
  proof (cases "phase s = Phase_mark")
    case True
    with Suc.prems obtain t k where "mark_step env s = Some (t, k)" "mark_turns env n t = Some s'"
      by (auto split: option.splits)
    moreover from this True have "gc_step env s t" unfolding gc_step_def by blast
    ultimately show ?thesis using Suc.IH converse_rtranclp_into_rtranclp [of "gc_step env" s t s'] by blast
  qed (use Suc.prems in simp)
qed simp

definition tiny_env :: gc_env where
  "tiny_env = \<lparr>stat_heap_size = 0, realloc_grants = (\<lambda>n. True), outside_tag = (\<lambda>a. None), weak_none = Ptr 5\<rparr>"

definition tiny_heap :: gc where
  "tiny_heap =
     \<lparr>blocks = [11 \<mapsto> Block White 0 [Ptr 13], 13 \<mapsto> Block White 0 [Long 7]], gray_stack = [], gray_vals_size = 1,
      heap_is_pure = True, heap_chunks = [(10, 4)], markhp = 0, limit = 0, chunk_rest = [], phase = Phase_idle,
      subphase = Subphase_main, weak_list_head = Ptr 0, weak_prev = None, final_table = [], to_do = []\<rparr>"

definition tiny_swept :: gc where
  "tiny_swept = the (mark_turns tiny_env 20 (start_cycle tiny_env [Ptr 11] tiny_heap))"

lemma tiny_idle: "idle_heap tiny_heap"
proof -
  have b: "blocks tiny_heap a = Some (Block c t fs) \<longleftrightarrow>
      a = 11 \<and> c = White \<and> t = 0 \<and> fs = [Ptr 13] \<or> a = 13 \<and> c = White \<and> t = 0 \<and> fs = [Long 7]" for a c t fs
    by (auto simp: tiny_heap_def)
  have h: "heap_chunks tiny_heap = [(10, 4)]" by (simp add: tiny_heap_def)
  have "free_blocks_plain tiny_heap" unfolding free_blocks_plain_def b by simp
  moreover have "heap_shape tiny_heap" unfolding heap_shape_def b h by auto
  moreover have "weak_links tiny_heap {}" by (simp add: weak_links_def tiny_heap_def)
  ultimately show ?thesis
    unfolding idle_heap_def b by (intro conjI exI [of _ "{}"]) (simp_all add: tiny_heap_def)
qed

lemma tiny_run:
  "mark_turns tiny_env 20 (start_cycle tiny_env [Ptr 11] tiny_heap) = Some tiny_swept"
  "phase tiny_swept = Phase_sweep" "blocks tiny_swept 11 = Some (Block Black 0 [Ptr 13])"
  "blocks tiny_swept 13 = Some (Block Black 0 [Long 7])"
  "heap_is_pure (start_cycle tiny_env [Ptr 11] tiny_heap) = False"
proof -
  have "mark_turns tiny_env 20 (start_cycle tiny_env [Ptr 11] tiny_heap) \<noteq> None" by code_simp
  then show "mark_turns tiny_env 20 (start_cycle tiny_env [Ptr 11] tiny_heap) = Some tiny_swept"
    unfolding tiny_swept_def by simp
  show "phase tiny_swept = Phase_sweep" by code_simp
  show "blocks tiny_swept 11 = Some (Block Black 0 [Ptr 13])" by code_simp
  show "blocks tiny_swept 13 = Some (Block Black 0 [Long 7])" by code_simp
  show "heap_is_pure (start_cycle tiny_env [Ptr 11] tiny_heap) = False" by code_simp
qed


end
