(* ===== verification/Page_Table.thy ===== *)
theory Page_Table
  imports Prelude
begin

text \<open>
  The page table of \<open>memory.c\<close> (the 64-bit implementation): a hash table with linear probing from
  pages to the classes of the addresses in them. Addresses are bytes here. The loops have no bound
  in the code, so their models are partial functions whose value is \<open>None\<close> when they do not end.
\<close>

section \<open>The table\<close>

definition Page_log :: nat where "Page_log = 12"
definition Page_size :: u64 where "Page_size = push_bit Page_log 1"
definition Page :: "u64 \<Rightarrow> u64" where "Page p = drop_bit Page_log p"
definition Page_mask :: u64 where "Page_mask = push_bit Page_log (- 1)"

definition Not_in_heap :: u32 where "Not_in_heap = 0"
definition In_heap :: u32 where "In_heap = 1"
definition In_young :: u32 where "In_young = 2"
definition In_static_data :: u32 where "In_static_data = 4"
definition In_code_area :: u32 where "In_code_area = 8"

record page_table =
  tbl_size :: u64
  tbl_shift :: nat
  tbl_mask :: u64
  tbl_occupancy :: u64
  tbl_entries :: "u64 list"

definition Page_entry_matches :: "u64 \<Rightarrow> u64 \<Rightarrow> bool" where
  "Page_entry_matches entry a \<longleftrightarrow> (entry XOR a) AND Page_mask = 0"

definition HASH_FACTOR :: u64 where "HASH_FACTOR = 11400714819323198486"

definition Hash :: "page_table \<Rightarrow> u64 \<Rightarrow> u64" where
  "Hash t v = drop_bit (tbl_shift t) (v * HASH_FACTOR)"

definition entry :: "page_table \<Rightarrow> u64 \<Rightarrow> u64" where
  "entry t h = tbl_entries t ! unat h"

definition next_slot :: "page_table \<Rightarrow> u64 \<Rightarrow> u64" where
  "next_slot t h = (h + 1) AND tbl_mask t"

section \<open>Looking up\<close>

partial_function (option) lookup_loop :: "page_table \<Rightarrow> u64 \<Rightarrow> u64 \<Rightarrow> u64 \<Rightarrow> u64 option" where
  "lookup_loop t a h e =
     (if e = 0 then Some 0
      else
        (let h = next_slot t h; e = entry t h
         in if Page_entry_matches e a then Some (e AND 0xFF) else lookup_loop t a h e))"

definition caml_page_table_lookup :: "page_table \<Rightarrow> u64 \<Rightarrow> u64 option" where
  "caml_page_table_lookup t a =
     (let h = Hash t (Page a); e = entry t h
      in if Page_entry_matches e a then Some (e AND 0xFF) else lookup_loop t a h e)"

section \<open>Creating and growing\<close>

text \<open>\<open>calloc\<close> tells whether \<open>__calloc\<close> finds the memory for a number of entries.\<close>

partial_function (option) initial_size :: "u64 \<Rightarrow> u64 \<Rightarrow> nat \<Rightarrow> (u64 \<times> nat) option" where
  "initial_size pagesize sz shift =
     (if sz < 2 * pagesize then initial_size pagesize (push_bit 1 sz) (shift - 1)
      else Some (sz, shift))"

definition caml_page_table_initialize :: "(u64 \<Rightarrow> bool) \<Rightarrow> u64 \<Rightarrow> (int \<times> page_table) option" where
  "caml_page_table_initialize calloc bytesize =
     Option.bind (initial_size (Page bytesize) 1 64) (\<lambda>(sz, shift).
       Some (if calloc sz then 0 else - 1,
         \<lparr>tbl_size = sz, tbl_shift = shift, tbl_mask = sz - 1, tbl_occupancy = 0,
          tbl_entries = (if calloc sz then replicate (unat sz) 0 else [])\<rparr>))"

text \<open>
  The loops that look for a slot, from \<open>h\<close> to the first entry that satisfies \<open>stop\<close>.
\<close>

partial_function (option) probe :: "(u64 \<Rightarrow> bool) \<Rightarrow> page_table \<Rightarrow> u64 \<Rightarrow> u64 option" where
  "probe stop t h = (if stop (entry t h) then Some h else probe stop t (next_slot t h))"

definition set_entry :: "u64 \<Rightarrow> u64 \<Rightarrow> page_table \<Rightarrow> page_table" where
  "set_entry h e t = t\<lparr>tbl_entries := (tbl_entries t)[unat h := e]\<rparr>"

fun rehash :: "u64 list \<Rightarrow> page_table \<Rightarrow> page_table option" where
  "rehash [] t = Some t"
| "rehash (e # es) t =
     (if e = 0 then rehash es t
      else Option.bind (probe (\<lambda>x. x = 0) t (Hash t (Page e))) (\<lambda>h. rehash es (set_entry h e t)))"

definition caml_page_table_resize :: "(u64 \<Rightarrow> bool) \<Rightarrow> page_table \<Rightarrow> (int \<times> page_table) option" where
  "caml_page_table_resize calloc old =
     (if \<not> calloc (2 * tbl_size old) then Some (- 1, old)
      else
        (let t = \<lparr>tbl_size = 2 * tbl_size old, tbl_shift = tbl_shift old - 1, tbl_mask = 2 * tbl_size old - 1,
                  tbl_occupancy = tbl_occupancy old, tbl_entries = replicate (unat (2 * tbl_size old)) 0\<rparr>
         in Option.bind (rehash (tbl_entries old) t) (\<lambda>t. Some (0, t))))"

section \<open>Modifying\<close>

text \<open>\<open>toclear\<close> and \<open>toset\<close> are of type \<open>int\<close>, extended with their sign in the expressions.\<close>

definition modify_entry :: "u64 \<Rightarrow> u32 \<Rightarrow> u32 \<Rightarrow> page_table \<Rightarrow> page_table option" where
  "modify_entry page toclear toset t =
     Option.bind (probe (\<lambda>e. e = 0 \<or> Page_entry_matches e page) t (Hash t (Page page))) (\<lambda>h.
       Some
         (if entry t h = 0
          then set_entry h (page OR scast toset) t\<lparr>tbl_occupancy := tbl_occupancy t + 1\<rparr>
          else set_entry h ((entry t h AND scast (NOT toclear)) OR scast toset) t))"

definition caml_page_table_modify ::
    "(u64 \<Rightarrow> bool) \<Rightarrow> u64 \<Rightarrow> u32 \<Rightarrow> u32 \<Rightarrow> page_table \<Rightarrow> (int \<times> page_table) option" where
  "caml_page_table_modify calloc page toclear toset t =
     Option.bind
       (if tbl_occupancy t * 2 \<ge> tbl_size t then caml_page_table_resize calloc t else Some (0, t))
       (\<lambda>(r, t).
          if r \<noteq> 0 then Some (- 1, t)
          else Option.bind (modify_entry page toclear toset t) (\<lambda>t. Some (0, t)))"

text \<open>The loop over the pages of an area, shared by the next two operations.\<close>

partial_function (option) modify_pages ::
    "(u64 \<Rightarrow> bool) \<Rightarrow> u32 \<Rightarrow> u32 \<Rightarrow> u64 \<Rightarrow> u64 \<Rightarrow> page_table \<Rightarrow> (int \<times> page_table) option" where
  "modify_pages calloc toclear toset p pend t =
     (if p \<le> pend then
        Option.bind (caml_page_table_modify calloc p toclear toset t) (\<lambda>(r, t).
          if r \<noteq> 0 then Some (- 1, t) else modify_pages calloc toclear toset (p + Page_size) pend t)
      else Some (0, t))"

definition caml_page_table_add :: "(u64 \<Rightarrow> bool) \<Rightarrow> u32 \<Rightarrow> u64 \<Rightarrow> u64 \<Rightarrow> page_table \<Rightarrow> (int \<times> page_table) option" where
  "caml_page_table_add calloc kind start end_addr t =
     modify_pages calloc 0 kind (start AND Page_mask) ((end_addr - 1) AND Page_mask) t"

definition caml_page_table_remove :: "(u64 \<Rightarrow> bool) \<Rightarrow> u32 \<Rightarrow> u64 \<Rightarrow> u64 \<Rightarrow> page_table \<Rightarrow> (int \<times> page_table) option" where
  "caml_page_table_remove calloc kind start end_addr t =
     modify_pages calloc kind 0 (start AND Page_mask) ((end_addr - 1) AND Page_mask) t"

section \<open>Classes of addresses\<close>

definition Classify_addr :: "page_table \<Rightarrow> u64 \<Rightarrow> u64 option" where
  "Classify_addr t a = caml_page_table_lookup t a"

definition Is_in_value_area :: "page_table \<Rightarrow> u64 \<Rightarrow> bool option" where
  "Is_in_value_area t a = map_option (\<lambda>c. c AND scast (In_heap OR In_young OR In_static_data) \<noteq> 0) (Classify_addr t a)"

definition Is_in_heap_addr :: "page_table \<Rightarrow> u64 \<Rightarrow> bool option" where
  "Is_in_heap_addr t a = map_option (\<lambda>c. c AND scast In_heap \<noteq> 0) (Classify_addr t a)"

definition Is_in_heap_or_young :: "page_table \<Rightarrow> u64 \<Rightarrow> bool option" where
  "Is_in_heap_or_young t a = map_option (\<lambda>c. c AND scast (In_heap OR In_young) \<noteq> 0) (Classify_addr t a)"

declare lookup_loop.simps [code] initial_size.simps [code] probe.simps [code] modify_pages.simps [code]

end
