(* ===== verification/Area_Map.thy ===== *)
theory Area_Map
  imports Prelude
begin

text \<open>
  The interface of a classification of addresses: areas get and lose classes, an address has the
  classes of the areas it is in. \<open>ok t m\<close> says that the table \<open>t\<close> stands for the map \<open>m\<close> from
  page numbers to classes; an operation may also fail (\<open>-1\<close>) for want of memory.
\<close>

datatype area_op = Add_area u32 u64 u64 | Remove_area u32 u64 u64

fun area_op_map :: "(u64 \<Rightarrow> u64) \<Rightarrow> area_op \<Rightarrow> (u64 \<Rightarrow> u64) \<Rightarrow> u64 \<Rightarrow> u64" where
  "area_op_map page (Add_area kind a b) m x =
     (if page a \<le> x \<and> x \<le> page (b - 1) then m x OR scast kind else m x)"
| "area_op_map page (Remove_area kind a b) m x =
     (if page a \<le> x \<and> x \<le> page (b - 1) then m x AND NOT (scast kind) else m x)"

text \<open>A sequence of operations, given up at the first that fails.\<close>

fun run_area_ops ::
    "(u32 \<Rightarrow> u64 \<Rightarrow> u64 \<Rightarrow> 't \<Rightarrow> (int \<times> 't) option) \<Rightarrow> (u32 \<Rightarrow> u64 \<Rightarrow> u64 \<Rightarrow> 't \<Rightarrow> (int \<times> 't) option) \<Rightarrow>
     area_op list \<Rightarrow> 't \<Rightarrow> (int \<times> 't) option" where
  "run_area_ops add rem [] t = Some (0, t)"
| "run_area_ops add rem (op # ops) t =
     Option.bind (case op of Add_area kind a b \<Rightarrow> add kind a b t | Remove_area kind a b \<Rightarrow> rem kind a b t)
       (\<lambda>(r, t). if r \<noteq> 0 then Some (r, t) else run_area_ops add rem ops t)"

locale area_table =
  fixes ok :: "'t \<Rightarrow> (u64 \<Rightarrow> u64) \<Rightarrow> bool"
    and page :: "u64 \<Rightarrow> u64"
    and valid :: "area_op \<Rightarrow> bool"
    and classify :: "'t \<Rightarrow> u64 \<Rightarrow> u64 option"
    and add :: "u32 \<Rightarrow> u64 \<Rightarrow> u64 \<Rightarrow> 't \<Rightarrow> (int \<times> 't) option"
    and rem :: "u32 \<Rightarrow> u64 \<Rightarrow> u64 \<Rightarrow> 't \<Rightarrow> (int \<times> 't) option"
  assumes classify_law: "ok t m \<Longrightarrow> classify t a = Some (m (page a))"
    and add_law: "ok t m \<Longrightarrow> valid (Add_area kind a b) \<Longrightarrow>
      \<exists>r t'. add kind a b t = Some (r, t') \<and> (\<exists>m'. ok t' m' \<and> (r = 0 \<longrightarrow> m' = area_op_map page (Add_area kind a b) m))"
    and rem_law: "ok t m \<Longrightarrow> valid (Remove_area kind a b) \<Longrightarrow>
      \<exists>r t'. rem kind a b t = Some (r, t') \<and> (\<exists>m'. ok t' m' \<and> (r = 0 \<longrightarrow> m' = area_op_map page (Remove_area kind a b) m))"
begin

lemma run_ops:
  assumes "ok t m" "list_all valid ops"
  shows "\<exists>r t' m'. run_area_ops add rem ops t = Some (r, t') \<and> ok t' m' \<and> (r = 0 \<longrightarrow> m' = fold (area_op_map page) ops m)"
  using assms
proof (induction ops arbitrary: t m)
  case (Cons op ops)
  then have "valid op" by simp
  then obtain r t1 m1 where 1:
    "(case op of Add_area kind a b \<Rightarrow> add kind a b t | Remove_area kind a b \<Rightarrow> rem kind a b t) = Some (r, t1)"
    "ok t1 m1" "r = 0 \<longrightarrow> m1 = area_op_map page op m"
    using add_law [OF Cons.prems(1)] rem_law [OF Cons.prems(1)] by (cases op) fastforce+
  show ?case
  proof (cases "r = 0")
    case True
    with Cons.IH [OF 1(2)] Cons.prems(2) 1 show ?thesis by auto
  next
    case False
    with 1 show ?thesis by auto
  qed
qed simp

text \<open>When every operation succeeds, the classes are those of the map.\<close>

lemma run_classify:
  assumes "ok t m" "list_all valid ops"
  shows "\<exists>r t'. run_area_ops add rem ops t = Some (r, t')
    \<and> (r = 0 \<longrightarrow> (\<forall>a. classify t' a = Some (fold (area_op_map page) ops m (page a))))"
  using run_ops [OF assms] classify_law by blast

end

end
