(* ===== verification/Page_Table_Proofs.thy ===== *)
theory Page_Table_Proofs
  imports Page_Table Area_Map
begin

text \<open>
  The page table is a map from pages to bytes: the invariant of linear probing with a load factor
  of at most one half, the loops that end because of it, and the operations on the map it stands for.
\<close>

section \<open>Pages and flags\<close>

lemma Page_entry_matches_iff: "Page_entry_matches e a \<longleftrightarrow> Page e = Page a"
proof
  assume m: "Page_entry_matches e a"
  show "Page e = Page a"
  proof (rule bit_word_eqI)
    fix n assume "n < LENGTH(64)"
    have "\<not> bit ((e XOR a) AND Page_mask) (n + 12)" using m by (simp add: Page_entry_matches_def)
    then show "bit (Page e) n = bit (Page a) n"
      by (auto simp: Page_def Page_log_def Page_mask_def bit_simps add.commute)
        (auto dest: bit_imp_le_length)
  qed
next
  assume p: "Page e = Page a"
  have "\<not> bit ((e XOR a) AND Page_mask) n" for n
  proof (cases "12 \<le> n")
    case True
    have "bit (Page e) (n - 12) = bit (Page a) (n - 12)" using p by simp
    with True show ?thesis by (auto simp: Page_def Page_log_def bit_simps)
  next
    case False
    then show ?thesis by (simp add: Page_mask_def Page_log_def bit_simps)
  qed
  then show "Page_entry_matches e a" unfolding Page_entry_matches_def by (intro bit_word_eqI) simp
qed

text \<open>The classes are the bits of a byte.\<close>

definition byte_flags :: "u32 \<Rightarrow> bool" where
  "byte_flags c \<longleftrightarrow> unat c < 256"

lemma byte_flags_bit: "byte_flags c \<Longrightarrow> bit c n \<Longrightarrow> n < 8"
proof (rule ccontr)
  assume c: "byte_flags c" "bit c n" "\<not> n < 8"
  then have "2 ^ 8 \<le> (2 :: nat) ^ n" by (intro power_increasing) auto
  moreover have "bit (unat c) n" using c(2) bit_imp_le_length [OF c(2)] by (simp add: bit_unsigned_iff)
  then have "odd (unat c div 2 ^ n)" by (simp add: bit_iff_odd)
  then have "unat c div 2 ^ n \<noteq> 0" by (intro notI) simp
  ultimately show False using c(1) by (simp add: byte_flags_def div_eq_0_iff)
qed

lemma scast_flags_bit: "byte_flags c \<Longrightarrow> bit (scast c :: u64) n \<Longrightarrow> n < 8 \<and> bit c n"
  using byte_flags_bit [of c n] byte_flags_bit [of c 31] by (cases "n \<le> 31") (auto simp: bit_simps min_def split: if_splits)

lemma scast_not: "(scast (NOT c) :: u64) = NOT (scast (c :: u32))"
  by (rule bit_word_eqI) (simp add: bit_simps min_def)

lemma Page_or_flags: "byte_flags c \<Longrightarrow> Page (e OR scast c) = Page e"
  by (rule bit_word_eqI) (auto simp: Page_def Page_log_def bit_simps dest: byte_flags_bit)

lemma Page_clear_flags: "byte_flags c \<Longrightarrow> Page (e AND scast (NOT c)) = Page e"
  unfolding scast_not
  by (rule bit_word_eqI) (auto simp: Page_def Page_log_def bit_simps dest: byte_flags_bit bit_imp_le_length)

section \<open>Probing\<close>

definition table_shape :: "page_table \<Rightarrow> nat \<Rightarrow> bool" where
  "table_shape t k \<longleftrightarrow>
     0 < k \<and> k < 61 \<and> tbl_shift t = 64 - k \<and> unat (tbl_size t) = 2 ^ k \<and> tbl_mask t = mask k
     \<and> length (tbl_entries t) = 2 ^ k"

lemma Hash_bound:
  assumes "table_shape t k"
  shows "unat (Hash t v) < 2 ^ k"
proof -
  have "(2::nat) ^ 64 = 2 ^ k * 2 ^ (64 - k)"
    using assms by (simp add: table_shape_def flip: power_add)
  moreover have "unat (v * HASH_FACTOR) < 2 ^ 64" using unat_lt_pow2 [of "v * HASH_FACTOR"] by simp
  ultimately show ?thesis
    using assms unfolding Hash_def unat_shiftr table_shape_def by (simp add: less_mult_imp_div_less)
qed

lemma next_slot_unat:
  assumes "table_shape t k" "unat h < 2 ^ k"
  shows "unat (next_slot t h) = (unat h + 1) mod 2 ^ k"
proof -
  have "(2::nat) ^ k \<le> 2 ^ 60" using assms(1) by (intro power_increasing) (auto simp: table_shape_def)
  then have "unat (h + 1) = unat h + 1" using assms(2) by (subst unat_plus_small) simp_all
  then show ?thesis using assms(1) by (simp add: next_slot_def table_shape_def unat_and_mask)
qed

text \<open>The \<open>j\<close>-th slot that a search from slot \<open>h\<close> looks at.\<close>

definition slot :: "nat \<Rightarrow> u64 \<Rightarrow> nat \<Rightarrow> nat" where
  "slot k h j = (unat h + j) mod 2 ^ k"

lemma slot_bound [simp]: "slot k h j < 2 ^ k"
  by (simp add: slot_def)

lemma slot_0: "unat h < 2 ^ k \<Longrightarrow> slot k h 0 = unat h"
  by (simp add: slot_def)

lemma slot_next:
  "table_shape t k \<Longrightarrow> unat h < 2 ^ k \<Longrightarrow> slot k (next_slot t h) j = slot k h (Suc j)"
  by (simp add: slot_def next_slot_unat mod_simps)

lemma slot_inj: "slot k h i = slot k h j \<Longrightarrow> i < 2 ^ k \<Longrightarrow> j < 2 ^ k \<Longrightarrow> i = j"
proof (induction i j rule: linorder_wlog)
  case (le i j)
  then have "(unat h + j - (unat h + i)) mod 2 ^ k = 0"
    by (metis mod_eq_dvd_iff_nat add_le_mono order_refl slot_def mod_0_imp_dvd dvd_imp_mod_0)
  with le show ?case by simp
qed simp

lemma slot_reaches:
  assumes "z < 2 ^ k"
  obtains j where "j < 2 ^ k" "slot k h j = z"
proof -
  have "slot k h ` {..<2 ^ k} \<subseteq> {..<2 ^ k}" by auto
  moreover have "inj_on (slot k h) {..<2 ^ k}" by (auto intro: inj_onI dest: slot_inj)
  ultimately have "slot k h ` {..<2 ^ k} = {..<2 ^ k}" by (intro endo_inj_surj) auto
  with assms have "z \<in> slot k h ` {..<2 ^ k}" by simp
  with that show thesis by auto
qed

lemma probe_finds:
  assumes "table_shape t k" "unat h < 2 ^ k"
    and "stop (tbl_entries t ! slot k h j)" "\<forall>l<j. \<not> stop (tbl_entries t ! slot k h l)"
  shows "\<exists>h'. probe stop t h = Some h' \<and> unat h' = slot k h j"
  using assms(2-)
proof (induction j arbitrary: h)
  case 0
  then show ?case by (subst probe.simps) (simp add: slot_0 entry_def)
next
  case (Suc j)
  have "\<not> stop (entry t h)" using Suc.prems(1,3) by (auto simp: entry_def slot_0 dest: spec [of _ 0])
  moreover have "\<exists>h'. probe stop t (next_slot t h) = Some h' \<and> unat h' = slot k (next_slot t h) j"
    using Suc.prems slot_next [OF assms(1) Suc.prems(1)]
    by (intro Suc.IH) (auto simp: next_slot_unat [OF assms(1) Suc.prems(1)])
  ultimately show ?case
    using slot_next [OF assms(1) Suc.prems(1)] by (subst probe.simps) simp
qed

lemma lookup_loop_finds:
  assumes "table_shape t k" "unat h < 2 ^ k" "\<not> Page_entry_matches (entry t h) a"
    and "tbl_entries t ! slot k h j = 0 \<or> Page_entry_matches (tbl_entries t ! slot k h j) a"
    and "\<forall>l<j. \<not> (tbl_entries t ! slot k h l = 0 \<or> Page_entry_matches (tbl_entries t ! slot k h l) a)"
  shows "lookup_loop t a h (entry t h) =
    Some (if Page_entry_matches (tbl_entries t ! slot k h j) a then tbl_entries t ! slot k h j AND 0xFF else 0)"
  using assms(2-)
proof (induction j arbitrary: h)
  case 0
  then show ?case by (subst lookup_loop.simps) (auto simp: slot_0 entry_def)
next
  case (Suc j)
  let ?h = "next_slot t h"
  note s = slot_next [OF assms(1) Suc.prems(1)]
  have h: "unat ?h < 2 ^ k" by (simp add: next_slot_unat [OF assms(1) Suc.prems(1)])
  have "entry t h \<noteq> 0" using Suc.prems(1,4) by (auto simp: entry_def slot_0 dest: spec [of _ 0])
  then have l: "lookup_loop t a h (entry t h) =
      (if Page_entry_matches (entry t ?h) a then Some (entry t ?h AND 0xFF) else lookup_loop t a ?h (entry t ?h))"
    by (subst lookup_loop.simps) (simp add: Let_def)
  show ?case
  proof (cases "Page_entry_matches (entry t ?h) a")
    case True
    then have "\<not> 1 < Suc j"
      using Suc.prems(4) s [of 0] slot_0 [OF h] by (auto simp: entry_def dest: spec [of _ 1])
    then have "j = 0" by simp
    with True l s [of 0] slot_0 [OF h] show ?thesis by (simp add: entry_def)
  next
    case False
    with Suc.IH [OF h] Suc.prems l show ?thesis by (simp add: s)
  qed
qed

text \<open>A lookup is a search for a free or matching slot.\<close>

lemma lookup_finds:
  assumes "table_shape t k"
    and "tbl_entries t ! slot k (Hash t (Page a)) j = 0 \<or> Page_entry_matches (tbl_entries t ! slot k (Hash t (Page a)) j) a"
    and "\<forall>l<j. \<not> (tbl_entries t ! slot k (Hash t (Page a)) l = 0 \<or> Page_entry_matches (tbl_entries t ! slot k (Hash t (Page a)) l) a)"
  shows "caml_page_table_lookup t a =
    Some (if Page_entry_matches (tbl_entries t ! slot k (Hash t (Page a)) j) a
          then tbl_entries t ! slot k (Hash t (Page a)) j AND 0xFF else 0)"
proof (cases "Page_entry_matches (entry t (Hash t (Page a))) a")
  case True
  have s: "slot k (Hash t (Page a)) 0 = unat (Hash t (Page a))" by (rule slot_0 [OF Hash_bound [OF assms(1)]])
  have "j = 0"
  proof (rule ccontr)
    assume "j \<noteq> 0"
    with assms(3) s True show False by (auto simp: entry_def dest: spec [of _ 0])
  qed
  with True s show ?thesis by (simp add: caml_page_table_lookup_def Let_def entry_def)
next
  case False
  with lookup_loop_finds [OF assms(1) Hash_bound [OF assms(1)] False assms(2,3)] show ?thesis
    by (simp add: caml_page_table_lookup_def Let_def)
qed

section \<open>The invariant\<close>

definition used :: "page_table \<Rightarrow> u64 set" where
  "used t = {e \<in> set (tbl_entries t). e \<noteq> 0}"

definition count_used :: "page_table \<Rightarrow> nat" where
  "count_used t = length (filter (\<lambda>e. e \<noteq> 0) (tbl_entries t))"

text \<open>
  Every entry is reached from the slot its page hashes to without passing a free slot, and no two
  slots hold the same page.
\<close>

definition slots_ok :: "page_table \<Rightarrow> nat \<Rightarrow> bool" where
  "slots_ok t k \<longleftrightarrow>
     table_shape t k
     \<and> (\<forall>i<2 ^ k. tbl_entries t ! i \<noteq> 0 \<longrightarrow> Page (tbl_entries t ! i) \<noteq> 0
          \<and> (\<exists>j<2 ^ k. slot k (Hash t (Page (tbl_entries t ! i))) j = i
                \<and> (\<forall>l<j. tbl_entries t ! slot k (Hash t (Page (tbl_entries t ! i))) l \<noteq> 0)))
     \<and> (\<forall>i<2 ^ k. \<forall>j<2 ^ k. tbl_entries t ! i \<noteq> 0 \<longrightarrow> tbl_entries t ! j \<noteq> 0 \<longrightarrow>
          Page (tbl_entries t ! i) = Page (tbl_entries t ! j) \<longrightarrow> i = j)"

lemma slots_okD:
  assumes "slots_ok t k"
  shows "table_shape t k"
    and "i < 2 ^ k \<Longrightarrow> tbl_entries t ! i \<noteq> 0 \<Longrightarrow> Page (tbl_entries t ! i) \<noteq> 0"
    and "i < 2 ^ k \<Longrightarrow> tbl_entries t ! i \<noteq> 0 \<Longrightarrow> \<exists>j<2 ^ k. slot k (Hash t (Page (tbl_entries t ! i))) j = i
      \<and> (\<forall>l<j. tbl_entries t ! slot k (Hash t (Page (tbl_entries t ! i))) l \<noteq> 0)"
    and "i < 2 ^ k \<Longrightarrow> j < 2 ^ k \<Longrightarrow> tbl_entries t ! i \<noteq> 0 \<Longrightarrow> tbl_entries t ! j \<noteq> 0 \<Longrightarrow>
      Page (tbl_entries t ! i) = Page (tbl_entries t ! j) \<Longrightarrow> i = j"
  using assms unfolding slots_ok_def by blast+

lemma used_nth: "table_shape t k \<Longrightarrow> e \<in> used t \<longleftrightarrow> e \<noteq> 0 \<and> (\<exists>i<2 ^ k. tbl_entries t ! i = e)"
  by (auto simp: used_def table_shape_def in_set_conv_nth)

lemma free_slot:
  assumes "table_shape t k" "count_used t < 2 ^ k"
  shows "\<exists>z<2 ^ k. tbl_entries t ! z = 0"
proof (rule ccontr)
  assume "\<not> ?thesis"
  then have "filter (\<lambda>e. e \<noteq> 0) (tbl_entries t) = tbl_entries t"
    using assms(1) by (auto simp: filter_id_conv in_set_conv_nth table_shape_def)
  with assms show False by (simp add: count_used_def table_shape_def)
qed

text \<open>The search for a page ends at its slot, or at a free slot when it is in none.\<close>

lemma search_ends:
  assumes "slots_ok t k" "count_used t < 2 ^ k"
  obtains j where "j < 2 ^ k"
    "tbl_entries t ! slot k (Hash t p) j = 0 \<and> p \<notin> Page ` used t
      \<or> tbl_entries t ! slot k (Hash t p) j \<noteq> 0 \<and> Page (tbl_entries t ! slot k (Hash t p) j) = p"
    "\<forall>l<j. tbl_entries t ! slot k (Hash t p) l \<noteq> 0 \<and> Page (tbl_entries t ! slot k (Hash t p) l) \<noteq> p"
proof (cases "p \<in> Page ` used t")
  case True
  then obtain i where i: "i < 2 ^ k" "tbl_entries t ! i \<noteq> 0" "Page (tbl_entries t ! i) = p"
    using used_nth [OF slots_okD(1) [OF assms(1)]] by auto
  from slots_okD(3) [OF assms(1) i(1,2)] i(3) obtain j where
    j: "j < 2 ^ k" "slot k (Hash t p) j = i" "\<forall>l<j. tbl_entries t ! slot k (Hash t p) l \<noteq> 0" by auto
  have "Page (tbl_entries t ! slot k (Hash t p) l) \<noteq> p" if "l < j" for l
  proof
    assume "Page (tbl_entries t ! slot k (Hash t p) l) = p"
    then have "slot k (Hash t p) l = slot k (Hash t p) j"
      using slots_okD(4) [OF assms(1) slot_bound i(1)] j(2,3) i(2,3) that by simp
    from slot_inj [OF this] that j(1) show False by simp
  qed
  with that j i(2,3) show thesis by auto
next
  case False
  let ?P = "\<lambda>j. tbl_entries t ! slot k (Hash t p) j = 0"
  obtain z where "z < 2 ^ k" "tbl_entries t ! z = 0" using free_slot [OF slots_okD(1) [OF assms(1)] assms(2)] by blast
  then obtain j0 where j0: "j0 < 2 ^ k" "?P j0" using slot_reaches [of z k "Hash t p"] by metis
  define j where "j = (LEAST j. ?P j)"
  have "?P j" unfolding j_def using j0(2) by (rule LeastI)
  moreover have "j < 2 ^ k" using Least_le [of ?P, OF j0(2)] j0(1) by (simp add: j_def)
  moreover have "\<forall>l<j. \<not> ?P l" unfolding j_def using not_less_Least by blast
  moreover have "Page (tbl_entries t ! slot k (Hash t p) l) \<noteq> p" if "tbl_entries t ! slot k (Hash t p) l \<noteq> 0" for l
    using False that used_nth [OF slots_okD(1) [OF assms(1)]] by (metis image_eqI slot_bound)
  ultimately show thesis using that False by blast
qed

section \<open>Writing entries\<close>

lemma set_entry_simps [simp]:
  "tbl_size (set_entry h e t) = tbl_size t" "tbl_shift (set_entry h e t) = tbl_shift t"
  "tbl_mask (set_entry h e t) = tbl_mask t" "tbl_occupancy (set_entry h e t) = tbl_occupancy t"
  "tbl_entries (set_entry h e t) = (tbl_entries t)[unat h := e]" "Hash (set_entry h e t) v = Hash t v"
  by (simp_all add: set_entry_def Hash_def)

lemma length_filter_update:
  assumes "i < length xs"
  shows "length (filter P (xs[i := x])) + (if P (xs ! i) then 1 else 0) = length (filter P xs) + (if P x then 1 else 0)"
  using assms
proof (induction xs arbitrary: i)
  case (Cons y ys)
  then show ?case by (cases i) auto
qed simp

text \<open>An entry of a page that is in no slot goes where the search for the page ends.\<close>

lemma insert_entry:
  assumes ok: "slots_ok t k" and e: "Page e \<noteq> 0" "Page e \<notin> Page ` used t"
    and h: "unat h = slot k (Hash t (Page e)) j" "j < 2 ^ k" "tbl_entries t ! unat h = 0"
    and chain: "\<forall>l<j. tbl_entries t ! slot k (Hash t (Page e)) l \<noteq> 0"
  shows "slots_ok (set_entry h e t) k" "used (set_entry h e t) = insert e (used t)"
    "count_used (set_entry h e t) = count_used t + 1"
proof -
  note shape = slots_okD(1) [OF ok]
  let ?t = "set_entry h e t"
  have hb: "unat h < 2 ^ k" using h(1) by simp
  have len: "length (tbl_entries t) = 2 ^ k" using shape by (simp add: table_shape_def)
  have e0: "e \<noteq> 0" using e(1) by (auto simp: Page_def)
  have nth: "i < 2 ^ k \<Longrightarrow> tbl_entries ?t ! i = (if i = unat h then e else tbl_entries t ! i)" for i
    using len by (simp add: nth_list_update)
  have keep: "i < 2 ^ k \<Longrightarrow> tbl_entries t ! i \<noteq> 0 \<Longrightarrow> tbl_entries ?t ! i \<noteq> 0" for i using nth e0 by simp
  have shape': "table_shape ?t k" using shape by (simp add: table_shape_def)
  have fresh: "Page (tbl_entries t ! i) \<noteq> Page e" if "i < 2 ^ k" "tbl_entries t ! i \<noteq> 0" for i
    using e(2) that used_nth [OF shape] by (metis image_eqI)
  have "\<exists>j<2 ^ k. slot k (Hash ?t (Page (tbl_entries ?t ! i))) j = i
      \<and> (\<forall>l<j. tbl_entries ?t ! slot k (Hash ?t (Page (tbl_entries ?t ! i))) l \<noteq> 0)"
    if i: "i < 2 ^ k" "tbl_entries ?t ! i \<noteq> 0" for i
  proof (cases "i = unat h")
    case True
    then have "tbl_entries ?t ! i = e" using nth [OF i(1)] by simp
    with True h(1,2) chain keep show ?thesis by (intro exI [of _ j]) simp
  next
    case False
    then have "tbl_entries ?t ! i = tbl_entries t ! i" using nth [OF i(1)] by simp
    with slots_okD(3) [OF ok i(1)] i(2) keep show ?thesis by auto
  qed
  moreover have "Page (tbl_entries ?t ! i) \<noteq> 0" if "i < 2 ^ k" "tbl_entries ?t ! i \<noteq> 0" for i
    using that nth [OF that(1)] e(1) slots_okD(2) [OF ok that(1)] by (auto split: if_splits)
  moreover have "i = j" if "i < 2 ^ k" "j < 2 ^ k" "tbl_entries ?t ! i \<noteq> 0" "tbl_entries ?t ! j \<noteq> 0"
    "Page (tbl_entries ?t ! i) = Page (tbl_entries ?t ! j)" for i j
    using that nth [OF that(1)] nth [OF that(2)] fresh [of i] fresh [of j] slots_okD(4) [OF ok that(1,2)]
    by (auto split: if_splits)
  ultimately show "slots_ok ?t k" unfolding slots_ok_def using shape' by blast
  show "used ?t = insert e (used t)"
  proof (rule set_eqI)
    fix x
    show "x \<in> used ?t \<longleftrightarrow> x \<in> insert e (used t)"
      unfolding used_nth [OF shape'] insert_iff used_nth [OF shape] using nth hb e0 h(3) by metis
  qed
  show "count_used ?t = count_used t + 1"
    using length_filter_update [of "unat h" "tbl_entries t" "\<lambda>e. e \<noteq> 0" e] hb len h(3) e0
    by (simp add: count_used_def)
qed

text \<open>The flags of a page in a slot change.\<close>

lemma update_entry:
  assumes ok: "slots_ok t k" and h: "unat h < 2 ^ k" "tbl_entries t ! unat h \<noteq> 0"
    and e: "Page e = Page (tbl_entries t ! unat h)"
  shows "slots_ok (set_entry h e t) k" "used (set_entry h e t) = insert e (used t - {tbl_entries t ! unat h})"
    "count_used (set_entry h e t) = count_used t"
proof -
  note shape = slots_okD(1) [OF ok]
  let ?t = "set_entry h e t"
  have len: "length (tbl_entries t) = 2 ^ k" using shape by (simp add: table_shape_def)
  have e0: "e \<noteq> 0" using slots_okD(2) [OF ok h] e by (auto simp: Page_def)
  have nth: "i < 2 ^ k \<Longrightarrow> tbl_entries ?t ! i = (if i = unat h then e else tbl_entries t ! i)" for i
    using len by (simp add: nth_list_update)
  have z: "i < 2 ^ k \<Longrightarrow> tbl_entries ?t ! i = 0 \<longleftrightarrow> tbl_entries t ! i = 0" for i using nth e0 h(2) by simp
  have pg: "i < 2 ^ k \<Longrightarrow> Page (tbl_entries ?t ! i) = Page (tbl_entries t ! i)" for i using nth e by simp
  have shape': "table_shape ?t k" using shape by (simp add: table_shape_def)
  show "slots_ok ?t k"
    unfolding slots_ok_def
  proof (intro conjI allI impI)
    fix i assume i: "i < 2 ^ k" "tbl_entries ?t ! i \<noteq> 0"
    then show "Page (tbl_entries ?t ! i) \<noteq> 0" using slots_okD(2) [OF ok i(1)] z [OF i(1)] pg [OF i(1)] by simp
    from slots_okD(3) [OF ok i(1)] i z show "\<exists>j<2 ^ k. slot k (Hash ?t (Page (tbl_entries ?t ! i))) j = i
        \<and> (\<forall>l<j. tbl_entries ?t ! slot k (Hash ?t (Page (tbl_entries ?t ! i))) l \<noteq> 0)"
      unfolding pg [OF i(1)] set_entry_simps(6) z [OF slot_bound] by blast
  next
    fix i j
    assume a: "i < 2 ^ k" "j < 2 ^ k" "tbl_entries ?t ! i \<noteq> 0" "tbl_entries ?t ! j \<noteq> 0"
      "Page (tbl_entries ?t ! i) = Page (tbl_entries ?t ! j)"
    with slots_okD(4) [OF ok a(1,2)] show "i = j" unfolding pg [OF a(1)] pg [OF a(2)] z [OF a(1)] z [OF a(2)] by blast
  qed (rule shape')
  have only: "i = unat h" if "i < 2 ^ k" "tbl_entries t ! i = tbl_entries t ! unat h" for i
    using slots_okD(4) [OF ok that(1) h(1)] that(2) h(2) by simp
  show "used ?t = insert e (used t - {tbl_entries t ! unat h})"
  proof (rule set_eqI, rule iffI)
    fix x assume "x \<in> used ?t"
    then obtain i where i: "x \<noteq> 0" "i < 2 ^ k" "tbl_entries ?t ! i = x" using used_nth [OF shape'] by blast
    show "x \<in> insert e (used t - {tbl_entries t ! unat h})"
    proof (cases "i = unat h")
      case False
      then have "tbl_entries t ! i = x" using nth [OF i(2)] i(3) by simp
      with only [OF i(2)] False i(1,2) used_nth [OF shape] show ?thesis by blast
    qed (use nth [OF i(2)] i(3) in simp)
  next
    fix x assume x: "x \<in> insert e (used t - {tbl_entries t ! unat h})"
    show "x \<in> used ?t"
    proof (cases "x = e")
      case True
      then show ?thesis using used_nth [OF shape'] nth [OF h(1)] h(1) e0 by auto
    next
      case False
      with x have "x \<in> used t" "x \<noteq> tbl_entries t ! unat h" by auto
      then obtain i where i: "x \<noteq> 0" "i < 2 ^ k" "tbl_entries t ! i = x" using used_nth [OF shape] by blast
      then have "tbl_entries ?t ! i = x" using nth [OF i(2)] \<open>x \<noteq> tbl_entries t ! unat h\<close> by auto
      with i used_nth [OF shape'] show ?thesis by blast
    qed
  qed
  show "count_used ?t = count_used t"
    using length_filter_update [of "unat h" "tbl_entries t" "\<lambda>e. e \<noteq> 0" e] h len e0
    by (simp add: count_used_def)
qed

section \<open>The map a table stands for\<close>

definition represents :: "page_table \<Rightarrow> (u64 \<Rightarrow> u64) \<Rightarrow> bool" where
  "represents t m \<longleftrightarrow>
     (\<forall>e\<in>used t. m (Page e) = e AND 0xFF) \<and> (\<forall>p. p \<notin> Page ` used t \<longrightarrow> m p = 0)"

definition table_ok :: "page_table \<Rightarrow> (u64 \<Rightarrow> u64) \<Rightarrow> bool" where
  "table_ok t m \<longleftrightarrow>
     (\<exists>k. slots_ok t k \<and> represents t m \<and> unat (tbl_occupancy t) = count_used t \<and> 2 * count_used t \<le> 2 ^ k)"

lemma table_okE:
  assumes "table_ok t m"
  obtains k where "slots_ok t k" "table_shape t k" "represents t m" "unat (tbl_occupancy t) = count_used t"
    "2 * count_used t \<le> 2 ^ k" "count_used t < 2 ^ k"
proof -
  from assms obtain k where k: "slots_ok t k" "represents t m" "unat (tbl_occupancy t) = count_used t"
    "2 * count_used t \<le> 2 ^ k" unfolding table_ok_def by blast
  moreover have "(0::nat) < 2 ^ k" by simp
  with k(4) have "count_used t < 2 ^ k" by linarith
  ultimately show thesis using that slots_okD(1) by blast
qed

lemma lookup_ok:
  assumes "table_ok t m"
  shows "caml_page_table_lookup t a = Some (m (Page a))"
proof -
  obtain k where k: "slots_ok t k" "table_shape t k" "represents t m" "count_used t < 2 ^ k"
    using assms by (rule table_okE)
  obtain j where j: "j < 2 ^ k"
    "tbl_entries t ! slot k (Hash t (Page a)) j = 0 \<and> Page a \<notin> Page ` used t
      \<or> tbl_entries t ! slot k (Hash t (Page a)) j \<noteq> 0 \<and> Page (tbl_entries t ! slot k (Hash t (Page a)) j) = Page a"
    "\<forall>l<j. tbl_entries t ! slot k (Hash t (Page a)) l \<noteq> 0 \<and> Page (tbl_entries t ! slot k (Hash t (Page a)) l) \<noteq> Page a"
    using search_ends [OF k(1,4)] .
  let ?e = "tbl_entries t ! slot k (Hash t (Page a)) j"
  have l: "caml_page_table_lookup t a = Some (if Page_entry_matches ?e a then ?e AND 0xFF else 0)"
    using j(2,3) by (intro lookup_finds [OF k(2)]) (auto simp: Page_entry_matches_iff)
  show ?thesis
  proof (cases "?e = 0")
    case True
    with j(2) k(3) have "m (Page a) = 0" by (simp add: represents_def)
    with l True show ?thesis by simp
  next
    case False
    with j(2) have e: "Page ?e = Page a" "?e \<in> used t" using used_nth [OF k(2)] slot_bound by blast+
    have "\<forall>e\<in>used t. m (Page e) = e AND 0xFF" using k(3) by (simp add: represents_def)
    from this e(2) have "m (Page ?e) = ?e AND 0xFF" by (rule bspec)
    with l e(1) show ?thesis by (simp add: Page_entry_matches_iff)
  qed
qed

section \<open>Growing\<close>

lemma rehash_ok:
  assumes "slots_ok t k" "distinct (map Page (filter (\<lambda>e. e \<noteq> 0) es))"
    and "\<forall>e\<in>set es. e \<noteq> 0 \<longrightarrow> Page e \<noteq> 0 \<and> Page e \<notin> Page ` used t"
    and "count_used t + length (filter (\<lambda>e. e \<noteq> 0) es) < 2 ^ k"
  shows "\<exists>t'. rehash es t = Some t' \<and> slots_ok t' k \<and> used t' = used t \<union> {e \<in> set es. e \<noteq> 0}
    \<and> count_used t' = count_used t + length (filter (\<lambda>e. e \<noteq> 0) es) \<and> tbl_occupancy t' = tbl_occupancy t"
  using assms
proof (induction es arbitrary: t)
  case (Cons e es)
  show ?case
  proof (cases "e = 0")
    case True
    with Cons.IH [OF Cons.prems(1)] Cons.prems show ?thesis by auto
  next
    case False
    then have p: "Page e \<noteq> 0" "Page e \<notin> Page ` used t" using Cons.prems(3) by simp_all
    have "count_used t < 2 ^ k" using Cons.prems(4) by simp
    note shape = slots_okD(1) [OF Cons.prems(1)]
    obtain j where j: "j < 2 ^ k"
      "tbl_entries t ! slot k (Hash t (Page e)) j = 0 \<and> Page e \<notin> Page ` used t
        \<or> tbl_entries t ! slot k (Hash t (Page e)) j \<noteq> 0 \<and> Page (tbl_entries t ! slot k (Hash t (Page e)) j) = Page e"
      "\<forall>l<j. tbl_entries t ! slot k (Hash t (Page e)) l \<noteq> 0 \<and> Page (tbl_entries t ! slot k (Hash t (Page e)) l) \<noteq> Page e"
      using search_ends [OF Cons.prems(1) \<open>count_used t < 2 ^ k\<close>] .
    have z: "tbl_entries t ! slot k (Hash t (Page e)) j = 0"
    proof (rule ccontr)
      assume nz: "tbl_entries t ! slot k (Hash t (Page e)) j \<noteq> 0"
      then have "tbl_entries t ! slot k (Hash t (Page e)) j \<in> used t" using used_nth [OF shape] slot_bound by blast
      with nz j(2) p(2) show False by (metis image_eqI)
    qed
    from probe_finds [OF shape Hash_bound [OF shape], where stop = "\<lambda>x. x = 0" and j = j] j(3) z obtain h where
      h: "probe (\<lambda>x. x = 0) t (Hash t (Page e)) = Some h" "unat h = slot k (Hash t (Page e)) j" by auto
    note i = insert_entry [OF Cons.prems(1) p h(2) j(1)]
    have i': "slots_ok (set_entry h e t) k" "used (set_entry h e t) = insert e (used t)"
      "count_used (set_entry h e t) = count_used t + 1" using i j(3) z h(2) by simp_all
    have "\<forall>x\<in>set es. x \<noteq> 0 \<longrightarrow> Page x \<noteq> 0 \<and> Page x \<notin> Page ` used (set_entry h e t)"
      using Cons.prems(2,3) False unfolding i'(2) by (auto simp: image_iff)
    from Cons.IH [OF i'(1) _ this] Cons.prems(2,4) False i'(2,3) h(1) show ?thesis by auto
  qed
qed simp

text \<open>\<open>calloc\<close> of entries of 8 bytes fails when their size overflows.\<close>

definition calloc_bounded :: "(u64 \<Rightarrow> bool) \<Rightarrow> bool" where
  "calloc_bounded calloc \<longleftrightarrow> (\<forall>n. calloc n \<longrightarrow> unat n < 2 ^ 61)"

lemma mask_of_size:
  assumes "unat (n :: u64) = 2 ^ k" "k < 64"
  shows "n - 1 = mask k"
proof -
  have "n = word_of_nat (unat n)" by simp
  then have "n = 2 ^ k" unfolding assms(1) by simp
  then show ?thesis by (simp add: mask_eq_exp_minus_1)
qed

lemma used_distinct:
  assumes "slots_ok t k"
  shows "distinct (map Page (filter (\<lambda>e. e \<noteq> 0) (tbl_entries t)))"
proof -
  have len: "length (tbl_entries t) = 2 ^ k" using slots_okD(1) [OF assms] by (simp add: table_shape_def)
  have "distinct (map f (filter P xs))"
    if "\<forall>i<length xs. \<forall>j<length xs. P (xs ! i) \<longrightarrow> P (xs ! j) \<longrightarrow> f (xs ! i) = f (xs ! j) \<longrightarrow> i = j"
    for f :: "u64 \<Rightarrow> u64" and P xs
    using that
  proof (induction xs)
    case (Cons x xs)
    have "\<forall>i<length xs. \<forall>j<length xs. P (xs ! i) \<longrightarrow> P (xs ! j) \<longrightarrow> f (xs ! i) = f (xs ! j) \<longrightarrow> i = j"
      using Cons.prems by (metis Suc_less_eq length_Cons nat.inject nth_Cons_Suc)
    moreover have "f x \<noteq> f y" if x: "P x" and y: "y \<in> set xs" "P y" for y
    proof
      assume e: "f x = f y"
      obtain i where "i < length xs" "xs ! i = y" using y(1) by (auto simp: in_set_conv_nth)
      with Cons.prems [rule_format, of 0 "Suc i"] x y(2) e show False by simp
    qed
    ultimately show ?case using Cons.IH by auto
  qed simp
  from this [of "tbl_entries t" "\<lambda>e. e \<noteq> 0" Page] show ?thesis using slots_okD(4) [OF assms] len by auto
qed

lemma represents_used: "used t' = used t \<Longrightarrow> represents t m \<Longrightarrow> represents t' m"
  by (simp add: represents_def)

lemma resize_ok:
  assumes "table_ok t m" "calloc_bounded calloc"
  shows "\<exists>r t'. caml_page_table_resize calloc t = Some (r, t') \<and> (r = 0 \<or> r = - 1 \<and> t' = t)
    \<and> (r = 0 \<longrightarrow> (\<exists>k. slots_ok t' k \<and> represents t' m \<and> unat (tbl_occupancy t') = count_used t'
          \<and> 2 * count_used t' < 2 ^ k))"
proof (cases "calloc (2 * tbl_size t)")
  case False
  then show ?thesis by (simp add: caml_page_table_resize_def)
next
  case True
  obtain k where k: "slots_ok t k" "table_shape t k" "represents t m" "unat (tbl_occupancy t) = count_used t"
    "count_used t < 2 ^ k"
    using assms(1) by (rule table_okE)
  let ?n = "2 * tbl_size t"
  have "(2::nat) ^ Suc k \<le> 2 ^ 61" using k(2) by (intro power_increasing) (auto simp: table_shape_def)
  then have n: "unat ?n = 2 ^ Suc k" using k(2) by (simp add: unat_word_ariths table_shape_def)
  have "(2::nat) ^ Suc k < 2 ^ 61" using assms(2) True n by (metis calloc_bounded_def)
  then have k61: "Suc k < 61" using power_less_imp_less_exp [of "2::nat" "Suc k" 61] by simp
  let ?t = "\<lparr>tbl_size = ?n, tbl_shift = tbl_shift t - 1, tbl_mask = ?n - 1,
              tbl_occupancy = tbl_occupancy t, tbl_entries = replicate (unat ?n) 0\<rparr>"
  have shape: "table_shape ?t (Suc k)"
    using k(2) k61 n mask_of_size [OF n] by (simp add: table_shape_def)
  then have ok: "slots_ok ?t (Suc k)" unfolding slots_ok_def by (simp add: n)
  have u: "used ?t = {}" "count_used ?t = 0" by (simp_all add: used_def count_used_def)
  have ne: "\<forall>e\<in>set (tbl_entries t). e \<noteq> 0 \<longrightarrow> Page e \<noteq> 0 \<and> Page e \<notin> Page ` used ?t"
  proof (intro ballI impI)
    fix e assume "e \<in> set (tbl_entries t)" "e \<noteq> 0"
    then obtain i where "i < 2 ^ k" "tbl_entries t ! i = e" using k(2) by (auto simp: in_set_conv_nth table_shape_def)
    with slots_okD(2) [OF k(1)] \<open>e \<noteq> 0\<close> u(1) show "Page e \<noteq> 0 \<and> Page e \<notin> Page ` used ?t" by auto
  qed
  have "count_used ?t + length (filter (\<lambda>e. e \<noteq> 0) (tbl_entries t)) < 2 ^ Suc k"
    using k(5) u(2) by (simp add: count_used_def)
  from rehash_ok [OF ok used_distinct [OF k(1)] ne this] obtain t' where t':
    "rehash (tbl_entries t) ?t = Some t'" "slots_ok t' (Suc k)" "used t' = used t" "count_used t' = count_used t"
    "tbl_occupancy t' = tbl_occupancy t"
    using u by (auto simp: used_def count_used_def)
  have "caml_page_table_resize calloc t = Some (0, t')"
    using True t'(1) by (simp add: caml_page_table_resize_def Let_def)
  moreover have "represents t' m" using represents_used [OF t'(3) k(3)] .
  ultimately show ?thesis using t'(2,4,5) k(4,5) by (intro exI [of _ 0] exI [of _ t']) auto
qed

section \<open>Modifying\<close>

definition page_aligned :: "u64 \<Rightarrow> bool" where
  "page_aligned p \<longleftrightarrow> p AND NOT Page_mask = 0"

lemma page_aligned_bit: "page_aligned p \<Longrightarrow> bit p n \<Longrightarrow> 12 \<le> n"
proof (rule ccontr)
  assume a: "page_aligned p" "bit p n" "\<not> 12 \<le> n"
  then have "bit (p AND NOT Page_mask) n"
    using bit_imp_le_length [OF a(2)] by (simp add: Page_mask_def Page_log_def bit_simps)
  with a(1) show False by (simp add: page_aligned_def)
qed

lemma byte_mask: "(0xFF :: u64) = mask 8"
  by (simp add: mask_eq_exp_minus_1)

lemma new_flags: "page_aligned p \<Longrightarrow> byte_flags s \<Longrightarrow> (p OR scast s) AND 0xFF = (scast s :: u64)"
  unfolding byte_mask
  by (rule bit_word_eqI) (use scast_flags_bit [of s] in \<open>auto simp: bit_simps dest: page_aligned_bit\<close>)

lemma changed_flags:
  "byte_flags s \<Longrightarrow> ((e AND scast (NOT (c :: u32))) OR scast s) AND 0xFF = ((e AND 0xFF) AND NOT (scast c)) OR (scast s :: u64)"
  unfolding byte_mask scast_not
  by (rule bit_word_eqI) (use scast_flags_bit [of s] in \<open>auto simp: bit_simps\<close>)

lemma slots_ok_occupancy: "slots_ok (t\<lparr>tbl_occupancy := n\<rparr>) k = slots_ok t k"
proof -
  have "Hash (t\<lparr>tbl_occupancy := n\<rparr>) v = Hash t v" for v by (simp add: Hash_def)
  then show ?thesis by (simp add: slots_ok_def table_shape_def)
qed

lemma modify_entry_ok:
  assumes ok: "slots_ok t k" "represents t m" "unat (tbl_occupancy t) = count_used t" "2 * count_used t < 2 ^ k"
    and page: "page_aligned page" "Page page \<noteq> 0" and flags: "byte_flags c" "byte_flags s"
  shows "\<exists>t'. modify_entry page c s t = Some t'
    \<and> table_ok t' (m(Page page := (m (Page page) AND NOT (scast c)) OR scast s))"
proof -
  note shape = slots_okD(1) [OF ok(1)]
  have less: "count_used t < 2 ^ k" using ok(4) by simp
  obtain j where j: "j < 2 ^ k"
    "tbl_entries t ! slot k (Hash t (Page page)) j = 0 \<and> Page page \<notin> Page ` used t
      \<or> tbl_entries t ! slot k (Hash t (Page page)) j \<noteq> 0 \<and> Page (tbl_entries t ! slot k (Hash t (Page page)) j) = Page page"
    "\<forall>l<j. tbl_entries t ! slot k (Hash t (Page page)) l \<noteq> 0 \<and> Page (tbl_entries t ! slot k (Hash t (Page page)) l) \<noteq> Page page"
    using search_ends [OF ok(1) less] .
  let ?stop = "\<lambda>e. e = 0 \<or> Page_entry_matches e page"
  from probe_finds [OF shape Hash_bound [OF shape, of "Page page"], where stop = ?stop and j = j] j(2,3) obtain h where
    h: "probe ?stop t (Hash t (Page page)) = Some h" "unat h = slot k (Hash t (Page page)) j"
    by (auto simp: Page_entry_matches_iff)
  have hb: "unat h < 2 ^ k" by (simp add: h(2))
  have m: "m (Page e) = e AND 0xFF" if "e \<in> used t" for e using ok(2) that unfolding represents_def by blast
  have m0: "m p = 0" if "p \<notin> Page ` used t" for p using ok(2) that unfolding represents_def by blast
  show ?thesis
  proof (cases "entry t h = 0")
    case True
    let ?e = "page OR scast s"
    let ?t = "set_entry h ?e t\<lparr>tbl_occupancy := tbl_occupancy t + 1\<rparr>"
    let ?m = "m(Page page := (m (Page page) AND NOT (scast c)) OR scast s)"
    have z: "tbl_entries t ! unat h = 0" using True by (simp add: entry_def)
    with j(2) h(2) have fresh: "Page page \<notin> Page ` used t" by auto
    have pe: "Page ?e = Page page" by (rule Page_or_flags [OF flags(2)])
    have i: "slots_ok (set_entry h ?e t) k" "used (set_entry h ?e t) = insert ?e (used t)"
      "count_used (set_entry h ?e t) = count_used t + 1"
      using insert_entry [OF ok(1), of ?e h j] pe fresh page(2) h(2) j(1,3) z by simp_all
    have "modify_entry page c s t = Some ?t" using h(1) True by (simp add: modify_entry_def)
    moreover have "slots_ok ?t k"
      using i(1) unfolding slots_ok_occupancy .
    moreover have "used ?t = insert ?e (used t)" using i(2) by (simp add: used_def)
    moreover have "represents ?t ?m"
      unfolding represents_def calculation(3)
    proof (intro conjI ballI allI impI)
      fix e assume e: "e \<in> insert ?e (used t)"
      show "?m (Page e) = e AND 0xFF"
      proof (cases "e = ?e")
        case True
        have "m (Page page) = 0" by (rule m0 [OF fresh])
        with True pe new_flags [OF page(1) flags(2)] show ?thesis by simp
      next
        case False
        with e have "e \<in> used t" by simp
        moreover from this fresh have "Page e \<noteq> Page page" by (metis image_eqI)
        ultimately show ?thesis using m by simp
      qed
    next
      fix p assume "p \<notin> Page ` insert ?e (used t)"
      then show "?m p = 0" using m0 pe by auto
    qed
    moreover have "(2::nat) ^ k \<le> 2 ^ 60" using shape by (intro power_increasing) (auto simp: table_shape_def)
    with ok(3) less have "unat (tbl_occupancy ?t) = count_used t + 1" by (simp add: unat_plus_small)
    moreover have "count_used ?t = count_used t + 1" using i(3) by (simp add: count_used_def)
    moreover have "2 * (count_used t + 1) \<le> 2 ^ k"
    proof -
      obtain k' where "k = Suc k'" using shape by (auto simp: table_shape_def gr0_conv_Suc)
      with ok(4) show ?thesis by simp
    qed
    ultimately show ?thesis unfolding table_ok_def by auto
  next
    case False
    let ?o = "tbl_entries t ! unat h"
    let ?e = "(?o AND scast (NOT c)) OR scast s"
    let ?t = "set_entry h ?e t"
    let ?m = "m(Page page := (m (Page page) AND NOT (scast c)) OR scast s)"
    have o: "?o \<noteq> 0" "Page ?o = Page page" using False j(2) h(2) by (auto simp: entry_def)
    then have uo: "?o \<in> used t" using used_nth [OF shape] hb by blast
    have pe: "Page ?e = Page ?o" using Page_or_flags [OF flags(2)] Page_clear_flags [OF flags(1)] by simp
    note u = update_entry [OF ok(1) hb o(1) pe]
    have "modify_entry page c s t = Some ?t" using h(1) False by (simp add: modify_entry_def entry_def)
    moreover have "represents ?t ?m"
      unfolding represents_def u(2)
    proof (intro conjI ballI allI impI)
      fix e assume e: "e \<in> insert ?e (used t - {?o})"
      show "?m (Page e) = e AND 0xFF"
      proof (cases "e = ?e")
        case True
        have "m (Page page) = ?o AND 0xFF" using m [OF uo] o(2) by simp
        moreover have "Page e = Page page" using True pe o(2) by simp
        ultimately show ?thesis using True changed_flags [OF flags(2)] by simp
      next
        case False
        with e have e': "e \<in> used t" "e \<noteq> ?o" by auto
        then obtain i where i: "i < 2 ^ k" "tbl_entries t ! i = e" "e \<noteq> 0" using used_nth [OF shape] by blast
        have "Page e \<noteq> Page page"
          using slots_okD(4) [OF ok(1) i(1) hb] i(2,3) o e'(2) by auto
        then show ?thesis using m [OF e'(1)] by simp
      qed
    next
      fix p assume p: "p \<notin> Page ` insert ?e (used t - {?o})"
      then have "p \<noteq> Page page" using pe o(2) by auto
      moreover have "p \<notin> Page ` used t" using p o(2) \<open>p \<noteq> Page page\<close> by auto
      ultimately show "?m p = 0" using m0 by simp
    qed
    moreover have "2 * count_used t \<le> 2 ^ k" using ok(4) by simp
    ultimately show ?thesis using u(1,3) ok(3) unfolding table_ok_def by auto
  qed
qed

lemma modify_ok:
  assumes "table_ok t m" "calloc_bounded calloc" "page_aligned page" "Page page \<noteq> 0" "byte_flags c" "byte_flags s"
  shows "\<exists>r t'. caml_page_table_modify calloc page c s t = Some (r, t')
    \<and> (r = 0 \<and> table_ok t' (m(Page page := (m (Page page) AND NOT (scast c)) OR scast s)) \<or> r = - 1 \<and> t' = t)"
proof (cases "tbl_size t \<le> tbl_occupancy t * 2")
  case True
  obtain r t1 where r: "caml_page_table_resize calloc t = Some (r, t1)" "r = 0 \<or> r = - 1 \<and> t1 = t"
    "r = 0 \<Longrightarrow> \<exists>k. slots_ok t1 k \<and> represents t1 m \<and> unat (tbl_occupancy t1) = count_used t1 \<and> 2 * count_used t1 < 2 ^ k"
    using resize_ok [OF assms(1,2)] by blast
  show ?thesis
  proof (cases "r = 0")
    case True
    with r(3) obtain k where "slots_ok t1 k" "represents t1 m" "unat (tbl_occupancy t1) = count_used t1"
      "2 * count_used t1 < 2 ^ k" by blast
    from modify_entry_ok [OF this assms(3-)] obtain t' where "modify_entry page c s t1 = Some t'"
      "table_ok t' (m(Page page := (m (Page page) AND NOT (scast c)) OR scast s))" by blast
    then show ?thesis using True r(1) \<open>tbl_size t \<le> _\<close> by (simp add: caml_page_table_modify_def)
  next
    case False
    then show ?thesis using r(1,2) True by (simp add: caml_page_table_modify_def)
  qed
next
  case False
  obtain k where k: "slots_ok t k" "table_shape t k" "represents t m" "unat (tbl_occupancy t) = count_used t"
    "2 * count_used t \<le> 2 ^ k"
    using assms(1) by (rule table_okE)
  have "(2::nat) ^ k \<le> 2 ^ 60" using k(2) by (intro power_increasing) (auto simp: table_shape_def)
  then have "unat (tbl_occupancy t * 2) = count_used t * 2" using k(4,5) by (simp add: unat_word_ariths)
  with False k(2) have "2 * count_used t < 2 ^ k" by (simp add: word_le_nat_alt table_shape_def)
  from modify_entry_ok [OF k(1,3,4) this assms(3-)] False show ?thesis
    by (auto simp: caml_page_table_modify_def)
qed

section \<open>Areas\<close>

lemma page_aligned_unat: "page_aligned p \<longleftrightarrow> unat p mod 4096 = 0"
proof -
  have "NOT Page_mask = mask 12" by (simp add: Page_mask_def Page_log_def mask_eq_exp_minus_1)
  then have "page_aligned p \<longleftrightarrow> unat (p AND mask 12) = 0" by (simp only: page_aligned_def unat_eq_zero)
  then show ?thesis by (simp add: unat_and_mask)
qed

lemma Page_unat: "unat (Page p) = unat p div 4096"
  by (simp add: Page_def Page_log_def unat_shiftr)

lemma Page_start: "Page (a AND Page_mask) = Page a" "page_aligned (a AND Page_mask)"
proof -
  show "Page (a AND Page_mask) = Page a"
    by (rule bit_word_eqI) (auto simp: Page_def Page_mask_def Page_log_def bit_simps dest: bit_imp_le_length)
  show "page_aligned (a AND Page_mask)"
    unfolding page_aligned_def by (rule bit_word_eqI) (auto simp: bit_simps)
qed

lemma next_page:
  assumes "page_aligned p" "unat p + 4096 < 2 ^ 64"
  shows "page_aligned (p + Page_size)" "unat (Page (p + Page_size)) = unat (Page p) + 1"
    "unat (p + Page_size) = unat p + 4096"
proof -
  have "unat Page_size = 4096" by (simp add: Page_size_def Page_log_def)
  then show u: "unat (p + Page_size) = unat p + 4096" using assms(2) by (subst unat_plus_small) simp_all
  show "page_aligned (p + Page_size)" using assms(1) u by (simp add: page_aligned_unat)
  show "unat (Page (p + Page_size)) = unat (Page p) + 1" using u by (simp add: Page_unat)
qed

text \<open>The pages of an area up to \<open>q\<close> are modified; only an area that is done gives \<open>0\<close>.\<close>

definition modified :: "u32 \<Rightarrow> u32 \<Rightarrow> u64 \<Rightarrow> u64 \<Rightarrow> (u64 \<Rightarrow> u64) \<Rightarrow> u64 \<Rightarrow> u64" where
  "modified c s p q m x = (if p \<le> x \<and> x < q then (m x AND NOT (scast c)) OR scast s else m x)"

lemma modify_pages_ok:
  assumes "calloc_bounded calloc" "byte_flags c" "byte_flags s" "page_aligned pend" "unat pend + 4096 < 2 ^ 64"
    and "table_ok t m" "page_aligned p" "Page p \<noteq> 0" "unat (Page p) + n = unat (Page pend) + 1"
  shows "\<exists>r t' q. modify_pages calloc c s p pend t = Some (r, t') \<and> table_ok t' (modified c s (Page p) q m)
    \<and> Page p \<le> q \<and> (r = 0 \<and> unat q = unat (Page pend) + 1 \<or> r = - 1 \<and> q \<le> Page pend)"
  using assms(6-)
proof (induction n arbitrary: p t m)
  case 0
  have "\<not> p \<le> pend"
  proof
    assume "p \<le> pend"
    then have "unat p div 4096 \<le> unat pend div 4096" by (intro div_le_mono) (simp add: word_le_nat_alt)
    with 0(4) show False by (simp add: Page_unat)
  qed
  then have "modify_pages calloc c s p pend t = Some (0, t)" by (subst modify_pages.simps) simp
  moreover have "modified c s (Page p) (Page p) m = m" by (rule ext) (auto simp: modified_def)
  ultimately show ?case using 0 by (intro exI [of _ 0] exI [of _ t] exI [of _ "Page p"]) simp
next
  case (Suc n)
  let ?f = "\<lambda>x. (x AND NOT (scast c)) OR scast s :: u64"
  have up: "unat p = 4096 * unat (Page p)" "unat pend = 4096 * unat (Page pend)"
    using Suc.prems(2) assms(4) by (auto simp: page_aligned_unat Page_unat)
  then have le: "p \<le> pend" "unat p + 4096 < 2 ^ 64" using Suc.prems(4) assms(5) by (simp_all add: word_le_nat_alt)
  note np = next_page [OF Suc.prems(2) le(2)]
  obtain r t1 where r: "caml_page_table_modify calloc p c s t = Some (r, t1)"
    "r = 0 \<and> table_ok t1 (m(Page p := ?f (m (Page p)))) \<or> r = - 1 \<and> t1 = t"
    using modify_ok [OF Suc.prems(1) assms(1) Suc.prems(2,3) assms(2,3)] by blast
  then consider (changed) "r = 0" "table_ok t1 (m(Page p := ?f (m (Page p))))" | (failed) "r = - 1" "t1 = t" by blast
  then show ?case
  proof cases
    case failed
    then have "modify_pages calloc c s p pend t = Some (- 1, t)" using r(1) le(1) by (subst modify_pages.simps) simp
    moreover have "modified c s (Page p) (Page p) m = m" by (rule ext) (auto simp: modified_def)
    moreover have "Page p \<le> Page pend" using Suc.prems(4) by (simp add: word_le_nat_alt)
    ultimately show ?thesis using Suc.prems(1) by (intro exI [of _ "- 1"] exI [of _ t] exI [of _ "Page p"]) simp
  next
    case changed
    have "unat (Page (p + Page_size)) + n = unat (Page pend) + 1" using np(2) Suc.prems(4) by simp
    moreover have "Page (p + Page_size) \<noteq> 0" using np(2) by (metis add_is_0 one_neq_zero unat_eq_zero)
    ultimately obtain r' t' q where q: "modify_pages calloc c s (p + Page_size) pend t1 = Some (r', t')"
      "table_ok t' (modified c s (Page (p + Page_size)) q (m(Page p := ?f (m (Page p)))))" "Page (p + Page_size) \<le> q"
      "r' = 0 \<and> unat q = unat (Page pend) + 1 \<or> r' = - 1 \<and> q \<le> Page pend"
      using Suc.IH [OF changed(2) np(1)] by blast
    have "modified c s (Page (p + Page_size)) q (m(Page p := ?f (m (Page p)))) = modified c s (Page p) q m"
    proof
      fix x
      have "Page (p + Page_size) \<le> x \<longleftrightarrow> Page p \<le> x \<and> x \<noteq> Page p"
        using np(2) by (auto simp: word_le_nat_alt word_unat_eq_iff)
      moreover have "Page p < q" using q(3) np(2) by (simp add: word_le_nat_alt word_less_nat_alt)
      ultimately show "modified c s (Page (p + Page_size)) q (m(Page p := ?f (m (Page p)))) x = modified c s (Page p) q m x"
        by (auto simp: modified_def)
    qed
    moreover have "Page p \<le> q" using q(3) np(2) by (simp add: word_le_nat_alt)
    moreover have "modify_pages calloc c s p pend t = Some (r', t')"
      using changed(1) r(1) le(1) q(1) by (subst modify_pages.simps) simp
    ultimately show ?thesis using q(2,4) by auto
  qed
qed

lemma area_ok:
  assumes "calloc_bounded calloc" "byte_flags c" "byte_flags s" "table_ok t m"
    and "Page a \<noteq> 0" "a < b" "unat b + 4096 < 2 ^ 64"
  shows "\<exists>r t' m'. modify_pages calloc c s (a AND Page_mask) ((b - 1) AND Page_mask) t = Some (r, t') \<and> table_ok t' m'
    \<and> (r = 0 \<longrightarrow> m' = (\<lambda>x. if Page a \<le> x \<and> x \<le> Page (b - 1) then (m x AND NOT (scast c)) OR scast s else m x))"
proof -
  let ?p = "a AND Page_mask" and ?q = "(b - 1) AND Page_mask"
  have b: "unat (b - 1) = unat b - 1" using assms(6) by (intro unat_minus_one) auto
  have "unat ?q \<le> unat (b - 1)" by (simp add: word_and_le2 flip: word_le_nat_alt)
  then have pend: "unat ?q + 4096 < 2 ^ 64" using b assms(7) by linarith
  have "unat a \<le> unat (b - 1)" using b assms(6) by (simp add: word_less_nat_alt)
  then have "unat (Page a) \<le> unat (Page (b - 1))" unfolding Page_unat by (rule div_le_mono)
  then have n: "unat (Page ?p) + (unat (Page (b - 1)) + 1 - unat (Page a)) = unat (Page ?q) + 1" by (simp add: Page_start)
  have "Page ?p \<noteq> 0" using assms(5) by (simp add: Page_start)
  from modify_pages_ok [OF assms(1-3) Page_start(2) pend assms(4) Page_start(2) this n] obtain r t' q where
    q: "modify_pages calloc c s ?p ?q t = Some (r, t')" "table_ok t' (modified c s (Page ?p) q m)"
    "r = 0 \<and> unat q = unat (Page ?q) + 1 \<or> r = - 1 \<and> q \<le> Page ?q" by blast
  have "modified c s (Page ?p) q m = (\<lambda>x. if Page a \<le> x \<and> x \<le> Page (b - 1) then (m x AND NOT (scast c)) OR scast s else m x)"
    if "r = 0"
    using q(3) that by (intro ext) (auto simp: modified_def Page_start word_less_nat_alt word_le_nat_alt)
  with q(1,2) show ?thesis by blast
qed

fun valid_area :: "area_op \<Rightarrow> bool" where
  "valid_area (Add_area kind a b) \<longleftrightarrow> byte_flags kind \<and> Page a \<noteq> 0 \<and> a < b \<and> unat b + 4096 < 2 ^ 64"
| "valid_area (Remove_area kind a b) \<longleftrightarrow> byte_flags kind \<and> Page a \<noteq> 0 \<and> a < b \<and> unat b + 4096 < 2 ^ 64"

definition granting :: "(u64 \<Rightarrow> bool) \<Rightarrow> u64 \<Rightarrow> bool" where
  "granting calloc n \<longleftrightarrow> calloc n \<and> unat n < 2 ^ 61"

lemma granting_bounded: "calloc_bounded (granting calloc)"
  by (simp add: calloc_bounded_def granting_def)

interpretation areas: area_table table_ok Page valid_area Classify_addr
  "caml_page_table_add (granting calloc)" "caml_page_table_remove (granting calloc)" for calloc
proof
  fix t m a assume "table_ok t m"
  then show "Classify_addr t a = Some (m (Page a))" unfolding Classify_addr_def by (rule lookup_ok)
next
  fix t m kind a b assume ok: "table_ok t m" and v: "valid_area (Add_area kind a b)"
  have "byte_flags 0" by (simp add: byte_flags_def)
  from area_ok [OF granting_bounded [of calloc] this _ ok, where s = kind and a = a and b = b] v obtain r t' m' where
    1: "caml_page_table_add (granting calloc) kind a b t = Some (r, t')" "table_ok t' m'"
    "r = 0 \<longrightarrow> m' = (\<lambda>x. if Page a \<le> x \<and> x \<le> Page (b - 1) then (m x AND NOT (scast (0 :: u32))) OR scast kind else m x)"
    unfolding caml_page_table_add_def by auto
  then have "r = 0 \<longrightarrow> m' = area_op_map Page (Add_area kind a b) m" by (auto simp: fun_eq_iff)
  with 1(1,2) show "\<exists>r t'. caml_page_table_add (granting calloc) kind a b t = Some (r, t')
    \<and> (\<exists>m'. table_ok t' m' \<and> (r = 0 \<longrightarrow> m' = area_op_map Page (Add_area kind a b) m))" by blast
next
  fix t m kind a b assume ok: "table_ok t m" and v: "valid_area (Remove_area kind a b)"
  have "byte_flags 0" by (simp add: byte_flags_def)
  from area_ok [OF granting_bounded [of calloc] _ this ok, where c = kind and a = a and b = b] v obtain r t' m' where
    1: "caml_page_table_remove (granting calloc) kind a b t = Some (r, t')" "table_ok t' m'"
    "r = 0 \<longrightarrow> m' = (\<lambda>x. if Page a \<le> x \<and> x \<le> Page (b - 1) then (m x AND NOT (scast kind)) OR scast (0 :: u32) else m x)"
    unfolding caml_page_table_remove_def by auto
  then have "r = 0 \<longrightarrow> m' = area_op_map Page (Remove_area kind a b) m" by (auto simp: fun_eq_iff)
  with 1(1,2) show "\<exists>r t'. caml_page_table_remove (granting calloc) kind a b t = Some (r, t')
    \<and> (\<exists>m'. table_ok t' m' \<and> (r = 0 \<longrightarrow> m' = area_op_map Page (Remove_area kind a b) m))" by blast
qed

lemma granting_id: "calloc_bounded calloc \<Longrightarrow> granting calloc = calloc"
  by (rule ext) (auto simp: granting_def calloc_bounded_def)

section \<open>The first table\<close>

lemma initial_size_ok:
  assumes "unat ps < 2 ^ 52" "0 < unat ps" "k + n = 53"
  shows "\<exists>k'. initial_size ps (2 ^ k) (64 - k) = Some (2 ^ k', 64 - k') \<and> 0 < k' \<and> k' \<le> 53"
  using assms(3)
proof (induction n arbitrary: k)
  case 0
  have "unat (2 * ps) = 2 * unat ps" using assms(1) by (simp add: unat_word_ariths)
  then have "\<not> (2 :: u64) ^ 53 < 2 * ps" using assms(1) by (simp add: word_less_nat_alt)
  with 0 have "initial_size ps (2 ^ k) (64 - k) = Some (2 ^ 53, 64 - 53)" by (subst initial_size.simps) simp
  then show ?case by (intro exI [of _ 53]) simp
next
  case (Suc n)
  show ?case
  proof (cases "(2 :: u64) ^ k < 2 * ps")
    case True
    have "push_bit 1 ((2 :: u64) ^ k) = 2 ^ Suc k" by (simp add: push_bit_eq_mult mult.commute)
    moreover have "64 - k - 1 = 64 - Suc k" by simp
    ultimately have "initial_size ps (2 ^ k) (64 - k) = initial_size ps (2 ^ Suc k) (64 - Suc k)"
      using True by (subst initial_size.simps) (simp only: if_True)
    with Suc.IH [of "Suc k"] Suc.prems show ?thesis by simp
  next
    case False
    moreover have "k \<noteq> 0"
    proof
      assume "k = 0"
      moreover have "unat (2 * ps) = 2 * unat ps" using assms(1) by (simp add: unat_word_ariths)
      ultimately show False using False assms(2) by (simp add: word_less_nat_alt)
    qed
    ultimately show ?thesis using Suc.prems by (subst initial_size.simps) auto
  qed
qed

lemma initialize_ok:
  assumes "4096 \<le> unat bytesize"
  shows "\<exists>r t. caml_page_table_initialize calloc bytesize = Some (r, t) \<and> (r = 0 \<longrightarrow> table_ok t (\<lambda>p. 0))"
proof -
  have "unat bytesize < 2 ^ 64" using unat_lt_pow2 [of bytesize] by simp
  then have "unat (Page bytesize) < 2 ^ 52" "0 < unat (Page bytesize)" using assms by (simp_all add: Page_unat)
  from initial_size_ok [OF this, of 0 53] obtain k where
    k: "initial_size (Page bytesize) 1 64 = Some (2 ^ k, 64 - k)" "0 < k" "k \<le> 53" by auto
  let ?t = "\<lparr>tbl_size = 2 ^ k, tbl_shift = 64 - k, tbl_mask = 2 ^ k - 1, tbl_occupancy = 0,
             tbl_entries = replicate (unat (2 ^ k :: u64)) 0\<rparr>"
  have "(2::nat) ^ k \<le> 2 ^ 53" using k(3) by (intro power_increasing) simp_all
  then have "(2::nat) ^ k < 2 ^ LENGTH(64)" by simp
  then have "unat (word_of_nat (2 ^ k) :: u64) = 2 ^ k" by (rule unat_of_nat_small)
  then have u: "unat (2 ^ k :: u64) = 2 ^ k" by simp
  have "table_shape ?t k" using k(2,3) u mask_of_size [OF u] by (simp add: table_shape_def)
  then have "slots_ok ?t k" unfolding slots_ok_def by (simp add: u)
  moreover have "used ?t = {}" "count_used ?t = 0" by (simp_all add: used_def count_used_def)
  ultimately have "table_ok ?t (\<lambda>p. 0)"
    unfolding table_ok_def represents_def by (intro exI [of _ k]) simp
  then show ?thesis using k(1) by (simp add: caml_page_table_initialize_def)
qed

text \<open>
  C4. A page table that is created and then updated by any sequence of areas added and removed
  stands for the map of their classes: every operation ends, for any hash collisions and growth,
  and as long as none fails for want of memory, the class of every address is the one the sequence gives it.
\<close>

theorem page_table_refines:
  assumes "calloc_bounded calloc" "4096 \<le> unat bytesize" "list_all valid_area ops"
  shows "\<exists>r t. Option.bind (caml_page_table_initialize calloc bytesize)
      (\<lambda>(r, t). if r \<noteq> 0 then Some (r, t)
        else run_area_ops (caml_page_table_add calloc) (caml_page_table_remove calloc) ops t) = Some (r, t)
    \<and> (r = 0 \<longrightarrow> (\<forall>a. Classify_addr t a = Some (fold (area_op_map Page) ops (\<lambda>p. 0) (Page a))))"
proof -
  obtain r t where i: "caml_page_table_initialize calloc bytesize = Some (r, t)" "r = 0 \<longrightarrow> table_ok t (\<lambda>p. 0)"
    using initialize_ok [OF assms(2)] by blast
  show ?thesis
  proof (cases "r = 0")
    case True
    with areas.run_classify [where calloc = calloc, OF _ assms(3)] i show ?thesis
      by (simp add: granting_id [OF assms(1)])
  qed (use i in simp)
qed

theorem page_table_refines_witness:
  "\<exists>r t. Option.bind (caml_page_table_initialize (\<lambda>n. unat n \<le> 1024) 65536)
      (\<lambda>(r, t). if r \<noteq> 0 then Some (r, t)
        else run_area_ops (caml_page_table_add (\<lambda>n. unat n \<le> 1024)) (caml_page_table_remove (\<lambda>n. unat n \<le> 1024))
          [Add_area In_young 65536 131072, Add_area In_heap 131072 200000, Remove_area In_young 65536 131072] t)
      = Some (r, t)
    \<and> (r = 0 \<longrightarrow> (\<forall>a. Classify_addr t a = Some (fold (area_op_map Page)
          [Add_area In_young 65536 131072, Add_area In_heap 131072 200000, Remove_area In_young 65536 131072] (\<lambda>p. 0) (Page a))))"
proof -
  let ?ops = "[Add_area In_young 65536 131072, Add_area In_heap 131072 200000, Remove_area In_young 65536 131072]"
  have "calloc_bounded (\<lambda>n. unat n \<le> 1024)" by (simp add: calloc_bounded_def)
  moreover have "4096 \<le> unat (65536 :: u64)" by simp
  moreover have "list_all valid_area ?ops"
    by (simp add: byte_flags_def In_young_def In_heap_def Page_def Page_log_def word_unat_eq_iff unat_shiftr)
  ultimately show ?thesis by (rule page_table_refines)
qed

end
