(* ===== verification/Heap_Chunks.thy ===== *)
theory Heap_Chunks
  imports Page_Table_Proofs
begin

text \<open>
  The chunks of the major heap (\<open>memory.c\<close>): chaining a chunk in address order and entering its
  pages, and the counters that speed the collector up. A chunk is its address and its size in bytes.
\<close>

record heap_chunk_state =
  page_tbl :: page_table
  heap_start :: "(u64 \<times> u64) list"
  stat_heap_chunks :: u64
  stat_heap_bytes :: u64
  stat_top_heap_bytes :: u64

fun chain_chunk :: "u64 \<times> u64 \<Rightarrow> (u64 \<times> u64) list \<Rightarrow> (u64 \<times> u64) list" where
  "chain_chunk m [] = [m]"
| "chain_chunk m (cur # cs) = (if fst cur < fst m then cur # chain_chunk m cs else m # cur # cs)"

definition caml_add_to_heap :: "(u64 \<Rightarrow> bool) \<Rightarrow> u64 \<Rightarrow> u64 \<Rightarrow> heap_chunk_state \<Rightarrow> (int \<times> heap_chunk_state) option" where
  "caml_add_to_heap calloc m size_m s =
     Option.bind (caml_page_table_add calloc In_heap m (m + size_m) (page_tbl s)) (\<lambda>(r, t).
       if r \<noteq> 0 then Some (- 1, s\<lparr>page_tbl := t\<rparr>)
       else
         (let bytes = stat_heap_bytes s + size_m
          in Some (0, s\<lparr>page_tbl := t, heap_start := chain_chunk (m, size_m) (heap_start s),
               stat_heap_chunks := stat_heap_chunks s + 1, stat_heap_bytes := bytes,
               stat_top_heap_bytes := (if bytes > stat_top_heap_bytes s then bytes else stat_top_heap_bytes s)\<rparr>)))"

text \<open>
  Dependent memory (in words) and extra resources, which are counted in parts of \<open>P_RATIO\<close> in the
  kernel; \<open>urge\<close> tells that a slice of the major collector is asked for.
\<close>

record gc_speed =
  dependent_size :: u64
  dependent_allocated :: u64
  extra_heap_resources :: u64
  urge :: bool

definition caml_alloc_dependent_memory :: "u64 \<Rightarrow> gc_speed \<Rightarrow> gc_speed" where
  "caml_alloc_dependent_memory nbytes s =
     s\<lparr>dependent_size := dependent_size s + nbytes div 8, dependent_allocated := dependent_allocated s + nbytes div 8\<rparr>"

definition caml_free_dependent_memory :: "u64 \<Rightarrow> gc_speed \<Rightarrow> gc_speed" where
  "caml_free_dependent_memory nbytes s =
     (if dependent_size s < nbytes div 8 then s\<lparr>dependent_size := 0\<rparr>
      else s\<lparr>dependent_size := dependent_size s - nbytes div 8\<rparr>)"

definition P_RATIO :: u64 where "P_RATIO = 1000000000"

definition caml_adjust_gc_speed :: "u64 \<Rightarrow> u64 \<Rightarrow> u64 \<Rightarrow> u64 \<Rightarrow> gc_speed \<Rightarrow> gc_speed" where
  "caml_adjust_gc_speed minor_heap_size heap_size res mx s =
     (let mx = (if mx = 0 then 1 else mx);
          res = (if res > mx then mx else res);
          s = s\<lparr>extra_heap_resources := extra_heap_resources s + (res * P_RATIO) div mx\<rparr>;
          s = (if extra_heap_resources s > P_RATIO then s\<lparr>extra_heap_resources := P_RATIO, urge := True\<rparr> else s)
      in if extra_heap_resources s > (minor_heap_size div 8 * P_RATIO) div 2 div (heap_size div 8)
         then s\<lparr>urge := True\<rparr> else s)"

end
