(* ===== verification/Hash.thy ===== *)
theory Hash
  imports Compare_Proofs
begin

text \<open>
  The polymorphic hash function and the hash of variant tags (\<open>hash.c\<close>). The three static
  variables are a state that the recursion threads through the fields of a block, last one first;
  a value without an end has no hash (\<open>None\<close>).
\<close>

section \<open>The hash of a value\<close>

record hash_state =
  hash_accu :: u64
  hash_univ_limit :: u64
  hash_univ_count :: u64

definition Alpha :: u64 where "Alpha = 65599"
definition Beta :: u64 where "Beta = 19"

definition Combine :: "u64 \<Rightarrow> hash_state \<Rightarrow> hash_state" where
  "Combine x st = st\<lparr>hash_accu := hash_accu st * Alpha + x\<rparr>"

definition Combine_small :: "u64 \<Rightarrow> hash_state \<Rightarrow> hash_state" where
  "Combine_small x st = st\<lparr>hash_accu := hash_accu st * Beta + x\<rparr>"

definition Combine_bytes :: "u8 list \<Rightarrow> hash_state \<Rightarrow> hash_state" where
  "Combine_bytes bs st = fold (\<lambda>p. Combine_small (ucast p)) bs st"

definition count_down :: "hash_state \<Rightarrow> hash_state" where
  "count_down st = st\<lparr>hash_univ_count := hash_univ_count st - 1\<rparr>"

definition hash_enter :: "hash_state \<Rightarrow> hash_state" where
  "hash_enter st = st\<lparr>hash_univ_limit := hash_univ_limit st - 1\<rparr>"

definition hash_stops :: "hash_state \<Rightarrow> bool" where
  "hash_stops st \<longleftrightarrow> sint (hash_univ_count st) < 0 \<or> sint (hash_univ_limit st) < 0"

text \<open>A loop in the option monad.\<close>

fun fold_option :: "('a \<Rightarrow> 's \<Rightarrow> 's option) \<Rightarrow> 'a list \<Rightarrow> 's \<Rightarrow> 's option" where
  "fold_option f [] s = Some s"
| "fold_option f (x # xs) s = Option.bind (f x s) (fold_option f xs)"

lemma fold_option_mono [partial_function_mono]:
  assumes "\<And>x s. mono_option (\<lambda>f. B f x s)"
  shows "mono_option (\<lambda>f. fold_option (B f) xs s)"
proof (induction xs arbitrary: s)
  case (Cons x xs)
  then show ?case by (simp add: bind_mono [OF assms])
qed (simp add: monotone_on_def option.leq_refl)

text \<open>
  \<open>hash_again\<close> is \<open>hash_aux\<close> from the label \<open>again\<close> on. \<open>hash\<close> of the custom operations number \<open>ops\<close>
  is \<open>None\<close> for \<open>NULL\<close>; a pointer that is not in the store is outside the heap.
\<close>

partial_function (option) hash_again ::
    "(nat \<Rightarrow> (block \<Rightarrow> u64) option) \<Rightarrow> heap \<Rightarrow> val \<Rightarrow> hash_state \<Rightarrow> hash_state option" where
  "hash_again hash h obj st =
     (case obj of
        Long n \<Rightarrow> Some (Combine (Long_val n) (count_down st))
      | Ptr a \<Rightarrow>
          (case h a of
             None \<Rightarrow> Some (Combine (word_of_addr a) st)
           | Some (Opaque t bs) \<Rightarrow>
               (if t = String_tag then Some (Combine_bytes (take (string_length bs) bs) (count_down st))
                else if t = Double_tag then Some (Combine_bytes (take 8 bs) (count_down st))
                else if t = Double_array_tag then Some (Combine_bytes bs (count_down st))
                else if t = Abstract_tag then Some st
                else None)
           | Some (Infix n) \<Rightarrow>
               (let st = hash_enter st
                in if hash_stops st then Some st else hash_again hash h (Ptr (a - n)) st)
           | Some (Custom ops bs) \<Rightarrow>
               (case hash ops of
                  None \<Rightarrow> Some st
                | Some f \<Rightarrow> Some (Combine (f (Custom ops bs)) (count_down st)))
           | Some (Scannable t fs) \<Rightarrow>
               (if t = Forward_tag then
                  (case fs of v # _ \<Rightarrow> hash_again hash h v st | [] \<Rightarrow> None)
                else if t = Object_tag then
                  (case Oid_val (Scannable t fs) of Some oid \<Rightarrow> Some (Combine oid (count_down st)) | None \<Rightarrow> None)
                else
                  fold_option
                    (\<lambda>v st. let st = hash_enter st in if hash_stops st then Some st else hash_again hash h v st)
                    (rev fs) (Combine_small (of_nat t) (count_down st)))))"

definition hash_aux :: "(nat \<Rightarrow> (block \<Rightarrow> u64) option) \<Rightarrow> heap \<Rightarrow> val \<Rightarrow> hash_state \<Rightarrow> hash_state option" where
  "hash_aux hash h obj st =
     (let st = hash_enter st in if hash_stops st then Some st else hash_again hash h obj st)"

definition caml_hash_univ_param ::
    "(nat \<Rightarrow> (block \<Rightarrow> u64) option) \<Rightarrow> heap \<Rightarrow> u64 \<Rightarrow> u64 \<Rightarrow> val \<Rightarrow> u64 option" where
  "caml_hash_univ_param hash h cnt lim obj =
     map_option (\<lambda>st. Val_long (hash_accu st AND 0x3FFFFFFF))
       (hash_aux hash h obj \<lparr>hash_accu = 0, hash_univ_limit = Long_val lim, hash_univ_count = Long_val cnt\<rparr>)"

section \<open>The hash of a variant tag\<close>

text \<open>The bytes of the tag before its null; the arithmetic is that of \<open>int\<close>.\<close>

definition hash_variant_step :: "u8 \<Rightarrow> u64 \<Rightarrow> u64" where
  "hash_variant_step b accu = Val_long (scast (223 * Int_val accu + ucast b))"

definition caml_hash_variant :: "u8 list \<Rightarrow> u64" where
  "caml_hash_variant tag =
     scast (ucast (fold hash_variant_step tag (Val_long 0) AND Val_long 0x7FFFFFFF) :: u32)"

section \<open>Equal values\<close>

text \<open>The hash of the tree a value stands for.\<close>

fun hash_tree :: "tree \<Rightarrow> hash_state \<Rightarrow> hash_state" and hash_trees :: "tree list \<Rightarrow> hash_state \<Rightarrow> hash_state" where
  "hash_tree (TLong n) st = Combine (word_of_int n) (count_down st)"
| "hash_tree (TString s) st = Combine_bytes s (count_down st)"
| "hash_tree (TObject n) st = Combine (word_of_int n) (count_down st)"
| "hash_tree (TBlock t ts) st = hash_trees ts (Combine_small (of_nat t) (count_down st))"
| "hash_trees [] st = st"
| "hash_trees (t # ts) st =
     (let st = hash_enter (hash_trees ts st) in if hash_stops st then st else hash_tree t st)"

lemma fold_option_append:
  "fold_option f (xs @ ys) s = Option.bind (fold_option f xs s) (fold_option f ys)"
proof (induction xs arbitrary: s)
  case (Cons x xs)
  then show ?case by (cases "f x s") simp_all
qed simp

abbreviation visit where
  "visit hash h \<equiv> \<lambda>v st. let st = hash_enter st in if hash_stops st then Some st else hash_again hash h v st"

lemma visit_fields:
  assumes "list_all2 (\<lambda>v t. repr h v t \<and> (\<forall>st. hash_again hash h v st = Some (hash_tree t st))) fs ts"
  shows "fold_option (visit hash h) (rev fs) st = Some (hash_trees ts st)"
  using assms
proof (induction fs ts rule: list_all2_induct)
  case (Cons v fs t ts)
  then show ?case by (simp add: fold_option_append Let_def)
qed simp

lemma hash_again_repr:
  assumes "repr h v t"
  shows "hash_again hash h v st = Some (hash_tree t st)"
  using assms
proof (induction arbitrary: st rule: repr.induct)
  case (repr_long n)
  then show ?case by (subst hash_again.simps) simp
next
  case (repr_string a s)
  then show ?case by (subst hash_again.simps) simp
next
  case (repr_object a m oid fs)
  then show ?case by (subst hash_again.simps) (simp add: tag_defs)
next
  case (repr_block a t fs ts)
  have nf: "t \<noteq> Forward_tag" "t \<noteq> Object_tag" using repr_block.hyps(2) by (simp_all add: plain_tag_def)
  have "list_all2 (\<lambda>v t. repr h v t \<and> (\<forall>st. hash_again hash h v st = Some (hash_tree t st))) fs ts"
    using repr_block.IH by (auto elim: list_all2_mono)
  from visit_fields [OF this] show ?case
    by (subst hash_again.simps) (simp add: repr_block.hyps(1) nf)
next
  case (repr_forward a v fs t)
  then show ?case by (subst hash_again.simps) simp
qed

lemma hash_univ_repr:
  assumes "repr h v t"
  shows "caml_hash_univ_param hash h cnt lim v =
    Some (let st = hash_trees [t] \<lparr>hash_accu = 0, hash_univ_limit = Long_val lim, hash_univ_count = Long_val cnt\<rparr>
      in Val_long (hash_accu st AND 0x3FFFFFFF))"
  by (simp add: caml_hash_univ_param_def hash_aux_def Let_def hash_again_repr [OF assms])

lemma hash_range: "0 \<le> sint (Long_val (Val_long (x AND 0x3FFFFFFF)))" "sint (Long_val (Val_long (x AND 0x3FFFFFFF))) < 2 ^ 30"
proof -
  have m: "x AND 0x3FFFFFFF = of_nat (unat x mod 2 ^ 30)"
  proof -
    have "(0x3FFFFFFF :: u64) = mask 30" by (simp add: mask_eq_exp_minus_1)
    then have "unat (x AND 0x3FFFFFFF) = unat x mod 2 ^ 30" using unat_and_mask [of x 30] by simp
    moreover have "x AND 0x3FFFFFFF = of_nat (unat (x AND 0x3FFFFFFF))" by simp
    ultimately show ?thesis by simp
  qed
  have "unat x mod 2 ^ 30 < 2 ^ 62" by (rule less_trans [OF mod_less_divisor]) simp_all
  then have "Long_val (Val_long (x AND 0x3FFFFFFF)) = of_nat (unat x mod 2 ^ 30)"
    unfolding m by (rule Long_val_Val_long_of_nat)
  moreover have "sint (of_nat (unat x mod 2 ^ 30) :: u64) = int (unat x mod 2 ^ 30)"
    by (rule sint_of_nat_small) (rule less_trans [OF mod_less_divisor], simp_all)
  ultimately show "0 \<le> sint (Long_val (Val_long (x AND 0x3FFFFFFF)))"
    "sint (Long_val (Val_long (x AND 0x3FFFFFFF))) < 2 ^ 30"
    using mod_less_divisor [of "2 ^ 30" "unat x"] by simp_all
qed

text \<open>
  C13. Values that the structural equality holds equal have the same hash, whatever the two
  bounds on the search, however they are shared, forwarded or where they are; the hash is
  computed in finitely many steps and is a nonnegative integer of 30 bits.
\<close>

theorem equal_values_hash_equal:
  assumes "repr h v1 t1" "repr h v2 t2" "stack_need t1 < 2 ^ 19"
    and "caml_equal custom (\<lambda>_. True) h v1 v2 = Some (Inr (Val_bool True))"
  shows "\<exists>r. caml_hash_univ_param hash h cnt lim v1 = Some r \<and> caml_hash_univ_param hash h cnt lim v2 = Some r
    \<and> 0 \<le> sint (Long_val r) \<and> sint (Long_val r) < 2 ^ 30"
proof -
  have "Val_bool b = Val_bool True \<longleftrightarrow> b" for b by (simp add: Val_bool_def Val_long_def)
  then have "t1 = t2" using assms(4) caml_equal_repr [OF assms(1-3)] by simp
  then show ?thesis
    using hash_univ_repr [OF assms(1)] hash_univ_repr [OF assms(2)] hash_range by (simp add: Let_def)
qed

theorem equal_values_hash_equal_witness:
  "\<exists>r. caml_hash_univ_param (\<lambda>_. None)
       [1 \<mapsto> Scannable 0 [Long 3, Ptr 2], 2 \<mapsto> Opaque String_tag (string_block [7]), 3 \<mapsto> Scannable Forward_tag [Ptr 1]]
       (Val_long 10) (Val_long 100) (Ptr 1) = Some r
     \<and> caml_hash_univ_param (\<lambda>_. None)
       [1 \<mapsto> Scannable 0 [Long 3, Ptr 2], 2 \<mapsto> Opaque String_tag (string_block [7]), 3 \<mapsto> Scannable Forward_tag [Ptr 1]]
       (Val_long 10) (Val_long 100) (Ptr 3) = Some r
     \<and> 0 \<le> sint (Long_val r) \<and> sint (Long_val r) < 2 ^ 30"
proof -
  let ?h = "[1 \<mapsto> Scannable 0 [Long 3, Ptr 2], 2 \<mapsto> Opaque String_tag (string_block [7]), 3 \<mapsto> Scannable Forward_tag [Ptr 1]] :: heap"
  let ?t = "TBlock 0 [TLong (sint (Long_val 3)), TString [7]]"
  have "repr ?h (Long 3) (TLong (sint (Long_val 3)))"
    by (rule repr_long) (simp add: Is_long_def)
  moreover have "repr ?h (Ptr 2) (TString [7])"
    by (rule repr_string; simp add: Max_wosize_def)
  ultimately have 1: "repr ?h (Ptr 1) ?t"
    by (intro repr_block [of _ _ _ "[Long 3, Ptr 2]"]) (simp_all add: plain_tag_def tag_defs Max_wosize_def)
  then have 3: "repr ?h (Ptr 3) ?t" by (rule repr_forward [rotated]) simp
  have "caml_equal (\<lambda>_. None) (\<lambda>_. True) ?h (Ptr 1) (Ptr 3) = Some (Inr (Val_bool True))"
    using caml_equal_repr [OF 1 3] by simp
  from equal_values_hash_equal [OF 1 3 _ this, of "\<lambda>_. None" "Val_long 10" "Val_long 100"] show ?thesis
    by (simp del: fun_upd_apply)
qed

section \<open>Variant tags\<close>

text \<open>\<open>hash_variant\<close> of the OCaml compiler (\<open>typing/btype.ml\<close>), which the constants in compiled code come from.\<close>

definition hash_variant_ml :: "u8 list \<Rightarrow> int" where
  "hash_variant_ml tag =
     (let accu = fold (\<lambda>c accu. 223 * accu + int (unat c)) tag 0; accu = accu mod 2 ^ 31
      in if accu > 0x3FFFFFFF then accu - 2 ^ 31 else accu)"

end
