(* ===== verification/Extern.thy ===== *)
theory Extern
  imports Serial Heap
begin

text \<open>
  Marshalling (\<open>extern.c\<close>): the traversal of a value, which writes a code for each integer, string
  and block, and a back reference for a block it has met; the output buffer, the trail that undoes
  the marks on the blocks, and the entry points. The calls of \<open>extern_rec\<close> that are still to be
  made are a list of values, those for the fields of a block in front.
\<close>

section \<open>The format\<close>

definition Intext_magic_number :: u64 where "Intext_magic_number = 0x8495A6BE"

definition PREFIX_SMALL_BLOCK :: u8 where "PREFIX_SMALL_BLOCK = 0x80"
definition PREFIX_SMALL_INT :: u8 where "PREFIX_SMALL_INT = 0x40"
definition PREFIX_SMALL_STRING :: u8 where "PREFIX_SMALL_STRING = 0x20"
definition CODE_INT8 :: u8 where "CODE_INT8 = 0x0"
definition CODE_INT16 :: u8 where "CODE_INT16 = 0x1"
definition CODE_INT32 :: u8 where "CODE_INT32 = 0x2"
definition CODE_INT64 :: u8 where "CODE_INT64 = 0x3"
definition CODE_SHARED8 :: u8 where "CODE_SHARED8 = 0x4"
definition CODE_SHARED16 :: u8 where "CODE_SHARED16 = 0x5"
definition CODE_SHARED32 :: u8 where "CODE_SHARED32 = 0x6"
definition CODE_BLOCK32 :: u8 where "CODE_BLOCK32 = 0x8"
definition CODE_BLOCK64 :: u8 where "CODE_BLOCK64 = 0x13"
definition CODE_STRING8 :: u8 where "CODE_STRING8 = 0x9"
definition CODE_STRING32 :: u8 where "CODE_STRING32 = 0xA"
definition CODE_CODEPOINTER :: u8 where "CODE_CODEPOINTER = 0x10"
definition CODE_INFIXPOINTER :: u8 where "CODE_INFIXPOINTER = 0x11"
definition CODE_CUSTOM :: u8 where "CODE_CUSTOM = 0x12"

lemmas code_defs = PREFIX_SMALL_BLOCK_def PREFIX_SMALL_INT_def PREFIX_SMALL_STRING_def CODE_INT8_def
  CODE_INT16_def CODE_INT32_def CODE_INT64_def CODE_SHARED8_def CODE_SHARED16_def CODE_SHARED32_def
  CODE_BLOCK32_def CODE_BLOCK64_def CODE_STRING8_def CODE_STRING32_def CODE_CODEPOINTER_def
  CODE_INFIXPOINTER_def CODE_CUSTOM_def

definition ENTRIES_PER_TRAIL_BLOCK :: nat where "ENTRIES_PER_TRAIL_BLOCK = 1025"
definition SIZE_EXTERN_OUTPUT_BLOCK :: nat where "SIZE_EXTERN_OUTPUT_BLOCK = 8100"

section \<open>Custom operations\<close>

text \<open>
  What marshalling uses of \<open>struct custom_operations\<close>: the identifier (without its null), the
  pieces that \<open>serialize\<close> writes for the data of a block with the two sizes it returns, and
  \<open>deserialize\<close>, which gives the data it stores and the rest of the input.
\<close>

record custom_operations =
  op_identifier :: bytes
  serialize :: "(bytes \<Rightarrow> bytes list \<times> u64 \<times> u64) option"
  deserialize :: "bytes \<Rightarrow> (bytes outcome \<times> bytes) option"

text \<open>The table of registered operations (\<open>custom.c\<close>), each with its number.\<close>

definition caml_register_custom_operations ::
    "nat \<times> custom_operations \<Rightarrow> (nat \<times> custom_operations) list \<Rightarrow> (nat \<times> custom_operations) list" where
  "caml_register_custom_operations ops l = ops # l"

fun caml_find_custom_operations ::
    "(nat \<times> custom_operations) list \<Rightarrow> bytes \<Rightarrow> (nat \<times> custom_operations) option" where
  "caml_find_custom_operations [] ident = None"
| "caml_find_custom_operations (ops # l) ident =
     (if op_identifier (snd ops) = ident then Some ops else caml_find_custom_operations l ident)"

section \<open>State\<close>

text \<open>
  The output: the bytes of the blocks that are full, those written in the current one, its size;
  \<open>out_user\<close> when the program provides the buffer.
\<close>

record out_buf =
  out_done :: bytes
  out_cur :: bytes
  out_room :: nat
  out_user :: bool

definition contents :: "out_buf \<Rightarrow> bytes" where
  "contents b = out_done b @ out_cur b"

text \<open>
  A block met is blue and has its number in its first field (\<open>located\<close>); \<open>trail\<close> lists the blocks
  marked so, the last one first.
\<close>

record extern_state =
  out :: out_buf
  located :: "addr \<Rightarrow> u64 option"
  trail :: "addr list"
  obj_counter :: u64
  size_32 :: u64
  size_64 :: u64

text \<open>
  What marshalling depends on: the heap, the custom operations, the offset of a pointer in the
  code area, the digest of the code, the sizes \<open>__malloc\<close> grants, and the two flags.
\<close>

record extern_env =
  ex_heap :: heap
  ops_of :: "nat \<Rightarrow> custom_operations"
  code_offset :: "addr \<Rightarrow> u64 option"
  code_checksum :: bytes
  malloc :: "nat \<Rightarrow> bool"
  extern_ignore_sharing :: bool
  extern_closures :: bool

section \<open>The trail\<close>

definition extern_replay_trail :: "extern_state \<Rightarrow> extern_state" where
  "extern_replay_trail st =
     st\<lparr>located := fold (\<lambda>a m. m(a := None)) (trail st) (located st), trail := []\<rparr>"

definition extern_record_location :: "extern_env \<Rightarrow> addr \<Rightarrow> extern_state \<Rightarrow> extern_state outcome" where
  "extern_record_location env obj st =
     (if extern_ignore_sharing env then Inr st
      else if trail st \<noteq> [] \<and> length (trail st) mod ENTRIES_PER_TRAIL_BLOCK = 0
        \<and> \<not> malloc env (8 + 16 * ENTRIES_PER_TRAIL_BLOCK) then Inl Out_of_memory
      else Inr (st\<lparr>located := (located st)(obj \<mapsto> obj_counter st), trail := obj # trail st,
             obj_counter := obj_counter st + 1\<rparr>))"

section \<open>The output buffer\<close>

definition init_extern_output :: "extern_env \<Rightarrow> out_buf outcome" where
  "init_extern_output env =
     (if malloc env (16 + SIZE_EXTERN_OUTPUT_BLOCK)
      then Inr \<lparr>out_done = [], out_cur = [], out_room = SIZE_EXTERN_OUTPUT_BLOCK, out_user = False\<rparr>
      else Inl Out_of_memory)"

definition user_output :: "nat \<Rightarrow> out_buf" where
  "user_output len = \<lparr>out_done = [], out_cur = [], out_room = len, out_user = True\<rparr>"

definition grow_extern_output :: "extern_env \<Rightarrow> nat \<Rightarrow> out_buf \<Rightarrow> out_buf outcome" where
  "grow_extern_output env required b =
     (if out_user b then Inl (Failure ''Marshal.to_buffer: buffer overflow'')
      else
        (let extra = (if required \<le> SIZE_EXTERN_OUTPUT_BLOCK div 2 then 0 else required)
         in if malloc env (16 + SIZE_EXTERN_OUTPUT_BLOCK + extra)
            then Inr (b\<lparr>out_done := out_done b @ out_cur b, out_cur := [],
                    out_room := SIZE_EXTERN_OUTPUT_BLOCK + extra\<rparr>)
            else Inl Out_of_memory))"

definition extern_output_length :: "out_buf \<Rightarrow> nat" where
  "extern_output_length b = length (out_done b) + length (out_cur b)"

text \<open>\<open>writeblock\<close>; the other writers test the limit and store in the same way.\<close>

definition writeblock :: "extern_env \<Rightarrow> bytes \<Rightarrow> out_buf \<Rightarrow> out_buf outcome" where
  "writeblock env data b =
     bind_outcome (if length (out_cur b) + length data > out_room b then grow_extern_output env (length data) b else Inr b)
       (\<lambda>b. Inr (b\<lparr>out_cur := out_cur b @ data\<rparr>))"

definition emit :: "extern_env \<Rightarrow> bytes \<Rightarrow> extern_state \<Rightarrow> extern_state outcome" where
  "emit env data st = bind_outcome (writeblock env data (out st)) (\<lambda>b. Inr (st\<lparr>out := b\<rparr>))"

fun emit_all :: "extern_env \<Rightarrow> bytes list \<Rightarrow> extern_state \<Rightarrow> extern_state outcome" where
  "emit_all env [] st = Inr st"
| "emit_all env (d # ds) st = bind_outcome (emit env d st) (emit_all env ds)"

definition bytes16 :: "u64 \<Rightarrow> bytes" where
  "bytes16 val = [ucast (signed_drop_bit 8 val), ucast val]"
definition bytes32 :: "u64 \<Rightarrow> bytes" where
  "bytes32 val = [ucast (signed_drop_bit 24 val), ucast (signed_drop_bit 16 val),
     ucast (signed_drop_bit 8 val), ucast val]"
definition bytes64 :: "u64 \<Rightarrow> bytes" where
  "bytes64 val = map (\<lambda>i. ucast (signed_drop_bit i val)) [56, 48, 40, 32, 24, 16, 8, 0]"

definition Write :: "extern_env \<Rightarrow> u8 \<Rightarrow> extern_state \<Rightarrow> extern_state outcome" where
  "Write env c = emit env [c]"
definition writecode8 :: "extern_env \<Rightarrow> u8 \<Rightarrow> u64 \<Rightarrow> extern_state \<Rightarrow> extern_state outcome" where
  "writecode8 env code val = emit env [code, ucast val]"
definition writecode16 :: "extern_env \<Rightarrow> u8 \<Rightarrow> u64 \<Rightarrow> extern_state \<Rightarrow> extern_state outcome" where
  "writecode16 env code val = emit env (code # bytes16 val)"
definition write32 :: "extern_env \<Rightarrow> u64 \<Rightarrow> extern_state \<Rightarrow> extern_state outcome" where
  "write32 env val = emit env (bytes32 val)"
definition writecode32 :: "extern_env \<Rightarrow> u8 \<Rightarrow> u64 \<Rightarrow> extern_state \<Rightarrow> extern_state outcome" where
  "writecode32 env code val = emit env (code # bytes32 val)"
definition writecode64 :: "extern_env \<Rightarrow> u8 \<Rightarrow> u64 \<Rightarrow> extern_state \<Rightarrow> extern_state outcome" where
  "writecode64 env code val = emit env (code # bytes64 val)"

section \<open>Marshalling a value\<close>

definition extern_long :: "extern_env \<Rightarrow> u64 \<Rightarrow> extern_state \<Rightarrow> extern_state outcome" where
  "extern_long env n st =
     (if 0 \<le> sint n \<and> sint n < 0x40 then Write env (PREFIX_SMALL_INT + ucast n) st
      else if - (2 ^ 7) \<le> sint n \<and> sint n < 2 ^ 7 then writecode8 env CODE_INT8 n st
      else if - (2 ^ 15) \<le> sint n \<and> sint n < 2 ^ 15 then writecode16 env CODE_INT16 n st
      else if sint n < - (2 ^ 31) \<or> 2 ^ 31 \<le> sint n then writecode64 env CODE_INT64 n st
      else writecode32 env CODE_INT32 n st)"

text \<open>
  The first field of a forwarding block, which is its number when it is marked: an odd number looks
  like an integer, an even one like a pointer that is not in the value area.
\<close>

definition Forward_field :: "extern_state \<Rightarrow> addr \<Rightarrow> val \<Rightarrow> val" where
  "Forward_field st a f =
     (case located st a of None \<Rightarrow> f | Some d \<Rightarrow> if Is_long d then Long d else Ptr 0)"

definition do_not_short_circuit :: "heap \<Rightarrow> val \<Rightarrow> bool" where
  "do_not_short_circuit h f =
     (case f of
        Long n \<Rightarrow> False
      | Ptr b \<Rightarrow>
          (case h b of
             None \<Rightarrow> True
           | Some blk \<Rightarrow> tag_of blk = Forward_tag \<or> tag_of blk = Lazy_tag \<or> tag_of blk = Double_tag))"

definition extern_atom :: "extern_env \<Rightarrow> nat \<Rightarrow> extern_state \<Rightarrow> extern_state outcome" where
  "extern_atom env tag st =
     (if tag < 16 then Write env (PREFIX_SMALL_BLOCK + of_nat tag) st
      else writecode32 env CODE_BLOCK32 (Make_header 0 (of_nat tag) Caml_white) st)"

definition extern_shared :: "extern_env \<Rightarrow> u64 \<Rightarrow> extern_state \<Rightarrow> extern_state outcome" where
  "extern_shared env d st =
     (if d < 0x100 then writecode8 env CODE_SHARED8 d st
      else if d < 0x10000 then writecode16 env CODE_SHARED16 d st
      else writecode32 env CODE_SHARED32 d st)"

definition extern_string :: "extern_env \<Rightarrow> addr \<Rightarrow> u8 list \<Rightarrow> extern_state \<Rightarrow> extern_state outcome" where
  "extern_string env a bs st =
     (let len = string_length bs
      in bind_outcome
           (if len < 0x20 then Write env (PREFIX_SMALL_STRING + of_nat len) st
            else if len < 0x100 then writecode8 env CODE_STRING8 (of_nat len) st
            else writecode32 env CODE_STRING32 (of_nat len) st) (\<lambda>st.
         bind_outcome (emit env (take len bs) st) (\<lambda>st.
         extern_record_location env a
           (st\<lparr>size_32 := size_32 st + of_nat (1 + (len + 4) div 4), size_64 := size_64 st + of_nat (1 + (len + 8) div 8)\<rparr>))))"

definition extern_custom :: "extern_env \<Rightarrow> addr \<Rightarrow> nat \<Rightarrow> bytes \<Rightarrow> extern_state \<Rightarrow> extern_state outcome" where
  "extern_custom env a n data st =
     (case serialize (ops_of env n) of
        None \<Rightarrow> Inl (Invalid_argument ''output_value: abstract value (Custom)'')
      | Some ser \<Rightarrow>
          (let (pieces, sz_32, sz_64) = ser data
           in bind_outcome (Write env CODE_CUSTOM st) (\<lambda>st.
              bind_outcome (emit env (op_identifier (ops_of env n) @ [0]) st) (\<lambda>st.
              bind_outcome (emit_all env pieces st) (\<lambda>st.
              extern_record_location env a
                (st\<lparr>size_32 := size_32 st + (2 + drop_bit 2 (sz_32 + 3)),
                    size_64 := size_64 st + (2 + drop_bit 3 (sz_64 + 7))\<rparr>))))))"

definition extern_block :: "extern_env \<Rightarrow> addr \<Rightarrow> nat \<Rightarrow> val list \<Rightarrow> extern_state \<Rightarrow> extern_state outcome" where
  "extern_block env a tag fs st =
     (let sz = length fs; hd = Make_header (of_nat sz) (of_nat tag) Caml_white
      in bind_outcome
           (if tag < 16 \<and> sz < 8 then Write env (PREFIX_SMALL_BLOCK + of_nat tag + push_bit 4 (of_nat sz)) st
            else if hd \<ge> 2 ^ 32 then writecode64 env CODE_BLOCK64 hd st
            else writecode32 env CODE_BLOCK32 hd st) (\<lambda>st.
         extern_record_location env a (st\<lparr>size_32 := size_32 st + of_nat (1 + sz), size_64 := size_64 st + of_nat (1 + sz)\<rparr>)))"

text \<open>
  One value: the values to marshal next, in order. A block of doubles, whose case is compiled out in
  the kernel, has its bytes taken for values there; it is outside the model.
\<close>

definition forward_to :: "extern_env \<Rightarrow> extern_state \<Rightarrow> addr \<Rightarrow> block \<Rightarrow> val option" where
  "forward_to env st a b =
     (case b of
        Scannable t (f # fs) \<Rightarrow>
          if t = Forward_tag \<and> \<not> do_not_short_circuit (ex_heap env) (Forward_field st a f)
          then Some (Forward_field st a f) else None
      | _ \<Rightarrow> None)"

definition extern_contents :: "extern_env \<Rightarrow> addr \<Rightarrow> block \<Rightarrow> extern_state \<Rightarrow> (val list \<times> extern_state) outcome option" where
  "extern_contents env a b st =
     (case b of
        Scannable t fs \<Rightarrow> Some (bind_outcome (extern_block env a t fs st) (\<lambda>st. Inr (fs, st)))
      | Infix n \<Rightarrow>
          Some (bind_outcome (writecode32 env CODE_INFIXPOINTER (of_nat (8 * n)) st) (\<lambda>st. Inr ([Ptr (a - n)], st)))
      | Opaque t bs \<Rightarrow>
          if t = String_tag then Some (bind_outcome (extern_string env a bs st) (\<lambda>st. Inr ([], st)))
          else if t = Abstract_tag then Some (Inl (Invalid_argument ''output_value: abstract value (Abstract)''))
          else None
      | Custom n data \<Rightarrow> Some (bind_outcome (extern_custom env a n data st) (\<lambda>st. Inr ([], st))))"

definition extern_visit :: "extern_env \<Rightarrow> val \<Rightarrow> extern_state \<Rightarrow> (val list \<times> extern_state) outcome option" where
  "extern_visit env v st =
     (let stop = \<lambda>r. Some (bind_outcome r (\<lambda>st. Inr ([], st)))
      in case v of
        Long n \<Rightarrow> stop (extern_long env (Long_val n) st)
      | Ptr a \<Rightarrow>
          (case ex_heap env a of
             Some b \<Rightarrow>
               (case forward_to env st a b of
                  Some f \<Rightarrow> Some (Inr ([f], st))
                | None \<Rightarrow>
                    if wosize_of b = 0 then stop (extern_atom env (tag_of b) st)
                    else
                      (case located st a of
                         Some d \<Rightarrow> stop (extern_shared env (obj_counter st - d) st)
                       | None \<Rightarrow> extern_contents env a b st))
           | None \<Rightarrow>
               (case code_offset env a of
                  Some ofs \<Rightarrow>
                    if \<not> extern_closures env then Some (Inl (Invalid_argument ''output_value: functional value''))
                    else stop (bind_outcome (writecode32 env CODE_CODEPOINTER ofs st) (emit env (code_checksum env)))
                | None \<Rightarrow> Some (Inl (Invalid_argument ''output_value: abstract value (outside heap)'')))))"

partial_function (option) extern_rec :: "extern_env \<Rightarrow> val list \<Rightarrow> extern_state \<Rightarrow> extern_state outcome option" where
  "extern_rec env vs st =
     (case vs of
        [] \<Rightarrow> Some (Inr st)
      | v # vs \<Rightarrow>
          Option.bind (extern_visit env v st) (\<lambda>r.
            case r of Inl e \<Rightarrow> Some (Inl e) | Inr (next, st) \<Rightarrow> extern_rec env (next @ vs) st))"

declare extern_rec.simps [code]

section \<open>Entry points\<close>

definition NO_SHARING :: u32 where "NO_SHARING = 1"
definition CLOSURES :: u32 where "CLOSURES = 2"
definition extern_flags :: "u32 list" where "extern_flags = [NO_SHARING, CLOSURES]"

text \<open>The flags of an OCaml list of constant constructors (\<open>alloc.c\<close>).\<close>

partial_function (option) convert_flags :: "heap \<Rightarrow> u32 list \<Rightarrow> val \<Rightarrow> u32 \<Rightarrow> u32 option" where
  "convert_flags h flags list res =
     (case list of
        Long n \<Rightarrow> if n = Val_long 0 then Some res else None
      | Ptr a \<Rightarrow>
          (case h a of
             Some (Scannable t (Long x # rest # fs)) \<Rightarrow>
               if unat (Int_val x) < length flags
               then convert_flags h flags rest (res OR flags ! unat (Int_val x)) else None
           | _ \<Rightarrow> None))"

declare convert_flags.simps [code]

definition caml_convert_flag_list :: "heap \<Rightarrow> u32 list \<Rightarrow> val \<Rightarrow> u32 option" where
  "caml_convert_flag_list h flags list = convert_flags h flags list 0"

text \<open>The bytes written in the buffer \<open>b\<close>, sizes filled in.\<close>

definition extern_value :: "extern_env \<Rightarrow> out_buf \<Rightarrow> val \<Rightarrow> val \<Rightarrow> bytes outcome option" where
  "extern_value env b v flags =
     Option.bind (caml_convert_flag_list (ex_heap env) extern_flags flags) (\<lambda>fl.
       (let env = env\<lparr>extern_ignore_sharing := (fl AND NO_SHARING \<noteq> 0), extern_closures := (fl AND CLOSURES \<noteq> 0)\<rparr>;
            st = \<lparr>out = b, located = Map.empty, trail = [], obj_counter = 0, size_32 = 0, size_64 = 0\<rparr>
        in case write32 env Intext_magic_number st of
             Inl e \<Rightarrow> Some (Inl e)
           | Inr st \<Rightarrow>
               Option.bind (extern_rec env [v] (st\<lparr>out := (out st)\<lparr>out_cur := out_cur (out st) @ replicate 16 0\<rparr>\<rparr>)) (\<lambda>r.
                 Some (bind_outcome r (\<lambda>st.
                   (let st = extern_replay_trail st; res_len = extern_output_length (out st)
                    in if res_len \<ge> 2 ^ 32 \<or> size_32 st \<ge> 2 ^ 32 \<or> size_64 st \<ge> 2 ^ 32
                       then Inl (Failure ''output_value: object too big'')
                       else Inr (take 4 (contents (out st)) @ bytes32 (of_nat (res_len - 5 * 4)) @ bytes32 (obj_counter st)
                         @ bytes32 (size_32 st) @ bytes32 (size_64 st) @ drop 20 (contents (out st)))))))))"

definition caml_output_value_to_string :: "extern_env \<Rightarrow> val \<Rightarrow> val \<Rightarrow> bytes outcome option" where
  "caml_output_value_to_string env v flags =
     (case init_extern_output env of
        Inl e \<Rightarrow> Some (Inl e)
      | Inr b \<Rightarrow> map_option (\<lambda>r. bind_outcome r (\<lambda>bs. Inr (string_block bs))) (extern_value env b v flags))"

text \<open>The bytes of \<open>buf\<close> afterwards, with what is returned.\<close>

definition caml_output_value_to_block :: "extern_env \<Rightarrow> val \<Rightarrow> val \<Rightarrow> bytes \<Rightarrow> nat \<Rightarrow> nat \<Rightarrow> (nat \<times> bytes) outcome option" where
  "caml_output_value_to_block env v flags buf ofs len =
     map_option (\<lambda>r. bind_outcome r (\<lambda>bs. Inr (length bs, take ofs buf @ bs @ drop (ofs + length bs) buf)))
       (extern_value env (user_output len) v flags)"

definition caml_output_value_to_buffer :: "extern_env \<Rightarrow> bytes \<Rightarrow> u64 \<Rightarrow> u64 \<Rightarrow> val \<Rightarrow> val \<Rightarrow> (u64 \<times> bytes) outcome option" where
  "caml_output_value_to_buffer env buf ofs len v flags =
     map_option (\<lambda>r. bind_outcome r (\<lambda>(n, buf). Inr (Val_long (of_nat n), buf)))
       (caml_output_value_to_block env v flags buf (unat (Long_val ofs)) (unat (Long_val len)))"

definition caml_output_value_to_malloc :: "extern_env \<Rightarrow> val \<Rightarrow> val \<Rightarrow> (bytes \<times> nat) outcome option" where
  "caml_output_value_to_malloc env v flags =
     (case init_extern_output env of
        Inl e \<Rightarrow> Some (Inl e)
      | Inr b \<Rightarrow>
          map_option (\<lambda>r. bind_outcome r (\<lambda>bs. if malloc env (length bs) then Inr (bs, length bs) else Inl Out_of_memory))
            (extern_value env b v flags))"

end
