(* ===== verification/Intern.thy ===== *)
theory Intern
  imports Extern
begin

text \<open>
  Unmarshalling (\<open>intern.c\<close>): the reader of the codes, which allocates blocks one after the other in
  one zone and numbers them, the allocation of that zone, and the entry points. The calls of
  \<open>intern_rec\<close> that are still to be made are a list of destinations. The input is the list of bytes
  still to be read; reading past its end, a reference to an object that was not read and a block that
  does not fit in the zone, which the code does not check, are \<open>None\<close>.
\<close>

section \<open>State\<close>

text \<open>
  Where a value goes: the variable of the caller, a field of a block, or through the addition of an
  offset (\<open>clos + ofs\<close>) to another destination.
\<close>

datatype dest = Result | Field_of addr nat | Plus_offset u64 dest

record intern_state =
  intern_src :: bytes
  intern_dest :: addr
  built :: heap
  intern_obj_table :: "val list option"
  result :: "val option"

text \<open>
  What unmarshalling depends on: the table of custom operations, the address of \<open>Atom(tag)\<close>, where
  a zone of that many words is allocated (\<open>None\<close>: not enough memory), the sizes \<open>caml_stat_alloc\<close>
  grants, and what new memory contains.
\<close>

record intern_env =
  custom_ops_table :: "(nat \<times> custom_operations) list"
  Atom :: "nat \<Rightarrow> addr"
  alloc_zone :: "nat \<Rightarrow> addr option"
  stat_alloc :: "nat \<Rightarrow> bool"
  junk :: val
  junk_byte :: u8

text \<open>The zone and the table of objects of one call.\<close>

record intern_limits =
  zone_end :: addr
  num_objects :: nat

section \<open>Reading a value\<close>

text \<open>\<open>*dest = v\<close>.\<close>

fun store :: "dest \<Rightarrow> val \<Rightarrow> intern_state \<Rightarrow> intern_state option" where
  "store Result v st = Some (st\<lparr>result := Some v\<rparr>)"
| "store (Field_of a i) v st =
     (case built st a of
        Some (Scannable t fs) \<Rightarrow>
          if i < length fs then Some (st\<lparr>built := (built st)(a \<mapsto> Scannable t (fs[i := v]))\<rparr>) else None
      | _ \<Rightarrow> None)"
| "store (Plus_offset ofs d) v st =
     (case v of
        Ptr clos \<Rightarrow> if unat ofs mod 8 = 0 then store d (Ptr (clos + unat ofs div 8)) st else None
      | Long n \<Rightarrow> None)"

text \<open>\<open>intern_obj_table[obj_counter++] = v\<close>, when there is a table.\<close>

definition record_object :: "intern_limits \<Rightarrow> val \<Rightarrow> intern_state \<Rightarrow> intern_state option" where
  "record_object lim v st =
     (case intern_obj_table st of
        None \<Rightarrow> Some st
      | Some tbl \<Rightarrow> if length tbl < num_objects lim then Some (st\<lparr>intern_obj_table := Some (tbl @ [v])\<rparr>) else None)"

text \<open>A block of \<open>wosize\<close> words is built at \<open>intern_dest\<close> and recorded.\<close>

definition build :: "intern_limits \<Rightarrow> nat \<Rightarrow> block \<Rightarrow> intern_state \<Rightarrow> (addr \<times> intern_state) option" where
  "build lim wosize b st =
     (let a = intern_dest st + 1
      in if a + wosize \<le> zone_end lim
         then map_option (\<lambda>st. (a, st))
                (record_object lim (Ptr a) (st\<lparr>built := (built st)(a \<mapsto> b), intern_dest := a + wosize\<rparr>))
         else None)"

definition ret :: "dest \<Rightarrow> val \<Rightarrow> intern_state \<Rightarrow> (dest list \<times> intern_state) outcome option" where
  "ret d v st = map_option (\<lambda>st. Inr ([], st)) (store d v st)"

definition read_block ::
    "intern_env \<Rightarrow> intern_limits \<Rightarrow> dest \<Rightarrow> nat \<Rightarrow> nat \<Rightarrow> intern_state \<Rightarrow> (dest list \<times> intern_state) outcome option" where
  "read_block env lim d tag wosize st =
     (if wosize = 0 then ret d (Ptr (Atom env tag)) st
      else if tag \<ge> No_scan_tag then None
      else
        Option.bind (build lim wosize (Scannable tag (replicate wosize (junk env))) st) (\<lambda>(a, st).
        map_option (\<lambda>st. Inr (map (Field_of a) [0..<wosize], st)) (store d (Ptr a) st)))"

definition read_string :: "intern_limits \<Rightarrow> dest \<Rightarrow> nat \<Rightarrow> intern_state \<Rightarrow> (dest list \<times> intern_state) outcome option" where
  "read_string lim d len st =
     (if len \<le> length (intern_src st)
      then Option.bind (build lim ((len + 8) div 8) (Opaque String_tag (string_block (take len (intern_src st)))) st) (\<lambda>(a, st).
           ret d (Ptr a) (st\<lparr>intern_src := drop len (intern_src st)\<rparr>))
      else None)"

definition read_shared :: "dest \<Rightarrow> u64 \<Rightarrow> intern_state \<Rightarrow> (dest list \<times> intern_state) outcome option" where
  "read_shared d ofs st =
     Option.bind (intern_obj_table st) (\<lambda>tbl.
       let i = unat (of_nat (length tbl) - ofs :: u64)
       in if i < length tbl then ret d (tbl ! i) st else None)"

definition read_custom :: "intern_env \<Rightarrow> intern_limits \<Rightarrow> dest \<Rightarrow> intern_state \<Rightarrow> (dest list \<times> intern_state) outcome option" where
  "read_custom env lim d st =
     (let ident = takeWhile (\<lambda>c. c \<noteq> 0) (intern_src st)
      in if length ident = length (intern_src st) then None
         else
           (case caml_find_custom_operations (custom_ops_table env) ident of
              None \<Rightarrow> Some (Inl (Failure ''input_value: unknown custom block identifier''))
            | Some (n, ops) \<Rightarrow>
                Option.bind (deserialize ops (drop (Suc (length ident)) (intern_src st))) (\<lambda>(r, src).
                  case r of
                    Inl e \<Rightarrow> Some (Inl e)
                  | Inr data \<Rightarrow>
                      (let words = (length data + 8 - 1) div 8
                       in Option.bind
                            (build lim (1 + words) (Custom n (data @ replicate (8 * words - length data) (junk_byte env))) st)
                            (\<lambda>(a, st). ret d (Ptr a) (st\<lparr>intern_src := src\<rparr>))))))"

text \<open>A read of a number from the input, and what is done with it.\<close>

definition reading ::
    "(bytes \<Rightarrow> (u64 \<times> bytes) option) \<Rightarrow> (u64 \<Rightarrow> intern_state \<Rightarrow> 'a option) \<Rightarrow> intern_state \<Rightarrow> 'a option" where
  "reading rd k st = Option.bind (rd (intern_src st)) (\<lambda>(x, src). k x (st\<lparr>intern_src := src\<rparr>))"

definition read_header :: "intern_env \<Rightarrow> intern_limits \<Rightarrow> dest \<Rightarrow> u64 \<Rightarrow> intern_state \<Rightarrow> (dest list \<times> intern_state) outcome option" where
  "read_header env lim d hdr = read_block env lim d (unat (Tag_hd hdr)) (unat (Wosize_hd hdr))"

definition read_code ::
    "intern_env \<Rightarrow> intern_limits \<Rightarrow> dest \<Rightarrow> u8 \<Rightarrow> intern_state \<Rightarrow> (dest list \<times> intern_state) outcome option" where
  "read_code env lim d code st =
     (if code \<ge> PREFIX_SMALL_INT then
        if code \<ge> PREFIX_SMALL_BLOCK
        then read_block env lim d (unat (code AND 0xF)) (unat (drop_bit 4 code AND 0x7)) st
        else ret d (Long (Val_long (ucast (code AND 0x3F)))) st
      else if code \<ge> PREFIX_SMALL_STRING then read_string lim d (unat (code AND 0x1F)) st
      else if code = CODE_INT8 then reading read8s (\<lambda>n. ret d (Long (Val_long n))) st
      else if code = CODE_INT16 then reading read16s (\<lambda>n. ret d (Long (Val_long n))) st
      else if code = CODE_INT32 then reading read32s (\<lambda>n. ret d (Long (Val_long n))) st
      else if code = CODE_INT64 then reading read64s (\<lambda>n. ret d (Long (Val_long n))) st
      else if code = CODE_SHARED8 then reading read8u (read_shared d) st
      else if code = CODE_SHARED16 then reading read16u (read_shared d) st
      else if code = CODE_SHARED32 then reading read32u (read_shared d) st
      else if code = CODE_BLOCK32 then reading read32u (read_header env lim d) st
      else if code = CODE_BLOCK64 then reading read64s (read_header env lim d) st
      else if code = CODE_STRING8 then reading read8u (\<lambda>n. read_string lim d (unat n)) st
      else if code = CODE_STRING32 then reading read32u (\<lambda>n. read_string lim d (unat n)) st
      else if code = CODE_INFIXPOINTER then reading read32u (\<lambda>ofs st. Some (Inr ([Plus_offset ofs d], st))) st
      else if code = CODE_CUSTOM then read_custom env lim d st
      else Some (Inl (Failure ''input_value: ill-formed message'')))"

definition intern_item :: "intern_env \<Rightarrow> intern_limits \<Rightarrow> dest \<Rightarrow> intern_state \<Rightarrow> (dest list \<times> intern_state) outcome option" where
  "intern_item env lim d st = reading read8u (\<lambda>code. read_code env lim d (ucast code)) st"

partial_function (option) intern_rec ::
    "intern_env \<Rightarrow> intern_limits \<Rightarrow> dest list \<Rightarrow> intern_state \<Rightarrow> intern_state outcome option" where
  "intern_rec env lim ds st =
     (case ds of
        [] \<Rightarrow> Some (Inr st)
      | d # ds \<Rightarrow>
          Option.bind (intern_item env lim d st) (\<lambda>r.
            case r of Inl e \<Rightarrow> Some (Inl e) | Inr (next, st) \<Rightarrow> intern_rec env lim (next @ ds) st))"

declare intern_rec.simps [code]

section \<open>Entry points\<close>

definition intern_alloc :: "intern_env \<Rightarrow> bytes \<Rightarrow> nat \<Rightarrow> nat \<Rightarrow> (intern_limits \<times> intern_state) outcome" where
  "intern_alloc env src whsize num =
     (if whsize = 0
      then Inr (\<lparr>zone_end = 0, num_objects = 0\<rparr>,
             \<lparr>intern_src = src, intern_dest = 0, built = Map.empty, intern_obj_table = None, result = None\<rparr>)
      else
        (case alloc_zone env whsize of
           None \<Rightarrow> Inl Out_of_memory
         | Some base \<Rightarrow>
             if num > 0 \<and> \<not> stat_alloc env (8 * num) then Inl Out_of_memory
             else Inr (\<lparr>zone_end = base + whsize, num_objects = num\<rparr>,
                    \<lparr>intern_src = src, intern_dest = base, built = Map.empty,
                     intern_obj_table = (if num > 0 then Some [] else None), result = None\<rparr>)))"

text \<open>
  What the three entry points share: the blocks built and the value read, which is in \<open>src\<close> behind the
  header whose last three words are in \<open>hdr\<close>.
\<close>

definition input_val :: "intern_env \<Rightarrow> bytes \<Rightarrow> (val \<times> heap) outcome option" where
  "input_val env src =
     Option.bind (read32u src) (\<lambda>(num, src).
     Option.bind (read32u src) (\<lambda>(_, src).
     Option.bind (read32u src) (\<lambda>(whsize, src).
       case intern_alloc env src (unat whsize) (unat num) of
         Inl e \<Rightarrow> Some (Inl e)
       | Inr (lim, st) \<Rightarrow>
           Option.bind (intern_rec env lim [Result] st) (\<lambda>r.
             case r of
               Inl e \<Rightarrow> Some (Inl e)
             | Inr st \<Rightarrow> map_option (\<lambda>v. Inr (v, built st)) (result st)))))"

definition caml_input_val_from_string :: "intern_env \<Rightarrow> bytes \<Rightarrow> nat \<Rightarrow> (val \<times> heap) outcome option" where
  "caml_input_val_from_string env str ofs = input_val env (drop (ofs + 2 * 4) str)"

definition caml_input_value_from_string :: "intern_env \<Rightarrow> bytes \<Rightarrow> u64 \<Rightarrow> (val \<times> heap) outcome option" where
  "caml_input_value_from_string env str ofs = caml_input_val_from_string env str (unat (Long_val ofs))"

definition caml_input_value_from_malloc :: "intern_env \<Rightarrow> bytes \<Rightarrow> nat \<Rightarrow> (val \<times> heap) outcome option" where
  "caml_input_value_from_malloc env data ofs =
     Option.bind (read32u (drop ofs data)) (\<lambda>(magic, src).
       if magic \<noteq> Intext_magic_number then Some (Inl (Failure ''input_value_from_malloc: bad object''))
       else Option.bind (read32u src) (\<lambda>(block_len, src). input_val env src))"

definition caml_input_value_from_block :: "intern_env \<Rightarrow> bytes \<Rightarrow> nat \<Rightarrow> (val \<times> heap) outcome option" where
  "caml_input_value_from_block env data len =
     Option.bind (read32u data) (\<lambda>(magic, src).
       if magic \<noteq> Intext_magic_number then Some (Inl (Failure ''input_value_from_block: bad object''))
       else
         Option.bind (read32u src) (\<lambda>(block_len, src).
           if 5 * 4 + unat block_len > len then Some (Inl (Failure ''input_value_from_block: bad block length''))
           else input_val env src))"

definition caml_marshal_data_size :: "bytes \<Rightarrow> u64 \<Rightarrow> u64 outcome option" where
  "caml_marshal_data_size buff ofs =
     Option.bind (read32u (drop (unat (Long_val ofs)) buff)) (\<lambda>(magic, src).
       if magic \<noteq> Intext_magic_number then Some (Inl (Failure ''Marshal.data_size: bad object''))
       else map_option (\<lambda>(block_len, src). Inr (Val_long block_len)) (read32u src))"

end
