(* ===== verification/Marshal_Format.thy ===== *)
theory Marshal_Format
  imports Intern
begin

text \<open>
  The format of marshalled data: the bytes of each kind of item, which the writer emits and from which
  the reader gets back the item.
\<close>

section \<open>Numbers\<close>

lemma sign_bits:
  fixes x :: "'a::len word"
  assumes "- (2 ^ k) \<le> sint x" "sint x < 2 ^ k"
  obtains s where "\<And>j. k \<le> j \<Longrightarrow> j < LENGTH('a) \<Longrightarrow> bit x j = s"
proof -
  have "bit x j = (sint x < 0)" if "k \<le> j" "j < LENGTH('a)" for j
  proof -
    have "(2::int) ^ k \<le> 2 ^ j" using that(1) by (simp add: power_increasing)
    then have "- (2 ^ j) \<le> sint x" "sint x < 2 ^ j" using assms by linarith+
    then have "sint x div 2 ^ j = (if sint x < 0 then - 1 else 0)"
      by (auto intro!: div_pos_pos_trivial int_div_pos_eq [where r = "sint x + 2 ^ j"])
    moreover have "bit (sint x) j = bit x j" using that(2) by (simp add: bit_sint_iff min_def)
    ultimately show ?thesis by (simp add: bit_iff_odd [of "sint x"] split: if_splits)
  qed
  then show ?thesis using that by blast
qed

lemma read8s_byte: "read8s (ucast n # rest) = Some (n, rest)" if "- (2 ^ 7) \<le> sint n" "sint n < 2 ^ 7" for n :: u64
proof -
  note b = that
  obtain s where s: "\<And>j. 7 \<le> j \<Longrightarrow> j < 64 \<Longrightarrow> bit n j = s" using sign_bits [OF b] by auto
  have "Sign_extend (ucast n) = n"
  proof (rule bit_word_eqI)
    fix k assume "k < LENGTH(64)"
    then show "bit (Sign_extend (ucast n)) k = bit n k"
      by (cases "k < 7") (auto simp: bit_Sign_extend bit_simps min_def s)
  qed
  then show ?thesis by (simp add: read8s_def)
qed

lemma read16s_bytes: "read16s (bytes16 n @ rest) = Some (n, rest)" if "- (2 ^ 15) \<le> sint n" "sint n < 2 ^ 15" for n :: u64
proof -
  note b = that
  obtain s where s: "\<And>j. 15 \<le> j \<Longrightarrow> j < 64 \<Longrightarrow> bit n j = s" using sign_bits [OF b] by auto
  have "push_bit 8 (Sign_extend (ucast (signed_drop_bit 8 n))) OR ucast (ucast n :: u8) = n"
  proof (rule bit_word_eqI)
    fix k assume k: "k < LENGTH(64)"
    then consider "k < 8" | "8 \<le> k" "k < 15" | "15 \<le> k" "k < 64" by fastforce
    then show "bit (push_bit 8 (Sign_extend (ucast (signed_drop_bit 8 n))) OR ucast (ucast n :: u8)) k = bit n k"
      by cases (auto simp: bit_Sign_extend bit_simps min_def s dest: bit_imp_le_length)
  qed
  then show ?thesis by (simp add: read16s_def bytes16_def byte_plus)
qed

lemma join4_word:
  fixes n :: u64 and A :: u64
  assumes "\<And>k. k < 40 \<Longrightarrow> bit A k = bit n (24 + k)"
  shows "push_bit 24 A OR push_bit 16 (ucast (ucast (signed_drop_bit 16 n) :: u8)) OR
     push_bit 8 (ucast (ucast (signed_drop_bit 8 n) :: u8)) OR ucast (ucast n :: u8) = n"
proof (rule bit_word_eqI)
  fix k assume k: "k < LENGTH(64)"
  then consider "k < 8" | "8 \<le> k" "k < 16" | "16 \<le> k" "k < 24" | "24 \<le> k" "k - 24 < 40" "k < 64" by fastforce
  then show "bit (push_bit 24 A OR push_bit 16 (ucast (ucast (signed_drop_bit 16 n) :: u8)) OR
     push_bit 8 (ucast (ucast (signed_drop_bit 8 n) :: u8)) OR ucast (ucast n :: u8)) k = bit n k"
    by cases (auto simp: bit_simps assms dest: bit_imp_le_length)
qed

lemma read32s_bytes: "read32s (bytes32 n @ rest) = Some (n, rest)" if "- (2 ^ 31) \<le> sint n" "sint n < 2 ^ 31" for n :: u64
proof -
  note b = that
  obtain s where s: "\<And>j. 31 \<le> j \<Longrightarrow> j < 64 \<Longrightarrow> bit n j = s" using sign_bits [OF b] by auto
  have "bit (Sign_extend (ucast (signed_drop_bit 24 n))) k = bit n (24 + k)" if "k < 40" for k
    using that by (cases "k < 7") (auto simp: bit_Sign_extend bit_simps min_def s)
  then show ?thesis by (simp add: read32s_def bytes32_def join4 join4_word)
qed

lemma byte_of_signed_drop_bit: "ucast (signed_drop_bit i n) = (ucast (drop_bit i n) :: u8)" if "i \<le> 56" for n :: u64
proof (rule bit_word_eqI)
  fix k assume "k < LENGTH(8)"
  with that show "bit (ucast (signed_drop_bit i n) :: u8) k = bit (ucast (drop_bit i n) :: u8) k"
    by (auto simp: bit_simps dest: bit_imp_le_length)
qed

lemma read64s_bytes: "read64s (bytes64 n @ rest) = Some (n, rest)"
  using byte_join [of 0 n] byte_join [of 8 n] byte_join [of 16 n] byte_join [of 24 n] byte_join [of 32 n]
    byte_join [of 40 n] byte_join [of 48 n] byte_join [of 56 n]
  by (simp add: read64s_def bytes64_def byte_of_signed_drop_bit numeral_eq_Suc)

lemma bit_ge: "\<not> bit x k" if "unat x < 2 ^ m" "m \<le> k" for x :: "'a::len word"
proof -
  have "take_bit m x = x" using that(1) by (simp add: word_unat_eq_iff unsigned_take_bit_eq take_bit_nat_eq_self)
  then show ?thesis using that(2) by (metis bit_take_bit_iff not_less)
qed

lemma read8u_byte: "read8u (ucast n # rest) = Some (n, rest)" if "unat n < 2 ^ 8" for n :: u64
  using that by (simp add: read8u_def word_unat_eq_iff unat_ucast_up unat_ucast_mod)

lemma read16u_bytes: "read16u (bytes16 n @ rest) = Some (n, rest)" if "unat n < 2 ^ 16" for n :: u64
proof -
  have z: "\<not> bit n j" if "16 \<le> j" for j using bit_ge [OF \<open>unat n < 2 ^ 16\<close> that] .
  have "push_bit 8 (ucast (ucast (signed_drop_bit 8 n) :: u8)) OR ucast (ucast n :: u8) = n"
  proof (rule bit_word_eqI)
    fix k assume k: "k < LENGTH(64)"
    then consider "k < 8" | "8 \<le> k" "k < 16" | "16 \<le> k" "k < 64" by fastforce
    then show "bit (push_bit 8 (ucast (ucast (signed_drop_bit 8 n) :: u8)) OR ucast (ucast n :: u8) :: u64) k = bit n k"
      using k by cases (auto simp: bit_simps z)
  qed
  then show ?thesis by (simp add: read16u_def bytes16_def byte_plus)
qed

lemma read32u_bytes: "read32u (bytes32 n @ rest) = Some (n, rest)" if "unat n < 2 ^ 32" for n :: u64
proof -
  note z = bit_ge [OF that]
  have "bit (ucast (ucast (signed_drop_bit 24 n) :: u8) :: u64) k = bit n (24 + k)" if "k < 40" for k
    using that by (cases "k < 8") (auto simp: bit_simps z dest: bit_imp_le_length)
  then show ?thesis by (simp add: read32u_def bytes32_def join4 join4_word)
qed

section \<open>Items\<close>

text \<open>The bytes of an integer, a back reference, the head of a block, a string and a custom block.\<close>

definition encode_long :: "u64 \<Rightarrow> bytes" where
  "encode_long n =
     (if 0 \<le> sint n \<and> sint n < 0x40 then [PREFIX_SMALL_INT + ucast n]
      else if - (2 ^ 7) \<le> sint n \<and> sint n < 2 ^ 7 then [CODE_INT8, ucast n]
      else if - (2 ^ 15) \<le> sint n \<and> sint n < 2 ^ 15 then CODE_INT16 # bytes16 n
      else if sint n < - (2 ^ 31) \<or> 2 ^ 31 \<le> sint n then CODE_INT64 # bytes64 n
      else CODE_INT32 # bytes32 n)"

definition encode_shared :: "u64 \<Rightarrow> bytes" where
  "encode_shared d =
     (if d < 0x100 then [CODE_SHARED8, ucast d]
      else if d < 0x10000 then CODE_SHARED16 # bytes16 d
      else CODE_SHARED32 # bytes32 d)"

definition encode_block :: "nat \<Rightarrow> nat \<Rightarrow> bytes" where
  "encode_block tag sz =
     (let hdr = Make_header (of_nat sz) (of_nat tag) Caml_white
      in if tag < 16 \<and> sz < 8 then [PREFIX_SMALL_BLOCK + of_nat tag + push_bit 4 (of_nat sz)]
         else if hdr \<ge> 2 ^ 32 then CODE_BLOCK64 # bytes64 hdr
         else CODE_BLOCK32 # bytes32 hdr)"

definition encode_string :: "bytes \<Rightarrow> bytes" where
  "encode_string s =
     (if length s < 0x20 then [PREFIX_SMALL_STRING + of_nat (length s)]
      else if length s < 0x100 then [CODE_STRING8, ucast (of_nat (length s) :: u64)]
      else CODE_STRING32 # bytes32 (of_nat (length s))) @ s"

definition encode_custom :: "bytes \<Rightarrow> bytes list \<Rightarrow> bytes" where
  "encode_custom ident pieces = CODE_CUSTOM # ident @ [0] @ concat pieces"

lemma and_numeral_unat:
  "unat (x AND 0x3F :: u8) = unat x mod 64" "unat (x AND 0x1F :: u8) = unat x mod 32"
  "unat (x AND 0xF :: u8) = unat x mod 16" "unat (x AND 0x7 :: u8) = unat x mod 8"
  using unat_and_mask [of x 6] unat_and_mask [of x 5] unat_and_mask [of x 4] unat_and_mask [of x 3]
  by (simp_all add: mask_eq_exp_minus_1)

lemma read8u_code: "read8u (code # src) = Some (ucast code, src)"
  by (simp add: read8u_def)

lemma intern_item_code:
  assumes "intern_src st = code # src"
  shows "intern_item env lim d st = read_code env lim d code (st\<lparr>intern_src := src\<rparr>)"
proof -
  have "unat code mod 2 ^ 64 = unat code" "unat code mod 2 ^ 8 = unat code"
    using unat_lt_pow2 [of code] by simp_all
  then have "ucast (ucast code :: u64) = code" by (simp add: word_unat_eq_iff unat_ucast_mod)
  with assms show ?thesis by (simp add: intern_item_def reading_def read8u_code)
qed

lemma read_code_simps:
  "read_code env lim d CODE_INT8 st = reading read8s (\<lambda>n. ret d (Long (Val_long n))) st"
  "read_code env lim d CODE_INT16 st = reading read16s (\<lambda>n. ret d (Long (Val_long n))) st"
  "read_code env lim d CODE_INT32 st = reading read32s (\<lambda>n. ret d (Long (Val_long n))) st"
  "read_code env lim d CODE_INT64 st = reading read64s (\<lambda>n. ret d (Long (Val_long n))) st"
  "read_code env lim d CODE_SHARED8 st = reading read8u (read_shared d) st"
  "read_code env lim d CODE_SHARED16 st = reading read16u (read_shared d) st"
  "read_code env lim d CODE_SHARED32 st = reading read32u (read_shared d) st"
  "read_code env lim d CODE_BLOCK32 st = reading read32u (read_header env lim d) st"
  "read_code env lim d CODE_BLOCK64 st = reading read64s (read_header env lim d) st"
  "read_code env lim d CODE_STRING8 st = reading read8u (\<lambda>n. read_string lim d (unat n)) st"
  "read_code env lim d CODE_STRING32 st = reading read32u (\<lambda>n. read_string lim d (unat n)) st"
  "read_code env lim d CODE_CUSTOM st = read_custom env lim d st"
  by (simp_all add: read_code_def code_defs word_le_nat_alt)

lemma unat_of_sint: "0 \<le> sint n \<Longrightarrow> unat n = nat (sint n)" for n :: u64
proof -
  assume n: "0 \<le> sint n"
  have "uint (word_of_int (sint n) :: u64) = sint n mod 2 ^ LENGTH(64)" by (rule uint_word_of_int)
  then have "uint n = sint n" using n sint_lt [of n] by simp
  then show ?thesis by (simp flip: nat_uint_eq)
qed

lemma read_small_int:
  assumes "unat m < 0x40"
  shows "read_code env lim d (PREFIX_SMALL_INT + m) st = ret d (Long (Val_long (ucast m))) st"
proof -
  have u: "unat (0x40 + m) = 64 + unat m" using assms by (subst unat_plus_small) simp_all
  have "(0x40 + m) AND 0x3F = m" using assms by (simp add: word_unat_eq_iff and_numeral_unat u)
  moreover have "0x40 \<le> 0x40 + m" "\<not> 0x80 \<le> 0x40 + m" using assms by (simp_all add: word_le_nat_alt u)
  ultimately show ?thesis by (simp add: read_code_def code_defs)
qed

lemma intern_long:
  assumes "intern_src st = encode_long n @ rest"
  shows "intern_item env lim d st = ret d (Long (Val_long n)) (st\<lparr>intern_src := rest\<rparr>)"
proof -
  consider "0 \<le> sint n" "sint n < 0x40" | "\<not> (0 \<le> sint n \<and> sint n < 0x40)" "- (2 ^ 7) \<le> sint n" "sint n < 2 ^ 7"
    | "\<not> (- (2 ^ 7) \<le> sint n \<and> sint n < 2 ^ 7)" "- (2 ^ 15) \<le> sint n" "sint n < 2 ^ 15"
    | "\<not> (- (2 ^ 15) \<le> sint n \<and> sint n < 2 ^ 15)" "- (2 ^ 31) \<le> sint n" "sint n < 2 ^ 31"
    | "sint n < - (2 ^ 31) \<or> 2 ^ 31 \<le> sint n"
    by linarith
  then show ?thesis
  proof cases
    case 1
    then have "unat n < 64" by (simp add: unat_of_sint)
    then have m: "unat (ucast n :: u8) < 0x40" "ucast (ucast n :: u8) = n"
      by (simp_all add: word_unat_eq_iff unat_ucast_mod unat_ucast_up)
    have "intern_src st = (PREFIX_SMALL_INT + ucast n) # rest" using assms 1 by (simp add: encode_long_def)
    from intern_item_code [OF this] show ?thesis by (simp add: read_small_int [OF m(1)] m(2))
  next
    case 2
    then have "intern_src st = CODE_INT8 # ucast n # rest" using assms by (auto simp: encode_long_def)
    from intern_item_code [OF this] show ?thesis
      using 2 by (simp add: read_code_simps reading_def read8s_byte)
  next
    case 3
    then have "intern_src st = CODE_INT16 # bytes16 n @ rest" using assms by (auto simp: encode_long_def)
    from intern_item_code [OF this] show ?thesis
      using 3 by (simp add: read_code_simps reading_def read16s_bytes)
  next
    case 4
    then have "intern_src st = CODE_INT32 # bytes32 n @ rest" using assms by (auto simp: encode_long_def)
    from intern_item_code [OF this] show ?thesis
      using 4 by (simp add: read_code_simps reading_def read32s_bytes)
  next
    case 5
    then have "intern_src st = CODE_INT64 # bytes64 n @ rest" using assms by (auto simp: encode_long_def)
    from intern_item_code [OF this] show ?thesis
      by (simp add: read_code_simps reading_def read64s_bytes)
  qed
qed

lemma intern_shared:
  assumes "intern_src st = encode_shared ofs @ rest" "unat ofs < 2 ^ 32"
  shows "intern_item env lim d st = read_shared d ofs (st\<lparr>intern_src := rest\<rparr>)"
proof -
  consider "ofs < 0x100" | "\<not> ofs < 0x100" "ofs < 0x10000" | "\<not> ofs < 0x100" "\<not> ofs < 0x10000" by blast
  then show ?thesis
  proof cases
    case 1
    then have "intern_src st = CODE_SHARED8 # ucast ofs # rest" using assms by (simp add: encode_shared_def)
    from intern_item_code [OF this] show ?thesis
      using 1 by (simp add: read_code_simps reading_def read8u_byte word_less_nat_alt)
  next
    case 2
    then have "intern_src st = CODE_SHARED16 # bytes16 ofs @ rest" using assms by (simp add: encode_shared_def)
    from intern_item_code [OF this] show ?thesis
      using 2 by (simp add: read_code_simps reading_def read16u_bytes word_less_nat_alt)
  next
    case 3
    then have "intern_src st = CODE_SHARED32 # bytes32 ofs @ rest" using assms by (simp add: encode_shared_def)
    from intern_item_code [OF this] show ?thesis
      using assms by (simp add: read_code_simps reading_def read32u_bytes)
  qed
qed

lemma intern_block:
  assumes "intern_src st = encode_block tag sz @ rest" "sz \<le> Max_wosize" "tag < 256"
  shows "intern_item env lim d st = read_block env lim d tag sz (st\<lparr>intern_src := rest\<rparr>)"
proof -
  define hdr :: u64 where "hdr = Make_header (of_nat sz) (of_nat tag) Caml_white"
  have u: "unat (of_nat sz :: u64) = sz" "unat (of_nat tag :: u64) = tag"
    using assms by (simp_all add: unat_of_nat_small Max_wosize_def)
  have f: "unat (Tag_hd hdr) = tag" "unat (Wosize_hd hdr) = sz"
    using assms(2,3) unfolding hdr_def by (subst Make_header_fields; simp add: u)+
  consider "tag < 16" "sz < 8" | "\<not> (tag < 16 \<and> sz < 8)" "hdr \<ge> 2 ^ 32" | "\<not> (tag < 16 \<and> sz < 8)" "\<not> hdr \<ge> 2 ^ 32"
    by blast
  then show ?thesis
  proof cases
    case 1
    let ?c = "0x80 + of_nat tag + push_bit 4 (of_nat sz) :: u8"
    have "unat (push_bit 4 (of_nat sz) :: u8) = sz * 16"
      using 1 by (subst unat_push_bit_small) (simp_all add: unat_of_nat_small)
    moreover have "unat (0x80 + of_nat tag :: u8) = 128 + tag"
      using 1 by (subst unat_plus_small) (simp_all add: unat_of_nat_small)
    ultimately have c: "unat ?c = 128 + tag + sz * 16"
      using 1 by (subst unat_plus_small) simp_all
    have t: "unat (?c AND 0xF) = tag" using 1 by (simp only: and_numeral_unat c) presburger
    have "(128 + tag + sz * 16) div 16 = 8 + sz" using 1 by (intro div_nat_eqI) simp_all
    then have s: "unat (drop_bit 4 ?c AND 0x7) = sz" using 1 by (simp only: and_numeral_unat unat_shiftr c) simp
    have "intern_src st = ?c # rest" using assms 1 by (simp add: encode_block_def code_defs)
    moreover have "0x40 \<le> ?c" "0x80 \<le> ?c" unfolding word_le_nat_alt c by simp_all
    ultimately show ?thesis
      by (simp only: intern_item_code read_code_def code_defs t s if_True)
  next
    case 2
    then have "intern_src st = CODE_BLOCK64 # bytes64 hdr @ rest"
      using assms by (auto simp: encode_block_def Let_def simp flip: hdr_def)
    from intern_item_code [OF this] show ?thesis
      by (simp add: read_code_simps reading_def read64s_bytes read_header_def f)
  next
    case 3
    then have "intern_src st = CODE_BLOCK32 # bytes32 hdr @ rest"
      using assms by (auto simp: encode_block_def Let_def simp flip: hdr_def)
    from intern_item_code [OF this] show ?thesis
      using 3 by (simp add: read_code_simps reading_def read32u_bytes read_header_def f word_le_nat_alt)
  qed
qed

lemma intern_string:
  assumes "intern_src st = encode_string s @ rest" "length s < 2 ^ 32"
  shows "intern_item env lim d st = read_string lim d (length s) (st\<lparr>intern_src := s @ rest\<rparr>)"
proof -
  consider "length s < 0x20" | "\<not> length s < 0x20" "length s < 0x100" | "\<not> length s < 0x20" "\<not> length s < 0x100"
    by blast
  then show ?thesis
  proof cases
    case 1
    let ?c = "0x20 + of_nat (length s) :: u8"
    have c: "unat ?c = 32 + length s"
      using 1 by (subst unat_plus_small) (simp_all add: unat_of_nat_small)
    have t: "unat (?c AND 0x1F) = length s" using 1 by (simp only: and_numeral_unat c) simp
    have i: "intern_src st = ?c # s @ rest" using assms 1 by (simp add: encode_string_def code_defs)
    have o: "\<not> 0x40 \<le> ?c" "0x20 \<le> ?c" unfolding word_le_nat_alt c using 1 by simp_all
    have "read_code env lim d ?c st' = read_string lim d (length s) st'" for st'
      by (simp only: read_code_def code_defs t o if_True if_False)
    with intern_item_code [OF i] show ?thesis by simp
  next
    case 2
    then have "intern_src st = CODE_STRING8 # ucast (of_nat (length s) :: u64) # s @ rest" using assms by (simp add: encode_string_def)
    from intern_item_code [OF this] show ?thesis
      using 2 by (simp add: read_code_simps reading_def read8u_byte unat_of_nat_small)
  next
    case 3
    then have "intern_src st = CODE_STRING32 # bytes32 (of_nat (length s)) @ s @ rest" using assms by (simp add: encode_string_def)
    from intern_item_code [OF this] show ?thesis
      using assms by (simp add: read_code_simps reading_def read32u_bytes unat_of_nat_small)
  qed
qed

lemma intern_custom:
  assumes "intern_src st = encode_custom ident pieces @ rest" "0 \<notin> set ident"
    and "caml_find_custom_operations (custom_ops_table env) ident = Some (n, ops)"
    and "deserialize ops (concat pieces @ rest) = Some (Inr data, rest)"
  shows "intern_item env lim d st =
    (let words = (length data + 8 - 1) div 8
     in Option.bind (build lim (1 + words) (Custom n (data @ replicate (8 * words - length data) (junk_byte env)))
                       (st\<lparr>intern_src := ident @ 0 # concat pieces @ rest\<rparr>))
          (\<lambda>(a, st). ret d (Ptr a) (st\<lparr>intern_src := rest\<rparr>)))"
proof -
  let ?src = "ident @ 0 # concat pieces @ rest"
  have i: "takeWhile (\<lambda>c. c \<noteq> 0) ?src = ident"
    using assms(2) by (subst takeWhile_append2) auto
  have "intern_src st = CODE_CUSTOM # ?src" using assms(1) by (simp add: encode_custom_def)
  from intern_item_code [OF this] show ?thesis
    using assms(3,4) by (simp add: read_code_simps read_custom_def i)
qed

end
