(* ===== verification/Marshal_Graph.thy ===== *)
theory Marshal_Graph
  imports Marshal_Format
begin

text \<open>
  What marshalling is for: the values that can be marshalled, when two values in two heaps are the same
  graph, the contract of custom operations, and the steps of the writer as a relation.
\<close>

section \<open>The contract of custom operations\<close>

text \<open>
  \<open>width n\<close> is the number of bytes of the data of operations \<open>n\<close> that matter; they come back, whatever
  follows in the input.
\<close>

locale custom_codec =
  fixes table :: "(nat \<times> custom_operations) list"
    and ops :: "nat \<Rightarrow> custom_operations"
    and width :: "nat \<Rightarrow> nat"
    and known :: "nat \<Rightarrow> bool"
  assumes found: "known n \<Longrightarrow> caml_find_custom_operations table (op_identifier (ops n)) = Some (n, ops n)"
    and no_null: "known n \<Longrightarrow> 0 \<notin> set (op_identifier (ops n))"
    and width_bound: "known n \<Longrightarrow> width n < 2 ^ 32"
    and codec: "known n \<Longrightarrow> length data = 8 * ((width n + 7) div 8) \<Longrightarrow>
      \<exists>ser pieces sz_32. serialize (ops n) = Some ser \<and> ser data = (pieces, sz_32, of_nat (width n)) \<and>
        (\<forall>rest. deserialize (ops n) (concat pieces @ rest) = Some (Inr (take (width n) data), rest))"

section \<open>Values that can be marshalled\<close>

definition value_in :: "addr set \<Rightarrow> val \<Rightarrow> bool" where
  "value_in S v = (case v of Long n \<Rightarrow> Is_long n | Ptr a \<Rightarrow> a \<in> S)"

fun block_in :: "(nat \<Rightarrow> nat) \<Rightarrow> (nat \<Rightarrow> bool) \<Rightarrow> heap \<Rightarrow> addr set \<Rightarrow> block \<Rightarrow> bool" where
  "block_in width known h S (Scannable t fs) \<longleftrightarrow>
     t < No_scan_tag \<and> length fs \<le> Max_wosize \<and> (\<forall>f\<in>set fs. value_in S f) \<and>
     (t = Forward_tag \<longrightarrow> fs \<noteq> [] \<and> \<not> do_not_short_circuit h (fs ! 0))"
| "block_in width known h S (Opaque t bs) \<longleftrightarrow> t = String_tag \<and> (\<exists>s. bs = string_block s)"
| "block_in width known h S (Custom n data) \<longleftrightarrow> known n \<and> length data = 8 * ((width n + 7) div 8)"
| "block_in width known h S (Infix n) \<longleftrightarrow> False"

text \<open>A finite part of the heap, closed under the fields of its blocks, that fits in the address space.\<close>

definition marshallable :: "(nat \<Rightarrow> nat) \<Rightarrow> (nat \<Rightarrow> bool) \<Rightarrow> heap \<Rightarrow> addr set \<Rightarrow> bool" where
  "marshallable width known h S \<longleftrightarrow>
     finite S \<and> (\<forall>a\<in>S. \<exists>b. h a = Some b \<and> block_in width known h S b) \<and>
     (\<Sum>a\<in>S. Suc (wosize_of (the (h a)))) < 2 ^ 61"

section \<open>The same graph\<close>

text \<open>Forwarding blocks, which marshalling drops, are transparent.\<close>

definition resolve :: "heap \<Rightarrow> val \<Rightarrow> val" where
  "resolve h v =
     (case v of
        Ptr a \<Rightarrow>
          (case h a of
             Some (Scannable t (f # fs)) \<Rightarrow> if t = Forward_tag \<and> \<not> do_not_short_circuit h f then f else v
           | _ \<Rightarrow> v)
      | Long n \<Rightarrow> v)"

text \<open>
  \<open>copy\<close> says where a block of the heap has been copied to; \<open>atom\<close> where the atoms are.
\<close>

definition same_value :: "heap \<Rightarrow> (nat \<Rightarrow> addr) \<Rightarrow> (addr \<Rightarrow> addr option) \<Rightarrow> val \<Rightarrow> val \<Rightarrow> bool" where
  "same_value h atom copy v w =
     (case resolve h v of
        Long n \<Rightarrow> w = Long n
      | Ptr a \<Rightarrow>
          (case h a of
             Some (Scannable t []) \<Rightarrow> w = Ptr (atom t)
           | _ \<Rightarrow> \<exists>b. copy a = Some b \<and> w = Ptr b))"

fun same_block :: "heap \<Rightarrow> (nat \<Rightarrow> addr) \<Rightarrow> (nat \<Rightarrow> nat) \<Rightarrow> (addr \<Rightarrow> addr option) \<Rightarrow> block \<Rightarrow> block \<Rightarrow> bool" where
  "same_block h atom width copy (Scannable t fs) (Scannable u gs) \<longleftrightarrow>
     t = u \<and> list_all2 (same_value h atom copy) fs gs"
| "same_block h atom width copy (Opaque t bs) (Opaque u cs) \<longleftrightarrow> t = u \<and> bs = cs"
| "same_block h atom width copy (Custom n d) (Custom m e) \<longleftrightarrow>
     n = m \<and> length d = length e \<and> take (width n) d = take (width n) e"
| "same_block h atom width copy _ _ \<longleftrightarrow> False"

text \<open>\<open>w\<close> in \<open>k\<close> is a copy of \<open>v\<close> in \<open>h\<close>, with the same sharing and nothing else.\<close>

definition isomorphic :: "(nat \<Rightarrow> nat) \<Rightarrow> (nat \<Rightarrow> addr) \<Rightarrow> heap \<Rightarrow> val \<Rightarrow> heap \<Rightarrow> val \<Rightarrow> bool" where
  "isomorphic width atom h v k w \<longleftrightarrow>
     (\<exists>copy. inj_on copy (dom copy) \<and> ran copy = dom k \<and> same_value h atom copy v w \<and>
        (\<forall>a b. copy a = Some b \<longrightarrow> same_block h atom width copy (the (h a)) (the (k b))))"

section \<open>Steps of the writer\<close>

fun block_fields :: "block \<Rightarrow> val list" where
  "block_fields (Scannable t fs) = fs"
| "block_fields b = []"

fun encode_head :: "(nat \<Rightarrow> custom_operations) \<Rightarrow> block \<Rightarrow> bytes" where
  "encode_head ops (Scannable t fs) = encode_block t (length fs)"
| "encode_head ops (Opaque t bs) = encode_string (take (string_length bs) bs)"
| "encode_head ops (Custom n data) =
     encode_custom (op_identifier (ops n)) (fst (the (serialize (ops n)) data))"
| "encode_head ops (Infix n) = []"

text \<open>The writer after a block is recorded.\<close>

definition record_new :: "addr \<Rightarrow> nat \<Rightarrow> out_buf \<Rightarrow> u64 \<Rightarrow> extern_state \<Rightarrow> extern_state" where
  "record_new a n b s32 st =
     st\<lparr>out := b, size_32 := s32, size_64 := size_64 st + of_nat n, located := (located st)(a \<mapsto> obj_counter st),
        trail := a # trail st, obj_counter := obj_counter st + 1\<rparr>"

definition appends :: "bytes \<Rightarrow> out_buf \<Rightarrow> out_buf \<Rightarrow> bool" where
  "appends bs b b' \<longleftrightarrow> contents b' = contents b @ bs \<and> out_user b' = out_user b"

text \<open>
  \<open>visited h ops v st vs st' bs\<close>: \<open>v\<close> is written as \<open>bs\<close>, and \<open>vs\<close> has to be written next.
\<close>

inductive visited ::
    "heap \<Rightarrow> (nat \<Rightarrow> custom_operations) \<Rightarrow> val \<Rightarrow> extern_state \<Rightarrow> val list \<Rightarrow> extern_state \<Rightarrow> bytes \<Rightarrow> bool"
  for h ops where
  visited_forward:
    "h a = Some (Scannable Forward_tag (f # fs)) \<Longrightarrow> \<not> do_not_short_circuit h f \<Longrightarrow>
     visited h ops (Ptr a) st [f] st []"
| visited_long:
    "appends (encode_long (Long_val n)) (out st) b \<Longrightarrow>
     visited h ops (Long n) st [] (st\<lparr>out := b\<rparr>) (encode_long (Long_val n))"
| visited_atom:
    "h a = Some (Scannable t []) \<Longrightarrow> appends (encode_block t 0) (out st) b \<Longrightarrow>
     visited h ops (Ptr a) st [] (st\<lparr>out := b\<rparr>) (encode_block t 0)"
| visited_shared:
    "located st a = Some d \<Longrightarrow> appends (encode_shared (obj_counter st - d)) (out st) b \<Longrightarrow>
     visited h ops (Ptr a) st [] (st\<lparr>out := b\<rparr>) (encode_shared (obj_counter st - d))"
| visited_new:
    "h a = Some blk \<Longrightarrow> located st a = None \<Longrightarrow> 0 < wosize_of blk \<Longrightarrow> resolve h (Ptr a) = Ptr a \<Longrightarrow>
     appends (encode_head ops blk) (out st) b \<Longrightarrow>
     visited h ops (Ptr a) st (block_fields blk) (record_new a (Suc (wosize_of blk)) b s32 st) (encode_head ops blk)"

section \<open>What is written\<close>

definition fails :: "extern_state \<Rightarrow> caml_exn \<Rightarrow> bool" where
  "fails st e \<longleftrightarrow> e = Out_of_memory \<or> out_user (out st) \<and> e = Failure ''Marshal.to_buffer: buffer overflow''"

definition emits :: "bytes \<Rightarrow> extern_state \<Rightarrow> extern_state outcome \<Rightarrow> bool" where
  "emits data st r =
     (case r of Inl e \<Rightarrow> fails st e | Inr st' \<Rightarrow> \<exists>b. st' = st\<lparr>out := b\<rparr> \<and> appends data (out st) b)"

lemma writeblock_appends:
  "case writeblock env data b of
     Inl e \<Rightarrow> e = Out_of_memory \<or> out_user b \<and> e = Failure ''Marshal.to_buffer: buffer overflow''
   | Inr b' \<Rightarrow> appends data b b'"
  by (simp add: writeblock_def grow_extern_output_def contents_def appends_def Let_def)

lemma bind_outcome_assoc: "bind_outcome (bind_outcome r f) g = bind_outcome r (\<lambda>x. bind_outcome (f x) g)"
  by (cases r) simp_all

lemma emit_emits: "emits data st (emit env data st)"
  using writeblock_appends [where env = env and data = data and b = "out st"]
  by (auto simp: emits_def emit_def fails_def split: sum.splits)

lemma emits_bind:
  assumes "emits d1 st r" "\<And>st. emits d2 st (f st)"
  shows "emits (d1 @ d2) st (bind_outcome r f)"
proof (cases r)
  case (Inr st')
  then obtain b where b: "st' = st\<lparr>out := b\<rparr>" "appends d1 (out st) b"
    using assms(1) by (auto simp: emits_def)
  show ?thesis
    using assms(2) [of st'] b Inr by (auto simp: emits_def fails_def appends_def split: sum.splits)
qed (use assms in \<open>simp add: emits_def\<close>)

lemma emit_all_emits: "emits (concat ds) st (emit_all env ds st)"
proof (induction ds arbitrary: st)
  case Nil
  show ?case by (auto simp: emits_def appends_def intro: exI [of _ "out st"])
next
  case (Cons d ds)
  then show ?case by (simp add: emits_bind emit_emits)
qed

lemma extern_long_emits: "emits (encode_long n) st (extern_long env n st)"
  using emit_emits [of _ st env]
  by (simp add: extern_long_def encode_long_def Write_def writecode8_def writecode16_def writecode32_def writecode64_def)

lemma extern_shared_emits: "emits (encode_shared d) st (extern_shared env d st)"
  using emit_emits [of _ st env]
  by (simp add: extern_shared_def encode_shared_def writecode8_def writecode16_def writecode32_def)

lemma extern_atom_emits: "emits (encode_block tag 0) st (extern_atom env tag st)" if "tag < 256"
proof -
  have "unat (Make_header 0 (of_nat tag) Caml_white) = tag"
    using that by (subst unat_Make_header) (simp_all add: unat_of_nat_small Caml_white_def)
  then have "\<not> 2 ^ 32 \<le> Make_header 0 (of_nat tag) Caml_white"
    using that by (simp add: word_le_nat_alt)
  then show ?thesis
    using emit_emits [of _ st env]
    by (simp add: extern_atom_def encode_block_def Write_def writecode32_def)
qed

lemma extern_record_location_new:
  assumes "\<not> extern_ignore_sharing env"
  shows "case extern_record_location env a st of
     Inl e \<Rightarrow> e = Out_of_memory
   | Inr st' \<Rightarrow> st' = st\<lparr>located := (located st)(a \<mapsto> obj_counter st), trail := a # trail st, obj_counter := obj_counter st + 1\<rparr>"
  using assms by (simp add: extern_record_location_def)

text \<open>What is written and then recorded.\<close>

definition records :: "bytes \<Rightarrow> addr \<Rightarrow> nat \<Rightarrow> extern_state \<Rightarrow> extern_state outcome \<Rightarrow> bool" where
  "records data a n st r =
     (case r of Inl e \<Rightarrow> fails st e | Inr st' \<Rightarrow> \<exists>b s32. st' = record_new a n b s32 st \<and> appends data (out st) b)"

lemma records_bind:
  assumes "emits data st r" "\<not> extern_ignore_sharing env"
    and "\<And>st. f st = extern_record_location env a (st\<lparr>size_32 := x st, size_64 := size_64 st + of_nat n\<rparr>)"
  shows "records data a n st (bind_outcome r f)"
proof (cases r)
  case (Inr st')
  then obtain b where b: "st' = st\<lparr>out := b\<rparr>" "appends data (out st) b"
    using assms(1) by (auto simp: emits_def)
  show ?thesis
    using extern_record_location_new [OF assms(2), where a = a and st = "st'\<lparr>size_32 := x st', size_64 := size_64 st' + of_nat n\<rparr>"] b Inr assms(3)
    by (auto simp: records_def record_new_def fails_def split: sum.splits intro!: exI [of _ b])
qed (use assms in \<open>simp add: records_def emits_def\<close>)

lemma extern_string_records:
  assumes "\<not> extern_ignore_sharing env"
  shows "records (encode_string s) a (1 + (length s + 8) div 8) st (extern_string env a (string_block s) st)"
proof -
  let ?c = "if length s < 0x20 then [PREFIX_SMALL_STRING + of_nat (length s)]
      else if length s < 0x100 then [CODE_STRING8, ucast (of_nat (length s) :: u64)]
      else CODE_STRING32 # bytes32 (of_nat (length s))"
  have "emits ?c st
      (if length s < 0x20 then Write env (PREFIX_SMALL_STRING + of_nat (length s)) st
       else if length s < 0x100 then writecode8 env CODE_STRING8 (of_nat (length s)) st
       else writecode32 env CODE_STRING32 (of_nat (length s)) st)"
    using emit_emits [of _ st env] by (simp add: Write_def writecode8_def writecode32_def)
  note e = emits_bind [OF this, of s "emit env s", OF emit_emits]
  then have e: "emits (encode_string s) st (bind_outcome
      (if length s < 0x20 then Write env (PREFIX_SMALL_STRING + of_nat (length s)) st
       else if length s < 0x100 then writecode8 env CODE_STRING8 (of_nat (length s)) st
       else writecode32 env CODE_STRING32 (of_nat (length s)) st) (emit env s))"
    by (simp add: encode_string_def)
  show ?thesis
    using records_bind [OF e assms, where f = "\<lambda>st. extern_record_location env a
       (st\<lparr>size_32 := size_32 st + of_nat (1 + (length s + 4) div 4), size_64 := size_64 st + of_nat (1 + (length s + 8) div 8)\<rparr>)" and a = a and x = "\<lambda>st. size_32 st + of_nat (1 + (length s + 4) div 4)" and n = "1 + (length s + 8) div 8"]
    by (simp add: extern_string_def Let_def bind_outcome_assoc)
qed

lemma extern_block_records:
  assumes "\<not> extern_ignore_sharing env"
  shows "records (encode_block tag (length fs)) a (1 + length fs) st (extern_block env a tag fs st)"
  using records_bind [OF _ assms, where f = "\<lambda>st. extern_record_location env a
       (st\<lparr>size_32 := size_32 st + of_nat (1 + length fs), size_64 := size_64 st + of_nat (1 + length fs)\<rparr>)" and a = a and x = "\<lambda>st. size_32 st + of_nat (1 + length fs)" and n = "1 + length fs"] emit_emits [of _ st env]
  by (simp add: extern_block_def Let_def encode_block_def Write_def writecode64_def writecode32_def)

lemma extern_custom_records:
  assumes "\<not> extern_ignore_sharing env" "serialize (ops_of env n) = Some ser" "ser data = (pieces, s32, of_nat w)" "w < 2 ^ 32"
  shows "records (encode_custom (op_identifier (ops_of env n)) pieces) a (2 + (w + 7) div 8) st (extern_custom env a n data st)"
proof -
  have "drop_bit 3 (of_nat w + 7 :: u64) = of_nat ((w + 7) div 8)"
    using assms(4) by (simp add: word_unat_eq_iff unat_shiftr unat_plus_small unat_of_nat_small)
  then have w: "2 + drop_bit 3 (of_nat w + 7 :: u64) = of_nat (2 + (w + 7) div 8)" by simp
  have "emits ([CODE_CUSTOM] @ (op_identifier (ops_of env n) @ [0]) @ concat pieces) st
      (bind_outcome (Write env CODE_CUSTOM st) (\<lambda>st. bind_outcome (emit env (op_identifier (ops_of env n) @ [0]) st)
         (emit_all env pieces)))"
    unfolding Write_def by (intro emits_bind emit_emits emit_all_emits)
  from records_bind [OF this assms(1), where f = "\<lambda>st. extern_record_location env a
       (st\<lparr>size_32 := size_32 st + (2 + drop_bit 2 (s32 + 3)), size_64 := size_64 st + of_nat (2 + (w + 7) div 8)\<rparr>)" and a = a and x = "\<lambda>st. size_32 st + (2 + drop_bit 2 (s32 + 3))" and n = "2 + (w + 7) div 8"]
  show ?thesis
    by (simp add: extern_custom_def assms w bind_outcome_assoc encode_custom_def del: of_nat_add)
qed

end
