(* ===== verification/Marshal_Proofs.thy ===== *)
theory Marshal_Proofs
  imports Marshal_Graph Custom_Ops Ints_Proofs
begin

text \<open>
  Reading back what was written: the writer's steps, the invariant of its marks, the state of the
  reader as the mirror of the writer's, and the round trip.
\<close>

section \<open>The marks of the writer\<close>

definition words :: "heap \<Rightarrow> addr list \<Rightarrow> nat" where
  "words h as = (\<Sum>a\<leftarrow>as. Suc (wosize_of (the (h a))))"

text \<open>The blocks met are numbered in the order of the trail, and their sizes are added up.\<close>

definition numbered :: "heap \<Rightarrow> addr set \<Rightarrow> extern_state \<Rightarrow> bool" where
  "numbered h S st \<longleftrightarrow>
     distinct (trail st) \<and> set (trail st) \<subseteq> S \<and> dom (located st) = set (trail st) \<and>
     obj_counter st = of_nat (length (trail st)) \<and> size_64 st = of_nat (words h (trail st)) \<and>
     (\<forall>i<length (trail st). located st (rev (trail st) ! i) = Some (of_nat i)) \<and>
     (\<forall>a\<in>set (trail st). resolve h (Ptr a) = Ptr a \<and> 0 < wosize_of (the (h a)))"

lemma words_simps [simp]: "words h [] = 0" "words h (a # as) = Suc (wosize_of (the (h a))) + words h as"
  by (simp_all add: words_def)

lemma words_append [simp]: "words h (as @ bs) = words h as + words h bs"
  by (simp add: words_def)

lemma words_rev [simp]: "words h (rev as) = words h as"
  by (induction as) simp_all

lemma resolve_Long [simp]: "resolve h (Long n) = Long n"
  by (simp add: resolve_def)

lemma resolve_forward:
  assumes "h a = Some (Scannable Forward_tag (f # fs))" "\<not> do_not_short_circuit h f"
  shows "resolve h (Ptr a) = f" "resolve h f = f"
proof -
  show "resolve h (Ptr a) = f" using assms by (simp add: resolve_def)
  show "resolve h f = f"
    using assms(2) by (auto simp: resolve_def do_not_short_circuit_def split: val.splits option.splits block.splits list.splits)
qed

definition weight :: "heap \<Rightarrow> val \<Rightarrow> nat" where
  "weight h v = (if resolve h v = v then 1 else 2)"

definition cost :: "heap \<Rightarrow> addr set \<Rightarrow> extern_state \<Rightarrow> val list \<Rightarrow> nat \<times> nat" where
  "cost h S st vs = (card (S - set (trail st)), \<Sum>v\<leftarrow>vs. weight h v)"

lemma visited_resolve_neq:
  assumes "h a = Some (Scannable Forward_tag (f # fs))" "\<not> do_not_short_circuit h f"
  shows "f \<noteq> Ptr a"
  using assms by (auto simp: do_not_short_circuit_def)

lemma visited_cost:
  assumes "visited h ops v st vs st' bs" "finite S" "value_in S v" "dom (located st) = set (trail st)"
  shows "(cost h S st' (vs @ ws), cost h S st (v # ws)) \<in> less_than <*lex*> less_than"
  using assms
proof cases
  case (visited_forward a f fs)
  have "weight h f = 1" "weight h (Ptr a) = 2"
    using resolve_forward [OF visited_forward(5,6)] visited_resolve_neq [OF visited_forward(5,6)]
    by (simp_all add: weight_def)
  with visited_forward show ?thesis by (simp add: cost_def)
next
  case (visited_new a blk b s32)
  then have "a \<in> S" "a \<notin> set (trail st)" using assms by (auto simp: value_in_def)
  then have "card (S - set (trail st')) < card (S - set (trail st))"
    using assms(2) visited_new by (intro psubset_card_mono) (auto simp: record_new_def)
  then show ?thesis by (simp add: cost_def)
qed (simp_all add: cost_def weight_def)

text \<open>Every step of the writer is one of these, or fails for want of memory.\<close>

lemma emits_cases:
  assumes "emits bs st r"
  obtains e where "r = Inl e" "fails st e" | b where "r = Inr (st\<lparr>out := b\<rparr>)" "appends bs (out st) b"
  using assms by (cases r) (auto simp: emits_def)

lemma records_cases:
  assumes "records bs a n st r"
  obtains e where "r = Inl e" "fails st e" | b s32 where "r = Inr (record_new a n b s32 st)" "appends bs (out st) b"
  using assms by (cases r) (auto simp: records_def)

definition visit_ok :: "heap \<Rightarrow> (nat \<Rightarrow> custom_operations) \<Rightarrow> val \<Rightarrow> extern_state \<Rightarrow> (val list \<times> extern_state) outcome option \<Rightarrow> bool" where
  "visit_ok h ops v st r \<longleftrightarrow>
     (\<exists>e. r = Some (Inl e) \<and> fails st e) \<or> (\<exists>vs st' bs. r = Some (Inr (vs, st')) \<and> visited h ops v st vs st' bs)"

lemma stop_ok:
  assumes "emits bs st r" "\<And>b. appends bs (out st) b \<Longrightarrow> visited h ops v st [] (st\<lparr>out := b\<rparr>) bs"
  shows "visit_ok h ops v st (Some (bind_outcome r (\<lambda>st. Inr ([], st))))"
  using assms(1) by (cases rule: emits_cases) (auto simp: visit_ok_def dest: assms(2))

context custom_codec
begin

lemma marshallable_block:
  assumes "marshallable width known h S" "a \<in> S"
  obtains b where "h a = Some b" "block_in width known h S b"
  using assms by (auto simp: marshallable_def)

lemma words_bound:
  assumes "marshallable width known h S" "distinct as" "set as \<subseteq> S"
  shows "words h as < 2 ^ 61"
proof -
  have "words h as = (\<Sum>a\<in>set as. Suc (wosize_of (the (h a))))"
    using assms(2) by (simp add: words_def sum_list_distinct_conv_sum_set)
  also have "\<dots> \<le> (\<Sum>a\<in>S. Suc (wosize_of (the (h a))))"
    using assms by (intro sum_mono2) (auto simp: marshallable_def)
  finally show ?thesis using assms(1) by (simp add: marshallable_def)
qed

lemma length_le_words: "length as \<le> words h as"
  by (induction as) simp_all

lemma resolve_in:
  assumes "marshallable width known h S" "value_in S v"
  shows "value_in S (resolve h v)"
proof (cases v)
  case (Ptr a)
  then obtain b where "h a = Some b" "block_in width known h S b"
    using assms marshallable_block by (metis value_in_def val.simps(6))
  with Ptr assms(2) show ?thesis
    by (auto simp: resolve_def split: block.splits list.splits)
qed (use assms in simp)

lemma visited_numbered:
  assumes "visited h ops v st vs st' bs" "numbered h S st" "value_in S v" "marshallable width known h S"
  shows "numbered h S st'" "\<forall>v\<in>set vs. value_in S v" "appends bs (out st) (out st')"
    "\<exists>new. trail st' = new @ trail st" "out_user (out st') = out_user (out st)"
proof -
  show "\<forall>v\<in>set vs. value_in S v"
    using assms(1)
  proof cases
    case (visited_forward a f fs)
    then show ?thesis using resolve_in [OF assms(4,3)] resolve_forward by simp
  next
    case (visited_new a blk b s32)
    then obtain b where "h a = Some b" "block_in width known h S b"
      using assms marshallable_block by (metis value_in_def val.simps(6))
    with visited_new show ?thesis by (cases blk) simp_all
  qed simp_all
  show "numbered h S st'"
    using assms(1)
  proof cases
    case (visited_new a blk b s32)
    have "a \<notin> set (trail st)" "a \<in> S"
      using visited_new assms(2,3) by (auto simp: numbered_def value_in_def)
    then show ?thesis
      using assms(2) visited_new
      by (auto simp: numbered_def record_new_def nth_append less_Suc_eq in_set_conv_nth rev_nth)
  qed (use assms(2) in \<open>simp_all add: numbered_def\<close>)
  show "appends bs (out st) (out st')" "\<exists>new. trail st' = new @ trail st" "out_user (out st') = out_user (out st)"
    using assms(1) by (cases; auto simp: record_new_def appends_def)+
qed

lemma new_block_records:
  assumes "block_in width known h S blk" "0 < wosize_of blk"
    and "ex_heap env = h" "ops_of env = ops" "\<not> extern_ignore_sharing env"
  obtains r where "extern_contents env a blk st = Some (bind_outcome r (\<lambda>st. Inr (block_fields blk, st)))"
    "records (encode_head ops blk) a (Suc (wosize_of blk)) st r"
proof (cases blk)
  case (Scannable t fs)
  with that show ?thesis
    using extern_block_records [OF assms(5), of t fs a st] by (simp add: extern_contents_def)
next
  case (Opaque t bs)
  with assms(1) obtain s where s: "t = String_tag" "bs = string_block s" by auto
  have "Suc (wosize_of blk) = 1 + (length s + 8) div 8"
    using Opaque s by (simp add: length_string_block)
  with that show ?thesis
    using extern_string_records [OF assms(5), of s a st] Opaque s by (simp add: extern_contents_def)
next
  case (Custom n data)
  with assms(1) have n: "known n" "length data = 8 * ((width n + 7) div 8)" by simp_all
  from codec [OF n] obtain ser pieces sz_32 where
    "serialize (ops n) = Some ser" "ser data = (pieces, sz_32, of_nat (width n))" by blast
  with that show ?thesis
    using extern_custom_records [of env n ser data pieces sz_32 "width n" a st] width_bound [OF n(1)] assms(4,5) Custom n
    by (simp add: extern_contents_def)
qed (use assms in simp)

lemma forward_or_not:
  assumes "block_in width known h S b" "h a = Some b" "ex_heap env = h" "numbered h S st"
  obtains f fs where "b = Scannable Forward_tag (f # fs)" "\<not> do_not_short_circuit h f" "forward_to env st a b = Some f"
    | "resolve h (Ptr a) = Ptr a" "forward_to env st a b = None"
proof (cases "\<exists>f fs. b = Scannable Forward_tag (f # fs)")
  case True
  then obtain f fs where f: "b = Scannable Forward_tag (f # fs)" by blast
  with assms(1) have d: "\<not> do_not_short_circuit h f" by simp
  have "resolve h (Ptr a) \<noteq> Ptr a"
    using resolve_forward(1) visited_resolve_neq assms(2) d f by metis
  then have "located st a = None"
    using assms(4) by (auto simp: numbered_def)
  then have "forward_to env st a b = Some f"
    using f d assms(3) by (simp add: forward_to_def Forward_field_def)
  with f d that(1) show ?thesis by blast
next
  case False
  then have "resolve h (Ptr a) = Ptr a" "forward_to env st a b = None"
    using assms(2) by (auto simp: resolve_def forward_to_def split: block.splits list.splits)
  with that(2) show ?thesis by blast
qed

lemma empty_block:
  assumes "block_in width known h S b" "wosize_of b = 0"
  obtains t where "b = Scannable t []" "t < 256"
proof (cases b)
  case (Opaque t bs)
  then obtain s where "bs = string_block s" using assms(1) by auto
  then show ?thesis using assms(2) Opaque by (simp add: length_string_block)
qed (use assms that in \<open>auto simp: No_scan_tag_def\<close>)

lemma extern_visit_visited:
  assumes "marshallable width known h S" "ex_heap env = h" "ops_of env = ops" "\<not> extern_ignore_sharing env"
    and "value_in S v" "numbered h S st"
  shows "visit_ok h ops v st (extern_visit env v st)"
proof (cases v)
  case (Long n)
  have "extern_visit env v st = Some (bind_outcome (extern_long env (Long_val n) st) (\<lambda>st. Inr ([], st)))"
    using Long by (simp add: extern_visit_def)
  then show ?thesis
    unfolding Long using stop_ok [OF extern_long_emits, OF visited_long] by simp
next
  case (Ptr a)
  with assms(5) have "a \<in> S" by (simp add: value_in_def)
  with assms(1) obtain b where b: "h a = Some b" "block_in width known h S b"
    by (rule marshallable_block)
  have visit: "extern_visit env v st =
      (case forward_to env st a b of
         Some f \<Rightarrow> Some (Inr ([f], st))
       | None \<Rightarrow>
           if wosize_of b = 0 then Some (bind_outcome (extern_atom env (tag_of b) st) (\<lambda>st. Inr ([], st)))
           else
             (case located st a of
                Some d \<Rightarrow> Some (bind_outcome (extern_shared env (obj_counter st - d) st) (\<lambda>st. Inr ([], st)))
              | None \<Rightarrow> extern_contents env a b st))"
    using Ptr b assms(2) by (simp add: extern_visit_def)
  from b(2,1) assms(2,6) show ?thesis
  proof (cases rule: forward_or_not)
    case (1 f fs)
    then have "visited h ops v st [f] st []"
      using b(1) unfolding Ptr by (simp add: visited_forward)
    moreover have "extern_visit env v st = Some (Inr ([f], st))"
      using 1 by (simp add: visit)
    ultimately show ?thesis by (auto simp: visit_ok_def)
  next
    case r: 2
    consider "wosize_of b = 0" | d where "0 < wosize_of b" "located st a = Some d" | "0 < wosize_of b" "located st a = None"
      by fastforce
    then show ?thesis
    proof cases
      case 1
      with b(2) obtain t where t: "b = Scannable t []" "t < 256" by (rule empty_block)
      have "extern_visit env v st = Some (bind_outcome (extern_atom env t st) (\<lambda>st. Inr ([], st)))"
        using t(1) r by (simp add: visit)
      then show ?thesis
        unfolding Ptr using stop_ok [OF extern_atom_emits [OF t(2)], OF visited_atom] b(1) t(1) by simp
    next
      case (2 d)
      then have "extern_visit env v st = Some (bind_outcome (extern_shared env (obj_counter st - d) st) (\<lambda>st. Inr ([], st)))"
        using r by (simp add: visit)
      then show ?thesis
        unfolding Ptr using stop_ok [OF extern_shared_emits, OF visited_shared] 2 by simp
    next
      case 3
      from new_block_records [OF b(2) 3(1) assms(2,3,4), where st = st and a = a] obtain r where
        x: "extern_contents env a b st = Some (bind_outcome r (\<lambda>st. Inr (block_fields b, st)))"
        and y: "records (encode_head ops b) a (Suc (wosize_of b)) st r" .
      from y show ?thesis
      proof (cases rule: records_cases)
        case (1 e)
        with 3 r x show ?thesis by (simp add: visit visit_ok_def)
      next
        case (2 b' s32)
        have "visited h ops v st (block_fields b) (record_new a (Suc (wosize_of b)) b' s32 st) (encode_head ops b)"
          unfolding Ptr by (rule visited_new) (use b 3 r 2 in simp_all)
        with 2 3 r x show ?thesis by (auto simp: visit visit_ok_def)
      qed
    qed
  qed
qed

end

section \<open>The state of the reader\<close>

text \<open>Where the blocks met, in order, have been copied to.\<close>

abbreviation copies :: "addr list \<Rightarrow> addr list \<Rightarrow> addr \<Rightarrow> addr option" where
  "copies objs tbl \<equiv> map_of (zip objs tbl)"

text \<open>A copied block, some of whose fields are still to be read.\<close>

fun partly_copied :: "heap \<Rightarrow> (nat \<Rightarrow> addr) \<Rightarrow> (nat \<Rightarrow> nat) \<Rightarrow> (addr \<Rightarrow> addr option) \<Rightarrow> (val \<times> dest) set \<Rightarrow> addr \<Rightarrow> block \<Rightarrow> block \<Rightarrow> bool" where
  "partly_copied h atom width copy pend b (Scannable t fs) (Scannable u gs) \<longleftrightarrow>
     t = u \<and> length fs = length gs \<and>
     (\<forall>i<length fs. same_value h atom copy (fs ! i) (gs ! i) \<or> (\<exists>v. (v, Field_of b i) \<in> pend))"
| "partly_copied h atom width copy pend b x y \<longleftrightarrow> same_block h atom width copy x y"

text \<open>The value to be read for a destination stands for the one the original has there.\<close>

fun expected :: "heap \<Rightarrow> (addr \<Rightarrow> addr option) \<Rightarrow> val \<Rightarrow> val \<times> dest \<Rightarrow> bool" where
  "expected h copy v0 (v, Result) \<longleftrightarrow> resolve h v = resolve h v0"
| "expected h copy v0 (v, Field_of b i) \<longleftrightarrow>
     (\<exists>a t fs. copy a = Some b \<and> h a = Some (Scannable t fs) \<and> i < length fs \<and> resolve h v = resolve h (fs ! i))"
| "expected h copy v0 (v, Plus_offset ofs d) \<longleftrightarrow> False"

definition mirror :: "heap \<Rightarrow> (nat \<Rightarrow> addr) \<Rightarrow> (nat \<Rightarrow> nat) \<Rightarrow> intern_limits \<Rightarrow> addr \<Rightarrow> val \<Rightarrow> addr list \<Rightarrow> addr list \<Rightarrow>
    intern_state \<Rightarrow> (val \<times> dest) list \<Rightarrow> bool" where
  "mirror h atom width lim base v0 objs tbl st pend \<longleftrightarrow>
     length tbl = length objs \<and> distinct objs \<and> distinct tbl \<and>
     intern_obj_table st = (if num_objects lim = 0 then None else Some (map Ptr tbl)) \<and>
     intern_dest st = base + words h objs \<and> dom (built st) = set tbl \<and> (\<forall>b\<in>set tbl. b \<le> base + words h objs) \<and>
     (\<forall>a b. copies objs tbl a = Some b \<longrightarrow>
        partly_copied h atom width (copies objs tbl) (set pend) b (the (h a)) (the (built st b))) \<and>
     (\<forall>p\<in>set pend. expected h (copies objs tbl) v0 p) \<and>
     ((\<exists>v. (v, Result) \<in> set pend) \<or> (\<exists>w. result st = Some w \<and> same_value h atom (copies objs tbl) v0 w))"

lemma same_value_resolve: "resolve h v = resolve h v' \<Longrightarrow> same_value h atom copy v w = same_value h atom copy v' w"
  by (simp add: same_value_def)

lemma same_value_mono: "same_value h atom copy v w \<Longrightarrow> copy \<subseteq>\<^sub>m copy' \<Longrightarrow> same_value h atom copy' v w"
  by (auto simp: same_value_def map_le_def dom_def split: val.splits option.splits block.splits list.splits)

lemma copies_inj:
  assumes "length tbl = length objs" "distinct objs" "distinct tbl" "copies objs tbl a = Some b" "copies objs tbl a' = Some b"
  shows "a = a'"
  using assms by (auto simp: in_set_zip nth_eq_iff_index_eq dest!: map_of_SomeD)

text \<open>Storing the value read for the first destination.\<close>

lemma store_mirror:
  assumes m: "mirror h atom width lim base v0 objs tbl st ((v, d) # pend)" and w: "same_value h atom (copies objs tbl) v w"
  obtains st' where "store d w st = Some st'" "mirror h atom width lim base v0 objs tbl st' pend" "intern_src st' = intern_src st"
proof (cases d)
  case Result
  let ?st = "st\<lparr>result := Some w\<rparr>"
  have "resolve h v = resolve h v0" using m Result by (simp add: mirror_def)
  then have "same_value h atom (copies objs tbl) v0 w" using w same_value_resolve by blast
  moreover have "partly_copied h atom width copy (set ((v, d) # pend)) b x y \<Longrightarrow> partly_copied h atom width copy (set pend) b x y" for copy b x y
    using Result by (cases x; cases y) auto
  ultimately have "mirror h atom width lim base v0 objs tbl ?st pend"
    using m unfolding mirror_def by auto
  with that Result show ?thesis by simp
next
  case (Field_of b i)
  let ?copy = "copies objs tbl"
  from m Field_of obtain a t fs where a: "?copy a = Some b" "h a = Some (Scannable t fs)" "i < length fs" "resolve h v = resolve h (fs ! i)"
    by (auto simp: mirror_def)
  from m a have "partly_copied h atom width ?copy (set ((v, d) # pend)) b (Scannable t fs) (the (built st b))"
    by (fastforce simp: mirror_def)
  moreover have "b \<in> dom (built st)"
    using a m by (auto simp: mirror_def dest!: map_of_SomeD set_zip_rightD)
  ultimately obtain gs where g: "built st b = Some (Scannable t gs)" "length gs = length fs"
    by (cases "the (built st b)") auto
  let ?st = "st\<lparr>built := (built st)(b \<mapsto> Scannable t (gs[i := w]))\<rparr>"
  have w': "same_value h atom ?copy (fs ! i) w" using w a(4) same_value_resolve by blast
  have "partly_copied h atom width ?copy (set pend) b' (the (h a')) (the (built ?st b'))"
    if "?copy a' = Some b'" for a' b'
  proof -
    have old: "partly_copied h atom width ?copy (set ((v, d) # pend)) b' (the (h a')) (the (built st b'))"
      using m that by (auto simp: mirror_def)
    show ?thesis
    proof (cases "b' = b")
      case True
      then have "a' = a" using that a(1) m copies_inj [of tbl objs] by (auto simp: mirror_def)
      with True old a g w' Field_of show ?thesis by (auto simp: nth_list_update)
    next
      case False
      then show ?thesis
        using old Field_of by (cases "the (h a')"; cases "the (built st b')") auto
    qed
  qed
  moreover have "dom (built ?st) = set tbl" using m g by (auto simp: mirror_def)
  ultimately have "mirror h atom width lim base v0 objs tbl ?st pend"
    using m Field_of unfolding mirror_def by simp
  with that Field_of g a show ?thesis by simp
qed (use m in \<open>simp add: mirror_def\<close>)

text \<open>Building the copy of a new block.\<close>

lemma copies_None: "a \<notin> set objs \<Longrightarrow> copies objs tbl a = None"
  by (auto simp: map_of_eq_None_iff dest: set_zip_leftD)

lemma copies_snoc:
  assumes "length tbl = length objs" "a \<notin> set objs"
  shows "copies (objs @ [a]) (tbl @ [c]) = (copies objs tbl)(a \<mapsto> c)"
proof
  fix x
  have "zip (objs @ [a]) (tbl @ [c]) = zip objs tbl @ [(a, c)]" using assms(1) by simp
  then have "copies (objs @ [a]) (tbl @ [c]) x = (case copies objs tbl x of None \<Rightarrow> map_of [(a, c)] x | Some y \<Rightarrow> Some y)"
    by (simp only: map_of_append map_add_def)
  then show "copies (objs @ [a]) (tbl @ [c]) x = ((copies objs tbl)(a \<mapsto> c)) x"
    using copies_None [OF assms(2)] by (cases "x = a") (simp_all split: option.split)
qed

lemma partly_copied_mono:
  assumes "partly_copied h atom width copy pend b x y" "copy \<subseteq>\<^sub>m copy'" "pend \<subseteq> pend'"
  shows "partly_copied h atom width copy' pend' b x y"
proof (cases "\<exists>t fs u gs. x = Scannable t fs \<and> y = Scannable u gs")
  case True
  then show ?thesis using assms(1,3) same_value_mono [OF _ assms(2)] by (clarsimp) blast
next
  case False
  then show ?thesis using assms(1) by (cases x; cases y) simp_all
qed

lemma expected_mono: "expected h copy v0 p \<Longrightarrow> copy \<subseteq>\<^sub>m copy' \<Longrightarrow> expected h copy' v0 p"
  by (cases "(h, copy, v0, p)" rule: expected.cases) (auto simp: map_le_def dom_def, metis)

definition field_dests :: "addr \<Rightarrow> block \<Rightarrow> (val \<times> dest) list" where
  "field_dests c blk = zip (block_fields blk) (map (Field_of c) [0..<length (block_fields blk)])"

lemma in_field_dests:
  "p \<in> set (field_dests c blk) \<longleftrightarrow> (\<exists>i<length (block_fields blk). p = (block_fields blk ! i, Field_of c i))"
  by (force simp: field_dests_def set_zip)

lemma build_mirror:
  assumes m: "mirror h atom width lim base v0 objs tbl st ((Ptr a, d) # pend)"
    and a: "a \<notin> set objs" "h a = Some blk" "resolve h (Ptr a) = Ptr a" "0 < wosize_of blk"
    and room: "base + words h objs + Suc (wosize_of blk) \<le> zone_end lim" "length objs < num_objects lim"
    and nb: "partly_copied h atom width Map.empty (set (field_dests (Suc (intern_dest st)) blk)) (Suc (intern_dest st)) blk nb"
  obtains st' where "build lim (wosize_of blk) nb st = Some (Suc (intern_dest st), st')"
    "intern_src st' = intern_src st"
    "mirror h atom width lim base v0 (objs @ [a]) (tbl @ [Suc (intern_dest st)]) st'
       ((Ptr a, d) # field_dests (Suc (intern_dest st)) blk @ pend)"
    "same_value h atom (copies (objs @ [a]) (tbl @ [Suc (intern_dest st)])) (Ptr a) (Ptr (Suc (intern_dest st)))"
proof -
  define c where "c = Suc (intern_dest st)"
  let ?new = "field_dests c blk"
  let ?copy = "copies objs tbl" and ?copy' = "copies (objs @ [a]) (tbl @ [c])"
  let ?st = "st\<lparr>built := (built st)(c \<mapsto> nb), intern_dest := c + wosize_of blk, intern_obj_table := Some (map Ptr (tbl @ [c]))\<rparr>"
  have l: "length tbl = length objs" and dest: "intern_dest st = base + words h objs"
    and old: "\<forall>b\<in>set tbl. b \<le> base + words h objs" and db: "dom (built st) = set tbl"
    and dist: "distinct objs" "distinct tbl"
    using m by (simp_all add: mirror_def)
  have c: "c \<notin> set tbl" using old dest by (auto simp: c_def)
  have sn: "?copy' = ?copy(a \<mapsto> c)" by (rule copies_snoc [OF l a(1)])
  have none: "?copy a = None"
    using a(1) by (auto simp: map_of_eq_None_iff dest: set_zip_leftD)
  have le: "?copy \<subseteq>\<^sub>m ?copy'" unfolding sn using none by (auto simp: map_le_def)
  have "build lim (wosize_of blk) nb st = Some (c, ?st)"
    using room m l by (simp add: build_def record_object_def mirror_def c_def Let_def)
  moreover have "same_value h atom ?copy' (Ptr a) (Ptr c)"
    using a(2,3,4) sn by (auto simp: same_value_def split: block.splits list.splits)
  moreover have "mirror h atom width lim base v0 (objs @ [a]) (tbl @ [c]) ?st ((Ptr a, d) # ?new @ pend)"
  proof -
    have "partly_copied h atom width ?copy' (set ((Ptr a, d) # ?new @ pend)) b (the (h x)) (the (built ?st b))"
      if "?copy' x = Some b" for x b
    proof (cases "x = a")
      case True
      then have "b = c" using that by (simp add: sn)
      have "partly_copied h atom width ?copy' (set ((Ptr a, d) # ?new @ pend)) c blk nb"
        by (rule partly_copied_mono [OF nb [folded c_def]]) auto
      with True \<open>b = c\<close> a(2) show ?thesis by simp
    next
      case False
      then have x: "?copy x = Some b" using that by (simp add: sn)
      then have "b \<noteq> c" using c by (auto dest!: map_of_SomeD set_zip_rightD)
      have "partly_copied h atom width ?copy (set ((Ptr a, d) # pend)) b (the (h x)) (the (built st b))"
        using m x unfolding mirror_def by blast
      from partly_copied_mono [OF this le] \<open>b \<noteq> c\<close> show ?thesis by auto
    qed
    moreover have "expected h ?copy' v0 p" if "p \<in> set ((Ptr a, d) # ?new @ pend)" for p
    proof (cases "p \<in> set ?new")
      case True
      then obtain i where i: "i < length (block_fields blk)" "p = (block_fields blk ! i, Field_of c i)"
        by (auto simp: in_field_dests)
      then obtain t fs where "blk = Scannable t fs" by (cases blk) auto
      with i a(2) sn show ?thesis by auto
    next
      case False
      then have "expected h ?copy v0 p" using that m unfolding mirror_def by auto
      then show ?thesis using le by (rule expected_mono)
    qed
    moreover have "(\<exists>v. (v, Result) \<in> set ((Ptr a, d) # ?new @ pend)) \<or>
        (\<exists>w. result ?st = Some w \<and> same_value h atom ?copy' v0 w)"
      using m same_value_mono [OF _ le] unfolding mirror_def by auto
    ultimately show ?thesis
      using l dest old db dist a(1,2) c room(2) by (auto simp: mirror_def c_def)
  qed
  ultimately show ?thesis using that unfolding c_def by simp
qed

section \<open>Steps of the reader\<close>

lemma mirror_src [simp]:
  "mirror h atom width lim base v0 objs tbl (st\<lparr>intern_src := src\<rparr>) pend = mirror h atom width lim base v0 objs tbl st pend"
  by (simp add: mirror_def)

lemma mirror_forward:
  assumes "mirror h atom width lim base v0 objs tbl st ((v, d) # pend)" "resolve h f = resolve h v"
  shows "mirror h atom width lim base v0 objs tbl st ((f, d) # pend)"
proof -
  have "partly_copied h atom width copy (set ((f, d) # pend)) b x y"
    if "partly_copied h atom width copy (set ((v, d) # pend)) b x y" for copy b x y
    using that by (cases x; cases y) auto
  moreover have "expected h copy v0 (f, d) = expected h copy v0 (v, d)" for copy
    using assms(2) by (cases d) auto
  ultimately show ?thesis using assms(1) unfolding mirror_def by auto
qed

lemma intern_src_same: "intern_src st = src \<Longrightarrow> st\<lparr>intern_src := src\<rparr> = st"
  by auto

lemma ret_mirror:
  assumes "mirror h atom width lim base v0 objs tbl st ((v, d) # pend)" "same_value h atom (copies objs tbl) v w"
  obtains st' where "ret d w st = Some (Inr ([], st'))" "mirror h atom width lim base v0 objs tbl st' pend"
    "intern_src st' = intern_src st"
  using store_mirror [OF assms] unfolding ret_def by force

lemma Val_long_Long_val: "Is_long n \<Longrightarrow> Val_long (Long_val n) = n"
proof -
  assume n: "Is_long n"
  then have "bit n 0" by (simp add: Is_long_def and_one_eq bit_0 mod2_eq_if split: if_splits)
  have "Val_long (Long_val n) = push_bit 1 (signed_drop_bit 1 n) OR 1"
    unfolding Val_long_def Long_val_def by (rule plus_disjoint) (simp add: and_one_eq mod2_eq_if)
  also have "\<dots> = n"
  proof (rule bit_word_eqI)
    fix k assume "k < LENGTH(64)"
    then show "bit (push_bit 1 (signed_drop_bit 1 n) OR 1) k = bit n k"
      using \<open>bit n 0\<close>
      by (cases k) (simp_all only: bit_or_iff bit_push_bit_iff bit_1_iff bit_signed_drop_bit_iff, auto)
  qed
  finally show ?thesis .
qed

context custom_codec
begin

lemma length_encode_string: "length s \<le> length (encode_string s)"
  by (simp add: encode_string_def)

text \<open>A new block is built as it was, but for its fields and the bytes of custom data that do not matter.\<close>

lemma new_block_interned:
  assumes "block_in width known h S blk" "0 < wosize_of blk" "custom_ops_table ienv = table"
    and src: "intern_src ist = encode_head ops blk @ rest" and len: "length (encode_head ops blk) < 2 ^ 32"
  obtains nb x where "\<And>c. partly_copied h (Atom ienv) width Map.empty (set (field_dests c blk)) c blk nb"
    "\<And>c ist'. build lim (wosize_of blk) nb (ist\<lparr>intern_src := x\<rparr>) = Some (c, ist') \<Longrightarrow> intern_src ist' = x \<Longrightarrow>
       intern_item ienv lim d ist =
         map_option (\<lambda>st. Inr (map snd (field_dests c blk), st)) (store d (Ptr c) (ist'\<lparr>intern_src := rest\<rparr>))"
proof (cases blk)
  case (Scannable t fs)
  let ?nb = "Scannable t (replicate (length fs) (junk ienv))"
  have t: "t < No_scan_tag" "length fs \<le> Max_wosize" "t < 256" using assms(1) Scannable by (auto simp: No_scan_tag_def)
  have i: "intern_item ienv lim d ist = read_block ienv lim d t (length fs) (ist\<lparr>intern_src := rest\<rparr>)"
    by (rule intern_block [OF _ t(2,3)]) (use src Scannable in simp)
  have "map snd (field_dests c blk) = map (Field_of c) [0..<length fs]" for c
    using Scannable by (simp add: field_dests_def)
  then have "intern_item ienv lim d ist =
      map_option (\<lambda>st. Inr (map snd (field_dests c blk), st)) (store d (Ptr c) (ist'\<lparr>intern_src := rest\<rparr>))"
    if "build lim (wosize_of blk) ?nb (ist\<lparr>intern_src := rest\<rparr>) = Some (c, ist')" "intern_src ist' = rest" for c ist'
    using that t assms(2) Scannable by (simp add: i read_block_def intern_src_same)
  moreover have "partly_copied h (Atom ienv) width Map.empty (set (field_dests c blk)) c blk ?nb" for c
    using Scannable by (auto simp: in_field_dests)
  ultimately show ?thesis using that by blast
next
  case (Opaque t bs)
  with assms(1) obtain s where s: "t = String_tag" "bs = string_block s" by auto
  have w: "wosize_of blk = (length s + 8) div 8" using Opaque s by (simp add: length_string_block)
  have "length s < 2 ^ 32" using len length_encode_string [of s] Opaque s by simp
  then have i: "intern_item ienv lim d ist = read_string lim d (length s) (ist\<lparr>intern_src := s @ rest\<rparr>)"
    by (intro intern_string) (use src Opaque s in simp_all)
  have "intern_item ienv lim d ist =
      map_option (\<lambda>st. Inr (map snd (field_dests c blk), st)) (store d (Ptr c) (ist'\<lparr>intern_src := rest\<rparr>))"
    if "build lim (wosize_of blk) blk (ist\<lparr>intern_src := s @ rest\<rparr>) = Some (c, ist')" "intern_src ist' = s @ rest" for c ist'
    using that [unfolded w] Opaque s by (simp add: i read_string_def ret_def field_dests_def)
  moreover have "partly_copied h (Atom ienv) width Map.empty (set (field_dests c blk)) c blk blk" for c
    using Opaque by simp
  ultimately show ?thesis using that by blast
next
  case (Custom n data)
  with assms(1) have n: "known n" "length data = 8 * ((width n + 7) div 8)" by simp_all
  from codec [OF n] obtain ser pieces sz_32 where ser: "serialize (ops n) = Some ser" "ser data = (pieces, sz_32, of_nat (width n))"
    and de: "\<And>rest. deserialize (ops n) (concat pieces @ rest) = Some (Inr (take (width n) data), rest)" by blast
  let ?x = "op_identifier (ops n) @ 0 # concat pieces @ rest"
  define nb where "nb = Custom n (take (width n) data @ replicate (8 * ((width n + 7) div 8) - width n) (junk_byte ienv))"
  have le: "width n \<le> 8 * ((width n + 7) div 8)" by linarith
  have "intern_src ist = encode_custom (op_identifier (ops n)) pieces @ rest" using src Custom ser by simp
  note i = intern_custom [OF this no_null [OF n(1)], of ienv n "ops n", unfolded assms(3), OF found [OF n(1)] de]
  have "length (take (width n) data) = width n" using n le by simp
  then have i: "intern_item ienv lim d ist = Option.bind (build lim (wosize_of blk) nb (ist\<lparr>intern_src := ?x\<rparr>))
      (\<lambda>(a, st). ret d (Ptr a) (st\<lparr>intern_src := rest\<rparr>))"
    using Custom n by (simp add: i nb_def Let_def add.commute [of 7] del: length_take)
  have "intern_item ienv lim d ist =
      map_option (\<lambda>st. Inr (map snd (field_dests c blk), st)) (store d (Ptr c) (ist'\<lparr>intern_src := rest\<rparr>))"
    if "build lim (wosize_of blk) nb (ist\<lparr>intern_src := ?x\<rparr>) = Some (c, ist')" "intern_src ist' = ?x" for c ist'
    using that Custom by (simp add: i ret_def field_dests_def)
  moreover have "partly_copied h (Atom ienv) width Map.empty (set (field_dests c blk)) c blk nb" for c
    using Custom n le by (simp add: nb_def)
  ultimately show ?thesis using that by blast
qed (use assms in simp)

text \<open>One step of the writer is undone by one step of the reader.\<close>

lemma intern_shared_step:
  assumes "numbered h S st" "located st a = Some i"
    and m: "mirror h (Atom ienv) width lim base v0 (rev (trail st)) tbl ist ((Ptr a, d) # pend)"
    and src: "intern_src ist = encode_shared (obj_counter st - i) @ rest" and n: "length (trail st) < 2 ^ 32" "length (trail st) \<le> num_objects lim"
  obtains ist' where "intern_item ienv lim d ist = Some (Inr ([], ist'))" "intern_src ist' = rest"
    "mirror h (Atom ienv) width lim base v0 (rev (trail st)) tbl ist' pend"
proof -
  let ?n = "length (trail st)"
  have "a \<in> set (trail st)" using assms(1,2) by (auto simp: numbered_def)
  then obtain k where k: "k < ?n" "rev (trail st) ! k = a" by (metis in_set_conv_nth length_rev set_rev)
  with assms(1,2) have i: "i = of_nat k" "obj_counter st = of_nat ?n" by (auto simp: numbered_def)
  have "obj_counter st - i = of_nat (?n - k)" using k i by simp
  moreover have "unat (of_nat (?n - k) :: u64) = ?n - k" using n by (intro unat_of_nat_small) simp
  ultimately have u: "unat (obj_counter st - i) = ?n - k" by (simp only:)
  have t: "intern_obj_table ist = Some (map Ptr tbl)" "length tbl = ?n"
    using m k n by (auto simp: mirror_def)
  have "of_nat ?n - (obj_counter st - i) = (of_nat k :: u64)" using i by simp
  then have "unat (of_nat ?n - (obj_counter st - i) :: u64) = k" using k n by (simp add: unat_of_nat_small)
  then have r: "read_shared d (obj_counter st - i) (ist\<lparr>intern_src := rest\<rparr>) = ret d (Ptr (tbl ! k)) (ist\<lparr>intern_src := rest\<rparr>)"
    using t k by (simp add: read_shared_def)
  have "(a, tbl ! k) \<in> set (zip (rev (trail st)) tbl)"
    using k t by (force simp: in_set_zip)
  moreover have "distinct (map fst (zip (rev (trail st)) tbl))"
    using assms(1) t by (simp add: numbered_def)
  ultimately have "copies (rev (trail st)) tbl a = Some (tbl ! k)" by (simp add: map_of_is_SomeI)
  moreover have "resolve h (Ptr a) = Ptr a" "0 < wosize_of (the (h a))"
    using assms(1) \<open>a \<in> set (trail st)\<close> by (auto simp: numbered_def)
  ultimately have sv: "same_value h (Atom ienv) (copies (rev (trail st)) tbl) (Ptr a) (Ptr (tbl ! k))"
    by (auto simp: same_value_def split: option.splits block.splits list.splits)
  have it: "intern_item ienv lim d ist = read_shared d (obj_counter st - i) (ist\<lparr>intern_src := rest\<rparr>)"
    by (rule intern_shared [OF src]) (use u n in simp)
  show ?thesis
    by (rule ret_mirror [of h "Atom ienv" width lim base v0 "rev (trail st)" tbl "ist\<lparr>intern_src := rest\<rparr>" "Ptr a" d pend "Ptr (tbl ! k)"])
      (use m sv that it r in simp_all)
qed

lemma intern_new_step:
  assumes "numbered h S st" "located st a = None" "h a = Some blk" "block_in width known h S blk" "0 < wosize_of blk"
    and "resolve h (Ptr a) = Ptr a" "custom_ops_table ienv = table"
    and m: "mirror h (Atom ienv) width lim base v0 (rev (trail st)) tbl ist ((Ptr a, d) # pend)"
    and src: "intern_src ist = encode_head ops blk @ rest" and len: "length (encode_head ops blk) < 2 ^ 32"
    and room: "base + words h (a # trail st) \<le> zone_end lim" "Suc (length (trail st)) \<le> num_objects lim"
  obtains ds tbl' ist' where "intern_item ienv lim d ist = Some (Inr (ds, ist'))" "length ds = length (block_fields blk)"
    "intern_src ist' = rest"
    "mirror h (Atom ienv) width lim base v0 (rev (a # trail st)) tbl' ist' (zip (block_fields blk) ds @ pend)"
proof -
  obtain nb x where nb: "\<And>c. partly_copied h (Atom ienv) width Map.empty (set (field_dests c blk)) c blk nb"
    and item: "\<And>c ist'. build lim (wosize_of blk) nb (ist\<lparr>intern_src := x\<rparr>) = Some (c, ist') \<Longrightarrow> intern_src ist' = x \<Longrightarrow>
       intern_item ienv lim d ist =
         map_option (\<lambda>st. Inr (map snd (field_dests c blk), st)) (store d (Ptr c) (ist'\<lparr>intern_src := rest\<rparr>))"
    by (rule new_block_interned [OF assms(4,5,7) src len]) blast
  let ?ist = "ist\<lparr>intern_src := x\<rparr>" and ?c = "Suc (intern_dest ist)"
  have new: "a \<notin> set (rev (trail st))" using assms(1,2) by (auto simp: numbered_def)
  obtain ist1 where b: "build lim (wosize_of blk) nb ?ist = Some (?c, ist1)" "intern_src ist1 = x"
    and m1: "mirror h (Atom ienv) width lim base v0 (rev (trail st) @ [a]) (tbl @ [?c]) ist1 ((Ptr a, d) # field_dests ?c blk @ pend)"
    and sv: "same_value h (Atom ienv) (copies (rev (trail st) @ [a]) (tbl @ [?c])) (Ptr a) (Ptr ?c)"
    by (rule build_mirror [of h "Atom ienv" width lim base v0 "rev (trail st)" tbl ?ist a d pend blk nb])
      (use m new assms(3,5,6) room nb in \<open>simp_all add: \<close>)
  obtain ist2 where s: "store d (Ptr ?c) (ist1\<lparr>intern_src := rest\<rparr>) = Some ist2"
    "mirror h (Atom ienv) width lim base v0 (rev (trail st) @ [a]) (tbl @ [?c]) ist2 (field_dests ?c blk @ pend)"
    "intern_src ist2 = rest"
    by (rule store_mirror [of h "Atom ienv" width lim base v0 "rev (trail st) @ [a]" "tbl @ [?c]" "ist1\<lparr>intern_src := rest\<rparr>"
          "Ptr a" d "field_dests ?c blk @ pend" "Ptr ?c"]) (use m1 sv in simp_all)
  have "zip (block_fields blk) (map snd (field_dests ?c blk)) = field_dests ?c blk"
    "length (map snd (field_dests ?c blk)) = length (block_fields blk)"
    by (simp_all add: field_dests_def)
  with that [OF _ _ _] item [OF b] s show ?thesis by simp
qed

lemma intern_step:
  assumes vis: "visited h ops v st vs st' bs" and num: "numbered h S st" and ok: "marshallable width known h S" "value_in S v"
    and table: "custom_ops_table ienv = table"
    and m: "mirror h (Atom ienv) width lim base v0 (rev (trail st)) tbl ist ((v, d) # pend)"
    and src: "intern_src ist = bs @ rest" and len: "length bs < 2 ^ 32" "num_objects lim < 2 ^ 32"
    and room: "base + words h (trail st') \<le> zone_end lim" "length (trail st') \<le> num_objects lim"
  obtains (stay) f where "vs = [f]" "st' = st" "bs = []"
      "mirror h (Atom ienv) width lim base v0 (rev (trail st)) tbl ist ((f, d) # pend)"
    | (step) ds tbl' ist' where "intern_item ienv lim d ist = Some (Inr (ds, ist'))" "length ds = length vs"
      "intern_src ist' = rest" "mirror h (Atom ienv) width lim base v0 (rev (trail st')) tbl' ist' (zip vs ds @ pend)"
  using vis
proof cases
  case (visited_forward a f fs)
  then show ?thesis
    using stay mirror_forward [OF m] resolve_forward [OF visited_forward(5,6)] by simp
next
  case (visited_long n b)
  have "intern_item ienv lim d ist = ret d (Long n) (ist\<lparr>intern_src := rest\<rparr>)"
    using intern_long [of ist "Long_val n" rest ienv lim d] src visited_long ok(2) by (simp add: value_in_def Val_long_Long_val)
  moreover have "same_value h (Atom ienv) (copies (rev (trail st)) tbl) v (Long n)"
    using visited_long by (simp add: same_value_def)
  ultimately show ?thesis
    using ret_mirror [of h "Atom ienv" width lim base v0 "rev (trail st)" tbl "ist\<lparr>intern_src := rest\<rparr>" v d pend "Long n"] m step [of "[]"] visited_long
    by auto
next
  case (visited_atom a t b)
  have "t < 256" using ok visited_atom by (auto simp: marshallable_def value_in_def No_scan_tag_def)
  then have "intern_item ienv lim d ist = ret d (Ptr (Atom ienv t)) (ist\<lparr>intern_src := rest\<rparr>)"
    using intern_block [of ist t 0 rest ienv lim d] src visited_atom by (simp add: read_block_def)
  moreover have "same_value h (Atom ienv) (copies (rev (trail st)) tbl) v (Ptr (Atom ienv t))"
    using visited_atom by (simp add: same_value_def resolve_def)
  ultimately show ?thesis
    using ret_mirror [of h "Atom ienv" width lim base v0 "rev (trail st)" tbl "ist\<lparr>intern_src := rest\<rparr>" v d pend "Ptr (Atom ienv t)"] m step [of "[]"] visited_atom
    by auto
next
  case (visited_shared a b i)
  then show ?thesis
    using intern_shared_step [OF num visited_shared(5), of ienv lim base v0 tbl ist d pend rest] m src len room step [of "[]"]
    by auto
next
  case (visited_new a blk b s32)
  have a: "a \<in> S" using ok(2) visited_new by (simp add: value_in_def)
  obtain blk' where "h a = Some blk'" "block_in width known h S blk'" by (rule marshallable_block [OF ok(1) a])
  then have "block_in width known h S blk" using visited_new by simp
  from intern_new_step [OF num visited_new(6,5) this visited_new(7,8) table, of lim base v0 tbl ist d pend rest] m src len room visited_new step
  show ?thesis by (auto simp: record_new_def)
qed

text \<open>
  \<open>undoes h S st vs st'\<close>: the writer, from \<open>st\<close> with \<open>vs\<close> to write, has come to \<open>st'\<close>; what it has
  written is read back by a reader that is its mirror and has room for what it has counted.
\<close>

definition undoes :: "heap \<Rightarrow> addr set \<Rightarrow> extern_state \<Rightarrow> val list \<Rightarrow> extern_state \<Rightarrow> bool" where
  "undoes h S st vs st' \<longleftrightarrow>
     numbered h S st' \<and> (\<exists>new. trail st' = new @ trail st) \<and> out_user (out st') = out_user (out st) \<and>
     (\<exists>bs. appends bs (out st) (out st') \<and>
       (\<forall>ienv lim base v0 tbl ist pend rest.
          custom_ops_table ienv = table \<longrightarrow> map fst pend = vs \<longrightarrow>
          mirror h (Atom ienv) width lim base v0 (rev (trail st)) tbl ist pend \<longrightarrow>
          intern_src ist = bs @ rest \<longrightarrow> length bs < 2 ^ 32 \<longrightarrow> num_objects lim < 2 ^ 32 \<longrightarrow>
          base + words h (trail st') \<le> zone_end lim \<longrightarrow> length (trail st') \<le> num_objects lim \<longrightarrow>
          (\<exists>tbl' ist'. intern_rec ienv lim (map snd pend) ist = Some (Inr ist') \<and>
             mirror h (Atom ienv) width lim base v0 (rev (trail st')) tbl' ist' [])))"

lemma undoesI:
  assumes "numbered h S st'" "\<exists>new. trail st' = new @ trail st" "out_user (out st') = out_user (out st)"
    "appends bs (out st) (out st')"
    "\<And>ienv lim base v0 tbl ist pend rest.
      \<lbrakk>custom_ops_table ienv = table; map fst pend = vs;
       mirror h (Atom ienv) width lim base v0 (rev (trail st)) tbl ist pend;
       intern_src ist = bs @ rest; length bs < 2 ^ 32; num_objects lim < 2 ^ 32;
       base + words h (trail st') \<le> zone_end lim; length (trail st') \<le> num_objects lim\<rbrakk> \<Longrightarrow>
      \<exists>tbl' ist'. intern_rec ienv lim (map snd pend) ist = Some (Inr ist') \<and>
         mirror h (Atom ienv) width lim base v0 (rev (trail st')) tbl' ist' []"
  shows "undoes h S st vs st'"
  unfolding undoes_def
  by (intro conjI assms(1-4) exI [of _ bs] allI impI) (rule assms(5); assumption)

lemma undoes_Nil: "numbered h S st \<Longrightarrow> undoes h S st [] st"
  by (rule undoesI [where bs = "[]"]) (auto simp: appends_def intern_rec.simps)

lemma undoes_Cons:
  assumes vis: "visited h ops v st vs st1 bs1" and ok: "marshallable width known h S" "value_in S v" "numbered h S st"
    and un: "undoes h S st1 (vs @ ws) st'"
  shows "undoes h S st (v # ws) st'"
proof -
  obtain bs2 new2 where 2: "appends bs2 (out st1) (out st')" "trail st' = new2 @ trail st1"
    and rec: "\<And>ienv lim base v0 tbl ist pend rest.
      \<lbrakk>custom_ops_table ienv = table; map fst pend = vs @ ws;
       mirror h (Atom ienv) width lim base v0 (rev (trail st1)) tbl ist pend;
       intern_src ist = bs2 @ rest; length bs2 < 2 ^ 32; num_objects lim < 2 ^ 32;
       base + words h (trail st') \<le> zone_end lim; length (trail st') \<le> num_objects lim\<rbrakk> \<Longrightarrow>
      \<exists>tbl' ist'. intern_rec ienv lim (map snd pend) ist = Some (Inr ist') \<and>
         mirror h (Atom ienv) width lim base v0 (rev (trail st')) tbl' ist' []"
    using un unfolding undoes_def by blast
  note v = visited_numbered [OF vis ok(3,2,1)]
  have read: "\<exists>tbl' ist'. intern_rec ienv lim (map snd pend) ist = Some (Inr ist') \<and>
         mirror h (Atom ienv) width lim base v0 (rev (trail st')) tbl' ist' []"
    if t: "custom_ops_table ienv = table" and p: "map fst pend = v # ws"
      and m: "mirror h (Atom ienv) width lim base v0 (rev (trail st)) tbl ist pend"
      and src: "intern_src ist = (bs1 @ bs2) @ rest" and n: "length (bs1 @ bs2) < 2 ^ 32" "num_objects lim < 2 ^ 32"
      and room: "base + words h (trail st') \<le> zone_end lim" "length (trail st') \<le> num_objects lim"
    for ienv lim base v0 tbl ist pend rest
  proof -
    obtain d pend' where pend: "pend = (v, d) # pend'" "map fst pend' = ws" using p by auto
    have src1: "intern_src ist = bs1 @ bs2 @ rest" and n1: "length bs1 < 2 ^ 32" "length bs2 < 2 ^ 32" using src n by simp_all
    have r1: "base + words h (trail st1) \<le> zone_end lim" "length (trail st1) \<le> num_objects lim" using room 2(2) by simp_all
    from vis ok(3,1,2) t m [unfolded pend(1)] src1 n1(1) n(2) r1 show ?thesis
    proof (cases rule: intern_step)
      case (stay f)
      then show ?thesis
        using rec [of ienv "(f, d) # pend'" lim base v0 tbl ist rest] t pend src n1 n room by simp
    next
      case (step ds tbl1 ist1)
      have z: "map snd (zip vs ds) = ds" "map fst (zip vs ds) = vs" using step(2) by simp_all
      have "intern_rec ienv lim (map snd pend) ist = intern_rec ienv lim (map snd (zip vs ds @ pend')) ist1"
        using step(1) pend(1) z by (simp add: intern_rec.simps [of ienv lim "d # map snd pend'"])
      then show ?thesis
        using rec [of ienv "zip vs ds @ pend'" lim base v0 tbl1 ist1 rest] t pend step z n1 n room by simp
    qed
  qed
  show ?thesis
  proof (rule undoesI [where bs = "bs1 @ bs2"])
    show "appends (bs1 @ bs2) (out st) (out st')" using v(3) 2(1) by (simp add: appends_def)
    show "numbered h S st'" "out_user (out st') = out_user (out st)" using un v(5) by (simp_all add: undoes_def)
    show "\<exists>new. trail st' = new @ trail st" using v(4) 2(2) by auto
  qed (rule read)
qed

text \<open>The writer comes to an end, and all it has written can be read back.\<close>

lemma extern_rec_undone:
  assumes ok: "marshallable width known h S" and env: "ex_heap env = h" "ops_of env = ops" "\<not> extern_ignore_sharing env"
    and "numbered h S st" "\<forall>v\<in>set vs. value_in S v"
  shows "(\<exists>e. extern_rec env vs st = Some (Inl e) \<and> fails st e) \<or>
    (\<exists>st'. extern_rec env vs st = Some (Inr st') \<and> undoes h S st vs st')"
  using assms(5,6)
proof (induction "cost h S st vs" arbitrary: st vs rule: wf_induct_rule [OF wf_lex_prod [OF wf_less_than wf_less_than]])
  case (1 st vs)
  show ?case
  proof (cases vs)
    case Nil
    then show ?thesis using undoes_Nil [OF 1(2)] by (simp add: extern_rec.simps)
  next
    case (Cons v ws)
    then have v: "value_in S v" "\<forall>w\<in>set ws. value_in S w" using 1(3) by simp_all
    from extern_visit_visited [OF ok env v(1) 1(2)] consider
      e where "extern_visit env v st = Some (Inl e)" "fails st e"
      | vs' st1 bs where "extern_visit env v st = Some (Inr (vs', st1))" "visited h ops v st vs' st1 bs"
      unfolding visit_ok_def by blast
    then show ?thesis
    proof cases
      case (1 e)
      then show ?thesis using Cons by (simp add: extern_rec.simps)
    next
      case (2 vs' st1 bs)
      note n = visited_numbered [OF 2(2) \<open>numbered h S st\<close> v(1) ok]
      have "dom (located st) = set (trail st)" using \<open>numbered h S st\<close> by (simp add: numbered_def)
      then have "(cost h S st1 (vs' @ ws), cost h S st vs) \<in> less_than <*lex*> less_than"
        using visited_cost [OF 2(2) _ v(1), of ws] ok Cons by (simp add: marshallable_def)
      from "1.hyps" [OF this n(1)] n(2) v(2)
      have "(\<exists>e. extern_rec env (vs' @ ws) st1 = Some (Inl e) \<and> fails st1 e) \<or>
          (\<exists>st'. extern_rec env (vs' @ ws) st1 = Some (Inr st') \<and> undoes h S st1 (vs' @ ws) st')" by auto
      moreover have "extern_rec env vs st = extern_rec env (vs' @ ws) st1"
        using 2(1) Cons by (simp add: extern_rec.simps [of env "v # ws"])
      moreover have "fails st1 e = fails st e" for e using n(5) by (simp add: fails_def)
      ultimately show ?thesis
        using undoes_Cons [OF 2(2) ok v(1) \<open>numbered h S st\<close>] Cons by auto
    qed
  qed
qed

end

section \<open>Whole values\<close>

definition header_bytes :: "u64 \<Rightarrow> u64 \<Rightarrow> u64 \<Rightarrow> u64 \<Rightarrow> bytes" where
  "header_bytes len num s32 s64 = bytes32 Intext_magic_number @ bytes32 len @ bytes32 num @ bytes32 s32 @ bytes32 s64"

definition start :: "out_buf \<Rightarrow> extern_state" where
  "start b = \<lparr>out = b, located = Map.empty, trail = [], obj_counter = 0, size_32 = 0, size_64 = 0\<rparr>"

lemma start_numbered: "numbered h S (start b)"
  by (simp add: numbered_def start_def)

lemma length_bytes32 [simp]: "length (bytes32 n) = 4"
  by (simp add: bytes32_def)

context custom_codec
begin

lemma extern_value_undone:
  assumes ok: "marshallable width known h S" "value_in S v" and env: "ex_heap env = h" "ops_of env = ops"
    and fl: "caml_convert_flag_list h extern_flags flags = Some fl" "fl AND NO_SHARING = 0"
    and b: "contents b = []"
  obtains (fails) e where "extern_value env b v flags = Some (Inl e)" "fails (start b) e \<or> e = Failure ''output_value: object too big''"
    | (written) b' st' bs where "extern_value env b v flags =
        Some (Inr (header_bytes (of_nat (length bs)) (obj_counter st') (size_32 st') (size_64 st') @ bs))"
      "undoes h S (start b') [v] st'" "contents (out st') = contents b' @ bs" "length bs < 2 ^ 32" "size_64 st' < 2 ^ 32" "size_32 st' < 2 ^ 32"
proof -
  define env' where "env' = env\<lparr>extern_ignore_sharing := False, extern_closures := (fl AND CLOSURES \<noteq> 0)\<rparr>"
  have env': "ex_heap env' = h" "ops_of env' = ops" "\<not> extern_ignore_sharing env'" using env by (simp_all add: env'_def)
  have "emits (bytes32 Intext_magic_number) (start b) (write32 env' Intext_magic_number (start b))"
    unfolding write32_def by (rule emit_emits)
  then show ?thesis
  proof (cases rule: emits_cases)
    case (1 e)
    then show ?thesis
      using fails fl env by (simp add: extern_value_def env'_def start_def Let_def)
  next
    case (2 b1)
    define b' where "b' = b1\<lparr>out_cur := out_cur b1 @ replicate 16 0\<rparr>"
    have c: "contents b' = bytes32 Intext_magic_number @ replicate 16 0" "out_user b' = out_user b"
      using 2(2) b by (simp_all add: b'_def contents_def appends_def start_def)
    have e: "extern_value env b v flags = Option.bind (extern_rec env' [v] (start b')) (\<lambda>r.
        Some (bind_outcome r (\<lambda>st.
          (let st = extern_replay_trail st; res_len = extern_output_length (out st)
           in if res_len \<ge> 2 ^ 32 \<or> size_32 st \<ge> 2 ^ 32 \<or> size_64 st \<ge> 2 ^ 32
              then Inl (Failure ''output_value: object too big'')
              else Inr (take 4 (contents (out st)) @ bytes32 (of_nat (res_len - 5 * 4)) @ bytes32 (obj_counter st)
                 @ bytes32 (size_32 st) @ bytes32 (size_64 st) @ drop 20 (contents (out st)))))))"
      using 2(1) fl env by (simp add: extern_value_def env'_def start_def b'_def Let_def)
    from extern_rec_undone [OF ok(1) env' start_numbered, of "[v]" b'] ok(2) consider
      x where "extern_rec env' [v] (start b') = Some (Inl x)" "fails (start b') x"
      | st' where "extern_rec env' [v] (start b') = Some (Inr st')" "undoes h S (start b') [v] st'" by auto
    then show ?thesis
    proof cases
      case (1 x)
      then show ?thesis using fails [of x] e c(2) by (simp add: fails_def start_def)
    next
      case (2 st')
      then obtain bs where bs: "contents (out st') = contents b' @ bs" by (auto simp: undoes_def appends_def start_def)
      have "length (contents (out st')) = 20 + length bs" by (simp add: bs c(1))
      then have l: "extern_output_length (out st') = 20 + length bs" by (simp add: extern_output_length_def contents_def)
      show ?thesis
      proof (cases "20 + length bs \<ge> 2 ^ 32 \<or> size_32 st' \<ge> 2 ^ 32 \<or> size_64 st' \<ge> 2 ^ 32")
        case True
        then have "extern_value env b v flags = Some (Inl (Failure ''output_value: object too big''))"
          using e 2 by (auto simp: extern_replay_trail_def Let_def l)
        then show ?thesis using fails by simp
      next
        case False
        then have "extern_value env b v flags =
            Some (Inr (header_bytes (of_nat (length bs)) (obj_counter st') (size_32 st') (size_64 st') @ bs))"
          using e 2 bs c(1) by (simp add: extern_replay_trail_def Let_def l header_bytes_def)
        then show ?thesis using written 2(2) bs False by (simp add: not_le)
      qed
    qed
  qed
qed

lemma partly_copied_all: "partly_copied h atom width copy {} b x y \<Longrightarrow> same_block h atom width copy x y"
  by (cases x; cases y) (auto simp: list_all2_conv_all_nth)

text \<open>A reader that is a mirror and has nothing left to read has an isomorphic graph.\<close>

lemma mirror_isomorphic:
  assumes "mirror h atom width lim base v objs tbl st []"
  obtains w where "result st = Some w" "isomorphic width atom h v (built st) w"
proof -
  from assms obtain w where w: "result st = Some w" "same_value h atom (copies objs tbl) v w"
    by (auto simp: mirror_def)
  have l: "length objs = length tbl" "distinct objs" "distinct tbl" "dom (built st) = set tbl"
    using assms by (auto simp: mirror_def)
  have "inj_on (copies objs tbl) (dom (copies objs tbl))"
    by (rule inj_onI, drule domD, elim exE) (use copies_inj [of tbl objs] l in auto)
  moreover have "ran (copies objs tbl) = dom (built st)"
    using l by (simp add: ran_map_of_zip)
  moreover have "same_block h atom width (copies objs tbl) (the (h a)) (the (built st b))" if "copies objs tbl a = Some b" for a b
  proof (rule partly_copied_all)
    show "partly_copied h atom width (copies objs tbl) {} b (the (h a)) (the (built st b))"
      using assms that unfolding mirror_def list.set by blast
  qed
  ultimately have "isomorphic width atom h v (built st) w"
    unfolding isomorphic_def using w(2) by blast
  with w(1) that show ?thesis by blast
qed

lemma input_val_undone:
  assumes ok: "marshallable width known h S" and table: "custom_ops_table ienv = table"
    and un: "undoes h S (start b') [v] st'" "contents (out st') = contents b' @ bs"
    and small: "length bs < 2 ^ 32" "size_64 st' < 2 ^ 32" "size_32 st' < 2 ^ 32"
  shows "input_val ienv (bytes32 (obj_counter st') @ bytes32 (size_32 st') @ bytes32 (size_64 st') @ bs @ rest) = Some (Inl Out_of_memory) \<or>
    (\<exists>w k. input_val ienv (bytes32 (obj_counter st') @ bytes32 (size_32 st') @ bytes32 (size_64 st') @ bs @ rest) = Some (Inr (w, k)) \<and>
       isomorphic width (Atom ienv) h v k w)"
proof -
  let ?n = "length (trail st')" and ?w = "words h (trail st')"
  let ?src = "bs @ rest"
  have num: "numbered h S st'" using un by (simp add: undoes_def)
  then have w61: "?w < 2 ^ 61" using words_bound [OF ok] by (simp add: numbered_def)
  then have w: "unat (size_64 st') = ?w" using num by (simp add: numbered_def unat_of_nat_small)
  have n: "unat (obj_counter st') = ?n" using num w61 length_le_words [of "trail st'" h] by (simp add: numbered_def unat_of_nat_small)
  have w32: "?w < 2 ^ 32" "?n < 2 ^ 32" using small(2) w length_le_words [of "trail st'" h] by (simp_all add: word_less_nat_alt)
  have i: "input_val ienv (bytes32 (obj_counter st') @ bytes32 (size_32 st') @ bytes32 (size_64 st') @ bs @ rest) =
      (case intern_alloc ienv ?src ?w ?n of
         Inl e \<Rightarrow> Some (Inl e)
       | Inr (lim, st) \<Rightarrow>
           Option.bind (intern_rec ienv lim [Result] st) (\<lambda>r.
             case r of Inl e \<Rightarrow> Some (Inl e) | Inr st \<Rightarrow> map_option (\<lambda>v. Inr (v, built st)) (result st)))"
    using w32 small(3) w n by (simp add: input_val_def read32u_bytes word_less_nat_alt)
  have "intern_alloc ienv ?src ?w ?n = Inl Out_of_memory \<or>
      (\<exists>lim st base. intern_alloc ienv ?src ?w ?n = Inr (lim, st) \<and> num_objects lim = ?n \<and> base + ?w \<le> zone_end lim \<and>
         intern_src st = ?src \<and> mirror h (Atom ienv) width lim base v [] [] st [(v, Result)])"
  proof (cases "?w = 0")
    case True
    then have "?n = 0" using length_le_words [of "trail st'" h] by simp
    then show ?thesis using True by (auto simp: intern_alloc_def mirror_def intro!: exI [of _ 0])
  next
    case False
    then have "0 < ?n" by auto
    show ?thesis
    proof (cases "alloc_zone ienv ?w")
      case (Some base)
      let ?lim = "\<lparr>zone_end = base + ?w, num_objects = ?n\<rparr>"
      let ?st = "\<lparr>intern_src = ?src, intern_dest = base, built = Map.empty, intern_obj_table = Some [], result = None\<rparr>"
      have "mirror h (Atom ienv) width ?lim base v [] [] ?st [(v, Result)]"
        using \<open>0 < ?n\<close> by (simp add: mirror_def)
      moreover have "intern_alloc ienv ?src ?w ?n = (if stat_alloc ienv (8 * ?n) then Inr (?lim, ?st) else Inl Out_of_memory)"
        using False Some \<open>0 < ?n\<close> by (simp add: intern_alloc_def)
      ultimately show ?thesis by (cases "stat_alloc ienv (8 * ?n)") (simp_all, force)
    qed (use False in \<open>simp add: intern_alloc_def\<close>)
  qed
  then show ?thesis
  proof (elim disjE exE conjE)
    fix lim st base
    assume a: "intern_alloc ienv ?src ?w ?n = Inr (lim, st)" "num_objects lim = ?n" "base + ?w \<le> zone_end lim"
      "intern_src st = ?src" "mirror h (Atom ienv) width lim base v [] [] st [(v, Result)]"
    obtain bs' where "appends bs' (out (start b')) (out st')"
      and rec: "\<And>ienv lim base v0 tbl ist pend rest.
      \<lbrakk>custom_ops_table ienv = table; map fst pend = [v];
       mirror h (Atom ienv) width lim base v0 (rev (trail (start b'))) tbl ist pend;
       intern_src ist = bs' @ rest; length bs' < 2 ^ 32; num_objects lim < 2 ^ 32;
       base + words h (trail st') \<le> zone_end lim; length (trail st') \<le> num_objects lim\<rbrakk> \<Longrightarrow>
      \<exists>tbl' ist'. intern_rec ienv lim (map snd pend) ist = Some (Inr ist') \<and>
         mirror h (Atom ienv) width lim base v0 (rev (trail st')) tbl' ist' []"
      using un(1) unfolding undoes_def by blast
    then have "bs' = bs" using un(2) by (simp add: appends_def start_def)
    then obtain tbl' ist' where r: "intern_rec ienv lim [Result] st = Some (Inr ist')"
      "mirror h (Atom ienv) width lim base v (rev (trail st')) tbl' ist' []"
      using rec [of ienv "[(v, Result)]" lim base v "[]" st rest] table a small(1) w32 by (auto simp: start_def)
    then obtain u where "result ist' = Some u" "isomorphic width (Atom ienv) h v (built ist') u"
      using mirror_isomorphic by blast
    then show ?thesis using i a(1) r(1) by simp
  qed (simp add: i)
qed

end

section \<open>The boxed integers\<close>

definition int_width :: "nat \<Rightarrow> nat" where
  "int_width n = (if n = 0 then 4 else 8)"

lemma le_bytes4_of: "length p = 4 \<Longrightarrow> le_bytes4 (of_le_bytes4 p) = p"
proof -
  assume p: "length p = 4"
  have "le_bytes4 x = map (\<lambda>i. ucast (drop_bit (8 * i) x)) [0..<4]" for x
    by (simp add: le_bytes4_def upt_rec)
  then show ?thesis
    using p le_bytes_fold [of p, where 'a = 32] by (simp add: of_le_bytes4_def list_eq_iff_nth_eq)
qed

interpretation int_codec: custom_codec caml_init_custom_operations int_ops int_width "\<lambda>n. n < 3"
proof
  fix n and data :: bytes
  assume n: "n < (3 :: nat)" and "length data = 8 * ((int_width n + 7) div 8)"
  then have d: "length data = 8" by (simp add: int_width_def split: if_splits)
  show "\<exists>ser pieces sz_32. serialize (int_ops n) = Some ser \<and> ser data = (pieces, sz_32, of_nat (int_width n)) \<and>
        (\<forall>rest. deserialize (int_ops n) (concat pieces @ rest) = Some (Inr (take (int_width n) data), rest))"
  proof -
    consider "n = 0" | "n = 1" | "n = 2" using n by linarith
    then show ?thesis
    proof cases
      case 1
      then show ?thesis
        using sint_4.reads [of "Int32_val data"] d
        by (simp add: int_ops_def caml_int32_ops_def int_width_def int32_serialize_def int32_deserialize_def
            Int32_val_def le_bytes4_of)
    next
      case 2
      have "Option.bind (nativeint_deserialize (nativeint_serialize i [] @ rest)) (\<lambda>(r, src). case r of Inl e \<Rightarrow> None | Inr i \<Rightarrow> Some (i, src)) = Some (i, rest)" for i rest
        by (rule nativeint.reads) simp
      note rd = this
      have "nativeint_deserialize (nativeint_serialize i [] @ rest) = Some (Inr i, rest)" for i rest
        by (cases "nativeint_deserialize (nativeint_serialize i [] @ rest)") (use rd [of i rest] in \<open>auto split: sum.splits\<close>)
      then show ?thesis
        using 2 d by (simp add: int_ops_def caml_nativeint_ops_def int_width_def Let_def Nativeint_val_def le_bytes8_of)
    next
      case 3
      then show ?thesis
        using sint_8.reads [of "Int64_val data"] d
        by (simp add: int_ops_def caml_int64_ops_def int_width_def int64_serialize_def int64_deserialize_def
            Int64_val_def le_bytes8_of)
    qed
  qed
next
  fix n assume "n < (3 :: nat)"
  then consider "n = 0" | "n = 1" | "n = 2" by linarith
  note cs = this
  then show "caml_find_custom_operations caml_init_custom_operations (op_identifier (int_ops n)) = Some (n, int_ops n)"
    by cases (simp_all add: int_ops_def caml_init_custom_operations_def caml_register_custom_operations_def
        caml_int32_ops_def caml_int64_ops_def caml_nativeint_ops_def)
  show "0 \<notin> set (op_identifier (int_ops n))"
    using cs by cases (simp_all add: int_ops_def caml_int32_ops_def caml_int64_ops_def caml_nativeint_ops_def)
qed (simp add: int_width_def)

section \<open>The round trip\<close>

text \<open>
  C2. \<open>output_value_to_string\<close> with sharing, on a finite closed part of the heap made of blocks,
  strings, boxed integers and forwarding blocks it may cut short, with any sharing and cycles, returns
  or fails for want of memory or because the result is too big; a string it returns is read back by
  \<open>input_value_from_string\<close>, which builds an isomorphic graph inside the zone it allocates, or fails
  for want of memory.
\<close>

theorem marshal_roundtrip:
  assumes "marshallable int_width (\<lambda>n. n < 3) h S" "value_in S v"
    and "ex_heap env = h" "ops_of env = int_ops" "custom_ops_table ienv = caml_init_custom_operations"
    and "caml_convert_flag_list h extern_flags flags = Some fl" "fl AND NO_SHARING = 0"
  shows "case caml_output_value_to_string env v flags of
      None \<Rightarrow> False
    | Some (Inl e) \<Rightarrow> e = Out_of_memory \<or> e = Failure ''output_value: object too big''
    | Some (Inr str) \<Rightarrow>
        (case caml_input_value_from_string ienv str (Val_long 0) of
           None \<Rightarrow> False
         | Some (Inl e) \<Rightarrow> e = Out_of_memory
         | Some (Inr (w, k)) \<Rightarrow> isomorphic int_width (Atom ienv) h v k w)"
proof (cases "init_extern_output env")
  case (Inl e)
  then show ?thesis by (auto simp: caml_output_value_to_string_def init_extern_output_def split: if_splits)
next
  case (Inr b)
  then have b: "contents b = []" "\<not> out_user b"
    by (auto simp: init_extern_output_def contents_def split: if_splits)
  show ?thesis
  proof (cases rule: int_codec.extern_value_undone [OF assms(1-4,6,7) b(1)])
    case (1 e)
    then show ?thesis using Inr b(2) by (auto simp: caml_output_value_to_string_def fails_def start_def)
  next
    case (2 b' st' bs)
    note written = 2
    let ?h = "header_bytes (of_nat (length bs)) (obj_counter st') (size_32 st') (size_64 st')"
    have w: "caml_output_value_to_string env v flags = Some (Inr (string_block (?h @ bs)))"
      using Inr written(1) by (simp add: caml_output_value_to_string_def)
    obtain pad where "string_block (?h @ bs) = ?h @ bs @ pad" by (simp add: string_block_def)
    then have r: "caml_input_value_from_string ienv (string_block (?h @ bs)) (Val_long 0) =
        input_val ienv (bytes32 (obj_counter st') @ bytes32 (size_32 st') @ bytes32 (size_64 st') @ bs @ pad)"
      using Long_val_Val_long_of_nat [of 0]
      by (simp add: caml_input_value_from_string_def caml_input_val_from_string_def header_bytes_def)
    from int_codec.input_val_undone [OF assms(1,5) written(2-6), of pad] show ?thesis
      unfolding w by (auto simp: r)
  qed
qed

end
