(* ===== verification/Marshal_Examples.thy ===== *)
theory Marshal_Examples
  imports Marshal_Proofs
begin

text \<open>
  Two values marshalled and read back, evaluated: a cyclic one with sharing of all the kinds that the
  round trip covers, and a forwarding block that is not cut short, met twice.
\<close>

section \<open>Evaluation\<close>

lemma extern_rec_list:
  "extern_rec env [] st = Some (Inr st)"
  "extern_rec env (v # vs) st = Option.bind (extern_visit env v st) (\<lambda>r.
     case r of Inl e \<Rightarrow> Some (Inl e) | Inr (next, st) \<Rightarrow> extern_rec env (next @ vs) st)"
  by (simp_all add: extern_rec.simps)

lemma intern_rec_list:
  "intern_rec env lim [] st = Some (Inr st)"
  "intern_rec env lim (d # ds) st = Option.bind (intern_item env lim d st) (\<lambda>r.
     case r of Inl e \<Rightarrow> Some (Inl e) | Inr (next, st) \<Rightarrow> intern_rec env lim (next @ ds) st)"
  by (simp_all add: intern_rec.simps)

lemma Long_val_numeral: "Long_val 7 = 3" "Long_val 1 = 0" "Val_long 0 = 1"
  by code_simp+

lemma replicate_num: "replicate (numeral n) x = x # replicate (pred_numeral n) x"
  by (simp add: numeral_eq_Suc)

lemma no_flags: "caml_convert_flag_list h fl (Long 1) = Some 0"
  by (simp add: caml_convert_flag_list_def convert_flags.simps Val_long_def)

lemmas writers = emit_def writeblock_def Write_def writecode8_def writecode16_def writecode32_def
  writecode64_def write32_def extern_long_def extern_atom_def extern_shared_def extern_string_def extern_block_def
  extern_custom_def extern_contents_def extern_record_location_def code_defs Let_def bytes32_def bytes16_def

lemmas write_begins = caml_output_value_to_string_def init_extern_output_def extern_value_def no_flags
  SIZE_EXTERN_OUTPUT_BLOCK_def Intext_magic_number_def NO_SHARING_def CLOSURES_def

lemmas visits = extern_rec_list extern_visit_def forward_to_def tag_defs do_not_short_circuit_def
  Forward_field_def Is_long_def Make_header_def Caml_white_def Long_val_numeral

lemmas write_ends = extern_replay_trail_def extern_output_length_def contents_def bytes32_def string_block_def
  string_pad_def replicate_num

lemmas read_begins = caml_input_value_from_string_def Long_val_numeral caml_input_val_from_string_def
  input_val_def read32u_def intern_alloc_def

lemmas readers = intern_rec_list intern_item_def reading_def read8u_def read_code_def code_defs read_block_def
  build_def record_object_def Let_def tag_defs upt_rec replicate_num ret_def Val_long_def read_header_def
  read32u_def unat_Tag_hd unat_Wosize_hd read_shared_def read_string_def read_custom_def

definition writer :: "heap \<Rightarrow> extern_env" where
  "writer h = \<lparr>ex_heap = h, ops_of = int_ops, code_offset = (\<lambda>_. None), code_checksum = [],
     malloc = (\<lambda>_. True), extern_ignore_sharing = False, extern_closures = False\<rparr>"

definition reader :: intern_env where
  "reader = \<lparr>custom_ops_table = caml_init_custom_operations, Atom = (\<lambda>t. 1000 + t),
     alloc_zone = (\<lambda>_. Some 100), stat_alloc = (\<lambda>_. True), junk = Long 1, junk_byte = 0\<rparr>"

section \<open>A value with sharing and a cycle\<close>

definition some_heap :: heap where
  "some_heap = [1 \<mapsto> Scannable 0 [Ptr 1, Ptr 8, Ptr 8, Ptr 11, Ptr 14, Long 7],
     8 \<mapsto> Opaque String_tag (string_block [72, 105]),
     11 \<mapsto> Custom 0 [42, 0, 0, 0, 0, 0, 0, 0],
     14 \<mapsto> Scannable Forward_tag [Ptr 11]]"

definition some_bytes :: bytes where
  "some_bytes =
     [132, 149, 166, 190, 0, 0, 0, 19, 0, 0, 0, 3, 0, 0, 0, 12, 0, 0, 0, 12,
      224, 4, 1, 34, 72, 105, 4, 1, 18, 95, 105, 0, 0, 0, 0, 42, 4, 1, 67, 0]"

lemma int32_ser: "int32_serialize (Int32_val [42, 0, 0, 0, 0, 0, 0, 0]) [] = [0, 0, 0, 42]"
  by (simp add: Int32_val_def of_le_bytes4_def int32_serialize_def caml_serialize_int_4_def) 

lemma some_output: "caml_output_value_to_string (writer some_heap) (Ptr 1) (Long 1) = Some (Inr some_bytes)"
  apply (simp add: writer_def some_heap_def write_begins writers)
  apply (simp add: visits writers string_block_def string_length_def string_pad_def replicate_num int_ops_def caml_int32_ops_def int32_ser)
  apply (simp add: write_ends some_bytes_def)
  done

lemma some_input: "caml_input_value_from_string reader some_bytes (Val_long 0) =
  Some (Inr (Ptr 101, [101 \<mapsto> Scannable 0 [Ptr 101, Ptr 108, Ptr 108, Ptr 110, Ptr 110, Long 7],
    108 \<mapsto> Opaque String_tag (string_block [72, 105]), 110 \<mapsto> Custom 0 [42, 0, 0, 0, 0, 0, 0, 0]]))"
  apply (simp add: read_begins reader_def some_bytes_def)
  apply (simp add: readers)
  apply (simp add: caml_init_custom_operations_def caml_register_custom_operations_def caml_int32_ops_def caml_int64_ops_def
      caml_nativeint_ops_def int32_deserialize_def caml_deserialize_sint_4_def read32s_def le_bytes4_def)
  apply (simp add: readers Sign_extend_def)
  apply (auto simp: fun_eq_iff)
  done

section \<open>A forwarding block met twice\<close>

text \<open>
  The block is not cut short, as it points to another forwarding block; the second time its first
  field is its own number, 1, which is taken for the integer 0: \<open>(x, x)\<close> is read back as \<open>(x, 0)\<close>.
\<close>

definition twice_bytes :: bytes where
  "twice_bytes =
     [132, 149, 166, 190, 0, 0, 0, 8, 0, 0, 0, 2, 0, 0, 0, 5, 0, 0, 0, 5,
      160, 8, 0, 0, 4, 250, 67, 64, 0, 0, 0, 3]"

lemma forward_met_twice:
  "caml_output_value_to_string
     (writer [1 \<mapsto> Scannable 0 [Ptr 4, Ptr 4], 4 \<mapsto> Scannable Forward_tag [Ptr 6], 6 \<mapsto> Scannable Forward_tag [Long 7]])
     (Ptr 1) (Long 1) = Some (Inr twice_bytes)"
  "caml_input_value_from_string reader twice_bytes (Val_long 0) =
     Some (Inr (Ptr 101, [101 \<mapsto> Scannable 0 [Ptr 104, Long 1], 104 \<mapsto> Scannable Forward_tag [Long 7]]))"
proof -
  show "caml_output_value_to_string
     (writer [1 \<mapsto> Scannable 0 [Ptr 4, Ptr 4], 4 \<mapsto> Scannable Forward_tag [Ptr 6], 6 \<mapsto> Scannable Forward_tag [Long 7]])
     (Ptr 1) (Long 1) = Some (Inr twice_bytes)"
    by (simp add: writer_def write_begins writers, simp add: visits writers, simp add: write_ends twice_bytes_def)
  show "caml_input_value_from_string reader twice_bytes (Val_long 0) =
     Some (Inr (Ptr 101, [101 \<mapsto> Scannable 0 [Ptr 104, Long 1], 104 \<mapsto> Scannable Forward_tag [Long 7]]))"
    by (simp add: read_begins reader_def twice_bytes_def, simp add: readers, simp add: fun_upd_twist)
qed

section \<open>The round trip, applied\<close>

theorem marshal_roundtrip_witness:
  "caml_output_value_to_string (writer some_heap) (Ptr 1) (Long 1) = Some (Inr some_bytes) \<and>
   (case caml_input_value_from_string reader some_bytes (Val_long 0) of
      Some (Inr (w, k)) \<Rightarrow> isomorphic int_width (Atom reader) some_heap (Ptr 1) k w | _ \<Rightarrow> False)"
proof -
  have "marshallable int_width (\<lambda>n. n < 3) some_heap {1, 8, 11, 14}"
    by (auto simp: marshallable_def some_heap_def value_in_def Is_long_def tag_defs Max_wosize_def int_width_def
        do_not_short_circuit_def length_string_block)
  moreover have "value_in {1, 8, 11, 14} (Ptr 1)" "ex_heap (writer some_heap) = some_heap" "ops_of (writer some_heap) = int_ops"
    "custom_ops_table reader = caml_init_custom_operations"
    by (simp_all add: value_in_def writer_def reader_def)
  ultimately show ?thesis
    using marshal_roundtrip [OF _ _ _ _ _ no_flags] some_output some_input by force
qed

end
