(* ===== verification/Minor_Gc.thy ===== *)
theory Minor_Gc
  imports Heap
begin

text \<open>
  The minor collector (\<open>minor_gc.c\<close>, the \<open>Modify\<close> macro of \<open>memory.h\<close>): reference tables, the
  evacuation of young blocks, the list of copies whose fields are still to be done, threaded through
  the copies themselves, and the emptying of the minor heap. Allocation in the major heap is an
  argument: \<open>alloc n s\<close> gives the address of the header of a block of \<open>n\<close> fields, \<open>0\<close> when there is
  no memory.
\<close>

section \<open>State\<close>

text \<open>
  A place that holds a value: a root, or a field of a block outside the minor heap. A weak array is a
  block with tag \<open>Abstract_tag\<close> that has fields.
\<close>

datatype place = Root nat | Field addr nat

text \<open>
  A reference table: the places in \<open>base[0..ptr)\<close>, its sizes, and the number of entries at \<open>limit\<close>;
  \<open>base = NULL\<close> when it was never allocated.
\<close>

record ref_table =
  entries :: "place list"
  table_size :: nat
  table_reserve :: nat
  table_limit :: nat
  has_base :: bool

text \<open>
  \<open>young\<close> has the blocks of the minor heap; \<open>forwarded a = Some r\<close> when the header of \<open>a\<close> is \<open>0\<close>
  and its first field is \<open>r\<close>. \<open>shared\<close> is the state of the allocator of the major heap, \<open>major\<close> its
  blocks.
\<close>

record 's minor =
  young_start :: addr
  young_end :: addr
  young_ptr :: addr
  young :: heap
  forwarded :: "addr \<Rightarrow> addr option"
  major :: heap
  roots :: "val list"
  oldify_todo_list :: addr
  caml_ref_table :: ref_table
  caml_weak_ref_table :: ref_table
  shared :: 's
  stat_minor_words :: nat
  final_old :: nat
  final_young :: nat

text \<open>The tags of the rest of the value area, \<open>caml_weak_none\<close>, and what new memory contains.\<close>

record minor_env =
  static_tag :: "addr \<Rightarrow> nat option"
  caml_weak_none :: val
  uninit :: val

definition Is_young :: "'s minor \<Rightarrow> addr \<Rightarrow> bool" where
  "Is_young st a \<longleftrightarrow> young_start st < a \<and> a < young_end st"

definition is_young_value :: "'s minor \<Rightarrow> val \<Rightarrow> bool" where
  "is_young_value st v = (case v of Long n \<Rightarrow> False | Ptr a \<Rightarrow> Is_young st a)"

definition get_place :: "'s minor \<Rightarrow> place \<Rightarrow> val option" where
  "get_place st p =
     (case p of
        Root i \<Rightarrow> if i < length (roots st) then Some (roots st ! i) else None
      | Field a i \<Rightarrow>
          (case major st a of
             Some (Scannable t fs) \<Rightarrow> if i < length fs then Some (fs ! i) else None
           | _ \<Rightarrow> None))"

definition set_place :: "place \<Rightarrow> val \<Rightarrow> 's minor \<Rightarrow> 's minor option" where
  "set_place p v st =
     (case p of
        Root i \<Rightarrow> if i < length (roots st) then Some (st\<lparr>roots := (roots st)[i := v]\<rparr>) else None
      | Field a i \<Rightarrow>
          (case major st a of
             Some (Scannable t fs) \<Rightarrow>
               if i < length fs then Some (st\<lparr>major := (major st)(a \<mapsto> Scannable t (fs[i := v]))\<rparr>) else None
           | _ \<Rightarrow> None))"

section \<open>Reference tables\<close>

definition empty_table :: ref_table where
  "empty_table = \<lparr>entries = [], table_size = 0, table_reserve = 0, table_limit = 0, has_base = False\<rparr>"

definition caml_alloc_table :: "(nat \<Rightarrow> bool) \<Rightarrow> nat \<Rightarrow> nat \<Rightarrow> ref_table outcome" where
  "caml_alloc_table malloc sz rsv =
     (if malloc ((sz + rsv) * 8)
      then Inr \<lparr>entries = [], table_size = sz, table_reserve = rsv, table_limit = sz, has_base = True\<rparr>
      else Inl Out_of_memory)"

definition reset_table :: "ref_table \<Rightarrow> ref_table" where
  "reset_table tbl = empty_table"

definition clear_table :: "ref_table \<Rightarrow> ref_table" where
  "clear_table tbl = tbl\<lparr>entries := [], table_limit := table_size tbl\<rparr>"

text \<open>
  The table with room for one more entry, and whether a slice of the major collector is asked for; a
  fatal error is \<open>Failure\<close>.
\<close>

definition caml_realloc_ref_table :: "(nat \<Rightarrow> bool) \<Rightarrow> nat \<Rightarrow> ref_table \<Rightarrow> (ref_table \<times> bool) outcome" where
  "caml_realloc_ref_table malloc minor_heap_words tbl =
     (if \<not> has_base tbl then
        bind_outcome (caml_alloc_table malloc (minor_heap_words div 8) 256) (\<lambda>tbl. Inr (tbl, False))
      else if table_limit tbl = table_size tbl then
        Inr (tbl\<lparr>table_limit := table_size tbl + table_reserve tbl\<rparr>, True)
      else
        (let sz = table_size tbl * 2
         in if malloc ((sz + table_reserve tbl) * 8)
            then Inr (tbl\<lparr>table_size := sz, table_limit := sz + table_reserve tbl\<rparr>, False)
            else Inl (Failure ''Fatal error: ref_table overflow'')))"

definition add_to_table :: "(nat \<Rightarrow> bool) \<Rightarrow> nat \<Rightarrow> place \<Rightarrow> ref_table \<Rightarrow> (ref_table \<times> bool) outcome" where
  "add_to_table malloc minor_heap_words p tbl =
     bind_outcome (if length (entries tbl) \<ge> table_limit tbl then caml_realloc_ref_table malloc minor_heap_words tbl
                   else Inr (tbl, False))
       (\<lambda>(tbl, urge). Inr (tbl\<lparr>entries := entries tbl @ [p]\<rparr>, urge))"

section \<open>The write barrier\<close>

text \<open>
  \<open>Modify\<close> on a field of the major heap: the state, the value to darken if the major collector is
  marking, and whether a slice is asked for.
\<close>

definition caml_modify :: "(nat \<Rightarrow> bool) \<Rightarrow> bool \<Rightarrow> place \<Rightarrow> val \<Rightarrow> 's minor \<Rightarrow> ('s minor \<times> val option \<times> bool) outcome option" where
  "caml_modify malloc marking fp v st =
     Option.bind (get_place st fp) (\<lambda>old.
     Option.bind (set_place fp v st) (\<lambda>st1.
       case fp of
         Root i \<Rightarrow> Some (Inr (st1, None, False))
       | Field a i \<Rightarrow>
           (let dark = (if marking then Some old else None)
            in if is_young_value st v \<and> \<not> is_young_value st old then
                 Some (bind_outcome (add_to_table malloc (young_end st - young_start st) fp (caml_ref_table st)) (\<lambda>(tbl, urge).
                   Inr (st1\<lparr>caml_ref_table := tbl\<rparr>, dark, urge)))
               else Some (Inr (st1, dark, False)))))"

definition caml_initialize :: "(nat \<Rightarrow> bool) \<Rightarrow> place \<Rightarrow> val \<Rightarrow> 's minor \<Rightarrow> ('s minor \<times> bool) outcome option" where
  "caml_initialize malloc fp v st =
     Option.bind (set_place fp v st) (\<lambda>st1.
       case fp of
         Root i \<Rightarrow> Some (Inr (st1, False))
       | Field a i \<Rightarrow>
           if is_young_value st v then
             Some (bind_outcome (add_to_table malloc (young_end st - young_start st) fp (caml_ref_table st)) (\<lambda>(tbl, urge).
               Inr (st1\<lparr>caml_ref_table := tbl\<rparr>, urge)))
           else Some (Inr (st1, False)))"

section \<open>Evacuation\<close>

text \<open>
  A block is allocated for the young block \<open>a\<close>, filled with \<open>copy\<close>, and noted in \<open>a\<close> and in \<open>p\<close>. The
  infix headers inside \<open>a\<close>, which are words of its fields, move with it.
\<close>

definition place_copy :: "'s minor \<Rightarrow> addr \<Rightarrow> addr \<Rightarrow> block \<Rightarrow> heap" where
  "place_copy st a r copy =
     (\<lambda>x. if x = r then Some copy
          else if r < x \<and> x < r + wosize_of copy
            then (case young st (a + (x - r)) of Some (Infix n) \<Rightarrow> Some (Infix n) | _ \<Rightarrow> major st x)
          else major st x)"

definition evacuate ::
    "(nat \<Rightarrow> 's \<Rightarrow> (addr \<times> 's) option) \<Rightarrow> addr \<Rightarrow> block \<Rightarrow> place \<Rightarrow> 's minor \<Rightarrow> (addr \<times> 's minor) outcome option" where
  "evacuate alloc a copy p st =
     Option.bind (alloc (wosize_of copy) (shared st)) (\<lambda>(hp, s).
       if hp = 0 then Some (Inl Out_of_memory)
       else map_option (\<lambda>st. Inr (hp + 1, st))
              (set_place p (Ptr (hp + 1))
                (st\<lparr>shared := s, major := place_copy st a (hp + 1) copy, forwarded := (forwarded st)(a \<mapsto> hp + 1)\<rparr>)))"

text \<open>The tag of a value that \<open>f\<close> points to, through its copy if it has been moved.\<close>

definition forwarded_tag :: "minor_env \<Rightarrow> 's minor \<Rightarrow> addr \<Rightarrow> nat option" where
  "forwarded_tag env st b =
     (if Is_young st b then
        map_option tag_of (case forwarded st b of Some r \<Rightarrow> major st r | None \<Rightarrow> young st b)
      else
        (case major st b of Some blk \<Rightarrow> Some (tag_of blk) | None \<Rightarrow> static_tag env b))"

definition keep_young_forward :: "minor_env \<Rightarrow> 's minor \<Rightarrow> val \<Rightarrow> bool" where
  "keep_young_forward env st f =
     (case f of
        Long n \<Rightarrow> False
      | Ptr b \<Rightarrow>
          (case forwarded_tag env st b of
             None \<Rightarrow> True
           | Some ft \<Rightarrow> ft = Forward_tag \<or> ft = Lazy_tag \<or> ft = Double_tag))"

text \<open>\<open>*p += offset\<close>.\<close>

definition add_offset :: "place \<Rightarrow> nat \<Rightarrow> 's minor \<Rightarrow> 's minor option" where
  "add_offset p n st =
     (case get_place st p of Some (Ptr a) \<Rightarrow> set_place p (Ptr (a + n)) st | _ \<Rightarrow> None)"

text \<open>The copy of a block with fields, as it is put on the list.\<close>

definition link_todo :: "addr \<Rightarrow> addr \<Rightarrow> val \<Rightarrow> 's minor \<Rightarrow> 's minor option" where
  "link_todo v r field0 st =
     Option.bind (set_place (Field r 0) field0 st) (\<lambda>st.
     map_option (\<lambda>st. st\<lparr>oldify_todo_list := v\<rparr>) (set_place (Field r 1) (Ptr (oldify_todo_list st)) st))"

partial_function (option) caml_oldify_one ::
    "minor_env \<Rightarrow> (nat \<Rightarrow> 's \<Rightarrow> (addr \<times> 's) option) \<Rightarrow> val \<Rightarrow> place \<Rightarrow> 's minor \<Rightarrow> 's minor outcome option" where
  "caml_oldify_one env alloc v p st =
     (case v of
        Long n \<Rightarrow> map_option Inr (set_place p v st)
      | Ptr a \<Rightarrow>
          if \<not> Is_young st a then map_option Inr (set_place p v st)
          else
            (case forwarded st a of
               Some r \<Rightarrow> map_option Inr (set_place p (Ptr r) st)
             | None \<Rightarrow>
                 (case young st a of
                    None \<Rightarrow> None
                  | Some (Scannable t fs) \<Rightarrow>
                      if fs = [] then None
                      else if t < Infix_tag then
                        Option.bind (evacuate alloc a (Scannable t (replicate (length fs) (uninit env))) p st) (\<lambda>r.
                          case r of
                            Inl e \<Rightarrow> Some (Inl e)
                          | Inr (r, st) \<Rightarrow>
                              if length fs > 1 then map_option Inr (link_todo a r (fs ! 0) st)
                              else caml_oldify_one env alloc (fs ! 0) (Field r 0) st)
                      else if t = Forward_tag then
                        (if keep_young_forward env st (fs ! 0) then
                           Option.bind (evacuate alloc a (Scannable Forward_tag [uninit env]) p st) (\<lambda>r.
                             case r of
                               Inl e \<Rightarrow> Some (Inl e)
                             | Inr (r, st) \<Rightarrow> caml_oldify_one env alloc (fs ! 0) (Field r 0) st)
                         else caml_oldify_one env alloc (fs ! 0) p st)
                      else None
                  | Some (Infix n) \<Rightarrow>
                      Option.bind (caml_oldify_one env alloc (Ptr (a - n)) p st) (\<lambda>r.
                        case r of Inl e \<Rightarrow> Some (Inl e) | Inr st \<Rightarrow> map_option Inr (add_offset p n st))
                  | Some copy \<Rightarrow>
                      map_option (map_sum id snd) (evacuate alloc a copy p st))))"

declare caml_oldify_one.simps [code]

section \<open>The list of copies\<close>

text \<open>The fields of the copy \<open>new_v\<close> of \<open>v\<close>, with the indices still to do.\<close>

fun mopup_fields ::
    "minor_env \<Rightarrow> (nat \<Rightarrow> 's \<Rightarrow> (addr \<times> 's) option) \<Rightarrow> val list \<Rightarrow> addr \<Rightarrow> nat list \<Rightarrow> 's minor \<Rightarrow> 's minor outcome option" where
  "mopup_fields env alloc old new_v [] st = Some (Inr st)"
| "mopup_fields env alloc old new_v (i # is) st =
     Option.bind (if i = 0 then get_place st (Field new_v 0) else Some (old ! i)) (\<lambda>f.
     Option.bind
       (if is_young_value st f then caml_oldify_one env alloc f (Field new_v i) st
        else if i = 0 then Some (Inr st)
        else map_option Inr (set_place (Field new_v i) f st)) (\<lambda>r.
       case r of Inl e \<Rightarrow> Some (Inl e) | Inr st \<Rightarrow> mopup_fields env alloc old new_v is st))"

partial_function (option) caml_oldify_mopup ::
    "minor_env \<Rightarrow> (nat \<Rightarrow> 's \<Rightarrow> (addr \<times> 's) option) \<Rightarrow> 's minor \<Rightarrow> 's minor outcome option" where
  "caml_oldify_mopup env alloc st =
     (if oldify_todo_list st = 0 then Some (Inr st)
      else
        (let v = oldify_todo_list st
         in case (young st v, forwarded st v) of
              (Some (Scannable t old), Some new_v) \<Rightarrow>
                (case get_place st (Field new_v 1) of
                   Some (Ptr n) \<Rightarrow>
                     Option.bind (mopup_fields env alloc old new_v [0..<length old] (st\<lparr>oldify_todo_list := n\<rparr>)) (\<lambda>r.
                       case r of Inl e \<Rightarrow> Some (Inl e) | Inr st \<Rightarrow> caml_oldify_mopup env alloc st)
                 | _ \<Rightarrow> None)
            | _ \<Rightarrow> None))"

declare caml_oldify_mopup.simps [code]

section \<open>Emptying the minor heap\<close>

text \<open>\<open>caml_oldify_local_roots\<close> on the roots: \<open>Oldify\<close> of each.\<close>

fun oldify_roots ::
    "minor_env \<Rightarrow> (nat \<Rightarrow> 's \<Rightarrow> (addr \<times> 's) option) \<Rightarrow> nat list \<Rightarrow> 's minor \<Rightarrow> 's minor outcome option" where
  "oldify_roots env alloc [] st = Some (Inr st)"
| "oldify_roots env alloc (i # is) st =
     Option.bind (get_place st (Root i)) (\<lambda>v.
     Option.bind (if is_young_value st v then caml_oldify_one env alloc v (Root i) st else Some (Inr st)) (\<lambda>r.
       case r of Inl e \<Rightarrow> Some (Inl e) | Inr st \<Rightarrow> oldify_roots env alloc is st))"

fun oldify_refs ::
    "minor_env \<Rightarrow> (nat \<Rightarrow> 's \<Rightarrow> (addr \<times> 's) option) \<Rightarrow> place list \<Rightarrow> 's minor \<Rightarrow> 's minor outcome option" where
  "oldify_refs env alloc [] st = Some (Inr st)"
| "oldify_refs env alloc (r # rs) st =
     Option.bind (get_place st r) (\<lambda>v.
     Option.bind (caml_oldify_one env alloc v r st) (\<lambda>res.
       case res of Inl e \<Rightarrow> Some (Inl e) | Inr st \<Rightarrow> oldify_refs env alloc rs st))"

fun clean_weak_refs :: "minor_env \<Rightarrow> place list \<Rightarrow> 's minor \<Rightarrow> 's minor option" where
  "clean_weak_refs env [] st = Some st"
| "clean_weak_refs env (r # rs) st =
     Option.bind (get_place st r) (\<lambda>v.
     Option.bind
       (case v of
          Ptr a \<Rightarrow>
            if Is_young st a then
              set_place r (case forwarded st a of Some b \<Rightarrow> Ptr b | None \<Rightarrow> caml_weak_none env) st
            else Some st
        | Long n \<Rightarrow> Some st) (clean_weak_refs env rs))"

definition finish_minor :: "'s minor \<Rightarrow> 's minor" where
  "finish_minor st =
     (let ptr = (if young_ptr st < young_start st then young_start st else young_ptr st)
      in st\<lparr>stat_minor_words := stat_minor_words st + (young_end st - ptr), young_ptr := young_end st,
           young := Map.empty, forwarded := Map.empty,
           caml_ref_table := clear_table (caml_ref_table st),
           caml_weak_ref_table := clear_table (caml_weak_ref_table st)\<rparr>)"

definition caml_empty_minor_heap ::
    "minor_env \<Rightarrow> (nat \<Rightarrow> 's \<Rightarrow> (addr \<times> 's) option) \<Rightarrow> 's minor \<Rightarrow> 's minor outcome option" where
  "caml_empty_minor_heap env alloc st =
     Option.bind
       (if young_ptr st \<noteq> young_end st then
          Option.bind (oldify_roots env alloc [0..<length (roots st)] st) (\<lambda>r. case r of Inl e \<Rightarrow> Some (Inl e) | Inr st \<Rightarrow>
          Option.bind (oldify_refs env alloc (entries (caml_ref_table st)) st) (\<lambda>r. case r of Inl e \<Rightarrow> Some (Inl e) | Inr st \<Rightarrow>
          Option.bind (caml_oldify_mopup env alloc st) (\<lambda>r. case r of Inl e \<Rightarrow> Some (Inl e) | Inr st \<Rightarrow>
          map_option (\<lambda>st. Inr (finish_minor st)) (clean_weak_refs env (entries (caml_weak_ref_table st)) st))))
        else Some (Inr st))
       (\<lambda>r. Some (bind_outcome r (\<lambda>st. Inr (st\<lparr>final_old := final_young st\<rparr>))))"

end
