(* ===== verification/Minor_Gc_Proofs.thy ===== *)
theory Minor_Gc_Proofs
  imports Minor_Gc Word_Allocator
begin

text \<open>
  A minor collection copies the young graph: what a value becomes, the invariant of the collection, and
  that each of its loops keeps it and ends.
\<close>

section \<open>Values before and after\<close>

text \<open>Forwarding blocks of the minor heap are cut short where that is allowed.\<close>

definition follow :: "minor_env \<Rightarrow> 's minor \<Rightarrow> val \<Rightarrow> val" where
  "follow env s v =
     (case v of
        Long n \<Rightarrow> v
      | Ptr a \<Rightarrow>
          if Is_young s a then
            (case young s a of
               Some (Scannable t (f # fs)) \<Rightarrow> if t = Forward_tag \<and> \<not> keep_young_forward env s f then f else v
             | _ \<Rightarrow> v)
          else v)"

text \<open>
  \<open>val_image env s copy v w\<close>: the value \<open>v\<close> of the state \<open>s\<close> before is \<open>w\<close> afterwards, when the young
  block \<open>a\<close> is copied to \<open>copy a\<close>.
\<close>

definition val_image :: "minor_env \<Rightarrow> 's minor \<Rightarrow> (addr \<Rightarrow> addr option) \<Rightarrow> val \<Rightarrow> val \<Rightarrow> bool" where
  "val_image env s copy v w =
     (case follow env s v of
        Long n \<Rightarrow> w = Long n
      | Ptr a \<Rightarrow>
          if Is_young s a then
            (case young s a of
               Some (Infix n) \<Rightarrow> \<exists>b. copy (a - n) = Some b \<and> w = Ptr (b + n)
             | _ \<Rightarrow> \<exists>b. copy a = Some b \<and> w = Ptr b)
          else w = Ptr a)"

fun copied_block :: "minor_env \<Rightarrow> 's minor \<Rightarrow> (addr \<Rightarrow> addr option) \<Rightarrow> block \<Rightarrow> block \<Rightarrow> bool" where
  "copied_block env s copy (Scannable t fs) b = (\<exists>gs. b = Scannable t gs \<and> list_all2 (val_image env s copy) fs gs)"
| "copied_block env s copy x b = (b = x)"

text \<open>The value that a place of the heap after (part of) the collection stands for.\<close>

fun stands :: "'s minor \<Rightarrow> (addr \<Rightarrow> addr option) \<Rightarrow> place \<Rightarrow> val \<Rightarrow> bool" where
  "stands s copy (Root i) v \<longleftrightarrow> i < length (roots s) \<and> v = roots s ! i"
| "stands s copy (Field a i) v \<longleftrightarrow>
     (\<exists>t fs. major s a = Some (Scannable t fs) \<and> t < No_scan_tag \<and> i < length fs \<and> v = fs ! i) \<or>
     (\<exists>y t fs. copy y = Some a \<and> young s y = Some (Scannable t fs) \<and> i < length fs \<and> v = fs ! i)"

section \<open>The state before a collection\<close>

definition value_ok :: "('s \<Rightarrow> addr set) \<Rightarrow> 's minor \<Rightarrow> val \<Rightarrow> bool" where
  "value_ok free s v =
     (case v of Long n \<Rightarrow> True | Ptr a \<Rightarrow> if Is_young s a then a \<in> dom (young s) else a \<notin> free (shared s))"

fun young_block_ok :: "('s \<Rightarrow> addr set) \<Rightarrow> 's minor \<Rightarrow> addr \<Rightarrow> block \<Rightarrow> bool" where
  "young_block_ok free s a (Scannable t fs) \<longleftrightarrow>
     fs \<noteq> [] \<and> t < No_scan_tag \<and> t \<noteq> Infix_tag \<and> (t = Forward_tag \<longrightarrow> length fs = 1) \<and> (\<forall>f\<in>set fs. value_ok free s f)"
| "young_block_ok free s a (Infix n) \<longleftrightarrow>
     n < a \<and> Is_young s (a - n) \<and> (\<exists>fs. young s (a - n) = Some (Scannable Closure_tag fs) \<and> n < length fs)"
| "young_block_ok free s a b \<longleftrightarrow> 0 < wosize_of b"

text \<open>
  The reference tables hold every field outside the minor heap with a pointer into it: the first one
  those of ordinary blocks, the second one those of weak arrays.
\<close>

definition minor_ok :: "('s \<Rightarrow> bool) \<Rightarrow> ('s \<Rightarrow> addr set) \<Rightarrow> 's minor \<Rightarrow> bool" where
  "minor_ok ok free s \<longleftrightarrow>
     finite (dom (young s)) \<and> ok (shared s) \<and>
     (\<forall>a b. young s a = Some b \<longrightarrow> Is_young s a \<and> young_block_ok free s a b) \<and>
     (\<forall>a. Is_young s a \<longrightarrow> a \<notin> free (shared s) \<and> a \<notin> dom (major s)) \<and>
     dom (major s) \<inter> free (shared s) = {} \<and>
     forwarded s = Map.empty \<and> oldify_todo_list s = 0 \<and>
     (\<forall>v\<in>set (roots s). value_ok free s v) \<and>
     (\<forall>a t fs. major s a = Some (Scannable t fs) \<longrightarrow> (\<forall>f\<in>set fs. value_ok free s f)) \<and>
     (\<forall>a t fs i. major s a = Some (Scannable t fs) \<and> i < length fs \<and> is_young_value s (fs ! i) \<longrightarrow>
        Field a i \<in> set (entries (if t < No_scan_tag then caml_ref_table s else caml_weak_ref_table s))) \<and>
     (\<forall>q\<in>set (entries (caml_ref_table s)). \<exists>a t fs i. q = Field a i \<and> major s a = Some (Scannable t fs) \<and> t < No_scan_tag \<and> i < length fs) \<and>
     (\<forall>q\<in>set (entries (caml_weak_ref_table s)). \<exists>a t fs i. q = Field a i \<and> major s a = Some (Scannable t fs) \<and> No_scan_tag \<le> t \<and> i < length fs)"

section \<open>The invariant\<close>

definition todo_places :: "(addr \<Rightarrow> addr option) \<Rightarrow> addr list \<Rightarrow> place set" where
  "todo_places copy ts = {Field r i |a r i. a \<in> set ts \<and> copy a = Some r}"

fun linked :: "'s minor \<Rightarrow> addr \<Rightarrow> addr list \<Rightarrow> bool" where
  "linked st h [] \<longleftrightarrow> h = 0"
| "linked st h (a # ts) \<longleftrightarrow> h = a \<and> a \<noteq> 0 \<and>
     (\<exists>r t fs n. forwarded st a = Some r \<and> young st a = Some (Scannable t fs) \<and> 1 < length fs \<and>
        get_place st (Field r 0) = Some (fs ! 0) \<and> get_place st (Field r 1) = Some (Ptr n) \<and> linked st n ts)"

fun same_shape :: "block \<Rightarrow> block option \<Rightarrow> bool" where
  "same_shape (Scannable t fs) b = (\<exists>gs. b = Some (Scannable t gs) \<and> length gs = length fs)"
| "same_shape x b = (b = Some x)"

definition untouched :: "block \<Rightarrow> bool" where
  "untouched b = (case b of Scannable t fs \<Rightarrow> No_scan_tag \<le> t | _ \<Rightarrow> True)"

definition collecting :: "('s \<Rightarrow> bool) \<Rightarrow> ('s \<Rightarrow> addr set) \<Rightarrow> minor_env \<Rightarrow> 's minor \<Rightarrow> 's minor \<Rightarrow> addr list \<Rightarrow> place set \<Rightarrow> bool" where
  "collecting ok free env s st ts Q \<longleftrightarrow>
     minor_ok ok free s \<and>
     (young st = young s \<and> young_start st = young_start s \<and> young_end st = young_end s \<and>
      length (roots st) = length (roots s) \<and> caml_ref_table st = caml_ref_table s \<and> caml_weak_ref_table st = caml_weak_ref_table s \<and>
      young_ptr st = young_ptr s) \<and>
     (ok (shared st) \<and> free (shared st) \<subseteq> free (shared s) \<and> dom (major st) \<inter> free (shared st) = {} \<and>
      dom (major st) - dom (major s) \<subseteq> free (shared s)) \<and>
     (\<forall>a t fs. major st a = Some (Scannable t fs) \<longrightarrow> a \<in> dom (major s) \<or> a \<in> ran (forwarded st)) \<and>
     (\<forall>a b. major s a = Some b \<longrightarrow> (if untouched b then major st a = Some b else same_shape b (major st a))) \<and>
     (\<forall>y r. forwarded st y = Some r \<longrightarrow>
        (\<exists>b. young s y = Some b \<and> (\<forall>n. b \<noteq> Infix n) \<and> same_shape b (major st r) \<and> {r ..< r + wosize_of b} \<subseteq> free (shared s) - free (shared st)) \<and>
        follow env s (Ptr y) = Ptr y) \<and>
     inj_on (forwarded st) (dom (forwarded st)) \<and>
     (distinct ts \<and> linked st (oldify_todo_list st) ts) \<and>
     (\<forall>q v. stands s (forwarded st) q v \<longrightarrow>
        q \<in> Q \<or> q \<in> todo_places (forwarded st) ts \<or> (\<exists>w. get_place st q = Some w \<and> val_image env s (forwarded st) v w))"

text \<open>Only the place \<open>p\<close> and new blocks are written.\<close>

definition only_writes :: "place \<Rightarrow> 's minor \<Rightarrow> 's minor \<Rightarrow> bool" where
  "only_writes p st st' \<longleftrightarrow>
     (\<forall>q. q \<noteq> p \<and> get_place st q \<noteq> None \<longrightarrow> get_place st' q = get_place st q) \<and> forwarded st \<subseteq>\<^sub>m forwarded st'"

lemma image_mono: "val_image env s copy v w \<Longrightarrow> copy \<subseteq>\<^sub>m copy' \<Longrightarrow> val_image env s copy' v w"
  by (auto simp: val_image_def map_le_def dom_def split: val.splits if_splits option.splits block.splits)

lemma stands_mono: "stands s copy q v \<Longrightarrow> copy \<subseteq>\<^sub>m copy' \<Longrightarrow> stands s copy' q v"
  by (cases q) (auto simp: map_le_def dom_def, metis)

lemma list_update_changed: "xs[i := w] ! j \<noteq> xs ! j \<Longrightarrow> j = i"
  by (metis nth_list_update_neq)

lemma get_set_place:
  assumes "get_place st p \<noteq> None"
  obtains st' where "set_place p w st = Some st'" "get_place st' p = Some w"
    "\<And>q. q \<noteq> p \<Longrightarrow> get_place st' q = get_place st q"
    "st' = st\<lparr>roots := roots st', major := major st'\<rparr>" "length (roots st') = length (roots st)"
    "\<And>a. major st' a = major st a \<or> (\<exists>i t fs gs. p = Field a i \<and> major st a = Some (Scannable t fs) \<and>
        major st' a = Some (Scannable t gs) \<and> length gs = length fs)"
proof (cases p)
  case (Root i)
  let ?st = "st\<lparr>roots := (roots st)[i := w]\<rparr>"
  have i: "i < length (roots st)" using assms Root by (simp add: get_place_def split: if_splits)
  show ?thesis
    by (rule that [of ?st]) (use i Root in \<open>auto simp: set_place_def get_place_def split: place.split dest: list_update_changed\<close>)
next
  case (Field a i)
  then obtain t fs where a: "major st a = Some (Scannable t fs)" "i < length fs"
    using assms by (auto simp: get_place_def split: option.splits block.splits if_splits)
  let ?st = "st\<lparr>major := (major st)(a \<mapsto> Scannable t (fs[i := w]))\<rparr>"
  show ?thesis
    by (rule that [of ?st]) (use a Field in \<open>auto simp: set_place_def get_place_def split: place.split dest: list_update_changed\<close>)
qed

lemma set_place_same: "get_place st p = Some w \<Longrightarrow> set_place p w st = Some st"
  by (cases p) (auto simp: get_place_def set_place_def map_upd_triv split: option.splits block.splits if_splits)

lemma todo_places_simps [simp]:
  "todo_places copy [] = {}"
  "copy a = Some r \<Longrightarrow> todo_places copy (a # ts) = {Field r i |i. True} \<union> todo_places copy ts"
  by (auto simp: todo_places_def)

lemma linked_only_writes:
  assumes "linked st h ts" "\<And>q. q \<in> todo_places (forwarded st) ts \<Longrightarrow> get_place st q \<noteq> None \<Longrightarrow> get_place st' q = get_place st q"
    "young st' = young st" "forwarded st \<subseteq>\<^sub>m forwarded st'"
  shows "linked st' h ts"
  using assms(1,2)
proof (induction ts arbitrary: h)
  case (Cons a ts)
  then obtain r t fs n where a: "h = a" "a \<noteq> 0" "forwarded st a = Some r" "young st a = Some (Scannable t fs)" "1 < length fs"
    "get_place st (Field r 0) = Some (fs ! 0)" "get_place st (Field r 1) = Some (Ptr n)" "linked st n ts"
    by auto
  have g: "get_place st' (Field r i) = get_place st (Field r i)" if "get_place st (Field r i) \<noteq> None" for i
    using Cons.prems(2) [of "Field r i"] that a(3) by simp
  have "linked st' n ts"
    using Cons.IH [OF a(8)] Cons.prems(2) a(3) by simp
  moreover have "forwarded st' a = Some r" using a(3) assms(4) by (metis domI map_le_def)
  ultimately show ?case
    using a g [of 0] g [of 1] assms(3) by auto
qed simp

section \<open>Steps\<close>

text \<open>A place that stands for a value can be read, once the shapes agree.\<close>

lemma collecting_get:
  assumes "collecting ok free env s st ts Q" "stands s (forwarded st) q v"
  shows "get_place st q \<noteq> None"
proof (cases q)
  case (Root i)
  then show ?thesis using assms by (simp add: collecting_def get_place_def)
next
  case (Field a i)
  from assms(2) Field consider
    (old) t fs where "major s a = Some (Scannable t fs)" "t < No_scan_tag" "i < length fs"
    | (new) y t fs where "forwarded st y = Some a" "young s y = Some (Scannable t fs)" "i < length fs" by auto
  then show ?thesis
  proof cases
    case old
    then have "same_shape (Scannable t fs) (major st a)"
      using assms(1) unfolding collecting_def untouched_def by fastforce
    then show ?thesis using old Field by (auto simp: get_place_def)
  next
    case new
    then have "same_shape (Scannable t fs) (major st a)"
      using assms(1) unfolding collecting_def by fastforce
    then show ?thesis using new Field by (auto simp: get_place_def)
  qed
qed

lemma same_shape_update:
  assumes "same_shape b x" "x = Some (Scannable t fs)" "length gs = length fs"
  shows "same_shape b (Some (Scannable t gs))"
  using assms by (cases b) auto

lemma copy_fresh:
  assumes "collecting ok free env s st ts Q" "forwarded st y = Some r"
  obtains b where "young s y = Some b" "\<forall>n. b \<noteq> Infix n" "same_shape b (major st r)" "{r ..< r + wosize_of b} \<subseteq> free (shared s) - free (shared st)"
    "0 < wosize_of b" "r \<in> free (shared s)" "r \<notin> dom (major s)" "follow env s (Ptr y) = Ptr y"
proof -
  obtain b where b: "young s y = Some b" "\<forall>n. b \<noteq> Infix n" "same_shape b (major st r)" "{r ..< r + wosize_of b} \<subseteq> free (shared s) - free (shared st)"
    using assms unfolding collecting_def by metis
  have "follow env s (Ptr y) = Ptr y" using assms unfolding collecting_def by blast
  have ok: "minor_ok ok free s" using assms(1) by (simp add: collecting_def)
  then have "young_block_ok free s y b" using b(1) unfolding minor_ok_def by blast
  then have w: "0 < wosize_of b" using b(2) by (cases b) auto
  then have "r \<in> {r ..< r + wosize_of b}" by simp
  with b(4) have r: "r \<in> free (shared s)" by blast
  then have "r \<notin> dom (major s)" using ok unfolding minor_ok_def by blast
  with that b w r \<open>follow env s (Ptr y) = Ptr y\<close> show ?thesis by blast
qed

text \<open>No place of a block that stays as it is stands for a value to copy.\<close>

lemma stands_not_untouched:
  assumes "collecting ok free env s st ts Q" "stands s (forwarded st) (Field a i) v" "major s a = Some b"
  shows "\<not> untouched b"
proof -
  have "forwarded st y \<noteq> Some a" for y
    using copy_fresh [OF assms(1), of y a] assms(3) by blast
  then show ?thesis using assms(2,3) by (auto simp: untouched_def)
qed

lemma set_collecting:
  assumes c: "collecting ok free env s st ts Q" and p: "p \<in> Q" "p \<notin> todo_places (forwarded st) ts"
    "stands s (forwarded st) p v"
  obtains st' where "set_place p w st = Some st'" "collecting ok free env s st' ts Q" "only_writes p st st'"
    "get_place st' p = Some w" "forwarded st' = forwarded st" "young st' = young st"
proof -
  obtain st' where st': "set_place p w st = Some st'" "get_place st' p = Some w"
    "\<And>q. q \<noteq> p \<Longrightarrow> get_place st' q = get_place st q"
    "st' = st\<lparr>roots := roots st', major := major st'\<rparr>" "length (roots st') = length (roots st)"
    "\<And>a. major st' a = major st a \<or> (\<exists>i t fs gs. p = Field a i \<and> major st a = Some (Scannable t fs) \<and>
        major st' a = Some (Scannable t gs) \<and> length gs = length fs)"
    using get_set_place [OF collecting_get [OF c p(3)], of w] by metis
  have same: "young st' = young st" "young_start st' = young_start st" "young_end st' = young_end st" "young_ptr st' = young_ptr st"
    "caml_ref_table st' = caml_ref_table st" "caml_weak_ref_table st' = caml_weak_ref_table st" "shared st' = shared st"
    "forwarded st' = forwarded st" "oldify_todo_list st' = oldify_todo_list st"
    by (subst st'(4), simp)+
  have dom: "dom (major st') = dom (major st)"
  proof -
    have "major st' a = None \<longleftrightarrow> major st a = None" for a using st'(6) [of a] by auto
    then show ?thesis by (auto simp: dom_def)
  qed
  have shape: "same_shape b (major st' a)" if "same_shape b (major st a)" for a b
    using st'(6) [of a] that same_shape_update by metis
  have unt: "major st' a = Some b" if "major s a = Some b" "untouched b" for a b
  proof -
    have "major st a = Some b" using c that unfolding collecting_def by auto
    moreover have "\<nexists>i. p = Field a i" using stands_not_untouched [OF c] p(3) that by blast
    ultimately show ?thesis using st'(6) [of a] by auto
  qed
  have old: "(if untouched b then major st' a = Some b else same_shape b (major st' a))" if "major s a = Some b" for a b
  proof -
    have "if untouched b then major st a = Some b else same_shape b (major st a)"
      using c that unfolding collecting_def by blast
    then show ?thesis using unt [OF that] shape by auto
  qed
  have new: "(\<exists>b. young s y = Some b \<and> (\<forall>n. b \<noteq> Infix n) \<and> same_shape b (major st' r) \<and> {r ..< r + wosize_of b} \<subseteq> free (shared s) - free (shared st)) \<and>
      follow env s (Ptr y) = Ptr y"
    if "forwarded st y = Some r" for y r
    using copy_fresh [OF c that] shape by metis
  have scan: "a \<in> dom (major s) \<or> a \<in> ran (forwarded st)" if "major st' a = Some (Scannable t fs)" for a t fs
  proof -
    have "\<exists>t fs. major st a = Some (Scannable t fs)" using st'(6) [of a] that by metis
    then show ?thesis using c unfolding collecting_def by blast
  qed
  have "linked st (oldify_todo_list st) ts" using c unfolding collecting_def by blast
  then have link: "linked st' (oldify_todo_list st) ts"
  proof (rule linked_only_writes)
    show "get_place st' q = get_place st q" if "q \<in> todo_places (forwarded st) ts" for q
      by (rule st'(3)) (use that p(2) in blast)
  qed (simp_all add: same)
  have places: "q \<in> Q \<or> q \<in> todo_places (forwarded st) ts \<or> (\<exists>w. get_place st' q = Some w \<and> val_image env s (forwarded st) u w)"
    if "stands s (forwarded st) q u" for q u
  proof (cases "q = p")
    case False
    then show ?thesis using c that st'(3) [OF False] unfolding collecting_def by auto
  qed (use p in simp)
  have "collecting ok free env s st' ts Q"
    using c old new scan link places unfolding collecting_def same dom st'(5) by blast
  moreover have "only_writes p st st'" using st'(3) same by (simp add: only_writes_def)
  ultimately show ?thesis using that st'(1,2) same by blast
qed

lemma linked_dom: "linked st h ts \<Longrightarrow> set ts \<subseteq> dom (forwarded st)"
  by (induction ts arbitrary: h) auto

lemma todo_places_upd: "a \<notin> set ts \<Longrightarrow> todo_places (copy(a \<mapsto> r)) ts = todo_places copy ts"
  by (auto simp: todo_places_def)

lemma stands_upd:
  assumes "stands s (copy(a \<mapsto> r)) q v"
  shows "stands s copy q v \<or> (\<exists>i. q = Field r i)"
  using assms by (cases q) (auto split: if_splits)

lemma same_shape_wosize: "same_shape b (Some x) \<Longrightarrow> wosize_of x = wosize_of b"
  by (cases b) auto

lemma same_shape_tag: "same_shape b (Some x) \<Longrightarrow> tag_of x = tag_of b"
  by (cases b) auto

lemma stands_unique:
  assumes c: "collecting ok free env s st ts Q" and "stands s (forwarded st) q u" "stands s (forwarded st) q v"
  shows "u = v"
proof (cases q)
  case (Field a i)
  have no: "forwarded st y \<noteq> Some a" if "major s a = Some b" for y b
    using copy_fresh [OF c, of y a] that by blast
  have one: "y = y'" if "forwarded st y = Some a" "forwarded st y' = Some a" for y y'
    using c that unfolding collecting_def inj_on_def by (metis domI)
  show ?thesis
  proof (cases "\<exists>b. major s a = Some b")
    case True
    then show ?thesis using assms(2,3) no Field by auto
  next
    case False
    then show ?thesis using assms(2,3) one Field by fastforce
  qed
qed (use assms in simp)

lemma collecting_mono: "collecting ok free env s st ts Q \<Longrightarrow> Q \<subseteq> Q' \<Longrightarrow> collecting ok free env s st ts Q'"
  unfolding collecting_def by blast

lemma close_collecting:
  assumes c: "collecting ok free env s st ts Q" and "get_place st p = Some w"
    and "stands s (forwarded st) p v" "val_image env s (forwarded st) v w"
  shows "collecting ok free env s st ts (Q - {p})"
proof -
  have "q \<in> Q - {p} \<or> q \<in> todo_places (forwarded st) ts \<or> (\<exists>w. get_place st q = Some w \<and> val_image env s (forwarded st) u w)"
    if "stands s (forwarded st) q u" for q u
  proof (cases "q = p")
    case True
    then show ?thesis using assms stands_unique [OF c that] by blast
  next
    case False
    then show ?thesis using c that unfolding collecting_def by blast
  qed
  then show ?thesis using c unfolding collecting_def by blast
qed

text \<open>The places of a block that do not exist need not stay open.\<close>

lemma drop_open:
  assumes c: "collecting ok free env s st ts Q" and "\<And>q v. q \<in> Q - Q' \<Longrightarrow> \<not> stands s (forwarded st) q v"
  shows "collecting ok free env s st ts Q'"
  using assms unfolding collecting_def by blast

lemma link_collecting:
  assumes c: "collecting ok free env s st ts (Q \<union> {Field r i |i. True})"
    and a: "forwarded st a = Some r" "young s a = Some (Scannable t fs)" "1 < length fs" "a \<notin> set ts" "a \<noteq> 0"
  obtains st' where "link_todo a r (fs ! 0) st = Some st'" "collecting ok free env s st' (a # ts) Q"
    "forwarded st' = forwarded st" "\<And>q. (\<nexists>i. q = Field r i) \<Longrightarrow> get_place st q \<noteq> None \<Longrightarrow> get_place st' q = get_place st q"
proof -
  let ?Q = "Q \<union> {Field r i |i. True}"
  have st: "stands s (forwarded st) (Field r i) (fs ! i)" if "i < length fs" for i
    using that a by auto
  have nt: "Field r i \<notin> todo_places (forwarded st) ts" for i
  proof
    assume "Field r i \<in> todo_places (forwarded st) ts"
    then obtain b where "b \<in> set ts" "forwarded st b = Some r" by (auto simp: todo_places_def)
    moreover have "inj_on (forwarded st) (dom (forwarded st))" using c by (simp add: collecting_def)
    ultimately show False using a(1,4) unfolding inj_on_def by (metis domI)
  qed
  obtain st1 where 1: "set_place (Field r 0) (fs ! 0) st = Some st1" "collecting ok free env s st1 ts ?Q"
    "only_writes (Field r 0) st st1" "get_place st1 (Field r 0) = Some (fs ! 0)" "forwarded st1 = forwarded st" "young st1 = young st"
    by (rule set_collecting [OF c _ nt st [of 0], of "fs ! 0"]) (use a(3) in auto)
  obtain st2 where 2: "set_place (Field r 1) (Ptr (oldify_todo_list st1)) st1 = Some st2" "collecting ok free env s st2 ts ?Q"
    "only_writes (Field r 1) st1 st2" "get_place st2 (Field r 1) = Some (Ptr (oldify_todo_list st1))" "forwarded st2 = forwarded st1"
    "young st2 = young st1"
    by (rule set_collecting [OF 1(2), of "Field r 1" "fs ! 1" "Ptr (oldify_todo_list st1)"])
      (use a(3) nt st [of 1] 1(5) in auto)
  have same: "oldify_todo_list st1 = oldify_todo_list st" "oldify_todo_list st2 = oldify_todo_list st1"
    using 1(1) 2(1) by (auto simp: set_place_def split: option.splits block.splits if_splits)
  let ?st = "st2\<lparr>oldify_todo_list := a\<rparr>"
  have g: "get_place ?st q = get_place st2 q" for q by (simp add: get_place_def split: place.split)
  have g0: "get_place st2 (Field r 0) = Some (fs ! 0)" using 1(4) 2(3) by (simp add: only_writes_def)
  have y: "young st2 = young s" "linked st2 (oldify_todo_list st) ts" "distinct ts"
    using 2(2) same by (simp_all add: collecting_def)
  have "linked ?st (oldify_todo_list st) ts"
    by (rule linked_only_writes [OF y(2)]) (simp_all add: g)
  then have "linked ?st a (a # ts)"
    using a y 1(5) 2(4,5) g g0 same by auto
  moreover have "distinct (a # ts)" using y(3) a(4) by simp
  moreover have "q \<in> Q \<or> q \<in> todo_places (forwarded ?st) (a # ts) \<or> (\<exists>w. get_place ?st q = Some w \<and> val_image env s (forwarded ?st) u w)"
    if "stands s (forwarded ?st) q u" for q u
  proof -
    have "q \<in> ?Q \<or> q \<in> todo_places (forwarded st2) ts \<or> (\<exists>w. get_place st2 q = Some w \<and> val_image env s (forwarded st2) u w)"
      using 2(2) that unfolding collecting_def by auto
    then show ?thesis using a(1) 1(5) 2(5) g by auto
  qed
  ultimately have "collecting ok free env s ?st (a # ts) Q"
    using 2(2) unfolding collecting_def by auto
  moreover have "get_place ?st q = get_place st q" if "\<nexists>i. q = Field r i" "get_place st q \<noteq> None" for q
  proof -
    have "get_place st1 q = get_place st q" using 1(3) that unfolding only_writes_def by blast
    then have "get_place st2 q = get_place st q" using 2(3) that unfolding only_writes_def by metis
    then show ?thesis by (simp add: g)
  qed
  moreover have "link_todo a r (fs ! 0) st = Some ?st" using 1(1) 2(1) by (simp add: link_todo_def)
  ultimately show ?thesis using that 1(5) 2(5) by simp
qed

lemma Is_young_collecting: "collecting ok free env s st ts Q \<Longrightarrow> Is_young st = Is_young s"
  by (auto simp: collecting_def Is_young_def fun_eq_iff)

lemma keep_young_forward_collecting:
  assumes c: "collecting ok free env s st ts Q" and v: "value_ok free s f"
  shows "keep_young_forward env st f = keep_young_forward env s f"
proof (cases f)
  case (Ptr b)
  have ok: "minor_ok ok free s" using c by (simp add: collecting_def)
  have "forwarded_tag env st b = forwarded_tag env s b"
  proof (cases "Is_young s b")
    case True
    then obtain x where x: "young s b = Some x" using v Ptr by (auto simp: value_ok_def)
    have fs: "forwarded s b = None" using ok by (simp add: minor_ok_def)
    show ?thesis
    proof (cases "forwarded st b")
      case None
      then show ?thesis using True x fs c Is_young_collecting [OF c] by (simp add: forwarded_tag_def collecting_def)
    next
      case (Some r)
      obtain x' where "young s b = Some x'" "same_shape x' (major st r)" by (rule copy_fresh [OF c Some])
      then have "map_option tag_of (major st r) = Some (tag_of x)" using x by (cases x) auto
      then show ?thesis using True x fs Some Is_young_collecting [OF c] by (simp add: forwarded_tag_def)
    qed
  next
    case False
    show ?thesis
    proof (cases "major s b")
      case None
      then have "major st b = None"
        using c False v Ptr by (auto simp: collecting_def value_ok_def)
      then show ?thesis using None False Is_young_collecting [OF c] by (simp add: forwarded_tag_def)
    next
      case (Some x)
      then have "if untouched x then major st b = Some x else same_shape x (major st b)" using c unfolding collecting_def by blast
      then have "map_option tag_of (major st b) = Some (tag_of x)" by (cases x) (auto split: if_splits)
      then show ?thesis using Some False Is_young_collecting [OF c] by (auto simp: forwarded_tag_def)
    qed
  qed
  then show ?thesis using Ptr by (simp add: keep_young_forward_def)
qed (simp add: keep_young_forward_def)

text \<open>What a call of \<open>caml_oldify_one\<close> has done when it returns.\<close>

definition unmoved :: "'s minor \<Rightarrow> 's minor \<Rightarrow> nat" where
  "unmoved s st = card {a \<in> dom (young s). forwarded st a = None}"

definition oldified :: "('s \<Rightarrow> bool) \<Rightarrow> ('s \<Rightarrow> addr set) \<Rightarrow> minor_env \<Rightarrow> 's minor \<Rightarrow> addr list \<Rightarrow> place set \<Rightarrow>
    val \<Rightarrow> place \<Rightarrow> 's minor \<Rightarrow> 's minor \<Rightarrow> bool" where
  "oldified ok free env s ts Q v p st st' \<longleftrightarrow>
     (\<exists>new w. collecting ok free env s st' (new @ ts) Q \<and> only_writes p st st' \<and> get_place st' p = Some w \<and>
        val_image env s (forwarded st') v w \<and> (\<forall>q\<in>todo_places (forwarded st') new. get_place st q = None) \<and>
        length new + unmoved s st' \<le> unmoved s st)"

definition weight :: "'s minor \<Rightarrow> 's minor \<Rightarrow> val \<Rightarrow> nat" where
  "weight s st v =
     (case v of
        Long n \<Rightarrow> 0
      | Ptr a \<Rightarrow>
          if Is_young s a \<and> forwarded st a = None then
            (case young s a of
               Some (Scannable t fs) \<Rightarrow> if t = Forward_tag then 2 else 0
             | Some (Infix n) \<Rightarrow> 1
             | _ \<Rightarrow> 0)
          else 0)"

lemma unmoved_upd:
  assumes "forwarded st' = (forwarded st)(a \<mapsto> r)" "a \<in> dom (young s)" "forwarded st a = None" "finite (dom (young s))"
  shows "Suc (unmoved s st') = unmoved s st"
proof -
  have "{x \<in> dom (young s). forwarded st' x = None} = {x \<in> dom (young s). forwarded st x = None} - {a}"
    using assms(1) by auto
  moreover have "Suc (card ({x \<in> dom (young s). forwarded st x = None} - {a})) = card {x \<in> dom (young s). forwarded st x = None}"
    using assms(2-4) by (intro card_Suc_Diff1) auto
  ultimately show ?thesis by (simp only: unmoved_def)
qed

lemma oldified_set:
  assumes c: "collecting ok free env s st ts Q" and p: "p \<in> Q" "p \<notin> todo_places (forwarded st) ts" "stands s (forwarded st) p u"
    and w: "val_image env s (forwarded st) v w"
  obtains st' where "set_place p w st = Some st'" "oldified ok free env s ts Q v p st st'"
proof -
  obtain st' where st': "set_place p w st = Some st'" "collecting ok free env s st' ts Q" "only_writes p st st'"
    "get_place st' p = Some w" "forwarded st' = forwarded st"
    by (rule set_collecting [OF c p])
  then have "oldified ok free env s ts Q v p st st'"
    unfolding oldified_def using w by (intro exI [of _ "[]"] exI [of _ w]) (simp add: unmoved_def)
  with st'(1) that show ?thesis by blast
qed

text \<open>A block of one field: its field is done at once.\<close>

lemma oldified_tail:
  assumes c: "collecting ok free env s st1 ts (insert (Field r 0) Q)" "only_writes p st st1" "get_place st1 p = Some (Ptr r)"
    and a: "forwarded st1 = (forwarded st)(a \<mapsto> r)" "forwarded st a = None" "young s a = Some (Scannable t fs)" "fs \<noteq> []"
      "val_image env s (forwarded st1) v (Ptr r)"
    and fresh: "get_place st (Field r 0) = None" "p \<noteq> Field r 0"
    and o: "oldified ok free env s ts (insert (Field r 0) Q) (fs ! 0) (Field r 0) st1 st2"
  shows "oldified ok free env s ts Q v p st st2"
proof -
  from o obtain new w where 2: "collecting ok free env s st2 (new @ ts) (insert (Field r 0) Q)" "only_writes (Field r 0) st1 st2"
    "get_place st2 (Field r 0) = Some w" "val_image env s (forwarded st2) (fs ! 0) w"
    "\<forall>q\<in>todo_places (forwarded st2) new. get_place st1 q = None" "length new + unmoved s st2 \<le> unmoved s st1"
    unfolding oldified_def by blast
  have le: "forwarded st1 \<subseteq>\<^sub>m forwarded st2" using 2(2) by (simp add: only_writes_def)
  have st: "stands s (forwarded st2) (Field r 0) (fs ! 0)"
    by (rule stands_mono [OF _ le]) (use a in auto)
  have "collecting ok free env s st2 (new @ ts) (insert (Field r 0) Q - {Field r 0})"
    by (rule close_collecting [OF 2(1,3) st 2(4)])
  then have "collecting ok free env s st2 (new @ ts) Q" by (rule collecting_mono) auto
  moreover have "only_writes p st st2"
  proof -
    have "get_place st2 q = get_place st q" if "q \<noteq> p" "get_place st q \<noteq> None" for q
    proof -
      have "get_place st1 q = get_place st q" using c(2) that by (simp add: only_writes_def)
      moreover have "q \<noteq> Field r 0" using that fresh by auto
      ultimately show ?thesis using 2(2) that by (simp add: only_writes_def)
    qed
    then show ?thesis using c(2) le by (simp add: only_writes_def) (metis map_le_trans)
  qed
  moreover have "get_place st2 p = Some (Ptr r)" using 2(2) c(3) fresh(2) by (simp add: only_writes_def)
  moreover have "val_image env s (forwarded st2) v (Ptr r)" using image_mono [OF a(5) le] .
  moreover have "\<forall>q\<in>todo_places (forwarded st2) new. get_place st q = None"
    using 2(5) c(2,3) unfolding only_writes_def by (metis option.distinct(1))
  moreover have "unmoved s st1 \<le> unmoved s st"
  proof -
    have "finite (dom (young s))" using c(1) by (simp add: collecting_def minor_ok_def)
    moreover have "a \<in> dom (young s)" using a(3) by (rule domI)
    ultimately show ?thesis using unmoved_upd [OF a(1) _ a(2), of s] by simp
  qed
  ultimately show ?thesis unfolding oldified_def using 2(6) by (metis order_trans)
qed

text \<open>The places of a copy.\<close>

lemma stands_copy:
  assumes c: "collecting ok free env s st ts Q" and a: "forwarded st a = Some r" and "stands s (forwarded st) (Field r i) u"
  shows "\<exists>t fs. young s a = Some (Scannable t fs) \<and> i < length fs \<and> u = fs ! i"
proof -
  have "r \<notin> dom (major s)" by (rule copy_fresh [OF c a])
  then obtain y t fs where y: "forwarded st y = Some r" "young s y = Some (Scannable t fs)" "i < length fs" "u = fs ! i"
    using assms(3) by auto
  have "inj_on (forwarded st) (dom (forwarded st))" using c by (simp add: collecting_def)
  then have "y = a" using y(1) a unfolding inj_on_def by (metis domI)
  with y show ?thesis by blast
qed

lemma copy_not_todo:
  assumes c: "collecting ok free env s st ts Q" and a: "forwarded st a = Some r" "a \<notin> set ts"
  shows "Field r i \<notin> todo_places (forwarded st) ts"
proof
  assume "Field r i \<in> todo_places (forwarded st) ts"
  then obtain b where "b \<in> set ts" "forwarded st b = Some r" by (auto simp: todo_places_def)
  moreover have "inj_on (forwarded st) (dom (forwarded st))" using c by (simp add: collecting_def)
  ultimately show False using a unfolding inj_on_def by (metis domI)
qed

text \<open>A place that was there and is not on the list does not get on it.\<close>

lemma oldified_not_todo:
  assumes c: "collecting ok free env s st ts Q" and le: "forwarded st \<subseteq>\<^sub>m forwarded st'"
    and new: "\<forall>q\<in>todo_places (forwarded st') new. get_place st q = None"
    and p: "p \<notin> todo_places (forwarded st) ts" "get_place st p \<noteq> None"
  shows "p \<notin> todo_places (forwarded st') (new @ ts)"
proof -
  have "linked st (oldify_todo_list st) ts" using c by (simp add: collecting_def)
  then have "set ts \<subseteq> dom (forwarded st)" by (rule linked_dom)
  then have "todo_places (forwarded st') ts = todo_places (forwarded st) ts"
    using le unfolding todo_places_def map_le_def by (metis (no_types, lifting) subsetD)
  moreover have "todo_places (forwarded st') (new @ ts) = todo_places (forwarded st') new \<union> todo_places (forwarded st') ts"
    by (auto simp: todo_places_def)
  ultimately show ?thesis using new p by auto
qed

lemma only_writes_trans:
  assumes "only_writes p st st1" "only_writes p st1 st2"
  shows "only_writes p st st2"
  using assms unfolding only_writes_def by (metis map_le_trans)

text \<open>The place may be written once more.\<close>

lemma oldified_reset:
  assumes c: "collecting ok free env s st ts Q" and p: "p \<in> Q" "p \<notin> todo_places (forwarded st) ts" "stands s (forwarded st) p u"
    and o: "oldified ok free env s ts Q v p st st1" and w: "val_image env s (forwarded st1) v' w"
  obtains st2 where "set_place p w st1 = Some st2" "oldified ok free env s ts Q v' p st st2"
proof -
  from o obtain new w1 where 1: "collecting ok free env s st1 (new @ ts) Q" "only_writes p st st1"
    "\<forall>q\<in>todo_places (forwarded st1) new. get_place st q = None" "length new + unmoved s st1 \<le> unmoved s st"
    unfolding oldified_def by blast
  have le: "forwarded st \<subseteq>\<^sub>m forwarded st1" using 1(2) by (simp add: only_writes_def)
  obtain st2 where 2: "set_place p w st1 = Some st2" "collecting ok free env s st2 (new @ ts) Q" "only_writes p st1 st2"
    "get_place st2 p = Some w" "forwarded st2 = forwarded st1"
    by (rule set_collecting [OF 1(1) p(1) oldified_not_todo [OF c le 1(3) p(2) collecting_get [OF c p(3)]] stands_mono [OF p(3) le]])
  have "oldified ok free env s ts Q v' p st st2"
    unfolding oldified_def using 1(3,4) 2 w only_writes_trans [OF 1(2) 2(3)]
    by (intro exI [of _ new] exI [of _ w]) (simp add: unmoved_def)
  with that 2(1) show ?thesis by blast
qed

lemma image_moved:
  assumes "collecting ok free env s st ts Q" "forwarded st a = Some r"
  shows "val_image env s (forwarded st) (Ptr a) (Ptr r)"
proof -
  obtain b where "young s a = Some b" "\<forall>n. b \<noteq> Infix n" "follow env s (Ptr a) = Ptr a"
    by (rule copy_fresh [OF assms])
  moreover have ok: "minor_ok ok free s" using assms(1) by (simp add: collecting_def)
  have "Is_young s a" using ok \<open>young s a = Some b\<close> unfolding minor_ok_def by blast
  ultimately show ?thesis using assms(2) by (auto simp: val_image_def split: block.splits)
qed

lemma image_other: "(\<nexists>a. v = Ptr a \<and> Is_young s a) \<Longrightarrow> val_image env s copy v v"
  by (auto simp: val_image_def follow_def split: val.splits)

context word_allocator
begin

text \<open>The new block, before its address is stored.\<close>

lemma place_copy_collecting:
  assumes c: "collecting inv free env s st ts Q" and a: "young s a = Some b" "\<forall>n. b \<noteq> Infix n" "forwarded st a = None"
    and copy: "same_shape b (Some copy)" and fol: "follow env s (Ptr a) = Ptr a"
    and alloc: "alloc (wosize_of copy) (shared st) = Some (hp, sh)" "hp \<noteq> 0"
  defines "st1 \<equiv> st\<lparr>shared := sh, major := place_copy st a (hp + 1) copy, forwarded := (forwarded st)(a \<mapsto> hp + 1)\<rparr>"
  shows "collecting inv free env s st1 ts (Q \<union> {Field (hp + 1) i |i. True})"
    "\<And>q. get_place st q \<noteq> None \<Longrightarrow> get_place st1 q = get_place st q"
    "\<And>i. get_place st (Field (hp + 1) i) = None" "major st1 (hp + 1) = Some copy" "a \<notin> set ts"
proof -
  let ?r = "hp + 1" and ?n = "wosize_of b"
  have ok: "minor_ok inv free s" using c by (simp add: collecting_def)
  have "young_block_ok free s a b" using ok a(1) unfolding minor_ok_def by blast
  then have n: "1 \<le> ?n" "wosize_of copy = ?n" using a(2) copy by (cases b; auto simp: Suc_le_eq)+
  have iv: "inv (shared st)" using c by (simp add: collecting_def)
  have "request_words (hp, ?n) \<subseteq> free (shared st) \<and> free sh \<subseteq> free (shared st) - request_words (hp, ?n)"
    by (rule takes [OF iv n(1)]) (use alloc n in simp)
  then have t: "{hp ..< hp + ?n + 1} \<subseteq> free (shared st)" "free sh \<subseteq> free (shared st) - {hp ..< hp + ?n + 1}"
    using alloc(2) by (simp_all add: request_words_def)
  have "inv sh" using total [OF iv n(1)] alloc(1) n by auto
  have fs: "free (shared st) \<subseteq> free (shared s)" and d: "dom (major st) \<inter> free (shared st) = {}"
    and ds: "dom (major st) - dom (major s) \<subseteq> free (shared s)" using c by (simp_all add: collecting_def)
  have sub: "{?r ..< ?r + ?n} \<subseteq> free (shared st)" using t(1) by (rule order_trans [rotated]) simp
  have rsub: "{?r ..< ?r + ?n} \<subseteq> {hp ..< hp + ?n + 1}" by auto
  have same: "major st1 x = major st x" if "x \<notin> {?r ..< ?r + ?n}" for x
    using that n by (auto simp: st1_def place_copy_def)
  have keep: "major st1 x = major st x" if "x \<in> dom (major st)" for x
    by (rule same) (use that d sub in blast)
  have fresh: "x \<notin> dom (major st)" if "x \<in> {?r ..< ?r + ?n}" for x using that d sub by blast
  show get: "get_place st1 q = get_place st q" if "get_place st q \<noteq> None" for q
  proof (cases q)
    case (Field x i)
    then have "x \<in> dom (major st)" using that by (auto simp: get_place_def split: option.splits)
    then show ?thesis using Field keep by (simp add: get_place_def)
  qed (simp add: get_place_def st1_def)
  show none: "get_place st (Field ?r i) = None" for i
    using fresh [of ?r] n(1) by (auto simp: get_place_def split: option.splits)
  show new: "major st1 ?r = Some copy" by (simp add: st1_def place_copy_def)
  have lk: "linked st (oldify_todo_list st) ts" "distinct ts" using c by (simp_all add: collecting_def)
  show at: "a \<notin> set ts" using linked_dom [OF lk(1)] a(3) by auto
  have fw: "forwarded st1 = (forwarded st)(a \<mapsto> ?r)" by (simp add: st1_def)
  have le: "forwarded st \<subseteq>\<^sub>m forwarded st1" using a(3) by (auto simp: fw map_le_def)
  have dom1: "dom (major st1) \<subseteq> dom (major st) \<union> {?r ..< ?r + ?n}"
  proof
    fix x assume "x \<in> dom (major st1)"
    then show "x \<in> dom (major st) \<union> {?r ..< ?r + ?n}"
      using same [of x] by (metis Un_iff domIff)
  qed
  have old: "if untouched x then major st1 y = Some x else same_shape x (major st1 y)" if "major s y = Some x" for x y
  proof -
    have o: "if untouched x then major st y = Some x else same_shape x (major st y)" using c that unfolding collecting_def by blast
    then have "y \<in> dom (major st)" by (cases x) (auto split: if_splits)
    with keep o show ?thesis by simp
  qed
  have sh1: "shared st1 = sh" by (simp add: st1_def)
  have copies: "(\<exists>b. young s y = Some b \<and> (\<forall>n. b \<noteq> Infix n) \<and> same_shape b (major st1 r) \<and> {r ..< r + wosize_of b} \<subseteq> free (shared s) - free (shared st1)) \<and>
      follow env s (Ptr y) = Ptr y"
    if "forwarded st1 y = Some r" for y r
  proof (cases "y = a")
    case True
    then have "r = ?r" using that by (simp add: fw)
    have "{?r ..< ?r + ?n} \<subseteq> free (shared s) - free (shared st1)"
      unfolding sh1 using sub fs t(2) rsub by blast
    then show ?thesis using True \<open>r = ?r\<close> a copy new fol by simp
  next
    case False
    then have f: "forwarded st y = Some r" using that by (simp add: fw)
    obtain x where x: "young s y = Some x" "\<forall>n. x \<noteq> Infix n" "same_shape x (major st r)" "{r ..< r + wosize_of x} \<subseteq> free (shared s) - free (shared st)"
        "follow env s (Ptr y) = Ptr y"
      by (rule copy_fresh [OF c f])
    then have "r \<in> dom (major st)" by (cases x) auto
    with keep have "major st1 r = major st r" by blast
    moreover have "{r ..< r + wosize_of x} \<subseteq> free (shared s) - free (shared st1)"
      unfolding sh1 using x(4) t(2) by blast
    ultimately show ?thesis using x by auto
  qed
  have "?r \<notin> ran (forwarded st)"
  proof
    assume "?r \<in> ran (forwarded st)"
    then obtain y where f: "forwarded st y = Some ?r" by (auto simp: ran_def)
    obtain x where "same_shape x (major st ?r)" by (rule copy_fresh [OF c f])
    then have "?r \<in> dom (major st)" by (cases x) auto
    with fresh [of ?r] n(1) show False by auto
  qed
  then have inj: "inj_on (forwarded st1) (dom (forwarded st1))"
    using c a(3) unfolding collecting_def fw by (auto simp: inj_on_def ran_def dom_def)
  have "linked st1 (oldify_todo_list st) ts"
    by (rule linked_only_writes [OF lk(1) get _ le]) (simp_all add: st1_def)
  then have link: "linked st1 (oldify_todo_list st1) ts" by (simp add: st1_def)
  have places: "q \<in> Q \<union> {Field ?r i |i. True} \<or> q \<in> todo_places (forwarded st1) ts \<or> (\<exists>w. get_place st1 q = Some w \<and> val_image env s (forwarded st1) u w)"
    if "stands s (forwarded st1) q u" for q u
  proof (cases "\<exists>i. q = Field ?r i")
    case False
    then have "stands s (forwarded st) q u" using stands_upd that fw by metis
    then consider "q \<in> Q" | "q \<in> todo_places (forwarded st) ts" | w where "get_place st q = Some w" "val_image env s (forwarded st) u w"
      using c unfolding collecting_def by blast
    then show ?thesis
    proof cases
      case 2
      then show ?thesis using at by (simp add: fw todo_places_upd)
    next
      case (3 w)
      then show ?thesis using get [of q] image_mono [OF 3(2) le] by simp
    qed simp
  qed simp
  have rest: "young st1 = young s \<and> young_start st1 = young_start s \<and> young_end st1 = young_end s \<and>
      length (roots st1) = length (roots s) \<and> caml_ref_table st1 = caml_ref_table s \<and> caml_weak_ref_table st1 = caml_weak_ref_table s \<and>
      young_ptr st1 = young_ptr s"
    using c by (simp add: collecting_def st1_def)
  have mem: "inv (shared st1) \<and> free (shared st1) \<subseteq> free (shared s) \<and> dom (major st1) \<inter> free (shared st1) = {} \<and>
      dom (major st1) - dom (major s) \<subseteq> free (shared s)"
  proof (intro conjI)
    show "inv (shared st1)" using \<open>inv sh\<close> by (simp add: st1_def)
    show "free (shared st1) \<subseteq> free (shared s)" using t(2) fs by (auto simp: st1_def)
    have "shared st1 = sh" by (simp add: st1_def)
    then show "dom (major st1) \<inter> free (shared st1) = {}" using dom1 d t(2) rsub by blast
    show "dom (major st1) - dom (major s) \<subseteq> free (shared s)" using dom1 ds sub fs by blast
  qed
  have scan: "x \<in> dom (major s) \<or> x \<in> ran (forwarded st1)" if "major st1 x = Some (Scannable t gs)" for x t gs
  proof (cases "x = ?r")
    case True
    then show ?thesis using fw by (auto simp: ran_def)
  next
    case False
    then have "major st x = Some (Scannable t gs)"
      using that by (auto simp: st1_def place_copy_def split: if_splits option.splits block.splits)
    then have "x \<in> dom (major s) \<or> x \<in> ran (forwarded st)" using c unfolding collecting_def by blast
    then show ?thesis unfolding fw ran_map_upd [where m = "forwarded st", OF a(3)] by blast
  qed
  show "collecting inv free env s st1 ts (Q \<union> {Field ?r i |i. True})"
    unfolding collecting_def using ok rest mem scan old copies inj lk(2) link places by (intro conjI allI impI) (blast+)
qed

lemma evacuate_collecting:
  assumes c: "collecting inv free env s st ts Q" and a: "young s a = Some b" "\<forall>n. b \<noteq> Infix n" "forwarded st a = None"
    and copy: "same_shape b (Some copy)" and fol: "follow env s (Ptr a) = Ptr a"
    and p: "p \<in> Q" "p \<notin> todo_places (forwarded st) ts" "stands s (forwarded st) p v"
  obtains "evacuate alloc a copy p st = Some (Inl Out_of_memory)"
  | r st' where "evacuate alloc a copy p st = Some (Inr (r, st'))" "collecting inv free env s st' ts (Q \<union> {Field r i |i. True})"
    "only_writes p st st'" "get_place st' p = Some (Ptr r)" "forwarded st' = (forwarded st)(a \<mapsto> r)"
    "\<And>i. get_place st (Field r i) = None" "a \<notin> set ts" "\<And>i. p \<noteq> Field r i"
proof -
  have ok: "minor_ok inv free s" and iv: "inv (shared st)" using c by (simp_all add: collecting_def)
  have "young_block_ok free s a b" using ok a(1) unfolding minor_ok_def by blast
  then have n: "1 \<le> wosize_of copy" using a(2) same_shape_wosize [OF copy] by (cases b) (auto simp: Suc_le_eq)
  obtain hp sh where al: "alloc (wosize_of copy) (shared st) = Some (hp, sh)" using total [OF iv n] by blast
  show ?thesis
  proof (cases "hp = 0")
    case True
    then show ?thesis using that(1) al by (simp add: evacuate_def)
  next
    case False
    let ?st1 = "st\<lparr>shared := sh, major := place_copy st a (hp + 1) copy, forwarded := (forwarded st)(a \<mapsto> hp + 1)\<rparr>"
    note new = place_copy_collecting [OF c a copy fol al False]
    have le: "forwarded st \<subseteq>\<^sub>m forwarded ?st1" using a(3) by (auto simp: map_le_def)
    have nt: "p \<notin> todo_places (forwarded ?st1) ts" using p(2) new(5) by (simp add: todo_places_upd)
    have pr: "p \<noteq> Field (hp + 1) i" for i using collecting_get [OF c p(3)] new(3) by metis
    obtain st' where st': "set_place p (Ptr (hp + 1)) ?st1 = Some st'"
      "collecting inv free env s st' ts (Q \<union> {Field (hp + 1) i |i. True})" "only_writes p ?st1 st'"
      "get_place st' p = Some (Ptr (hp + 1))" "forwarded st' = forwarded ?st1"
      by (rule set_collecting [OF new(1) _ nt stands_mono [OF p(3) le]]) (use p(1) in auto)
    have "only_writes p st st'"
      using st'(3,5) new(2) le unfolding only_writes_def by metis
    with that(2) [of "hp + 1" st'] st' al False new pr show ?thesis by (simp add: evacuate_def)
  qed
qed

text \<open>A block with one field, or a block of fields put on the list, as one step.\<close>

lemma oldified_link:
  assumes c: "collecting inv free env s st1 ts (Q \<union> {Field r i |i. True})" "only_writes p st st1" "get_place st1 p = Some (Ptr r)"
    and a: "forwarded st1 = (forwarded st)(a \<mapsto> r)" "forwarded st a = None" "young s a = Some (Scannable t fs)" "1 < length fs"
      "a \<notin> set ts" "Is_young s a" "val_image env s (forwarded st1) v (Ptr r)"
    and fresh: "\<And>i. get_place st (Field r i) = None" "\<And>i. p \<noteq> Field r i"
  obtains st2 where "link_todo a r (fs ! 0) st1 = Some st2" "oldified inv free env s ts Q v p st st2"
proof -
  obtain st2 where 2: "link_todo a r (fs ! 0) st1 = Some st2" "collecting inv free env s st2 (a # ts) Q"
    "forwarded st2 = forwarded st1" "\<And>q. (\<nexists>i. q = Field r i) \<Longrightarrow> get_place st1 q \<noteq> None \<Longrightarrow> get_place st2 q = get_place st1 q"
    by (rule link_collecting [OF c(1), of a t fs]) (use a in \<open>auto simp: Is_young_def\<close>)
  have "only_writes p st st2"
  proof -
    have "get_place st2 q = get_place st q" if "q \<noteq> p" "get_place st q \<noteq> None" for q
    proof -
      have "get_place st1 q = get_place st q" using c(2) that by (simp add: only_writes_def)
      moreover have "\<nexists>i. q = Field r i" using that fresh by auto
      ultimately show ?thesis using 2(4) that by metis
    qed
    then show ?thesis using c(2) 2(3) by (simp add: only_writes_def)
  qed
  moreover have "get_place st2 p = Some (Ptr r)" using 2(4) [of p] c(3) fresh(2) by auto
  moreover have "\<forall>q\<in>todo_places (forwarded st2) [a]. get_place st q = None"
    using fresh(1) a(1) 2(3) by auto
  moreover have "Suc (unmoved s st1) = unmoved s st"
    by (rule unmoved_upd [OF a(1)]) (use a c(1) in \<open>auto simp: collecting_def minor_ok_def\<close>)
  ultimately have "oldified inv free env s ts Q v p st st2"
    unfolding oldified_def using 2(2,3) a(7) by (intro exI [of _ "[a]"] exI [of _ "Ptr r"]) (simp add: unmoved_def)
  with that 2(1) show ?thesis by blast
qed

lemma follow_not_forward:
  assumes "\<not> keep_young_forward env s f" "minor_ok ok free s" "value_ok free s f"
  shows "follow env s f = f" "weight s st f \<le> 1"
proof -
  have "t \<noteq> Forward_tag" if "f = Ptr b" "Is_young s b" "young s b = Some (Scannable t gs)" for b t gs
    using assms(1,2) that by (auto simp: keep_young_forward_def forwarded_tag_def minor_ok_def split: option.splits)
  then show "follow env s f = f" "weight s st f \<le> 1"
    by (auto simp: follow_def weight_def split: val.splits option.splits block.splits list.splits)
qed

text \<open>A block without fields.\<close>

lemma oldified_whole:
  assumes c: "collecting inv free env s st ts Q" and a: "Is_young s a" "forwarded st a = None" "young s a = Some b"
    "\<forall>n. b \<noteq> Infix n" "\<forall>t fs. b \<noteq> Scannable t fs"
    and p: "p \<in> Q" "p \<notin> todo_places (forwarded st) ts" "stands s (forwarded st) p u"
  shows "map_option (map_sum id snd) (evacuate alloc a b p st) = Some (Inl Out_of_memory) \<or>
    (\<exists>st'. map_option (map_sum id snd) (evacuate alloc a b p st) = Some (Inr st') \<and> oldified inv free env s ts Q (Ptr a) p st st')"
    (is "?R")
proof -
  have fol: "follow env s (Ptr a) = Ptr a" using a by (auto simp: follow_def split: option.splits block.splits)
  have sh: "same_shape b (Some b)" using a(4,5) by (cases b) auto
  show ?thesis
  proof (rule evacuate_collecting [OF c a(3,4,2) sh fol p])
    fix r st1
    assume e: "evacuate alloc a b p st = Some (Inr (r, st1))"
      "collecting inv free env s st1 ts (Q \<union> {Field r i |i. True})" "only_writes p st st1"
      "get_place st1 p = Some (Ptr r)" "forwarded st1 = (forwarded st)(a \<mapsto> r)"
    have f1: "forwarded st1 a = Some r" using e(5) by simp
    have "collecting inv free env s st1 ts Q"
    proof (rule drop_open [OF e(2)])
      fix q w assume "q \<in> Q \<union> {Field r i |i. True} - Q"
      then obtain i where "q = Field r i" by auto
      then show "\<not> stands s (forwarded st1) q w" using stands_copy [OF e(2) f1] a(3,5) by (auto simp del: stands.simps)
    qed
    moreover have "val_image env s (forwarded st1) (Ptr a) (Ptr r)" by (rule image_moved [OF e(2) f1])
    moreover have "unmoved s st1 \<le> unmoved s st"
    proof -
      have "finite (dom (young s))" "a \<in> dom (young s)" using c a(3) by (auto simp: collecting_def minor_ok_def)
      then show ?thesis using unmoved_upd [OF e(5) _ a(2), of s] by simp
    qed
    ultimately have "oldified inv free env s ts Q (Ptr a) p st st1"
      unfolding oldified_def using e(3,4) by (intro exI [of _ "[]"] exI [of _ "Ptr r"]) simp
    then show ?R using e(1) by simp
  qed simp
qed

text \<open>\<open>caml_oldify_one\<close> returns, and copies what its argument points to.\<close>

lemma caml_oldify_one_correct:
  assumes "collecting inv free env s st ts Q" "p \<in> Q" "p \<notin> todo_places (forwarded st) ts" "stands s (forwarded st) p u"
    and "value_ok free s v"
  shows "caml_oldify_one env alloc v p st = Some (Inl Out_of_memory) \<or>
    (\<exists>st'. caml_oldify_one env alloc v p st = Some (Inr st') \<and> oldified inv free env s ts Q v p st st')"
  using assms
proof (induction "(unmoved s st, weight s st v)" arbitrary: st v p Q u rule: wf_induct_rule [OF wf_lex_prod [OF wf_less_than wf_less_than]])
  case (1 st v p Q u)
  note c = 1(2) and p = 1(3,4,5) and v = 1(6)
  have ok: "minor_ok inv free s" and ys: "young st = young s" using c by (simp_all add: collecting_def)
  note Y = Is_young_collecting [OF c]
  have setp: "map_option Inr (set_place p w st) = Some (Inl Out_of_memory) \<or>
      (\<exists>st'. map_option Inr (set_place p w st) = Some (Inr st') \<and> oldified inv free env s ts Q v p st st')"
    if "val_image env s (forwarded st) v w" for w
    using oldified_set [OF c p that] by auto
  show ?case
  proof (cases "\<exists>a. v = Ptr a \<and> Is_young s a \<and> forwarded st a = None")
    case False
    show ?thesis
    proof (cases "\<exists>a. v = Ptr a \<and> Is_young s a")
      case True
      with False obtain a r where a: "v = Ptr a" "Is_young s a" "forwarded st a = Some r" by auto
      then show ?thesis
        using setp [of "Ptr r"] image_moved [OF c a(3)] Y by (simp add: caml_oldify_one.simps [of env alloc "Ptr a"])
    next
      case False
      then have "caml_oldify_one env alloc v p st = map_option Inr (set_place p v st)"
        using Y by (cases v) (simp_all add: caml_oldify_one.simps [of env alloc "Long n" for n] caml_oldify_one.simps [of env alloc "Ptr x" for x])
      then show ?thesis using setp image_other [OF False] by simp
    qed
  next
    case True
    then obtain a where a: "v = Ptr a" "Is_young s a" "forwarded st a = None" by blast
    then obtain b where b: "young s a = Some b" using v by (auto simp: value_ok_def)
    have bok: "young_block_ok free s a b" using ok b unfolding minor_ok_def by blast
    show ?thesis
    proof (cases b)
      case (Scannable t fs)
      have fs: "fs \<noteq> []" "t < No_scan_tag" "t \<noteq> Infix_tag" "t = Forward_tag \<longrightarrow> length fs = 1" "value_ok free s (fs ! 0)"
        using bok Scannable by (cases fs; auto)+
      have single: "Option.bind (evacuate alloc a (Scannable t [uninit env]) p st) (\<lambda>r. case r of Inl e \<Rightarrow> Some (Inl e) | Inr (r, st) \<Rightarrow> caml_oldify_one env alloc (fs ! 0) (Field r 0) st) = Some (Inl Out_of_memory) \<or>
        (\<exists>st'. Option.bind (evacuate alloc a (Scannable t [uninit env]) p st) (\<lambda>r. case r of Inl e \<Rightarrow> Some (Inl e) | Inr (r, st) \<Rightarrow> caml_oldify_one env alloc (fs ! 0) (Field r 0) st) = Some (Inr st') \<and>
           oldified inv free env s ts Q v p st st')" (is "?R")
        if one: "length fs = 1" and fol: "follow env s (Ptr a) = Ptr a"
      proof (rule evacuate_collecting [OF c b _ a(3) _ fol p, of "Scannable t [uninit env]"])
        show "\<forall>n. b \<noteq> Infix n" "same_shape b (Some (Scannable t [uninit env]))" using Scannable one by auto
      next
        assume "evacuate alloc a (Scannable t [uninit env]) p st = Some (Inl Out_of_memory)"
        then show ?R by simp
      next
        fix r st1
        assume e: "evacuate alloc a (Scannable t [uninit env]) p st = Some (Inr (r, st1))"
          "collecting inv free env s st1 ts (Q \<union> {Field r i |i. True})" "only_writes p st st1"
          "get_place st1 p = Some (Ptr r)" "forwarded st1 = (forwarded st)(a \<mapsto> r)"
          "\<And>i. get_place st (Field r i) = None" "a \<notin> set ts" "\<And>i. p \<noteq> Field r i"
        have f1: "forwarded st1 a = Some r" using e(5) by simp
        have c1: "collecting inv free env s st1 ts (insert (Field r 0) Q)"
        proof (rule drop_open [OF e(2)])
          fix q w assume "q \<in> Q \<union> {Field r i |i. True} - insert (Field r 0) Q"
          then obtain i where "q = Field r i" "i \<noteq> 0" by auto
          then show "\<not> stands s (forwarded st1) q w"
            using stands_copy [OF e(2) f1] b Scannable one by (auto simp del: stands.simps)
        qed
        have im: "val_image env s (forwarded st1) v (Ptr r)" using image_moved [OF e(2) f1] a(1) by simp
        have st0: "stands s (forwarded st1) (Field r 0) (fs ! 0)"
          unfolding stands.simps using f1 b [unfolded Scannable] fs(1) by blast
        have "unmoved s st1 < unmoved s st"
        proof -
          have "finite (dom (young s))" "a \<in> dom (young s)" using ok b by (auto simp: minor_ok_def)
          then show ?thesis using unmoved_upd [OF e(5) _ a(3), of s] by simp
        qed
        then have "((unmoved s st1, weight s st1 (fs ! 0)), (unmoved s st, weight s st v)) \<in> less_than <*lex*> less_than" by simp
        from 1(1) [OF this c1 _ copy_not_todo [OF e(2) f1 e(7)] st0 fs(5)]
        consider "caml_oldify_one env alloc (fs ! 0) (Field r 0) st1 = Some (Inl Out_of_memory)"
          | st2 where "caml_oldify_one env alloc (fs ! 0) (Field r 0) st1 = Some (Inr st2)"
              "oldified inv free env s ts (insert (Field r 0) Q) (fs ! 0) (Field r 0) st1 st2" by auto
        then show ?R
        proof cases
          case (2 st2)
          have "oldified inv free env s ts Q v p st st2"
            by (rule oldified_tail [OF c1 e(3,4,5) a(3) b [unfolded Scannable] fs(1) im e(6,8) 2(2)])
          then show ?R using 2(1) e(1) by simp
        qed (use e(1) in simp)
      qed
      have "t < 249 \<or> t = 250" using fs(2,3) unfolding tag_defs by arith
      then consider (plain) "t < Infix_tag" "t \<noteq> Forward_tag" | (forward) "t = Forward_tag" "\<not> t < Infix_tag" "length fs = 1"
        using fs(4) by (auto simp: tag_defs)
      then show ?thesis
      proof cases
        case plain
        have fol: "follow env s (Ptr a) = Ptr a" using b Scannable plain by (auto simp: follow_def split: list.splits)
        show ?thesis
        proof (cases "length fs > 1")
          case True
          let ?E = "evacuate alloc a (Scannable t (replicate (length fs) (uninit env))) p st"
          have eq: "caml_oldify_one env alloc v p st = Option.bind ?E (\<lambda>r. case r of Inl e \<Rightarrow> Some (Inl e) | Inr (r, st) \<Rightarrow> map_option Inr (link_todo a r (fs ! 0) st))"
            using Scannable True a Y ys plain fs(1) b by (simp add: caml_oldify_one.simps [of env alloc "Ptr a"])
          show ?thesis
          proof (rule evacuate_collecting [OF c b _ a(3) _ fol p, of "Scannable t (replicate (length fs) (uninit env))"])
            show "\<forall>n. b \<noteq> Infix n" "same_shape b (Some (Scannable t (replicate (length fs) (uninit env))))" using Scannable by auto
          next
            assume "?E = Some (Inl Out_of_memory)"
            then show ?thesis by (simp add: eq)
          next
            fix r st1
            assume e: "?E = Some (Inr (r, st1))"
              "collecting inv free env s st1 ts (Q \<union> {Field r i |i. True})" "only_writes p st st1"
              "get_place st1 p = Some (Ptr r)" "forwarded st1 = (forwarded st)(a \<mapsto> r)"
              "\<And>i. get_place st (Field r i) = None" "a \<notin> set ts" "\<And>i. p \<noteq> Field r i"
            have f1: "forwarded st1 a = Some r" using e(5) by simp
            have im: "val_image env s (forwarded st1) v (Ptr r)" using image_moved [OF e(2) f1] a(1) by simp
            obtain st2 where "link_todo a r (fs ! 0) st1 = Some st2" "oldified inv free env s ts Q v p st st2"
              by (rule oldified_link [OF e(2-5) a(3) b [unfolded Scannable] True e(7) a(2) im e(6,8)])
            then show ?thesis using e(1) by (simp add: eq)
          qed
        next
          case False
          then have one: "length fs = 1" using fs(1) by (cases fs) auto
          then show ?thesis
            using single [OF one fol] Scannable a Y ys plain fs(1) b by (simp add: caml_oldify_one.simps [of env alloc "Ptr a"])
        qed
      next
        case forward
        obtain f where f: "fs = [f]" using forward(3) by (auto simp: length_Suc_conv)
        show ?thesis
        proof (cases "keep_young_forward env s f")
          case True
          have fol: "follow env s (Ptr a) = Ptr a" using b Scannable f True by (simp add: follow_def)
          have eq: "caml_oldify_one env alloc v p st = Option.bind (evacuate alloc a (Scannable t [uninit env]) p st)
              (\<lambda>r. case r of Inl e \<Rightarrow> Some (Inl e) | Inr (r, st) \<Rightarrow> caml_oldify_one env alloc (fs ! 0) (Field r 0) st)"
            using Scannable a Y ys forward f b True keep_young_forward_collecting [OF c, of f] fs(5)
            by (simp add: caml_oldify_one.simps [of env alloc "Ptr a"])
          show ?thesis unfolding eq by (rule single [OF forward(3) fol])
        next
          case False
          have vf: "value_ok free s f" using fs(5) f by simp
          note nf = follow_not_forward [OF False ok vf]
          have "follow env s (Ptr a) = f" using b Scannable f forward False a(2) by (simp add: follow_def)
          then have im: "val_image env s copy v = val_image env s copy f" for copy
            using nf(1) a(1) by (simp add: val_image_def fun_eq_iff)
          have "weight s st v = 2" using a b Scannable forward by (simp add: weight_def)
          then have "((unmoved s st, weight s st f), (unmoved s st, weight s st v)) \<in> less_than <*lex*> less_than"
            using nf(2) [of st] by simp
          from 1(1) [OF this c p vf]
          have "caml_oldify_one env alloc f p st = Some (Inl Out_of_memory) \<or>
            (\<exists>st'. caml_oldify_one env alloc f p st = Some (Inr st') \<and> oldified inv free env s ts Q f p st st')" .
          moreover have "caml_oldify_one env alloc v p st = caml_oldify_one env alloc f p st"
            using Scannable a Y ys forward f b False keep_young_forward_collecting [OF c, of f] vf
            by (simp add: caml_oldify_one.simps [of env alloc "Ptr a"])
          ultimately show ?thesis by (simp add: oldified_def im)
        qed
      qed
    next
      case (Infix n)
      obtain fs where i: "n < a" "Is_young s (a - n)" "young s (a - n) = Some (Scannable Closure_tag fs)"
        using bok Infix by auto
      have v': "value_ok free s (Ptr (a - n))" using i by (auto simp: value_ok_def)
      have "weight s st (Ptr (a - n)) = 0" using i by (simp add: weight_def tag_defs)
      moreover have "weight s st v = 1" using a b Infix by (simp add: weight_def)
      ultimately have "((unmoved s st, weight s st (Ptr (a - n))), (unmoved s st, weight s st v)) \<in> less_than <*lex*> less_than" by simp
      from 1(1) [OF this c p v']
      consider "caml_oldify_one env alloc (Ptr (a - n)) p st = Some (Inl Out_of_memory)"
        | st1 where "caml_oldify_one env alloc (Ptr (a - n)) p st = Some (Inr st1)" "oldified inv free env s ts Q (Ptr (a - n)) p st st1"
        by blast
      moreover have eq: "caml_oldify_one env alloc v p st = Option.bind (caml_oldify_one env alloc (Ptr (a - n)) p st) (\<lambda>r.
          case r of Inl e \<Rightarrow> Some (Inl e) | Inr st \<Rightarrow> map_option Inr (add_offset p n st))"
        using Infix a Y ys b by (simp add: caml_oldify_one.simps [of env alloc "Ptr a"])
      ultimately show ?thesis
      proof cases
        case (2 st1)
        from 2(2) obtain w where w: "get_place st1 p = Some w" "val_image env s (forwarded st1) (Ptr (a - n)) w"
          unfolding oldified_def by blast
        then obtain r where r: "w = Ptr r" "forwarded st1 (a - n) = Some r"
          using i by (auto simp: val_image_def follow_def tag_defs split: list.splits)
        have "val_image env s (forwarded st1) v (Ptr (r + n))"
          using a b Infix r by (simp add: val_image_def follow_def)
        then obtain st2 where "set_place p (Ptr (r + n)) st1 = Some st2" "oldified inv free env s ts Q v p st st2"
          by (rule oldified_reset [OF c p 2(2)])
        then show ?thesis using 2(1) w(1) r(1) by (simp add: eq add_offset_def)
      qed (simp add: eq)
    next
      case (Opaque t bs)
      have "caml_oldify_one env alloc v p st = map_option (map_sum id snd) (evacuate alloc a b p st)"
        using Opaque a Y ys b by (simp add: caml_oldify_one.simps [of env alloc "Ptr a"])
      then show ?thesis using oldified_whole [OF c a(2,3) b _ _ p] a(1) Opaque by simp
    next
      case (Custom n data)
      have "caml_oldify_one env alloc v p st = map_option (map_sum id snd) (evacuate alloc a b p st)"
        using Custom a Y ys b by (simp add: caml_oldify_one.simps [of env alloc "Ptr a"])
      then show ?thesis using oldified_whole [OF c a(2,3) b _ _ p] a(1) Custom by simp
    qed
  qed
qed

end

end
