(* ===== verification/Minor_Gc_Loops.thy ===== *)
theory Minor_Gc_Loops
  imports Minor_Gc_Proofs
begin

text \<open>
  The loops of a minor collection over the fields of a copy, the list of copies, the roots and the
  reference tables: each one ends and closes the places it goes through.
\<close>

section \<open>One place\<close>

text \<open>The places of the roots and of the old blocks never get on the list of copies.\<close>

definition settled :: "'s minor \<Rightarrow> place \<Rightarrow> bool" where
  "settled s q = (case q of Root i \<Rightarrow> True | Field a i \<Rightarrow> a \<in> dom (major s))"

lemma settled_not_todo:
  assumes c: "collecting ok free env s st ts Q" and "settled s q"
  shows "q \<notin> todo_places (forwarded st) ts"
proof
  assume "q \<in> todo_places (forwarded st) ts"
  then obtain r a i where q: "q = Field r i" "forwarded st a = Some r" by (auto simp: todo_places_def)
  have "r \<notin> dom (major s)" by (rule copy_fresh [OF c q(2)])
  then show False using assms(2) q by (simp add: settled_def)
qed

lemma image_not_young:
  assumes c: "collecting ok free env s st ts Q" and i: "val_image env s (forwarded st) v w"
  shows "\<not> is_young_value s w"
proof -
  have ok: "minor_ok ok free s" using c by (simp add: collecting_def)
  have moved: "\<not> Is_young s (b + n)" if f: "forwarded st a = Some b" and n: "\<forall>blk. young s a = Some blk \<longrightarrow> n < wosize_of blk" for a b n
  proof -
    obtain blk where blk: "young s a = Some blk" "{b ..< b + wosize_of blk} \<subseteq> free (shared s) - free (shared st)" "0 < wosize_of blk"
      by (rule copy_fresh [OF c f])
    then have "b + n \<in> {b ..< b + wosize_of blk}" using n by simp
    then have "b + n \<in> free (shared s)" using blk(2) by blast
    then show ?thesis using ok unfolding minor_ok_def by blast
  qed
  have ok': "young_block_ok free s a b" if "young s a = Some b" for a b using ok that unfolding minor_ok_def by blast
  show ?thesis
  proof (cases "\<exists>a. follow env s v = Ptr a \<and> Is_young s a")
    case False
    then show ?thesis using i by (auto simp: val_image_def is_young_value_def split: val.splits)
  next
    case True
    then obtain a where a: "follow env s v = Ptr a" "Is_young s a" by blast
    show ?thesis
    proof (cases "\<exists>n. young s a = Some (Infix n)")
      case True
      then obtain n where n: "young s a = Some (Infix n)" by blast
      then obtain b where b: "forwarded st (a - n) = Some b" "w = Ptr (b + n)" using i a by (auto simp: val_image_def)
      have "\<forall>blk. young s (a - n) = Some blk \<longrightarrow> n < wosize_of blk" using ok' [OF n] by auto
      then show ?thesis using moved [OF b(1), of n] b(2) by (simp add: is_young_value_def)
    next
      case False
      then obtain b where b: "forwarded st a = Some b" "w = Ptr b"
        using i a by (auto simp: val_image_def split: option.splits block.splits)
      obtain blk where "young s a = Some blk" "0 < wosize_of blk" by (rule copy_fresh [OF c b(1)])
      then show ?thesis using moved [OF b(1), of 0] b(2) by (simp add: is_young_value_def)
    qed
  qed
qed

text \<open>What is left of a collection when some of its open places are done.\<close>

definition advanced :: "('s \<Rightarrow> bool) \<Rightarrow> ('s \<Rightarrow> addr set) \<Rightarrow> minor_env \<Rightarrow> 's minor \<Rightarrow> addr list \<Rightarrow> place set \<Rightarrow>
    's minor \<Rightarrow> 's minor \<Rightarrow> bool" where
  "advanced ok free env s ts Q st st' \<longleftrightarrow>
     (\<exists>new. collecting ok free env s st' (new @ ts) Q \<and> forwarded st \<subseteq>\<^sub>m forwarded st' \<and>
        length new + unmoved s st' \<le> unmoved s st)"

definition stops :: "'s minor outcome option \<Rightarrow> ('s minor \<Rightarrow> bool) \<Rightarrow> bool" where
  "stops r P \<longleftrightarrow> r = Some (Inl Out_of_memory) \<or> (\<exists>st. r = Some (Inr st) \<and> P st)"

lemma stopsE [consumes 1, case_names memory returns]:
  assumes "stops r P"
  obtains "r = Some (Inl Out_of_memory)" | st where "r = Some (Inr st)" "P st"
  using assms by (auto simp: stops_def)

lemma stops_Inr [simp]: "stops (Some (Inr st)) P = P st"
  by (simp add: stops_def)

lemma stops_bind:
  assumes "stops r P" "\<And>st. P st \<Longrightarrow> stops (f st) R"
  shows "stops (Option.bind r (\<lambda>r. case r of Inl e \<Rightarrow> Some (Inl e) | Inr st \<Rightarrow> f st)) R"
  using assms(1)
proof (cases rule: stopsE)
  case (returns st)
  then show ?thesis using assms(2) by simp
qed (simp add: stops_def)

lemma stops_outcome:
  "stops r (\<lambda>st. R (f st)) \<Longrightarrow> stops (Option.bind r (\<lambda>r. Some (bind_outcome r (\<lambda>st. Inr (f st))))) R"
  by (auto simp: stops_def)

lemma stops_mono: "stops r P \<Longrightarrow> (\<And>st. P st \<Longrightarrow> R st) \<Longrightarrow> stops r R"
  by (auto simp: stops_def)

lemma advanced_trans:
  assumes "collecting ok free env s st1 (new @ ts) Q'" "forwarded st \<subseteq>\<^sub>m forwarded st1" "length new + unmoved s st1 \<le> unmoved s st"
    and "advanced ok free env s (new @ ts) Q st1 st2"
  shows "advanced ok free env s ts Q st st2"
proof -
  from assms(4) obtain new' where "collecting ok free env s st2 (new' @ new @ ts) Q" "forwarded st1 \<subseteq>\<^sub>m forwarded st2"
    "length new' + unmoved s st2 \<le> unmoved s st1" unfolding advanced_def by blast
  then show ?thesis
    unfolding advanced_def using assms(2,3) by (intro exI [of _ "new' @ new"]) (auto intro: map_le_trans)
qed

lemma not_young_oldify:
  assumes "\<not> is_young_value st v" "get_place st p = Some v"
  shows "caml_oldify_one env alloc v p st = Some (Inr st)"
  using assms set_place_same [OF assms(2)]
  by (cases v) (simp_all add: caml_oldify_one.simps [of env alloc "Long n" for n] caml_oldify_one.simps [of env alloc "Ptr x" for x] is_young_value_def)

lemma is_young_value_collecting: "collecting ok free env s st ts Q \<Longrightarrow> is_young_value st v = is_young_value s v"
  using Is_young_collecting [of ok free env s st ts Q] by (cases v) (auto simp: is_young_value_def)

context word_allocator
begin

text \<open>A place that holds the value it stands for is done and closed.\<close>

lemma oldify_place:
  assumes c: "collecting inv free env s st ts Q" and p: "p \<in> Q" "p \<notin> todo_places (forwarded st) ts" "stands s (forwarded st) p v"
    and v: "value_ok free s v"
  shows "stops (caml_oldify_one env alloc v p st) (\<lambda>st'. \<exists>new w. collecting inv free env s st' (new @ ts) (Q - {p}) \<and>
      only_writes p st st' \<and> length new + unmoved s st' \<le> unmoved s st \<and> get_place st' p = Some w \<and> \<not> is_young_value s w \<and>
      (\<forall>q. q \<notin> todo_places (forwarded st) ts \<and> get_place st q \<noteq> None \<longrightarrow> q \<notin> todo_places (forwarded st') (new @ ts)))"
  using caml_oldify_one_correct [OF c p v]
proof
  assume "\<exists>st'. caml_oldify_one env alloc v p st = Some (Inr st') \<and> oldified inv free env s ts Q v p st st'"
  then obtain st' new w where 1: "caml_oldify_one env alloc v p st = Some (Inr st')"
    "collecting inv free env s st' (new @ ts) Q" "only_writes p st st'" "get_place st' p = Some w"
    "val_image env s (forwarded st') v w" "\<forall>q\<in>todo_places (forwarded st') new. get_place st q = None"
    "length new + unmoved s st' \<le> unmoved s st"
    unfolding oldified_def by blast
  have le: "forwarded st \<subseteq>\<^sub>m forwarded st'" using 1(3) by (simp add: only_writes_def)
  have "collecting inv free env s st' (new @ ts) (Q - {p})"
    by (rule close_collecting [OF 1(2,4) stands_mono [OF p(3) le] 1(5)])
  moreover have "\<not> is_young_value s w" by (rule image_not_young [OF 1(2,5)])
  moreover have "q \<notin> todo_places (forwarded st') (new @ ts)" if "q \<notin> todo_places (forwarded st) ts" "get_place st q \<noteq> None" for q
    by (rule oldified_not_todo [OF c le 1(6) that])
  ultimately show ?thesis
    using 1(1,3,4,7) by (simp only: stops_Inr) blast
qed (simp add: stops_def)

section \<open>The fields of a copy\<close>

lemma mopup_fields_correct:
  assumes "collecting inv free env s st ts (Q \<union> Field r ` set is)" "distinct is"
    "\<forall>i\<in>set is. i < length old \<and> Field r i \<notin> todo_places (forwarded st) ts"
    "0 \<in> set is \<longrightarrow> get_place st (Field r 0) = Some (old ! 0)"
    "forwarded st v = Some r" "young s v = Some (Scannable t old)"
  shows "stops (mopup_fields env alloc old r is st) (advanced inv free env s ts Q st)"
  using assms(1-5)
proof (induction "is" arbitrary: st ts)
  case Nil
  then show ?case unfolding advanced_def by (auto intro: exI [of _ "[]"])
next
  case (Cons i "is")
  note c = Cons.prems(1)
  have sv: "stands s (forwarded st) (Field r i) (old ! i)"
    unfolding stands.simps using Cons.prems(3,5) assms(6) by auto
  have nt: "Field r i \<notin> todo_places (forwarded st) ts" using Cons.prems(3) by simp
  have ok: "minor_ok inv free s" using c by (simp add: collecting_def)
  then have "young_block_ok free s v (Scannable t old)" using assms(6) unfolding minor_ok_def by blast
  then have vok: "value_ok free s (old ! i)" using Cons.prems(3) by simp
  have get: "get_place st (Field r j) \<noteq> None" if "j < length old" for j
  proof (rule collecting_get [OF c])
    show "stands s (forwarded st) (Field r j) (old ! j)" unfolding stands.simps using Cons.prems(5) assms(6) that by auto
  qed
  have step: "mopup_fields env alloc old r (i # is) st =
      Option.bind (caml_oldify_one env alloc (old ! i) (Field r i) st) (\<lambda>x. case x of Inl e \<Rightarrow> Some (Inl e) | Inr st \<Rightarrow> mopup_fields env alloc old r is st)"
  proof (cases "is_young_value st (old ! i)")
    case False
    then have "caml_oldify_one env alloc (old ! i) (Field r i) st = map_option Inr (set_place (Field r i) (old ! i) st)"
      by (cases "old ! i") (simp_all add: caml_oldify_one.simps [of env alloc "Long n" for n] caml_oldify_one.simps [of env alloc "Ptr x" for x] is_young_value_def)
    then show ?thesis using False Cons.prems(4) set_place_same [of st "Field r 0" "old ! 0"] by auto
  qed (use Cons.prems(4) in auto)
  have pin: "Field r i \<in> Q \<union> Field r ` set (i # is)" by simp
  show ?case
    unfolding step
  proof (rule stops_bind [OF oldify_place [OF c pin nt sv vok]], elim exE conjE)
    fix st1 new w
    assume 1: "collecting inv free env s st1 (new @ ts) (Q \<union> Field r ` set (i # is) - {Field r i})"
      "only_writes (Field r i) st st1" "length new + unmoved s st1 \<le> unmoved s st"
      "\<forall>q. q \<notin> todo_places (forwarded st) ts \<and> get_place st q \<noteq> None \<longrightarrow> q \<notin> todo_places (forwarded st1) (new @ ts)"
    have c1: "collecting inv free env s st1 (new @ ts) (Q \<union> Field r ` set is)"
      by (rule collecting_mono [OF 1(1)]) auto
    have le: "forwarded st \<subseteq>\<^sub>m forwarded st1" using 1(2) by (simp add: only_writes_def)
    have f1: "forwarded st1 v = Some r" using le Cons.prems(5) by (metis domI map_le_def)
    have "stops (mopup_fields env alloc old r is st1) (advanced inv free env s (new @ ts) Q st1)"
    proof (rule Cons.IH [OF c1 _ _ _ f1])
      show "\<forall>j\<in>set is. j < length old \<and> Field r j \<notin> todo_places (forwarded st1) (new @ ts)"
        using Cons.prems(3) 1(4) get by auto
      show "0 \<in> set is \<longrightarrow> get_place st1 (Field r 0) = Some (old ! 0)"
        using Cons.prems(2,4) 1(2) unfolding only_writes_def by auto
    qed (use Cons.prems(2) in simp)
    then show "stops (mopup_fields env alloc old r is st1) (advanced inv free env s ts Q st)"
      by (rule stops_mono) (rule advanced_trans [OF 1(1) le 1(3)])
  qed
qed

section \<open>The list of copies\<close>

text \<open>The first entry of the list is taken off, its places stay open.\<close>

lemma take_todo:
  assumes c: "collecting inv free env s st (v # ts) Q"
  obtains t old r n where "oldify_todo_list st = v" "v \<noteq> 0" "young st v = Some (Scannable t old)" "forwarded st v = Some r"
    "get_place st (Field r 1) = Some (Ptr n)" "young s v = Some (Scannable t old)"
    "collecting inv free env s (st\<lparr>oldify_todo_list := n\<rparr>) ts (Q \<union> Field r ` set [0..<length old])"
    "get_place st (Field r 0) = Some (old ! 0)" "v \<notin> set ts"
proof -
  have "linked st (oldify_todo_list st) (v # ts)" and ds: "distinct (v # ts)" using c unfolding collecting_def by blast+
  then obtain r t fs n where v: "oldify_todo_list st = v" "v \<noteq> 0" "forwarded st v = Some r" "young st v = Some (Scannable t fs)"
    "get_place st (Field r 0) = Some (fs ! 0)" "get_place st (Field r 1) = Some (Ptr n)" "linked st n ts"
    by auto
  have ys: "young s v = Some (Scannable t fs)" using v(4) c by (simp add: collecting_def)
  let ?st = "st\<lparr>oldify_todo_list := n\<rparr>"
  have g: "get_place ?st q = get_place st q" for q by (simp add: get_place_def split: place.split)
  have link: "linked ?st n ts" by (rule linked_only_writes [OF v(7)]) (simp_all add: g)
  have places: "q \<in> Q \<union> Field r ` set [0..<length fs] \<or> q \<in> todo_places (forwarded ?st) ts \<or>
      (\<exists>w. get_place ?st q = Some w \<and> val_image env s (forwarded ?st) u w)"
    if st: "stands s (forwarded ?st) q u" for q u
  proof -
    have st': "stands s (forwarded st) q u" using st by simp
    then consider "q \<in> Q" | "q \<in> todo_places (forwarded st) (v # ts)" | w where "get_place st q = Some w" "val_image env s (forwarded st) u w"
      using c unfolding collecting_def by blast
    then show ?thesis
    proof cases
      case 2
      then consider i where "q = Field r i" | "q \<in> todo_places (forwarded st) ts" using v(3) by auto
      then show ?thesis
      proof cases
        case (1 i)
        then have "i < length fs" using stands_copy [OF c v(3)] st' ys by (auto simp del: stands.simps)
        then show ?thesis using 1 by auto
      qed simp
    qed (auto simp: g)
  qed
  have "collecting inv free env s ?st ts (Q \<union> Field r ` set [0..<length fs])"
    using c link places ds unfolding collecting_def by auto
  with that v(1-6) ys ds show ?thesis by auto
qed

lemma caml_oldify_mopup_correct:
  assumes "collecting inv free env s st ts Q"
  shows "stops (caml_oldify_mopup env alloc st) (\<lambda>st'. collecting inv free env s st' [] Q)"
  using assms
proof (induction "length ts + unmoved s st" arbitrary: st ts rule: less_induct)
  case less
  note c = less.prems
  show ?case
  proof (cases ts)
    case Nil
    then have "oldify_todo_list st = 0" using c by (simp add: collecting_def)
    then show ?thesis
      using c Nil by (simp add: caml_oldify_mopup.simps [of env alloc st])
  next
    case (Cons v vs)
    obtain t old r n where v: "oldify_todo_list st = v" "v \<noteq> 0" "young st v = Some (Scannable t old)" "forwarded st v = Some r"
      "get_place st (Field r 1) = Some (Ptr n)" "young s v = Some (Scannable t old)"
      "collecting inv free env s (st\<lparr>oldify_todo_list := n\<rparr>) vs (Q \<union> Field r ` set [0..<length old])"
      "get_place st (Field r 0) = Some (old ! 0)" "v \<notin> set vs"
      by (rule take_todo [OF c [unfolded Cons]])
    let ?st = "st\<lparr>oldify_todo_list := n\<rparr>"
    have eq: "caml_oldify_mopup env alloc st = Option.bind (mopup_fields env alloc old r [0..<length old] ?st)
        (\<lambda>x. case x of Inl e \<Rightarrow> Some (Inl e) | Inr st \<Rightarrow> caml_oldify_mopup env alloc st)"
      using v(1-5) by (simp add: caml_oldify_mopup.simps [of env alloc st] Let_def)
    have f: "forwarded ?st v = Some r" using v(4) by simp
    have g0: "get_place ?st (Field r 0) = Some (old ! 0)" using v(8) by (simp add: get_place_def)
    have "stops (mopup_fields env alloc old r [0..<length old] ?st) (advanced inv free env s vs Q ?st)"
    proof (rule mopup_fields_correct [OF v(7) _ _ _ f v(6)])
      show "\<forall>i\<in>set [0..<length old]. i < length old \<and> Field r i \<notin> todo_places (forwarded ?st) vs"
        using copy_not_todo [OF v(7) f v(9)] by simp
    qed (simp_all add: g0)
    then show ?thesis
      unfolding eq
    proof (rule stops_bind)
      fix st1 assume "advanced inv free env s vs Q ?st st1"
      then obtain new where 1: "collecting inv free env s st1 (new @ vs) Q" "forwarded ?st \<subseteq>\<^sub>m forwarded st1"
        "length new + unmoved s st1 \<le> unmoved s ?st" unfolding advanced_def by blast
      have u: "unmoved s ?st = unmoved s st" by (simp add: unmoved_def)
      have "length (new @ vs) + unmoved s st1 < length ts + unmoved s st" using 1(3) u Cons by simp
      from less.hyps [OF this 1(1)]
      show "stops (caml_oldify_mopup env alloc st1) (\<lambda>st'. collecting inv free env s st' [] Q)" .
    qed
  qed
qed

section \<open>Roots and references\<close>

lemma oldify_roots_correct:
  assumes "collecting inv free env s st ts (Q \<union> Root ` set is)" "distinct is"
    "\<forall>i\<in>set is. i < length (roots s) \<and> get_place st (Root i) = Some (roots s ! i)"
    "\<forall>q\<in>R. settled s q \<and> q \<notin> range Root \<and> get_place st q = Some (val_at q)"
  shows "stops (oldify_roots env alloc is st)
    (\<lambda>st'. advanced inv free env s ts Q st st' \<and> (\<forall>q\<in>R. get_place st' q = Some (val_at q)))"
  using assms
proof (induction "is" arbitrary: st ts)
  case Nil
  then show ?case by (auto simp: advanced_def intro: exI [of _ "[]"])
next
  case (Cons i "is")
  note c = Cons.prems(1)
  have get: "get_place st (Root i) = Some (roots s ! i)" and i: "i < length (roots s)" using Cons.prems(3) by simp_all
  have sv: "stands s (forwarded st) (Root i) (roots s ! i)" using i by simp
  have nt: "Root i \<notin> todo_places (forwarded st) ts" by (rule settled_not_todo [OF c]) (simp add: settled_def)
  have vok: "value_ok free s (roots s ! i)" using c i by (simp add: collecting_def minor_ok_def)
  have step: "oldify_roots env alloc (i # is) st =
      Option.bind (caml_oldify_one env alloc (roots s ! i) (Root i) st) (\<lambda>x. case x of Inl e \<Rightarrow> Some (Inl e) | Inr st \<Rightarrow> oldify_roots env alloc is st)"
    using get not_young_oldify [OF _ get] by simp
  have pin: "Root i \<in> Q \<union> Root ` set (i # is)" by simp
  show ?case
    unfolding step
  proof (rule stops_bind [OF oldify_place [OF c pin nt sv vok]], elim exE conjE)
    fix st1 new w
    assume 1: "collecting inv free env s st1 (new @ ts) (Q \<union> Root ` set (i # is) - {Root i})"
      "only_writes (Root i) st st1" "length new + unmoved s st1 \<le> unmoved s st"
    have c1: "collecting inv free env s st1 (new @ ts) (Q \<union> Root ` set is)"
      by (rule collecting_mono [OF 1(1)]) auto
    have le: "forwarded st \<subseteq>\<^sub>m forwarded st1" using 1(2) by (simp add: only_writes_def)
    have keep: "get_place st1 q = Some u" if "get_place st q = Some u" "q \<noteq> Root i" for q u
      using 1(2) that by (simp add: only_writes_def)
    have "stops (oldify_roots env alloc is st1)
      (\<lambda>st'. advanced inv free env s (new @ ts) Q st1 st' \<and> (\<forall>q\<in>R. get_place st' q = Some (val_at q)))"
    proof (rule Cons.IH [OF c1])
      show "\<forall>j\<in>set is. j < length (roots s) \<and> get_place st1 (Root j) = Some (roots s ! j)"
        using Cons.prems(2,3) keep by auto
      show "\<forall>q\<in>R. settled s q \<and> q \<notin> range Root \<and> get_place st1 q = Some (val_at q)"
        using Cons.prems(4) keep by blast
    qed (use Cons.prems(2) in simp)
    then show "stops (oldify_roots env alloc is st1)
        (\<lambda>st'. advanced inv free env s ts Q st st' \<and> (\<forall>q\<in>R. get_place st' q = Some (val_at q)))"
      by (rule stops_mono) (use advanced_trans [OF 1(1) le 1(3)] in blast)
  qed
qed

text \<open>A reference may be in the table more than once; its place is open until the first.\<close>

lemma oldify_refs_correct:
  assumes "collecting inv free env s st ts Q"
    "\<forall>q\<in>set rs. settled s q"
    "\<forall>q\<in>set rs. if q \<in> Q then \<exists>v. stands s (forwarded st) q v \<and> get_place st q = Some v \<and> value_ok free s v
       else \<exists>v. get_place st q = Some v \<and> \<not> is_young_value s v"
    "Q \<subseteq> set rs"
  shows "stops (oldify_refs env alloc rs st) (advanced inv free env s ts {} st)"
  using assms
proof (induction rs arbitrary: st ts Q)
  case Nil
  then show ?case by (auto simp: advanced_def intro: exI [of _ "[]"])
next
  case (Cons p rs)
  note c = Cons.prems(1)
  have nt: "p \<notin> todo_places (forwarded st) ts" by (rule settled_not_todo [OF c]) (use Cons.prems(2) in simp)
  show ?case
  proof (cases "p \<in> Q")
    case False
    then obtain v where v: "get_place st p = Some v" "\<not> is_young_value s v" using Cons.prems(3) by auto
    then have "caml_oldify_one env alloc v p st = Some (Inr st)"
      using not_young_oldify [of st v p] is_young_value_collecting [OF c] by simp
    then have "oldify_refs env alloc (p # rs) st = oldify_refs env alloc rs st" using v(1) by simp
    then show ?thesis using Cons.IH [OF c] Cons.prems(2-4) False by auto
  next
    case True
    then obtain v where v: "stands s (forwarded st) p v" "get_place st p = Some v" "value_ok free s v" using Cons.prems(3) by auto
    have step: "oldify_refs env alloc (p # rs) st =
        Option.bind (caml_oldify_one env alloc v p st) (\<lambda>x. case x of Inl e \<Rightarrow> Some (Inl e) | Inr st \<Rightarrow> oldify_refs env alloc rs st)"
      using v(2) by simp
    show ?thesis
      unfolding step
    proof (rule stops_bind [OF oldify_place [OF c True nt v(1,3)]], elim exE conjE)
      fix st1 new w
      assume 1: "collecting inv free env s st1 (new @ ts) (Q - {p})" "only_writes p st st1"
        "length new + unmoved s st1 \<le> unmoved s st" "get_place st1 p = Some w" "\<not> is_young_value s w"
      have le: "forwarded st \<subseteq>\<^sub>m forwarded st1" using 1(2) by (simp add: only_writes_def)
      have keep: "get_place st1 q = Some u" if "get_place st q = Some u" "q \<noteq> p" for q u
        using 1(2) that by (simp add: only_writes_def)
      have "stops (oldify_refs env alloc rs st1) (advanced inv free env s (new @ ts) {} st1)"
      proof (rule Cons.IH [OF 1(1)])
        show "\<forall>q\<in>set rs. if q \<in> Q - {p} then \<exists>v. stands s (forwarded st1) q v \<and> get_place st1 q = Some v \<and> value_ok free s v
            else \<exists>v. get_place st1 q = Some v \<and> \<not> is_young_value s v"
        proof
          fix q assume q: "q \<in> set rs"
          show "if q \<in> Q - {p} then \<exists>v. stands s (forwarded st1) q v \<and> get_place st1 q = Some v \<and> value_ok free s v
            else \<exists>v. get_place st1 q = Some v \<and> \<not> is_young_value s v"
          proof (cases "q = p")
            case True
            then show ?thesis using 1(4,5) by simp
          next
            case False
            have "if q \<in> Q then \<exists>v. stands s (forwarded st) q v \<and> get_place st q = Some v \<and> value_ok free s v
              else \<exists>v. get_place st q = Some v \<and> \<not> is_young_value s v" using Cons.prems(3) q by simp
            then show ?thesis using False keep stands_mono [OF _ le] by (auto simp del: stands.simps split: if_splits)
          qed
        qed
      qed (use Cons.prems(2,4) in auto)
      then show "stops (oldify_refs env alloc rs st1) (advanced inv free env s ts {} st)"
        by (rule stops_mono) (rule advanced_trans [OF 1(1) le 1(3)])
    qed
  qed
qed

end

end
