(* ===== verification/Minor_Gc_Spec.thy ===== *)
theory Minor_Gc_Spec
  imports Minor_Gc_Loops
begin

text \<open>
  What a minor collection does as a whole, and that \<open>caml_empty_minor_heap\<close> does it or runs out of
  memory.
\<close>

section \<open>The specification\<close>

text \<open>What a field of a weak array becomes.\<close>

definition weak_value :: "minor_env \<Rightarrow> 's minor \<Rightarrow> (addr \<Rightarrow> addr option) \<Rightarrow> val \<Rightarrow> val" where
  "weak_value env s copy v =
     (case v of
        Long n \<Rightarrow> v
      | Ptr a \<Rightarrow> if Is_young s a then (case copy a of Some b \<Rightarrow> Ptr b | None \<Rightarrow> caml_weak_none env) else v)"

text \<open>
  The young blocks in the domain of \<open>copy\<close> have copies in memory that was free; the values of the
  roots, of the old blocks and of the copies are the images of what they were.
\<close>

definition collected :: "('s \<Rightarrow> bool) \<Rightarrow> ('s \<Rightarrow> addr set) \<Rightarrow> minor_env \<Rightarrow> 's minor \<Rightarrow> 's minor \<Rightarrow> bool" where
  "collected ok free env s s' \<longleftrightarrow>
     (\<exists>copy.
        inj_on copy (dom copy) \<and>
        (\<forall>y r. copy y = Some r \<longrightarrow>
           (\<exists>b b'. young s y = Some b \<and> major s' r = Some b' \<and> copied_block env s copy b b' \<and>
              {r ..< r + wosize_of b} \<subseteq> free (shared s) - free (shared s'))) \<and>
        list_all2 (val_image env s copy) (roots s) (roots s') \<and>
        (\<forall>a t fs. major s a = Some (Scannable t fs) \<and> t < No_scan_tag \<longrightarrow>
           (\<exists>gs. major s' a = Some (Scannable t gs) \<and> list_all2 (val_image env s copy) fs gs)) \<and>
        (\<forall>a t fs. major s a = Some (Scannable t fs) \<and> No_scan_tag \<le> t \<longrightarrow>
           major s' a = Some (Scannable t (map (weak_value env s copy) fs))) \<and>
        (\<forall>a b. major s a = Some b \<and> (\<forall>t fs. b \<noteq> Scannable t fs) \<longrightarrow> major s' a = Some b) \<and>
        (\<forall>a t fs. major s' a = Some (Scannable t fs) \<longrightarrow> a \<in> dom (major s) \<or> a \<in> ran copy)) \<and>
     minor_ok ok free s' \<and> young s' = Map.empty \<and> young_ptr s' = young_end s' \<and>
     young_start s' = young_start s \<and> young_end s' = young_end s \<and>
     entries (caml_ref_table s') = [] \<and> entries (caml_weak_ref_table s') = []"

section \<open>Weak references\<close>

lemma weak_value_old: "\<not> is_young_value s v \<Longrightarrow> weak_value env s copy v = v"
  by (simp add: weak_value_def is_young_value_def split: val.splits)

lemma clean_weak_refs_correct:
  assumes "\<forall>q\<in>set rs. get_place st q \<noteq> None \<and> q \<notin> range Root"
    and none: "\<forall>v. \<not> is_young_value st (weak_value env st (forwarded st) v)"
  shows "\<exists>st'. clean_weak_refs env rs st = Some st' \<and> st' = st\<lparr>major := major st'\<rparr> \<and>
    (\<forall>q. get_place st' q = (if q \<in> set rs then map_option (weak_value env st (forwarded st)) (get_place st q) else get_place st q)) \<and>
    (\<forall>a. major st' a = major st a \<or> (\<exists>i t fs gs. Field a i \<in> set rs \<and> major st a = Some (Scannable t fs) \<and>
       major st' a = Some (Scannable t gs) \<and> length gs = length fs))"
  using assms
proof (induction rs arbitrary: st)
  case (Cons p rs)
  let ?W = "weak_value env st (forwarded st)"
  obtain v where v: "get_place st p = Some v" using Cons.prems(1) by auto
  obtain st1 where 1: "set_place p (?W v) st = Some st1" "get_place st1 p = Some (?W v)"
    "\<And>q. q \<noteq> p \<Longrightarrow> get_place st1 q = get_place st q"
    "st1 = st\<lparr>roots := roots st1, major := major st1\<rparr>" "length (roots st1) = length (roots st)"
    "\<And>a. major st1 a = major st a \<or> (\<exists>i t fs gs. p = Field a i \<and> major st a = Some (Scannable t fs) \<and>
        major st1 a = Some (Scannable t gs) \<and> length gs = length fs)"
    using get_set_place [of st p "?W v"] v by auto
  have m: "st1 = st\<lparr>major := major st1\<rparr>"
    using 1(1) Cons.prems(1) by (auto simp: set_place_def split: place.splits option.splits block.splits if_splits)
  have w: "weak_value env st1 (forwarded st1) = ?W"
    by (subst m, subst (2) m) (simp add: weak_value_def Is_young_def fun_eq_iff split: val.split)
  have y: "is_young_value st1 = is_young_value st"
    by (subst m) (auto simp: is_young_value_def Is_young_def fun_eq_iff split: val.split)
  have step: "clean_weak_refs env (p # rs) st = clean_weak_refs env rs st1"
  proof -
    have "set_place p v st = Some st" using v by (rule set_place_same)
    then show ?thesis using v 1(1) by (auto simp: weak_value_def split: val.splits if_splits)
  qed
  have idem: "?W (?W v) = ?W v"
    using Cons.prems(2) by (simp add: weak_value_old)
  have "get_place st1 q \<noteq> None \<and> q \<notin> range Root" if "q \<in> set rs" for q
    using Cons.prems(1) that 1(2,3) by (cases "q = p") auto
  then have "\<forall>q\<in>set rs. get_place st1 q \<noteq> None \<and> q \<notin> range Root" by blast
  then obtain st2 where 2: "clean_weak_refs env rs st1 = Some st2" "st2 = st1\<lparr>major := major st2\<rparr>"
    "\<forall>q. get_place st2 q = (if q \<in> set rs then map_option ?W (get_place st1 q) else get_place st1 q)"
    "\<forall>a. major st2 a = major st1 a \<or> (\<exists>i t fs gs. Field a i \<in> set rs \<and> major st1 a = Some (Scannable t fs) \<and>
       major st2 a = Some (Scannable t gs) \<and> length gs = length fs)"
    using Cons.IH [of st1] Cons.prems(2) unfolding w y by blast
  have f1: "st2 = st\<lparr>major := major st2\<rparr>" by (subst 2(2), subst m) simp
  have f2: "get_place st2 q = (if q \<in> set (p # rs) then map_option ?W (get_place st q) else get_place st q)" for q
    using 2(3) 1(2,3) v idem by (cases "q = p") auto
  have f3: "major st2 a = major st a \<or> (\<exists>i t fs gs. Field a i \<in> set (p # rs) \<and> major st a = Some (Scannable t fs) \<and>
       major st2 a = Some (Scannable t gs) \<and> length gs = length fs)" for a
    using 1(6) [of a] 2(4) [rule_format, of a]
    by (metis (no_types, lifting) block.inject(1) list.set_intros(1,2) option.inject)
  show ?case
    by (intro exI [of _ st2] conjI allI) (rule trans [OF step 2(1)], rule f1, rule f2, rule f3)
qed simp

section \<open>The end of a collection\<close>

text \<open>A copied value points outside the free memory.\<close>

lemma image_value_ok:
  assumes c: "collecting ok free env s st ts Q" and i: "val_image env s (forwarded st) v w" and v: "value_ok free s v"
  shows "case w of Long n \<Rightarrow> True | Ptr a \<Rightarrow> a \<notin> free (shared st)"
proof -
  have ok: "minor_ok ok free s" and fr: "free (shared st) \<subseteq> free (shared s)" using c by (simp_all add: collecting_def)
  have ok': "young_block_ok free s a b" if "young s a = Some b" for a b using ok that unfolding minor_ok_def by blast
  have moved: "b + n \<notin> free (shared st)" if f: "forwarded st a = Some b" and n: "\<forall>blk. young s a = Some blk \<longrightarrow> n < wosize_of blk" for a b n
  proof -
    obtain blk where blk: "young s a = Some blk" "{b ..< b + wosize_of blk} \<subseteq> free (shared s) - free (shared st)"
      by (rule copy_fresh [OF c f])
    then have "b + n \<in> {b ..< b + wosize_of blk}" using n by simp
    then show ?thesis using blk(2) by blast
  qed
  have fv: "value_ok free s (follow env s v)"
  proof (cases "follow env s v = v")
    case False
    then obtain a t f fs where a: "young s a = Some (Scannable t (f # fs))" "follow env s v = f"
      by (auto simp: follow_def split: val.splits if_splits option.splits block.splits list.splits)
    then show ?thesis using ok' [OF a(1)] by simp
  qed (use v in simp)
  show ?thesis
  proof (cases "\<exists>a. follow env s v = Ptr a \<and> Is_young s a")
    case False
    then show ?thesis using i fv fr by (auto simp: val_image_def value_ok_def split: val.splits)
  next
    case True
    then obtain a where a: "follow env s v = Ptr a" "Is_young s a" by blast
    show ?thesis
    proof (cases "\<exists>n. young s a = Some (Infix n)")
      case True
      then obtain n where n: "young s a = Some (Infix n)" by blast
      then obtain b where b: "forwarded st (a - n) = Some b" "w = Ptr (b + n)" using i a by (auto simp: val_image_def)
      have "\<forall>blk. young s (a - n) = Some blk \<longrightarrow> n < wosize_of blk" using ok' [OF n] by auto
      then show ?thesis using moved [OF b(1), of n] b(2) by simp
    next
      case False
      then obtain b where b: "forwarded st a = Some b" "w = Ptr b"
        using i a by (auto simp: val_image_def split: option.splits block.splits)
      obtain blk where "young s a = Some blk" "0 < wosize_of blk" by (rule copy_fresh [OF c b(1)])
      then show ?thesis using moved [OF b(1), of 0] b(2) by simp
    qed
  qed
qed

text \<open>The fields of the old blocks and of the copies once no place is open.\<close>

lemma collected_fields:
  assumes c: "collecting ok free env s st [] {}"
    and b: "major s a = Some (Scannable t fs) \<and> t < No_scan_tag \<or> (\<exists>y. forwarded st y = Some a \<and> young s y = Some (Scannable t fs))"
  shows "\<exists>gs. major st a = Some (Scannable t gs) \<and> list_all2 (val_image env s (forwarded st)) fs gs"
proof -
  have "same_shape (Scannable t fs) (major st a)"
    using b
  proof
    assume "major s a = Some (Scannable t fs) \<and> t < No_scan_tag"
    moreover from this have "if untouched (Scannable t fs) then major st a = Some (Scannable t fs) else same_shape (Scannable t fs) (major st a)"
      using c unfolding collecting_def by blast
    ultimately show ?thesis by (simp add: untouched_def)
  next
    assume "\<exists>y. forwarded st y = Some a \<and> young s y = Some (Scannable t fs)"
    then obtain y where y: "forwarded st y = Some a" "young s y = Some (Scannable t fs)" by blast
    obtain x where "young s y = Some x" "same_shape x (major st a)" by (rule copy_fresh [OF c y(1)])
    then show ?thesis using y by simp
  qed
  then obtain gs where gs: "major st a = Some (Scannable t gs)" "length gs = length fs" by auto
  have "val_image env s (forwarded st) (fs ! i) (gs ! i)" if i: "i < length fs" for i
  proof -
    have "stands s (forwarded st) (Field a i) (fs ! i)" unfolding stands.simps using b i by blast
    moreover have "\<forall>q v. stands s (forwarded st) q v \<longrightarrow> q \<in> {} \<or> q \<in> todo_places (forwarded st) [] \<or>
        (\<exists>w. get_place st q = Some w \<and> val_image env s (forwarded st) v w)"
      using c unfolding collecting_def by blast
    ultimately obtain w where "get_place st (Field a i) = Some w" "val_image env s (forwarded st) (fs ! i) w"
      unfolding todo_places_simps(1) by blast
    then show ?thesis using gs i by (simp add: get_place_def)
  qed
  then show ?thesis using gs by (auto simp: list_all2_conv_all_nth)
qed

lemma weak_value_not_young:
  assumes c: "collecting ok free env s st ts Q" and n: "\<not> is_young_value s (caml_weak_none env)"
  shows "\<not> is_young_value s (weak_value env s (forwarded st) v)"
proof (cases "\<exists>a b. v = Ptr a \<and> Is_young s a \<and> forwarded st a = Some b")
  case True
  then obtain a b where a: "v = Ptr a" "Is_young s a" "forwarded st a = Some b" by blast
  have ok: "minor_ok ok free s" using c by (simp add: collecting_def)
  have "b \<in> free (shared s)" by (rule copy_fresh [OF c a(3)])
  then have "\<not> Is_young s b" using ok unfolding minor_ok_def by blast
  then show ?thesis using a by (simp add: weak_value_def is_young_value_def)
next
  case False
  then show ?thesis using n by (auto simp: weak_value_def is_young_value_def split: val.splits option.splits)
qed

text \<open>The weak references have been cleaned.\<close>

definition cleaned :: "minor_env \<Rightarrow> 's minor \<Rightarrow> 's minor \<Rightarrow> 's minor \<Rightarrow> bool" where
  "cleaned env s st st' \<longleftrightarrow>
     st' = st\<lparr>major := major st'\<rparr> \<and>
     (\<forall>q. get_place st' q =
        (if q \<in> set (entries (caml_weak_ref_table s)) then map_option (weak_value env s (forwarded st)) (get_place st q)
         else get_place st q)) \<and>
     (\<forall>a. major st' a = major st a \<or> (\<exists>i t fs gs. Field a i \<in> set (entries (caml_weak_ref_table s)) \<and>
        major st a = Some (Scannable t fs) \<and> major st' a = Some (Scannable t gs) \<and> length gs = length fs))"

lemma collecting_old:
  assumes "collecting ok free env s st ts Q" "major s a = Some b"
  shows "if untouched b then major st a = Some b else same_shape b (major st a)"
  using assms unfolding collecting_def by blast

lemma weak_entry:
  assumes "collecting ok free env s st ts Q" "q \<in> set (entries (caml_weak_ref_table s))"
  obtains a t fs i where "q = Field a i" "major s a = Some (Scannable t fs)" "No_scan_tag \<le> t" "i < length fs"
    "major st a = Some (Scannable t fs)"
proof -
  have "minor_ok ok free s" using assms(1) by (simp add: collecting_def)
  then obtain a t fs i where q: "q = Field a i" "major s a = Some (Scannable t fs)" "No_scan_tag \<le> t" "i < length fs"
    using assms(2) unfolding minor_ok_def by blast
  moreover have "major st a = Some (Scannable t fs)"
    using collecting_old [OF assms(1) q(2)] q(3) by (simp add: untouched_def)
  ultimately show ?thesis using that by blast
qed

lemma clean_collecting:
  assumes c: "collecting ok free env s st [] {}" and none: "\<not> is_young_value s (caml_weak_none env)"
  obtains st' where "clean_weak_refs env (entries (caml_weak_ref_table st)) st = Some st'" "cleaned env s st st'"
proof -
  let ?E = "entries (caml_weak_ref_table s)"
  have ys: "Is_young st = Is_young s" "is_young_value st = is_young_value s" and E: "caml_weak_ref_table st = caml_weak_ref_table s"
    using c Is_young_collecting [OF c] is_young_value_collecting [OF c] by (auto simp: collecting_def)
  have w: "weak_value env st (forwarded st) = weak_value env s (forwarded st)"
    by (simp add: weak_value_def fun_eq_iff ys(1) split: val.split)
  have get: "get_place st q \<noteq> None \<and> q \<notin> range Root" if q: "q \<in> set ?E" for q
    by (rule weak_entry [OF c q]) (auto simp: get_place_def)
  have "\<not> is_young_value st (weak_value env st (forwarded st) v)" for v
    unfolding w ys by (rule weak_value_not_young [OF c none])
  with get show ?thesis
    using clean_weak_refs_correct [of ?E st env] that unfolding w E cleaned_def by blast
qed

lemma cleaned_same:
  assumes c: "collecting ok free env s st [] {}" and cl: "cleaned env s st st'"
    and a: "\<forall>t fs. major s a = Some (Scannable t fs) \<longrightarrow> t < No_scan_tag"
  shows "major st' a = major st a"
proof -
  have "Field a i \<notin> set (entries (caml_weak_ref_table s))" for i
    using weak_entry [OF c, of "Field a i"] a by (metis not_le place.inject(2))
  then show ?thesis using cl unfolding cleaned_def by blast
qed

lemma cleaned_weak:
  assumes c: "collecting ok free env s st [] {}" and cl: "cleaned env s st st'"
    and a: "major s a = Some (Scannable t fs)" "No_scan_tag \<le> t"
  shows "major st' a = Some (Scannable t (map (weak_value env s (forwarded st)) fs))"
proof -
  let ?E = "entries (caml_weak_ref_table s)" and ?W = "weak_value env s (forwarded st)"
  have m: "major st a = Some (Scannable t fs)" using collecting_old [OF c a(1)] a(2) by (simp add: untouched_def)
  have "major st' a = major st a \<or> (\<exists>i t fs gs. Field a i \<in> set ?E \<and> major st a = Some (Scannable t fs) \<and>
      major st' a = Some (Scannable t gs) \<and> length gs = length fs)" using cl unfolding cleaned_def by blast
  then obtain gs where gs: "major st' a = Some (Scannable t gs)" "length gs = length fs" using m by auto
  have get: "get_place st' q = (if q \<in> set ?E then map_option ?W (get_place st q) else get_place st q)" for q
    using cl unfolding cleaned_def by blast
  have "gs ! i = ?W (fs ! i)" if i: "i < length fs" for i
  proof (cases "Field a i \<in> set ?E")
    case True
    then show ?thesis using get [of "Field a i"] gs m i by (simp add: get_place_def)
  next
    case False
    then have "gs ! i = fs ! i" using get [of "Field a i"] gs m i by (simp add: get_place_def)
    moreover have "\<not> is_young_value s (fs ! i)"
    proof
      assume y: "is_young_value s (fs ! i)"
      have ok: "minor_ok ok free s" using c by (simp add: collecting_def)
      have "Field a i \<in> set (entries (if t < No_scan_tag then caml_ref_table s else caml_weak_ref_table s))"
        using ok a(1) i y unfolding minor_ok_def by blast
      then show False using False a(2) by simp
    qed
    ultimately show ?thesis by (simp add: weak_value_old)
  qed
  then have "gs = map ?W fs" using gs(2) by (intro nth_equalityI) simp_all
  then show ?thesis using gs(1) by simp
qed

lemma cleaned_fields:
  assumes c: "collecting ok free env s st [] {}" and cl: "cleaned env s st st'"
    and a: "major s a = Some (Scannable t fs)" "t < No_scan_tag"
  shows "\<exists>gs. major st' a = Some (Scannable t gs) \<and> list_all2 (val_image env s (forwarded st)) fs gs"
  using collected_fields [OF c, of a t fs] cleaned_same [OF c cl, of a] a by auto

lemma cleaned_other:
  assumes c: "collecting ok free env s st [] {}" and cl: "cleaned env s st st'"
    and a: "major s a = Some b" "\<forall>t fs. b \<noteq> Scannable t fs"
  shows "major st' a = Some b"
  using collecting_old [OF c a(1)] cleaned_same [OF c cl, of a] a by (cases b) (auto simp: untouched_def)

lemma cleaned_copy:
  assumes c: "collecting ok free env s st [] {}" and cl: "cleaned env s st st'" and f: "forwarded st y = Some r"
  shows "\<exists>b b'. young s y = Some b \<and> major st' r = Some b' \<and> copied_block env s (forwarded st) b b' \<and>
    {r ..< r + wosize_of b} \<subseteq> free (shared s) - free (shared st)"
proof -
  obtain b where b: "young s y = Some b" "\<forall>n. b \<noteq> Infix n" "same_shape b (major st r)"
    "{r ..< r + wosize_of b} \<subseteq> free (shared s) - free (shared st)" "r \<notin> dom (major s)"
    by (rule copy_fresh [OF c f])
  have m: "major st' r = major st r" by (rule cleaned_same [OF c cl]) (use b(5) in auto)
  have "\<exists>b'. major st r = Some b' \<and> copied_block env s (forwarded st) b b'"
  proof (cases b)
    case (Scannable t fs)
    then show ?thesis using collected_fields [OF c, of r t fs] f b(1) by auto
  qed (use b(2,3) in auto)
  then show ?thesis using b m by auto
qed

lemma cleaned_scannable:
  assumes c: "collecting ok free env s st [] {}" and cl: "cleaned env s st st'" and a: "major st' a = Some (Scannable t fs)"
  shows "a \<in> dom (major s) \<or> a \<in> ran (forwarded st)"
proof -
  have "\<exists>t fs. major st a = Some (Scannable t fs)" using cl a unfolding cleaned_def by metis
  then show ?thesis using c unfolding collecting_def by blast
qed

lemma collected_roots:
  assumes c: "collecting ok free env s st [] {}"
  shows "list_all2 (val_image env s (forwarded st)) (roots s) (roots st)"
proof -
  have "val_image env s (forwarded st) (roots s ! i) (roots st ! i)" if "i < length (roots s)" for i
  proof -
    have "stands s (forwarded st) (Root i) (roots s ! i)" using that by simp
    moreover have "\<forall>q v. stands s (forwarded st) q v \<longrightarrow> q \<in> {} \<or> q \<in> todo_places (forwarded st) [] \<or>
        (\<exists>w. get_place st q = Some w \<and> val_image env s (forwarded st) v w)"
      using c unfolding collecting_def by blast
    ultimately obtain w where "get_place st (Root i) = Some w" "val_image env s (forwarded st) (roots s ! i) w"
      unfolding todo_places_simps(1) by blast
    then show ?thesis by (simp add: get_place_def split: if_splits)
  qed
  then show ?thesis using c by (simp add: list_all2_conv_all_nth collecting_def)
qed

section \<open>The state after a collection\<close>

text \<open>A value the mutator may hold once the minor heap is empty.\<close>

definition settled_value :: "('s \<Rightarrow> addr set) \<Rightarrow> 's minor \<Rightarrow> 's minor \<Rightarrow> val \<Rightarrow> bool" where
  "settled_value free s st v \<longleftrightarrow> \<not> is_young_value s v \<and> (case v of Long n \<Rightarrow> True | Ptr a \<Rightarrow> a \<notin> free (shared st))"

lemma settled_image:
  assumes "collecting ok free env s st ts Q" "val_image env s (forwarded st) v w" "value_ok free s v"
  shows "settled_value free s st w"
  using image_not_young [OF assms(1,2)] image_value_ok [OF assms] by (simp add: settled_value_def)

lemma settled_list:
  assumes c: "collecting ok free env s st ts Q" and "list_all2 (val_image env s (forwarded st)) fs gs" "\<forall>f\<in>set fs. value_ok free s f"
  shows "\<forall>w\<in>set gs. settled_value free s st w"
proof
  fix w assume "w \<in> set gs"
  then obtain i where i: "i < length gs" "w = gs ! i" by (auto simp: in_set_conv_nth)
  then have "val_image env s (forwarded st) (fs ! i) w" "fs ! i \<in> set fs" using assms(2) by (auto simp: list_all2_conv_all_nth)
  then show "settled_value free s st w" using settled_image [OF c] assms(3) by blast
qed

lemma settled_weak:
  assumes c: "collecting ok free env s st ts Q" and v: "value_ok free s v"
    and none: "\<not> is_young_value s (caml_weak_none env)" "value_ok free s (caml_weak_none env)"
  shows "settled_value free s st (weak_value env s (forwarded st) v)"
proof (cases "\<exists>a b. v = Ptr a \<and> Is_young s a \<and> forwarded st a = Some b")
  case True
  then obtain a b where a: "v = Ptr a" "Is_young s a" "forwarded st a = Some b" by blast
  then have "weak_value env s (forwarded st) v = Ptr b" by (simp add: weak_value_def)
  then show ?thesis using settled_image [OF c image_moved [OF c a(3)]] v a(1) by simp
next
  case False
  have "free (shared st) \<subseteq> free (shared s)" using c by (simp add: collecting_def)
  then show ?thesis
    using False v none
    by (auto simp: settled_value_def weak_value_def value_ok_def is_young_value_def split: val.splits option.splits)
qed

lemma settled_fields:
  assumes c: "collecting ok free env s st [] {}" and cl: "cleaned env s st st'"
    and none: "\<not> is_young_value s (caml_weak_none env)" "value_ok free s (caml_weak_none env)"
    and gs: "major st' a = Some (Scannable t gs)"
  shows "\<forall>w\<in>set gs. settled_value free s st w"
  using cleaned_scannable [OF c cl gs]
proof
  have ok: "minor_ok ok free s" using c by (simp add: collecting_def)
  assume "a \<in> dom (major s)"
  then obtain b where b: "major s a = Some b" by blast
  show ?thesis
  proof (cases b)
    case (Scannable t' fs)
    have v: "\<forall>f\<in>set fs. value_ok free s f" using ok b Scannable unfolding minor_ok_def by blast
    show ?thesis
    proof (cases "t' < No_scan_tag")
      case True
      then show ?thesis using cleaned_fields [OF c cl, of a t' fs] b Scannable gs settled_list [OF c _ v] by auto
    next
      case False
      then show ?thesis using cleaned_weak [OF c cl, of a t' fs] b Scannable gs settled_weak [OF c _ none] v by auto
    qed
  qed (use cleaned_other [OF c cl b] gs in auto)
next
  assume "a \<in> ran (forwarded st)"
  then obtain y where y: "forwarded st y = Some a" by (auto simp: ran_def)
  then obtain b b' where b: "young s y = Some b" "major st' a = Some b'" "copied_block env s (forwarded st) b b'"
    using cleaned_copy [OF c cl y] by blast
  have ok: "minor_ok ok free s" using c by (simp add: collecting_def)
  have yb: "young_block_ok free s y b" using ok b(1) unfolding minor_ok_def by blast
  show ?thesis
  proof (cases b)
    case (Scannable t' fs)
    then show ?thesis using yb b gs settled_list [OF c] by auto
  qed (use b gs in auto)
qed

lemma finish_ok:
  assumes c: "collecting ok free env s st [] {}" and cl: "cleaned env s st st'"
    and none: "\<not> is_young_value s (caml_weak_none env)" "value_ok free s (caml_weak_none env)"
    and s': "shared s' = shared st" "major s' = major st'" "roots s' = roots st" "young s' = Map.empty" "forwarded s' = Map.empty"
      "young_start s' = young_start s" "young_end s' = young_end s" "oldify_todo_list s' = 0"
      "entries (caml_ref_table s') = []" "entries (caml_weak_ref_table s') = []"
  shows "minor_ok ok free s'"
proof -
  have Y: "Is_young s' = Is_young s" "is_young_value s' = is_young_value s"
    using s'(6,7) by (auto simp: Is_young_def is_young_value_def fun_eq_iff split: val.split)
  have good: "value_ok free s' v \<and> \<not> is_young_value s' v" if "settled_value free s st v" for v
    using that s'(1) Y by (auto simp: settled_value_def value_ok_def is_young_value_def split: val.splits)
  have fields: "\<forall>w\<in>set gs. value_ok free s' w \<and> \<not> is_young_value s' w" if "major s' a = Some (Scannable t gs)" for a t gs
    using settled_fields [OF c cl none, of a t gs] good that s'(2) by auto
  have ok: "minor_ok ok free s" using c by (simp add: collecting_def)
  have "\<forall>v\<in>set (roots s). value_ok free s v" using ok by (simp add: minor_ok_def)
  then have roots: "\<forall>v\<in>set (roots s'). value_ok free s' v" using settled_list [OF c collected_roots [OF c]] good s'(3) by auto
  have dom: "dom (major s') = dom (major st)"
  proof -
    have "major st' a = None \<longleftrightarrow> major st a = None" for a using cl unfolding cleaned_def by (metis option.distinct(1))
    then show ?thesis by (auto simp: dom_def s'(2))
  qed
  have mem: "ok (shared s')" "free (shared s') \<subseteq> free (shared s)" "dom (major s') \<inter> free (shared s') = {}"
    "dom (major s') - dom (major s) \<subseteq> free (shared s)"
    using c unfolding dom s'(1) by (simp_all add: collecting_def)
  have yo: "a \<notin> free (shared s) \<and> a \<notin> dom (major s)" if "Is_young s a" for a using ok that unfolding minor_ok_def by blast
  have free: "\<forall>a. Is_young s' a \<longrightarrow> a \<notin> free (shared s') \<and> a \<notin> dom (major s')" using yo mem(2,4) unfolding Y by blast
  have none: "\<not> (major s' a = Some (Scannable t fs) \<and> i < length fs \<and> is_young_value s' (fs ! i))" for a t fs i
    using fields nth_mem by metis
  show ?thesis
    unfolding minor_ok_def using mem(1,3) free roots fields none by (simp add: s'(4,5,8-10))
qed

lemma finish_collected:
  assumes c: "collecting ok free env s st [] {}" and cl: "cleaned env s st st'"
    and none: "\<not> is_young_value s (caml_weak_none env)" "value_ok free s (caml_weak_none env)"
  shows "collected ok free env s (finish_minor st'\<lparr>final_old := n\<rparr>)"
proof -
  let ?s' = "finish_minor st'\<lparr>final_old := n\<rparr>"
  have m: "st' = st\<lparr>major := major st'\<rparr>" using cl unfolding cleaned_def by blast
  have same: "shared st' = shared st" "roots st' = roots st" "young_start st' = young_start s"
    "young_end st' = young_end s" "oldify_todo_list st' = 0"
    using c by (subst m, simp add: collecting_def)+
  have s': "shared ?s' = shared st" "major ?s' = major st'" "roots ?s' = roots st" "young ?s' = Map.empty" "forwarded ?s' = Map.empty"
    "young_start ?s' = young_start s" "young_end ?s' = young_end s" "oldify_todo_list ?s' = 0"
    "entries (caml_ref_table ?s') = []" "entries (caml_weak_ref_table ?s') = []" "young_ptr ?s' = young_end s"
    by (simp_all add: finish_minor_def clear_table_def same Let_def)
  have "minor_ok ok free ?s'" by (rule finish_ok [OF c cl none s'(1-10)])
  moreover have "inj_on (forwarded st) (dom (forwarded st))" using c by (simp add: collecting_def)
  ultimately show ?thesis
    unfolding collected_def s'
    using cleaned_copy [OF c cl] collected_roots [OF c] cleaned_fields [OF c cl] cleaned_weak [OF c cl] cleaned_other [OF c cl]
      cleaned_scannable [OF c cl]
    by (intro conjI exI [of _ "forwarded st"]) blast+
qed

section \<open>The whole collection\<close>

text \<open>Before a collection the roots and the referenced fields are open, nothing else.\<close>

lemma start_collecting:
  assumes ok: "minor_ok ok free s"
  shows "collecting ok free env s s [] (set (entries (caml_ref_table s)) \<union> Root ` set [0..<length (roots s)])"
proof -
  have places: "q \<in> set (entries (caml_ref_table s)) \<union> Root ` set [0..<length (roots s)] \<or>
      (\<exists>w. get_place s q = Some w \<and> val_image env s (forwarded s) v w)" if st: "stands s (forwarded s) q v" for q v
  proof (cases q)
    case (Field a i)
    have "forwarded s = Map.empty" using ok by (simp add: minor_ok_def)
    then obtain t fs where a: "major s a = Some (Scannable t fs)" "t < No_scan_tag" "i < length fs" "v = fs ! i"
      using st Field by auto
    show ?thesis
    proof (cases "is_young_value s v")
      case True
      then have "Field a i \<in> set (entries (if t < No_scan_tag then caml_ref_table s else caml_weak_ref_table s))"
        using ok a unfolding minor_ok_def by blast
      then show ?thesis using a(2) Field by simp
    next
      case False
      then have "val_image env s (forwarded s) v v" by (intro image_other) (auto simp: is_young_value_def)
      then show ?thesis using a Field by (simp add: get_place_def)
    qed
  qed (use st in simp)
  have sh: "same_shape b (Some b)" for b by (cases b) auto
  have e: "forwarded s = Map.empty" "oldify_todo_list s = 0" "ok (shared s)" "dom (major s) \<inter> free (shared s) = {}"
    using ok by (simp_all add: minor_ok_def)
  show ?thesis
    unfolding collecting_def using ok sh e(2-4) places [unfolded e(1)] by (simp add: e(1)) blast
qed

context word_allocator
begin

lemma caml_empty_minor_heap_collects:
  assumes ok: "minor_ok inv free s" and ptr: "young_ptr s \<noteq> young_end s"
    and none: "\<not> is_young_value s (caml_weak_none env)" "value_ok free s (caml_weak_none env)"
  shows "stops (caml_empty_minor_heap env alloc s) (collected inv free env s)"
proof -
  let ?E = "entries (caml_ref_table s)" and ?n = "length (roots s)"
  have ref: "\<exists>a t fs i. q = Field a i \<and> major s a = Some (Scannable t fs) \<and> t < No_scan_tag \<and> i < length fs" if "q \<in> set ?E" for q
    using ok that unfolding minor_ok_def by blast
  have R: "\<forall>q\<in>set ?E. settled s q \<and> q \<notin> range Root \<and> get_place s q = Some (the (get_place s q))"
  proof
    fix q assume "q \<in> set ?E"
    from ref [OF this] show "settled s q \<and> q \<notin> range Root \<and> get_place s q = Some (the (get_place s q))"
      by (auto simp: settled_def get_place_def)
  qed
  have "stops (Option.bind (oldify_roots env alloc [0..<?n] s) (\<lambda>r. case r of Inl e \<Rightarrow> Some (Inl e) | Inr st \<Rightarrow>
          Option.bind (oldify_refs env alloc (entries (caml_ref_table st)) st) (\<lambda>r. case r of Inl e \<Rightarrow> Some (Inl e) | Inr st \<Rightarrow>
          Option.bind (caml_oldify_mopup env alloc st) (\<lambda>r. case r of Inl e \<Rightarrow> Some (Inl e) | Inr st \<Rightarrow>
          map_option (\<lambda>st. Inr (finish_minor st)) (clean_weak_refs env (entries (caml_weak_ref_table st)) st)))))
      (\<lambda>st. \<forall>n. collected inv free env s (st\<lparr>final_old := n\<rparr>))"
  proof (rule stops_bind [OF oldify_roots_correct [OF start_collecting [OF ok] _ _ R]])
    fix st1 assume "advanced inv free env s [] (set ?E) s st1 \<and> (\<forall>q\<in>set ?E. get_place st1 q = Some (the (get_place s q)))"
    then obtain ts where 1: "collecting inv free env s st1 ts (set ?E)" "\<forall>q\<in>set ?E. get_place st1 q = Some (the (get_place s q))"
      unfolding advanced_def by auto
    have E1: "entries (caml_ref_table st1) = ?E" using 1(1) by (simp add: collecting_def)
    have "stops (oldify_refs env alloc ?E st1) (advanced inv free env s ts {} st1)"
    proof (rule oldify_refs_correct [OF 1(1)])
      show "\<forall>q\<in>set ?E. if q \<in> set ?E then \<exists>v. stands s (forwarded st1) q v \<and> get_place st1 q = Some v \<and> value_ok free s v
          else \<exists>v. get_place st1 q = Some v \<and> \<not> is_young_value s v"
      proof
        fix q assume q: "q \<in> set ?E"
        from ref [OF this] obtain a t fs i where a: "q = Field a i" "major s a = Some (Scannable t fs)" "t < No_scan_tag" "i < length fs"
          by blast
        have "get_place s q = Some (fs ! i)" using a by (simp add: get_place_def)
        then have "get_place st1 q = Some (fs ! i)" using 1(2) q by simp
        moreover have "stands s (forwarded st1) q (fs ! i)" using a by auto
        moreover have "value_ok free s (fs ! i)" using ok a nth_mem unfolding minor_ok_def by blast
        ultimately show "if q \<in> set ?E then \<exists>v. stands s (forwarded st1) q v \<and> get_place st1 q = Some v \<and> value_ok free s v
          else \<exists>v. get_place st1 q = Some v \<and> \<not> is_young_value s v" using q by auto
      qed
    qed (use R in auto)
    then show "stops (Option.bind (oldify_refs env alloc (entries (caml_ref_table st1)) st1) (\<lambda>r. case r of Inl e \<Rightarrow> Some (Inl e) | Inr st \<Rightarrow>
          Option.bind (caml_oldify_mopup env alloc st) (\<lambda>r. case r of Inl e \<Rightarrow> Some (Inl e) | Inr st \<Rightarrow>
          map_option (\<lambda>st. Inr (finish_minor st)) (clean_weak_refs env (entries (caml_weak_ref_table st)) st))))
      (\<lambda>st. \<forall>n. collected inv free env s (st\<lparr>final_old := n\<rparr>))"
      unfolding E1
    proof (rule stops_bind)
      fix st2 assume "advanced inv free env s ts {} st1 st2"
      then obtain ts2 where 2: "collecting inv free env s st2 ts2 {}" unfolding advanced_def by blast
      show "stops (Option.bind (caml_oldify_mopup env alloc st2) (\<lambda>r. case r of Inl e \<Rightarrow> Some (Inl e) | Inr st \<Rightarrow>
          map_option (\<lambda>st. Inr (finish_minor st)) (clean_weak_refs env (entries (caml_weak_ref_table st)) st)))
        (\<lambda>st. \<forall>n. collected inv free env s (st\<lparr>final_old := n\<rparr>))"
      proof (rule stops_bind [OF caml_oldify_mopup_correct [OF 2]])
        fix st3 assume 3: "collecting inv free env s st3 [] {}"
        obtain st4 where "clean_weak_refs env (entries (caml_weak_ref_table st3)) st3 = Some st4" "cleaned env s st3 st4"
          by (rule clean_collecting [OF 3 none(1)])
        then show "stops (map_option (\<lambda>st. Inr (finish_minor st)) (clean_weak_refs env (entries (caml_weak_ref_table st3)) st3))
          (\<lambda>st. \<forall>n. collected inv free env s (st\<lparr>final_old := n\<rparr>))"
          using finish_collected [OF 3 _ none] by simp
      qed
    qed
  qed (auto simp: get_place_def)
  then show ?thesis
    unfolding caml_empty_minor_heap_def if_P [OF ptr] by (intro stops_outcome) (erule stops_mono, simp)
qed

end

end
