(* ===== verification/Minor_Gc_Heap.thy ===== *)
theory Minor_Gc_Heap
  imports Minor_Gc_Spec Freelist_Spec
begin

text \<open>
  The minor collector on the free list of the major heap (\<open>caml_alloc_shr\<close> on a heap that is not
  extended), and what it does with a weak pointer into a closure.
\<close>

section \<open>Allocation from the free list\<close>

text \<open>
  A young pair that points to itself, held by a root, and a young block that only the weak array at
  500 refers to, above a major heap with two free blocks.
\<close>

definition demo_env :: minor_env where
  "demo_env = \<lparr>static_tag = Map.empty, caml_weak_none = Ptr 4000, uninit = Long 1\<rparr>"

definition demo_minor :: "fl_state minor" where
  "demo_minor =
     \<lparr>young_start = 1000, young_end = 1100, young_ptr = 1090,
      young = [1091 \<mapsto> Scannable 0 [Long 7, Ptr 1091], 1095 \<mapsto> Scannable 0 [Long 3]],
      forwarded = Map.empty, major = [500 \<mapsto> Scannable No_scan_tag [Long 1, Ptr 1095]],
      roots = [Ptr 1091], oldify_todo_list = 0, caml_ref_table = empty_table,
      caml_weak_ref_table = empty_table\<lparr>entries := [Field 500 1]\<rparr>,
      shared = demo_fl, stat_minor_words = 0, final_old = 0, final_young = 0\<rparr>"

lemma demo_free: "free_set demo_fl = {9..<15} \<union> {19..<23}"
proof -
  have "fl_wf demo_fl [10, 20]" using demo_inv by (simp add: nf_inv_def)
  moreover have "mem demo_fl = demo_mem" by (simp add: demo_fl_def)
  ultimately show ?thesis
    by (simp add: free_set_eq free_words_def block_words_def)
qed

lemma demo_minor_ok: "minor_ok nf_ok free_set demo_minor"
proof -
  have "nf_ok demo_fl" using demo_inv by (auto simp: nf_ok_def)
  then show ?thesis
    unfolding minor_ok_def
    by (simp add: demo_minor_def demo_free Is_young_def value_ok_def is_young_value_def empty_table_def tag_defs
        less_Suc_eq nth_Cons' split: val.splits)
qed

text \<open>
  C1. With the major heap served by the free list, \<open>caml_empty_minor_heap\<close> always stops: out of
  memory, or with every copied young block in words that were free, its tag and fields those of
  the block, each pointer that was young replaced by the copy (infix pointers keep their
  offset, forwarding blocks are cut short where that is allowed), sharing kept since no two
  blocks share a copy; the roots and the fields of old blocks replaced in the same way, the
  fields of weak arrays by the copy if there is one and by \<open>caml_weak_none\<close> if not; no other block
  changed; the minor heap and the reference tables empty; and the state ready for the next
  collection.
\<close>

theorem caml_empty_minor_heap_copies:
  assumes "minor_ok nf_ok free_set s" "young_ptr s \<noteq> young_end s"
    "\<not> is_young_value s (caml_weak_none env)" "value_ok free_set s (caml_weak_none env)"
  shows "caml_empty_minor_heap env caml_fl_allocate s = Some (Inl Out_of_memory) \<or>
    (\<exists>s'. caml_empty_minor_heap env caml_fl_allocate s = Some (Inr s') \<and> collected nf_ok free_set env s s')"
  using word_allocator.caml_empty_minor_heap_collects [OF nf.word_allocator_axioms assms] by (simp add: stops_def)

theorem caml_empty_minor_heap_copies_witness:
  "caml_empty_minor_heap demo_env caml_fl_allocate demo_minor = Some (Inl Out_of_memory) \<or>
    (\<exists>s'. caml_empty_minor_heap demo_env caml_fl_allocate demo_minor = Some (Inr s') \<and> collected nf_ok free_set demo_env demo_minor s')"
proof (rule caml_empty_minor_heap_copies [OF demo_minor_ok])
  show "young_ptr demo_minor \<noteq> young_end demo_minor" by (simp add: demo_minor_def)
  show "\<not> is_young_value demo_minor (caml_weak_none demo_env)"
    by (simp add: demo_minor_def demo_env_def is_young_value_def Is_young_def)
  show "value_ok free_set demo_minor (caml_weak_none demo_env)"
    by (simp add: value_ok_def demo_env_def Is_young_def demo_minor_def demo_free)
qed

section \<open>A weak pointer into a closure\<close>

definition bump :: "nat \<Rightarrow> nat \<Rightarrow> (addr \<times> nat) option" where
  "bump n s = Some (s, s + n + 1)"

text \<open>
  A closure of two functions at 1091, its second function at 1093. The root and the weak array both
  hold the second function.
\<close>

definition weak_closure :: "nat minor" where
  "weak_closure =
     \<lparr>young_start = 1000, young_end = 1100, young_ptr = 1090,
      young = [1091 \<mapsto> Scannable Closure_tag [Ptr 4100, Long 3, Ptr 4200, Long 3], 1093 \<mapsto> Infix 2],
      forwarded = Map.empty, major = [500 \<mapsto> Scannable No_scan_tag [Long 1, Ptr 1093]],
      roots = [Ptr 1093], oldify_todo_list = 0, caml_ref_table = empty_table,
      caml_weak_ref_table = empty_table\<lparr>entries := [Field 500 1]\<rparr>,
      shared = 2000, stat_minor_words = 0, final_old = 0, final_young = 0\<rparr>"

lemma weak_pointer_into_closure_erased:
  "map_option (map_sum id (\<lambda>s. (roots s, major s 500, major s 2001))) (caml_empty_minor_heap demo_env bump weak_closure) =
     Some (Inr ([Ptr 2003], Some (Scannable No_scan_tag [Long 1, Ptr 4000]),
       Some (Scannable Closure_tag [Ptr 4100, Long 3, Ptr 4200, Long 3])))"
  by (simp add: caml_empty_minor_heap_def weak_closure_def get_place_def set_place_def is_young_value_def Is_young_def
      caml_oldify_one.simps caml_oldify_mopup.simps evacuate_def bump_def place_copy_def link_todo_def add_offset_def
      tag_defs Closure_tag_def empty_table_def demo_env_def finish_minor_def clear_table_def Let_def)

end
