(* ===== verification/Write_Barrier.thy ===== *)
theory Write_Barrier
  imports Minor_Gc_Proofs
begin

text \<open>
  The write barrier keeps what a minor collection relies on: a field of an old block that is made to
  point into the minor heap gets into the reference table (\<open>Modify\<close>).
\<close>

section \<open>Room in a reference table\<close>

definition table_ok :: "ref_table \<Rightarrow> bool" where
  "table_ok tbl \<longleftrightarrow>
     length (entries tbl) \<le> table_limit tbl \<and>
     (if has_base tbl then
        0 < table_size tbl \<and> 0 < table_reserve tbl \<and> table_limit tbl \<in> {table_size tbl, table_size tbl + table_reserve tbl}
      else table_limit tbl = 0)"

lemma table_ok_empty [simp]: "table_ok empty_table"
  by (simp add: table_ok_def empty_table_def)

lemma table_ok_clear: "table_ok tbl \<Longrightarrow> table_ok (clear_table tbl) \<or> \<not> has_base tbl"
  by (simp add: table_ok_def clear_table_def)

lemma add_to_table_ok:
  assumes "table_ok tbl" "8 \<le> n" "\<And>k. malloc k"
  shows "\<exists>tbl' urge. add_to_table malloc n p tbl = Inr (tbl', urge) \<and> table_ok tbl' \<and> entries tbl' = entries tbl @ [p]"
  using assms by (auto simp: add_to_table_def table_ok_def caml_realloc_ref_table_def caml_alloc_table_def Let_def)

section \<open>Assignment\<close>

lemma minor_ok_set:
  assumes ok: "minor_ok ok free s" and v: "value_ok free s v" and a: "major s a = Some (Scannable t fs)" "t < No_scan_tag" "i < length fs"
    and es: "set (entries tbl) = (if is_young_value s v then insert (Field a i) (set (entries (caml_ref_table s))) else set (entries (caml_ref_table s)))"
  shows "minor_ok ok free (s\<lparr>major := (major s)(a \<mapsto> Scannable t (fs[i := v])), caml_ref_table := tbl\<rparr>)"
proof -
  let ?s = "s\<lparr>major := (major s)(a \<mapsto> Scannable t (fs[i := v])), caml_ref_table := tbl\<rparr>"
  have same: "value_ok free ?s = value_ok free s" "Is_young ?s = Is_young s" "is_young_value ?s = is_young_value s"
    by (auto simp: value_ok_def Is_young_def is_young_value_def fun_eq_iff split: val.split)
  have yb: "young_block_ok free ?s x b = young_block_ok free s x b" for x b by (cases b) (simp_all add: same)
  have fields: "\<forall>f\<in>set gs. value_ok free s f" if "major ?s x = Some (Scannable u gs)" for x u gs
  proof (cases "x = a")
    case True
    have "\<forall>f\<in>set fs. value_ok free s f" using ok a unfolding minor_ok_def by blast
    then show ?thesis using True that v set_update_subset_insert [of fs i v] by auto
  next
    case False
    then have "major s x = Some (Scannable u gs)" using that by simp
    then show ?thesis using ok unfolding minor_ok_def by blast
  qed
  have refs: "Field x j \<in> set (entries (if u < No_scan_tag then tbl else caml_weak_ref_table s))"
    if x: "major ?s x = Some (Scannable u gs)" "j < length gs" "is_young_value s (gs ! j)" for x u gs j
  proof (cases "x = a \<and> j = i")
    case True
    then show ?thesis using x a es by auto
  next
    case False
    then obtain hs where "major s x = Some (Scannable u hs)" "j < length hs" "is_young_value s (hs ! j)"
      using x a by (auto split: if_splits)
    then have "Field x j \<in> set (entries (if u < No_scan_tag then caml_ref_table s else caml_weak_ref_table s))"
      using ok unfolding minor_ok_def by blast
    then show ?thesis using es by (auto split: if_splits)
  qed
  have there: "\<exists>u gs. major ?s x = Some (Scannable u gs) \<and> (u < No_scan_tag \<longleftrightarrow> u' < No_scan_tag) \<and> j < length gs"
    if "major s x = Some (Scannable u' gs')" "j < length gs'" for x u' gs' j
    using that a by (cases "x = a") auto
  have kept: "\<exists>x u gs j. q = Field x j \<and> major ?s x = Some (Scannable u gs) \<and> (u < No_scan_tag \<longleftrightarrow> r) \<and> j < length gs"
    if "\<exists>x u gs j. q = Field x j \<and> major s x = Some (Scannable u gs) \<and> (u < No_scan_tag \<longleftrightarrow> r) \<and> j < length gs" for q r
    using that there by metis
  have strong: "\<forall>q\<in>set (entries tbl). \<exists>x u gs j. q = Field x j \<and> major ?s x = Some (Scannable u gs) \<and> (u < No_scan_tag \<longleftrightarrow> True) \<and> j < length gs"
  proof
    fix q assume q: "q \<in> set (entries tbl)"
    have "\<exists>x u gs j. q = Field x j \<and> major s x = Some (Scannable u gs) \<and> (u < No_scan_tag \<longleftrightarrow> True) \<and> j < length gs"
    proof (cases "q = Field a i")
      case False
      then have "q \<in> set (entries (caml_ref_table s))" using q es by (auto split: if_splits)
      then show ?thesis using ok unfolding minor_ok_def by blast
    qed (use a in auto)
    then show "\<exists>x u gs j. q = Field x j \<and> major ?s x = Some (Scannable u gs) \<and> (u < No_scan_tag \<longleftrightarrow> True) \<and> j < length gs" by (rule kept)
  qed
  have weak: "\<forall>q\<in>set (entries (caml_weak_ref_table s)). \<exists>x u gs j. q = Field x j \<and> major ?s x = Some (Scannable u gs) \<and> (u < No_scan_tag \<longleftrightarrow> False) \<and> j < length gs"
  proof
    fix q assume "q \<in> set (entries (caml_weak_ref_table s))"
    then have "\<exists>x u gs j. q = Field x j \<and> major s x = Some (Scannable u gs) \<and> (u < No_scan_tag \<longleftrightarrow> False) \<and> j < length gs"
      using ok not_less unfolding minor_ok_def by metis
    then show "\<exists>x u gs j. q = Field x j \<and> major ?s x = Some (Scannable u gs) \<and> (u < No_scan_tag \<longleftrightarrow> False) \<and> j < length gs" by (rule kept)
  qed
  have dom: "dom (major ?s) = dom (major s)" using a by auto
  have pre: "finite (dom (young s)) \<and> ok (shared s)" "\<forall>a b. young s a = Some b \<longrightarrow> Is_young s a \<and> young_block_ok free s a b"
    "\<forall>a. Is_young s a \<longrightarrow> a \<notin> free (shared s) \<and> a \<notin> dom (major s)" "dom (major s) \<inter> free (shared s) = {}"
    "forwarded s = Map.empty \<and> oldify_todo_list s = 0" "\<forall>v\<in>set (roots s). value_ok free s v"
    using ok unfolding minor_ok_def by blast+
  have sel: "caml_ref_table ?s = tbl" "caml_weak_ref_table ?s = caml_weak_ref_table s" by simp_all
  have refs': "\<forall>x u gs j. major ?s x = Some (Scannable u gs) \<and> j < length gs \<and> is_young_value s (gs ! j) \<longrightarrow>
      Field x j \<in> set (entries (if u < No_scan_tag then tbl else caml_weak_ref_table s))"
    using refs by blast
  show ?thesis
    unfolding minor_ok_def same yb dom
  proof (intro conjI)
    show "\<forall>x u gs j. major ?s x = Some (Scannable u gs) \<and> j < length gs \<and> is_young_value s (gs ! j) \<longrightarrow>
      Field x j \<in> set (entries (if u < No_scan_tag then caml_ref_table ?s else caml_weak_ref_table ?s))"
      unfolding sel by (rule refs')
    show "\<forall>x u gs. major ?s x = Some (Scannable u gs) \<longrightarrow> (\<forall>f\<in>set gs. value_ok free s f)" using fields by blast
    show "\<forall>q\<in>set (entries (caml_ref_table ?s)). \<exists>a t fs i. q = Field a i \<and> major ?s a = Some (Scannable t fs) \<and> t < No_scan_tag \<and> i < length fs"
      using strong by simp
    show "\<forall>q\<in>set (entries (caml_weak_ref_table ?s)). \<exists>a t fs i. q = Field a i \<and> major ?s a = Some (Scannable t fs) \<and> No_scan_tag \<le> t \<and> i < length fs"
      using weak by (simp add: not_less)
  qed (use pre in simp_all)
qed

text \<open>A young block at 1091 and an old pair at 500.\<close>

definition barrier_demo :: "unit minor" where
  "barrier_demo =
     \<lparr>young_start = 1000, young_end = 1100, young_ptr = 1090, young = [1091 \<mapsto> Scannable 0 [Long 3]],
      forwarded = Map.empty, major = [500 \<mapsto> Scannable 0 [Long 1, Long 5]], roots = [],
      oldify_todo_list = 0, caml_ref_table = empty_table, caml_weak_ref_table = empty_table,
      shared = (), stat_minor_words = 0, final_old = 0, final_young = 0\<rparr>"

lemma barrier_demo_ok: "minor_ok (\<lambda>_. True) (\<lambda>_. {}) barrier_demo"
  unfolding minor_ok_def
  by (simp add: barrier_demo_def Is_young_def value_ok_def is_young_value_def empty_table_def tag_defs less_Suc_eq)

text \<open>
  C9. When no allocation fails, \<open>Modify\<close> on a field of an ordinary old block stores the value,
  hands the old one to the marking phase when it runs, keeps everything a minor collection relies on
  (every old field that points into the minor heap is in a reference table), keeps the table in
  its bounds, and puts the field in the table if the new value is young.
\<close>

theorem caml_modify_remembers:
  assumes "minor_ok ok free s" "table_ok (caml_ref_table s)" "8 \<le> young_end s - young_start s" "\<forall>k. malloc k"
    and "value_ok free s v" "major s a = Some (Scannable t fs)" "t < No_scan_tag" "i < length fs"
  shows "\<exists>s' urge. caml_modify malloc marking (Field a i) v s = Some (Inr (s', if marking then Some (fs ! i) else None, urge)) \<and>
    minor_ok ok free s' \<and> table_ok (caml_ref_table s') \<and> major s' = (major s)(a \<mapsto> Scannable t (fs[i := v])) \<and>
    (is_young_value s v \<longrightarrow> Field a i \<in> set (entries (caml_ref_table s')))"
proof -
  let ?s = "s\<lparr>major := (major s)(a \<mapsto> Scannable t (fs[i := v]))\<rparr>"
  have get: "get_place s (Field a i) = Some (fs ! i)" and set: "set_place (Field a i) v s = Some ?s"
    using assms(6,8) by (simp_all add: get_place_def set_place_def)
  note ok = minor_ok_set [OF assms(1,5-8)]
  obtain tbl urge where add: "add_to_table malloc (young_end s - young_start s) (Field a i) (caml_ref_table s) = Inr (tbl, urge)"
    "table_ok tbl" "entries tbl = entries (caml_ref_table s) @ [Field a i]"
    using add_to_table_ok [OF assms(2,3)] assms(4) by blast
  show ?thesis
  proof (cases "is_young_value s v \<and> \<not> is_young_value s (fs ! i)")
    case True
    have "minor_ok ok free (?s\<lparr>caml_ref_table := tbl\<rparr>)" using ok [of tbl] True add(3) by simp
    then show ?thesis using True get set add by (simp add: caml_modify_def)
  next
    case False
    have in_table: "Field a i \<in> set (entries (caml_ref_table s))" if "is_young_value s v"
    proof -
      have "is_young_value s (fs ! i)" using False that by blast
      then have "Field a i \<in> set (entries (if t < No_scan_tag then caml_ref_table s else caml_weak_ref_table s))"
        using assms(1,6,8) unfolding minor_ok_def by blast
      then show ?thesis using assms(7) by simp
    qed
    have "minor_ok ok free (?s\<lparr>caml_ref_table := caml_ref_table s\<rparr>)"
      using ok [of "caml_ref_table s"] in_table by (auto simp: insert_absorb)
    then have "minor_ok ok free ?s" by simp
    then show ?thesis using False get set assms(2) in_table by (auto simp: caml_modify_def)
  qed
qed

theorem caml_modify_remembers_witness:
  "\<exists>s' urge. caml_modify (\<lambda>_. True) True (Field 500 1) (Ptr 1091) barrier_demo = Some (Inr (s', Some (Long 5), urge)) \<and>
    minor_ok (\<lambda>_. True) (\<lambda>_. {}) s' \<and> Field 500 1 \<in> set (entries (caml_ref_table s'))"
proof -
  have "table_ok (caml_ref_table barrier_demo)" "8 \<le> young_end barrier_demo - young_start barrier_demo"
    "value_ok (\<lambda>_. {}) barrier_demo (Ptr 1091)" "major barrier_demo 500 = Some (Scannable 0 [Long 1, Long 5])"
    "is_young_value barrier_demo (Ptr 1091)"
    by (simp_all add: barrier_demo_def value_ok_def Is_young_def is_young_value_def)
  then show ?thesis
    using caml_modify_remembers [OF barrier_demo_ok, where malloc = "\<lambda>_. True" and marking = True and v = "Ptr 1091"
        and a = 500 and t = 0 and fs = "[Long 1, Long 5]" and i = 1]
    by (simp add: tag_defs) blast
qed

end
