(* ===== verification/Bigarray.thy ===== *)
theory Bigarray
  imports Serial
begin

text \<open>
  Big arrays (\<open>bigarray_stubs.c\<close>, \<open>bigarray.h\<close>, \<open>cstruct_stubs.c\<close>, \<open>page_stubs.c\<close>) in the kernel
  build: arrays of integers in memory that the collector does not own, with up to 16 dimensions
  and either layout; their elements, sub-arrays that share the memory, comparison, hashing and
  marshalling. Addresses here count bytes. The kernel's \<open>malloc\<close>, \<open>contigmalloc\<close> and \<open>mtod\<close> are
  arguments; \<open>caml_alloc_custom\<close> only provides the block that the record stands for.
\<close>

section \<open>Data\<close>

definition CAML_BA_MAX_NUM_DIMS :: nat where "CAML_BA_MAX_NUM_DIMS = 16"

definition CAML_BA_SINT8 :: u64 where "CAML_BA_SINT8 = 0"
definition CAML_BA_UINT8 :: u64 where "CAML_BA_UINT8 = 1"
definition CAML_BA_SINT16 :: u64 where "CAML_BA_SINT16 = 2"
definition CAML_BA_UINT16 :: u64 where "CAML_BA_UINT16 = 3"
definition CAML_BA_INT32 :: u64 where "CAML_BA_INT32 = 4"
definition CAML_BA_INT64 :: u64 where "CAML_BA_INT64 = 5"
definition CAML_BA_CAML_INT :: u64 where "CAML_BA_CAML_INT = 6"
definition CAML_BA_NATIVE_INT :: u64 where "CAML_BA_NATIVE_INT = 7"
definition CAML_BA_KIND_MASK :: u64 where "CAML_BA_KIND_MASK = 0xFF"

definition CAML_BA_C_LAYOUT :: u64 where "CAML_BA_C_LAYOUT = 0"
definition CAML_BA_FORTRAN_LAYOUT :: u64 where "CAML_BA_FORTRAN_LAYOUT = 0x100"
definition CAML_BA_LAYOUT_MASK :: u64 where "CAML_BA_LAYOUT_MASK = 0x100"

definition CAML_BA_EXTERNAL :: u64 where "CAML_BA_EXTERNAL = 0"
definition CAML_BA_MANAGED :: u64 where "CAML_BA_MANAGED = 0x200"
definition CAML_BA_MAPPED_FILE :: u64 where "CAML_BA_MAPPED_FILE = 0x400"
definition CAML_BA_MBUF :: u64 where "CAML_BA_MBUF = 0x800"
definition CAML_BA_MANAGED_MASK :: u64 where "CAML_BA_MANAGED_MASK = 0xE00"

lemmas ba_defs = CAML_BA_SINT8_def CAML_BA_UINT8_def CAML_BA_SINT16_def CAML_BA_UINT16_def CAML_BA_INT32_def
  CAML_BA_INT64_def CAML_BA_CAML_INT_def CAML_BA_NATIVE_INT_def CAML_BA_KIND_MASK_def CAML_BA_C_LAYOUT_def
  CAML_BA_FORTRAN_LAYOUT_def CAML_BA_LAYOUT_MASK_def CAML_BA_EXTERNAL_def CAML_BA_MANAGED_def
  CAML_BA_MAPPED_FILE_def CAML_BA_MBUF_def CAML_BA_MANAGED_MASK_def

record caml_ba_proxy =
  refcount :: u64
  proxy_data :: nat
  proxy_size :: u64

text \<open>\<open>num_dims\<close> is the length of \<open>ba_dim\<close>; \<open>ba_proxy\<close> is the address of the proxy, \<open>None\<close> for \<open>NULL\<close>.\<close>

record caml_ba_array =
  ba_data :: nat
  ba_data2 :: nat
  ba_flags :: u64
  ba_proxy :: "nat option"
  ba_dim :: "u64 list"

text \<open>
  The bytes of memory, the pairs \<open>u[0]\<close>, \<open>u[1]\<close> at the addresses \<open>data2\<close>, the proxies, the state of
  the allocator, and what was given back to the kernel, with the sizes passed.
\<close>

datatype release = Contigfree nat u64 | Free_counter nat | M_free nat

record 's ba_state =
  ba_mem :: "nat \<Rightarrow> u8"
  counters :: "nat \<Rightarrow> (u32 \<times> u32) option"
  proxies :: "nat \<Rightarrow> caml_ba_proxy option"
  allocator :: 's
  freed :: "release list"

type_synonym 's malloc = "nat \<Rightarrow> 's \<Rightarrow> nat \<times> 's"

definition ba_kind :: "caml_ba_array \<Rightarrow> u64" where
  "ba_kind b = ba_flags b AND CAML_BA_KIND_MASK"

definition c_layout :: "caml_ba_array \<Rightarrow> bool" where
  "c_layout b \<longleftrightarrow> ba_flags b AND CAML_BA_LAYOUT_MASK = CAML_BA_C_LAYOUT"

definition caml_ba_element_size :: "u64 list" where
  "caml_ba_element_size = [1, 1, 2, 2, 4, 8, 8, 8]"

definition element_size :: "u64 \<Rightarrow> u64 option" where
  "element_size flags =
     (let k = unat (flags AND CAML_BA_KIND_MASK)
      in if k < length caml_ba_element_size then Some (caml_ba_element_size ! k) else None)"

definition caml_ba_num_elts :: "u64 list \<Rightarrow> u64" where
  "caml_ba_num_elts dim = foldl (*) 1 dim"

definition caml_ba_byte_size :: "caml_ba_array \<Rightarrow> u64 option" where
  "caml_ba_byte_size b = map_option (\<lambda>sz. caml_ba_num_elts (ba_dim b) * sz) (element_size (ba_flags b))"

section \<open>Allocation\<close>

text \<open>Multiplication with overflow detection: the product and the new value of \<open>*overflow\<close>.\<close>

definition LOW_HALF :: "u64 \<Rightarrow> u64" where "LOW_HALF x = x AND (push_bit 32 1 - 1)"
definition HIGH_HALF :: "u64 \<Rightarrow> u64" where "HIGH_HALF x = drop_bit 32 x"

definition caml_ba_multov :: "u64 \<Rightarrow> u64 \<Rightarrow> bool \<Rightarrow> u64 \<times> bool" where
  "caml_ba_multov a b overflow =
     (let al = LOW_HALF a; ah = HIGH_HALF a; bl = LOW_HALF b; bh = HIGH_HALF b;
          p1 = al * bh; p2 = ah * bl; p = a * b;
          overflow = (overflow \<or> ah \<noteq> 0 \<and> bh \<noteq> 0);
          overflow = (overflow \<or> HIGH_HALF p1 \<noteq> 0 \<or> HIGH_HALF p2 \<noteq> 0);
          p1 = push_bit 32 p1; p2 = push_bit 32 p2; p1 = p1 + p2
      in (p, overflow \<or> p < p1 \<or> p1 < p2))"

definition dims_product :: "u64 list \<Rightarrow> u64 \<times> bool" where
  "dims_product dim = foldl (\<lambda>(n, overflow) d. caml_ba_multov n d overflow) (1, False) dim"

text \<open>The data of a new array: the address and the flags.\<close>

definition alloc_data :: "'s malloc \<Rightarrow> u64 \<Rightarrow> nat \<Rightarrow> u64 list \<Rightarrow> 's ba_state \<Rightarrow> (nat \<times> u64 \<times> 's ba_state) outcome option" where
  "alloc_data malloc flags data dim st =
     (if data \<noteq> 0 then Some (Inr (data, flags, st))
      else
        (let (num_elts, overflow) = dims_product dim
         in map_option (\<lambda>sz.
              let (size, overflow) = caml_ba_multov num_elts sz overflow
              in if overflow then Inl Out_of_memory
                 else
                   (let (data, s) = malloc (unat size) (allocator st)
                    in if data = 0 \<and> size \<noteq> 0 then Inl Out_of_memory
                       else Inr (data, flags OR CAML_BA_MANAGED, st\<lparr>allocator := s\<rparr>)))
            (element_size flags)))"

definition sum_dims :: "u64 list \<Rightarrow> u32" where
  "sum_dims dim = foldl (\<lambda>u d. u + ucast d) 0 dim"

definition caml_ba_alloc ::
    "'s malloc \<Rightarrow> (nat \<Rightarrow> nat) \<Rightarrow> u64 \<Rightarrow> nat \<Rightarrow> u64 list \<Rightarrow> 's ba_state \<Rightarrow> (caml_ba_array \<times> 's ba_state) outcome option" where
  "caml_ba_alloc malloc mtod flags data dim st =
     map_option (\<lambda>r. bind_outcome r (\<lambda>(data, flags, st).
       if flags AND CAML_BA_MANAGED_MASK = CAML_BA_MBUF then
         Inr (\<lparr>ba_data = mtod data, ba_data2 = data, ba_flags = flags, ba_proxy = None, ba_dim = dim\<rparr>, st)
       else
         (let (data2, s) = malloc 8 (allocator st)
          in if data2 = 0 then Inl Out_of_memory
             else Inr (\<lparr>ba_data = data, ba_data2 = data2, ba_flags = flags, ba_proxy = None, ba_dim = dim\<rparr>,
                    st\<lparr>allocator := s, counters := (counters st)(data2 \<mapsto> (1, sum_dims dim))\<rparr>))))
       (alloc_data malloc flags data dim st)"

text \<open>The dimensions as arguments of the call.\<close>

definition caml_ba_alloc_dims ::
    "'s malloc \<Rightarrow> (nat \<Rightarrow> nat) \<Rightarrow> u64 \<Rightarrow> nat \<Rightarrow> u64 list \<Rightarrow> 's ba_state \<Rightarrow> (caml_ba_array \<times> 's ba_state) outcome option" where
  "caml_ba_alloc_dims malloc mtod flags data dims st = caml_ba_alloc malloc mtod flags data dims st"

text \<open>Reading dimensions from OCaml: the values up to the first that is refused.\<close>

fun read_dims :: "(u64 \<Rightarrow> bool) \<Rightarrow> string \<Rightarrow> u64 list \<Rightarrow> u64 list outcome" where
  "read_dims bad msg [] = Inr []"
| "read_dims bad msg (v # vs) =
     (let d = Long_val v
      in if bad d then Inl (Invalid_argument msg)
         else bind_outcome (read_dims bad msg vs) (\<lambda>ds. Inr (d # ds)))"

definition caml_ba_create ::
    "'s malloc \<Rightarrow> (nat \<Rightarrow> nat) \<Rightarrow> u64 \<Rightarrow> u64 \<Rightarrow> u64 list \<Rightarrow> 's ba_state \<Rightarrow> (caml_ba_array \<times> 's ba_state) outcome option" where
  "caml_ba_create malloc mtod vkind vlayout vdim st =
     (if length vdim < 1 \<or> length vdim > CAML_BA_MAX_NUM_DIMS
      then Some (Inl (Invalid_argument ''Bigarray.create: bad number of dimensions''))
      else
        (case read_dims (\<lambda>d. sint d < 0) ''Bigarray.create: negative dimension'' vdim of
           Inl e \<Rightarrow> Some (Inl e)
         | Inr dim \<Rightarrow> caml_ba_alloc malloc mtod (scast (Int_val vkind OR Int_val vlayout)) 0 dim st))"

text \<open>\<open>caml_alloc_pages\<close>; \<open>contigmalloc\<close> gives \<open>0\<close> when there are no pages.\<close>

definition PAGE_SIZE :: u64 where "PAGE_SIZE = 4096"

definition caml_alloc_pages ::
    "'s malloc \<Rightarrow> 's malloc \<Rightarrow> (nat \<Rightarrow> nat) \<Rightarrow> u64 \<Rightarrow> 's ba_state \<Rightarrow> (caml_ba_array \<times> 's ba_state) outcome option" where
  "caml_alloc_pages contigmalloc malloc mtod n_pages st =
     (let len = scast (Int_val n_pages);
          (block, s) = contigmalloc (unat (PAGE_SIZE * len)) (allocator st)
      in if block = 0 then Some (Inl (Failure ''contigmalloc''))
         else caml_ba_alloc_dims malloc mtod (CAML_BA_UINT8 OR CAML_BA_C_LAYOUT OR CAML_BA_MANAGED) block [PAGE_SIZE * len]
                (st\<lparr>allocator := s\<rparr>))"

section \<open>Elements\<close>

text \<open>The offset of an element: the two loops, over pairs of a dimension and an index.\<close>

fun offset_loop :: "(u64 \<times> u64) list \<Rightarrow> u64 \<Rightarrow> u64 outcome" where
  "offset_loop [] offset = Inr offset"
| "offset_loop ((d, i) # dis) offset =
     (if i \<ge> d then Inl Index_out_of_bounds else offset_loop dis (offset * d + i))"

definition caml_ba_offset :: "caml_ba_array \<Rightarrow> u64 list \<Rightarrow> u64 outcome" where
  "caml_ba_offset b index =
     (if c_layout b then offset_loop (zip (ba_dim b) index) 0
      else offset_loop (rev (zip (ba_dim b) (map (\<lambda>i. i - 1) index))) 0)"

text \<open>Words in memory, little-endian.\<close>

definition load :: "nat \<Rightarrow> 's ba_state \<Rightarrow> nat \<Rightarrow> u64" where
  "load n st a = of_le_bytes8 (map (ba_mem st) [a ..< a + n])"

definition store_bytes :: "nat \<Rightarrow> bytes \<Rightarrow> 's ba_state \<Rightarrow> 's ba_state" where
  "store_bytes a bs st = st\<lparr>ba_mem := (\<lambda>x. if a \<le> x \<and> x < a + length bs then bs ! (x - a) else ba_mem st x)\<rparr>"

definition store_word :: "nat \<Rightarrow> nat \<Rightarrow> u64 \<Rightarrow> 's ba_state \<Rightarrow> 's ba_state" where
  "store_word n a w st = store_bytes a (take n (le_bytes8 w)) st"

text \<open>An OCaml value of the type of the elements: a tagged integer, or the contents of a boxed one.\<close>

datatype ba_value = Ba_int u64 | Ba_int32 u32 | Ba_int64 u64 | Ba_nativeint u64

text \<open>A kind that is not in the table is treated as \<open>SINT8\<close>: \<open>default\<close> falls through.\<close>

definition read_element :: "caml_ba_array \<Rightarrow> u64 \<Rightarrow> 's ba_state \<Rightarrow> ba_value" where
  "read_element b offset st =
     (let k = ba_kind b; at = (\<lambda>n. load n st (ba_data b + unat offset * n))
      in if k = CAML_BA_UINT8 then Ba_int (Val_long (at 1))
         else if k = CAML_BA_SINT16 then Ba_int (Val_long (scast (ucast (at 2) :: u16)))
         else if k = CAML_BA_UINT16 then Ba_int (Val_long (at 2))
         else if k = CAML_BA_INT32 then Ba_int32 (ucast (at 4))
         else if k = CAML_BA_INT64 then Ba_int64 (at 8)
         else if k = CAML_BA_NATIVE_INT then Ba_nativeint (at 8)
         else if k = CAML_BA_CAML_INT then Ba_int (Val_long (at 8))
         else Ba_int (Val_long (scast (ucast (at 1) :: u8))))"

definition write_element :: "caml_ba_array \<Rightarrow> u64 \<Rightarrow> ba_value \<Rightarrow> 's ba_state \<Rightarrow> 's ba_state option" where
  "write_element b offset newval st =
     (let k = ba_kind b; put = (\<lambda>n w. Some (store_word n (ba_data b + unat offset * n) w st))
      in case newval of
           Ba_int v \<Rightarrow>
             if k = CAML_BA_SINT16 \<or> k = CAML_BA_UINT16 then put 2 (ucast (Int_val v))
             else if k = CAML_BA_CAML_INT then put 8 (Long_val v)
             else if k = CAML_BA_INT32 \<or> k = CAML_BA_INT64 \<or> k = CAML_BA_NATIVE_INT then None
             else put 1 (ucast (Int_val v))
         | Ba_int32 i \<Rightarrow> if k = CAML_BA_INT32 then put 4 (ucast i) else None
         | Ba_int64 i \<Rightarrow> if k = CAML_BA_INT64 then put 8 i else None
         | Ba_nativeint i \<Rightarrow> if k = CAML_BA_NATIVE_INT then put 8 i else None)"

definition caml_ba_get_N :: "caml_ba_array \<Rightarrow> u64 list \<Rightarrow> 's ba_state \<Rightarrow> ba_value outcome" where
  "caml_ba_get_N b vind st =
     (if length vind \<noteq> length (ba_dim b) then Inl (Invalid_argument ''Bigarray.get: wrong number of indices'')
      else bind_outcome (caml_ba_offset b (map Long_val vind)) (\<lambda>offset. Inr (read_element b offset st)))"

definition caml_ba_set_aux :: "caml_ba_array \<Rightarrow> u64 list \<Rightarrow> ba_value \<Rightarrow> 's ba_state \<Rightarrow> 's ba_state outcome option" where
  "caml_ba_set_aux b vind newval st =
     (if length vind \<noteq> length (ba_dim b) then Some (Inl (Invalid_argument ''Bigarray.set: wrong number of indices''))
      else
        (case caml_ba_offset b (map Long_val vind) of
           Inl e \<Rightarrow> Some (Inl e)
         | Inr offset \<Rightarrow> map_option Inr (write_element b offset newval st)))"

definition caml_ba_get_1 :: "caml_ba_array \<Rightarrow> u64 \<Rightarrow> 's ba_state \<Rightarrow> ba_value outcome" where
  "caml_ba_get_1 b vind1 = caml_ba_get_N b [vind1]"

definition caml_ba_get_2 :: "caml_ba_array \<Rightarrow> u64 \<Rightarrow> u64 \<Rightarrow> 's ba_state \<Rightarrow> ba_value outcome" where
  "caml_ba_get_2 b vind1 vind2 = caml_ba_get_N b [vind1, vind2]"

definition caml_ba_get_3 :: "caml_ba_array \<Rightarrow> u64 \<Rightarrow> u64 \<Rightarrow> u64 \<Rightarrow> 's ba_state \<Rightarrow> ba_value outcome" where
  "caml_ba_get_3 b vind1 vind2 vind3 = caml_ba_get_N b [vind1, vind2, vind3]"

definition caml_ba_get_generic :: "caml_ba_array \<Rightarrow> u64 list \<Rightarrow> 's ba_state \<Rightarrow> ba_value outcome" where
  "caml_ba_get_generic b vind = caml_ba_get_N b vind"

definition caml_ba_set_1 :: "caml_ba_array \<Rightarrow> u64 \<Rightarrow> ba_value \<Rightarrow> 's ba_state \<Rightarrow> 's ba_state outcome option" where
  "caml_ba_set_1 b vind1 = caml_ba_set_aux b [vind1]"

definition caml_ba_set_2 :: "caml_ba_array \<Rightarrow> u64 \<Rightarrow> u64 \<Rightarrow> ba_value \<Rightarrow> 's ba_state \<Rightarrow> 's ba_state outcome option" where
  "caml_ba_set_2 b vind1 vind2 = caml_ba_set_aux b [vind1, vind2]"

definition caml_ba_set_3 :: "caml_ba_array \<Rightarrow> u64 \<Rightarrow> u64 \<Rightarrow> u64 \<Rightarrow> ba_value \<Rightarrow> 's ba_state \<Rightarrow> 's ba_state outcome option" where
  "caml_ba_set_3 b vind1 vind2 vind3 = caml_ba_set_aux b [vind1, vind2, vind3]"

definition caml_ba_set_generic :: "caml_ba_array \<Rightarrow> u64 list \<Rightarrow> ba_value \<Rightarrow> 's ba_state \<Rightarrow> 's ba_state outcome option" where
  "caml_ba_set_generic b vind = caml_ba_set_aux b vind"

definition caml_ba_num_dims :: "caml_ba_array \<Rightarrow> u64" where
  "caml_ba_num_dims b = Val_long (of_nat (length (ba_dim b)))"

text \<open>A negative number is read outside the array of dimensions.\<close>

definition caml_ba_dim :: "caml_ba_array \<Rightarrow> u64 \<Rightarrow> u64 outcome option" where
  "caml_ba_dim b vn =
     (let n = sint (Long_val vn)
      in if n \<ge> int (length (ba_dim b)) then Some (Inl (Invalid_argument ''Bigarray.dim''))
         else if n < 0 then None
         else Some (Inr (Val_long (ba_dim b ! nat n))))"

definition caml_ba_kind :: "caml_ba_array \<Rightarrow> u64" where
  "caml_ba_kind b = Val_long (ba_flags b AND CAML_BA_KIND_MASK)"

definition caml_ba_layout :: "caml_ba_array \<Rightarrow> u64" where
  "caml_ba_layout b = Val_long (ba_flags b AND CAML_BA_LAYOUT_MASK)"

end
