(* ===== verification/Bigarray_Ops.thy ===== *)
theory Bigarray_Ops
  imports Bigarray
begin

text \<open>
  The operations on whole big arrays: finalization, comparison, hashing, marshalling, the
  sub-arrays that share their memory through a proxy, copying, filling, reshaping, and the shift of
  \<open>cstruct_stubs.c\<close>. An operation that changes the proxy of its argument returns the argument too.
\<close>

section \<open>Finalization\<close>

text \<open>\<open>if (--u[0] == 0) { contigfree(p, size); free(u); }\<close>, where the size may come from \<open>u[1]\<close>.\<close>

definition drop_counter :: "nat \<Rightarrow> nat \<Rightarrow> (u32 \<Rightarrow> u64) \<Rightarrow> 's ba_state \<Rightarrow> 's ba_state option" where
  "drop_counter u p size_of_area st =
     map_option (\<lambda>(u0, u1).
       if u0 - 1 = 0 then
         st\<lparr>counters := (counters st)(u := None), freed := freed st @ [Contigfree p (size_of_area u1), Free_counter u]\<rparr>
       else st\<lparr>counters := (counters st)(u \<mapsto> (u0 - 1, u1))\<rparr>)
     (counters st u)"

definition caml_ba_finalize :: "caml_ba_array \<Rightarrow> 's ba_state \<Rightarrow> 's ba_state outcome option" where
  "caml_ba_finalize b st =
     (let m = ba_flags b AND CAML_BA_MANAGED_MASK
      in if m = CAML_BA_MANAGED then
           (case ba_proxy b of
              None \<Rightarrow> map_option Inr (drop_counter (ba_data2 b) (ba_data b) ucast st)
            | Some p \<Rightarrow>
                Option.bind (proxies st p) (\<lambda>x.
                  let st = st\<lparr>proxies := (proxies st)(p \<mapsto> x\<lparr>refcount := refcount x - 1\<rparr>)\<rparr>
                  in if refcount x - 1 = 0 then
                       map_option (\<lambda>st. Inr (st\<lparr>proxies := (proxies st)(p := None)\<rparr>))
                         (drop_counter (ba_data2 b) (proxy_data x) (\<lambda>_. proxy_size x) st)
                     else Some (Inr st)))
         else if m = CAML_BA_MAPPED_FILE then Some (Inl (Failure ''CAML_BA_MAPPED_FILE: unsupported''))
         else if m = CAML_BA_MBUF then Some (Inr (st\<lparr>freed := freed st @ [M_free (ba_data2 b)]\<rparr>))
         else Some (Inr st))"

section \<open>Comparison and hashing\<close>

text \<open>The element at \<open>p\<close> as the C type of the kind: its number.\<close>

definition element_int :: "u64 \<Rightarrow> nat \<Rightarrow> 's ba_state \<Rightarrow> int" where
  "element_int k p st =
     (if k = CAML_BA_SINT8 then sint (ucast (load 1 st p) :: u8)
      else if k = CAML_BA_UINT8 then uint (load 1 st p)
      else if k = CAML_BA_SINT16 then sint (ucast (load 2 st p) :: u16)
      else if k = CAML_BA_UINT16 then uint (load 2 st p)
      else if k = CAML_BA_INT32 then sint (ucast (load 4 st p) :: u32)
      else sint (load 8 st p))"

fun compare_elements :: "u64 \<Rightarrow> nat \<Rightarrow> nat \<Rightarrow> nat \<Rightarrow> nat \<Rightarrow> 's ba_state \<Rightarrow> int" where
  "compare_elements k sz 0 p1 p2 st = 0"
| "compare_elements k sz (Suc n) p1 p2 st =
     (let e1 = element_int k p1 st; e2 = element_int k p2 st
      in if e1 < e2 then - 1 else if e1 > e2 then 1 else compare_elements k sz n (p1 + sz) (p2 + sz) st)"

fun compare_dims :: "u64 list \<Rightarrow> u64 list \<Rightarrow> int option" where
  "compare_dims (d1 # ds1) (d2 # ds2) =
     (if d1 \<noteq> d2 then Some (if sint d1 < sint d2 then - 1 else 1) else compare_dims ds1 ds2)"
| "compare_dims _ _ = None"

definition caml_ba_compare :: "caml_ba_array \<Rightarrow> caml_ba_array \<Rightarrow> 's ba_state \<Rightarrow> int" where
  "caml_ba_compare b1 b2 st =
     (if length (ba_dim b1) \<noteq> length (ba_dim b2) then int (length (ba_dim b2)) - int (length (ba_dim b1))
      else
        (case compare_dims (ba_dim b1) (ba_dim b2) of
           Some r \<Rightarrow> r
         | None \<Rightarrow>
             (case element_size (ba_kind b1) of
                Some sz \<Rightarrow>
                  compare_elements (ba_kind b1) (unat sz) (unat (caml_ba_num_elts (ba_dim b1))) (ba_data b1) (ba_data b2) st
              | None \<Rightarrow> 0)))"

definition COMBINE :: "u64 \<Rightarrow> u64 \<Rightarrow> u64" where
  "COMBINE h v = push_bit 4 h + h + v"

definition caml_ba_hash :: "caml_ba_array \<Rightarrow> 's ba_state \<Rightarrow> u64" where
  "caml_ba_hash b st =
     (let num_elts = sint (caml_ba_num_elts (ba_dim b));
          n = nat (if num_elts \<ge> 50 then 50 else num_elts)
      in case element_size (ba_kind b) of
           Some sz \<Rightarrow> foldl (\<lambda>h i. COMBINE h (load (unat sz) st (ba_data b + i * unat sz))) 0 [0..<n]
         | None \<Rightarrow> 0)"

section \<open>Marshalling\<close>

definition memory_bytes :: "'s ba_state \<Rightarrow> nat \<Rightarrow> nat \<Rightarrow> bytes" where
  "memory_bytes st a n = map (ba_mem st) [a ..< a + n]"

definition caml_ba_serialize_longarray :: "nat \<Rightarrow> nat \<Rightarrow> int \<Rightarrow> int \<Rightarrow> 's ba_state \<Rightarrow> bytes \<Rightarrow> bytes" where
  "caml_ba_serialize_longarray data num_elts min_val max_val st out =
     (let ps = map (\<lambda>i. load 8 st (data + 8 * i)) [0..<num_elts]
      in if \<exists>p\<in>set ps. sint p < min_val \<or> sint p > max_val
         then caml_serialize_block_8 (memory_bytes st data (8 * num_elts)) num_elts (caml_serialize_int_1 1 out)
         else fold (\<lambda>p. caml_serialize_int_4 (ucast p)) ps (caml_serialize_int_1 0 out))"

text \<open>
  The elements. \<open>-0x80000000\<close> is an unsigned constant, so the lower limit of \<open>NATIVE_INT\<close> is positive.
  The kernel build has no case for \<open>INT64\<close>.
\<close>

definition serialize_elements :: "caml_ba_array \<Rightarrow> 's ba_state \<Rightarrow> bytes \<Rightarrow> bytes" where
  "serialize_elements b st out =
     (let k = ba_kind b; n = unat (caml_ba_num_elts (ba_dim b)); a = ba_data b
      in if k = CAML_BA_SINT8 \<or> k = CAML_BA_UINT8 then caml_serialize_block_1 (memory_bytes st a n) n out
         else if k = CAML_BA_SINT16 \<or> k = CAML_BA_UINT16 then caml_serialize_block_2 (memory_bytes st a (2 * n)) n out
         else if k = CAML_BA_INT32 then caml_serialize_block_4 (memory_bytes st a (4 * n)) n out
         else if k = CAML_BA_CAML_INT then caml_ba_serialize_longarray a n (- 0x40000000) 0x3FFFFFFF st out
         else if k = CAML_BA_NATIVE_INT then caml_ba_serialize_longarray a n 0x80000000 0x7FFFFFFF st out
         else out)"

definition caml_ba_serialize :: "caml_ba_array \<Rightarrow> 's ba_state \<Rightarrow> bytes \<times> u64 \<times> u64" where
  "caml_ba_serialize b st =
     (let nd = length (ba_dim b);
          out = caml_serialize_int_4 (of_nat nd) [];
          out = caml_serialize_int_4 (ucast (ba_flags b AND (CAML_BA_KIND_MASK OR CAML_BA_LAYOUT_MASK))) out;
          out = fold (\<lambda>d. caml_serialize_int_4 (ucast d)) (ba_dim b) out
      in (serialize_elements b st out, (4 + of_nat nd) * 4, (4 + of_nat nd) * 8))"

definition caml_ba_deserialize_longarray :: "nat \<Rightarrow> bytes \<Rightarrow> (bytes \<times> bytes) option" where
  "caml_ba_deserialize_longarray num_elts src =
     Option.bind (caml_deserialize_uint_1 src) (\<lambda>(sixty, src).
       if sixty \<noteq> 0 then caml_deserialize_block_8 num_elts src
       else map_option (map_prod (\<lambda>ps. concat (map (\<lambda>p. le_bytes8 (scast p)) ps)) id) (read_items caml_deserialize_sint_4 num_elts src))"

text \<open>The bytes that are stored at the new \<open>data\<close>, and the rest of the input.\<close>

definition deserialize_elements :: "u64 \<Rightarrow> nat \<Rightarrow> bytes \<Rightarrow> (bytes \<times> bytes) option" where
  "deserialize_elements k n src =
     (if k = CAML_BA_SINT8 \<or> k = CAML_BA_UINT8 then caml_deserialize_block_1 n src
      else if k = CAML_BA_SINT16 \<or> k = CAML_BA_UINT16 then caml_deserialize_block_2 n src
      else if k = CAML_BA_INT32 then caml_deserialize_block_4 n src
      else if k = CAML_BA_INT64 then caml_deserialize_block_8 n src
      else caml_ba_deserialize_longarray n src)"

text \<open>\<open>old2\<close> is what the new block has in \<open>data2\<close>, which the code does not set.\<close>

definition caml_ba_deserialize ::
    "'s malloc \<Rightarrow> nat \<Rightarrow> bytes \<Rightarrow> 's ba_state \<Rightarrow> ((caml_ba_array \<times> bytes \<times> 's ba_state) outcome) option" where
  "caml_ba_deserialize malloc old2 src st =
     Option.bind (caml_deserialize_uint_4 src) (\<lambda>(nd, src).
     Option.bind (caml_deserialize_uint_4 src) (\<lambda>(fl, src).
     Option.bind (read_items caml_deserialize_uint_4 (unat nd) src) (\<lambda>(ds, src).
       let flags = ucast fl OR CAML_BA_MANAGED; dim = map ucast ds; num_elts = caml_ba_num_elts dim
       in case element_size flags of
            None \<Rightarrow> Some (Inl (Failure ''input_value: bad bigarray kind''))
          | Some sz \<Rightarrow>
              (let (data, s) = malloc (unat (sz * num_elts)) (allocator st)
               in if data = 0 then Some (Inl (Failure ''input_value: out of memory for bigarray''))
                  else map_option (\<lambda>(bs, src).
                         Inr (\<lparr>ba_data = data, ba_data2 = old2, ba_flags = flags, ba_proxy = None, ba_dim = dim\<rparr>, src,
                              store_bytes data bs (st\<lparr>allocator := s\<rparr>)))
                       (deserialize_elements (flags AND CAML_BA_KIND_MASK) (unat num_elts) src)))))"

section \<open>Sub-arrays\<close>

definition caml_ba_update_proxy ::
    "'s malloc \<Rightarrow> caml_ba_array \<Rightarrow> caml_ba_array \<Rightarrow> 's ba_state \<Rightarrow> (caml_ba_array \<times> caml_ba_array \<times> 's ba_state) outcome option" where
  "caml_ba_update_proxy malloc b1 b2 st =
     (if ba_flags b1 AND CAML_BA_MANAGED_MASK = CAML_BA_EXTERNAL then Some (Inr (b1, b2, st))
      else
        Option.bind
          (if ba_flags b2 AND CAML_BA_MANAGED_MASK \<noteq> CAML_BA_MBUF then
             map_option (\<lambda>(u0, u1). st\<lparr>counters := (counters st)(ba_data2 b2 \<mapsto> (u0, sum_dims (ba_dim b2)))\<rparr>) (counters st (ba_data2 b2))
           else Some st) (\<lambda>st.
          case ba_proxy b1 of
            Some p \<Rightarrow>
              map_option (\<lambda>x. Inr (b1, b2\<lparr>ba_proxy := Some p\<rparr>, st\<lparr>proxies := (proxies st)(p \<mapsto> x\<lparr>refcount := refcount x + 1\<rparr>)\<rparr>))
                (proxies st p)
          | None \<Rightarrow>
              Option.bind (if ba_flags b1 AND CAML_BA_MAPPED_FILE \<noteq> 0 then caml_ba_byte_size b1 else Some 0) (\<lambda>sz.
                let (p, s) = malloc 24 (allocator st)
                in if p = 0 then Some (Inl Out_of_memory)
                   else Some (Inr (b1\<lparr>ba_proxy := Some p\<rparr>, b2\<lparr>ba_proxy := Some p\<rparr>,
                          st\<lparr>allocator := s, proxies := (proxies st)(p \<mapsto> \<lparr>refcount = 2, proxy_data = ba_data b1, proxy_size = sz\<rparr>)\<rparr>)))))"

text \<open>A new array on \<open>sub_data\<close>, tied to \<open>b\<close>: the argument and the result.\<close>

definition sub_array ::
    "'s malloc \<Rightarrow> (nat \<Rightarrow> nat) \<Rightarrow> caml_ba_array \<Rightarrow> nat \<Rightarrow> u64 list \<Rightarrow> (caml_ba_array \<Rightarrow> caml_ba_array) \<Rightarrow> 's ba_state \<Rightarrow>
      (caml_ba_array \<times> caml_ba_array \<times> 's ba_state) outcome option" where
  "sub_array malloc mtod b sub_data sub_dims doctor st =
     Option.bind (caml_ba_alloc malloc mtod (ba_flags b) sub_data sub_dims st) (\<lambda>r.
       case r of
         Inl e \<Rightarrow> Some (Inl e)
       | Inr (res, st) \<Rightarrow> caml_ba_update_proxy malloc b (doctor res) st)"

definition caml_ba_slice ::
    "'s malloc \<Rightarrow> (nat \<Rightarrow> nat) \<Rightarrow> caml_ba_array \<Rightarrow> u64 list \<Rightarrow> 's ba_state \<Rightarrow> (caml_ba_array \<times> caml_ba_array \<times> 's ba_state) outcome option" where
  "caml_ba_slice malloc mtod b vind st =
     (let nd = length (ba_dim b); num_inds = length vind; inds = map Long_val vind
      in if num_inds \<ge> nd then Some (Inl (Invalid_argument ''Bigarray.slice: too many indices''))
         else
           (let index = (if c_layout b then inds @ replicate (nd - num_inds) 0 else replicate (nd - num_inds) 1 @ inds);
                sub_dims = (if c_layout b then drop num_inds (ba_dim b) else take (nd - num_inds) (ba_dim b))
            in case caml_ba_offset b index of
                 Inl e \<Rightarrow> Some (Inl e)
               | Inr offset \<Rightarrow>
                   Option.bind (element_size (ba_flags b)) (\<lambda>sz.
                     sub_array malloc mtod b (ba_data b + unat (offset * sz)) sub_dims (\<lambda>res. res) st)))"

definition caml_ba_sub ::
    "'s malloc \<Rightarrow> (nat \<Rightarrow> nat) \<Rightarrow> caml_ba_array \<Rightarrow> u64 \<Rightarrow> u64 \<Rightarrow> 's ba_state \<Rightarrow> (caml_ba_array \<times> caml_ba_array \<times> 's ba_state) outcome option" where
  "caml_ba_sub malloc mtod b vofs vlen st =
     (let nd = length (ba_dim b); len = Long_val vlen;
          (ofs, mul, changed_dim) =
            (if c_layout b then (Long_val vofs, caml_ba_num_elts (drop 1 (ba_dim b)), 0)
             else (Long_val vofs - 1, caml_ba_num_elts (take (nd - 1) (ba_dim b)), nd - 1))
      in if sint ofs < 0 \<or> sint len < 0 \<or> sint (ofs + len) > sint (ba_dim b ! changed_dim)
         then Some (Inl (Invalid_argument ''Bigarray.sub: bad sub-array''))
         else
           Option.bind (element_size (ba_flags b)) (\<lambda>sz.
             sub_array malloc mtod b (ba_data b + unat (ofs * mul * sz)) (ba_dim b)
               (\<lambda>res. res\<lparr>ba_dim := (ba_dim res)[changed_dim := len]\<rparr>) st))"

section \<open>Copying, filling, reshaping\<close>

definition caml_ba_blit :: "caml_ba_array \<Rightarrow> caml_ba_array \<Rightarrow> 's ba_state \<Rightarrow> 's ba_state outcome option" where
  "caml_ba_blit src dst st =
     (if ba_dim src \<noteq> ba_dim dst then Some (Inl (Invalid_argument ''Bigarray.blit: dimension mismatch''))
      else map_option (\<lambda>num_bytes. Inr (store_bytes (ba_data dst) (memory_bytes st (ba_data src) (unat num_bytes)) st))
             (caml_ba_byte_size src))"

fun fill_loop :: "nat \<Rightarrow> u64 \<Rightarrow> nat \<Rightarrow> nat \<Rightarrow> 's ba_state \<Rightarrow> 's ba_state" where
  "fill_loop sz init p 0 st = st"
| "fill_loop sz init p (Suc num_elts) st = fill_loop sz init (p + sz) num_elts (store_word sz p init st)"

definition fill_word :: "u64 \<Rightarrow> ba_value \<Rightarrow> (nat \<times> u64) option" where
  "fill_word k vinit =
     (case vinit of
        Ba_int v \<Rightarrow>
          if k = CAML_BA_SINT16 \<or> k = CAML_BA_UINT16 then Some (2, ucast (Int_val v))
          else if k = CAML_BA_CAML_INT then Some (8, Long_val v)
          else if k = CAML_BA_INT32 \<or> k = CAML_BA_INT64 \<or> k = CAML_BA_NATIVE_INT then None
          else Some (1, ucast (Int_val v))
      | Ba_int32 i \<Rightarrow> if k = CAML_BA_INT32 then Some (4, ucast i) else None
      | Ba_int64 i \<Rightarrow> if k = CAML_BA_INT64 then Some (8, i) else None
      | Ba_nativeint i \<Rightarrow> if k = CAML_BA_NATIVE_INT then Some (8, i) else None)"

definition caml_ba_fill :: "caml_ba_array \<Rightarrow> ba_value \<Rightarrow> 's ba_state \<Rightarrow> 's ba_state option" where
  "caml_ba_fill b vinit st =
     map_option (\<lambda>(sz, init). fill_loop sz init (ba_data b) (nat (sint (caml_ba_num_elts (ba_dim b)))) st)
       (fill_word (ba_kind b) vinit)"

definition caml_ba_reshape ::
    "'s malloc \<Rightarrow> (nat \<Rightarrow> nat) \<Rightarrow> caml_ba_array \<Rightarrow> u64 list \<Rightarrow> 's ba_state \<Rightarrow> (caml_ba_array \<times> caml_ba_array \<times> 's ba_state) outcome option" where
  "caml_ba_reshape malloc mtod b vdim st =
     (if length vdim < 1 \<or> length vdim > CAML_BA_MAX_NUM_DIMS
      then Some (Inl (Invalid_argument ''Bigarray.reshape: bad number of dimensions''))
      else
        (case read_dims (\<lambda>d. sint d < 0 \<or> sint d > 0x7FFFFFFF) ''Bigarray.reshape: negative dimension'' vdim of
           Inl e \<Rightarrow> Some (Inl e)
         | Inr dim \<Rightarrow>
             if caml_ba_num_elts dim \<noteq> caml_ba_num_elts (ba_dim b)
             then Some (Inl (Invalid_argument ''Bigarray.reshape: size mismatch''))
             else sub_array malloc mtod b (ba_data b) dim (\<lambda>res. res) st))"

section \<open>Cstruct\<close>

definition caml_bigarray_base_offset :: "caml_ba_array \<Rightarrow> 's ba_state \<Rightarrow> u64 option" where
  "caml_bigarray_base_offset ba st =
     (case ba_proxy ba of
        None \<Rightarrow> Some (Val_long 0)
      | Some p \<Rightarrow> map_option (\<lambda>x. Val_long (of_int (int (ba_data ba) - int (proxy_data x)))) (proxies st p))"

definition caml_bigarray_shift_left :: "caml_ba_array \<Rightarrow> u64 \<Rightarrow> 's ba_state \<Rightarrow> (u64 \<times> caml_ba_array) option" where
  "caml_bigarray_shift_left ba v_len st =
     (if length (ba_dim ba) \<noteq> 1 then Some (Val_long 0, ba)
      else
        (case ba_proxy ba of
           None \<Rightarrow> Some (Val_long 0, ba)
         | Some p \<Rightarrow>
             map_option (\<lambda>x.
               let avail = int (ba_data ba) - int (proxy_data x); len = sint (Int_val v_len)
               in if len > avail then (Val_long 0, ba)
                  else (Val_long 1, ba\<lparr>ba_data := nat (int (ba_data ba) - len), ba_dim := [ba_dim ba ! 0 + of_int len]\<rparr>))
               (proxies st p)))"

end
