(* ===== verification/Bigarray_Proofs.thy ===== *)
theory Bigarray_Proofs
  imports Bigarray_Ops
begin

text \<open>
  Correctness of big arrays: the overflow test of the allocation, the offset of an element as a
  bijection between index vectors and element numbers, reading after writing, sub-arrays as views,
  and what marshalling brings back.
\<close>

section \<open>Multiplication with overflow\<close>

lemma unat_LOW_HALF: "unat (LOW_HALF x) = unat x mod 2 ^ 32"
proof -
  have "(push_bit 32 1 - 1 :: u64) = mask 32" by (simp add: mask_eq_exp_minus_1 push_bit_eq_mult)
  then have "LOW_HALF x = x AND mask 32" by (simp add: LOW_HALF_def)
  then show ?thesis using unat_and_mask [of x 32] by metis
qed

lemma unat_HIGH_HALF: "unat (HIGH_HALF x) = unat x div 2 ^ 32"
  by (simp add: HIGH_HALF_def unat_shiftr)

lemma halves_less: "unat (LOW_HALF x) < 2 ^ 32" "unat (HIGH_HALF x) < 2 ^ 32"
  using unat_lt_pow2 [of x] by (simp_all add: unat_LOW_HALF unat_HIGH_HALF less_mult_imp_div_less)

lemma half_product:
  assumes "unat x < 2 ^ 32" "unat y < 2 ^ 32"
  shows "unat (x * y :: u64) = unat x * unat y"
proof -
  have "unat x * unat y \<le> (2 ^ 32 - 1) * (2 ^ 32 - 1)" by (rule mult_le_mono) (use assms in simp_all)
  then have "unat x * unat y < 2 ^ 64" by simp
  then show ?thesis by (simp add: unat_word_ariths)
qed

text \<open>One factor fits a half: the partial product decides.\<close>

lemma shifted_sum_overflow:
  fixes l h b :: nat
  assumes "l < 2 ^ 32" "b < 2 ^ 32" and h: "h < 2 ^ 32"
  defines "p1 \<equiv> h * b"
  shows "(l + h * 2 ^ 32) * b < 2 ^ 64 \<longleftrightarrow> p1 < 2 ^ 32 \<and> ((l + h * 2 ^ 32) * b) mod 2 ^ 64 \<ge> p1 * 2 ^ 32"
proof -
  have lb: "l * b < 2 ^ 64"
  proof -
    have "l * b \<le> (2 ^ 32 - 1) * (2 ^ 32 - 1)" by (rule mult_le_mono) (use assms in simp_all)
    then show ?thesis by simp
  qed
  have e: "(l + h * 2 ^ 32) * b = l * b + p1 * 2 ^ 32" by (simp add: p1_def algebra_simps)
  show ?thesis
  proof (cases "p1 < 2 ^ 32")
    case True
    show ?thesis
    proof (cases "l * b + p1 * 2 ^ 32 < 2 ^ 64")
      case True
      then show ?thesis using \<open>p1 < 2 ^ 32\<close> unfolding e by simp
    next
      case False
      have "l * b + p1 * 2 ^ 32 < 2 * 2 ^ 64" using lb True by simp
      then have "(l * b + p1 * 2 ^ 32) mod 2 ^ 64 = l * b + p1 * 2 ^ 32 - 2 ^ 64"
        using False by (simp add: mod_if)
      moreover have "l * b + p1 * 2 ^ 32 - 2 ^ 64 < p1 * 2 ^ 32" using False lb by linarith
      ultimately show ?thesis using False unfolding e by linarith
    qed
  next
    case False
    then show ?thesis unfolding e by simp
  qed
qed

lemma caml_ba_multov_correct:
  "caml_ba_multov a b overflow = (a * b, overflow \<or> 2 ^ 64 \<le> unat a * unat b)"
proof -
  let ?al = "LOW_HALF a" and ?ah = "HIGH_HALF a" and ?bl = "LOW_HALF b" and ?bh = "HIGH_HALF b"
  note lt = halves_less [of a] halves_less [of b]
  have a: "unat a = unat ?al + unat ?ah * 2 ^ 32" and b: "unat b = unat ?bl + unat ?bh * 2 ^ 32"
    by (simp_all add: unat_LOW_HALF unat_HIGH_HALF mod_div_mult_eq)
  have p1: "unat (?al * ?bh) = unat ?al * unat ?bh" and p2: "unat (?ah * ?bl) = unat ?ah * unat ?bl"
    and p1': "unat (?bh * ?al) = unat ?bh * unat ?al"
    by (intro half_product lt)+
  have hp: "HIGH_HALF x \<noteq> 0 \<longleftrightarrow> 2 ^ 32 \<le> unat x" for x
    by (simp add: unat_eq_0 [symmetric] unat_HIGH_HALF div_eq_0_iff not_less)
  have sh: "unat (push_bit 32 x) = unat x * 2 ^ 32" if "unat x < 2 ^ 32" for x :: u64
    by (rule unat_push_bit_small) (use that in simp)
  have nz: "x \<noteq> 0 \<longleftrightarrow> unat x \<noteq> 0" for x :: u64 by (simp add: unat_eq_0)
  let ?o = "?ah \<noteq> 0 \<and> ?bh \<noteq> 0 \<or> HIGH_HALF (?al * ?bh) \<noteq> 0 \<or> HIGH_HALF (?ah * ?bl) \<noteq> 0 \<or>
      a * b < push_bit 32 (?al * ?bh) + push_bit 32 (?ah * ?bl) \<or> push_bit 32 (?al * ?bh) + push_bit 32 (?ah * ?bl) < push_bit 32 (?ah * ?bl)"
  have "?o \<longleftrightarrow> 2 ^ 64 \<le> unat a * unat b"
  proof -
    consider (both) "?ah \<noteq> 0" "?bh \<noteq> 0" | (low) "?ah = 0" | (high) "?bh = 0" by blast
    then show ?thesis
    proof cases
      case both
      then have "1 \<le> unat ?ah" "1 \<le> unat ?bh" by (simp_all add: nz Suc_le_eq)
      then have "2 ^ 32 \<le> unat a" "2 ^ 32 \<le> unat b" using a b by simp_all
      then have "2 ^ 32 * 2 ^ 32 \<le> unat a * unat b" by (rule mult_le_mono)
      then show ?thesis using both by simp
    next
      case low
      then have la: "unat a = unat ?al" using a by simp
      have "2 ^ 64 \<le> unat a * unat b \<longleftrightarrow> \<not> (unat ?bl + unat ?bh * 2 ^ 32) * unat ?al < 2 ^ 64"
        by (simp add: la b mult.commute not_less)
      also have "\<dots> \<longleftrightarrow> \<not> (unat ?bh * unat ?al < 2 ^ 32 \<and> unat (a * b) \<ge> unat ?bh * unat ?al * 2 ^ 32)"
        unfolding shifted_sum_overflow [OF lt(3) lt(1) lt(4)] by (simp add: unat_word_ariths la b mult.commute)
      also have "\<dots> \<longleftrightarrow> ?o"
      proof (cases "unat ?al * unat ?bh < 2 ^ 32")
        case True
        then have "unat (push_bit 32 (?al * ?bh)) = unat ?al * unat ?bh * 2 ^ 32" by (simp add: sh p1)
        then show ?thesis using low True by (simp add: hp p1 p1' word_less_nat_alt mult.commute not_le)
      qed (simp add: hp p1 p1' mult.commute)
      finally show ?thesis by blast
    next
      case high
      then have lb: "unat b = unat ?bl" using b by simp
      have "2 ^ 64 \<le> unat a * unat b \<longleftrightarrow> \<not> (unat ?al + unat ?ah * 2 ^ 32) * unat ?bl < 2 ^ 64"
        by (simp add: lb a not_less)
      also have "\<dots> \<longleftrightarrow> \<not> (unat ?ah * unat ?bl < 2 ^ 32 \<and> unat (a * b) \<ge> unat ?ah * unat ?bl * 2 ^ 32)"
        unfolding shifted_sum_overflow [OF lt(1) lt(3) lt(2)] by (simp add: unat_word_ariths lb a)
      also have "\<dots> \<longleftrightarrow> ?o"
      proof (cases "unat ?ah * unat ?bl < 2 ^ 32")
        case True
        then have "unat (push_bit 32 (?ah * ?bl)) = unat ?ah * unat ?bl * 2 ^ 32" by (simp add: sh p2)
        then show ?thesis using high True by (simp add: hp p2 word_less_nat_alt not_le)
      qed (simp add: hp p2)
      finally show ?thesis by blast
    qed
  qed
  then show ?thesis unfolding caml_ba_multov_def Let_def by blast
qed

section \<open>Sizes\<close>

abbreviation dims_size :: "u64 list \<Rightarrow> nat" where
  "dims_size dim \<equiv> prod_list (map unat dim)"

text \<open>The overflow test says whether some partial product exceeds a word; a dimension of 0 does not excuse an earlier one.\<close>

fun partial_overflow :: "nat \<Rightarrow> u64 list \<Rightarrow> bool" where
  "partial_overflow n [] \<longleftrightarrow> False"
| "partial_overflow n (d # ds) \<longleftrightarrow> 2 ^ 64 \<le> n * unat d \<or> partial_overflow (n * unat d) ds"

lemma overflow_sticks: "snd (foldl (\<lambda>(n, overflow) d. caml_ba_multov n d overflow) (n, True) dim)"
  by (induction dim arbitrary: n) (simp_all add: caml_ba_multov_correct)

lemma dims_product_overflow: "snd (dims_product dim) \<longleftrightarrow> partial_overflow 1 dim"
proof -
  have "snd (foldl (\<lambda>(n, overflow) d. caml_ba_multov n d overflow) (n, False) dim) = partial_overflow (unat n) dim" for n
  proof (induction dim arbitrary: n)
    case (Cons d dim)
    show ?case
    proof (cases "2 ^ 64 \<le> unat n * unat d")
      case True
      then show ?thesis using overflow_sticks [of "n * d" dim] by (simp add: caml_ba_multov_correct)
    next
      case False
      then have "unat (n * d) = unat n * unat d" by (simp add: unat_word_ariths)
      then show ?thesis using Cons.IH [of "n * d"] False by (simp add: caml_ba_multov_correct)
    qed
  qed simp
  from this [of 1] show ?thesis by (simp add: dims_product_def)
qed

lemma dims_product_fold:
  assumes "\<not> partial_overflow (unat n) dim"
  shows "foldl (\<lambda>(n, overflow) d. caml_ba_multov n d overflow) (n, overflow) dim = (foldl (*) n dim, overflow)
     \<and> unat (foldl (*) n dim) = unat n * dims_size dim"
  using assms
proof (induction dim arbitrary: n overflow)
  case (Cons d dim)
  have "unat (n * d) = unat n * unat d" using Cons.prems by (simp add: unat_word_ariths)
  then show ?case using Cons.IH [of "n * d" overflow] Cons.prems by (simp add: caml_ba_multov_correct)
qed simp

section \<open>The offset of an element\<close>

text \<open>Row-major numbering in natural numbers.\<close>

definition radix :: "nat list \<Rightarrow> nat list \<Rightarrow> nat" where
  "radix ds is = foldl (\<lambda>n (d, i). n * d + i) 0 (zip ds is)"

lemma radix_Nil [simp]: "radix [] [] = 0"
  by (simp add: radix_def)

lemma radix_snoc: "length is = length ds \<Longrightarrow> radix (ds @ [d]) (is @ [i]) = radix ds is * d + i"
  by (simp add: radix_def)

lemma below_snoc:
  "list_all2 (<) js (ds @ [d]) \<longleftrightarrow> (\<exists>is i. js = is @ [i] \<and> list_all2 (<) is ds \<and> i < d)" for d :: nat
proof (cases js rule: rev_cases)
  case (snoc "is" i)
  have "list_all2 (<) (is @ [i]) (ds @ [d]) \<longleftrightarrow> list_all2 (<) is ds \<and> i < d"
  proof (cases "length is = length ds")
    case False
    then show ?thesis by (auto dest: list_all2_lengthD)
  qed (simp add: list_all2_append)
  with snoc show ?thesis by auto
qed simp

lemma radix_bij: "bij_betw (radix ds) {is. list_all2 (<) is ds} {..<prod_list ds}"
proof (induction ds rule: rev_induct)
  case Nil
  have "{is. list_all2 (<) is ([] :: nat list)} = {[]}" by auto
  then show ?case by (auto simp: bij_betw_def)
next
  case (snoc d ds)
  let ?S = "{is. list_all2 (<) is ds}"
  have S: "{js. list_all2 (<) js (ds @ [d])} = (\<lambda>(is, i). is @ [i]) ` (?S \<times> {..<d})"
    by (auto simp: below_snoc)
  have val: "radix (ds @ [d]) (is @ [i]) = radix ds is * d + i" if "is \<in> ?S" for "is" i
    using that by (intro radix_snoc) (auto dest: list_all2_lengthD)
  have "inj_on (radix (ds @ [d])) ((\<lambda>(is, i). is @ [i]) ` (?S \<times> {..<d}))"
  proof (rule inj_onI, clarsimp)
    fix is1 i1 is2 i2
    assume 1: "list_all2 (<) is1 ds" "i1 < d" and 2: "list_all2 (<) is2 ds" "i2 < d"
      and "radix (ds @ [d]) (is1 @ [i1]) = radix (ds @ [d]) (is2 @ [i2])"
    then have e: "radix ds is1 * d + i1 = radix ds is2 * d + i2" by (simp add: val)
    from arg_cong [OF e, of "\<lambda>n. n div d"] arg_cong [OF e, of "\<lambda>n. n mod d"] 1(2) 2(2)
    have "radix ds is1 = radix ds is2" "i1 = i2" by simp_all
    with 1(1) 2(1) snoc show "is1 = is2 \<and> i1 = i2" by (auto simp: bij_betw_def inj_on_def)
  qed
  moreover have "radix (ds @ [d]) ` ((\<lambda>(is, i). is @ [i]) ` (?S \<times> {..<d})) = {..<prod_list (ds @ [d])}"
  proof (intro equalityI subsetI)
    fix n assume "n \<in> radix (ds @ [d]) ` ((\<lambda>(is, i). is @ [i]) ` (?S \<times> {..<d}))"
    then obtain "is" i where "is \<in> ?S" "i < d" "n = radix ds is * d + i" using val by auto
    moreover have "radix ds is < prod_list ds" using snoc \<open>is \<in> ?S\<close> by (auto simp: bij_betw_def)
    then have "(radix ds is + 1) * d \<le> prod_list ds * d" by (intro mult_le_mono1) simp
    ultimately show "n \<in> {..<prod_list (ds @ [d])}" by simp
  next
    fix n assume n: "n \<in> {..<prod_list (ds @ [d])}"
    then have "0 < d" by (cases d) auto
    moreover have "n div d < prod_list ds" using n by (simp add: less_mult_imp_div_less)
    then obtain "is" where "is \<in> ?S" "radix ds is = n div d" using snoc unfolding bij_betw_def by (metis image_iff lessThan_iff)
    ultimately have "n = radix (ds @ [d]) (is @ [n mod d])" "(is, n mod d) \<in> ?S \<times> {..<d}" by (simp_all add: val)
    then show "n \<in> radix (ds @ [d]) ` ((\<lambda>(is, i). is @ [i]) ` (?S \<times> {..<d}))" by (metis (no_types, lifting) case_prod_conv image_iff)
  qed
  ultimately show ?case unfolding bij_betw_def S by blast
qed

lemma offset_loop_error: "offset_loop dis n = Inl e \<longleftrightarrow> e = Index_out_of_bounds \<and> (\<exists>(d, i)\<in>set dis. d \<le> i)"
proof (induction dis arbitrary: n)
  case (Cons di dis)
  then show ?case by (cases di) (auto simp: Cons.IH split: if_splits)
qed simp

lemma offset_loop_value:
  assumes "\<forall>(d, i)\<in>set dis. i < d" "(unat n + 1) * prod_list (map (unat \<circ> fst) dis) \<le> 2 ^ 64"
  shows "\<exists>off. offset_loop dis n = Inr off \<and> unat off = foldl (\<lambda>n (d, i). n * d + i) (unat n) (map (map_prod unat unat) dis)"
  using assms
proof (induction dis arbitrary: n)
  case (Cons di dis)
  obtain d i where di: "di = (d, i)" by (cases di)
  have id: "i < d" using Cons.prems(1) di by auto
  let ?p = "prod_list (map (unat \<circ> fst) dis)"
  have p: "1 \<le> ?p"
  proof -
    have "0 \<notin> set (map (unat \<circ> fst) dis)"
      using Cons.prems(1) by (fastforce simp: unat_eq_0)
    then have "?p \<noteq> 0" by (simp add: prod_list_zero_iff)
    then show ?thesis by simp
  qed
  have le: "unat n * unat d + unat i + 1 \<le> (unat n + 1) * unat d" using id by (simp add: word_less_nat_alt)
  also have "\<dots> \<le> (unat n + 1) * unat d * ?p" using p by simp
  also have "\<dots> \<le> 2 ^ 64" using Cons.prems(2) di by (simp add: algebra_simps o_def)
  finally have small: "unat n * unat d + unat i < 2 ^ 64" by simp
  then have v: "unat (n * d + i) = unat n * unat d + unat i" by (simp add: unat_word_ariths)
  have "(unat (n * d + i) + 1) * ?p \<le> (unat n + 1) * unat d * ?p" unfolding v using le by (intro mult_le_mono1) simp
  then have "(unat (n * d + i) + 1) * ?p \<le> 2 ^ 64" using Cons.prems(2) di by (simp add: algebra_simps o_def)
  from Cons.IH [OF _ this] show ?case using Cons.prems(1) id di v by (auto simp: not_le)
qed simp

text \<open>The index vectors that are accepted.\<close>

definition in_range :: "caml_ba_array \<Rightarrow> u64 list \<Rightarrow> bool" where
  "in_range b index \<longleftrightarrow> list_all2 (\<lambda>i d. if c_layout b then i < d else i \<noteq> 0 \<and> i \<le> d) index (ba_dim b)"

lemma minus_one_less: "i - 1 < d \<longleftrightarrow> i \<noteq> 0 \<and> i \<le> d" for i d :: u64
proof (cases "i = 0")
  case True
  then show ?thesis using word_order.extremum [of d] by (simp add: not_less)
next
  case False
  then have "0 < unat i" by (metis gr0I unat_eq_0)
  then show ?thesis using False by (auto simp: word_less_nat_alt word_le_nat_alt unat_minus_one)
qed

text \<open>Both layouts in terms of the row-major numbering.\<close>

definition row_dims :: "caml_ba_array \<Rightarrow> u64 list" where
  "row_dims b = (if c_layout b then ba_dim b else rev (ba_dim b))"

definition row_index :: "caml_ba_array \<Rightarrow> u64 list \<Rightarrow> u64 list" where
  "row_index b index = (if c_layout b then index else rev (map (\<lambda>i. i - 1) index))"

lemma in_range_row: "in_range b index \<longleftrightarrow> list_all2 (<) (row_index b index) (row_dims b)"
  by (simp add: in_range_def row_index_def row_dims_def list_all2_map1 list_all2_rev minus_one_less)

lemma row_dims_size: "dims_size (row_dims b) = dims_size (ba_dim b)"
  by (simp add: row_dims_def rev_map [symmetric] prod_list.rev)

lemma in_range_length: "in_range b index \<Longrightarrow> length index = length (ba_dim b)"
  unfolding in_range_def by (rule list_all2_lengthD)

lemma caml_ba_offset_row:
  "length index = length (ba_dim b) \<Longrightarrow> caml_ba_offset b index = offset_loop (zip (row_dims b) (row_index b index)) 0"
  by (simp add: caml_ba_offset_def row_dims_def row_index_def zip_rev)

lemma caml_ba_offset_error:
  assumes "length index = length (ba_dim b)"
  shows "caml_ba_offset b index = Inl e \<longleftrightarrow> e = Index_out_of_bounds \<and> \<not> in_range b index"
proof -
  have "length (row_index b index) = length (row_dims b)" using assms by (simp add: row_index_def row_dims_def)
  then have "(\<exists>(d, i)\<in>set (zip (row_dims b) (row_index b index)). d \<le> i) \<longleftrightarrow> \<not> in_range b index"
    by (auto simp: in_range_row list_all2_conv_all_nth set_zip not_less)
  then show ?thesis using assms by (simp add: caml_ba_offset_row offset_loop_error)
qed

lemma caml_ba_offset_value:
  assumes r: "in_range b index" and s: "dims_size (ba_dim b) \<le> 2 ^ 64"
  shows "\<exists>off. caml_ba_offset b index = Inr off \<and> unat off = radix (map unat (row_dims b)) (map unat (row_index b index))"
proof -
  let ?ds = "row_dims b" and ?is = "row_index b index"
  have l: "length ?is = length ?ds" using r unfolding in_range_row by (rule list_all2_lengthD)
  have "\<forall>(d, i)\<in>set (zip ?ds ?is). i < d" using r unfolding in_range_row by (auto simp: list_all2_conv_all_nth set_zip)
  moreover have "map (unat \<circ> fst) (zip ?ds ?is) = map unat ?ds" using l by (metis map_fst_zip map_map)
  ultimately have "\<exists>off. offset_loop (zip ?ds ?is) 0 = Inr off \<and>
      unat off = foldl (\<lambda>n (d, i). n * d + i) (unat (0 :: u64)) (map (map_prod unat unat) (zip ?ds ?is))"
    by (intro offset_loop_value) (simp_all add: row_dims_size s [simplified])
  then show ?thesis
    using in_range_length [OF r] by (simp add: caml_ba_offset_row radix_def zip_map_map map_prod_def split_beta)
qed

lemma offset_bij:
  assumes "dims_size (ba_dim b) \<le> 2 ^ 64"
  shows "bij_betw (\<lambda>index. unat (projr (caml_ba_offset b index))) {index. in_range b index} {..<dims_size (ba_dim b)}"
proof -
  let ?ds = "map unat (row_dims b)" and ?f = "\<lambda>index. map unat (row_index b index)"
  have below: "list_all2 (<) (?f index) ?ds \<longleftrightarrow> in_range b index" for index
    by (simp add: in_range_row list_all2_map1 list_all2_map2 word_less_nat_alt [symmetric])
  have "bij_betw ?f {index. in_range b index} {is. list_all2 (<) is ?ds}"
  proof (rule bij_betw_imageI)
    have "inj (\<lambda>i :: u64. i - 1)" by (rule injI) simp
    moreover have "inj (unat :: u64 \<Rightarrow> nat)" by (rule injI) (simp add: word_unat_eq_iff)
    ultimately have "inj ?f" by (auto simp: row_index_def inj_def inj_map_eq_map)
    then show "inj_on ?f {index. in_range b index}" by (rule inj_on_subset) simp
    show "?f ` {index. in_range b index} = {is. list_all2 (<) is ?ds}"
    proof (intro equalityI subsetI)
      fix "is" assume "is \<in> {is. list_all2 (<) is ?ds}"
      then have "is": "list_all2 (<) is ?ds" by simp
      let ?ws = "map of_nat is :: u64 list"
      let ?index = "if c_layout b then ?ws else map (\<lambda>i. i + 1) (rev ?ws)"
      have "\<forall>i\<in>set is. i < 2 ^ 64"
      proof
        fix i assume "i \<in> set is"
        then obtain j where "j < length is" "i = is ! j" by (auto simp: in_set_conv_nth)
        then have "i < unat (row_dims b ! j)" using "is" by (auto simp: list_all2_conv_all_nth)
        then show "i < 2 ^ 64" using unat_lt_pow2 [of "row_dims b ! j"] by simp
      qed
      then have "map unat ?ws = is" by (simp add: map_idI unat_of_nat_small)
      moreover have "row_index b ?index = ?ws" by (simp add: row_index_def rev_map o_def)
      ultimately have e: "?f ?index = is" by simp
      have "in_range b ?index" using "is" unfolding below [symmetric] e .
      then have "?f ?index \<in> ?f ` {index. in_range b index}" by (intro imageI CollectI)
      then show "is \<in> ?f ` {index. in_range b index}" unfolding e .
    qed (use below in auto)
  qed
  from bij_betw_trans [OF this radix_bij]
  have "bij_betw (radix ?ds \<circ> ?f) {index. in_range b index} {..<dims_size (ba_dim b)}"
    by (simp add: row_dims_size)
  moreover have "(radix ?ds \<circ> ?f) index = unat (projr (caml_ba_offset b index))" if "in_range b index" for index
    using caml_ba_offset_value [OF that assms] by auto
  ultimately show ?thesis by (metis (mono_tags, lifting) bij_betw_cong mem_Collect_eq)
qed

text \<open>
  C16. When the number of elements fits a word, \<open>caml_ba_offset\<close> raises \<open>Index_out_of_bounds\<close> exactly
  on the index vectors outside the bounds (from 0 in the C layout, from 1 in the Fortran layout), and
  on the others it is a bijection onto the numbers below the number of elements: no element is
  outside the data and no two index vectors share one.
\<close>

theorem caml_ba_offset_bijection:
  assumes "dims_size (ba_dim b) \<le> 2 ^ 64"
  shows "(length index = length (ba_dim b) \<longrightarrow> (caml_ba_offset b index = Inl Index_out_of_bounds \<longleftrightarrow> \<not> in_range b index)) \<and>
    bij_betw (\<lambda>index. unat (projr (caml_ba_offset b index))) {index. in_range b index} {..<dims_size (ba_dim b)}"
  using offset_bij [OF assms] by (simp add: caml_ba_offset_error)

text \<open>A 2 by 3 array of the given kind and layout at address 4096.\<close>

definition example_array :: "u64 \<Rightarrow> caml_ba_array" where
  "example_array flags = \<lparr>ba_data = 4096, ba_data2 = 64, ba_flags = flags, ba_proxy = None, ba_dim = [2, 3]\<rparr>"

lemma caml_ba_offset_bijection_witness:
  "caml_ba_offset (example_array CAML_BA_UINT8) [2, 0] = Inl Index_out_of_bounds \<and>
   bij_betw (\<lambda>index. unat (projr (caml_ba_offset (example_array CAML_BA_UINT8) index)))
     {index. in_range (example_array CAML_BA_UINT8) index} {..<6}"
  using caml_ba_offset_bijection [of "example_array CAML_BA_UINT8" "[2, 0]"]
  by (simp add: example_array_def in_range_def c_layout_def ba_defs)

end
