(* ===== verification/Bigarray_Elements.thy ===== *)
theory Bigarray_Elements
  imports Bigarray_Proofs
begin

text \<open>
  Elements of big arrays in memory: what a write stores is read back, reduced to the width of the
  kind, and nothing else changes; sub-arrays are views of the same elements.
\<close>

section \<open>Words in memory\<close>

lemma of_le_bytes8_zeros: "of_le_bytes8 (xs @ replicate n 0) = of_le_bytes8 xs"
  by (induction n) (simp_all add: of_le_bytes8_def replicate_append_same [symmetric] flip: append_assoc)

lemma take_le_bytes8:
  assumes "n \<in> {1, 2, 4, 8}"
  shows "of_le_bytes8 (take n (le_bytes8 w)) = take_bit (8 * n) w"
proof -
  have z: "ucast (drop_bit k (take_bit m w)) = (0 :: u8)" if "m \<le> k" for k m
    using that by (intro bit_word_eqI) (simp add: bit_simps)
  have s: "ucast (drop_bit k (take_bit m w)) = (ucast (drop_bit k w) :: u8)" if "k + 8 \<le> m" for k m
    using that by (intro bit_word_eqI) (auto simp: bit_simps)
  have "le_bytes8 (take_bit (8 * n) w) = take n (le_bytes8 w) @ replicate (8 - n) 0"
    using assms s [of 0] by (auto simp: le_bytes8_def z s numeral_eq_Suc)
  then have "of_le_bytes8 (take n (le_bytes8 w)) = of_le_bytes8 (le_bytes8 (take_bit (8 * n) w))"
    by (simp add: of_le_bytes8_zeros)
  then show ?thesis by (simp add: of_le_bytes8_le_bytes8)
qed

lemma load_store:
  assumes "n \<in> {1, 2, 4, 8}"
  shows "load n (store_word n a w st) a = take_bit (8 * n) w"
proof -
  have "length (take n (le_bytes8 w)) = n" using assms by auto
  then have "map (ba_mem (store_word n a w st)) [a..<a + n] = take n (le_bytes8 w)"
    by (intro nth_equalityI) (simp_all add: store_word_def store_bytes_def)
  then show ?thesis by (simp only: load_def take_le_bytes8 [OF assms])
qed

lemma store_word_outside:
  "n \<le> 8 \<Longrightarrow> x < a \<or> a + n \<le> x \<Longrightarrow> ba_mem (store_word n a w st) x = ba_mem st x"
  by (auto simp: store_word_def store_bytes_def)

lemma load_outside:
  assumes "n \<le> 8" "c + m \<le> a \<or> a + n \<le> c"
  shows "load m (store_word n a w st) c = load m st c"
proof -
  have "map (ba_mem (store_word n a w st)) [c..<c + m] = map (ba_mem st) [c..<c + m]"
    using assms by (intro map_cong refl store_word_outside) auto
  then show ?thesis by (simp only: load_def)
qed

section \<open>Kinds\<close>

definition known_kind :: "caml_ba_array \<Rightarrow> bool" where
  "known_kind b \<longleftrightarrow> element_size (ba_flags b) \<noteq> None"

definition width :: "caml_ba_array \<Rightarrow> nat" where
  "width b = unat (the (element_size (ba_flags b)))"

lemma known_kinds:
  assumes "known_kind b"
  shows "ba_kind b \<in> {0, 1, 2, 3, 4, 5, 6, 7}"
proof -
  have "unat (ba_kind b) < 8"
    using assms by (simp add: known_kind_def element_size_def ba_kind_def Let_def caml_ba_element_size_def split: if_splits)
  then have "unat (ba_kind b) \<in> {0, 1, 2, 3, 4, 5, 6, 7}" by auto
  then show ?thesis by (auto simp: word_unat_eq_iff)
qed

lemma width_kind:
  assumes "known_kind b"
  shows "width b = unat (caml_ba_element_size ! unat (ba_kind b))" "element_size (ba_flags b) = Some (of_nat (width b))" "width b \<in> {1, 2, 4, 8}"
proof -
  show w: "width b = unat (caml_ba_element_size ! unat (ba_kind b))"
    using assms by (simp add: width_def known_kind_def element_size_def ba_kind_def Let_def split: if_splits)
  show "element_size (ba_flags b) = Some (of_nat (width b))"
    using assms by (auto simp: width_def known_kind_def)
  show "width b \<in> {1, 2, 4, 8}"
    using known_kinds [OF assms] by (auto simp: w caml_ba_element_size_def)
qed

text \<open>The values an array of a kind takes, and what is left of one in an element.\<close>

fun of_kind :: "u64 \<Rightarrow> ba_value \<Rightarrow> bool" where
  "of_kind k (Ba_int v) \<longleftrightarrow> k \<in> {CAML_BA_SINT8, CAML_BA_UINT8, CAML_BA_SINT16, CAML_BA_UINT16, CAML_BA_CAML_INT}"
| "of_kind k (Ba_int32 i) \<longleftrightarrow> k = CAML_BA_INT32"
| "of_kind k (Ba_int64 i) \<longleftrightarrow> k = CAML_BA_INT64"
| "of_kind k (Ba_nativeint i) \<longleftrightarrow> k = CAML_BA_NATIVE_INT"

definition reduce_int :: "u64 \<Rightarrow> int \<Rightarrow> int" where
  "reduce_int k n =
     (if k = CAML_BA_SINT8 then signed_take_bit 7 n
      else if k = CAML_BA_UINT8 then take_bit 8 n
      else if k = CAML_BA_SINT16 then signed_take_bit 15 n
      else if k = CAML_BA_UINT16 then take_bit 16 n
      else n)"

fun reduced :: "u64 \<Rightarrow> ba_value \<Rightarrow> ba_value" where
  "reduced k (Ba_int v) = Ba_int (Val_long (of_int (reduce_int k (sint (Long_val v)))))"
| "reduced k v = v"

definition decode :: "u64 \<Rightarrow> u64 \<Rightarrow> ba_value" where
  "decode k w =
     (if k = CAML_BA_UINT8 \<or> k = CAML_BA_UINT16 \<or> k = CAML_BA_CAML_INT then Ba_int (Val_long w)
      else if k = CAML_BA_SINT16 then Ba_int (Val_long (scast (ucast w :: u16)))
      else if k = CAML_BA_INT32 then Ba_int32 (ucast w)
      else if k = CAML_BA_INT64 then Ba_int64 w
      else if k = CAML_BA_NATIVE_INT then Ba_nativeint w
      else Ba_int (Val_long (scast (ucast w :: u8))))"

fun encode :: "u64 \<Rightarrow> ba_value \<Rightarrow> u64" where
  "encode k (Ba_int v) = (if k = CAML_BA_CAML_INT then Long_val v else ucast (Int_val v))"
| "encode k (Ba_int32 i) = ucast i"
| "encode k (Ba_int64 i) = i"
| "encode k (Ba_nativeint i) = i"

lemma read_element_decode:
  assumes "known_kind b"
  shows "read_element b offset st = decode (ba_kind b) (load (width b) st (ba_data b + unat offset * width b))"
  using known_kinds [OF assms]
  by (auto simp: read_element_def decode_def width_kind(1) [OF assms] caml_ba_element_size_def ba_defs Let_def)

lemma write_element_encode:
  assumes "known_kind b" "of_kind (ba_kind b) v"
  shows "write_element b offset v st = Some (store_word (width b) (ba_data b + unat offset * width b) (encode (ba_kind b) v) st)"
  using known_kinds [OF assms(1)] assms(2)
  by (cases v) (auto simp: write_element_def width_kind(1) [OF assms(1)] caml_ba_element_size_def ba_defs Let_def)

lemma decode_encode:
  assumes "known_kind b" "of_kind (ba_kind b) v"
  shows "decode (ba_kind b) (take_bit (8 * width b) (encode (ba_kind b) v)) = reduced (ba_kind b) v"
proof (cases v)
  case (Ba_int v)
  have i: "of_int (sint (Long_val v)) = Long_val v" by simp
  have "scast (ucast (take_bit 8 (ucast (Int_val v) :: u64)) :: u8) = (of_int (signed_take_bit 7 (sint (Long_val v))) :: u64)"
    "take_bit 8 (ucast (Int_val v) :: u64) = of_int (take_bit 8 (sint (Long_val v)))"
    "scast (ucast (take_bit 16 (ucast (Int_val v) :: u64)) :: u16) = (of_int (signed_take_bit 15 (sint (Long_val v))) :: u64)"
    "take_bit 16 (ucast (Int_val v) :: u64) = of_int (take_bit 16 (sint (Long_val v)))"
    by (intro bit_word_eqI; simp add: Int_val_def bit_simps bit_sint_iff; auto simp: min_def)+
  then show ?thesis
    using known_kinds [OF assms(1)] assms(2) Ba_int
    by (auto simp: decode_def reduce_int_def width_kind(1) [OF assms(1)] caml_ba_element_size_def ba_defs take_bit_word_eq_self)
next
  case (Ba_int32 i)
  have "ucast (take_bit 32 (ucast i :: u64)) = i" by (intro bit_word_eqI) (simp add: bit_simps)
  then show ?thesis
    using assms Ba_int32 by (auto simp: decode_def width_kind(1) [OF assms(1)] caml_ba_element_size_def ba_defs)
qed (use assms in \<open>auto simp: decode_def width_kind(1) [OF assms(1)] caml_ba_element_size_def ba_defs take_bit_word_eq_self\<close>)

section \<open>Reading after writing\<close>

lemma caml_ba_offset_inj:
  assumes "in_range b index" "in_range b index'" "dims_size (ba_dim b) \<le> 2 ^ 64" "caml_ba_offset b index = Inr off" "caml_ba_offset b index' = Inr off"
  shows "index = index'"
proof -
  have "bij_betw (\<lambda>index. unat (projr (caml_ba_offset b index))) {index. in_range b index} {..<dims_size (ba_dim b)}"
    by (rule offset_bij [OF assms(3)])
  then show ?thesis using assms by (auto simp: bij_betw_def inj_on_def)
qed

lemma caml_ba_offset_below:
  assumes "in_range b index" "dims_size (ba_dim b) \<le> 2 ^ 64"
  obtains off where "caml_ba_offset b index = Inr off" "unat off < dims_size (ba_dim b)"
proof -
  obtain off where off: "caml_ba_offset b index = Inr off" using caml_ba_offset_value [OF assms] by blast
  moreover have "bij_betw (\<lambda>index. unat (projr (caml_ba_offset b index))) {index. in_range b index} {..<dims_size (ba_dim b)}"
    by (rule offset_bij [OF assms(2)])
  then have "\<forall>index\<in>{index. in_range b index}. unat (projr (caml_ba_offset b index)) \<in> {..<dims_size (ba_dim b)}" by (rule bij_betwE)
  then have "unat off < dims_size (ba_dim b)" using assms(1) off by force
  ultimately show ?thesis using that by blast
qed

text \<open>
  C17. Writing an element: with indices in bounds and a value of the kind, \<open>caml_ba_set_aux\<close>
  succeeds; reading the same indices then gives the value reduced to the width and signedness of
  the kind; reading any other indices gives what it gave before; and no byte outside the data of
  the array changes.
\<close>

theorem caml_ba_get_set:
  assumes "known_kind b" "dims_size (ba_dim b) \<le> 2 ^ 64" "of_kind (ba_kind b) v" "in_range b (map Long_val vind)"
  shows "\<exists>st'. caml_ba_set_aux b vind v st = Some (Inr st') \<and>
    caml_ba_get_N b vind st' = Inr (reduced (ba_kind b) v) \<and>
    (\<forall>vind'. map Long_val vind' \<noteq> map Long_val vind \<longrightarrow> caml_ba_get_N b vind' st' = caml_ba_get_N b vind' st) \<and>
    (\<forall>x. x < ba_data b \<or> ba_data b + dims_size (ba_dim b) * width b \<le> x \<longrightarrow> ba_mem st' x = ba_mem st x)"
proof -
  obtain off where off: "caml_ba_offset b (map Long_val vind) = Inr off" "unat off < dims_size (ba_dim b)"
    by (rule caml_ba_offset_below [OF assms(4,2)])
  have l: "length vind = length (ba_dim b)" using in_range_length [OF assms(4)] by simp
  let ?st = "store_word (width b) (ba_data b + unat off * width b) (encode (ba_kind b) v) st"
  have w: "width b \<in> {1, 2, 4, 8}" by (rule width_kind(3) [OF assms(1)])
  have "caml_ba_set_aux b vind v st = Some (Inr ?st)"
    using l off by (simp add: caml_ba_set_aux_def write_element_encode [OF assms(1,3)])
  moreover have "caml_ba_get_N b vind ?st = Inr (reduced (ba_kind b) v)"
    using l off by (simp add: caml_ba_get_N_def read_element_decode [OF assms(1)] load_store [OF w] decode_encode [OF assms(1,3)])
  moreover have "caml_ba_get_N b vind' ?st = caml_ba_get_N b vind' st" if ne: "map Long_val vind' \<noteq> map Long_val vind" for vind'
  proof (cases "length vind' = length (ba_dim b) \<and> in_range b (map Long_val vind')")
    case True
    then obtain off' where off': "caml_ba_offset b (map Long_val vind') = Inr off'"
      using caml_ba_offset_below [OF _ assms(2)] by metis
    have "off' \<noteq> off" using caml_ba_offset_inj [OF _ assms(4,2) _ off(1)] True off' ne by metis
    then have "unat off' < unat off \<or> unat off < unat off'" by (metis linorder_neqE_nat word_unat_eq_iff)
    then have "unat off' * width b + width b \<le> unat off * width b \<or> unat off * width b + width b \<le> unat off' * width b"
      using mult_le_mono1 [of "Suc (unat off')" "unat off" "width b"] mult_le_mono1 [of "Suc (unat off)" "unat off'" "width b"] by auto
    then have "load (width b) ?st (ba_data b + unat off' * width b) = load (width b) st (ba_data b + unat off' * width b)"
      using w by (intro load_outside) auto
    then show ?thesis using off' by (simp add: caml_ba_get_N_def read_element_decode [OF assms(1)])
  next
    case False
    then show ?thesis using caml_ba_offset_error [of "map Long_val vind'" b Index_out_of_bounds] by (auto simp: caml_ba_get_N_def)
  qed
  moreover have "ba_mem ?st x = ba_mem st x" if x: "x < ba_data b \<or> ba_data b + dims_size (ba_dim b) * width b \<le> x" for x
  proof (rule store_word_outside)
    have "(unat off + 1) * width b \<le> dims_size (ba_dim b) * width b" using off(2) by (intro mult_le_mono1) simp
    then show "x < ba_data b + unat off * width b \<or> ba_data b + unat off * width b + width b \<le> x" using x by auto
  qed (use w in auto)
  ultimately show ?thesis by blast
qed

lemma caml_ba_get_set_witness:
  "\<exists>st'. caml_ba_set_aux (example_array CAML_BA_UINT8) [Val_long 1, Val_long 2] (Ba_int (Val_long 0x1FF))
       \<lparr>ba_mem = \<lambda>_. 0, counters = Map.empty, proxies = Map.empty, allocator = (), freed = []\<rparr> = Some (Inr st') \<and>
     caml_ba_get_N (example_array CAML_BA_UINT8) [Val_long 1, Val_long 2] st' = Inr (Ba_int (Val_long 0xFF))"
proof -
  have "Long_val (Val_long 1) = 1" "Long_val (Val_long 2) = 2" "Long_val (Val_long 0) = 0" by code_simp+
  moreover have "reduced CAML_BA_UINT8 (Ba_int (Val_long 0x1FF)) = Ba_int (Val_long 0xFF)" by code_simp
  moreover have "of_kind CAML_BA_UINT8 (Ba_int (Val_long 0x1FF))" by code_simp
  moreover have "known_kind (example_array CAML_BA_UINT8)" "ba_kind (example_array CAML_BA_UINT8) = CAML_BA_UINT8" by code_simp+
  ultimately show ?thesis
    using caml_ba_get_set [of "example_array CAML_BA_UINT8" "Ba_int (Val_long 0x1FF)" "[Val_long 1, Val_long 2]"
        "\<lparr>ba_mem = \<lambda>_. 0, counters = Map.empty, proxies = Map.empty, allocator = (), freed = []\<rparr>"]
    by (auto simp: example_array_def in_range_def c_layout_def CAML_BA_UINT8_def CAML_BA_LAYOUT_MASK_def CAML_BA_C_LAYOUT_def)
qed

end
