(* ===== verification/Bigarray_Views.thy ===== *)
theory Bigarray_Views
  imports Bigarray_Elements
begin

text \<open>Sub-arrays: the elements of the result of \<open>caml_ba_sub\<close> are elements of its argument.\<close>

section \<open>Addresses of elements\<close>

text \<open>The byte address of an element.\<close>

definition element_at :: "caml_ba_array \<Rightarrow> u64 list \<Rightarrow> nat" where
  "element_at b index = ba_data b + unat (projr (caml_ba_offset b index)) * width b"

lemma caml_ba_get_N_at:
  assumes "known_kind b" "dims_size (ba_dim b) \<le> 2 ^ 64" "in_range b (map Long_val vind)"
  shows "caml_ba_get_N b vind st = Inr (decode (ba_kind b) (load (width b) st (element_at b (map Long_val vind))))"
proof -
  obtain off where "caml_ba_offset b (map Long_val vind) = Inr off" by (rule caml_ba_offset_below [OF assms(3,2)])
  then show ?thesis
    using in_range_length [OF assms(3)] by (simp add: caml_ba_get_N_def element_at_def read_element_decode [OF assms(1)])
qed

lemma element_at_row:
  assumes "in_range b index" "dims_size (ba_dim b) \<le> 2 ^ 64"
  shows "element_at b index = ba_data b + radix (map unat (row_dims b)) (map unat (row_index b index)) * width b"
  using caml_ba_offset_value [OF assms] by (auto simp: element_at_def)

lemma foldl_radix:
  "foldl (\<lambda>n (d, i). n * d + i) n (zip ds is) = n * prod_list (map fst (zip ds is)) + foldl (\<lambda>n (d, i). n * d + i) 0 (zip ds is)" for n :: nat
proof (induction ds "is" arbitrary: n rule: list_induct2')
  case (4 d ds i "is")
  show ?case using 4 [of "n * d + i"] 4 [of i] by (simp add: algebra_simps)
qed simp_all

lemma radix_Cons: "length is = length ds \<Longrightarrow> radix (d # ds) (i # is) = i * prod_list ds + radix ds is"
  using foldl_radix [of i ds "is"] by (simp add: radix_def)

lemma unat_caml_ba_num_elts:
  assumes "\<not> partial_overflow 1 dim"
  shows "unat (caml_ba_num_elts dim) = dims_size dim"
  using dims_product_fold [of 1 dim False] assms by (simp add: caml_ba_num_elts_def)

lemma partial_overflow_small:
  assumes "0 < n" "0 \<notin> set dim" "n * dims_size dim < 2 ^ 64"
  shows "\<not> partial_overflow n dim"
  using assms
proof (induction dim arbitrary: n)
  case (Cons d dim)
  have d: "0 < unat d" using Cons.prems(2) by (simp add: unat_gt_0)
  have "1 \<le> dims_size dim"
    using Cons.prems(2) by (simp add: Suc_le_eq prod_list_zero_iff neq0_conv [symmetric] unat_eq_0 image_iff)
  then have "n * unat d \<le> n * unat d * dims_size dim" by simp
  also have "\<dots> < 2 ^ 64" using Cons.prems(3) by (simp add: mult.assoc)
  finally have "n * unat d < 2 ^ 64" .
  then show ?case using Cons d by (simp add: mult.assoc)
qed simp

section \<open>Indices of a sub-array\<close>

text \<open>The index vector of the argument for one of the result.\<close>

definition shift_index :: "caml_ba_array \<Rightarrow> u64 \<Rightarrow> u64 list \<Rightarrow> u64 list" where
  "shift_index b ofs index =
     (if c_layout b then (hd index + ofs) # tl index else butlast index @ [last index + (ofs - 1)])"

lemma Long_val_range: "- (2 ^ 62) \<le> sint (Long_val v)" "sint (Long_val v) < 2 ^ 62"
proof -
  have "sint (Long_val v) = sint v div 2"
    by (simp add: Long_val_def sint_signed_drop_bit_eq drop_bit_eq_div)
  moreover have "- (2 ^ 63) \<le> sint v" "sint v < 2 ^ 63" using sint_range_size [of v] by (simp_all add: word_size)
  ultimately have "- (2 ^ 62) \<le> sint (Long_val v) \<and> sint (Long_val v) < 2 ^ 62" by simp linarith
  then show "- (2 ^ 62) \<le> sint (Long_val v)" "sint (Long_val v) < 2 ^ 62" by blast+
qed

lemma sint_add_small: "- (2 ^ 63) \<le> sint x + sint y \<Longrightarrow> sint x + sint y < 2 ^ 63 \<Longrightarrow> sint (x + y) = sint x + sint y" for x y :: u64
  by (simp add: sint_word_ariths signed_take_bit_int_eq_self)

lemma unat_sint: "0 \<le> sint x \<Longrightarrow> int (unat x) = sint x" for x :: u64
proof -
  assume "0 \<le> sint x"
  moreover have "sint x < 2 ^ 63" using sint_range_size [of x] by (simp add: word_size)
  ultimately have "take_bit 64 (sint x) = sint x" by (simp add: take_bit_int_eq_self)
  then have "uint x = sint x" by (simp add: uint_sint)
  then show ?thesis by simp
qed

text \<open>In row-major terms the first index moves by the offset.\<close>

lemma row_shift:
  assumes "index \<noteq> []" "row_index b index = i # is"
  shows "row_index b (shift_index b ofs index) = (i + (if c_layout b then ofs else ofs - 1)) # is"
proof (cases "c_layout b")
  case True
  then show ?thesis using assms by (cases index) (auto simp: row_index_def shift_index_def)
next
  case False
  obtain xs x where x: "index = xs @ [x]" using assms(1) by (cases index rule: rev_cases) auto
  then show ?thesis using assms(2) False by (auto simp: row_index_def shift_index_def)
qed

text \<open>The address and the bounds of an element of an array with the first dimension (in row-major terms) reduced.\<close>

lemma sub_element:
  assumes b: "row_dims b = d # ds" and res: "row_dims res = len # ds" "c_layout res = c_layout b" "width res = width b"
      "ba_data res = ba_data b + unat o' * dims_size ds * width b"
    and s: "dims_size (ba_dim b) \<le> 2 ^ 64" and o': "unat o' + unat len \<le> unat d"
      "o' = (if c_layout b then ofs else ofs - 1)"
    and index: "in_range res index"
  shows "in_range b (shift_index b ofs index) \<and> element_at res index = element_at b (shift_index b ofs index)"
proof -
  have ne: "index \<noteq> []"
  proof -
    have "row_dims res \<noteq> []" using res(1) by simp
    then have "ba_dim res \<noteq> []" by (auto simp: row_dims_def split: if_splits)
    then show ?thesis using in_range_length [OF index] by auto
  qed
  have row: "list_all2 (<) (row_index res index) (len # ds)" using index res(1) by (simp add: in_range_row)
  then obtain i "is" where i: "row_index res index = i # is" "i < len" "list_all2 (<) is ds"
    by (auto simp: list_all2_Cons2)
  have ib: "row_index b index = i # is" using i(1) res(2) by (simp add: row_index_def)
  note sh = row_shift [OF ne ib, of ofs, folded o'(2)]
  have "unat i < unat len" using i(2) by (simp add: word_less_nat_alt)
  then have io: "unat (i + o') = unat i + unat o'" "unat i + unat o' < unat d"
    using o'(1) unat_lt_pow2 [of d] by (auto intro!: unat_plus_small)
  then have r: "in_range b (shift_index b ofs index)"
    using i(3) by (simp add: in_range_row sh b word_less_nat_alt)
  have l: "length is = length ds" using i(3) by (rule list_all2_lengthD)
  have "dims_size (ba_dim res) \<le> dims_size (ba_dim b)"
    using o'(1) by (simp add: row_dims_size [symmetric] b res(1))
  then have s': "dims_size (ba_dim res) \<le> 2 ^ 64" using s by (rule order_trans)
  have "element_at res index = ba_data b + unat o' * dims_size ds * width b + (unat i * dims_size ds + radix (map unat ds) (map unat is)) * width b"
    using l by (simp add: element_at_row [OF index s'] res i(1) radix_Cons)
  also have "\<dots> = element_at b (shift_index b ofs index)"
    using l by (simp add: element_at_row [OF r s] b sh radix_Cons io(1) algebra_simps)
  finally show ?thesis using r by blast
qed

section \<open>Sub-arrays\<close>

lemma sub_array_result:
  assumes "sub_array malloc mtod b sub_data sub_dims doctor st = Some (Inr (b', res, st'))" "sub_data \<noteq> 0"
    "ba_flags b AND CAML_BA_MANAGED_MASK \<noteq> CAML_BA_MBUF"
  obtains r0 where "ba_data r0 = sub_data" "ba_flags r0 = ba_flags b" "ba_dim r0 = sub_dims"
    "ba_data res = ba_data (doctor r0)" "ba_flags res = ba_flags (doctor r0)" "ba_dim res = ba_dim (doctor r0)"
    "ba_mem st' = ba_mem st"
proof -
  from assms(1) obtain y where y: "caml_ba_alloc malloc mtod (ba_flags b) sub_data sub_dims st = Some y"
    "(case y of Inl e \<Rightarrow> Some (Inl e) | Inr (res, st) \<Rightarrow> caml_ba_update_proxy malloc b (doctor res) st) = Some (Inr (b', res, st'))"
    by (auto simp: sub_array_def bind_eq_Some_conv)
  then obtain r0 st0 where "y = Inr (r0, st0)" by (cases y) auto
  with y have al: "caml_ba_alloc malloc mtod (ba_flags b) sub_data sub_dims st = Some (Inr (r0, st0))"
    and u: "caml_ba_update_proxy malloc b (doctor r0) st0 = Some (Inr (b', res, st'))" by simp_all
  have r0: "ba_data r0 = sub_data" "ba_flags r0 = ba_flags b" "ba_dim r0 = sub_dims" "ba_mem st0 = ba_mem st"
    using al assms(2,3) by (auto simp: caml_ba_alloc_def alloc_data_def Let_def split: prod.splits if_splits)
  from u have "ba_data res = ba_data (doctor r0) \<and> ba_flags res = ba_flags (doctor r0) \<and> ba_dim res = ba_dim (doctor r0) \<and> ba_mem st' = ba_mem st0"
    by (cases "ba_proxy b") (auto simp: caml_ba_update_proxy_def Let_def split_beta bind_eq_Some_conv split: if_splits)
  with that r0 show ?thesis by simp
qed

text \<open>The dimension that \<open>caml_ba_sub\<close> reduces, the others, and the offset from 0.\<close>

definition changed_dim :: "caml_ba_array \<Rightarrow> nat" where
  "changed_dim b = (if c_layout b then 0 else length (ba_dim b) - 1)"

definition other_dims :: "caml_ba_array \<Rightarrow> u64 list" where
  "other_dims b = (if c_layout b then drop 1 (ba_dim b) else take (length (ba_dim b) - 1) (ba_dim b))"

definition from_zero :: "caml_ba_array \<Rightarrow> u64 \<Rightarrow> u64" where
  "from_zero b ofs = (if c_layout b then ofs else ofs - 1)"

lemma row_dims_split:
  assumes "ba_dim b \<noteq> []"
  shows "row_dims b = ba_dim b ! changed_dim b # (if c_layout b then other_dims b else rev (other_dims b))"
proof (cases "c_layout b")
  case True
  then show ?thesis using assms by (cases "ba_dim b") (simp_all add: row_dims_def changed_dim_def other_dims_def)
next
  case False
  obtain xs x where "ba_dim b = xs @ [x]" using assms by (cases "ba_dim b" rule: rev_cases) auto
  then show ?thesis using False by (simp add: row_dims_def changed_dim_def other_dims_def nth_append)
qed

lemma row_dims_reduced:
  assumes "ba_dim b \<noteq> []" "ba_dim res = (ba_dim b)[changed_dim b := len]" "ba_flags res = ba_flags b"
  shows "row_dims res = len # (if c_layout b then other_dims b else rev (other_dims b))"
proof -
  have c: "c_layout res = c_layout b" "changed_dim res = changed_dim b" "other_dims res = other_dims b"
    using assms(2,3) by (simp_all add: c_layout_def changed_dim_def other_dims_def drop_update_swap)
  have "changed_dim b < length (ba_dim b)" using assms(1) by (simp add: changed_dim_def)
  then show ?thesis using row_dims_split [of res] assms(1,2) by (simp add: c)
qed

lemma caml_ba_sub_result:
  assumes "known_kind b" "ba_flags b AND CAML_BA_MANAGED_MASK \<noteq> CAML_BA_MBUF" "0 < ba_data b"
    and r: "caml_ba_sub malloc mtod b vofs vlen st = Some (Inr (b', res, st'))"
  shows "ba_data res = ba_data b + unat (from_zero b (Long_val vofs) * caml_ba_num_elts (other_dims b) * of_nat (width b))"
    "ba_flags res = ba_flags b" "ba_dim res = (ba_dim b)[changed_dim b := Long_val vlen]" "ba_mem st' = ba_mem st"
    "0 \<le> sint (from_zero b (Long_val vofs))" "0 \<le> sint (Long_val vlen)"
    "sint (from_zero b (Long_val vofs) + Long_val vlen) \<le> sint (ba_dim b ! changed_dim b)"
proof -
  let ?at = "ba_data b + unat (from_zero b (Long_val vofs) * caml_ba_num_elts (other_dims b) * of_nat (width b))"
  show "0 \<le> sint (from_zero b (Long_val vofs))" "0 \<le> sint (Long_val vlen)"
    "sint (from_zero b (Long_val vofs) + Long_val vlen) \<le> sint (ba_dim b ! changed_dim b)"
    using r unfolding caml_ba_sub_def Let_def from_zero_def changed_dim_def by (auto split: if_splits)
  have sub: "sub_array malloc mtod b ?at (ba_dim b) (\<lambda>res. res\<lparr>ba_dim := (ba_dim res)[changed_dim b := Long_val vlen]\<rparr>) st
      = Some (Inr (b', res, st'))"
    using r unfolding caml_ba_sub_def Let_def from_zero_def changed_dim_def other_dims_def
    by (auto simp: width_kind(2) [OF assms(1)] split: if_splits)
  have "?at \<noteq> 0" using assms(3) by simp
  then show "ba_data res = ?at" "ba_flags res = ba_flags b" "ba_dim res = (ba_dim b)[changed_dim b := Long_val vlen]"
    "ba_mem st' = ba_mem st"
    by (rule sub_array_result [OF sub _ assms(2)]; simp)+
qed

text \<open>The bounds that \<open>caml_ba_sub\<close> checks, on unsigned words.\<close>

lemma sub_bounds:
  assumes "0 \<le> sint (from_zero b (Long_val vofs))" "0 \<le> sint (Long_val vlen)"
    "sint (from_zero b (Long_val vofs) + Long_val vlen) \<le> sint (ba_dim b ! changed_dim b)"
  shows "unat (from_zero b (Long_val vofs)) + unat (Long_val vlen) \<le> unat (ba_dim b ! changed_dim b)"
proof -
  let ?o = "from_zero b (Long_val vofs)"
  have "sint (Long_val vofs + (- 1)) = sint (Long_val vofs) + sint (- 1 :: u64)"
    using Long_val_range [of vofs] by (intro sint_add_small) auto
  then have "sint ?o \<le> sint (Long_val vofs)" by (simp add: from_zero_def)
  then have "sint (?o + Long_val vlen) = sint ?o + sint (Long_val vlen)"
    using assms(1,2) Long_val_range [of vofs] Long_val_range [of vlen] by (intro sint_add_small) auto
  then have "int (unat ?o) + int (unat (Long_val vlen)) \<le> int (unat (ba_dim b ! changed_dim b))"
    using assms unat_sint [OF assms(1)] unat_sint [OF assms(2)] unat_sint [of "ba_dim b ! changed_dim b"] by linarith
  then have "int (unat ?o + unat (Long_val vlen)) \<le> int (unat (ba_dim b ! changed_dim b))" by (simp only: of_nat_add)
  then show ?thesis by (simp only: zle_int)
qed

text \<open>The start of the view does not wrap around.\<close>

lemma sub_start:
  assumes k: "known_kind b" and d: "ba_dim b \<noteq> []" "dims_size (ba_dim b) * width b < 2 ^ 64"
    and o': "unat o' < unat (ba_dim b ! changed_dim b)" and nz: "0 \<notin> set (other_dims b)"
  shows "unat (o' * caml_ba_num_elts (other_dims b) * of_nat (width b)) = unat o' * dims_size (other_dims b) * width b"
proof -
  let ?s = "dims_size (other_dims b)" and ?d = "unat (ba_dim b ! changed_dim b)"
  have size: "dims_size (ba_dim b) = ?d * ?s"
    using row_dims_split [OF d(1)] by (simp add: row_dims_size [symmetric] rev_map [symmetric] prod_list.rev)
  have w1: "1 \<le> width b" and wu: "unat (of_nat (width b) :: u64) = width b" using width_kind(3) [OF k] by auto
  have "?s * 1 \<le> ?s * (?d * width b)" using o' w1 by (intro mult_le_mono2) simp
  also have "\<dots> = dims_size (ba_dim b) * width b" by (simp add: size)
  finally have "1 * ?s < 2 ^ 64" using d(2) by simp
  then have m: "unat (caml_ba_num_elts (other_dims b)) = ?s"
    using partial_overflow_small [OF _ nz, of 1] by (simp add: unat_caml_ba_num_elts)
  have "unat o' * ?s * width b \<le> ?d * ?s * width b" using o' by (intro mult_le_mono1) simp
  then have small: "unat o' * ?s * width b < 2 ^ 64" using d(2) unfolding size by (rule le_less_trans)
  have "unat o' * ?s * 1 \<le> unat o' * ?s * width b" by (rule mult_le_mono2 [OF w1])
  then have "unat o' * ?s < 2 ^ 64" using small by linarith
  then have "unat (o' * caml_ba_num_elts (other_dims b)) = unat o' * ?s" using m by (simp add: unat_word_ariths)
  then show ?thesis using small by (simp add: unat_word_ariths wu)
qed

text \<open>
  C18. \<open>caml_ba_sub\<close> gives a view: when it succeeds on an array that is not an mbuf, no memory has
  changed, the result has the kind of the argument and its dimensions with one replaced by the
  length, and each index vector within its bounds names the element of the argument whose first
  index (C layout) or last index (Fortran layout) is moved by the offset, which is within bounds
  too.
\<close>

theorem caml_ba_sub_view:
  assumes k: "known_kind b" "ba_flags b AND CAML_BA_MANAGED_MASK \<noteq> CAML_BA_MBUF" "0 < ba_data b"
    and d: "ba_dim b \<noteq> []" "dims_size (ba_dim b) * width b < 2 ^ 64"
    and r: "caml_ba_sub malloc mtod b vofs vlen st = Some (Inr (b', res, st'))"
  shows "ba_mem st' = ba_mem st \<and> ba_flags res = ba_flags b \<and>
    ba_dim res = (ba_dim b)[(if c_layout b then 0 else length (ba_dim b) - 1) := Long_val vlen] \<and>
    (in_range res index \<longrightarrow> in_range b (shift_index b (Long_val vofs) index) \<and>
       element_at res index = element_at b (shift_index b (Long_val vofs) index))"
proof -
  let ?o = "from_zero b (Long_val vofs)" and ?len = "Long_val vlen"
  let ?ds = "if c_layout b then other_dims b else rev (other_dims b)"
  note res = caml_ba_sub_result [OF k r]
  have rrow: "row_dims res = ?len # ?ds" by (rule row_dims_reduced [OF d(1) res(3,2)])
  have ds: "dims_size ?ds = dims_size (other_dims b)" "set ?ds = set (other_dims b)"
    by (simp_all add: rev_map [symmetric] prod_list.rev)
  have "in_range b (shift_index b (Long_val vofs) index) \<and> element_at res index = element_at b (shift_index b (Long_val vofs) index)"
    if i: "in_range res index"
  proof (rule sub_element [OF row_dims_split [OF d(1)] rrow _ _ _ _ sub_bounds [OF res(5-7)] from_zero_def i])
    show "c_layout res = c_layout b" "width res = width b" using res(2) by (simp_all add: c_layout_def width_def)
    have "dims_size (ba_dim b) * 1 \<le> dims_size (ba_dim b) * width b" using width_kind(3) [OF k(1)] by (intro mult_le_mono2) auto
    then show "dims_size (ba_dim b) \<le> 2 ^ 64" using d(2) by linarith
    have "list_all2 (<) (row_index res index) (?len # ?ds)" using i rrow by (simp add: in_range_row)
    then obtain j js where j: "j < ?len" "list_all2 (<) js ?ds" by (auto simp: list_all2_Cons2)
    then have "0 \<notin> set ?ds" by (auto simp: list_all2_conv_all_nth in_set_conv_nth simp del: set_rev)
    moreover have "unat ?o < unat (ba_dim b ! changed_dim b)"
      using j(1) sub_bounds [OF res(5-7)] by (simp add: word_less_nat_alt)
    ultimately have "unat (?o * caml_ba_num_elts (other_dims b) * of_nat (width b)) = unat ?o * dims_size (other_dims b) * width b"
      using sub_start [OF k(1) d] ds(2) by blast
    then show "ba_data res = ba_data b + unat ?o * dims_size ?ds * width b" using res(1) ds(1) by simp
  qed
  then show ?thesis using res by (simp add: changed_dim_def)
qed

text \<open>Rows 1 and 2 of a 3 by 3 array of bytes: element (0, 2) of the view is element (1, 2) of the array.\<close>

lemma caml_ba_sub_view_witness:
  "ba_dim (fst (snd (projr (the (caml_ba_sub (\<lambda>n s. (64, s)) id
      ((example_array CAML_BA_UINT8)\<lparr>ba_dim := [3, 3]\<rparr>) (Val_long 1) (Val_long 2)
      \<lparr>ba_mem = \<lambda>_. 0, counters = Map.empty, proxies = Map.empty, allocator = (), freed = []\<rparr>))))) = [2, 3] \<and>
   element_at (fst (snd (projr (the (caml_ba_sub (\<lambda>n s. (64, s)) id
      ((example_array CAML_BA_UINT8)\<lparr>ba_dim := [3, 3]\<rparr>) (Val_long 1) (Val_long 2)
      \<lparr>ba_mem = \<lambda>_. 0, counters = Map.empty, proxies = Map.empty, allocator = (), freed = []\<rparr>))))) [0, 2] =
   element_at ((example_array CAML_BA_UINT8)\<lparr>ba_dim := [3, 3]\<rparr>) [1, 2]"
proof -
  let ?b = "(example_array CAML_BA_UINT8)\<lparr>ba_dim := [3, 3]\<rparr>"
  let ?st = "\<lparr>ba_mem = \<lambda>_. 0, counters = Map.empty, proxies = Map.empty, allocator = (), freed = []\<rparr>"
  have l: "Long_val (Val_long 1) = 1" "Long_val (Val_long 2) = 2" by code_simp+
  have k: "known_kind ?b" "width ?b = 1" "ba_flags ?b AND CAML_BA_MANAGED_MASK \<noteq> CAML_BA_MBUF" "c_layout ?b" by code_simp+
  have f: "0 < ba_data ?b" "ba_dim ?b = [3, 3]" by (simp_all add: example_array_def)
  have nz: "isl (the (caml_ba_sub (\<lambda>n s. (64, s)) id ?b (Val_long 1) (Val_long 2) ?st)) = False \<and>
      caml_ba_sub (\<lambda>n s. (64, s)) id ?b (Val_long 1) (Val_long 2) ?st \<noteq> None" by code_simp
  obtain b' res st' where r: "caml_ba_sub (\<lambda>n s. (64, s)) id ?b (Val_long 1) (Val_long 2) ?st = Some (Inr (b', res, st'))"
    using nz by (cases "caml_ba_sub (\<lambda>n s. (64, s)) id ?b (Val_long 1) (Val_long 2) ?st" rule: option.exhaust;
      cases "the (caml_ba_sub (\<lambda>n s. (64, s)) id ?b (Val_long 1) (Val_long 2) ?st)") auto
  have t: "ba_dim res = [2, 3] \<and> ba_flags res = ba_flags ?b \<and> (in_range res [0, 2] \<longrightarrow> element_at res [0, 2] = element_at ?b [1, 2])"
    using caml_ba_sub_view [OF k(1,3) f(1) _ _ r, of "[0, 2]"] k(2,4) f(2) by (simp add: l shift_index_def)
  then have "in_range res [0, 2]" using k(4) by (simp add: in_range_def c_layout_def)
  then show ?thesis using t by (simp add: r)
qed

end
