(* ===== verification/Bigarray_Marshal.thy ===== *)
theory Bigarray_Marshal
  imports Bigarray_Views
begin

text \<open>What marshalling a big array and reading it back gives.\<close>

section \<open>Blocks\<close>

lemma length_reverse_items:
  "(\<And>p. length p = n \<Longrightarrow> length (rv p) = n) \<Longrightarrow> length p = n * len \<Longrightarrow> length (reverse_items rv n len p) = n * len"
  by (induction len arbitrary: p) simp_all

lemma reverse_items_twice:
  assumes "\<And>p. length p = n \<Longrightarrow> length (rv p) = n \<and> rv (rv p) = p" "length p = n * len"
  shows "reverse_items rv n len (reverse_items rv n len p @ rest) = p"
  using assms(2)
proof (induction len arbitrary: p)
  case (Suc len)
  have l: "length (take n p) = n" "length (drop n p) = n * len" using Suc.prems by simp_all
  have "length (rv (take n p)) = n" "rv (rv (take n p)) = take n p" using assms(1) [OF l(1)] by simp_all
  then show ?case using Suc.IH [OF l(2)] by simp
qed simp

lemma reverse_length_cases:
  "length p = 2 \<Longrightarrow> length (Reverse_16 p) = 2 \<and> Reverse_16 (Reverse_16 p) = p"
  "length p = 4 \<Longrightarrow> length (Reverse_32 p) = 4 \<and> Reverse_32 (Reverse_32 p) = p"
  "length p = 8 \<Longrightarrow> length (Reverse_64 p) = 8 \<and> Reverse_64 (Reverse_64 p) = p"
  by (auto simp: Reverse_16_def Reverse_32_def Reverse_64_def numeral_eq_Suc length_Suc_conv)

lemma deserialize_items_block:
  assumes "\<And>p. length p = n \<Longrightarrow> length (rv p) = n \<and> rv (rv p) = p" "length p = n * len"
  shows "deserialize_items rv n len (reverse_items rv n len p @ rest) = Some (p, rest)"
proof -
  have "length (reverse_items rv n len p) = n * len" by (rule length_reverse_items) (use assms in simp_all)
  then show ?thesis using reverse_items_twice [of n rv p len rest] assms by (simp add: deserialize_items_def)
qed

lemma length_memory_bytes [simp]: "length (memory_bytes st a n) = n"
  by (simp add: memory_bytes_def)

section \<open>Elements\<close>

lemma load_bytes: "le_bytes8 (load 8 st a) = memory_bytes st a 8"
  by (simp add: load_def memory_bytes_def le_bytes8_of)

lemma concat_loads: "concat (map (\<lambda>i. le_bytes8 (load 8 st (a + 8 * i))) [0..<n]) = memory_bytes st a (8 * n)"
proof (induction n)
  case (Suc n)
  have "[a..<a + 8 * n + 8] = [a..<a + 8 * n] @ [a + 8 * n..<a + 8 * n + 8]" by (rule upt_add_eq_append) simp
  then have "memory_bytes st a (8 * Suc n) = memory_bytes st a (8 * n) @ memory_bytes st (a + 8 * n) 8"
    by (simp add: memory_bytes_def algebra_simps)
  then show ?case using Suc by (simp add: load_bytes)
qed (simp add: memory_bytes_def)

lemma scast_ucast_32:
  assumes "- (2 ^ 31) \<le> sint p" "sint p < 2 ^ 31"
  shows "scast (ucast p :: u32) = (p :: u64)"
proof -
  have u: "uint p = take_bit 64 (sint p)" using uint_sint [of p] by simp
  have "sint (ucast p :: u32) = signed_take_bit 31 (uint p)" by (simp add: signed_ucast_eq)
  also have "\<dots> = signed_take_bit 31 (sint p)" unfolding u by (simp only: signed_take_bit_take_bit) simp
  also have "\<dots> = sint p" using assms by (simp add: signed_take_bit_int_eq_self)
  finally have "of_int (sint (ucast p :: u32)) = (of_int (sint p) :: u64)" by simp
  then show ?thesis by simp
qed

lemma longarray_roundtrip:
  assumes lim: "- (2 ^ 31) \<le> min_val" "max_val < 2 ^ 31"
  obtains E where "\<And>out. caml_ba_serialize_longarray a n min_val max_val st out = out @ E"
    "\<And>rest. caml_ba_deserialize_longarray n (E @ rest) = Some (memory_bytes st a (8 * n), rest)"
proof -
  let ?ps = "map (\<lambda>i. load 8 st (a + 8 * i)) [0..<n]"
  show ?thesis
  proof (cases "\<exists>p\<in>set ?ps. sint p < min_val \<or> sint p > max_val")
    case True
    let ?E = "1 # reverse_items Reverse_64 8 n (memory_bytes st a (8 * n))"
    have "caml_ba_serialize_longarray a n min_val max_val st out = out @ ?E" for out
      using True by (simp add: caml_ba_serialize_longarray_def Let_def caml_serialize_block_8_def caml_serialize_int_1_def)
    moreover have "caml_ba_deserialize_longarray n (?E @ rest) = Some (memory_bytes st a (8 * n), rest)" for rest
      using deserialize_items_block [OF reverse_length_cases(3), of "memory_bytes st a (8 * n)" n rest]
      by (simp add: caml_ba_deserialize_longarray_def caml_deserialize_uint_1_def read8u_def caml_deserialize_block_8_def)
    ultimately show ?thesis by (rule that)
  next
    case False
    let ?E = "0 # fold caml_serialize_int_4 (map ucast ?ps) []"
    have "caml_ba_serialize_longarray a n min_val max_val st out = out @ ?E" for out
    proof -
      have "fold caml_serialize_int_4 (map ucast ?ps) (out @ [0]) = (out @ [0]) @ fold caml_serialize_int_4 (map ucast ?ps) []"
        by (rule sint_4.fold_wr)
      then show ?thesis
        using False by (simp add: caml_ba_serialize_longarray_def Let_def caml_serialize_int_1_def fold_map o_def)
    qed
    moreover have "caml_ba_deserialize_longarray n (?E @ rest) = Some (memory_bytes st a (8 * n), rest)" for rest
    proof -
      have "read_items caml_deserialize_sint_4 n (fold caml_serialize_int_4 (map ucast ?ps) [] @ rest) = Some (map ucast ?ps, rest)"
        using sint_4.read_items_fold [of "map ucast ?ps" rest] by simp
      moreover have "concat (map (\<lambda>p. le_bytes8 (scast (ucast p :: u32))) ?ps) = memory_bytes st a (8 * n)"
      proof -
        have "scast (ucast p :: u32) = p" if "p \<in> set ?ps" for p
          by (rule scast_ucast_32) (use False that lim in \<open>fastforce+\<close>)
        then have e: "map (\<lambda>p. le_bytes8 (scast (ucast p :: u32))) ?ps = map le_bytes8 ?ps" by (intro map_cong) auto
        show ?thesis unfolding e using concat_loads [of st a n] by (simp add: o_def)
      qed
      ultimately show ?thesis
        by (simp add: caml_ba_deserialize_longarray_def caml_deserialize_uint_1_def read8u_def o_def)
    qed
    ultimately show ?thesis by (rule that)
  qed
qed

lemma elements_roundtrip:
  assumes k: "known_kind b" "ba_kind b \<noteq> CAML_BA_INT64"
  obtains E where "\<And>out. serialize_elements b st out = out @ E"
    "\<And>rest. deserialize_elements (ba_kind b) (unat (caml_ba_num_elts (ba_dim b))) (E @ rest) =
       Some (memory_bytes st (ba_data b) (unat (caml_ba_num_elts (ba_dim b)) * width b), rest)"
proof -
  let ?n = "unat (caml_ba_num_elts (ba_dim b))" and ?m = "memory_bytes st (ba_data b)"
  note w = width_kind(1) [OF k(1)]
  consider "ba_kind b \<in> {0, 1}" | "ba_kind b \<in> {2, 3}" | "ba_kind b = 4" | "ba_kind b = 6" | "ba_kind b = 7"
    using known_kinds [OF k(1)] k(2) by (auto simp: ba_defs)
  then show ?thesis
  proof cases
    case 1
    then show ?thesis
      by (intro that [of "?m ?n"]) (auto simp: serialize_elements_def deserialize_elements_def caml_serialize_block_1_def
          caml_deserialize_block_1_def w caml_ba_element_size_def ba_defs Let_def)
  next
    case 2
    have "deserialize_items Reverse_16 2 ?n (reverse_items Reverse_16 2 ?n (?m (2 * ?n)) @ rest) = Some (?m (2 * ?n), rest)" for rest
      by (rule deserialize_items_block [OF reverse_length_cases(1)]) simp_all
    with 2 show ?thesis
      by (intro that [of "reverse_items Reverse_16 2 ?n (?m (2 * ?n))"]) (auto simp: serialize_elements_def deserialize_elements_def
          caml_serialize_block_2_def caml_deserialize_block_2_def w caml_ba_element_size_def ba_defs Let_def mult.commute)
  next
    case 3
    have "deserialize_items Reverse_32 4 ?n (reverse_items Reverse_32 4 ?n (?m (4 * ?n)) @ rest) = Some (?m (4 * ?n), rest)" for rest
      by (rule deserialize_items_block [OF reverse_length_cases(2)]) simp_all
    with 3 show ?thesis
      by (intro that [of "reverse_items Reverse_32 4 ?n (?m (4 * ?n))"]) (auto simp: serialize_elements_def deserialize_elements_def
          caml_serialize_block_4_def caml_deserialize_block_4_def w caml_ba_element_size_def ba_defs Let_def mult.commute)
  next
    case 4
    obtain E where "\<And>out. caml_ba_serialize_longarray (ba_data b) ?n (- 0x40000000) 0x3FFFFFFF st out = out @ E"
      "\<And>rest. caml_ba_deserialize_longarray ?n (E @ rest) = Some (?m (8 * ?n), rest)"
      by (rule longarray_roundtrip [of "- 0x40000000" "0x3FFFFFFF" "ba_data b" ?n st]) auto
    with 4 show ?thesis
      by (intro that [of E]) (auto simp: serialize_elements_def deserialize_elements_def w caml_ba_element_size_def ba_defs Let_def mult.commute)
  next
    case 5
    obtain E where "\<And>out. caml_ba_serialize_longarray (ba_data b) ?n 0x80000000 0x7FFFFFFF st out = out @ E"
      "\<And>rest. caml_ba_deserialize_longarray ?n (E @ rest) = Some (?m (8 * ?n), rest)"
      by (rule longarray_roundtrip [of "0x80000000" "0x7FFFFFFF" "ba_data b" ?n st]) auto
    with 5 show ?thesis
      by (intro that [of E]) (auto simp: serialize_elements_def deserialize_elements_def w caml_ba_element_size_def ba_defs Let_def mult.commute)
  qed
qed

section \<open>The whole array\<close>

text \<open>The header that \<open>caml_ba_serialize\<close> writes.\<close>

definition ba_header :: "caml_ba_array \<Rightarrow> bytes" where
  "ba_header b =
     fold (\<lambda>d. caml_serialize_int_4 (ucast d)) (ba_dim b)
       (caml_serialize_int_4 (ucast (ba_flags b AND (CAML_BA_KIND_MASK OR CAML_BA_LAYOUT_MASK)))
         (caml_serialize_int_4 (of_nat (length (ba_dim b))) []))"

lemma caml_ba_serialize_header:
  "fst (caml_ba_serialize b st) = serialize_elements b st (ba_header b)"
  by (simp add: caml_ba_serialize_def ba_header_def Let_def)

lemma read_header:
  assumes "length (ba_dim b) < 2 ^ 32"
  shows "caml_ba_deserialize malloc old2 (ba_header b @ src) st =
    (let flags = (ba_flags b AND (CAML_BA_KIND_MASK OR CAML_BA_LAYOUT_MASK)) OR CAML_BA_MANAGED;
         dim = map (\<lambda>d. ucast (ucast d :: u32)) (ba_dim b); num_elts = caml_ba_num_elts dim
     in case element_size flags of
          None \<Rightarrow> Some (Inl (Failure ''input_value: bad bigarray kind''))
        | Some sz \<Rightarrow>
            (let (data, s) = malloc (unat (sz * num_elts)) (allocator st)
             in if data = 0 then Some (Inl (Failure ''input_value: out of memory for bigarray''))
                else map_option (\<lambda>(bs, src).
                       Inr (\<lparr>ba_data = data, ba_data2 = old2, ba_flags = flags, ba_proxy = None, ba_dim = dim\<rparr>, src,
                            store_bytes data bs (st\<lparr>allocator := s\<rparr>)))
                     (deserialize_elements (flags AND CAML_BA_KIND_MASK) (unat num_elts) src)))"
proof -
  let ?nd = "of_nat (length (ba_dim b)) :: u32" and ?fl = "ucast (ba_flags b AND (CAML_BA_KIND_MASK OR CAML_BA_LAYOUT_MASK)) :: u32"
  let ?ds = "map ucast (ba_dim b) :: u32 list"
  have h: "ba_header b = caml_serialize_int_4 ?nd [] @ caml_serialize_int_4 ?fl [] @ fold caml_serialize_int_4 ?ds []"
  proof -
    have "ba_header b = caml_serialize_int_4 ?fl (caml_serialize_int_4 ?nd []) @ fold caml_serialize_int_4 ?ds []"
      using uint_4.fold_wr [of ?ds "caml_serialize_int_4 ?fl (caml_serialize_int_4 ?nd [])"] by (simp add: ba_header_def fold_map o_def)
    then show ?thesis using uint_4.appends [of ?fl "caml_serialize_int_4 ?nd []"] by simp
  qed
  have nd: "unat ?nd = length ?ds" using assms by (simp add: unat_of_nat_small)
  have fl: "(ucast ?fl :: u64) = ba_flags b AND (CAML_BA_KIND_MASK OR CAML_BA_LAYOUT_MASK)"
  proof -
    have "CAML_BA_KIND_MASK OR CAML_BA_LAYOUT_MASK = mask 9" by (simp add: ba_defs mask_eq_exp_minus_1)
    moreover have "ucast (ucast (x AND mask 9) :: u32) = x AND mask 9" for x :: u64
      by (rule bit_word_eqI) (auto simp: bit_simps)
    ultimately show ?thesis by simp
  qed
  show ?thesis
    using uint_4.reads [of ?nd "caml_serialize_int_4 ?fl [] @ fold caml_serialize_int_4 ?ds [] @ src"]
      uint_4.reads [of ?fl "fold caml_serialize_int_4 ?ds [] @ src"] uint_4.read_items_fold [of ?ds src]
    by (simp add: caml_ba_deserialize_def h nd fl o_def cong: option.case_cong)
qed

lemma read_flags:
  "(x AND (CAML_BA_KIND_MASK OR CAML_BA_LAYOUT_MASK) OR CAML_BA_MANAGED) AND CAML_BA_KIND_MASK = x AND CAML_BA_KIND_MASK"
  "(x AND (CAML_BA_KIND_MASK OR CAML_BA_LAYOUT_MASK) OR CAML_BA_MANAGED) AND CAML_BA_LAYOUT_MASK = x AND CAML_BA_LAYOUT_MASK"
  by (simp_all add: ba_defs bit.conj_disj_distrib2 and.assoc)

lemma read_dims_32: "\<forall>d\<in>set dim. unat d < 2 ^ 32 \<Longrightarrow> map (\<lambda>d. ucast (ucast d :: u32)) dim = (dim :: u64 list)"
proof (rule map_idI)
  fix d :: u64 assume "\<forall>d\<in>set dim. unat d < 2 ^ 32" "d \<in> set dim"
  then have "unat (ucast d :: u32) = unat d" by (simp add: unat_ucast_mod)
  then show "ucast (ucast d :: u32) = d" by (simp add: word_unat_eq_iff unat_ucast_up)
qed

lemma read_kind:
  assumes "ba_flags b' = ba_flags b AND (CAML_BA_KIND_MASK OR CAML_BA_LAYOUT_MASK) OR CAML_BA_MANAGED"
  shows "ba_kind b' = ba_kind b" "c_layout b' = c_layout b" "element_size (ba_flags b') = element_size (ba_flags b)"
  by (simp_all add: assms ba_kind_def c_layout_def element_size_def read_flags)

lemma memory_store_bytes: "memory_bytes (store_bytes a bs st) a (length bs) = bs"
  by (rule nth_equalityI) (simp_all add: memory_bytes_def store_bytes_def)

text \<open>
  C19. A big array of any kind but \<open>INT64\<close>, with dimensions below \<open>2 ^ 32\<close>, is read back from
  what \<open>caml_ba_serialize\<close> writes, whatever follows it, when the memory for the elements can be
  allocated: with the same dimensions, kind and layout, the same bytes as elements, and the rest of
  the input left.
\<close>

theorem bigarray_roundtrip:
  assumes "known_kind b" "ba_kind b \<noteq> CAML_BA_INT64" "length (ba_dim b) < 2 ^ 32" "\<forall>d\<in>set (ba_dim b). unat d < 2 ^ 32"
    and "\<forall>n s. fst (malloc n s) \<noteq> 0"
  shows "\<exists>b' st'. caml_ba_deserialize malloc old2 (fst (caml_ba_serialize b st) @ rest) st2 = Some (Inr (b', rest, st')) \<and>
    ba_dim b' = ba_dim b \<and> ba_kind b' = ba_kind b \<and> c_layout b' = c_layout b \<and>
    memory_bytes st' (ba_data b') (unat (caml_ba_num_elts (ba_dim b)) * width b) =
      memory_bytes st (ba_data b) (unat (caml_ba_num_elts (ba_dim b)) * width b)"
proof -
  let ?n = "unat (caml_ba_num_elts (ba_dim b))" and ?flags = "ba_flags b AND (CAML_BA_KIND_MASK OR CAML_BA_LAYOUT_MASK) OR CAML_BA_MANAGED"
  obtain E where E: "\<And>out. serialize_elements b st out = out @ E"
    "\<And>rest. deserialize_elements (ba_kind b) ?n (E @ rest) = Some (memory_bytes st (ba_data b) (?n * width b), rest)"
    by (rule elements_roundtrip [OF assms(1,2), where st = st]) blast
  have out: "fst (caml_ba_serialize b st) @ rest = ba_header b @ (E @ rest)" by (simp add: caml_ba_serialize_header E(1))
  obtain data s where m: "malloc (unat (of_nat (width b) * caml_ba_num_elts (ba_dim b))) (allocator st2) = (data, s)" "data \<noteq> 0"
    using assms(5) by (metis prod.collapse)
  let ?b = "\<lparr>ba_data = data, ba_data2 = old2, ba_flags = ?flags, ba_proxy = None, ba_dim = ba_dim b\<rparr>"
  note k = read_kind [of ?b b, simplified]
  have "element_size ?flags = Some (of_nat (width b))" using k(3) width_kind(2) [OF assms(1)] by simp
  moreover have "?flags AND CAML_BA_KIND_MASK = ba_kind b" by (simp add: read_flags ba_kind_def)
  ultimately have "caml_ba_deserialize malloc old2 (fst (caml_ba_serialize b st) @ rest) st2 =
      Some (Inr (?b, rest, store_bytes data (memory_bytes st (ba_data b) (?n * width b)) (st2\<lparr>allocator := s\<rparr>)))"
    unfolding out read_header [OF assms(3)] using m E(2) by (simp add: read_dims_32 [OF assms(4)] Let_def)
  moreover have "memory_bytes (store_bytes data (memory_bytes st (ba_data b) (?n * width b)) (st2\<lparr>allocator := s\<rparr>)) data (?n * width b)
      = memory_bytes st (ba_data b) (?n * width b)"
    using memory_store_bytes [of data "memory_bytes st (ba_data b) (?n * width b)"] by simp
  ultimately show ?thesis using k by (intro exI conjI) (assumption, simp_all)
qed

text \<open>
  C26. In the kernel build the elements of an \<open>INT64\<close> array are not written: what
  \<open>caml_ba_serialize\<close> writes does not depend on them, and reading it back as a big array with at
  least one element runs past the end of the input.
\<close>

theorem int64_elements_lost:
  assumes "ba_kind b = CAML_BA_INT64" "length (ba_dim b) < 2 ^ 32" "\<forall>d\<in>set (ba_dim b). unat d < 2 ^ 32"
    and "\<forall>n s. fst (malloc n s) \<noteq> 0" "caml_ba_num_elts (ba_dim b) \<noteq> 0"
  shows "fst (caml_ba_serialize b st) = fst (caml_ba_serialize b st') \<and>
    caml_ba_deserialize malloc old2 (fst (caml_ba_serialize b st)) st2 = None"
proof -
  let ?flags = "ba_flags b AND (CAML_BA_KIND_MASK OR CAML_BA_LAYOUT_MASK) OR CAML_BA_MANAGED"
  have E: "serialize_elements b st out = out" "serialize_elements b st' out = out" for out
    using assms(1) by (simp_all add: serialize_elements_def ba_defs Let_def)
  have "known_kind b" using assms(1) by (simp add: known_kind_def element_size_def ba_kind_def Let_def ba_defs caml_ba_element_size_def)
  have es: "element_size ?flags = Some 8"
    unfolding element_size_def read_flags(1) using assms(1) [unfolded ba_kind_def]
    by (simp add: CAML_BA_INT64_def caml_ba_element_size_def)
  have "?flags AND CAML_BA_KIND_MASK = CAML_BA_INT64" using assms(1) by (simp add: read_flags ba_kind_def)
  moreover have "0 < unat (caml_ba_num_elts (ba_dim b))" using assms(5) by (simp add: unat_gt_0)
  ultimately have "deserialize_elements (?flags AND CAML_BA_KIND_MASK) (unat (caml_ba_num_elts (ba_dim b))) [] = None"
    by (simp add: deserialize_elements_def caml_deserialize_block_8_def deserialize_items_def ba_defs)
  moreover obtain data s where "malloc (unat (8 * caml_ba_num_elts (ba_dim b))) (allocator st2) = (data, s)" "data \<noteq> 0"
    using assms(4) by (metis prod.collapse)
  ultimately have "caml_ba_deserialize malloc old2 (ba_header b @ []) st2 = None"
    unfolding read_header [OF assms(2)] using es by (simp add: read_dims_32 [OF assms(3)] Let_def)
  then show ?thesis by (simp add: caml_ba_serialize_header E)
qed

lemma bigarray_roundtrip_witness:
  "\<exists>b' st'. caml_ba_deserialize (\<lambda>n s. (8192, s)) 0
      (fst (caml_ba_serialize (example_array CAML_BA_SINT16)
         \<lparr>ba_mem = of_nat, counters = Map.empty, proxies = Map.empty, allocator = (), freed = []\<rparr>) @ [7])
      \<lparr>ba_mem = \<lambda>_. 0, counters = Map.empty, proxies = Map.empty, allocator = (), freed = []\<rparr> = Some (Inr (b', [7], st')) \<and>
    ba_dim b' = [2, 3] \<and> ba_kind b' = CAML_BA_SINT16 \<and> memory_bytes st' (ba_data b') 12 = [0, 1, 2, 3, 4, 5, 6, 7, 8, 9, 10, 11]"
proof -
  have k: "known_kind (example_array CAML_BA_SINT16)" "ba_kind (example_array CAML_BA_SINT16) = CAML_BA_SINT16"
    "width (example_array CAML_BA_SINT16) = 2" by code_simp+
  have n: "CAML_BA_SINT16 \<noteq> CAML_BA_INT64" by code_simp
  have m: "memory_bytes \<lparr>ba_mem = of_nat, counters = Map.empty, proxies = Map.empty, allocator = (), freed = []\<rparr> 4096 12 =
      [0, 1, 2, 3, 4, 5, 6, 7, 8, 9, 10, 11]"
    by (simp add: memory_bytes_def upt_rec)
  have d: "ba_dim (example_array CAML_BA_SINT16) = [2, 3]" "ba_data (example_array CAML_BA_SINT16) = 4096" by (simp_all add: example_array_def)
  have e: "unat (caml_ba_num_elts [2, 3]) = 6" by code_simp
  show ?thesis
    using bigarray_roundtrip [of "example_array CAML_BA_SINT16" "\<lambda>n s. (8192, s)" 0
        "\<lparr>ba_mem = of_nat, counters = Map.empty, proxies = Map.empty, allocator = (), freed = []\<rparr>" "[7]"
        "\<lparr>ba_mem = \<lambda>_. 0, counters = Map.empty, proxies = Map.empty, allocator = (), freed = []\<rparr>"]
    by (auto simp: k n d e m)
qed

lemma int64_elements_lost_witness:
  "caml_ba_deserialize (\<lambda>n s. (8192, s)) 0
      (fst (caml_ba_serialize (example_array CAML_BA_INT64)
         \<lparr>ba_mem = of_nat, counters = Map.empty, proxies = Map.empty, allocator = (), freed = []\<rparr>))
      \<lparr>ba_mem = \<lambda>_. 0, counters = Map.empty, proxies = Map.empty, allocator = (), freed = []\<rparr> = None"
proof -
  have k: "ba_kind (example_array CAML_BA_INT64) = CAML_BA_INT64" by code_simp
  have e: "caml_ba_num_elts [2, 3] = 6" by code_simp
  have d: "ba_dim (example_array CAML_BA_INT64) = [2, 3]" by (simp add: example_array_def)
  show ?thesis
    using int64_elements_lost [of "example_array CAML_BA_INT64" "\<lambda>n s. (8192, s)"
        "\<lparr>ba_mem = of_nat, counters = Map.empty, proxies = Map.empty, allocator = (), freed = []\<rparr>"
        "\<lparr>ba_mem = of_nat, counters = Map.empty, proxies = Map.empty, allocator = (), freed = []\<rparr>" 0
        "\<lparr>ba_mem = \<lambda>_. 0, counters = Map.empty, proxies = Map.empty, allocator = (), freed = []\<rparr>"]
    by (simp add: k d e)
qed

end
