(* ===== verification/Lexing.thy ===== *)
theory Lexing
  imports Prelude
begin

text \<open>
  The lexing engines (\<open>lexing.c\<close>): interpreters of the automata that ocamllex compiles to tables.
  A field or variable that holds a tagged integer is the number here, a flag is a Boolean. Reading a
  table or the buffer out of range is \<open>None\<close>. The engines never loop: each turn reads a byte or
  uses up the flag for the end of the input.
\<close>

section \<open>Data\<close>

record lexer_buffer =
  lex_buffer :: "u8 list"
  lex_buffer_len :: int
  lex_start_pos :: int
  lex_curr_pos :: int
  lex_last_pos :: int
  lex_last_action :: int
  lex_eof_reached :: bool
  lex_mem :: "int list"

record lexing_table =
  lex_base :: "u16 list"
  lex_backtrk :: "u16 list"
  lex_default :: "u16 list"
  lex_trans :: "u16 list"
  lex_check :: "u16 list"
  lex_base_code :: "u16 list"
  lex_backtrk_code :: "u16 list"
  lex_default_code :: "u16 list"
  lex_trans_code :: "u16 list"
  lex_check_code :: "u16 list"
  lex_code :: "u8 list"

definition Short :: "u16 list \<Rightarrow> int \<Rightarrow> int option" where
  "Short tbl n = (if 0 \<le> n \<and> nat n < length tbl then Some (sint (tbl ! nat n)) else None)"

section \<open>The engine\<close>

text \<open>On entry: a state, or the complement of one on reentry after a refill.\<close>

definition enter_state :: "int \<Rightarrow> lexer_buffer \<Rightarrow> int \<times> lexer_buffer" where
  "enter_state start_state lexbuf =
     (if start_state \<ge> 0 then
        (start_state, lexbuf\<lparr>lex_last_pos := lex_curr_pos lexbuf, lex_start_pos := lex_curr_pos lexbuf, lex_last_action := - 1\<rparr>)
      else (- start_state - 1, lexbuf))"

definition mark_backtrack :: "int \<Rightarrow> lexer_buffer \<Rightarrow> lexer_buffer" where
  "mark_backtrack backtrk lexbuf =
     (if backtrk \<ge> 0 then lexbuf\<lparr>lex_last_pos := lex_curr_pos lexbuf, lex_last_action := backtrk\<rparr> else lexbuf)"

definition needs_refill :: "lexer_buffer \<Rightarrow> bool" where
  "needs_refill lexbuf \<longleftrightarrow> lex_curr_pos lexbuf \<ge> lex_buffer_len lexbuf \<and> \<not> lex_eof_reached lexbuf"

definition read_char :: "lexer_buffer \<Rightarrow> (int \<times> lexer_buffer) option" where
  "read_char lexbuf =
     (if lex_curr_pos lexbuf \<ge> lex_buffer_len lexbuf then Some (256, lexbuf)
      else if 0 \<le> lex_curr_pos lexbuf \<and> nat (lex_curr_pos lexbuf) < length (lex_buffer lexbuf) then
        Some (uint (lex_buffer lexbuf ! nat (lex_curr_pos lexbuf)), lexbuf\<lparr>lex_curr_pos := lex_curr_pos lexbuf + 1\<rparr>)
      else None)"

definition next_state :: "lexing_table \<Rightarrow> int \<Rightarrow> int \<Rightarrow> int \<Rightarrow> int option" where
  "next_state tbl state base c =
     Option.bind (Short (lex_check tbl) (base + c)) (\<lambda>check.
       if check = state then Short (lex_trans tbl) (base + c) else Short (lex_default tbl) state)"

definition backtrack :: "lexer_buffer \<Rightarrow> int outcome \<times> lexer_buffer" where
  "backtrack lexbuf =
     (let lexbuf = lexbuf\<lparr>lex_curr_pos := lex_last_pos lexbuf\<rparr>
      in (if lex_last_action lexbuf = - 1 then Inl (Failure ''lexing: empty token'') else Inr (lex_last_action lexbuf), lexbuf))"

text \<open>One turn of the loop: the result of the engine, or the next state.\<close>

type_synonym lex_result = "(int outcome \<times> lexer_buffer) + (int \<times> lexer_buffer)"

definition lex_turn :: "lexing_table \<Rightarrow> int \<Rightarrow> lexer_buffer \<Rightarrow> lex_result option" where
  "lex_turn tbl state lexbuf =
     Option.bind (Short (lex_base tbl) state) (\<lambda>base.
     if base < 0 then Some (Inl (Inr (- base - 1), lexbuf))
     else Option.bind (Short (lex_backtrk tbl) state) (\<lambda>backtrk.
       let lexbuf = mark_backtrack backtrk lexbuf
       in if needs_refill lexbuf then Some (Inl (Inr (- state - 1), lexbuf))
          else Option.bind (read_char lexbuf) (\<lambda>(c, lexbuf).
            map_option (\<lambda>state.
              if state < 0 then Inl (backtrack lexbuf)
              else Inr (state, if c = 256 then lexbuf\<lparr>lex_eof_reached := False\<rparr> else lexbuf))
            (next_state tbl state base c))))"

definition lex_left :: "lexer_buffer \<Rightarrow> nat" where
  "lex_left lexbuf = nat (lex_buffer_len lexbuf - lex_curr_pos lexbuf) + (if lex_eof_reached lexbuf then 1 else 0)"

lemma mark_backtrack_simps [simp]:
  "lex_buffer (mark_backtrack k lexbuf) = lex_buffer lexbuf" "lex_buffer_len (mark_backtrack k lexbuf) = lex_buffer_len lexbuf"
  "lex_curr_pos (mark_backtrack k lexbuf) = lex_curr_pos lexbuf" "lex_eof_reached (mark_backtrack k lexbuf) = lex_eof_reached lexbuf"
  "lex_mem (mark_backtrack k lexbuf) = lex_mem lexbuf" "lex_left (mark_backtrack k lexbuf) = lex_left lexbuf"
  by (simp_all add: mark_backtrack_def lex_left_def)

lemma read_char_left:
  assumes "read_char lexbuf = Some (c, lexbuf')" "\<not> needs_refill lexbuf"
  shows "lex_left (if c = 256 then lexbuf'\<lparr>lex_eof_reached := False\<rparr> else lexbuf') < lex_left lexbuf"
proof (cases "lex_curr_pos lexbuf \<ge> lex_buffer_len lexbuf")
  case False
  then obtain "c \<noteq> 256" "lexbuf' = lexbuf\<lparr>lex_curr_pos := lex_curr_pos lexbuf + 1\<rparr>"
    using assms(1) uint_lt2p [of "lex_buffer lexbuf ! nat (lex_curr_pos lexbuf)"] by (auto simp: read_char_def split: if_splits)
  then show ?thesis using False by (simp add: lex_left_def)
qed (use assms in \<open>auto simp: read_char_def needs_refill_def lex_left_def\<close>)

lemma lex_turn_left: "lex_turn tbl state lexbuf = Some (Inr (state', lexbuf')) \<Longrightarrow> lex_left lexbuf' < lex_left lexbuf"
  using read_char_left [of "mark_backtrack k lexbuf" for k]
  by (fastforce simp: lex_turn_def Let_def bind_eq_Some_conv split: if_splits prod.splits)

function lex_loop :: "lexing_table \<Rightarrow> int \<Rightarrow> lexer_buffer \<Rightarrow> (int outcome \<times> lexer_buffer) option" where
  "lex_loop tbl state lexbuf =
     (case lex_turn tbl state lexbuf of
        None \<Rightarrow> None
      | Some (Inl result) \<Rightarrow> Some result
      | Some (Inr (state, lexbuf)) \<Rightarrow> lex_loop tbl state lexbuf)"
  by pat_completeness auto
termination by (relation "measure (\<lambda>(tbl, state, lexbuf). lex_left lexbuf)") (auto dest: lex_turn_left)

declare lex_loop.simps [simp del]

definition caml_lex_engine :: "lexing_table \<Rightarrow> int \<Rightarrow> lexer_buffer \<Rightarrow> (int outcome \<times> lexer_buffer) option" where
  "caml_lex_engine tbl start_state lexbuf = (let (state, lexbuf) = enter_state start_state lexbuf in lex_loop tbl state lexbuf)"

section \<open>The engine with memory of positions\<close>

definition store_mem :: "int list \<Rightarrow> u8 \<Rightarrow> int \<Rightarrow> int list option" where
  "store_mem mem dst v = (if unat dst < length mem then Some (mem[unat dst := v]) else None)"

definition load_mem :: "int list \<Rightarrow> u8 \<Rightarrow> int option" where
  "load_mem mem src = (if unat src < length mem then Some (mem ! unat src) else None)"

fun run_mem :: "u8 list \<Rightarrow> int list \<Rightarrow> int \<Rightarrow> int list option" where
  "run_mem [] mem curr_pos = None"
| "run_mem (dst # pc) mem curr_pos =
     (if dst = 0xff then Some mem
      else
        (case pc of
           [] \<Rightarrow> None
         | src # pc \<Rightarrow>
             Option.bind (if src = 0xff then Some curr_pos else load_mem mem src) (\<lambda>v.
             Option.bind (store_mem mem dst v) (\<lambda>mem. run_mem pc mem curr_pos))))"

fun run_tag :: "u8 list \<Rightarrow> int list \<Rightarrow> int list option" where
  "run_tag [] mem = None"
| "run_tag (dst # pc) mem =
     (if dst = 0xff then Some mem
      else
        (case pc of
           [] \<Rightarrow> None
         | src # pc \<Rightarrow>
             Option.bind (if src = 0xff then Some (- 1) else load_mem mem src) (\<lambda>v.
             Option.bind (store_mem mem dst v) (\<lambda>mem. run_tag pc mem))))"

text \<open>The code from an offset on.\<close>

definition code_from :: "u8 list \<Rightarrow> int \<Rightarrow> u8 list" where
  "code_from code pc_off = (if pc_off < 0 then [] else drop (nat pc_off) code)"

definition tag_at :: "lexing_table \<Rightarrow> u16 list \<Rightarrow> int \<Rightarrow> lexer_buffer \<Rightarrow> lexer_buffer option" where
  "tag_at tbl offsets state lexbuf =
     Option.bind (Short offsets state) (\<lambda>pc_off.
       map_option (\<lambda>mem. lexbuf\<lparr>lex_mem := mem\<rparr>) (run_tag (code_from (lex_code tbl) pc_off) (lex_mem lexbuf)))"

definition memory_moves :: "lexing_table \<Rightarrow> int \<Rightarrow> int \<Rightarrow> lexer_buffer \<Rightarrow> lexer_buffer option" where
  "memory_moves tbl pstate c lexbuf =
     Option.bind (Short (lex_base_code tbl) pstate) (\<lambda>base_code.
     Option.bind (Short (lex_check_code tbl) (base_code + c)) (\<lambda>check.
     Option.bind (if check = pstate then Short (lex_trans_code tbl) (base_code + c) else Short (lex_default_code tbl) pstate) (\<lambda>pc_off.
       if pc_off > 0 then
         map_option (\<lambda>mem. lexbuf\<lparr>lex_mem := mem\<rparr>)
           (run_mem (code_from (lex_code tbl) pc_off) (lex_mem lexbuf) (lex_curr_pos lexbuf))
       else Some lexbuf)))"

definition new_lex_turn :: "lexing_table \<Rightarrow> int \<Rightarrow> lexer_buffer \<Rightarrow> lex_result option" where
  "new_lex_turn tbl state lexbuf =
     Option.bind (Short (lex_base tbl) state) (\<lambda>base.
     if base < 0 then map_option (\<lambda>lexbuf. Inl (Inr (- base - 1), lexbuf)) (tag_at tbl (lex_base_code tbl) state lexbuf)
     else Option.bind (Short (lex_backtrk tbl) state) (\<lambda>backtrk.
       Option.bind (if backtrk \<ge> 0 then tag_at tbl (lex_backtrk_code tbl) state lexbuf else Some lexbuf) (\<lambda>lexbuf.
       let lexbuf = mark_backtrack backtrk lexbuf
       in if needs_refill lexbuf then Some (Inl (Inr (- state - 1), lexbuf))
          else Option.bind (read_char lexbuf) (\<lambda>(c, lexbuf).
            Option.bind (next_state tbl state base c) (\<lambda>state'.
              if state' < 0 then Some (Inl (backtrack lexbuf))
              else map_option (\<lambda>lexbuf. Inr (state', if c = 256 then lexbuf\<lparr>lex_eof_reached := False\<rparr> else lexbuf))
                     (memory_moves tbl state c lexbuf))))))"

lemma tag_at_frame: "tag_at tbl offsets state lexbuf = Some lexbuf' \<Longrightarrow> \<exists>mem. lexbuf' = lexbuf\<lparr>lex_mem := mem\<rparr>"
  by (auto simp: tag_at_def bind_eq_Some_conv)

lemma memory_moves_frame:
  assumes "memory_moves tbl pstate c lexbuf = Some lexbuf'"
  shows "\<exists>mem. lexbuf' = lexbuf\<lparr>lex_mem := mem\<rparr>"
proof -
  obtain pc_off :: int where "(if pc_off > 0 then
         map_option (\<lambda>mem. lexbuf\<lparr>lex_mem := mem\<rparr>)
           (run_mem (code_from (lex_code tbl) pc_off) (lex_mem lexbuf) (lex_curr_pos lexbuf))
       else Some lexbuf) = Some lexbuf'"
    using assms unfolding memory_moves_def bind_eq_Some_conv by (elim exE conjE) (rule that)
  then show ?thesis
  proof (cases "pc_off > 0")
    case False
    assume "(if pc_off > 0 then
         map_option (\<lambda>mem. lexbuf\<lparr>lex_mem := mem\<rparr>)
           (run_mem (code_from (lex_code tbl) pc_off) (lex_mem lexbuf) (lex_curr_pos lexbuf))
       else Some lexbuf) = Some lexbuf'"
    then have "lexbuf' = lexbuf\<lparr>lex_mem := lex_mem lexbuf\<rparr>" using False by simp
    then show ?thesis ..
  qed auto
qed

text \<open>Without the memory of positions a turn of the new engine is a turn of the old one.\<close>

definition forget :: "lexer_buffer \<Rightarrow> lexer_buffer" where
  "forget lexbuf = lexbuf\<lparr>lex_mem := []\<rparr>"

abbreviation forget_turn :: "lex_result \<Rightarrow> lex_result" where
  "forget_turn \<equiv> map_sum (map_prod id forget) (map_prod id forget)"

lemma forget_simps [simp]:
  "lex_buffer (forget lexbuf) = lex_buffer lexbuf" "lex_buffer_len (forget lexbuf) = lex_buffer_len lexbuf"
  "lex_start_pos (forget lexbuf) = lex_start_pos lexbuf" "lex_curr_pos (forget lexbuf) = lex_curr_pos lexbuf"
  "lex_last_pos (forget lexbuf) = lex_last_pos lexbuf" "lex_last_action (forget lexbuf) = lex_last_action lexbuf"
  "lex_eof_reached (forget lexbuf) = lex_eof_reached lexbuf" "lex_left (forget lexbuf) = lex_left lexbuf"
  "forget (lexbuf\<lparr>lex_mem := mem\<rparr>) = forget lexbuf"
  "forget (lexbuf\<lparr>lex_eof_reached := e\<rparr>) = (forget lexbuf)\<lparr>lex_eof_reached := e\<rparr>"
  "forget (lexbuf\<lparr>lex_curr_pos := n\<rparr>) = (forget lexbuf)\<lparr>lex_curr_pos := n\<rparr>"
  "mark_backtrack k (forget lexbuf) = forget (mark_backtrack k lexbuf)"
  "needs_refill (forget lexbuf) \<longleftrightarrow> needs_refill lexbuf"
  "read_char (forget lexbuf) = map_option (map_prod id forget) (read_char lexbuf)"
  "backtrack (forget lexbuf) = map_prod id forget (backtrack lexbuf)"
  by (simp_all add: forget_def lex_left_def mark_backtrack_def needs_refill_def read_char_def backtrack_def Let_def)

lemma tag_at_forget: "tag_at tbl offsets state lexbuf = Some lexbuf' \<Longrightarrow> forget lexbuf' = forget lexbuf"
  by (drule tag_at_frame) auto

lemma memory_moves_forget: "memory_moves tbl pstate c lexbuf = Some lexbuf' \<Longrightarrow> forget lexbuf' = forget lexbuf"
  by (drule memory_moves_frame) auto

lemma new_lex_turn_forget:
  assumes "new_lex_turn tbl state lexbuf = Some r"
  shows "lex_turn tbl state (forget lexbuf) = Some (forget_turn r)"
proof -
  obtain base where base: "Short (lex_base tbl) state = Some base" using assms by (auto simp: new_lex_turn_def bind_eq_Some_conv)
  show ?thesis
  proof (cases "base < 0")
    case True
    then show ?thesis using assms by (auto simp: new_lex_turn_def lex_turn_def base dest!: tag_at_forget)
  next
    case False
    obtain backtrk b where b: "Short (lex_backtrk tbl) state = Some backtrk"
      "(if backtrk \<ge> 0 then tag_at tbl (lex_backtrk_code tbl) state lexbuf else Some lexbuf) = Some b"
      using assms False by (auto simp: new_lex_turn_def base bind_eq_Some_conv)
    have fb: "forget b = forget lexbuf" using b(2) by (auto dest: tag_at_forget split: if_splits)
    let ?b = "mark_backtrack backtrk b"
    show ?thesis
    proof (cases "needs_refill b")
      case True
      then have "needs_refill ?b" by (simp add: needs_refill_def)
      then show ?thesis using assms False by (auto simp: new_lex_turn_def lex_turn_def base b Let_def fb [symmetric])
    next
      case r: False
      then have nr: "\<not> needs_refill ?b" by (simp add: needs_refill_def)
      obtain c b1 state' where c: "read_char ?b = Some (c, b1)" "next_state tbl state base c = Some state'"
        using assms False nr by (auto simp: new_lex_turn_def base b Let_def bind_eq_Some_conv)
      show ?thesis
        using assms False nr c by (auto simp: new_lex_turn_def lex_turn_def base b Let_def fb [symmetric] dest!: memory_moves_forget split: if_splits)
          (metis forget_simps(10))
    qed
  qed
qed

lemma new_lex_turn_left: "new_lex_turn tbl state lexbuf = Some (Inr (state', lexbuf')) \<Longrightarrow> lex_left lexbuf' < lex_left lexbuf"
  using new_lex_turn_forget [of tbl state lexbuf] lex_turn_left [of tbl state "forget lexbuf" state' "forget lexbuf'"] by simp

function new_lex_loop :: "lexing_table \<Rightarrow> int \<Rightarrow> lexer_buffer \<Rightarrow> (int outcome \<times> lexer_buffer) option" where
  "new_lex_loop tbl state lexbuf =
     (case new_lex_turn tbl state lexbuf of
        None \<Rightarrow> None
      | Some (Inl result) \<Rightarrow> Some result
      | Some (Inr (state, lexbuf)) \<Rightarrow> new_lex_loop tbl state lexbuf)"
  by pat_completeness auto
termination by (relation "measure (\<lambda>(tbl, state, lexbuf). lex_left lexbuf)") (auto dest: new_lex_turn_left)

declare new_lex_loop.simps [simp del]

definition caml_new_lex_engine :: "lexing_table \<Rightarrow> int \<Rightarrow> lexer_buffer \<Rightarrow> (int outcome \<times> lexer_buffer) option" where
  "caml_new_lex_engine tbl start_state lexbuf = (let (state, lexbuf) = enter_state start_state lexbuf in new_lex_loop tbl state lexbuf)"

end
