(* ===== verification/Lexing_Proofs.thy ===== *)
theory Lexing_Proofs
  imports Lexing
begin

text \<open>
  The lexing engine takes the longest match of its automaton, waits for more input exactly when the
  automaton could go on, and goes on after a refill as if all the input had been there; the engine
  with memory gives the same tokens.
\<close>

section \<open>The automaton of a table\<close>

definition base_of :: "lexing_table \<Rightarrow> int \<Rightarrow> int" where
  "base_of tbl s = sint (lex_base tbl ! nat s)"

text \<open>A final state has an action and no transitions.\<close>

definition final :: "lexing_table \<Rightarrow> int \<Rightarrow> bool" where
  "final tbl s \<longleftrightarrow> base_of tbl s < 0"

definition backtrk_of :: "lexing_table \<Rightarrow> int \<Rightarrow> int" where
  "backtrk_of tbl s = sint (lex_backtrk tbl ! nat s)"

definition action :: "lexing_table \<Rightarrow> int \<Rightarrow> int option" where
  "action tbl s = (if final tbl s then Some (- base_of tbl s - 1) else if backtrk_of tbl s \<ge> 0 then Some (backtrk_of tbl s) else None)"

definition goes_to :: "lexing_table \<Rightarrow> int \<Rightarrow> int \<Rightarrow> int option" where
  "goes_to tbl s c =
     (if final tbl s then None
      else Option.bind (next_state tbl s (base_of tbl s) c) (\<lambda>t. if t < 0 then None else Some t))"

fun run_to :: "lexing_table \<Rightarrow> int \<Rightarrow> int list \<Rightarrow> int option" where
  "run_to tbl s [] = Some s"
| "run_to tbl s (c # w) = Option.bind (goes_to tbl s c) (\<lambda>t. run_to tbl t w)"

definition is_state :: "lexing_table \<Rightarrow> int \<Rightarrow> bool" where
  "is_state tbl s \<longleftrightarrow> 0 \<le> s \<and> s < int (length (lex_base tbl))"

text \<open>The tables ocamllex writes: every transition is inside the tables and leads to a state or nowhere.\<close>

definition wf_lexing_table :: "lexing_table \<Rightarrow> bool" where
  "wf_lexing_table tbl \<longleftrightarrow>
     (\<forall>s\<in>set (map int [0..<length (lex_base tbl)]).
        final tbl s \<or>
        nat s < length (lex_backtrk tbl) \<and>
        (\<forall>c\<in>set (map int [0..<257]).
           case next_state tbl s (base_of tbl s) c of None \<Rightarrow> False | Some t \<Rightarrow> t < int (length (lex_base tbl))))"

lemma wf_tableD:
  assumes "wf_lexing_table tbl" "is_state tbl s"
  shows "Short (lex_base tbl) s = Some (base_of tbl s)"
    and "\<not> final tbl s \<Longrightarrow> Short (lex_backtrk tbl) s = Some (backtrk_of tbl s)"
    and "\<not> final tbl s \<Longrightarrow> 0 \<le> c \<Longrightarrow> c \<le> 256 \<Longrightarrow> \<exists>t. next_state tbl s (base_of tbl s) c = Some t \<and> (t < 0 \<or> is_state tbl t)"
proof -
  have s: "0 \<le> s" "nat s < length (lex_base tbl)" using assms(2) by (simp_all add: is_state_def nat_less_iff)
  then show "Short (lex_base tbl) s = Some (base_of tbl s)" by (simp add: Short_def base_of_def)
  have m: "s \<in> set (map int [0..<length (lex_base tbl)])" using s by (auto intro!: image_eqI [of _ _ "nat s"])
  assume f: "\<not> final tbl s"
  have w: "nat s < length (lex_backtrk tbl) \<and>
        (\<forall>c\<in>set (map int [0..<257]).
           case next_state tbl s (base_of tbl s) c of None \<Rightarrow> False | Some t \<Rightarrow> t < int (length (lex_base tbl)))"
    using assms(1) m f unfolding wf_lexing_table_def by blast
  then show "Short (lex_backtrk tbl) s = Some (backtrk_of tbl s)" using s by (simp add: Short_def backtrk_of_def)
  assume c: "0 \<le> c" "c \<le> 256"
  then have "c \<in> set (map int [0..<257])" by (auto intro!: image_eqI [of _ _ "nat c"])
  then have "case next_state tbl s (base_of tbl s) c of None \<Rightarrow> False | Some t \<Rightarrow> t < int (length (lex_base tbl))" using w by blast
  then show "\<exists>t. next_state tbl s (base_of tbl s) c = Some t \<and> (t < 0 \<or> is_state tbl t)"
    by (auto simp: is_state_def split: option.splits)
qed

lemma action_nonneg: "action tbl s = Some a \<Longrightarrow> 0 \<le> a"
  by (auto simp: action_def final_def split: if_splits)

section \<open>The input\<close>

definition buffer_ok :: "lexer_buffer \<Rightarrow> bool" where
  "buffer_ok b \<longleftrightarrow> 0 \<le> lex_curr_pos b \<and> lex_curr_pos b \<le> lex_buffer_len b \<and> lex_buffer_len b = int (length (lex_buffer b))"

text \<open>What the automaton can still read: the bytes, and the end of the input as 256.\<close>

definition symbols :: "lexer_buffer \<Rightarrow> int list" where
  "symbols b = map uint (drop (nat (lex_curr_pos b)) (lex_buffer b)) @ (if lex_eof_reached b then [256] else [])"

definition consume :: "int \<Rightarrow> lexer_buffer \<Rightarrow> lexer_buffer" where
  "consume c b = (if c = 256 then b\<lparr>lex_eof_reached := False\<rparr> else b\<lparr>lex_curr_pos := lex_curr_pos b + 1\<rparr>)"

lemma symbols_Nil:
  assumes "buffer_ok b"
  shows "symbols b = [] \<longleftrightarrow> needs_refill b"
  using assms by (auto simp: symbols_def needs_refill_def buffer_ok_def)

lemma symbols_Cons:
  assumes "buffer_ok b" "symbols b = c # w"
  shows "0 \<le> c" "c \<le> 256" "buffer_ok (consume c b)" "symbols (consume c b) = w"
    "read_char b = Some (c, if c = 256 then b else consume c b)"
    "c = 256 \<Longrightarrow> lex_curr_pos b = lex_buffer_len b \<and> w = []" "c \<noteq> 256 \<Longrightarrow> lex_curr_pos b < lex_buffer_len b"
proof -
  have "(0 \<le> c \<and> c \<le> 256 \<and> buffer_ok (consume c b) \<and> symbols (consume c b) = w \<and>
    read_char b = Some (c, if c = 256 then b else consume c b)) \<and>
    (c = 256 \<longrightarrow> lex_curr_pos b = lex_buffer_len b \<and> w = []) \<and> (c \<noteq> 256 \<longrightarrow> lex_curr_pos b < lex_buffer_len b)"
  proof (cases "lex_curr_pos b < lex_buffer_len b")
    case True
    then have n: "nat (lex_curr_pos b) < length (lex_buffer b)" using assms(1) by (simp add: buffer_ok_def nat_less_iff)
    have "c = uint (lex_buffer b ! nat (lex_curr_pos b))"
      "w = map uint (drop (Suc (nat (lex_curr_pos b))) (lex_buffer b)) @ (if lex_eof_reached b then [256] else [])"
      using assms(2) n by (simp_all add: symbols_def Cons_nth_drop_Suc [symmetric])
    moreover have "Suc (nat (lex_curr_pos b)) = nat (lex_curr_pos b + 1)" using assms(1) by (simp add: buffer_ok_def Suc_nat_eq_nat_zadd1 add.commute)
    moreover have "uint (lex_buffer b ! nat (lex_curr_pos b)) < 256" using uint_lt2p [of "lex_buffer b ! nat (lex_curr_pos b)"] by simp
    ultimately show ?thesis using True n assms(1) by (auto simp: consume_def buffer_ok_def symbols_def read_char_def)
  next
    case False
    then have "symbols b = (if lex_eof_reached b then [256] else [])" using assms(1) by (simp add: symbols_def buffer_ok_def)
    then have "c = 256" "w = []" "lex_eof_reached b" using assms(2) by (simp_all split: if_splits)
    then show ?thesis using False assms(1) by (auto simp: consume_def buffer_ok_def symbols_def read_char_def)
  qed
  then show "0 \<le> c" "c \<le> 256" "buffer_ok (consume c b)" "symbols (consume c b) = w"
    "read_char b = Some (c, if c = 256 then b else consume c b)"
    "c = 256 \<Longrightarrow> lex_curr_pos b = lex_buffer_len b \<and> w = []" "c \<noteq> 256 \<Longrightarrow> lex_curr_pos b < lex_buffer_len b" by blast+
qed

lemma length_symbols: "buffer_ok b \<Longrightarrow> lex_buffer_len b \<le> lex_curr_pos b + int (length (symbols b))"
  by (auto simp: buffer_ok_def symbols_def)

section \<open>Turns of the engine\<close>

text \<open>The backtrack point at a state that is not final.\<close>

definition marked :: "lexing_table \<Rightarrow> int \<Rightarrow> lexer_buffer \<Rightarrow> lexer_buffer" where
  "marked tbl s b = mark_backtrack (backtrk_of tbl s) b"

lemma marked_ok [simp]:
  "buffer_ok (marked tbl s b) \<longleftrightarrow> buffer_ok b" "symbols (marked tbl s b) = symbols b"
  "lex_curr_pos (marked tbl s b) = lex_curr_pos b" "lex_buffer_len (marked tbl s b) = lex_buffer_len b"
  "needs_refill (marked tbl s b) \<longleftrightarrow> needs_refill b"
  by (simp_all add: marked_def buffer_ok_def symbols_def needs_refill_def)

lemma turn_final: "wf_lexing_table tbl \<Longrightarrow> is_state tbl s \<Longrightarrow> final tbl s \<Longrightarrow> lex_loop tbl s b = Some (Inr (- base_of tbl s - 1), b)"
  by (simp add: lex_loop.simps lex_turn_def wf_tableD(1)) (simp add: final_def)

lemma turn_refill:
  assumes "wf_lexing_table tbl" "is_state tbl s" "\<not> final tbl s" "needs_refill b"
  shows "lex_loop tbl s b = Some (Inr (- s - 1), marked tbl s b)"
proof -
  have "needs_refill (mark_backtrack (backtrk_of tbl s) b)" using assms(4) by (simp add: needs_refill_def)
  then show ?thesis
    using assms by (simp add: lex_loop.simps lex_turn_def wf_tableD Let_def marked_def) (simp add: final_def)
qed

lemma turn_read:
  assumes "wf_lexing_table tbl" "is_state tbl s" "\<not> final tbl s" "buffer_ok b" "symbols b = c # w"
  shows "lex_loop tbl s b =
    (case goes_to tbl s c of
       None \<Rightarrow> Some (backtrack (if c = 256 then marked tbl s b else consume c (marked tbl s b)))
     | Some t \<Rightarrow> lex_loop tbl t (consume c (marked tbl s b)))"
proof -
  have "buffer_ok (marked tbl s b)" "symbols (marked tbl s b) = c # w" using assms(4,5) by simp_all
  note sy = symbols_Cons [OF this]
  have r: "\<not> needs_refill (marked tbl s b)" using symbols_Nil [OF assms(4)] assms(5) by simp
  obtain t where t: "next_state tbl s (base_of tbl s) c = Some t" using wf_tableD(3) [OF assms(1-3) sy(1,2)] by blast
  have "lex_turn tbl s b =
      Some (if t < 0 then Inl (backtrack (if c = 256 then marked tbl s b else consume c (marked tbl s b)))
            else Inr (t, consume c (marked tbl s b)))"
    using assms(3) r sy(5) t
    by (auto simp: lex_turn_def wf_tableD [OF assms(1,2)] Let_def marked_def [symmetric] consume_def) (simp_all add: final_def)
  then show ?thesis using assms(3) t by (simp add: lex_loop.simps [of tbl s b] goes_to_def)
qed

section \<open>The longest match\<close>

text \<open>The length and the action of the longest prefix that leads to a state with an action.\<close>

fun longest :: "lexing_table \<Rightarrow> int \<Rightarrow> int list \<Rightarrow> (nat \<times> int) option" where
  "longest tbl s [] = map_option (Pair 0) (action tbl s)"
| "longest tbl s (c # w) =
     (case Option.bind (goes_to tbl s c) (\<lambda>t. longest tbl t w) of
        Some (n, a) \<Rightarrow> Some (Suc n, a)
      | None \<Rightarrow> map_option (Pair 0) (action tbl s))"

lemma longest_None: "longest tbl s w = None \<longleftrightarrow> (\<forall>m t. run_to tbl s (take m w) = Some t \<longrightarrow> action tbl t = None)"
proof (induction w arbitrary: s)
  case (Cons c w)
  have now: "(\<forall>m t. run_to tbl s (take m (c # w)) = Some t \<longrightarrow> action tbl t = None) \<longleftrightarrow>
      action tbl s = None \<and> (\<forall>u. goes_to tbl s c = Some u \<longrightarrow> (\<forall>m t. run_to tbl u (take m w) = Some t \<longrightarrow> action tbl t = None))"
    (is "?all \<longleftrightarrow> ?here \<and> ?later")
  proof
    assume all: ?all
    have ?here using all [rule_format, of 0] by simp
    moreover have "action tbl t = None" if "goes_to tbl s c = Some u" "run_to tbl u (take m w) = Some t" for u m t
      using all [rule_format, of "Suc m" t] that by simp
    ultimately show "?here \<and> ?later" by blast
  next
    assume l: "?here \<and> ?later"
    have "action tbl t = None" if r: "run_to tbl s (take m (c # w)) = Some t" for m t
      using l r by (cases m) (auto simp: bind_eq_Some_conv)
    then show ?all by blast
  qed
  show ?case
  proof (cases "goes_to tbl s c")
    case None
    then show ?thesis unfolding now by simp
  next
    case (Some u)
    then show ?thesis unfolding now using Cons.IH [of u] by (cases "longest tbl u w") (simp_all add: split_paired_all)
  qed
qed simp

lemma longest_Some:
  assumes "longest tbl s w = Some (n, a)"
  shows "n \<le> length w \<and> (\<exists>t. run_to tbl s (take n w) = Some t \<and> action tbl t = Some a) \<and>
    (\<forall>m t. n < m \<and> m \<le> length w \<and> run_to tbl s (take m w) = Some t \<longrightarrow> action tbl t = None)"
  using assms
proof (induction w arbitrary: s n)
  case (Cons c w)
  show ?case
  proof (cases "Option.bind (goes_to tbl s c) (\<lambda>t. longest tbl t w)")
    case None
    have "action tbl t = None" if m: "0 < m" and r: "run_to tbl s (take m (c # w)) = Some t" for m t
    proof -
      obtain k where "m = Suc k" using m gr0_implies_Suc by blast
      then obtain u where "goes_to tbl s c = Some u" "run_to tbl u (take k w) = Some t" using r by (auto simp: bind_eq_Some_conv)
      then show ?thesis using None longest_None [of tbl u w] by (auto simp: bind_eq_None_conv)
    qed
    then show ?thesis using None Cons.prems by auto
  next
    case (Some x)
    then obtain u k where u: "goes_to tbl s c = Some u" "longest tbl u w = Some (k, a)" "n = Suc k"
      using Cons.prems by (cases x) (auto simp: bind_eq_Some_conv)
    have "action tbl t = None" if m: "n < m" "m \<le> length (c # w)" "run_to tbl s (take m (c # w)) = Some t" for m t
    proof -
      obtain j where "m = Suc j" using m(1) gr0_implies_Suc [of m] by auto
      then show ?thesis using Cons.IH [OF u(2)] m u(1,3) by auto
    qed
    then show ?thesis using Cons.IH [OF u(2)] u by auto
  qed
qed auto

lemma lex_loop_longest:
  assumes "wf_lexing_table tbl" "is_state tbl s" "buffer_ok b"
  shows "\<exists>r b'. lex_loop tbl s b = Some (r, b') \<and>
    (if \<exists>t. run_to tbl s (symbols b) = Some t \<and> \<not> final tbl t
     then r = Inr (- the (run_to tbl s (symbols b)) - 1) \<and> lex_curr_pos b' = lex_buffer_len b
     else case longest tbl s (symbols b) of
            Some (n, a) \<Rightarrow> r = Inr a \<and> lex_curr_pos b' = min (lex_curr_pos b + int n) (lex_buffer_len b)
          | None \<Rightarrow> r = (if lex_last_action b = - 1 then Inl (Failure ''lexing: empty token'') else Inr (lex_last_action b)) \<and>
              lex_curr_pos b' = lex_last_pos b)"
  using assms(2,3)
proof (induction "symbols b" arbitrary: s b)
  case Nil
  then have r: "needs_refill b" "symbols b = []" using symbols_Nil [OF Nil.prems(2)] by auto
  then have len: "lex_curr_pos b = lex_buffer_len b" using Nil.prems(2) by (simp add: needs_refill_def buffer_ok_def)
  show ?case
  proof (cases "final tbl s")
    case True
    then show ?thesis using len by (simp add: turn_final [OF assms(1) Nil.prems(1)] r(2) action_def)
  next
    case False
    then show ?thesis using len by (simp add: turn_refill [OF assms(1) Nil.prems(1) _ r(1)] r(2))
  qed
next
  case (Cons c w)
  note sw = Cons.hyps(2) [symmetric]
  have "buffer_ok (marked tbl s b)" "symbols (marked tbl s b) = c # w" using Cons.prems(2) sw by simp_all
  note sy = symbols_Cons [OF this, unfolded marked_ok]
  show ?case
  proof (cases "final tbl s")
    case True
    then show ?thesis using Cons.prems(2) by (simp add: turn_final [OF assms(1) Cons.prems(1)] sw goes_to_def action_def buffer_ok_def)
  next
    case f: False
    have act: "action tbl s = (if backtrk_of tbl s \<ge> 0 then Some (backtrk_of tbl s) else None)" using f by (simp add: action_def)
    note turn = turn_read [OF assms(1) Cons.prems(1) f Cons.prems(2) sw]
    show ?thesis
    proof (cases "goes_to tbl s c")
      case None
      then show ?thesis
        using Cons.prems(2) by (simp add: turn sw act) (auto simp: backtrack_def Let_def marked_def mark_backtrack_def consume_def buffer_ok_def)
    next
      case (Some t)
      have t: "is_state tbl t" using wf_tableD(3) [OF assms(1) Cons.prems(1) f sy(1,2)] Some f
        by (auto simp: goes_to_def split: if_splits)
      let ?b = "consume c (marked tbl s b)"
      have pos: "lex_buffer_len ?b = lex_buffer_len b" "min (lex_curr_pos ?b + int n) (lex_buffer_len b) = min (lex_curr_pos b + int (Suc n)) (lex_buffer_len b)" for n
        using sy(6,7) by (auto simp: consume_def)
      have last: "lex_last_action ?b = (case action tbl s of Some a \<Rightarrow> a | None \<Rightarrow> lex_last_action b)"
        "lex_last_pos ?b = (case action tbl s of Some a \<Rightarrow> lex_curr_pos b | None \<Rightarrow> lex_last_pos b)"
        by (simp_all add: act consume_def marked_def mark_backtrack_def)
      have cp: "lex_curr_pos b \<le> lex_buffer_len b" using Cons.prems(2) by (simp add: buffer_ok_def)
      obtain r b' where r: "lex_loop tbl t ?b = Some (r, b')"
        "if \<exists>u. run_to tbl t w = Some u \<and> \<not> final tbl u
         then r = Inr (- the (run_to tbl t w) - 1) \<and> lex_curr_pos b' = lex_buffer_len b
         else case longest tbl t w of
                Some (n, a) \<Rightarrow> r = Inr a \<and> lex_curr_pos b' = min (lex_curr_pos b + int (Suc n)) (lex_buffer_len b)
              | None \<Rightarrow> r = (if lex_last_action ?b = - 1 then Inl (Failure ''lexing: empty token'') else Inr (lex_last_action ?b)) \<and>
                  lex_curr_pos b' = lex_last_pos ?b"
        using Cons.hyps(1) [of ?b t] sy(3,4) t unfolding pos by blast
      have "lex_loop tbl s b = Some (r, b')" using turn Some r(1) by simp
      moreover have a: "action tbl s = Some a \<Longrightarrow> a \<noteq> - 1" for a using action_nonneg [of tbl s a] by auto
      ultimately show ?thesis using r(2) cp unfolding last sw
        by (auto simp: Some split: option.splits if_splits)
    qed
  qed
qed

lemma run_to_state:
  assumes "wf_lexing_table tbl" "is_state tbl s" "\<forall>c\<in>set w. 0 \<le> c \<and> c \<le> 256" "run_to tbl s w = Some t"
  shows "is_state tbl t"
  using assms(2-4)
proof (induction w arbitrary: s)
  case (Cons c w)
  then obtain u where u: "goes_to tbl s c = Some u" "run_to tbl u w = Some t" by (auto simp: bind_eq_Some_conv)
  then have "\<not> final tbl s" by (auto simp: goes_to_def)
  then have "is_state tbl u"
    using wf_tableD(3) [OF assms(1) Cons.prems(1), of c] Cons.prems(2) u(1) by (auto simp: goes_to_def split: if_splits)
  then show ?case using Cons.IH [of u] Cons.prems(2) u(2) by simp
qed simp

lemma symbols_range: "c \<in> set (symbols b) \<Longrightarrow> 0 \<le> c \<and> c \<le> 256"
  using uint_lt2p [of x for x :: u8] by (auto simp: symbols_def order.strict_implies_order split: if_splits)

lemma enter_state_first: "0 \<le> s \<Longrightarrow> enter_state s b = (s, b\<lparr>lex_last_pos := lex_curr_pos b, lex_start_pos := lex_curr_pos b, lex_last_action := - 1\<rparr>)"
  by (simp add: enter_state_def)

lemma entered_ok:
  assumes "b1 = b\<lparr>lex_last_pos := lex_curr_pos b, lex_start_pos := lex_curr_pos b, lex_last_action := - 1\<rparr>"
  shows "buffer_ok b1 \<longleftrightarrow> buffer_ok b" "symbols b1 = symbols b" "lex_curr_pos b1 = lex_curr_pos b"
    "lex_buffer_len b1 = lex_buffer_len b" "lex_last_action b1 = - 1" "lex_eof_reached b1 = lex_eof_reached b"
  by (simp_all add: assms buffer_ok_def symbols_def)

text \<open>
  C14. With the tables of an automaton the engine always returns. It asks for a refill exactly when
  the automaton is in a state that is not final after all the input there is, and returns that
  state. Otherwise it returns the action of the longest prefix of the input that leads to a state
  with an action, and the position after it; or it fails, when no prefix leads to such a state.
\<close>

theorem caml_lex_engine_longest_match:
  assumes "wf_lexing_table tbl" "is_state tbl s" "buffer_ok b"
  shows "\<exists>r b'. caml_lex_engine tbl s b = Some (r, b') \<and>
    ((\<exists>a. r = Inr a \<and> a < 0) \<longleftrightarrow> (\<exists>t. run_to tbl s (symbols b) = Some t \<and> \<not> final tbl t)) \<and>
    (\<forall>a. r = Inr a \<and> a < 0 \<longrightarrow> run_to tbl s (symbols b) = Some (- a - 1)) \<and>
    (\<forall>a. r = Inr a \<and> 0 \<le> a \<longrightarrow>
      (\<exists>n t. n \<le> length (symbols b) \<and> run_to tbl s (take n (symbols b)) = Some t \<and> action tbl t = Some a \<and>
        lex_curr_pos b' = min (lex_curr_pos b + int n) (lex_buffer_len b) \<and>
        (\<forall>m u. n < m \<and> m \<le> length (symbols b) \<and> run_to tbl s (take m (symbols b)) = Some u \<longrightarrow> action tbl u = None))) \<and>
    (\<forall>e. r = Inl e \<longrightarrow> e = Failure ''lexing: empty token'' \<and>
      (\<forall>m t. run_to tbl s (take m (symbols b)) = Some t \<longrightarrow> action tbl t = None))"
proof -
  let ?b = "b\<lparr>lex_last_pos := lex_curr_pos b, lex_start_pos := lex_curr_pos b, lex_last_action := - 1\<rparr>"
  note e = entered_ok [of ?b b, OF refl]
  have s: "0 \<le> s" using assms(2) by (simp add: is_state_def)
  obtain r b' where r: "lex_loop tbl s ?b = Some (r, b')"
    "if \<exists>t. run_to tbl s (symbols b) = Some t \<and> \<not> final tbl t
     then r = Inr (- the (run_to tbl s (symbols b)) - 1) \<and> lex_curr_pos b' = lex_buffer_len b
     else case longest tbl s (symbols b) of
            Some (n, a) \<Rightarrow> r = Inr a \<and> lex_curr_pos b' = min (lex_curr_pos b + int n) (lex_buffer_len b)
          | None \<Rightarrow> r = Inl (Failure ''lexing: empty token'')"
    using lex_loop_longest [OF assms(1,2), of ?b] assms(3) unfolding e by (fastforce split: if_splits option.splits)
  have c: "caml_lex_engine tbl s b = Some (r, b')" by (simp add: caml_lex_engine_def enter_state_first [OF s] r(1))
  show ?thesis
  proof (cases "\<exists>t. run_to tbl s (symbols b) = Some t \<and> \<not> final tbl t")
    case True
    then obtain t where t: "run_to tbl s (symbols b) = Some t" "\<not> final tbl t" by blast
    have "0 \<le> t" using run_to_state [OF assms(1,2) _ t(1)] symbols_range by (simp add: is_state_def)
    moreover have "r = Inr (- t - 1)" using r(2) True t(1) by simp
    ultimately show ?thesis using c t by (intro exI [of _ r] exI [of _ b']) simp
  next
    case False
    show ?thesis
    proof (cases "longest tbl s (symbols b)")
      case None
      then have "r = Inl (Failure ''lexing: empty token'')" using r(2) False by simp
      then show ?thesis using c False None unfolding longest_None by (intro exI [of _ r] exI [of _ b']) simp
    next
      case (Some x)
      obtain n a where x: "longest tbl s (symbols b) = Some (n, a)" using Some by (cases x) auto
      then have ra: "r = Inr a" "lex_curr_pos b' = min (lex_curr_pos b + int n) (lex_buffer_len b)" using r(2) False by simp_all
      note l = longest_Some [OF x]
      have "0 \<le> a" using l action_nonneg by blast
      then show ?thesis using c ra False l by (intro exI [of _ r] exI [of _ b']) auto
    qed
  qed
qed

section \<open>Refills\<close>

text \<open>A refill appends to the buffer; an empty one with the flag set ends the input.\<close>

definition refilled :: "u8 list \<Rightarrow> bool \<Rightarrow> lexer_buffer \<Rightarrow> lexer_buffer" where
  "refilled xs eof b =
     b\<lparr>lex_buffer := lex_buffer b @ xs, lex_buffer_len := lex_buffer_len b + int (length xs), lex_eof_reached := eof\<rparr>"

lemma refilled_ok:
  assumes "buffer_ok b" "\<not> lex_eof_reached b"
  shows "buffer_ok (refilled xs eof b)" "symbols (refilled xs eof b) = symbols b @ map uint xs @ (if eof then [256] else [])"
  using assms by (auto simp: buffer_ok_def refilled_def symbols_def)

lemma lex_turn_marked: "wf_lexing_table tbl \<Longrightarrow> is_state tbl s \<Longrightarrow>
    lex_loop tbl s (refilled xs eof (marked tbl s b)) = lex_loop tbl s (refilled xs eof b)" if "\<not> final tbl s"
proof -
  assume a: "wf_lexing_table tbl" "is_state tbl s"
  have nb: "\<not> base_of tbl s < 0" using that by (simp add: final_def)
  have "mark_backtrack k (refilled xs eof (mark_backtrack k b)) = mark_backtrack k (refilled xs eof b)" for k
    by (simp add: mark_backtrack_def refilled_def)
  then have "lex_turn tbl s (refilled xs eof (marked tbl s b)) = lex_turn tbl s (refilled xs eof b)"
    using that nb by (simp add: lex_turn_def wf_tableD [OF a] marked_def Let_def)
  then show ?thesis by (simp add: lex_loop.simps [of tbl s])
qed

lemma lex_loop_refilled:
  assumes "wf_lexing_table tbl" "is_state tbl s" "buffer_ok b" "\<not> lex_eof_reached b" "- 1 \<le> lex_last_action b"
    and "lex_loop tbl s b = Some (Inr a, b')" "a < 0"
  shows "is_state tbl (- a - 1) \<and> lex_loop tbl (- a - 1) (refilled xs eof b') = lex_loop tbl s (refilled xs eof b)"
  using assms(2-6)
proof (induction "symbols b" arbitrary: s b)
  case Nil
  have r: "needs_refill b" using Nil symbols_Nil [OF Nil.prems(2)] by simp
  have f: "\<not> final tbl s" using Nil.prems(5) assms(7) turn_final [OF assms(1) Nil.prems(1), of b] by (auto simp: final_def)
  then have "a = - s - 1" "b' = marked tbl s b" using turn_refill [OF assms(1) Nil.prems(1) f r] Nil.prems(5) by simp_all
  then show ?case using lex_turn_marked [OF f assms(1) Nil.prems(1)] Nil.prems(1) by simp
next
  case (Cons c w)
  note sw = Cons.hyps(2) [symmetric]
  have "buffer_ok (marked tbl s b)" "symbols (marked tbl s b) = c # w" using Cons.prems(2) sw by simp_all
  note sy = symbols_Cons [OF this, unfolded marked_ok]
  have c: "c \<noteq> 256" using sw Cons.prems(3) sy(6) Cons.prems(2) by (auto simp: symbols_def buffer_ok_def split: if_splits)
  have f: "\<not> final tbl s" using Cons.prems(5) assms(7) turn_final [OF assms(1) Cons.prems(1), of b] by (auto simp: final_def)
  note turn = turn_read [OF assms(1) Cons.prems(1) f Cons.prems(2) sw]
  have la: "- 1 \<le> lex_last_action (consume c (marked tbl s b))" "\<not> lex_eof_reached (consume c (marked tbl s b))"
    using Cons.prems(3,4) c by (simp_all add: consume_def marked_def mark_backtrack_def)
  obtain t where t: "goes_to tbl s c = Some t"
    using turn Cons.prems(5) la(1) assms(7) c by (cases "goes_to tbl s c") (auto simp: backtrack_def Let_def split: if_splits)
  then have st: "is_state tbl t" using wf_tableD(3) [OF assms(1) Cons.prems(1) f sy(1,2)] f by (auto simp: goes_to_def split: if_splits)
  note rf = refilled_ok [OF Cons.prems(2,3), of xs eof]
  have "consume c (marked tbl s (refilled xs eof b)) = refilled xs eof (consume c (marked tbl s b))"
    using c by (simp add: consume_def marked_def mark_backtrack_def refilled_def)
  then have "lex_loop tbl s (refilled xs eof b) = lex_loop tbl t (refilled xs eof (consume c (marked tbl s b)))"
    using turn_read [OF assms(1) Cons.prems(1) f rf(1), of c "w @ map uint xs @ (if eof then [256] else [])"] rf(2) sw t by simp
  moreover have "lex_loop tbl t (consume c (marked tbl s b)) = Some (Inr a, b')" using turn Cons.prems(5) t by simp
  ultimately show ?case using Cons.hyps(1) [of "consume c (marked tbl s b)" t] sy(3,4) st la by simp
qed


section \<open>The engine with memory\<close>

lemma new_lex_loop_forget:
  assumes "new_lex_loop tbl s b = Some (r, b')"
  shows "lex_loop tbl s (forget b) = Some (r, forget b')"
  using assms
proof (induction tbl s b rule: new_lex_loop.induct)
  case (1 tbl s b)
  obtain t where t: "new_lex_turn tbl s b = Some t" using "1.prems" by (auto simp: new_lex_loop.simps [of tbl s b] split: option.splits)
  note f = new_lex_turn_forget [OF t]
  show ?case
  proof (cases t)
    case (Inl x)
    then show ?thesis using "1.prems" t f by (cases x) (simp add: new_lex_loop.simps [of tbl s b] lex_loop.simps [of tbl s])
  next
    case (Inr x)
    obtain s1 b1 where x: "x = (s1, b1)" by (cases x)
    then have "new_lex_loop tbl s1 b1 = Some (r, b')" using "1.prems" t Inr by (simp add: new_lex_loop.simps [of tbl s b])
    then have "lex_loop tbl s1 (forget b1) = Some (r, forget b')" using "1.IH" t Inr x by simp
    then show ?thesis using f Inr x by (simp add: lex_loop.simps [of tbl s])
  qed
qed

text \<open>
  C32. When the engine with memory returns, the old engine on the same buffer without the memory
  returns the same result and leaves the same buffer.
\<close>

theorem new_engine_same_tokens:
  assumes "caml_new_lex_engine tbl start_state lexbuf = Some (r, lexbuf')"
  shows "caml_lex_engine tbl start_state (forget lexbuf) = Some (r, forget lexbuf')"
proof -
  have "enter_state start_state (forget lexbuf) = map_prod id forget (enter_state start_state lexbuf)"
    by (simp add: enter_state_def forget_def)
  then show ?thesis
    using assms by (auto simp: caml_lex_engine_def caml_new_lex_engine_def split_beta intro: new_lex_loop_forget)
qed

section \<open>An example\<close>

text \<open>The automaton of \<open>'a'+\<close>, with action 0.\<close>

definition example_lexer :: lexing_table where
  "example_lexer =
     \<lparr>lex_base = [0, 1], lex_backtrk = [0xFFFF, 0], lex_default = [0xFFFF, 0xFFFF],
      lex_trans = (replicate 258 0xFFFF)[97 := 1, 98 := 1], lex_check = (replicate 258 0xFFFF)[97 := 0, 98 := 1],
      lex_base_code = [0, 0], lex_backtrk_code = [0, 0], lex_default_code = [0, 0],
      lex_trans_code = replicate 257 0, lex_check_code = replicate 257 0xFFFF, lex_code = [0xFF]\<rparr>"

definition example_buffer :: "u8 list \<Rightarrow> lexer_buffer" where
  "example_buffer bs =
     \<lparr>lex_buffer = bs, lex_buffer_len = int (length bs), lex_start_pos = 0, lex_curr_pos = 0, lex_last_pos = 0,
      lex_last_action = - 1, lex_eof_reached = False, lex_mem = []\<rparr>"

lemma example_next:
  assumes "0 \<le> c" "c \<le> 256" "s = 0 \<or> s = 1"
  shows "next_state example_lexer s s c = Some (if c = 97 then 1 else - 1)"
proof -
  have n: "nat (s + c) < 258" "0 \<le> s + c" using assms by (auto simp: nat_less_iff)
  have e: "nat (s + c) = 97 \<longleftrightarrow> s + c = 97" "nat (s + c) = 98 \<longleftrightarrow> s + c = 98" using n(2) by auto
  have "Short (lex_check example_lexer) (s + c) = Some (if s + c = 98 then 1 else if s + c = 97 then 0 else - 1)"
    "Short (lex_trans example_lexer) (s + c) = Some (if s + c = 98 \<or> s + c = 97 then 1 else - 1)"
    "Short (lex_default example_lexer) s = Some (- 1)"
    using n e assms(3) by (auto simp: Short_def example_lexer_def nth_list_update signed_take_bit_numeral_of_1)
  then show ?thesis using assms by (auto simp: next_state_def)
qed

lemma example_lexer_ok: "wf_lexing_table example_lexer" "is_state example_lexer 0" "buffer_ok (example_buffer bs)"
proof -
  have l: "lex_base example_lexer = [0, 1]" "lex_backtrk example_lexer = [0xFFFF, 0]" by (simp_all add: example_lexer_def)
  have b: "base_of example_lexer 0 = 0" "base_of example_lexer 1 = 1" by (simp_all add: base_of_def l)
  have ok: "final example_lexer s \<or> nat s < length (lex_backtrk example_lexer) \<and>
        (\<forall>c\<in>set (map int [0..<257]).
           case next_state example_lexer s (base_of example_lexer s) c of None \<Rightarrow> False | Some t \<Rightarrow> t < int (length (lex_base example_lexer)))"
    if s: "s = 0 \<or> s = 1" for s
  proof (intro disjI2 conjI ballI)
    show "nat s < length (lex_backtrk example_lexer)" using s by (auto simp: l)
    fix c assume "c \<in> set (map int [0..<257])"
    then have "0 \<le> c" "c \<le> 256" by auto
    moreover have "base_of example_lexer s = s" using s b by auto
    ultimately show "case next_state example_lexer s (base_of example_lexer s) c of None \<Rightarrow> False | Some t \<Rightarrow> t < int (length (lex_base example_lexer))"
      using example_next [OF _ _ s, of c] by (simp add: l)
  qed
  have "set (map int [0..<length (lex_base example_lexer)]) = {0, 1}" by (simp add: l upt_rec)
  then show "wf_lexing_table example_lexer" unfolding wf_lexing_table_def using ok by blast
  show "is_state example_lexer 0" by (simp add: is_state_def l)
  show "buffer_ok (example_buffer bs)" by (simp add: buffer_ok_def example_buffer_def)
qed

lemma caml_lex_engine_longest_match_witness:
  "\<exists>n t. run_to example_lexer 0 (take n [97, 97, 98]) = Some t \<and> action example_lexer t = Some 0 \<and>
     lex_curr_pos (snd (the (caml_lex_engine example_lexer 0 (example_buffer [97, 97, 98])))) = min (int n) 3"
proof -
  have f: "fst (the (caml_lex_engine example_lexer 0 (example_buffer [97, 97, 98]))) = Inr 0" by code_simp
  have sy: "symbols (example_buffer [97, 97, 98]) = [97, 97, 98]" "lex_curr_pos (example_buffer [97, 97, 98]) = 0"
    "lex_buffer_len (example_buffer [97, 97, 98]) = 3" by (simp_all add: symbols_def example_buffer_def)
  obtain r b' where r: "caml_lex_engine example_lexer 0 (example_buffer [97, 97, 98]) = Some (r, b')"
    "0 \<le> a \<and> r = Inr a \<Longrightarrow> \<exists>n t. run_to example_lexer 0 (take n [97, 97, 98]) = Some t \<and> action example_lexer t = Some a \<and>
       lex_curr_pos b' = min (0 + int n) 3" for a
    using caml_lex_engine_longest_match [OF example_lexer_ok, of "[97, 97, 98]"] unfolding sy by blast
  then show ?thesis using f r(2) [of 0] by simp
qed


lemma new_engine_same_tokens_witness:
  "caml_lex_engine example_lexer 0 (forget (example_buffer [97, 98])) =
     Some (Inr 0, forget (snd (the (caml_new_lex_engine example_lexer 0 (example_buffer [97, 98])))))"
proof -
  have "caml_new_lex_engine example_lexer 0 (example_buffer [97, 98]) \<noteq> None \<and>
      fst (the (caml_new_lex_engine example_lexer 0 (example_buffer [97, 98]))) = Inr 0" by code_simp
  then have "caml_new_lex_engine example_lexer 0 (example_buffer [97, 98]) =
      Some (Inr 0, snd (the (caml_new_lex_engine example_lexer 0 (example_buffer [97, 98]))))"
    by (metis option.collapse prod.collapse)
  then show ?thesis by (rule new_engine_same_tokens)
qed

end
