(* ===== verification/Parsing.thy ===== *)
theory Parsing
  imports Lexing
begin

text \<open>
  The parsing engine (\<open>parsing.c\<close>): the pushdown automaton for the tables ocamlyacc writes. The
  engine is called with an input and returns an output that says what the OCaml side is to do next:
  read a token, grow the stacks, compute a semantic action, call the error function. Tagged integers
  are numbers here; semantic values and positions are arguments of the types. Reading or writing a
  stack or a table out of range is \<open>None\<close>. The tables have the layout of those of \<open>Lexing\<close>, read with
  \<open>Short\<close>. The messages of the trace are left out.
\<close>

section \<open>Data\<close>

definition ERRCODE :: int where "ERRCODE = 256"

record parser_tables =
  transl_const :: "int list"
  transl_block :: "int list"
  lhs_of :: "u16 list"
  len_of :: "u16 list"
  defred :: "u16 list"
  dgoto :: "u16 list"
  sindex :: "u16 list"
  rindex :: "u16 list"
  gindex :: "u16 list"
  tablesize :: int
  table_of :: "u16 list"
  check_of :: "u16 list"

record ('v, 'p) parser_env =
  s_stack :: "int list"
  v_stack :: "'v list"
  symb_start_stack :: "'p list"
  symb_end_stack :: "'p list"
  stacksize :: int
  stackbase :: int
  curr_char :: int
  lval :: 'v
  symb_start :: 'p
  symb_end :: 'p
  env_asp :: int
  rule_len :: int
  rule_number :: int
  env_sp :: int
  env_state :: int
  env_errflag :: int

text \<open>A token: a constant constructor, or a block with its argument. The inputs carry the argument of the call.\<close>

datatype 'v token = Const_token int | Block_token int 'v

datatype 'v parser_input =
    START
  | TOKEN_READ "'v token"
  | STACKS_GROWN_1
  | STACKS_GROWN_2
  | SEMANTIC_ACTION_COMPUTED 'v
  | ERROR_DETECTED

datatype parser_output =
    READ_TOKEN
  | RAISE_PARSE_ERROR
  | GROW_STACKS_1
  | GROW_STACKS_2
  | COMPUTE_SEMANTIC_ACTION
  | CALL_ERROR_FUNCTION

text \<open>The local variables.\<close>

record locals =
  l_state :: int
  l_sp :: int
  l_errflag :: int

definition SAVE :: "locals \<Rightarrow> ('v, 'p) parser_env \<Rightarrow> ('v, 'p) parser_env" where
  "SAVE l env = env\<lparr>env_sp := l_sp l, env_state := l_state l, env_errflag := l_errflag l\<rparr>"

definition RESTORE :: "('v, 'p) parser_env \<Rightarrow> locals" where
  "RESTORE env = \<lparr>l_state = env_state env, l_sp = env_sp env, l_errflag = env_errflag env\<rparr>"

text \<open>\<open>Field\<close> of a stack or of a translation table.\<close>

definition item :: "'x list \<Rightarrow> int \<Rightarrow> 'x option" where
  "item xs i = (if 0 \<le> i \<and> nat i < length xs then Some (xs ! nat i) else None)"

definition set_item :: "'x list \<Rightarrow> int \<Rightarrow> 'x \<Rightarrow> 'x list option" where
  "set_item xs i x = (if 0 \<le> i \<and> nat i < length xs then Some (xs[nat i := x]) else None)"

text \<open>\<open>sp\<close> is unsigned, and what it is compared with is converted.\<close>

definition below_size :: "int \<Rightarrow> ('v, 'p) parser_env \<Rightarrow> bool" where
  "below_size sp env \<longleftrightarrow> stacksize env < 0 \<or> sp < stacksize env"

definition at_base :: "int \<Rightarrow> ('v, 'p) parser_env \<Rightarrow> bool" where
  "at_base sp env \<longleftrightarrow> stackbase env < 0 \<or> sp \<le> stackbase env"

section \<open>The automaton\<close>

text \<open>
  The table_entry of the packed table for a row and a column, if there is one: \<open>n1 = Short(index, row);
  n2 = n1 + column;\<close> and the three tests.
\<close>

definition table_entry :: "parser_tables \<Rightarrow> u16 list \<Rightarrow> int \<Rightarrow> int \<Rightarrow> int option option" where
  "table_entry tables index row column =
     Option.bind (Short index row) (\<lambda>n1.
       let n2 = n1 + column
       in if n1 \<noteq> 0 \<and> n2 \<ge> 0 \<and> n2 \<le> tablesize tables then
            map_option (\<lambda>c. if c = column then Some n2 else None) (Short (check_of tables) n2)
          else Some None)"

datatype label = Loop | Testshift | Recover | Shift int | Shift_recover int | Push | Reduce int | Semantic_action

type_synonym ('v, 'p) jump = "(parser_output \<times> ('v, 'p) parser_env) + (label \<times> locals \<times> ('v, 'p) parser_env)"

definition at_loop :: "parser_tables \<Rightarrow> locals \<Rightarrow> ('v, 'p) parser_env \<Rightarrow> ('v, 'p) jump option" where
  "at_loop tables l env =
     map_option (\<lambda>n.
       if n \<noteq> 0 then Inr (Reduce n, l, env)
       else if curr_char env \<ge> 0 then Inr (Testshift, l, env)
       else Inl (READ_TOKEN, SAVE l env))
     (Short (defred tables) (l_state l))"

definition at_testshift :: "parser_tables \<Rightarrow> locals \<Rightarrow> ('v, 'p) parser_env \<Rightarrow> ('v, 'p) jump option" where
  "at_testshift tables l env =
     Option.bind (table_entry tables (sindex tables) (l_state l) (curr_char env)) (\<lambda>e.
       case e of
         Some n2 \<Rightarrow> Some (Inr (Shift n2, l, env))
       | None \<Rightarrow>
           Option.bind (table_entry tables (rindex tables) (l_state l) (curr_char env)) (\<lambda>e.
             case e of
               Some n2 \<Rightarrow> map_option (\<lambda>n. Inr (Reduce n, l, env)) (Short (table_of tables) n2)
             | None \<Rightarrow> Some (if l_errflag l > 0 then Inr (Recover, l, env) else Inl (CALL_ERROR_FUNCTION, SAVE l env))))"

text \<open>The search for a state that shifts the error token: the stack pointer and the entry found, if any.\<close>

function discard_states :: "parser_tables \<Rightarrow> ('v, 'p) parser_env \<Rightarrow> int \<Rightarrow> (int \<times> int) option option" where
  "discard_states tables env sp =
     Option.bind (item (s_stack env) sp) (\<lambda>state1.
     Option.bind (table_entry tables (sindex tables) state1 ERRCODE) (\<lambda>e.
       case e of
         Some n2 \<Rightarrow> Some (Some (sp, n2))
       | None \<Rightarrow> if at_base sp env then Some None else discard_states tables env (sp - 1)))"
  by pat_completeness auto
termination
proof (relation "measure (\<lambda>(tables, env, sp). nat (sp + 1))")
  fix tables :: parser_tables and env :: "('v, 'p) parser_env" and sp state1 :: int and e :: "int option"
  assume "item (s_stack env) sp = Some state1"
  then have "0 \<le> sp" by (simp add: item_def split: if_splits)
  then show "((tables, env, sp - 1), tables, env, sp) \<in> measure (\<lambda>(tables, env, sp). nat (sp + 1))" by simp
qed simp

declare discard_states.simps [simp del]

definition at_recover :: "parser_tables \<Rightarrow> locals \<Rightarrow> ('v, 'p) parser_env \<Rightarrow> ('v, 'p) jump option" where
  "at_recover tables l env =
     (if l_errflag l < 3 then
        map_option (\<lambda>found.
          case found of
            Some (sp, n2) \<Rightarrow> Inr (Shift_recover n2, l\<lparr>l_errflag := 3, l_sp := sp\<rparr>, env)
          | None \<Rightarrow> Inl (RAISE_PARSE_ERROR, env))
        (discard_states tables env (l_sp l))
      else if curr_char env = 0 then Some (Inl (RAISE_PARSE_ERROR, env))
      else Some (Inr (Loop, l, env\<lparr>curr_char := - 1\<rparr>)))"

definition at_shift :: "int \<Rightarrow> locals \<Rightarrow> ('v, 'p) parser_env \<Rightarrow> ('v, 'p) jump option" where
  "at_shift n2 l env =
     Some (Inr (Shift_recover n2, if l_errflag l > 0 then l\<lparr>l_errflag := l_errflag l - 1\<rparr> else l, env\<lparr>curr_char := - 1\<rparr>))"

definition at_shift_recover :: "parser_tables \<Rightarrow> int \<Rightarrow> locals \<Rightarrow> ('v, 'p) parser_env \<Rightarrow> ('v, 'p) jump option" where
  "at_shift_recover tables n2 l env =
     map_option (\<lambda>state.
       let l = l\<lparr>l_state := state, l_sp := l_sp l + 1\<rparr>
       in if below_size (l_sp l) env then Inr (Push, l, env) else Inl (GROW_STACKS_1, SAVE l env))
     (Short (table_of tables) n2)"

definition at_push :: "locals \<Rightarrow> ('v, 'p) parser_env \<Rightarrow> ('v, 'p) jump option" where
  "at_push l env =
     Option.bind (set_item (s_stack env) (l_sp l) (l_state l)) (\<lambda>ss.
     Option.bind (set_item (v_stack env) (l_sp l) (lval env)) (\<lambda>vs.
     Option.bind (set_item (symb_start_stack env) (l_sp l) (symb_start env)) (\<lambda>starts.
     Option.bind (set_item (symb_end_stack env) (l_sp l) (symb_end env)) (\<lambda>ends.
       Some (Inr (Loop, l, env\<lparr>s_stack := ss, v_stack := vs, symb_start_stack := starts, symb_end_stack := ends\<rparr>))))))"

definition at_semantic_action :: "locals \<Rightarrow> ('v, 'p) parser_env \<Rightarrow> ('v, 'p) jump option" where
  "at_semantic_action l env = Some (Inl (COMPUTE_SEMANTIC_ACTION, SAVE l env))"

definition at_reduce :: "parser_tables \<Rightarrow> int \<Rightarrow> locals \<Rightarrow> ('v, 'p) parser_env \<Rightarrow> ('v, 'p) jump option" where
  "at_reduce tables n l env =
     Option.bind (Short (len_of tables) n) (\<lambda>m.
       let env = env\<lparr>env_asp := l_sp l, rule_number := n, rule_len := m\<rparr>; sp = l_sp l - m + 1
       in Option.bind (Short (lhs_of tables) n) (\<lambda>m.
          Option.bind (item (s_stack env) (sp - 1)) (\<lambda>state1.
          Option.bind (table_entry tables (gindex tables) m state1) (\<lambda>e.
          Option.bind (case e of Some n2 \<Rightarrow> Short (table_of tables) n2 | None \<Rightarrow> Short (dgoto tables) m) (\<lambda>state.
            let l = l\<lparr>l_state := state, l_sp := sp\<rparr>
            in Some (if below_size sp env then Inr (Semantic_action, l, env) else Inl (GROW_STACKS_2, SAVE l env)))))))"

fun jump_to :: "parser_tables \<Rightarrow> label \<Rightarrow> locals \<Rightarrow> ('v, 'p) parser_env \<Rightarrow> ('v, 'p) jump option" where
  "jump_to tables Loop l env = at_loop tables l env"
| "jump_to tables Testshift l env = at_testshift tables l env"
| "jump_to tables Recover l env = at_recover tables l env"
| "jump_to tables (Shift n2) l env = at_shift n2 l env"
| "jump_to tables (Shift_recover n2) l env = at_shift_recover tables n2 l env"
| "jump_to tables Push l env = at_push l env"
| "jump_to tables (Reduce n) l env = at_reduce tables n l env"
| "jump_to tables Semantic_action l env = at_semantic_action l env"

text \<open>
  The engine never loops: a shift uses up the token that was read, and a second error before one has
  been shifted discards it.
\<close>

fun label_rank :: "label \<Rightarrow> locals \<Rightarrow> ('v, 'p) parser_env \<Rightarrow> nat" where
  "label_rank Loop l env = (if curr_char env \<ge> 0 then 7 else 2) + (if curr_char env \<ge> 0 \<and> l_errflag l < 3 then 20 else 0)"
| "label_rank Testshift l env = 6 + (if l_errflag l < 3 then 20 else 0)"
| "label_rank Recover l env = 4 + (if l_errflag l < 3 then 20 else 0)"
| "label_rank (Shift n2) l env = 5"
| "label_rank (Shift_recover n2) l env = (if curr_char env \<ge> 0 then 9 else 4) + (if curr_char env \<ge> 0 \<and> l_errflag l < 3 then 20 else 0)"
| "label_rank Push l env = (if curr_char env \<ge> 0 then 8 else 3) + (if curr_char env \<ge> 0 \<and> l_errflag l < 3 then 20 else 0)"
| "label_rank (Reduce n) l env = 1"
| "label_rank Semantic_action l env = 0"

lemma jump_to_rank:
  assumes "jump_to tables lb l env = Some (Inr (lb', l', env'))"
  shows "label_rank lb' l' env' < label_rank lb l env"
proof (cases lb)
  case Loop
  then show ?thesis using assms by (auto simp: at_loop_def split: if_splits)
next
  case Testshift
  then have "lb' = Recover \<and> l' = l \<and> env' = env \<or> (\<exists>n. lb' = Reduce n) \<or> (\<exists>n. lb' = Shift n)"
    using assms by (auto simp: at_testshift_def bind_eq_Some_conv split: if_splits option.splits)
  then show ?thesis using Testshift by auto
next
  case Recover
  then have "l_errflag l < 3 \<and> l_errflag l' = 3 \<and> (\<exists>n. lb' = Shift_recover n) \<or> \<not> l_errflag l < 3 \<and> lb' = Loop \<and> curr_char env' = - 1"
    using assms by (auto simp: at_recover_def split: if_splits option.splits)
  then show ?thesis using Recover by auto
next
  case (Shift n2)
  then show ?thesis using assms by (auto simp: at_shift_def)
next
  case (Shift_recover n2)
  then have "lb' = Push \<and> l_errflag l' = l_errflag l \<and> env' = env"
    using assms by (auto simp: at_shift_recover_def Let_def split: if_splits)
  then show ?thesis using Shift_recover by simp
next
  case Push
  then have "lb' = Loop \<and> l' = l \<and> curr_char env' = curr_char env" using assms by (auto simp: at_push_def bind_eq_Some_conv)
  then show ?thesis using Push by simp
next
  case (Reduce n)
  then have "lb' = Semantic_action" using assms by (auto simp: at_reduce_def bind_eq_Some_conv Let_def split: if_splits)
  then show ?thesis using Reduce by simp
next
  case Semantic_action
  then show ?thesis using assms by (simp add: at_semantic_action_def)
qed

function parse_from :: "parser_tables \<Rightarrow> label \<Rightarrow> locals \<Rightarrow> ('v, 'p) parser_env \<Rightarrow> (parser_output \<times> ('v, 'p) parser_env) option" where
  "parse_from tables lb l env =
     (case jump_to tables lb l env of
        None \<Rightarrow> None
      | Some (Inl result) \<Rightarrow> Some result
      | Some (Inr (lb, l, env)) \<Rightarrow> parse_from tables lb l env)"
  by pat_completeness auto
termination by (relation "measure (\<lambda>(tables, lb, l, env). label_rank lb l env)") (auto dest: jump_to_rank)

declare parse_from.simps [simp del]

text \<open>The token just read; \<open>zero\<close> is the value of a token without argument, \<open>Val_long(0)\<close>.\<close>

definition token_read :: "'v \<Rightarrow> parser_tables \<Rightarrow> 'v token \<Rightarrow> ('v, 'p) parser_env \<Rightarrow> ('v, 'p) parser_env option" where
  "token_read zero tables arg env =
     (case arg of
        Block_token tag x \<Rightarrow> map_option (\<lambda>c. env\<lparr>curr_char := c, lval := x\<rparr>) (item (transl_block tables) tag)
      | Const_token n \<Rightarrow> map_option (\<lambda>c. env\<lparr>curr_char := c, lval := zero\<rparr>) (item (transl_const tables) n))"

definition semantic_action_computed :: "locals \<Rightarrow> 'v \<Rightarrow> ('v, 'p) parser_env \<Rightarrow> ('v, 'p) parser_env option" where
  "semantic_action_computed l arg env =
     Option.bind (set_item (s_stack env) (l_sp l) (l_state l)) (\<lambda>ss.
     Option.bind (set_item (v_stack env) (l_sp l) arg) (\<lambda>vs.
     Option.bind (item (symb_end_stack env) (env_asp env)) (\<lambda>e.
     Option.bind (set_item (symb_end_stack env) (l_sp l) e) (\<lambda>ends.
     Option.bind
       (if l_sp l > env_asp env then
          Option.bind (item ends (env_asp env)) (\<lambda>e. set_item (symb_start_stack env) (l_sp l) e)
        else Some (symb_start_stack env)) (\<lambda>starts.
       Some (env\<lparr>s_stack := ss, v_stack := vs, symb_start_stack := starts, symb_end_stack := ends\<rparr>))))))"

definition caml_parse_engine ::
    "'v \<Rightarrow> parser_tables \<Rightarrow> ('v, 'p) parser_env \<Rightarrow> 'v parser_input \<Rightarrow> (parser_output \<times> ('v, 'p) parser_env) option" where
  "caml_parse_engine zero tables env cmd =
     (case cmd of
        START \<Rightarrow> parse_from tables Loop \<lparr>l_state = 0, l_sp = env_sp env, l_errflag = 0\<rparr> env
      | TOKEN_READ arg \<Rightarrow> Option.bind (token_read zero tables arg env) (parse_from tables Testshift (RESTORE env))
      | ERROR_DETECTED \<Rightarrow> parse_from tables Recover (RESTORE env) env
      | STACKS_GROWN_1 \<Rightarrow> parse_from tables Push (RESTORE env) env
      | STACKS_GROWN_2 \<Rightarrow> parse_from tables Semantic_action (RESTORE env) env
      | SEMANTIC_ACTION_COMPUTED arg \<Rightarrow>
          Option.bind (semantic_action_computed (RESTORE env) arg env) (parse_from tables Loop (RESTORE env)))"

end
