(* ===== verification/Parsing_Proofs.thy ===== *)
theory Parsing_Proofs
  imports Parsing
begin

text \<open>
  The parsing engine runs the LR automaton of its tables, on stacks as lists, with the error
  recovery of yacc.
\<close>

section \<open>The automaton on lists\<close>

text \<open>The current state, the four stacks with the top first, the look-ahead and the error flag.\<close>

record ('v, 'p) config =
  cur :: int
  states :: "int list"
  vals :: "'v list"
  starts :: "'p list"
  ends :: "'p list"
  la :: int
  la_val :: 'v
  la_start :: 'p
  la_end :: 'p
  err :: int

definition shift_to :: "parser_tables \<Rightarrow> int \<Rightarrow> int \<Rightarrow> int option" where
  "shift_to tables s c =
     (case table_entry tables (sindex tables) s c of Some (Some n2) \<Rightarrow> Short (table_of tables) n2 | _ \<Rightarrow> None)"

definition reduce_by :: "parser_tables \<Rightarrow> int \<Rightarrow> int \<Rightarrow> int option" where
  "reduce_by tables s c =
     (case table_entry tables (rindex tables) s c of Some (Some n2) \<Rightarrow> Short (table_of tables) n2 | _ \<Rightarrow> None)"

definition no_shift :: "parser_tables \<Rightarrow> int \<Rightarrow> int \<Rightarrow> bool" where
  "no_shift tables s c \<longleftrightarrow> table_entry tables (sindex tables) s c = Some None"

definition no_reduce :: "parser_tables \<Rightarrow> int \<Rightarrow> int \<Rightarrow> bool" where
  "no_reduce tables s c \<longleftrightarrow> table_entry tables (rindex tables) s c = Some None"

definition no_default :: "parser_tables \<Rightarrow> int \<Rightarrow> bool" where
  "no_default tables s \<longleftrightarrow> Short (defred tables) s = Some 0"

definition goto_state :: "parser_tables \<Rightarrow> int \<Rightarrow> int \<Rightarrow> int option" where
  "goto_state tables s nonterm =
     (case table_entry tables (gindex tables) nonterm s of
        Some (Some n2) \<Rightarrow> Short (table_of tables) n2
      | Some None \<Rightarrow> Short (dgoto tables) nonterm
      | None \<Rightarrow> None)"

definition push_state :: "int \<Rightarrow> ('v, 'p) config \<Rightarrow> ('v, 'p) config" where
  "push_state t c =
     c\<lparr>cur := t, states := t # states c, vals := la_val c # vals c, starts := la_start c # starts c, ends := la_end c # ends c\<rparr>"

definition pop_states :: "nat \<Rightarrow> ('v, 'p) config \<Rightarrow> ('v, 'p) config" where
  "pop_states k c = c\<lparr>states := drop k (states c), vals := drop k (vals c), starts := drop k (starts c), ends := drop k (ends c)\<rparr>"

text \<open>An error: nothing to do in the current state with the look-ahead.\<close>

definition stuck :: "parser_tables \<Rightarrow> ('v, 'p) config \<Rightarrow> bool" where
  "stuck tables c \<longleftrightarrow> no_default tables (cur c) \<and> no_shift tables (cur c) (la c) \<and> no_reduce tables (cur c) (la c)"

text \<open>The steps that the engine makes by itself; \<open>base\<close> is the number of states that recovery keeps.\<close>

inductive lr_step :: "parser_tables \<Rightarrow> nat \<Rightarrow> ('v, 'p) config \<Rightarrow> ('v, 'p) config \<Rightarrow> bool" for tables base where
  shift: "no_default tables (cur c) \<Longrightarrow> shift_to tables (cur c) (la c) = Some t \<Longrightarrow>
    lr_step tables base c (push_state t (c\<lparr>la := - 1, err := (if err c > 0 then err c - 1 else err c)\<rparr>))"
| recover: "stuck tables c \<Longrightarrow> err c < 3 \<Longrightarrow> k < length (states c) \<Longrightarrow> k = 0 \<or> base < length (states c) - (k - 1) \<Longrightarrow>
    \<forall>j<k. no_shift tables (states c ! j) ERRCODE \<Longrightarrow> shift_to tables (states c ! k) ERRCODE = Some t \<Longrightarrow>
    lr_step tables base c (push_state t ((pop_states k c)\<lparr>err := 3\<rparr>))"
| discard: "stuck tables c \<Longrightarrow> err c \<ge> 3 \<Longrightarrow> la c \<noteq> 0 \<Longrightarrow> lr_step tables base c (c\<lparr>la := - 1\<rparr>)"

section \<open>The configuration of the engine\<close>

definition lower :: "int \<Rightarrow> 'x list \<Rightarrow> 'x list" where
  "lower sp xs = rev (take (nat (sp + 1)) xs)"

definition config_of :: "locals \<Rightarrow> ('v, 'p) parser_env \<Rightarrow> ('v, 'p) config" where
  "config_of l env =
     \<lparr>cur = l_state l, states = lower (l_sp l) (s_stack env), vals = lower (l_sp l) (v_stack env),
      starts = lower (l_sp l) (symb_start_stack env), ends = lower (l_sp l) (symb_end_stack env),
      la = curr_char env, la_val = lval env, la_start = symb_start env, la_end = symb_end env, err = l_errflag l\<rparr>"

definition aligned :: "locals \<Rightarrow> ('v, 'p) parser_env \<Rightarrow> bool" where
  "aligned l env \<longleftrightarrow> - 1 \<le> l_sp l \<and> nat (l_sp l + 1) \<le> length (s_stack env) \<and> nat (l_sp l + 1) \<le> length (v_stack env) \<and>
     nat (l_sp l + 1) \<le> length (symb_start_stack env) \<and> nat (l_sp l + 1) \<le> length (symb_end_stack env)"

text \<open>The number of states up to the base of this parser.\<close>

definition base_of_env :: "('v, 'p) parser_env \<Rightarrow> nat" where
  "base_of_env env = nat (stackbase env + 1)"

lemma lower_set_item:
  assumes "set_item xs (sp + 1) x = Some ys" "- 1 \<le> sp"
  shows "lower (sp + 1) ys = x # lower sp xs" "nat (sp + 1 + 1) \<le> length ys"
proof -
  let ?n = "nat (sp + 1)"
  have n: "?n < length xs" "ys = xs[?n := x]" using assms(1) by (auto simp: set_item_def split: if_splits)
  have s: "nat (sp + 1 + 1) = Suc ?n" using assms(2) by simp
  then show "lower (sp + 1) ys = x # lower sp xs" using n by (simp add: lower_def take_Suc_conv_app_nth)
  show "nat (sp + 1 + 1) \<le> length ys" using n s by simp
qed

lemma lower_drop: "int k \<le> sp + 1 \<Longrightarrow> nat (sp + 1) \<le> length xs \<Longrightarrow> lower (sp - int k) xs = drop k (lower sp xs)"
proof -
  assume a: "int k \<le> sp + 1" "nat (sp + 1) \<le> length xs"
  then have "nat (sp - int k + 1) = nat (sp + 1) - k" by (simp add: nat_diff_distrib' algebra_simps)
  then show ?thesis using a by (simp add: lower_def rev_take drop_rev [symmetric] min_def add.commute)
qed

lemma item_lower:
  assumes "nat (sp + 1) \<le> length xs" "- 1 \<le> sp"
  shows "item xs sp = (case lower sp xs of [] \<Rightarrow> None | x # _ \<Rightarrow> Some x)"
proof (cases "sp = - 1")
  case False
  then have n: "nat (sp + 1) = Suc (nat sp)" "0 \<le> sp" using assms(2) by simp_all
  then show ?thesis using assms(1) by (simp add: item_def lower_def take_Suc_conv_app_nth)
qed (simp add: item_def lower_def)

lemma length_lower: "nat (sp + 1) \<le> length xs \<Longrightarrow> length (lower sp xs) = nat (sp + 1)"
  by (simp add: lower_def)

lemma config_sp:
  assumes "aligned l env" "int k \<le> l_sp l + 1"
  shows "config_of (l\<lparr>l_sp := l_sp l - int k\<rparr>) env = pop_states k (config_of l env)" "aligned (l\<lparr>l_sp := l_sp l - int k\<rparr>) env"
  using assms by (auto simp: config_of_def pop_states_def aligned_def lower_drop)

section \<open>Shifts\<close>

lemma jump_result: "jump_to tables lb l env = Some (Inl r) \<Longrightarrow> parse_from tables lb l env = Some r"
  and jump_on: "jump_to tables lb l env = Some (Inr (lb', l', env')) \<Longrightarrow> parse_from tables lb l env = parse_from tables lb' l' env'"
  and jump_Some: "parse_from tables lb l env = Some r \<Longrightarrow> \<exists>j. jump_to tables lb l env = Some j"
  by (simp_all add: parse_from.simps [of tables lb] split: option.splits)

lemma push_ok:
  assumes "parse_from tables (Shift_recover n2) l env = Some (out, env')" "out \<noteq> GROW_STACKS_1" "aligned l env"
  obtains t env1 where "Short (table_of tables) n2 = Some t" "parse_from tables Loop (l\<lparr>l_state := t, l_sp := l_sp l + 1\<rparr>) env1 = Some (out, env')"
    "config_of (l\<lparr>l_state := t, l_sp := l_sp l + 1\<rparr>) env1 = push_state t (config_of l env)"
    "aligned (l\<lparr>l_state := t, l_sp := l_sp l + 1\<rparr>) env1" "stackbase env1 = stackbase env" "curr_char env1 = curr_char env"
proof -
  obtain t where t: "Short (table_of tables) n2 = Some t"
    using jump_Some [OF assms(1)] by (auto simp: at_shift_recover_def)
  let ?l = "l\<lparr>l_state := t, l_sp := l_sp l + 1\<rparr>"
  have b: "below_size (l_sp l + 1) env"
    using assms(1,2) t by (cases "below_size (l_sp l + 1) env") (auto simp: parse_from.simps [of tables "Shift_recover n2"] at_shift_recover_def Let_def)
  then have p: "parse_from tables Push ?l env = Some (out, env')"
    using assms(1) jump_on [of tables "Shift_recover n2" l env Push ?l env] t by (simp add: at_shift_recover_def Let_def)
  obtain ss vs sts es where st: "set_item (s_stack env) (l_sp l + 1) t = Some ss" "set_item (v_stack env) (l_sp l + 1) (lval env) = Some vs"
    "set_item (symb_start_stack env) (l_sp l + 1) (symb_start env) = Some sts" "set_item (symb_end_stack env) (l_sp l + 1) (symb_end env) = Some es"
    using jump_Some [OF p] by (auto simp: at_push_def bind_eq_Some_conv)
  let ?env = "env\<lparr>s_stack := ss, v_stack := vs, symb_start_stack := sts, symb_end_stack := es\<rparr>"
  have "parse_from tables Loop ?l ?env = Some (out, env')"
    using p jump_on [of tables Push ?l env Loop ?l ?env] st by (simp add: at_push_def)
  moreover have sp: "- 1 \<le> l_sp l" using assms(3) by (simp add: aligned_def)
  have "config_of ?l ?env = push_state t (config_of l env)"
    using st [THEN lower_set_item(1), OF sp] by (simp add: config_of_def push_state_def)
  moreover have "aligned ?l ?env" using st [THEN lower_set_item(2), OF sp] sp by (simp add: aligned_def)
  ultimately show ?thesis using that [of t ?env] t by simp
qed

lemma discard_states_ok:
  assumes "discard_states tables env sp = Some r" "nat (sp + 1) \<le> length (s_stack env)" "- 1 \<le> sp" "0 \<le> stackbase env"
  shows "case r of
      Some (sp', n2) \<Rightarrow> \<exists>k. sp' = sp - int k \<and> k < nat (sp + 1) \<and> (k = 0 \<or> base_of_env env < nat (sp + 1) - (k - 1)) \<and>
        (\<forall>j<k. no_shift tables (lower sp (s_stack env) ! j) ERRCODE) \<and>
        table_entry tables (sindex tables) (lower sp (s_stack env) ! k) ERRCODE = Some (Some n2)
    | None \<Rightarrow> \<forall>j<nat (sp + 1). j = 0 \<or> base_of_env env \<le> nat (sp + 1) - j \<longrightarrow> no_shift tables (lower sp (s_stack env) ! j) ERRCODE"
  using assms(1-3)
proof (induction "nat (sp + 1)" arbitrary: sp)
  case 0
  then show ?case by (simp add: discard_states.simps [of tables env sp] item_def split: if_splits)
next
  case (Suc n)
  let ?xs = "lower sp (s_stack env)"
  have sp: "0 \<le> sp" using Suc.hyps(2) by simp
  then have n: "nat sp = n" "nat (sp - 1 + 1) = n" using Suc.hyps(2) by simp_all
  obtain x where x: "item (s_stack env) sp = Some x" using Suc.prems(1) by (auto simp: discard_states.simps [of tables env sp] bind_eq_Some_conv)
  then have h: "?xs ! 0 = x" "?xs = x # tl ?xs" using item_lower [OF Suc.prems(2,3)] by (auto split: list.splits)
  have tl: "lower (sp - 1) (s_stack env) = tl ?xs" using lower_drop [of 1 sp "s_stack env"] sp Suc.prems(2) by (simp add: drop_Suc)
  have nth: "?xs ! Suc j = lower (sp - 1) (s_stack env) ! j" for j
  proof -
    have "(x # tl ?xs) ! Suc j = tl ?xs ! j" by simp
    then show ?thesis using h(2) tl by metis
  qed
  obtain e where e: "table_entry tables (sindex tables) x ERRCODE = Some e"
    using Suc.prems(1) x by (auto simp: discard_states.simps [of tables env sp] bind_eq_Some_conv)
  show ?case
  proof (cases e)
    case (Some n2)
    then have "r = Some (sp, n2)" using Suc.prems(1) x e by (simp add: discard_states.simps [of tables env sp])
    then show ?thesis using sp e Some h(1) by (auto intro!: exI [of _ 0])
  next
    case None
    then have ns: "no_shift tables (?xs ! 0) ERRCODE" using e h(1) by (simp add: no_shift_def)
    show ?thesis
    proof (cases "at_base sp env")
      case True
      then have "r = None" using Suc.prems(1) x e None by (simp add: discard_states.simps [of tables env sp])
      moreover have b: "nat (sp + 1) \<le> base_of_env env" using True assms(4) by (auto simp: at_base_def base_of_env_def)
      have "no_shift tables (?xs ! j) ERRCODE" if j: "j < nat (sp + 1)" "j = 0 \<or> base_of_env env \<le> nat (sp + 1) - j" for j
      proof -
        have "j = 0" using j b by linarith
        then show ?thesis using ns by simp
      qed
      ultimately show ?thesis by simp
    next
      case False
      then have r: "discard_states tables env (sp - 1) = Some r" using Suc.prems(1) x e None by (simp add: discard_states.simps [of tables env sp])
      have base: "base_of_env env < nat (sp + 1)" using False assms(4) by (auto simp: at_base_def base_of_env_def)
      have "nat (sp - 1 + 1) \<le> length (s_stack env)" "- 1 \<le> sp - 1" using Suc.prems(2) sp by simp_all
      note IH = Suc.hyps(1) [OF n(2) [symmetric] r this, unfolded n(2)]
      show ?thesis
      proof (cases r)
        case None
        then have "no_shift tables (?xs ! j) ERRCODE" if "j < nat (sp + 1)" "j = 0 \<or> base_of_env env \<le> nat (sp + 1) - j" for j
          using IH ns that by (cases j) (auto simp: nth Suc.hyps(2) [symmetric])
        then show ?thesis using None by simp
      next
        case (Some y)
        obtain sp' n2 where y: "y = (sp', n2)" by (cases y)
        then obtain k where k: "sp' = sp - 1 - int k" "k < n" "k = 0 \<or> base_of_env env < n - (k - 1)"
          "\<forall>j<k. no_shift tables (lower (sp - 1) (s_stack env) ! j) ERRCODE"
          "table_entry tables (sindex tables) (lower (sp - 1) (s_stack env) ! k) ERRCODE = Some (Some n2)"
          using IH Some by auto
        have "\<forall>j<Suc k. no_shift tables (?xs ! j) ERRCODE" using k(4) ns by (auto simp: less_Suc_eq_0_disj nth)
        moreover have "base_of_env env < nat (sp + 1) - (Suc k - 1)" using k(2,3) base Suc.hyps(2) by (cases k) auto
        ultimately show ?thesis using k Some y Suc.hyps(2) by (auto intro!: exI [of _ "Suc k"] simp: nth)
      qed
    qed
  qed
qed

section \<open>Calls\<close>

definition rules_ok :: "parser_tables \<Rightarrow> bool" where
  "rules_ok tables \<longleftrightarrow> (\<forall>m\<in>set (len_of tables). 0 \<le> sint m)"

definition ready_to_reduce :: "parser_tables \<Rightarrow> ('v, 'p) config \<Rightarrow> int \<Rightarrow> bool" where
  "ready_to_reduce tables c n \<longleftrightarrow>
     Short (defred tables) (cur c) = Some n \<and> n \<noteq> 0 \<or>
     no_default tables (cur c) \<and> no_shift tables (cur c) (la c) \<and> reduce_by tables (cur c) (la c) = Some n"

text \<open>The configuration under a reduction that has been prepared.\<close>

definition before_action :: "int \<Rightarrow> ('v, 'p) parser_env \<Rightarrow> ('v, 'p) config" where
  "before_action s env = config_of \<lparr>l_state = s, l_sp = env_asp env, l_errflag = env_errflag env\<rparr> env"

definition aligned_action :: "('v, 'p) parser_env \<Rightarrow> bool" where
  "aligned_action env \<longleftrightarrow> aligned \<lparr>l_state = 0, l_sp = env_asp env, l_errflag = 0\<rparr> env \<and>
     0 \<le> rule_len env \<and> rule_len env \<le> env_asp env \<and> env_sp env = env_asp env - rule_len env + 1"

text \<open>What a configuration and the environment are when the engine returns.\<close>

fun stopped :: "parser_tables \<Rightarrow> nat \<Rightarrow> parser_output \<Rightarrow> ('v, 'p) config \<Rightarrow> ('v, 'p) parser_env \<Rightarrow> bool" where
  "stopped tables base READ_TOKEN c env \<longleftrightarrow>
     no_default tables (cur c) \<and> la c < 0 \<and> config_of (RESTORE env) env = c \<and> aligned (RESTORE env) env"
| "stopped tables base CALL_ERROR_FUNCTION c env \<longleftrightarrow>
     stuck tables c \<and> err c \<le> 0 \<and> config_of (RESTORE env) env = c \<and> aligned (RESTORE env) env"
| "stopped tables base RAISE_PARSE_ERROR c env \<longleftrightarrow>
     stuck tables c \<and>
     (if err c < 3 then \<forall>j<length (states c). j = 0 \<or> base \<le> length (states c) - j \<longrightarrow> no_shift tables (states c ! j) ERRCODE
      else la c = 0)"
| "stopped tables base COMPUTE_SEMANTIC_ACTION c env \<longleftrightarrow>
     before_action (cur c) env = c \<and> aligned_action env \<and> ready_to_reduce tables c (rule_number env) \<and>
     Short (len_of tables) (rule_number env) = Some (rule_len env) \<and>
     (\<exists>nonterm. Short (lhs_of tables) (rule_number env) = Some nonterm \<and>
        goto_state tables (states c ! nat (rule_len env)) nonterm = Some (env_state env))"
| "stopped tables base GROW_STACKS_1 c env \<longleftrightarrow> True"
| "stopped tables base GROW_STACKS_2 c env \<longleftrightarrow> True"

definition growing :: "parser_output \<Rightarrow> bool" where
  "growing out \<longleftrightarrow> out = GROW_STACKS_1 \<or> out = GROW_STACKS_2"

lemma table_entry_cases:
  "table_entry tables (sindex tables) s c = Some (Some n2) \<Longrightarrow> shift_to tables s c = Short (table_of tables) n2"
  "table_entry tables (rindex tables) s c = Some (Some n2) \<Longrightarrow> reduce_by tables s c = Short (table_of tables) n2"
  by (simp_all add: shift_to_def reduce_by_def)

lemma Short_len: "rules_ok tables \<Longrightarrow> Short (len_of tables) n = Some m \<Longrightarrow> 0 \<le> m"
  by (auto simp: rules_ok_def Short_def split: if_splits)

lemma reduce_ok:
  assumes "parse_from tables (Reduce n) l env = Some (out, env')" "\<not> growing out" "aligned l env" "rules_ok tables"
    "ready_to_reduce tables (config_of l env) n"
  shows "out = COMPUTE_SEMANTIC_ACTION \<and> stopped tables base out (config_of l env) env'"
proof -
  obtain j where j: "jump_to tables (Reduce n) l env = Some j" using jump_Some [OF assms(1)] by blast
  then obtain m nonterm state1 e t where t: "Short (len_of tables) n = Some m" "Short (lhs_of tables) n = Some nonterm"
    "item (s_stack env) (l_sp l - m) = Some state1" "table_entry tables (gindex tables) nonterm state1 = Some e"
    "(case e of Some n2 \<Rightarrow> Short (table_of tables) n2 | None \<Rightarrow> Short (dgoto tables) nonterm) = Some t"
    by (auto simp: at_reduce_def bind_eq_Some_conv Let_def)
  let ?env = "env\<lparr>env_asp := l_sp l, rule_number := n, rule_len := m\<rparr>" and ?l = "l\<lparr>l_state := t, l_sp := l_sp l - m + 1\<rparr>"
  have d: "jump_to tables (Reduce n) l env =
      Some (if below_size (l_sp l - m + 1) env then Inr (Semantic_action, ?l, ?env) else Inl (GROW_STACKS_2, SAVE ?l ?env))"
    using t by (simp add: at_reduce_def Let_def below_size_def)
  then have "below_size (l_sp l - m + 1) env" using assms(1,2) jump_result [of tables "Reduce n" l env] by (auto simp: growing_def split: if_splits)
  then have "parse_from tables Semantic_action ?l ?env = Some (out, env')" using jump_on [of tables "Reduce n" l env] d assms(1) by simp
  then have out: "out = COMPUTE_SEMANTIC_ACTION" "env' = SAVE ?l ?env"
    using jump_result [of tables Semantic_action ?l ?env] by (simp_all add: at_semantic_action_def)
  have m: "0 \<le> m" by (rule Short_len [OF assms(4) t(1)])
  have len: "nat (l_sp l + 1) \<le> length (s_stack env)" "- 1 \<le> l_sp l" using assms(3) by (simp_all add: aligned_def)
  have le: "m \<le> l_sp l" using t(3) by (auto simp: item_def split: if_splits)
  have "states (config_of l env) ! nat m = state1"
  proof -
    have i: "item (s_stack env) (l_sp l - int (nat m)) = (case drop (nat m) (lower (l_sp l) (s_stack env)) of [] \<Rightarrow> None | x # _ \<Rightarrow> Some x)"
      using item_lower [of "l_sp l - int (nat m)" "s_stack env"] lower_drop [of "nat m" "l_sp l" "s_stack env"] len le m by simp
    then have "drop (nat m) (lower (l_sp l) (s_stack env)) \<noteq> []" "hd (drop (nat m) (lower (l_sp l) (s_stack env))) = state1"
      using t(3) m by (auto split: list.splits)
    then show ?thesis by (simp add: config_of_def hd_drop_conv_nth)
  qed
  then have "goto_state tables (states (config_of l env) ! nat m) nonterm = Some t" using t(4,5) by (cases e) (simp_all add: goto_state_def)
  moreover have "before_action (l_state l) env' = config_of l env"
    by (simp add: out before_action_def config_of_def SAVE_def)
  moreover have "aligned_action env'" using assms(3) m le by (simp add: out aligned_action_def SAVE_def aligned_def)
  ultimately show ?thesis using t(1,2) assms(5) by (simp add: out(1)) (simp add: out(2) SAVE_def config_of_def)
qed

text \<open>The engine at a label, and what is to be shown of it.\<close>

definition runs_from :: "parser_tables \<Rightarrow> parser_output \<times> ('v, 'p) parser_env \<Rightarrow> label \<Rightarrow> locals \<Rightarrow> ('v, 'p) parser_env \<Rightarrow> bool" where
  "runs_from tables r lb l env \<longleftrightarrow>
     parse_from tables lb l env = Some r \<and> \<not> growing (fst r) \<and> rules_ok tables \<and> aligned l env \<and> 0 \<le> stackbase env \<and>
     (lb = Loop \<or> lb = Testshift \<and> no_default tables (l_state l) \<or> lb = Recover \<and> stuck tables (config_of l env))"

definition reaches :: "parser_tables \<Rightarrow> parser_output \<times> ('v, 'p) parser_env \<Rightarrow> nat \<Rightarrow> ('v, 'p) config \<Rightarrow> bool" where
  "reaches tables r base c \<longleftrightarrow> (\<exists>c'. (lr_step tables base)\<^sup>*\<^sup>* c c' \<and> stopped tables base (fst r) c' (snd r))"

definition runs_below :: "parser_tables \<Rightarrow> parser_output \<times> ('v, 'p) parser_env \<Rightarrow> label \<Rightarrow> locals \<Rightarrow> ('v, 'p) parser_env \<Rightarrow> bool" where
  "runs_below tables r lb l env \<longleftrightarrow>
     (\<forall>lb' l' env'. label_rank lb' l' env' < label_rank lb l env \<and> runs_from tables r lb' l' env' \<longrightarrow>
        reaches tables r (base_of_env env') (config_of l' env'))"

lemma reaches_here: "stopped tables base out c env' \<Longrightarrow> reaches tables (out, env') base c"
  by (auto simp: reaches_def)

lemma reaches_step: "lr_step tables base c c' \<Longrightarrow> reaches tables r base c' \<Longrightarrow> reaches tables r base c"
  unfolding reaches_def by (meson converse_rtranclp_into_rtranclp)

lemma config_fields: "cur (config_of l env) = l_state l" "la (config_of l env) = curr_char env" "err (config_of l env) = l_errflag l"
  by (simp_all add: config_of_def)

lemma saved:
  assumes "aligned l env"
  shows "RESTORE (SAVE l env) = l" "config_of l (SAVE l env) = config_of l env" "aligned l (SAVE l env)"
  using assms by (simp_all add: RESTORE_def SAVE_def config_of_def aligned_def)

lemma loop_runs:
  assumes r: "runs_from tables (out, env') Loop l env" and below: "runs_below tables (out, env') Loop l env"
  shows "reaches tables (out, env') (base_of_env env) (config_of l env)"
proof -
  note r1 = r [unfolded runs_from_def, simplified]
  obtain j where "jump_to tables Loop l env = Some j" using jump_Some r1 by blast
  then obtain n where n: "Short (defred tables) (l_state l) = Some n" by (auto simp: at_loop_def)
  consider "n \<noteq> 0" | "n = 0" "curr_char env \<ge> 0" | "n = 0" "curr_char env < 0" by linarith
  then show ?thesis
  proof cases
    case 1
    then have "parse_from tables (Reduce n) l env = Some (out, env')" using jump_on [of tables Loop l env] r1 n by (simp add: at_loop_def)
    moreover have "ready_to_reduce tables (config_of l env) n" using n 1 by (simp add: ready_to_reduce_def config_fields)
    ultimately show ?thesis using r1 reduce_ok by (intro reaches_here) blast
  next
    case 2
    then have p: "jump_to tables Loop l env = Some (Inr (Testshift, l, env))" using n by (simp add: at_loop_def)
    then have "runs_from tables (out, env') Testshift l env"
      using jump_on [OF p] r1 2(1) n by (simp add: runs_from_def no_default_def)
    then show ?thesis using below jump_to_rank [OF p] unfolding runs_below_def by blast
  next
    case 3
    then have "(out, env') = (READ_TOKEN, SAVE l env)" using jump_result [of tables Loop l env] r1 n by (simp add: at_loop_def)
    then show ?thesis using 3 n r1 by (intro reaches_here) (simp add: config_fields no_default_def saved)
  qed
qed

lemma testshift_runs:
  assumes r: "runs_from tables (out, env') Testshift l env" and below: "runs_below tables (out, env') Testshift l env"
  shows "reaches tables (out, env') (base_of_env env) (config_of l env)"
proof -
  let ?c = "config_of l env"
  note r1 = r [unfolded runs_from_def, simplified] and go = jump_on [of tables Testshift l env]
  obtain j where jT: "jump_to tables Testshift l env = Some j" using jump_Some r1 by blast
  obtain e where e: "table_entry tables (sindex tables) (l_state l) (curr_char env) = Some e" using jT by (auto simp: at_testshift_def bind_eq_Some_conv)
  show ?thesis
  proof (cases e)
    case (Some n2)
    let ?l = "if l_errflag l > 0 then l\<lparr>l_errflag := l_errflag l - 1\<rparr> else l" and ?env = "env\<lparr>curr_char := - 1\<rparr>"
    have s: "jump_to tables Testshift l env = Some (Inr (Shift n2, l, env))" using e Some by (simp add: at_testshift_def)
    have s1: "jump_to tables (Shift n2) l env = Some (Inr (Shift_recover n2, ?l, ?env))" by (simp add: at_shift_def)
    have p: "parse_from tables (Shift_recover n2) ?l ?env = Some (out, env')" using go [OF s] jump_on [OF s1] r1 by simp
    have al: "aligned ?l ?env" "out \<noteq> GROW_STACKS_1" using r1 by (simp_all add: aligned_def growing_def)
    obtain t env1 where t: "Short (table_of tables) n2 = Some t" "parse_from tables Loop (?l\<lparr>l_state := t, l_sp := l_sp ?l + 1\<rparr>) env1 = Some (out, env')"
      "config_of (?l\<lparr>l_state := t, l_sp := l_sp ?l + 1\<rparr>) env1 = push_state t (config_of ?l ?env)"
      "aligned (?l\<lparr>l_state := t, l_sp := l_sp ?l + 1\<rparr>) env1" "stackbase env1 = stackbase ?env" "curr_char env1 = curr_char ?env"
      by (rule push_ok [OF p al(2,1)])
    have c: "config_of ?l ?env = ?c\<lparr>la := - 1, err := (if err ?c > 0 then err ?c - 1 else err ?c)\<rparr>" by (simp add: config_of_def)
    have step: "lr_step tables (base_of_env env) ?c (push_state t (config_of ?l ?env))"
      unfolding c using e Some t(1) r1 by (intro lr_step.shift) (simp_all add: config_fields table_entry_cases)
    have b: "base_of_env env1 = base_of_env env" using t(5) by (simp add: base_of_env_def)
    have "runs_from tables (out, env') Loop (?l\<lparr>l_state := t, l_sp := l_sp ?l + 1\<rparr>) env1"
      using t(2,4,5) r1 by (simp add: runs_from_def)
    moreover have "label_rank Loop (?l\<lparr>l_state := t, l_sp := l_sp ?l + 1\<rparr>) env1 < label_rank Testshift l env" using t(6) by simp
    ultimately have "reaches tables (out, env') (base_of_env env1) (config_of (?l\<lparr>l_state := t, l_sp := l_sp ?l + 1\<rparr>) env1)"
      using below unfolding runs_below_def by blast
    then show ?thesis unfolding b t(3) by (rule reaches_step [OF step])
  next
    case None
    then have ns: "no_shift tables (l_state l) (curr_char env)" using e by (simp add: no_shift_def)
    obtain f where f: "table_entry tables (rindex tables) (l_state l) (curr_char env) = Some f"
      using jT e None by (auto simp: at_testshift_def bind_eq_Some_conv)
    show ?thesis
    proof (cases f)
      case (Some n2)
      then obtain n where n: "Short (table_of tables) n2 = Some n" using jT e None f by (auto simp: at_testshift_def)
      then have "parse_from tables (Reduce n) l env = Some (out, env')" using go r1 e None f Some by (simp add: at_testshift_def)
      moreover have "ready_to_reduce tables ?c n" using n ns r1 f Some by (simp add: ready_to_reduce_def config_fields table_entry_cases)
      ultimately show ?thesis using r1 reduce_ok by (intro reaches_here) blast
    next
      case fN: None
      then have st: "stuck tables ?c" using ns f r1 by (simp add: stuck_def config_fields no_reduce_def)
      show ?thesis
      proof (cases "l_errflag l > 0")
        case True
        then have p: "jump_to tables Testshift l env = Some (Inr (Recover, l, env))" using e None f fN by (simp add: at_testshift_def)
        then have "runs_from tables (out, env') Recover l env" using go r1 st by (simp add: runs_from_def)
        then show ?thesis using below jump_to_rank [OF p] unfolding runs_below_def by blast
      next
        case False
        then have "(out, env') = (CALL_ERROR_FUNCTION, SAVE l env)" using jump_result [of tables Testshift l env] r1 e None f fN by (simp add: at_testshift_def)
        then show ?thesis using st False r1 by (intro reaches_here) (simp add: config_fields saved)
      qed
    qed
  qed
qed

lemma recover_runs:
  assumes r: "runs_from tables (out, env') Recover l env" and below: "runs_below tables (out, env') Recover l env"
  shows "reaches tables (out, env') (base_of_env env) (config_of l env)"
proof (cases "l_errflag l < 3")
  case False
  let ?c = "config_of l env"
  note r1 = r [unfolded runs_from_def, simplified]
  show ?thesis
  proof (cases "curr_char env = 0")
    case True
    then have "(out, env') = (RAISE_PARSE_ERROR, env)" using jump_result [of tables Recover l env] r1 False by (simp add: at_recover_def)
    then show ?thesis using True False r1 by (intro reaches_here) (simp add: config_fields)
  next
    case c: False
    then have p: "jump_to tables Recover l env = Some (Inr (Loop, l, env\<lparr>curr_char := - 1\<rparr>))" using False by (simp add: at_recover_def)
    have "runs_from tables (out, env') Loop l (env\<lparr>curr_char := - 1\<rparr>)" using jump_on [OF p] r1 by (simp add: runs_from_def aligned_def)
    then have "reaches tables (out, env') (base_of_env env) (?c\<lparr>la := - 1\<rparr>)"
      using below [unfolded runs_below_def, rule_format, of Loop l "env\<lparr>curr_char := - 1\<rparr>"] jump_to_rank [OF p]
      by (simp add: base_of_env_def config_of_def)
    moreover have "lr_step tables (base_of_env env) ?c (?c\<lparr>la := - 1\<rparr>)" using r1 False c by (intro lr_step.discard) (simp_all add: config_fields)
    ultimately show ?thesis by (rule reaches_step [rotated])
  qed
next
  case True
  let ?c = "config_of l env"
  note r1 = r [unfolded runs_from_def, simplified]
  have al: "nat (l_sp l + 1) \<le> length (s_stack env)" "- 1 \<le> l_sp l" using r1 by (simp_all add: aligned_def)
  have sts: "states ?c = lower (l_sp l) (s_stack env)" "length (states ?c) = nat (l_sp l + 1)"
    by (simp_all add: config_of_def length_lower [OF al(1)])
  obtain j where "jump_to tables Recover l env = Some j" using jump_Some r1 by blast
  then obtain found where f: "discard_states tables env (l_sp l) = Some found" using True by (auto simp: at_recover_def)
  have base: "0 \<le> stackbase env" using r1 by simp
  note found = discard_states_ok [OF f al base, folded sts]
  show ?thesis
  proof (cases found)
    case None
    then have "(out, env') = (RAISE_PARSE_ERROR, env)" using jump_result [of tables Recover l env] r1 True f by (simp add: at_recover_def)
    then show ?thesis using None found True r1 by (intro reaches_here) (simp add: config_fields sts(2))
  next
    case (Some y)
    obtain sp n2 where y: "y = (sp, n2)" by (cases y)
    then obtain k where k: "sp = l_sp l - int k" "k < length (states ?c)" "k = 0 \<or> base_of_env env < length (states ?c) - (k - 1)"
      "\<forall>j<k. no_shift tables (states ?c ! j) ERRCODE" "table_entry tables (sindex tables) (states ?c ! k) ERRCODE = Some (Some n2)"
      using found Some sts(2) by auto
    let ?l = "l\<lparr>l_errflag := 3, l_sp := sp\<rparr>"
    have p: "parse_from tables (Shift_recover n2) ?l env = Some (out, env')"
      using jump_on [of tables Recover l env] r1 True f Some y by (simp add: at_recover_def)
    have sp: "config_of ?l env = (pop_states k ?c)\<lparr>err := 3\<rparr>" "aligned ?l env"
      using config_sp [of l env k] r1 k(1,2) sts(2) by (auto simp: config_of_def aligned_def pop_states_def)
    have o1: "out \<noteq> GROW_STACKS_1" using r1 by (simp add: growing_def)
    obtain t env1 where t: "Short (table_of tables) n2 = Some t" "parse_from tables Loop (?l\<lparr>l_state := t, l_sp := l_sp ?l + 1\<rparr>) env1 = Some (out, env')"
      "config_of (?l\<lparr>l_state := t, l_sp := l_sp ?l + 1\<rparr>) env1 = push_state t (config_of ?l env)"
      "aligned (?l\<lparr>l_state := t, l_sp := l_sp ?l + 1\<rparr>) env1" "stackbase env1 = stackbase env" "curr_char env1 = curr_char env"
      by (rule push_ok [OF p o1 sp(2)])
    have step: "lr_step tables (base_of_env env) ?c (push_state t (config_of ?l env))"
      unfolding sp(1) using k t(1) r1 True by (intro lr_step.recover) (simp_all add: config_fields table_entry_cases)
    have b: "base_of_env env1 = base_of_env env" using t(5) by (simp add: base_of_env_def)
    have "runs_from tables (out, env') Loop (?l\<lparr>l_state := t, l_sp := l_sp ?l + 1\<rparr>) env1"
      using t(2,4,5) r1 by (simp add: runs_from_def)
    moreover have "label_rank Loop (?l\<lparr>l_state := t, l_sp := l_sp ?l + 1\<rparr>) env1 < label_rank Recover l env" using True by simp
    ultimately have "reaches tables (out, env') (base_of_env env1) (config_of (?l\<lparr>l_state := t, l_sp := l_sp ?l + 1\<rparr>) env1)"
      using below unfolding runs_below_def by blast
    then show ?thesis unfolding b t(3) by (rule reaches_step [OF step])
  qed
qed

lemma engine_runs: "runs_from tables r lb l env \<Longrightarrow> reaches tables r (base_of_env env) (config_of l env)"
proof (induction "label_rank lb l env" arbitrary: lb l env rule: less_induct)
  case less
  obtain out env' where r: "r = (out, env')" by (cases r)
  have "runs_below tables r lb l env" using less.hyps unfolding runs_below_def by blast
  moreover have "lb = Loop \<or> lb = Testshift \<or> lb = Recover" using less.prems by (auto simp: runs_from_def)
  ultimately show ?case using less.prems loop_runs testshift_runs recover_runs unfolding r by blast
qed

section \<open>Inputs\<close>

text \<open>The configuration after a reduction of \<open>m\<close> symbols with value \<open>v\<close>; an empty one takes its position from the top.\<close>

definition reduced :: "nat \<Rightarrow> 'v \<Rightarrow> int \<Rightarrow> ('v, 'p) config \<Rightarrow> ('v, 'p) config" where
  "reduced m v t c =
     c\<lparr>cur := t, states := t # drop m (states c), vals := v # drop m (vals c),
       starts := (if m = 0 then hd (ends c) else starts c ! (m - 1)) # drop m (starts c), ends := hd (ends c) # drop m (ends c)\<rparr>"

definition token_code :: "parser_tables \<Rightarrow> 'v token \<Rightarrow> int option" where
  "token_code tables tok =
     (case tok of Const_token n \<Rightarrow> item (transl_const tables) n | Block_token tag x \<Rightarrow> item (transl_block tables) tag)"

definition token_value :: "'v \<Rightarrow> 'v token \<Rightarrow> 'v" where
  "token_value zero tok = (case tok of Const_token n \<Rightarrow> zero | Block_token tag x \<Rightarrow> x)"

text \<open>When an input may be given, and the configuration it makes.\<close>

fun awaits :: "parser_tables \<Rightarrow> 'v parser_input \<Rightarrow> ('v, 'p) parser_env \<Rightarrow> bool" where
  "awaits tables START env \<longleftrightarrow> aligned \<lparr>l_state = 0, l_sp = env_sp env, l_errflag = 0\<rparr> env"
| "awaits tables (TOKEN_READ tok) env \<longleftrightarrow> aligned (RESTORE env) env \<and> no_default tables (env_state env)"
| "awaits tables ERROR_DETECTED env \<longleftrightarrow> aligned (RESTORE env) env \<and> stuck tables (config_of (RESTORE env) env)"
| "awaits tables (SEMANTIC_ACTION_COMPUTED v) env \<longleftrightarrow> aligned_action env"
| "awaits tables STACKS_GROWN_1 env \<longleftrightarrow> False"
| "awaits tables STACKS_GROWN_2 env \<longleftrightarrow> False"

fun given :: "'v \<Rightarrow> parser_tables \<Rightarrow> 'v parser_input \<Rightarrow> ('v, 'p) parser_env \<Rightarrow> ('v, 'p) config" where
  "given zero tables START env = config_of \<lparr>l_state = 0, l_sp = env_sp env, l_errflag = 0\<rparr> env"
| "given zero tables (TOKEN_READ tok) env = (config_of (RESTORE env) env)\<lparr>la := the (token_code tables tok), la_val := token_value zero tok\<rparr>"
| "given zero tables (SEMANTIC_ACTION_COMPUTED v) env = reduced (nat (rule_len env)) v (env_state env) (before_action (env_state env) env)"
| "given zero tables cmd env = config_of (RESTORE env) env"

lemma lower_set:
  assumes "set_item xs sp x = Some ys" "0 \<le> sp"
  shows "lower sp ys = x # lower (sp - 1) xs" "nat (sp + 1) \<le> length ys" "length ys = length xs"
  using lower_set_item [of xs "sp - 1" x ys] assms by (auto simp: set_item_def split: if_splits)

lemma lower_append_irrelevant: "set_item xs sp x = Some ys \<Longrightarrow> 0 \<le> sp \<Longrightarrow> sp' < sp \<Longrightarrow> - 1 \<le> sp' \<Longrightarrow> item ys sp' = item xs sp'"
  by (auto simp: set_item_def item_def split: if_splits)

lemma semantic_action_ok:
  assumes a: "aligned_action env" and r: "semantic_action_computed (RESTORE env) v env = Some env1"
  shows "config_of (RESTORE env) env1 = reduced (nat (rule_len env)) v (env_state env) (before_action (env_state env) env)"
    "aligned (RESTORE env) env1" "stackbase env1 = stackbase env"
proof -
  let ?m = "nat (rule_len env)" and ?sp = "env_sp env" and ?asp = "env_asp env"
  have sp: "?sp = ?asp - int ?m + 1" "0 \<le> ?sp" "?sp - 1 = ?asp - int ?m" "int ?m \<le> ?asp + 1" "0 \<le> ?asp"
    using a by (auto simp: aligned_action_def)
  have len: "nat (?asp + 1) \<le> length (s_stack env)" "nat (?asp + 1) \<le> length (v_stack env)"
    "nat (?asp + 1) \<le> length (symb_start_stack env)" "nat (?asp + 1) \<le> length (symb_end_stack env)"
    using a by (simp_all add: aligned_action_def aligned_def)
  have RS: "l_sp (RESTORE env) = ?sp" "l_state (RESTORE env) = env_state env" by (simp_all add: RESTORE_def)
  obtain ss vs e es sts where st: "set_item (s_stack env) ?sp (env_state env) = Some ss" "set_item (v_stack env) ?sp v = Some vs"
    "item (symb_end_stack env) ?asp = Some e" "set_item (symb_end_stack env) ?sp e = Some es"
    "(if ?sp > ?asp then Option.bind (item es ?asp) (\<lambda>e. set_item (symb_start_stack env) ?sp e) else Some (symb_start_stack env)) = Some sts"
    "Some (env\<lparr>s_stack := ss, v_stack := vs, symb_start_stack := sts, symb_end_stack := es\<rparr>) = Some env1"
    using r unfolding semantic_action_computed_def bind_eq_Some_conv RS by blast
  note env1 = st(6) [unfolded option.inject, symmetric]
  have low: "lower (?sp - 1) xs = drop ?m (lower ?asp xs)" if "nat (?asp + 1) \<le> length xs" for xs :: "'x list"
    unfolding sp(3) using sp(4) that by (rule lower_drop)
  have e: "e = hd (lower ?asp (symb_end_stack env))"
    using st(3) item_lower [OF len(4)] sp(5) by (auto split: list.splits)
  have starts: "lower ?sp sts = (if ?m = 0 then hd (lower ?asp (symb_end_stack env)) else lower ?asp (symb_start_stack env) ! (?m - 1))
      # drop ?m (lower ?asp (symb_start_stack env))" "nat (?sp + 1) \<le> length sts"
  proof -
    have "lower ?sp sts = (if ?m = 0 then hd (lower ?asp (symb_end_stack env)) else lower ?asp (symb_start_stack env) ! (?m - 1))
      # drop ?m (lower ?asp (symb_start_stack env)) \<and> nat (?sp + 1) \<le> length sts"
    proof (cases "?m = 0")
      case True
      then have "?sp > ?asp" using sp(1) by simp
      then have "set_item (symb_start_stack env) ?sp e = Some sts"
        using st(5) lower_append_irrelevant [OF st(4) sp(2), of ?asp] st(3) sp(5) by simp
      from lower_set [OF this sp(2)] show ?thesis using low [OF len(3)] True e by simp
    next
      case False
      then have k: "\<not> ?sp > ?asp" "?sp = ?asp - int (?m - 1)" "int (?m - 1) \<le> ?asp + 1" using sp(1,4) by auto
      have "lower ?sp (symb_start_stack env) = drop (?m - 1) (lower ?asp (symb_start_stack env))"
        using lower_drop [OF k(3) len(3)] k(2) by simp
      moreover have "?m - 1 < length (lower ?asp (symb_start_stack env))" using len(3) sp(4) False by (simp add: length_lower)
      ultimately show ?thesis using st(5) k(1) False len(3) by (simp add: Cons_nth_drop_Suc [symmetric])
    qed
    then show "lower ?sp sts = (if ?m = 0 then hd (lower ?asp (symb_end_stack env)) else lower ?asp (symb_start_stack env) ! (?m - 1))
      # drop ?m (lower ?asp (symb_start_stack env))" "nat (?sp + 1) \<le> length sts" by blast+
  qed
  show "config_of (RESTORE env) env1 = reduced ?m v (env_state env) (before_action (env_state env) env)"
    using lower_set(1) [OF st(1) sp(2)] lower_set(1) [OF st(2) sp(2)] lower_set(1) [OF st(4) sp(2)] low [OF len(1)] low [OF len(2)] low [OF len(4)]
    unfolding config_of_def RESTORE_def before_action_def reduced_def env1 by (simp add: starts(1) e)
  show "aligned (RESTORE env) env1"
    using lower_set(2) [OF st(1) sp(2)] lower_set(2) [OF st(2) sp(2)] lower_set(2) [OF st(4) sp(2)] starts(2) sp(2)
    by (simp add: aligned_def RESTORE_def env1)
  show "stackbase env1 = stackbase env" by (simp add: env1)
qed


section \<open>An example\<close>

text \<open>State 0 shifts the token 1 to state 1, which always reduces by rule 1, of length 1.\<close>

definition example_tables :: parser_tables where
  "example_tables =
     \<lparr>transl_const = [1], transl_block = [], lhs_of = [0, 0], len_of = [0, 1], defred = [0, 1], dgoto = [5],
      sindex = [1, 0], rindex = [0, 0], gindex = [0], tablesize = 2, table_of = [0, 0, 1], check_of = [0, 0, 1]\<rparr>"

text \<open>An environment with room for \<open>n\<close> entries, the first in use, before the token is read.\<close>

definition example_env :: "nat \<Rightarrow> (int, int) parser_env" where
  "example_env n =
     \<lparr>s_stack = replicate n 0, v_stack = replicate n 0, symb_start_stack = replicate n 0, symb_end_stack = replicate n 0,
      stacksize = int n, stackbase = 0, curr_char = - 1, lval = 0, symb_start = 7, symb_end = 9,
      env_asp = 0, rule_len = 0, rule_number = 0, env_sp = 0, env_state = 0, env_errflag = 0\<rparr>"


end
