(* ===== verification/Parsing_Growth.thy ===== *)
theory Parsing_Growth
  imports Parsing_Proofs
begin

text \<open>
  Growing the stacks when the parsing engine asks for it changes nothing else: the call goes on as
  if they had been large enough.
\<close>

section \<open>Growing the stacks\<close>

text \<open>What the OCaml side does when it is asked for larger stacks.\<close>

definition grow :: "int list \<Rightarrow> 'v list \<Rightarrow> 'p list \<Rightarrow> 'p list \<Rightarrow> nat \<Rightarrow> ('v, 'p) parser_env \<Rightarrow> ('v, 'p) parser_env" where
  "grow ss vs sts es k env =
     env\<lparr>s_stack := s_stack env @ ss, v_stack := v_stack env @ vs, symb_start_stack := symb_start_stack env @ sts,
         symb_end_stack := symb_end_stack env @ es, stacksize := stacksize env + int k\<rparr>"

lemma item_append: "item xs i = Some x \<Longrightarrow> item (xs @ ys) i = Some x"
  by (auto simp: item_def nth_append split: if_splits)

lemma set_item_append: "set_item xs i x = Some zs \<Longrightarrow> set_item (xs @ ys) i x = Some (zs @ ys)"
  by (auto simp: set_item_def list_update_append split: if_splits)

lemma grow_simps [simp]:
  "s_stack (grow ss vs sts es k env) = s_stack env @ ss" "v_stack (grow ss vs sts es k env) = v_stack env @ vs"
  "symb_start_stack (grow ss vs sts es k env) = symb_start_stack env @ sts" "symb_end_stack (grow ss vs sts es k env) = symb_end_stack env @ es"
  "stacksize (grow ss vs sts es k env) = stacksize env + int k" "stackbase (grow ss vs sts es k env) = stackbase env"
  "curr_char (grow ss vs sts es k env) = curr_char env" "lval (grow ss vs sts es k env) = lval env"
  "symb_start (grow ss vs sts es k env) = symb_start env" "symb_end (grow ss vs sts es k env) = symb_end env"
  "env_asp (grow ss vs sts es k env) = env_asp env" "RESTORE (grow ss vs sts es k env) = RESTORE env"
  "SAVE l (grow ss vs sts es k env) = grow ss vs sts es k (SAVE l env)"
  "grow ss vs sts es k (env\<lparr>curr_char := c\<rparr>) = (grow ss vs sts es k env)\<lparr>curr_char := c\<rparr>"
  by (simp_all add: grow_def RESTORE_def SAVE_def)

lemma at_base_grow: "at_base sp (grow ss vs sts es k env) \<longleftrightarrow> at_base sp env"
  by (simp add: at_base_def)

lemma discard_states_grow:
  "discard_states tables env sp = Some r \<Longrightarrow> discard_states tables (grow ss vs sts es k env) sp = Some r"
proof (induction tables env sp rule: discard_states.induct)
  case (1 tables env sp)
  obtain x where x: "item (s_stack env) sp = Some x" using "1.prems" by (auto simp: discard_states.simps [of tables env sp] bind_eq_Some_conv)
  obtain e where e: "table_entry tables (sindex tables) x ERRCODE = Some e"
    using "1.prems" x by (auto simp: discard_states.simps [of tables env sp] bind_eq_Some_conv)
  show ?case
    using "1.prems" "1.IH" [OF x e] x e
    by (cases e; cases "at_base sp env") (simp_all add: discard_states.simps [of tables _ sp] item_append at_base_grow)
qed

lemma below_size_grow: "0 \<le> stacksize env \<Longrightarrow> below_size sp env \<Longrightarrow> below_size sp (grow ss vs sts es k env)"
  by (simp add: below_size_def)

lemma jump_grow:
  assumes "jump_to tables lb l env = Some (Inr (lb', l', env'))" "0 \<le> stacksize env"
  shows "jump_to tables lb l (grow ss vs sts es k env) = Some (Inr (lb', l', grow ss vs sts es k env'))" "stacksize env' = stacksize env"
proof -
  let ?g = "grow ss vs sts es k"
  have "jump_to tables lb l (?g env) = Some (Inr (lb', l', ?g env')) \<and> stacksize env' = stacksize env"
  proof (cases lb)
    case Loop
    then show ?thesis using assms by (auto simp: at_loop_def split: if_splits)
  next
    case Testshift
    have "at_testshift tables l (?g env) =
        map_option (map_sum (map_prod id ?g) (map_prod id (map_prod id ?g))) (at_testshift tables l env)"
      by (cases "table_entry tables (sindex tables) (l_state l) (curr_char env)"; cases "table_entry tables (rindex tables) (l_state l) (curr_char env)")
        (simp_all add: at_testshift_def option.map_comp comp_def split: option.split)
    moreover have "env' = env" using assms(1) Testshift by (auto simp: at_testshift_def bind_eq_Some_conv split: if_splits option.splits)
    ultimately show ?thesis using assms Testshift by simp
  next
    case Recover
    show ?thesis
    proof (cases "l_errflag l < 3")
      case True
      then obtain found where f: "discard_states tables env (l_sp l) = Some found" using assms(1) Recover by (auto simp: at_recover_def)
      show ?thesis using assms Recover True by (auto simp: at_recover_def f discard_states_grow [OF f] split: option.splits)
    next
      case False
      then show ?thesis using assms Recover by (auto simp: at_recover_def split: if_splits)
    qed
  next
    case (Shift n2)
    then show ?thesis using assms by (auto simp: at_shift_def)
  next
    case (Shift_recover n2)
    then show ?thesis using assms below_size_grow [OF assms(2)] by (auto simp: at_shift_recover_def Let_def split: if_splits)
  next
    case Push
    then obtain a b c d where u: "set_item (s_stack env) (l_sp l) (l_state l) = Some a" "set_item (v_stack env) (l_sp l) (lval env) = Some b"
      "set_item (symb_start_stack env) (l_sp l) (symb_start env) = Some c" "set_item (symb_end_stack env) (l_sp l) (symb_end env) = Some d"
      using assms(1) by (auto simp: at_push_def bind_eq_Some_conv)
    have e: "lb' = Loop" "l' = l" "env' = env\<lparr>s_stack := a, v_stack := b, symb_start_stack := c, symb_end_stack := d\<rparr>"
      using assms(1) Push by (simp_all add: at_push_def u)
    show ?thesis using Push by (simp add: at_push_def e u [THEN set_item_append]) (simp add: grow_def)
  next
    case (Reduce n)
    then obtain m nonterm state1 e t where t: "Short (len_of tables) n = Some m" "Short (lhs_of tables) n = Some nonterm"
      "item (s_stack env) (l_sp l - m) = Some state1" "table_entry tables (gindex tables) nonterm state1 = Some e"
      "(case e of Some n2 \<Rightarrow> Short (table_of tables) n2 | None \<Rightarrow> Short (dgoto tables) nonterm) = Some t"
      using assms(1) by (auto simp: at_reduce_def bind_eq_Some_conv Let_def)
    have "below_size (l_sp l - m + 1) env"
      using assms(1) Reduce t by (auto simp: at_reduce_def Let_def below_size_def split: if_splits)
    then show ?thesis using assms Reduce t item_append [OF t(3)]
      by (auto simp: at_reduce_def Let_def below_size_def grow_def)
  next
    case Semantic_action
    then show ?thesis using assms by (simp add: at_semantic_action_def)
  qed
  then show "jump_to tables lb l (?g env) = Some (Inr (lb', l', ?g env'))" "stacksize env' = stacksize env" by blast+
qed

text \<open>Where the engine goes on after the stacks have grown.\<close>

definition after_growth :: "parser_output \<Rightarrow> label" where
  "after_growth out = (if out = GROW_STACKS_1 then Push else Semantic_action)"

lemma jump_grow_stop:
  assumes "jump_to tables lb l env = Some (Inl (out, env1))" "growing out" "0 \<le> stacksize env" "env_sp env1 < stacksize env + int k"
  shows "\<exists>l2 env2. env1 = SAVE l2 env2 \<and>
    jump_to tables lb l (grow ss vs sts es k env) = Some (Inr (after_growth out, l2, grow ss vs sts es k env2))"
proof (cases lb)
  case (Shift_recover n2)
  then obtain t where t: "Short (table_of tables) n2 = Some t" using assms(1) by (auto simp: at_shift_recover_def)
  let ?l = "l\<lparr>l_state := t, l_sp := l_sp l + 1\<rparr>"
  have "out = GROW_STACKS_1" "env1 = SAVE ?l env" using assms(1) Shift_recover t by (auto simp: at_shift_recover_def Let_def split: if_splits)
  then show ?thesis using Shift_recover t assms(3,4)
    by (intro exI [of _ ?l] exI [of _ env]) (simp add: at_shift_recover_def Let_def below_size_def after_growth_def SAVE_def)
next
  case (Reduce n)
  then obtain m nonterm state1 e t where t: "Short (len_of tables) n = Some m" "Short (lhs_of tables) n = Some nonterm"
    "item (s_stack env) (l_sp l - m) = Some state1" "table_entry tables (gindex tables) nonterm state1 = Some e"
    "(case e of Some n2 \<Rightarrow> Short (table_of tables) n2 | None \<Rightarrow> Short (dgoto tables) nonterm) = Some t"
    using assms(1) by (auto simp: at_reduce_def bind_eq_Some_conv Let_def)
  let ?l = "l\<lparr>l_state := t, l_sp := l_sp l - m + 1\<rparr>" and ?env = "env\<lparr>env_asp := l_sp l, rule_number := n, rule_len := m\<rparr>"
  have "out = GROW_STACKS_2" "env1 = SAVE ?l ?env" using assms(1) Reduce t by (auto simp: at_reduce_def Let_def below_size_def split: if_splits)
  then show ?thesis using Reduce t item_append [OF t(3)] assms(3,4)
    by (intro exI [of _ ?l] exI [of _ ?env]) (simp add: at_reduce_def Let_def below_size_def after_growth_def SAVE_def grow_def)
qed (use assms(1,2) in \<open>auto simp: at_loop_def at_testshift_def at_recover_def at_shift_def at_push_def at_semantic_action_def growing_def
  bind_eq_Some_conv split: if_splits option.splits\<close>)

lemma parse_from_grow:
  assumes "parse_from tables lb l env = Some (out, env1)" "growing out" "0 \<le> stacksize env" "env_sp env1 < stacksize env + int k"
  shows "\<exists>l2 env2. env1 = SAVE l2 env2 \<and>
    parse_from tables lb l (grow ss vs sts es k env) = parse_from tables (after_growth out) l2 (grow ss vs sts es k env2)"
  using assms
proof (induction tables lb l env rule: parse_from.induct)
  case (1 tables lb l env)
  obtain j where j: "jump_to tables lb l env = Some j" using jump_Some [OF "1.prems"(1)] by blast
  show ?case
  proof (cases j)
    case (Inl r)
    then have "jump_to tables lb l env = Some (Inl (out, env1))" using j "1.prems"(1) jump_result by fastforce
    from jump_grow_stop [OF this "1.prems"(2-4), where ss = ss and vs = vs and sts = sts and es = es] show ?thesis using jump_on by blast
  next
    case (Inr x)
    obtain lb' l' env' where x: "x = (lb', l', env')" by (cases x)
    then have s: "jump_to tables lb l env = Some (Inr (lb', l', env'))" using j Inr by simp
    note g = jump_grow(1) [OF s "1.prems"(3), where ss = ss and vs = vs and sts = sts and es = es and k = k]
    have sz: "stacksize env' = stacksize env" by (rule jump_grow(2) [OF s "1.prems"(3)])
    have "parse_from tables lb' l' env' = Some (out, env1)" using jump_on [OF s] "1.prems"(1) by simp
    then show ?thesis using "1.IH" [OF j Inr, of lb' "(l', env')" l' env'] x "1.prems"(2-4) sz jump_on [OF g] by simp
  qed
qed

text \<open>The saved copies of the local variables only matter when the engine saves them.\<close>

definition same_return :: "(parser_output \<times> ('v, 'p) parser_env) option \<Rightarrow> (parser_output \<times> ('v, 'p) parser_env) option \<Rightarrow> bool" where
  "same_return r r' \<longleftrightarrow>
     (case (r, r') of
        (None, None) \<Rightarrow> True
      | (Some (out, env), Some (out', env')) \<Rightarrow> out = out' \<and> (out \<noteq> RAISE_PARSE_ERROR \<longrightarrow> env = env')
      | _ \<Rightarrow> False)"

lemma SAVE_simps [simp]:
  "s_stack (SAVE l env) = s_stack env" "v_stack (SAVE l env) = v_stack env" "symb_start_stack (SAVE l env) = symb_start_stack env"
  "symb_end_stack (SAVE l env) = symb_end_stack env" "stacksize (SAVE l env) = stacksize env" "stackbase (SAVE l env) = stackbase env"
  "curr_char (SAVE l env) = curr_char env" "lval (SAVE l env) = lval env" "symb_start (SAVE l env) = symb_start env"
  "symb_end (SAVE l env) = symb_end env" "SAVE l (SAVE k env) = SAVE l env" "RESTORE (SAVE l env) = l"
  "below_size sp (SAVE l env) \<longleftrightarrow> below_size sp env" "at_base sp (SAVE l env) \<longleftrightarrow> at_base sp env"
  by (simp_all add: SAVE_def RESTORE_def below_size_def at_base_def)

lemma discard_states_SAVE: "discard_states tables (SAVE k env) sp = discard_states tables env sp"
proof (induction tables env sp rule: discard_states.induct)
  case (1 tables env sp)
  show ?case
  proof (cases "item (s_stack env) sp")
    case (Some x)
    show ?thesis
    proof (cases "table_entry tables (sindex tables) x ERRCODE")
      case e: (Some e)
      show ?thesis using "1.IH" [OF Some e] Some e by (cases e) (simp_all add: discard_states.simps [of tables _ sp])
    qed (simp add: discard_states.simps [of tables _ sp] Some)
  qed (simp add: discard_states.simps [of tables _ sp])
qed

text \<open>A jump from an environment with other saved copies.\<close>

definition same_jump :: "locals \<Rightarrow> ('v, 'p) jump option \<Rightarrow> ('v, 'p) jump option \<Rightarrow> bool" where
  "same_jump k j j' \<longleftrightarrow>
     (case (j, j') of
        (None, None) \<Rightarrow> True
      | (Some (Inl (out, env)), Some (Inl (out', env'))) \<Rightarrow> out = out' \<and> (out \<noteq> RAISE_PARSE_ERROR \<longrightarrow> env = env')
      | (Some (Inr (lb, l, env)), Some (Inr (lb', l', env'))) \<Rightarrow> lb = lb' \<and> l = l' \<and> env' = SAVE k env
      | _ \<Rightarrow> False)"

lemma jump_SAVE: "same_jump k (jump_to tables lb l env) (jump_to tables lb l (SAVE k env))"
proof (cases lb)
  case Loop
  then show ?thesis by (simp add: same_jump_def at_loop_def split: option.split)
next
  case Testshift
  then show ?thesis
    by (cases "table_entry tables (sindex tables) (l_state l) (curr_char env)"; cases "table_entry tables (rindex tables) (l_state l) (curr_char env)")
      (simp_all add: same_jump_def at_testshift_def split: option.split)
next
  case Recover
  then show ?thesis by (simp add: same_jump_def at_recover_def discard_states_SAVE split: option.split) (simp add: SAVE_def)
next
  case (Shift n2)
  then show ?thesis by (simp add: same_jump_def at_shift_def) (simp add: SAVE_def)
next
  case (Shift_recover n2)
  then show ?thesis by (simp add: same_jump_def at_shift_recover_def Let_def split: option.split)
next
  case Push
  show ?thesis
  proof (cases "at_push l env")
    case None
    then have "at_push l (SAVE k env) = None" by (auto simp: at_push_def bind_eq_None_conv)
    then show ?thesis using Push None by (simp add: same_jump_def)
  next
    case (Some j)
    then obtain a b c d where u: "set_item (s_stack env) (l_sp l) (l_state l) = Some a" "set_item (v_stack env) (l_sp l) (lval env) = Some b"
      "set_item (symb_start_stack env) (l_sp l) (symb_start env) = Some c" "set_item (symb_end_stack env) (l_sp l) (symb_end env) = Some d"
      by (auto simp: at_push_def bind_eq_Some_conv)
    show ?thesis using Push by (simp add: same_jump_def at_push_def u) (simp add: SAVE_def)
  qed
next
  case (Reduce n)
  show ?thesis
  proof (cases "jump_to tables lb l env")
    case None
    then have "jump_to tables lb l (SAVE k env) = None"
      using Reduce by (auto simp: at_reduce_def bind_eq_None_conv Let_def split: if_splits)
    then show ?thesis using None by (simp add: same_jump_def)
  next
    case (Some j)
    then obtain m nonterm state1 e t where t: "Short (len_of tables) n = Some m" "Short (lhs_of tables) n = Some nonterm"
      "item (s_stack env) (l_sp l - m) = Some state1" "table_entry tables (gindex tables) nonterm state1 = Some e"
      "(case e of Some n2 \<Rightarrow> Short (table_of tables) n2 | None \<Rightarrow> Short (dgoto tables) nonterm) = Some t"
      using Reduce by (auto simp: at_reduce_def bind_eq_Some_conv Let_def)
    then show ?thesis using Reduce by (simp add: same_jump_def at_reduce_def Let_def below_size_def) (simp add: SAVE_def)
  qed
next
  case Semantic_action
  then show ?thesis by (simp add: same_jump_def at_semantic_action_def)
qed

lemma parse_from_SAVE: "same_return (parse_from tables lb l env) (parse_from tables lb l (SAVE k env))"
proof (induction tables lb l env rule: parse_from.induct)
  case (1 tables lb l env)
  note sj = jump_SAVE [of k tables lb l env, unfolded same_jump_def]
  show ?case
  proof (cases "jump_to tables lb l env")
    case None
    then show ?thesis using sj by (simp add: parse_from.simps [of tables lb] same_return_def split: option.splits)
  next
    case (Some j)
    show ?thesis
    proof (cases j)
      case (Inl r)
      then show ?thesis using sj Some
        by (auto simp: parse_from.simps [of tables lb] same_return_def split: option.splits sum.splits prod.splits)
    next
      case (Inr x)
      obtain lb' l' env' where x: "x = (lb', l', env')" by (cases x)
      then have s: "jump_to tables lb l env = Some (Inr (lb', l', env'))" "jump_to tables lb l (SAVE k env) = Some (Inr (lb', l', SAVE k env'))"
        using sj Some Inr by (auto split: option.splits sum.splits prod.splits)
      show ?thesis using "1.IH" [OF Some Inr, of lb' "(l', env')" l' env'] x jump_on [OF s(1)] jump_on [OF s(2)] by simp
    qed
  qed
qed

lemma semantic_action_grow:
  assumes "semantic_action_computed l v env = Some env1"
  shows "semantic_action_computed l v (grow ss vs sts es k env) = Some (grow ss vs sts es k env1) \<and> stacksize env1 = stacksize env"
proof -
  obtain a b e d c where u: "set_item (s_stack env) (l_sp l) (l_state l) = Some a" "set_item (v_stack env) (l_sp l) v = Some b"
    "item (symb_end_stack env) (env_asp env) = Some e" "set_item (symb_end_stack env) (l_sp l) e = Some d"
    "(if l_sp l > env_asp env then Option.bind (item d (env_asp env)) (\<lambda>e. set_item (symb_start_stack env) (l_sp l) e)
      else Some (symb_start_stack env)) = Some c"
    "Some (env\<lparr>s_stack := a, v_stack := b, symb_start_stack := c, symb_end_stack := d\<rparr>) = Some env1"
    using assms unfolding semantic_action_computed_def bind_eq_Some_conv by blast
  have "(if l_sp l > env_asp env then Option.bind (item (d @ es) (env_asp env)) (\<lambda>e. set_item (symb_start_stack env @ sts) (l_sp l) e)
      else Some (symb_start_stack env @ sts)) = Some (c @ sts)"
    using u(5) by (auto simp: bind_eq_Some_conv item_append set_item_append split: if_splits)
  then show ?thesis
    using u(6) by (cases "l_sp l > env_asp env")
      (auto simp: semantic_action_computed_def u(1,2,4) [THEN set_item_append] item_append [OF u(3)] bind_eq_Some_conv grow_def)
qed

text \<open>
  C33. When the engine asks for larger stacks, going on with stacks that have room for the next
  table_entry gives what the call gives with these stacks from the start: the size of the stacks does not
  show, but for the saved copies of the local variables when a parse error is raised.
\<close>

theorem stack_growth_transparent:
  assumes "caml_parse_engine zero tables env cmd = Some (out, env1)" "growing out"
    and "0 \<le> stacksize env" "env_sp env1 < stacksize env + int k"
  shows "same_return
    (caml_parse_engine zero tables (grow ss vs sts es k env) cmd)
    (caml_parse_engine zero tables (grow ss vs sts es k env1) (if out = GROW_STACKS_1 then STACKS_GROWN_1 else STACKS_GROWN_2))"
proof -
  let ?g = "grow ss vs sts es k"
  have run: "same_return (parse_from tables lb l (?g env2))
      (caml_parse_engine zero tables (?g env1) (if out = GROW_STACKS_1 then STACKS_GROWN_1 else STACKS_GROWN_2))"
    if p: "parse_from tables lb l env2 = Some (out, env1)" "stacksize env2 = stacksize env" for lb l env2
  proof -
    obtain l2 env3 where e: "env1 = SAVE l2 env3" "parse_from tables lb l (?g env2) = parse_from tables (after_growth out) l2 (?g env3)"
      using parse_from_grow [OF p(1) assms(2), where ss = ss and vs = vs and sts = sts and es = es and k = k] p(2) assms(3,4) by auto
    have "RESTORE (?g env1) = l2" "?g env1 = SAVE l2 (?g env3)" by (simp_all add: e(1))
    then have "caml_parse_engine zero tables (?g env1) (if out = GROW_STACKS_1 then STACKS_GROWN_1 else STACKS_GROWN_2) =
        parse_from tables (after_growth out) l2 (SAVE l2 (?g env3))"
      by (simp add: caml_parse_engine_def after_growth_def)
    then show ?thesis using parse_from_SAVE e(2) by metis
  qed
  show ?thesis
  proof (cases cmd)
    case START
    have "env_sp (?g env) = env_sp env" by (simp add: grow_def)
    then have "caml_parse_engine zero tables (?g env) cmd = parse_from tables Loop \<lparr>l_state = 0, l_sp = env_sp env, l_errflag = 0\<rparr> (?g env)"
      using START by (simp add: caml_parse_engine_def)
    moreover have "parse_from tables Loop \<lparr>l_state = 0, l_sp = env_sp env, l_errflag = 0\<rparr> env = Some (out, env1)"
      using START assms(1) by (simp add: caml_parse_engine_def)
    ultimately show ?thesis using run by simp
  next
    case (TOKEN_READ tok)
    then obtain env2 where e: "token_read zero tables tok env = Some env2" "parse_from tables Testshift (RESTORE env) env2 = Some (out, env1)"
      using assms(1) by (auto simp: caml_parse_engine_def bind_eq_Some_conv)
    have "token_read zero tables tok (?g env) = Some (?g env2)" "stacksize env2 = stacksize env"
      using e(1) by (auto simp: token_read_def grow_def split: token.splits)
    then have "caml_parse_engine zero tables (?g env) cmd = parse_from tables Testshift (RESTORE env) (?g env2)" "stacksize env2 = stacksize env"
      using TOKEN_READ by (simp_all add: caml_parse_engine_def)
    then show ?thesis using run [OF e(2)] by simp
  next
    case (SEMANTIC_ACTION_COMPUTED v)
    then obtain env2 where e: "semantic_action_computed (RESTORE env) v env = Some env2" "parse_from tables Loop (RESTORE env) env2 = Some (out, env1)"
      using assms(1) by (auto simp: caml_parse_engine_def bind_eq_Some_conv)
    have "semantic_action_computed (RESTORE env) v (?g env) = Some (?g env2)" "stacksize env2 = stacksize env"
      using semantic_action_grow [OF e(1)] by blast+
    then have "caml_parse_engine zero tables (?g env) cmd = parse_from tables Loop (RESTORE env) (?g env2)" "stacksize env2 = stacksize env"
      using SEMANTIC_ACTION_COMPUTED by (simp_all add: caml_parse_engine_def)
    then show ?thesis using run [OF e(2)] by simp
  next
    case ERROR_DETECTED
    then have "caml_parse_engine zero tables (?g env) cmd = parse_from tables Recover (RESTORE env) (?g env)"
      "parse_from tables Recover (RESTORE env) env = Some (out, env1)" using assms(1) by (simp_all add: caml_parse_engine_def)
    then show ?thesis using run by simp
  next
    case STACKS_GROWN_1
    then have "caml_parse_engine zero tables (?g env) cmd = parse_from tables Push (RESTORE env) (?g env)"
      "parse_from tables Push (RESTORE env) env = Some (out, env1)" using assms(1) by (simp_all add: caml_parse_engine_def)
    then show ?thesis using run by simp
  next
    case STACKS_GROWN_2
    then have "caml_parse_engine zero tables (?g env) cmd = parse_from tables Semantic_action (RESTORE env) (?g env)"
      "parse_from tables Semantic_action (RESTORE env) env = Some (out, env1)" using assms(1) by (simp_all add: caml_parse_engine_def)
    then show ?thesis using run by simp
  qed
qed

lemma stack_growth_transparent_witness:
  "same_return
     (caml_parse_engine 0 example_tables (grow [0, 0] [0, 0] [0, 0] [0, 0] 2 (example_env 1)) (TOKEN_READ (Const_token 0)))
     (caml_parse_engine 0 example_tables
       (grow [0, 0] [0, 0] [0, 0] [0, 0] 2 (snd (the (caml_parse_engine 0 example_tables (example_env 1) (TOKEN_READ (Const_token 0))))))
       STACKS_GROWN_1)"
proof -
  let ?r = "caml_parse_engine 0 example_tables (example_env 1) (TOKEN_READ (Const_token 0))"
  have f: "?r \<noteq> None \<and> fst (the ?r) = GROW_STACKS_1 \<and> env_sp (snd (the ?r)) = 1" by code_simp
  have "growing GROW_STACKS_1" "stacksize (example_env 1) = 1" by code_simp+
  moreover have "?r = Some (GROW_STACKS_1, snd (the ?r))" using f by (metis option.collapse prod.collapse)
  ultimately show ?thesis
    using stack_growth_transparent [of 0 example_tables "example_env 1" "TOKEN_READ (Const_token 0)" GROW_STACKS_1 "snd (the ?r)" 2
      "[0, 0]" "[0, 0]" "[0, 0]" "[0, 0]"] f by simp
qed

end
