(* ===== verification/Spec2Isabelle.thy ===== *)
theory Spec2Isabelle
  imports Checksum Freelist_Spec Clock Kmod Netif Ints_Proofs Serial Compare_Proofs Md5_Proofs Globroots_Generational Marking_Proofs Heap_Chunks Hash Marshal_Examples Minor_Gc_Heap Write_Barrier Bigarray_Views Bigarray_Marshal Lexing_Proofs Parsing_Growth
begin

text \<open>
  A verification development for the C core of Mirage on the FreeBSD kernel: the OCaml runtime
  in \<open>packages/mirage-platform/runtime/ocaml\<close> and the kernel glue in \<open>runtime/kernel\<close>, as
  built for amd64 with \<open>_KERNEL\<close> defined.

  The program. A kernel module (\<open>kmod.c\<close>) starts one thread that runs OCaml's main function
  until it is done or the module is unloaded; OCaml code calls the kernel through stubs for the
  clock, network interfaces and checksums. The runtime gives it values, a heap and primitives on
  them. Values are tagged words. Small blocks are made in the minor heap, which a copying collector
  empties into the major heap, from the roots and from the tables that the write barrier keeps; the
  major heap is a list of chunks, entered in a page table, whose free blocks are on a free list; a
  mark-and-sweep collector works on it in slices between the steps of the program, from roots that
  include the registered global roots. The primitives compare, hash, digest, marshal and convert
  values; big arrays are views of memory outside the heap; two engines interpret the tables of
  ocamllex and ocamlyacc.

  Theories, and what they model under \<open>src/packages/mirage-platform/runtime\<close>:

  \<^item> \<open>Prelude\<close>: machine words, exceptions, general lemmas. \<open>Transitions\<close>: reachable states and
    inductive invariants, the locale that the kernel module, the network table and marking interpret.
  \<^item> \<open>Values\<close>, \<open>Heap\<close> (\<open>mlvalues.h\<close>, \<open>gc.h\<close>): tagged integers, headers, blocks; a heap as a store
    of blocks, and the finite trees that acyclic values stand for.
  \<^item> \<open>Kmod\<close>, \<open>Clock\<close>, \<open>Netif\<close>, \<open>Checksum\<close> (\<open>kernel/*.c\<close>): the module's life cycle as a step
    relation over the thread, the sysctl handler and the unloader; calendar conversion; the plug
    table, reception queues and the mapping of buffers to mbufs; the internet checksum.
  \<^item> \<open>Freelist\<close>, \<open>Freelist_Proofs\<close>, \<open>Freelist_Spec\<close>, \<open>Word_Allocator\<close> (\<open>freelist.c\<close>): both
    policies over a word-addressed memory; next fit refines an allocator of disjoint words.
  \<^item> \<open>Page_Table\<close>, \<open>Page_Table_Proofs\<close>, \<open>Area_Map\<close>, \<open>Heap_Chunks\<close> (\<open>memory.c\<close>, \<open>memory.h\<close>): the
    hash table of pages refines a map from pages to classes; chaining of chunks.
  \<^item> \<open>Marking\<close>, \<open>Marking_Proofs\<close> (\<open>major_gc.c\<close>, \<open>finalise.c\<close>): the mark stack and its overflow, the
    heap walk, weak arrays, finalisable values; the tri-colour invariant.
  \<^item> \<open>Minor_Gc\<close>, \<open>Minor_Gc_Proofs\<close>, \<open>Minor_Gc_Loops\<close>, \<open>Minor_Gc_Spec\<close>, \<open>Minor_Gc_Heap\<close>
    (\<open>minor_gc.c\<close>, \<open>minor_gc.h\<close>): the reference tables, the copying of one value and of what hangs
    on it, weak pointers; a minor collection replaces the young graph by an isomorphic copy in words
    of an allocator, which the free list interprets. \<open>Write_Barrier\<close> (\<open>memory.c\<close>, \<open>memory.h\<close>):
    assignment keeps the tables complete.
  \<^item> \<open>Globroots\<close> and its proofs, \<open>Root_Set\<close> (\<open>globroots.c\<close>): the skip lists refine a set of roots.
  \<^item> \<open>Ints\<close>, \<open>Ints_Proofs\<close> (\<open>ints.c\<close>): parsing, arithmetic, formatting and serialization of the
    integer types. \<open>Serial\<close> (\<open>extern.c\<close>, \<open>intern.c\<close>): the byte writers and readers as codecs.
  \<^item> \<open>Str\<close>, \<open>Compare\<close>, \<open>Compare_Proofs\<close>, \<open>Three_Way\<close>, \<open>Hash\<close>, \<open>Md5\<close>, \<open>Md5_Proofs\<close> (\<open>str.c\<close>,
    \<open>compare.c\<close>, \<open>hash.c\<close>, \<open>md5.c\<close>): strings, structural comparison with its explicit stack,
    hashing, digests.
  \<^item> \<open>Extern\<close>, \<open>Intern\<close>, \<open>Custom_Ops\<close>, \<open>Marshal_Format\<close>, \<open>Marshal_Graph\<close>, \<open>Marshal_Proofs\<close>,
    \<open>Marshal_Examples\<close> (\<open>extern.c\<close>, \<open>intern.c\<close>, \<open>custom.c\<close>): marshalling with sharing, the trail
    and the output blocks, and reading back: a graph is read back as an isomorphic one.
  \<^item> \<open>Bigarray\<close>, \<open>Bigarray_Ops\<close> (\<open>bigarray_stubs.c\<close>, \<open>cstruct_stubs.c\<close>, \<open>page_stubs.c\<close>): arrays of
    integers in memory outside the heap and every operation on them. \<open>Bigarray_Proofs\<close>: the
    overflow test of sizes, the offset as a bijection; \<open>Bigarray_Elements\<close>: reading and writing;
    \<open>Bigarray_Views\<close>: sub-arrays are views; \<open>Bigarray_Marshal\<close>: writing and reading back.
  \<^item> \<open>Lexing\<close>, \<open>Lexing_Proofs\<close> (\<open>lexing.c\<close>): both lexing engines; the longest match, refills, the
    agreement of the engines.
  \<^item> \<open>Parsing\<close>, \<open>Parsing_Proofs\<close>, \<open>Parsing_Growth\<close> (\<open>parsing.c\<close>): the parsing engine with its
    labels; it runs an LR automaton with error recovery on lists; growing the stacks.

  Interfaces. The locales, with the theory that states each and those that interpret it on the
  model: inductive invariants (\<open>Transitions\<close>; \<open>Kmod\<close>, \<open>Netif\<close>, \<open>Marking_Proofs\<close>), the allocator of
  words (\<open>Word_Allocator\<close>; \<open>Freelist_Spec\<close>, on which \<open>Minor_Gc_Heap\<close> rests), the map of areas
  (\<open>Area_Map\<close>; \<open>Page_Table_Proofs\<close>), the set of roots (\<open>Root_Set\<close>; \<open>Globroots_Proofs\<close>), three-way
  comparison (\<open>Three_Way\<close>; there and \<open>Compare_Proofs\<close>), codecs of bytes (\<open>Serial\<close>; there and
  \<open>Ints_Proofs\<close>, used by \<open>Marshal_Proofs\<close> and \<open>Bigarray_Marshal\<close>), and custom operations that read
  back what they write (\<open>Marshal_Graph\<close>; \<open>Marshal_Proofs\<close>).

  Conventions. A C function is a function on the states it reads and writes, which are passed
  explicitly; a record holds the static variables of a file. Words keep their width and wrap. An
  exception is a value \<open>Inl\<close> of a sum; undefined behaviour (a read outside a block) and a loop
  that does not end are \<open>None\<close>: loops without a bound in the code are \<open>partial_function\<close>s, and the
  theorems about them say that they return. Code that is not in the repository (\<open>malloc\<close>, mbuf
  and clock functions of the kernel, custom operations of other libraries) is an argument; what is
  required of it is a named hypothesis, such as \<open>calloc_bounded\<close>. Addresses in \<open>Freelist\<close>,
  \<open>Marking\<close>, \<open>Minor_Gc\<close> and \<open>Heap\<close> count words, in \<open>Page_Table\<close> and \<open>Bigarray\<close> bytes. The loops of the
  lexing and parsing engines are total functions: their measures say why they end.

  Bounds. The only fuel is that of a slice of marking (\<open>mark_slice\<close>), whose turns the safety
  theorem covers for any number; \<open>compare_primitives_decide\<close> assumes that the values need fewer
  than \<open>2 ^ 19\<close> entries of the comparison stack, beyond which the code raises \<open>Out_of_memory\<close>.

  Not modelled: floating point (compiled out in the kernel); channels and system calls, which the
  kernel build replaces by stubs; the scanning of machine stacks, signals, callbacks and
  exceptions, which are assembly or depend on the code of the native compiler; bytecode tools;
  heap compaction, which threads pointers through the headers of the whole heap; the primitives on
  arrays, objects and weak arrays, which are accesses to blocks as in \<open>Heap\<close> with an allocation by
  the functions modelled here; the parameters and statistics of the collector (\<open>gc_ctrl.c\<close>).
\<close>

end
